(* ===== verification/Prelude.thy ===== *)
theory Prelude
  imports Main "HOL-Library.Word" "HOL-Library.Multiset"
begin

text \<open>
  Shared vocabulary of the development: the integer types of \<^verbatim>\<open>kernel/types.h\<close>, the error
  values by which a run of the C code can stop, the sequencing combinator of the error monad,
  byte memory with little-endian 64-bit accesses, the arithmetic macros of
  \<^verbatim>\<open>kernel/lib/math/math.h\<close>, and the NULL-terminated doubly linked lists that the region,
  block and container chains of the memory manager are instances of.
\<close>

unbundle bit_operations_syntax

named_theorems res_simps \<open>rewriting of the error monad\<close>
named_theorems mem_simps \<open>reads over writes in byte memory\<close>
named_theorems const_defs \<open>the numeric macros of the headers\<close>

section \<open>Integer types\<close>

type_synonym u8 = "8 word"
type_synonym u16 = "16 word"
type_synonym u32 = "32 word"
type_synonym u64 = "64 word"
type_synonym i32 = "32 word"
type_synonym i64 = "64 word"

definition U64_MAX :: u64 where [const_defs]: "U64_MAX = 0xffffffffffffffff"
definition U32_MAX :: u32 where [const_defs]: "U32_MAX = 0xffffffff"
definition U16_MAX :: u16 where [const_defs]: "U16_MAX = 0xffff"
definition U8_MAX :: u8 where [const_defs]: "U8_MAX = 0xff"

section \<open>How a run stops\<close>

text \<open>
  \<open>Panic msg\<close> is a call of the kernel's \<^verbatim>\<open>panic\<close>, which halts the machine. The other
  values are places where the C program has no defined behaviour: a read of a variable that
  was never assigned, a shift of an \<^verbatim>\<open>int\<close> by its width or more, an overflow of a signed product, a division by 0, an access through a
  pointer to no object. \<open>No_Return\<close> is a loop that runs for ever. \<open>Addr_Wrap\<close> stands for a loop over
  pages whose address counter passes the end of the address space without reaching its bound: it
  goes on from address 0 and is not followed further.
\<close>

datatype error = Panic string | Uninit_Read | Shift_UB | Overflow_UB | Div_By_Zero | Fault | No_Return | Addr_Wrap

type_synonym 'a res = "error + 'a"

fun bindR :: "'a res \<Rightarrow> ('a \<Rightarrow> 'b res) \<Rightarrow> 'b res" where
  "bindR (Inl e) f = Inl e"
| "bindR (Inr x) f = f x"

definition deref :: "('k \<rightharpoonup> 'v) \<Rightarrow> 'k \<Rightarrow> 'v res" where
  "deref h p = (case h p of None \<Rightarrow> Inl Fault | Some v \<Rightarrow> Inr v)"

text \<open>
  Loops over pointer chains are \<^theory_text>\<open>partial_function\<close>s with the value \<open>None\<close> for not returning;
  \<open>ret\<close> turns that into the error value of the same meaning.
\<close>

fun ret :: "'a res option \<Rightarrow> 'a res" where
  "ret None = Inl No_Return"
| "ret (Some r) = r"

section \<open>Arithmetic macros\<close>

definition MAX64 :: "u64 \<Rightarrow> u64 \<Rightarrow> u64" where
  "MAX64 a b = (if a > b then a else b)"

definition MIN64 :: "u64 \<Rightarrow> u64 \<Rightarrow> u64" where
  "MIN64 a b = (if a < b then a else b)"

definition ROUNDUP :: "u64 \<Rightarrow> u64 \<Rightarrow> u64" where
  "ROUNDUP nb sz = (nb + sz) AND NOT (sz - 1)"

definition IS_ALIGNED :: "u64 \<Rightarrow> u64 \<Rightarrow> bool" where
  "IS_ALIGNED a b \<longleftrightarrow> a AND (b - 1) = 0"

definition BYTE2KB :: "u64 \<Rightarrow> u64" where
  "BYTE2KB x = x div 1024"

definition BYTE2MB :: "u64 \<Rightarrow> u64" where
  "BYTE2MB x = x div (1024 * 1024)"

text \<open>
  \<^verbatim>\<open>1 << n\<close> with the literal \<open>1\<close> of type \<^verbatim>\<open>int\<close>, converted to \<^verbatim>\<open>u64\<close> by the
  enclosing expression: the shift is done at 32 bits (a count of 32 or more is undefined), and
  the conversion extends the sign bit.
\<close>

definition int_shl1 :: "u64 \<Rightarrow> u64 res" where
  "int_shl1 n = (if n < 32 then Inr (scast (push_bit (unat n) (1 :: i32))) else Inl Shift_UB)"

section \<open>Byte memory\<close>

type_synonym memory = "u64 \<Rightarrow> u8"

definition load64 :: "memory \<Rightarrow> u64 \<Rightarrow> u64" where
  "load64 m a = ucast (m a) OR push_bit 8 (ucast (m (a + 1)))
     OR push_bit 16 (ucast (m (a + 2))) OR push_bit 24 (ucast (m (a + 3)))
     OR push_bit 32 (ucast (m (a + 4))) OR push_bit 40 (ucast (m (a + 5)))
     OR push_bit 48 (ucast (m (a + 6))) OR push_bit 56 (ucast (m (a + 7)))"

definition store64 :: "memory \<Rightarrow> u64 \<Rightarrow> u64 \<Rightarrow> memory" where
  "store64 m a v = (\<lambda>x. if x - a < 8 then ucast (drop_bit (8 * unat (x - a)) v) else m x)"

section \<open>Lemmas on the error monad\<close>

lemma bindR_assoc [res_simps]: "bindR (bindR m f) g = bindR m (\<lambda>x. bindR (f x) g)"
  by (cases m) simp_all

lemma bindR_Inr_iff [res_simps]:
  "bindR m f = Inr y \<longleftrightarrow> (\<exists>x. m = Inr x \<and> f x = Inr y)"
  by (cases m) auto

lemma bindR_Inl_iff:
  "bindR m f = Inl e \<longleftrightarrow> m = Inl e \<or> (\<exists>x. m = Inr x \<and> f x = Inl e)"
  by (cases m) auto

lemma bindR_InrE:
  assumes "bindR m f = Inr y"
  obtains x where "m = Inr x" and "f x = Inr y"
  using assms by (auto simp: bindR_Inr_iff)

lemma bindR_cong [fundef_cong]:
  "m = n \<Longrightarrow> (\<And>x. n = Inr x \<Longrightarrow> f x = g x) \<Longrightarrow> bindR m f = bindR n g"
  by (cases n) auto

lemma deref_Inr_iff [res_simps]: "deref h p = Inr v \<longleftrightarrow> h p = Some v"
  by (auto simp: deref_def split: option.splits)

lemma deref_Some [simp]: "h p = Some v \<Longrightarrow> deref h p = Inr v"
  by (simp add: deref_def)

lemma deref_None [simp]: "h p = None \<Longrightarrow> deref h p = Inl Fault"
  by (simp add: deref_def)

section \<open>Lemmas on words\<close>

lemma unat64_lt: "unat (a :: u64) < 2 ^ 64"
  using unsigned_less [of a] by simp

lemma word_eq_of_nat: "unat (x :: u64) = n \<Longrightarrow> x = of_nat n"
  by auto

lemma unat_of_nat64: "n < 2 ^ 64 \<Longrightarrow> unat (of_nat n :: u64) = n"
  by (simp add: unat_of_nat)

lemma split64:
  fixes n k c :: nat
  assumes "c < 64"
  shows "n = 64 * k + c \<longleftrightarrow> n div 64 = k \<and> n mod 64 = c"
  using assms div_mult_mod_eq [of n 64] by auto

lemma unat_MAX64: "unat (MAX64 a b) = max (unat a) (unat b)"
  by (auto simp: MAX64_def word_less_nat_alt)

lemma unat_MIN64: "unat (MIN64 a b) = min (unat a) (unat b)"
  by (auto simp: MIN64_def word_less_nat_alt)

lemma unat_add_no_wrap:
  fixes a b :: u64
  assumes "unat a + unat b < 2 ^ 64"
  shows "unat (a + b) = unat a + unat b"
  using assms by (simp add: unat_word_ariths)

lemma unat_mult_no_wrap:
  fixes a b :: u64
  assumes "unat a * unat b < 2 ^ 64"
  shows "unat (a * b) = unat a * unat b"
  using assms by (simp add: unat_word_ariths)

lemma unat_sub_no_wrap:
  fixes a b :: u64
  assumes "b \<le> a"
  shows "unat (a - b) = unat a - unat b"
  using assms by (simp add: unat_sub)

lemma unat_diff_sym:
  fixes a b :: u64
  assumes "a \<noteq> b"
  shows "unat (a - b) = 2 ^ 64 - unat (b - a)"
  using assms unat64_lt [of a] unat64_lt [of b]
  by (auto simp: unat_sub_if_size word_size word_unat_eq_iff)

lemma word_suc_le:
  fixes i n :: u64
  assumes "i < n"
  shows "i + 1 \<le> n" and "unat (i + 1) = Suc (unat i)"
proof -
  have "unat i < unat n" using assms by (simp add: word_less_nat_alt)
  then have "unat i + unat (1 :: u64) < 2 ^ 64" using unat64_lt [of n] by simp
  then show u: "unat (i + 1) = Suc (unat i)" by (simp add: unat_add_no_wrap)
  show "i + 1 \<le> n" using assms u by (simp add: word_le_nat_alt word_less_nat_alt)
qed

lemma word_up_decreases:
  fixes i n :: u64
  assumes "i < n"
  shows "unat n - unat (i + 1) < unat n - unat i"
  using assms word_suc_le [OF assms] by (simp add: word_less_nat_alt)

lemma word_down_decreases:
  fixes n :: u64
  assumes "n \<noteq> 0"
  shows "unat (n - 1) < unat n"
  using assms by (simp add: unat_minus_one unat_gt_0)

lemma word_between_suc:
  fixes i d n :: u64
  assumes "i < n"
  shows "i \<le> d \<and> d < n \<longleftrightarrow> d = i \<or> (i + 1 \<le> d \<and> d < n)"
  using assms word_suc_le [OF assms]
  by (auto simp: word_le_nat_alt word_less_nat_alt word_unat_eq_iff)

lemma int_shl1_small:
  assumes "unat n < 31"
  shows "int_shl1 n = Inr (push_bit (unat n) 1)"
proof -
  have n: "n < 32" using assms by (simp add: word_less_nat_alt)
  have "bit (scast (push_bit (unat n) (1 :: i32)) :: u64) k = bit (push_bit (unat n) 1 :: u64) k"
    if "k < 64" for k
    using assms that by (auto simp: bit_simps min_def)
  then have "(scast (push_bit (unat n) (1 :: i32)) :: u64) = push_bit (unat n) 1"
    by (intro bit_word_eqI) simp
  with n show ?thesis by (simp add: int_shl1_def)
qed

lemma int_shl1_31: "int_shl1 31 = Inr 0xffffffff80000000"
  by (simp add: int_shl1_def)

lemma int_shl1_big: "\<not> n < 32 \<Longrightarrow> int_shl1 n = Inl Shift_UB"
  by (simp add: int_shl1_def)

section \<open>Lemmas on byte memory\<close>

lemma bit_push_byte:
  fixes b :: u8
  shows "bit (push_bit (8 * k) (ucast b :: u64)) n \<longleftrightarrow> n < 64 \<and> n div 8 = k \<and> bit b (n mod 8)"
proof (cases "n < 64 \<and> n div 8 = k")
  case True
  then have "8 * k \<le> n" "n - 8 * k = n mod 8" by (auto simp: minus_mult_div_eq_mod)
  moreover have "n mod 8 < 64" by (rule less_trans [OF mod_less_divisor]) simp_all
  ultimately show ?thesis using True by (simp add: bit_simps)
next
  case False
  have "\<not> bit b (n - 8 * k)" if "8 * k \<le> n" "n div 8 \<noteq> k"
    using that by (intro impossible_bit) auto
  with False show ?thesis by (auto simp: bit_simps)
qed

lemma bit_load64:
  "bit (load64 m a) n \<longleftrightarrow> n < 64 \<and> bit (m (a + of_nat (n div 8))) (n mod 8)"
proof -
  let ?B = "\<lambda>k x. n < 64 \<and> n div 8 = k \<and> bit (m x) (n mod 8)"
  have eq: "bit (load64 m a) n \<longleftrightarrow> ?B 0 a \<or> ?B 1 (a + 1) \<or> ?B 2 (a + 2) \<or> ?B 3 (a + 3)
      \<or> ?B 4 (a + 4) \<or> ?B 5 (a + 5) \<or> ?B 6 (a + 6) \<or> ?B 7 (a + 7)"
    using bit_push_byte [of 0 _ n] bit_push_byte [of 1 _ n] bit_push_byte [of 2 _ n]
      bit_push_byte [of 3 _ n] bit_push_byte [of 4 _ n] bit_push_byte [of 5 _ n]
      bit_push_byte [of 6 _ n] bit_push_byte [of 7 _ n]
    by (simp add: load64_def bit_or_iff del: bit_push_bit_iff)
  consider "\<not> n < 64" | "n div 8 = 0" | "n div 8 = 1" | "n div 8 = 2" | "n div 8 = 3"
    | "n div 8 = 4" | "n div 8 = 5" | "n div 8 = 6" | "n div 8 = 7"
    by linarith
  then show ?thesis
    unfolding eq by cases simp_all
qed

lemma store64_apply:
  "store64 m a v x = (if x - a < 8 then ucast (drop_bit (8 * unat (x - a)) v) else m x)"
  by (simp add: store64_def)

lemma load64_store64_same [simp, mem_simps]: "load64 (store64 m a v) a = v"
proof (rule bit_word_eqI)
  fix n assume "n < LENGTH(64)"
  then have n: "n < 64" by simp
  then have q: "n div 8 < 8" by simp
  then have u: "unat (of_nat (n div 8) :: u64) = n div 8"
    by (simp add: unat_of_nat)
  then have lt: "(of_nat (n div 8) :: u64) < 8"
    using q by (simp add: word_less_nat_alt)
  show "bit (load64 (store64 m a v) a) n = bit v n"
    using n q lt u by (simp add: bit_load64 store64_apply bit_simps)
qed

text \<open>Two eight-byte cells that do not overlap, in wrap-around address arithmetic.\<close>

definition disj64 :: "u64 \<Rightarrow> u64 \<Rightarrow> bool" where
  "disj64 a b \<longleftrightarrow> 8 \<le> b - a \<and> 8 \<le> a - b"

lemma disj64_sym: "disj64 a b \<longleftrightarrow> disj64 b a"
  by (auto simp: disj64_def)

lemma byte_outside_cell:
  fixes a b i :: u64
  assumes "disj64 a b" and "i < 8"
  shows "\<not> b + i - a < 8"
proof -
  have ba: "8 \<le> unat (b - a)" and ab: "8 \<le> unat (a - b)" and i: "unat i < 8"
    using assms by (simp_all add: disj64_def word_le_nat_alt word_less_nat_alt)
  have "unat (a - b) = 2 ^ 64 - unat (b - a)"
    using ba by (intro unat_diff_sym) auto
  with ab have "unat (b - a) + unat i < 2 ^ 64" using i by linarith
  then have "unat (b - a + i) = unat (b - a) + unat i" by (rule unat_add_no_wrap)
  then have "\<not> b - a + i < 8" using ba by (simp add: word_less_nat_alt)
  moreover have "b + i - a = b - a + i" by simp
  ultimately show ?thesis by metis
qed

lemma load64_store64_other [mem_simps]:
  assumes "disj64 a b"
  shows "load64 (store64 m a v) b = load64 m b"
proof (rule bit_word_eqI)
  fix n assume "n < LENGTH(64)"
  then have "n div 8 < 8" by simp
  then have "(of_nat (n div 8) :: u64) < 8" by (simp add: word_less_nat_alt unat_of_nat)
  with assms have "\<not> b + of_nat (n div 8) - a < 8" by (rule byte_outside_cell)
  then show "bit (load64 (store64 m a v) b) n = bit (load64 m b) n"
    by (simp add: bit_load64 store64_apply)
qed

section \<open>Pairwise relations on lists\<close>

lemma sorted_wrt_perm:
  assumes sym: "\<And>a b. R a b \<Longrightarrow> R b a"
  shows "mset xs = mset ys \<Longrightarrow> sorted_wrt R xs \<Longrightarrow> sorted_wrt R ys"
proof (induction ys arbitrary: xs)
  case Nil
  then show ?case by simp
next
  case (Cons y ys)
  from Cons.prems(1) have "y \<in> set xs" by (metis list.set_intros(1) set_mset_mset)
  then obtain as bs where xs: "xs = as @ y # bs" by (meson split_list)
  with Cons.prems(1) have m: "mset (as @ bs) = mset ys" by simp
  have srt: "sorted_wrt R (as @ bs)" using Cons.prems(2) by (auto simp: xs sorted_wrt_append)
  have "set ys = set (as @ bs)" using m by (metis set_mset_mset)
  moreover have "\<forall>z \<in> set (as @ bs). R y z"
    using Cons.prems(2) sym by (auto simp: xs sorted_wrt_append)
  ultimately show ?case using Cons.IH [OF m srt] by simp
qed

end
