(* ===== verification/Kstring.thy ===== *)
theory Kstring
  imports Prelude
begin

text \<open>
  The byte and string routines of \<^verbatim>\<open>kernel/lib/string\<close> over byte memory. Loops with a
  counter that reaches its bound are total functions; \<^verbatim>\<open>strmatch\<close> and \<^verbatim>\<open>strcpy\<close> stop only
  at a NUL byte, so they are partial and \<open>None\<close> stands for a call that never returns. The
  lemmas give each routine its closed form.
\<close>

section \<open>memset, memcpy, memcmp\<close>

function memset_loop :: "memory \<Rightarrow> u64 \<Rightarrow> u8 \<Rightarrow> u64 \<Rightarrow> u64 \<Rightarrow> memory" where
  "memset_loop m ptr val sz i =
     (if i < sz then memset_loop (m(ptr + i := val)) ptr val sz (i + 1) else m)"
  by pat_completeness auto
termination
  by (relation "measure (\<lambda>(m, ptr, val, sz, i). unat sz - unat i)") (auto intro: word_up_decreases)

definition memset :: "memory \<Rightarrow> u64 \<Rightarrow> u8 \<Rightarrow> u64 \<Rightarrow> memory" where
  "memset m ptr val sz = memset_loop m ptr val sz 0"

function memcpy_loop :: "memory \<Rightarrow> u64 \<Rightarrow> u64 \<Rightarrow> u64 \<Rightarrow> u64 \<Rightarrow> memory" where
  "memcpy_loop m dst src n i =
     (if i < n then memcpy_loop (m(dst + i := m (src + i))) dst src n (i + 1) else m)"
  by pat_completeness auto
termination
  by (relation "measure (\<lambda>(m, dst, src, n, i). unat n - unat i)") (auto intro: word_up_decreases)

definition memcpy :: "memory \<Rightarrow> u64 \<Rightarrow> u64 \<Rightarrow> u64 \<Rightarrow> u64 \<times> memory" where
  "memcpy m dst src n =
     (if dst = 0 \<and> src = 0 then (0, m) else (dst, memcpy_loop m dst src n 0))"

function memcmp :: "memory \<Rightarrow> u64 \<Rightarrow> u64 \<Rightarrow> u64 \<Rightarrow> u8" where
  "memcmp m a b sz =
     (if sz = 0 then 0
      else if m (a + (sz - 1)) \<noteq> m (b + (sz - 1)) then 1
      else memcmp m a b (sz - 1))"
  by pat_completeness auto
termination
  by (relation "measure (\<lambda>(m, a, b, sz). unat sz)") (auto intro: word_down_decreases)

section \<open>strlen, strmatch, strcpy\<close>

function strlen_loop :: "memory \<Rightarrow> u64 \<Rightarrow> u64 \<Rightarrow> u64 \<Rightarrow> u64" where
  "strlen_loop m str mx i =
     (if m (str + i) \<noteq> 0 \<and> mx \<noteq> 0 then strlen_loop m str (mx - 1) (i + 1) else i)"
  by pat_completeness auto
termination
  by (relation "measure (\<lambda>(m, str, mx, i). unat mx)") (auto intro: word_down_decreases)

definition strlen :: "memory \<Rightarrow> u64 \<Rightarrow> u64 \<Rightarrow> u64" where
  "strlen m str mx = strlen_loop m str mx 0"

partial_function (option) strmatch_loop :: "memory \<Rightarrow> u64 \<Rightarrow> u64 \<Rightarrow> u64 \<Rightarrow> u64 option" where
  "strmatch_loop m a b i =
     (if m (a + i) \<noteq> 0 \<and> m (a + i) = m (b + i) then strmatch_loop m a b (i + 1) else Some i)"

definition strmatch :: "memory \<Rightarrow> u64 \<Rightarrow> u64 \<Rightarrow> u64 option" where
  "strmatch m a b = strmatch_loop m a b 0"

partial_function (option) strcpy_loop :: "memory \<Rightarrow> u64 \<Rightarrow> u64 \<Rightarrow> u64 \<Rightarrow> memory option" where
  "strcpy_loop m dst src i =
     (let m' = m(dst + i := m (src + i)); i' = i + 1
      in if m' (src + i') \<noteq> 0 then strcpy_loop m' dst src i' else Some m')"

definition strcpy :: "memory \<Rightarrow> u64 \<Rightarrow> u64 \<Rightarrow> (u64 \<times> memory) option" where
  "strcpy m dst src = map_option (\<lambda>m'. (dst, m')) (strcpy_loop m dst src 0)"

declare memset_loop.simps [simp del] memcpy_loop.simps [simp del] memcmp.simps [simp del]
  strlen_loop.simps [simp del]

section \<open>Closed forms\<close>

lemma memset_loop_apply:
  "memset_loop m ptr val sz i x = (if i \<le> x - ptr \<and> x - ptr < sz then val else m x)"
proof (induction m ptr val sz i rule: memset_loop.induct)
  case (1 m ptr val sz i)
  show ?case
  proof (cases "i < sz")
    case True
    have "memset_loop m ptr val sz i x = memset_loop (m(ptr + i := val)) ptr val sz (i + 1) x"
      using True by (simp add: memset_loop.simps [of m ptr val sz i])
    also have "\<dots> = (if i + 1 \<le> x - ptr \<and> x - ptr < sz then val else (m(ptr + i := val)) x)"
      by (rule "1.IH" [OF True])
    finally show ?thesis
      using word_between_suc [OF True, of "x - ptr"] True by auto
  next
    case False
    then show ?thesis unfolding memset_loop.simps [of m ptr val sz i] by auto
  qed
qed

lemma memset_apply [mem_simps]: "memset m ptr val sz x = (if x - ptr < sz then val else m x)"
  by (simp add: memset_def memset_loop_apply)

lemma memcpy_loop_apply:
  assumes "\<And>j k. j < n \<Longrightarrow> k < n \<Longrightarrow> dst + j \<noteq> src + k" and "i \<le> n"
  shows "memcpy_loop m dst src n i x =
    (if i \<le> x - dst \<and> x - dst < n then m (src + (x - dst)) else m x)"
  using assms
proof (induction m dst src n i rule: memcpy_loop.induct)
  case (1 m dst src n i)
  show ?case
  proof (cases "i < n")
    case True
    let ?m = "m(dst + i := m (src + i))"
    have IH: "memcpy_loop ?m dst src n (i + 1) x =
        (if i + 1 \<le> x - dst \<and> x - dst < n then ?m (src + (x - dst)) else ?m x)"
      using True "1.prems" word_suc_le [OF True] by (intro "1.IH") auto
    have "x - dst < n \<Longrightarrow> src + (x - dst) \<noteq> dst + i"
      using "1.prems"(1) [OF True, of "x - dst"] by metis
    then show ?thesis
      using IH word_between_suc [OF True, of "x - dst"]
      unfolding memcpy_loop.simps [of m dst src n i] by (auto simp: True)
  next
    case False
    then show ?thesis
      using "1.prems" unfolding memcpy_loop.simps [of m dst src n i] by auto
  qed
qed

lemma memcpy_apply:
  assumes "\<And>j k. j < n \<Longrightarrow> k < n \<Longrightarrow> dst + j \<noteq> src + k" and "dst \<noteq> 0 \<or> src \<noteq> 0"
  shows "fst (memcpy m dst src n) = dst"
    and "snd (memcpy m dst src n) x = (if x - dst < n then m (src + (x - dst)) else m x)"
proof -
  have eq: "memcpy m dst src n = (dst, memcpy_loop m dst src n 0)"
    using assms(2) by (auto simp: memcpy_def)
  then show "fst (memcpy m dst src n) = dst" by simp
  show "snd (memcpy m dst src n) x = (if x - dst < n then m (src + (x - dst)) else m x)"
    using eq memcpy_loop_apply [OF assms(1), where i = 0] by simp
qed

lemma memcmp_eq: "memcmp m a b sz = (if \<forall>i < sz. m (a + i) = m (b + i) then 0 else 1)"
proof (induction m a b sz rule: memcmp.induct)
  case (1 m a b sz)
  show ?case
  proof (cases "sz = 0")
    case True
    then show ?thesis unfolding memcmp.simps [of m a b sz] by simp
  next
    case False
    then have "i < sz \<longleftrightarrow> i < sz - 1 \<or> i = sz - 1" for i
      by (auto simp: word_less_nat_alt unat_minus_one word_unat_eq_iff)
    with False 1 show ?thesis unfolding memcmp.simps [of m a b sz] by auto
  qed
qed

text \<open>A NUL-terminated string of \<open>n\<close> characters at \<open>p\<close>.\<close>

definition cstr :: "memory \<Rightarrow> u64 \<Rightarrow> nat \<Rightarrow> bool" where
  "cstr m p n \<longleftrightarrow> (\<forall>i < n. m (p + of_nat i) \<noteq> 0) \<and> m (p + of_nat n) = 0"

lemma cstr_0 [simp]: "cstr m p 0 \<longleftrightarrow> m p = 0"
  by (simp add: cstr_def)

lemma cstr_Suc [simp]: "cstr m p (Suc n) \<longleftrightarrow> m p \<noteq> 0 \<and> cstr m (p + 1) n"
  by (auto simp: cstr_def All_less_Suc2 algebra_simps)

lemma cstr_bound:
  assumes "cstr m p n"
  shows "n < 2 ^ 64"
proof (rule ccontr)
  assume n: "\<not> n < 2 ^ 64"
  have "(of_nat n :: u64) = of_nat (n - 2 ^ 64)"
    using n by (simp add: of_nat_diff)
  then show False using assms n unfolding cstr_def by (metis diff_less linorder_not_less
    zero_less_numeral zero_less_power order_less_le_trans)
qed

lemma cstr_cong:
  assumes "\<And>k. k \<le> n \<Longrightarrow> m' (p + of_nat k) = m (p + of_nat k)"
  shows "cstr m' p n \<longleftrightarrow> cstr m p n"
  using assms by (auto simp: cstr_def)

lemma strlen_loop_cstr:
  "cstr m (str + i) n \<Longrightarrow> strlen_loop m str mx i = i + of_nat (min n (unat mx))"
proof (induction m str mx i arbitrary: n rule: strlen_loop.induct)
  case (1 m str mx i)
  show ?case
  proof (cases "m (str + i) \<noteq> 0 \<and> mx \<noteq> 0")
    case True
    with "1.prems" obtain k where k: "n = Suc k" by (cases n) auto
    from True have mx: "unat mx = Suc (unat (mx - 1))"
      by (simp add: unat_minus_one unat_gt_0)
    have "cstr m (str + (i + 1)) k" using "1.prems" k by (simp add: add.assoc)
    then have "strlen_loop m str (mx - 1) (i + 1) = i + 1 + of_nat (min k (unat (mx - 1)))"
      using "1.IH" True by blast
    then show ?thesis
      unfolding strlen_loop.simps [of m str mx i] using True by (simp add: k mx)
  next
    case False
    with "1.prems" have "min n (unat mx) = 0" by (cases n) auto
    then show ?thesis unfolding strlen_loop.simps [of m str mx i] using False by auto
  qed
qed

lemma strmatch_loop_cstr:
  "cstr m (a + i) n \<Longrightarrow>
    \<exists>k \<le> n. strmatch_loop m a b i = Some (i + of_nat k)
      \<and> (\<forall>j < k. m (a + i + of_nat j) = m (b + i + of_nat j))
      \<and> (k < n \<longrightarrow> m (a + i + of_nat k) \<noteq> m (b + i + of_nat k))"
proof (induction n arbitrary: i)
  case 0
  then show ?case by (simp add: strmatch_loop.simps [of m a b i])
next
  case (Suc n)
  show ?case
  proof (cases "m (a + i) = m (b + i)")
    case True
    have "cstr m (a + (i + 1)) n" using Suc.prems by (simp add: add.assoc)
    then obtain k where k: "k \<le> n" "strmatch_loop m a b (i + 1) = Some (i + 1 + of_nat k)"
      "\<forall>j < k. m (a + (i + 1) + of_nat j) = m (b + (i + 1) + of_nat j)"
      "k < n \<longrightarrow> m (a + (i + 1) + of_nat k) \<noteq> m (b + (i + 1) + of_nat k)"
      using Suc.IH by blast
    then have "Suc k \<le> Suc n" "strmatch_loop m a b i = Some (i + of_nat (Suc k))"
      "\<forall>j < Suc k. m (a + i + of_nat j) = m (b + i + of_nat j)"
      "Suc k < Suc n \<longrightarrow> m (a + i + of_nat (Suc k)) \<noteq> m (b + i + of_nat (Suc k))"
      using True Suc.prems
      by (simp_all add: strmatch_loop.simps [of m a b i] All_less_Suc2 add.assoc)
    then show ?thesis by blast
  next
    case False
    then have "strmatch_loop m a b i = Some (i + of_nat 0)"
      by (simp add: strmatch_loop.simps [of m a b i])
    with False show ?thesis by (intro exI [of _ 0]) simp
  qed
qed

lemma strcpy_loop_cstr:
  assumes "cstr m (src + i) (Suc n)"
    and "\<And>j k. j \<le> n \<Longrightarrow> k \<le> Suc n \<Longrightarrow> dst + i + of_nat j \<noteq> src + i + of_nat k"
  shows "\<exists>m'. strcpy_loop m dst src i = Some m'
    \<and> (\<forall>j \<le> n. m' (dst + i + of_nat j) = m (src + i + of_nat j))
    \<and> (\<forall>x. (\<forall>j \<le> n. x \<noteq> dst + i + of_nat j) \<longrightarrow> m' x = m x)"
  using assms
proof (induction n arbitrary: i m)
  case 0
  let ?m = "m(dst + i := m (src + i))"
  have "src + (i + 1) \<noteq> dst + i"
    using "0.prems"(2) [of 0 1] by (simp add: add.assoc)
  then have "strcpy_loop m dst src i = Some ?m"
    using "0.prems"(1) by (simp add: strcpy_loop.simps [of m dst src i] Let_def add.assoc)
  then show ?case by auto
next
  case (Suc n)
  let ?m = "m(dst + i := m (src + i))"
  have ne: "src + (i + of_nat k) \<noteq> dst + i" if "k \<le> Suc (Suc n)" for k
    using Suc.prems(2) [of 0 k] that by (simp add: add.assoc)
  have keep: "?m (src + (i + of_nat k)) = m (src + (i + of_nat k))" if "k \<le> Suc (Suc n)" for k
    using ne [OF that] by simp
  have c: "cstr ?m (src + (i + 1)) (Suc n)"
    using Suc.prems(1) keep [of "Suc k" for k]
    by (subst cstr_cong [where m = m]) (simp_all add: add.assoc)
  have sep: "dst + (i + 1) + of_nat j \<noteq> src + (i + 1) + of_nat k" if "j \<le> n" "k \<le> Suc n" for j k
    using Suc.prems(2) [of "Suc j" "Suc k"] that by (simp add: add.assoc)
  have step: "strcpy_loop m dst src i = strcpy_loop ?m dst src (i + 1)"
    using c by (simp add: strcpy_loop.simps [of m dst src i] Let_def)
  from Suc.IH [OF c sep] obtain m' where m': "strcpy_loop ?m dst src (i + 1) = Some m'"
    "\<forall>j \<le> n. m' (dst + (i + 1) + of_nat j) = ?m (src + (i + 1) + of_nat j)"
    "\<forall>x. (\<forall>j \<le> n. x \<noteq> dst + (i + 1) + of_nat j) \<longrightarrow> m' x = ?m x"
    by blast
  have z: "dst + i \<noteq> dst + (i + 1) + of_nat j" if "j \<le> n" for j
  proof -
    have "unat (of_nat (Suc j) :: u64) = Suc j"
      using cstr_bound [OF c] that by (simp add: unat_of_nat del: of_nat_Suc)
    then have "(of_nat (Suc j) :: u64) \<noteq> 0" by (metis unat_0 nat.distinct(1))
    then show ?thesis by (simp add: add.assoc)
  qed
  have a: "m' (dst + i + of_nat j) = m (src + i + of_nat j)" if "j \<le> Suc n" for j
  proof (cases j)
    case 0
    then show ?thesis using m'(3) z by simp
  next
    case (Suc k)
    then show ?thesis using m'(2) that keep [of "Suc k"] by (simp add: add.assoc)
  qed
  have b: "m' x = m x" if "\<forall>j \<le> Suc n. x \<noteq> dst + i + of_nat j" for x
  proof -
    have "x \<noteq> dst + i" and "\<forall>j \<le> n. x \<noteq> dst + (i + 1) + of_nat j"
      using that by (auto simp: add.assoc dest: spec [of _ 0] spec [of _ "Suc _"])
    then show ?thesis using m'(3) by simp
  qed
  from a b step m'(1) show ?case by auto
qed

lemma strcpy_cstr:
  assumes "cstr m src (Suc n)"
    and "\<And>j k. j \<le> n \<Longrightarrow> k \<le> Suc n \<Longrightarrow> dst + of_nat j \<noteq> src + of_nat k"
  shows "\<exists>m'. strcpy m dst src = Some (dst, m')
    \<and> (\<forall>j \<le> n. m' (dst + of_nat j) = m (src + of_nat j))
    \<and> (\<forall>x. (\<forall>j \<le> n. x \<noteq> dst + of_nat j) \<longrightarrow> m' x = m x)"
  using strcpy_loop_cstr [of m src 0 n dst] assms by (auto simp: strcpy_def)

end
