(* ===== verification/Bitmap.thy ===== *)
theory Bitmap
  imports Kstring
begin

text \<open>
  The bitmap of \<^verbatim>\<open>kernel/lib/bitmap\<close>: a set bit (1) is a free slot, and slot \<open>n\<close> is bit
  \<open>63 - n mod 64\<close> of 64-bit block \<open>n div 64\<close>, so that the leading-zero count of a block finds
  its lowest free slot. The blocks live in byte memory at the address the record carries, which
  lets the development see bitmaps that overlap. The abstraction \<open>bm_free\<close> is the set of free
  slots; the locale \<open>slot_allocator\<close> is the contract the page allocator, the region allocator
  and the PID allocator rely on.
\<close>

section \<open>State and operations\<close>

record bitmap =
  bm_len :: u64
  bm_size_in_block :: u64
  bm_bitmap :: u64

definition BITMAP_SIZE_IN_BLOCK :: "u64 \<Rightarrow> u64" where
  "BITMAP_SIZE_IN_BLOCK n = n div 64 + 1"

definition bitmap_init_static :: "memory \<Rightarrow> bitmap \<Rightarrow> u64 \<Rightarrow> bitmap \<times> memory" where
  "bitmap_init_static m bm n =
     (let bm' = bm\<lparr>bm_len := n, bm_size_in_block := BITMAP_SIZE_IN_BLOCK n\<rparr>
      in (bm', memset m (bm_bitmap bm') 0xff (bm_size_in_block bm' * 8)))"

text \<open>The result is the address the source calls the first unused one.\<close>

definition bitmap_init :: "memory \<Rightarrow> u64 \<Rightarrow> u64 \<Rightarrow> u64 \<times> bitmap \<times> memory" where
  "bitmap_init m n ptr =
     (let bm = \<lparr>bm_len = n, bm_size_in_block = BITMAP_SIZE_IN_BLOCK n, bm_bitmap = ptr\<rparr>
      in (ptr + bm_size_in_block bm, bm, memset m ptr 0xff (bm_size_in_block bm * 8)))"

text \<open>\<^verbatim>\<open>__builtin_clzll\<close> of a word that is not 0.\<close>

definition clz64 :: "u64 \<Rightarrow> u64" where
  "clz64 w = of_nat (length (takeWhile (\<lambda>n. \<not> bit w n) (rev [0..<64])))"

definition bm_block :: "bitmap \<Rightarrow> u64 \<Rightarrow> u64" where
  "bm_block bm i = bm_bitmap bm + i * 8"

function find_and_set_loop :: "memory \<Rightarrow> bitmap \<Rightarrow> u64 \<Rightarrow> u64 option \<times> memory" where
  "find_and_set_loop m bm i =
     (if i < bm_size_in_block bm then
        (let w = load64 m (bm_block bm i) in
         if w = 0 then find_and_set_loop m bm (i + 1)
         else
           (let bit_set_index = clz64 w in
            (Some (i * 64 + bit_set_index),
             store64 m (bm_block bm i) (w AND NOT (push_bit (unat (63 - bit_set_index)) 1)))))
      else (None, m))"
  by pat_completeness auto
termination
  by (relation "measure (\<lambda>(m, bm, i). unat (bm_size_in_block bm) - unat i)")
    (auto intro: word_up_decreases)

declare find_and_set_loop.simps [simp del]

text \<open>
  \<^verbatim>\<open>index\<close> is declared without a value and assigned only in the loop: when every block is 0
  the function reads it uninitialised.
\<close>

definition bitmap_find_and_set :: "memory \<Rightarrow> bitmap \<Rightarrow> (u64 \<times> memory) res" where
  "bitmap_find_and_set m bm =
     (case find_and_set_loop m bm 0 of
        (None, m') \<Rightarrow> Inl Uninit_Read
      | (Some index, m') \<Rightarrow> Inr (MIN64 index (bm_len bm), m'))"

definition bitmap_unset :: "memory \<Rightarrow> bitmap \<Rightarrow> u64 \<Rightarrow> memory res" where
  "bitmap_unset m bm i =
     (if i \<ge> bm_len bm then Inr m
      else
        (let j = i div 64; bit_set_index = i mod 64 in
         bindR (int_shl1 (63 - bit_set_index)) (\<lambda>mask.
           Inr (store64 m (bm_block bm j) (load64 m (bm_block bm j) OR mask)))))"

section \<open>Abstraction\<close>

definition bm_cell :: "bitmap \<Rightarrow> nat \<Rightarrow> u64" where
  "bm_cell bm k = bm_bitmap bm + of_nat k * 8"

definition bm_bit :: "memory \<Rightarrow> bitmap \<Rightarrow> nat \<Rightarrow> bool" where
  "bm_bit m bm n \<longleftrightarrow> bit (load64 m (bm_cell bm (n div 64))) (63 - n mod 64)"

definition bm_wf :: "bitmap \<Rightarrow> bool" where
  "bm_wf bm \<longleftrightarrow> bm_size_in_block bm = BITMAP_SIZE_IN_BLOCK (bm_len bm)"

text \<open>Every set bit, the padding of the last block included, and the slots in range.\<close>

definition bm_raw :: "memory \<Rightarrow> bitmap \<Rightarrow> nat set" where
  "bm_raw m bm = {n. n < 64 * unat (bm_size_in_block bm) \<and> bm_bit m bm n}"

definition bm_free :: "memory \<Rightarrow> bitmap \<Rightarrow> nat set" where
  "bm_free m bm = {n. n < unat (bm_len bm) \<and> bm_bit m bm n}"

text \<open>Whether a byte lies in the blocks of a bitmap, and whether two bitmaps share none.\<close>

definition bm_span :: "bitmap \<Rightarrow> u64 \<Rightarrow> bool" where
  "bm_span bm x \<longleftrightarrow> x - bm_bitmap bm < bm_size_in_block bm * 8"

definition bm_disjoint :: "bitmap \<Rightarrow> bitmap \<Rightarrow> bool" where
  "bm_disjoint a b \<longleftrightarrow> (\<forall>x. \<not> (bm_span a x \<and> bm_span b x))"

section \<open>Block arithmetic\<close>

lemma unat_size_in_block: "bm_wf bm \<Longrightarrow> unat (bm_size_in_block bm) = unat (bm_len bm) div 64 + 1"
proof -
  assume "bm_wf bm"
  then have "bm_size_in_block bm = bm_len bm div 64 + 1"
    by (simp add: bm_wf_def BITMAP_SIZE_IN_BLOCK_def)
  moreover have "unat (bm_len bm div 64) + unat (1 :: u64) < 2 ^ 64"
    using unat64_lt [of "bm_len bm"] by (simp add: unat_div)
  ultimately show ?thesis by (simp add: unat_add_no_wrap unat_div)
qed

lemma size_in_block_bound: "bm_wf bm \<Longrightarrow> unat (bm_size_in_block bm) \<le> 2 ^ 58"
  using unat_size_in_block [of bm] unat64_lt [of "bm_len bm"] by simp

lemma len_less_raw: "bm_wf bm \<Longrightarrow> unat (bm_len bm) < 64 * unat (bm_size_in_block bm)"
  by (simp add: unat_size_in_block)

lemma bm_free_raw: "bm_wf bm \<Longrightarrow> bm_free m bm = bm_raw m bm \<inter> {..<unat (bm_len bm)}"
  using len_less_raw by (force simp: bm_free_def bm_raw_def)

lemma finite_bm_raw [simp]: "finite (bm_raw m bm)"
  by (simp add: bm_raw_def)

lemma finite_bm_free [simp]: "finite (bm_free m bm)"
  by (simp add: bm_free_def)

lemma bm_block_cell: "bm_block bm i = bm_cell bm (unat i)"
  by (simp add: bm_block_def bm_cell_def)

lemma cells_disjoint:
  assumes "i \<noteq> j" and "i < 2 ^ 60" and "j < 2 ^ 60"
  shows "disj64 (bm_cell bm i) (bm_cell bm j)"
proof -
  have up: "8 \<le> (of_nat b * 8 - of_nat a * 8 :: u64) \<and> 8 \<le> (of_nat a * 8 - of_nat b * 8 :: u64)"
    if "a < b" "b < 2 ^ 60" for a b :: nat
  proof -
    have eq: "(of_nat b * 8 - of_nat a * 8 :: u64) = of_nat (8 * (b - a))"
      using that by (simp add: of_nat_diff algebra_simps)
    have u: "unat (of_nat (8 * (b - a)) :: u64) = 8 * (b - a)"
      using that by (subst unat_of_nat) simp
    have d: "unat (of_nat b * 8 - of_nat a * 8 :: u64) = 8 * (b - a)"
      unfolding eq by (rule u)
    have ne: "(of_nat a * 8 :: u64) \<noteq> of_nat b * 8"
    proof
      assume "(of_nat a * 8 :: u64) = of_nat b * 8"
      with d that show False by simp
    qed
    show ?thesis
      using that unfolding word_le_nat_alt d unat_diff_sym [OF ne] by auto
  qed
  show ?thesis
    using up [of i j] up [of j i] assms by (cases "i < j") (auto simp: disj64_def bm_cell_def)
qed

lemma cell_in_span:
  assumes wf: "bm_wf bm" and k: "k < unat (bm_size_in_block bm)" and x: "x - bm_cell bm k < 8"
  shows "bm_span bm x"
proof -
  let ?d = "x - bm_cell bm k"
  have S: "unat (bm_size_in_block bm) \<le> 2 ^ 58" by (rule size_in_block_bound [OF wf])
  have u8: "unat (of_nat k * 8 :: u64) = 8 * k"
    using k S by (subst unat_mult_no_wrap) (simp_all add: unat_of_nat)
  have uS: "unat (bm_size_in_block bm * 8) = 8 * unat (bm_size_in_block bm)"
    using S by (subst unat_mult_no_wrap) simp_all
  have d: "unat ?d < 8" using x by (simp add: word_less_nat_alt)
  have eq: "x - bm_bitmap bm = ?d + of_nat k * 8" by (simp add: bm_cell_def)
  have "unat (x - bm_bitmap bm) = unat ?d + 8 * k"
    unfolding eq using d u8 k S by (subst unat_add_no_wrap) simp_all
  then show ?thesis
    using d k uS by (simp add: bm_span_def word_less_nat_alt)
qed

lemma bm_bit_store:
  assumes "i < 2 ^ 60" and "n div 64 < 2 ^ 60"
  shows "bm_bit (store64 m (bm_cell bm i) v) bm n =
    (if n div 64 = i then bit v (63 - n mod 64) else bm_bit m bm n)"
  using assms cells_disjoint [of i "n div 64" bm] by (auto simp: bm_bit_def load64_store64_other)

lemma clz64_spec:
  assumes "w \<noteq> 0"
  shows "unat (clz64 w) < 64" and "bit w (63 - unat (clz64 w))"
    and "k < unat (clz64 w) \<Longrightarrow> \<not> bit w (63 - k)"
proof -
  let ?xs = "rev [0..<64]"
  let ?c = "length (takeWhile (\<lambda>n. \<not> bit w n) ?xs)"
  obtain n where n: "bit w n" using assms by (metis bit_eq_iff bit_0_eq bot_apply bot_bool_def)
  then have "n < 64" using bit_imp_le_length [of w n] by simp
  have "takeWhile (\<lambda>n. \<not> bit w n) ?xs \<noteq> ?xs"
    using n \<open>n < 64\<close> by (auto simp: takeWhile_eq_all_conv)
  then have "?c \<noteq> length ?xs" by (metis takeWhile_eq_take take_all order_refl)
  moreover have "?c \<le> length ?xs" by (rule length_takeWhile_le)
  ultimately have "?c < 64" by simp
  then have u: "unat (clz64 w) = ?c" by (simp add: clz64_def unat_of_nat)
  show "unat (clz64 w) < 64" using u \<open>?c < 64\<close> by simp
  have "\<not> \<not> bit w (?xs ! ?c)"
    using nth_length_takeWhile [of "\<lambda>n. \<not> bit w n" ?xs] \<open>?c < 64\<close> by simp
  then show "bit w (63 - unat (clz64 w))"
    using u \<open>?c < 64\<close> by (simp add: rev_nth)
  assume k: "k < unat (clz64 w)"
  then have "\<not> bit w (takeWhile (\<lambda>n. \<not> bit w n) ?xs ! k)"
    using u set_takeWhileD [of "takeWhile (\<lambda>n. \<not> bit w n) ?xs ! k" "\<lambda>n. \<not> bit w n" ?xs]
    by (metis nth_mem)
  then show "\<not> bit w (63 - k)"
    using k u \<open>?c < 64\<close> by (simp add: takeWhile_nth rev_nth)
qed

section \<open>The search loop\<close>

lemma find_loop_None:
  assumes "\<And>k. unat i \<le> k \<Longrightarrow> k < unat (bm_size_in_block bm) \<Longrightarrow> load64 m (bm_cell bm k) = 0"
  shows "find_and_set_loop m bm i = (None, m)"
  using assms
proof (induction m bm i rule: find_and_set_loop.induct)
  case (1 m bm i)
  show ?case
  proof (cases "i < bm_size_in_block bm")
    case True
    then have "load64 m (bm_block bm i) = 0"
      using "1.prems" by (simp add: bm_block_cell word_less_nat_alt)
    moreover have "find_and_set_loop m bm (i + 1) = (None, m)"
      using calculation True "1.prems" word_suc_le [OF True] by (intro "1.IH") auto
    ultimately show ?thesis
      by (simp add: find_and_set_loop.simps [of m bm i] True)
  next
    case False
    then show ?thesis by (simp add: find_and_set_loop.simps [of m bm i])
  qed
qed

lemma find_loop_Some:
  assumes "unat i \<le> k" and "k < unat (bm_size_in_block bm)" and "load64 m (bm_cell bm k) \<noteq> 0"
    and "\<And>j. unat i \<le> j \<Longrightarrow> j < k \<Longrightarrow> load64 m (bm_cell bm j) = 0"
  shows "find_and_set_loop m bm i =
    (let w = load64 m (bm_cell bm k) in
     (Some (of_nat k * 64 + clz64 w),
      store64 m (bm_cell bm k) (w AND NOT (push_bit (unat (63 - clz64 w)) 1))))"
  using assms
proof (induction m bm i rule: find_and_set_loop.induct)
  case (1 m bm i)
  have lt: "i < bm_size_in_block bm" using "1.prems"(1,2) by (simp add: word_less_nat_alt)
  show ?case
  proof (cases "unat i = k")
    case True
    then have "of_nat k = i" by auto
    with True lt "1.prems"(3) show ?thesis
      by (simp add: find_and_set_loop.simps [of m bm i] bm_block_cell Let_def)
  next
    case False
    then have z: "load64 m (bm_block bm i) = 0"
      using "1.prems"(1,4) by (simp add: bm_block_cell)
    have "find_and_set_loop m bm (i + 1) =
       (let w = load64 m (bm_cell bm k) in
       (Some (of_nat k * 64 + clz64 w),
        store64 m (bm_cell bm k) (w AND NOT (push_bit (unat (63 - clz64 w)) 1))))"
      using lt z "1.prems" False word_suc_le [OF lt] by (intro "1.IH") auto
    with lt z show ?thesis by (simp add: find_and_set_loop.simps [of m bm i])
  qed
qed

lemma block_nonzero_iff:
  "load64 m (bm_cell bm k) \<noteq> 0 \<longleftrightarrow> (\<exists>n. n div 64 = k \<and> bm_bit m bm n)"
proof
  assume "load64 m (bm_cell bm k) \<noteq> 0"
  note c = clz64_spec [OF this]
  let ?c = "unat (clz64 (load64 m (bm_cell bm k)))"
  have "(64 * k + ?c) div 64 = k" "(64 * k + ?c) mod 64 = ?c" using c(1) by auto
  then have "bm_bit m bm (64 * k + ?c)" using c(2) by (simp add: bm_bit_def)
  then show "\<exists>n. n div 64 = k \<and> bm_bit m bm n" using \<open>(64 * k + ?c) div 64 = k\<close> by blast
next
  assume "\<exists>n. n div 64 = k \<and> bm_bit m bm n"
  then show "load64 m (bm_cell bm k) \<noteq> 0" by (auto simp: bm_bit_def)
qed

lemma first_block_Min:
  assumes k: "load64 m (bm_cell bm k) \<noteq> 0" and lt: "k < unat (bm_size_in_block bm)"
    and first: "\<And>j. j < k \<Longrightarrow> load64 m (bm_cell bm j) = 0"
  shows "Min (bm_raw m bm) = 64 * k + unat (clz64 (load64 m (bm_cell bm k)))"
proof (rule Min_eqI)
  let ?c = "unat (clz64 (load64 m (bm_cell bm k)))"
  note c = clz64_spec [OF k]
  show "64 * k + ?c \<in> bm_raw m bm"
    using c(1,2) lt by (auto simp: bm_raw_def bm_bit_def)
  fix n assume n: "n \<in> bm_raw m bm"
  then have nb: "bm_bit m bm n" by (simp add: bm_raw_def)
  then have "\<not> n div 64 < k" using first block_nonzero_iff by blast
  moreover have "\<not> n mod 64 < ?c" if "n div 64 = k"
    using nb c(3) [of "n mod 64"] that by (auto simp: bm_bit_def)
  ultimately show "64 * k + ?c \<le> n"
    using c(1) div_mult_mod_eq [of n 64] by (cases "n div 64 = k") linarith+
qed simp

lemma clear_one_bit:
  assumes "w \<noteq> 0" and "k < 64"
  shows "bit (w AND NOT (push_bit (unat (63 - clz64 w)) 1)) (63 - k)
    \<longleftrightarrow> bit w (63 - k) \<and> k \<noteq> unat (clz64 w)"
proof -
  have c: "unat (clz64 w) < 64" by (rule clz64_spec(1) [OF assms(1)])
  then have "clz64 w \<le> 63" by (simp add: word_le_nat_alt)
  then have "unat (63 - clz64 w) = 63 - unat (clz64 w)" by (simp add: unat_sub)
  then show ?thesis using assms(2) c by (auto simp: bit_simps)
qed

text \<open>The search takes the lowest set bit and clears nothing else.\<close>

lemma find_and_set_raw:
  assumes wf: "bm_wf bm" and ne: "bm_raw m bm \<noteq> {}"
  shows "\<exists>m'. bitmap_find_and_set m bm = Inr (MIN64 (of_nat (Min (bm_raw m bm))) (bm_len bm), m')
    \<and> bm_raw m' bm = bm_raw m bm - {Min (bm_raw m bm)}
    \<and> (\<forall>x. \<not> bm_span bm x \<longrightarrow> m' x = m x)"
proof -
  let ?S = "unat (bm_size_in_block bm)"
  let ?P = "\<lambda>k. load64 m (bm_cell bm k) \<noteq> 0"
  define k where "k = (LEAST k. ?P k)"
  from ne obtain n where n: "n < 64 * ?S" "bm_bit m bm n" by (auto simp: bm_raw_def)
  then have "?P (n div 64)" using block_nonzero_iff by blast
  then have Pk: "?P k" and "k \<le> n div 64"
    unfolding k_def by (rule LeastI [of ?P], rule Least_le [of ?P])
  then have kS: "k < ?S" using n(1) by linarith
  have first: "\<And>j. j < k \<Longrightarrow> load64 m (bm_cell bm j) = 0"
    using not_less_Least [of _ ?P] unfolding k_def by blast
  let ?w = "load64 m (bm_cell bm k)"
  let ?m = "store64 m (bm_cell bm k) (?w AND NOT (push_bit (unat (63 - clz64 ?w)) 1))"
  note c = clz64_spec [OF Pk]
  have min: "Min (bm_raw m bm) = 64 * k + unat (clz64 ?w)"
    by (rule first_block_Min [OF Pk kS first])
  have "find_and_set_loop m bm 0 = (Some (of_nat k * 64 + clz64 ?w), ?m)"
    using find_loop_Some [of 0 k bm m] kS Pk first by (simp add: Let_def)
  moreover have "of_nat k * 64 + clz64 ?w = of_nat (Min (bm_raw m bm))"
    unfolding min by (simp add: mult.commute)
  ultimately have 1: "bitmap_find_and_set m bm
      = Inr (MIN64 (of_nat (Min (bm_raw m bm))) (bm_len bm), ?m)"
    by (simp add: bitmap_find_and_set_def)
  have S: "?S \<le> 2 ^ 58" by (rule size_in_block_bound [OF wf])
  have "bm_bit ?m bm n \<longleftrightarrow> bm_bit m bm n \<and> n \<noteq> Min (bm_raw m bm)" if "n < 64 * ?S" for n
  proof -
    have "k < 2 ^ 60" and "n div 64 < 2 ^ 60" using that S kS by auto
    note st = bm_bit_store [OF this]
    have sp: "n = 64 * k + unat (clz64 ?w) \<longleftrightarrow> n div 64 = k \<and> n mod 64 = unat (clz64 ?w)"
      by (rule split64 [OF c(1)])
    show ?thesis
    proof (cases "n div 64 = k")
      case True
      then have "bm_bit m bm n = bit ?w (63 - n mod 64)" by (simp add: bm_bit_def)
      then show ?thesis
        unfolding st min sp using True clear_one_bit [OF Pk, of "n mod 64"] by simp
    next
      case False
      then show ?thesis unfolding st min sp by simp
    qed
  qed
  then have 2: "bm_raw ?m bm = bm_raw m bm - {Min (bm_raw m bm)}"
    by (auto simp: bm_raw_def)
  have 3: "?m x = m x" if "\<not> bm_span bm x" for x
    using that cell_in_span [OF wf kS, of x] by (auto simp: store64_apply)
  from 1 2 3 show ?thesis by blast
qed

lemma find_and_set_exhausted:
  assumes "bm_wf bm" and "bm_raw m bm = {}"
  shows "bitmap_find_and_set m bm = Inl Uninit_Read"
proof -
  have "load64 m (bm_cell bm k) = 0" if "k < unat (bm_size_in_block bm)" for k
  proof (rule ccontr)
    assume "load64 m (bm_cell bm k) \<noteq> 0"
    then obtain n where n: "n div 64 = k" "bm_bit m bm n" using block_nonzero_iff by blast
    then have "n < 64 * unat (bm_size_in_block bm)" using that by auto
    with n assms(2) show False by (auto simp: bm_raw_def)
  qed
  then have "find_and_set_loop m bm 0 = (None, m)" by (intro find_loop_None) auto
  then show ?thesis by (simp add: bitmap_find_and_set_def)
qed

lemma raw_index_fits:
  assumes "bm_wf bm" and "n \<in> bm_raw m bm"
  shows "unat (of_nat n :: u64) = n"
proof -
  have "n < 64 * 2 ^ 58"
    using assms size_in_block_bound [OF assms(1)] by (auto simp: bm_raw_def)
  then show ?thesis by (simp add: unat_of_nat)
qed

text \<open>The same facts in terms of the slots in range.\<close>

lemma find_and_set_free:
  assumes wf: "bm_wf bm" and ne: "bm_free m bm \<noteq> {}"
  shows "\<exists>m'. bitmap_find_and_set m bm = Inr (of_nat (Min (bm_free m bm)), m')
    \<and> bm_raw m' bm = bm_raw m bm - {Min (bm_free m bm)}
    \<and> (\<forall>x. \<not> bm_span bm x \<longrightarrow> m' x = m x)"
proof -
  let ?r = "bm_raw m bm" and ?n = "unat (bm_len bm)"
  have fr: "bm_free m bm = ?r \<inter> {..<?n}" by (rule bm_free_raw [OF wf])
  with ne obtain n where n: "n \<in> ?r" "n < ?n" by auto
  then have rne: "?r \<noteq> {}" by auto
  have fne: "Min ?r \<in> {..<?n}" using Min_le [OF finite_bm_raw n(1)] n(2) by simp
  have "Min ?r \<in> ?r" using rne by simp
  then have in_free: "Min ?r \<in> bm_free m bm" using fr fne by simp
  have eq: "Min (bm_free m bm) = Min ?r"
    using in_free fr Min_le [OF finite_bm_raw, of _ m bm] by (intro Min_eqI) auto
  have "unat (of_nat (Min ?r) :: u64) = Min ?r"
    by (rule raw_index_fits [OF wf \<open>Min ?r \<in> ?r\<close>])
  then have "MIN64 (of_nat (Min ?r)) (bm_len bm) = of_nat (Min ?r)"
    using fne by (simp add: MIN64_def word_less_nat_alt)
  with find_and_set_raw [OF wf rne] show ?thesis by (simp add: eq)
qed

lemma find_and_set_full:
  assumes wf: "bm_wf bm" and full: "bm_free m bm = {}" and pad: "bm_raw m bm \<noteq> {}"
  shows "\<exists>m'. bitmap_find_and_set m bm = Inr (bm_len bm, m')
    \<and> bm_raw m' bm = bm_raw m bm - {Min (bm_raw m bm)}
    \<and> (\<forall>x. \<not> bm_span bm x \<longrightarrow> m' x = m x)"
proof -
  let ?r = "bm_raw m bm"
  have r: "Min ?r \<in> ?r" using pad by simp
  then have "\<not> Min ?r < unat (bm_len bm)" using full bm_free_raw [OF wf] by auto
  then have "MIN64 (of_nat (Min ?r)) (bm_len bm) = bm_len bm"
    using raw_index_fits [OF wf r] by (simp add: MIN64_def word_less_nat_alt)
  with find_and_set_raw [OF wf pad] show ?thesis by simp
qed

lemma bm_free_after:
  assumes "bm_wf bm" and "bm_raw m' bm = bm_raw m bm - {k}"
  shows "bm_free m' bm = bm_free m bm - {k}"
  using assms by (auto simp: bm_free_raw)

text \<open>
  Whatever call of the search returns: a slot below \<open>len\<close> was free and no longer is, and the
  value \<open>len\<close> says that no slot was free.
\<close>

lemma find_and_set_Inr:
  assumes wf: "bm_wf bm" and r: "bitmap_find_and_set m bm = Inr (j, m')"
  shows "j \<le> bm_len bm"
    and "bm_free m' bm = bm_free m bm - {unat j}"
    and "j \<noteq> bm_len bm \<Longrightarrow> unat j \<in> bm_free m bm \<and> unat j = Min (bm_free m bm)"
    and "j = bm_len bm \<longleftrightarrow> bm_free m bm = {}"
    and "\<not> bm_span bm x \<Longrightarrow> m' x = m x"
proof -
  have pad: "bm_raw m bm \<noteq> {}" using find_and_set_exhausted [OF wf] r by auto
  have "j \<le> bm_len bm \<and> bm_free m' bm = bm_free m bm - {unat j}
    \<and> (j \<noteq> bm_len bm \<longrightarrow> unat j \<in> bm_free m bm \<and> unat j = Min (bm_free m bm))
    \<and> (j = bm_len bm \<longleftrightarrow> bm_free m bm = {}) \<and> (\<forall>x. \<not> bm_span bm x \<longrightarrow> m' x = m x)"
  proof (cases "bm_free m bm = {}")
    case True
    from find_and_set_full [OF wf True pad] r
    have "j = bm_len bm" "bm_raw m' bm = bm_raw m bm - {Min (bm_raw m bm)}"
      "\<forall>x. \<not> bm_span bm x \<longrightarrow> m' x = m x" by auto
    with True bm_free_after [OF wf] show ?thesis by auto
  next
    case False
    from find_and_set_free [OF wf False] r
    have j: "j = of_nat (Min (bm_free m bm))" and
      raw: "bm_raw m' bm = bm_raw m bm - {Min (bm_free m bm)}" and
      fr: "\<forall>x. \<not> bm_span bm x \<longrightarrow> m' x = m x" by auto
    have mem: "Min (bm_free m bm) \<in> bm_free m bm" using False by simp
    then have "Min (bm_free m bm) < unat (bm_len bm)" by (simp add: bm_free_def)
    moreover have "unat j = Min (bm_free m bm)"
      using j mem raw_index_fits [OF wf, of "Min (bm_free m bm)" m] bm_free_raw [OF wf] by simp
    ultimately show ?thesis
      using mem False fr bm_free_after [OF wf raw]
      by (auto simp: word_le_nat_alt word_unat_eq_iff)
  qed
  then show "j \<le> bm_len bm" "bm_free m' bm = bm_free m bm - {unat j}"
    "j \<noteq> bm_len bm \<Longrightarrow> unat j \<in> bm_free m bm \<and> unat j = Min (bm_free m bm)"
    "j = bm_len bm \<longleftrightarrow> bm_free m bm = {}" "\<not> bm_span bm x \<Longrightarrow> m' x = m x" by auto
qed

section \<open>Initialisation\<close>

lemma bitmap_init_wf:
  assumes "bitmap_init m n ptr = (a, bm, m')"
  shows "bm_wf bm" and "bm_len bm = n" and "bm_bitmap bm = ptr" and "a = ptr + BITMAP_SIZE_IN_BLOCK n"
  using assms by (auto simp: bitmap_init_def bm_wf_def Let_def)

lemma load64_all_ones:
  assumes "\<And>i. i < 8 \<Longrightarrow> m (a + i) = 0xff"
  shows "load64 m a = mask 64"
proof (rule bit_word_eqI)
  fix n assume "n < LENGTH(64)"
  then have n: "n < 64" "n div 8 < 8" by auto
  then have "(of_nat (n div 8) :: u64) < 8" by (simp add: word_less_nat_alt unat_of_nat)
  then have "m (a + of_nat (n div 8)) = 0xff" by (rule assms)
  then have "m (a + of_nat (n div 8)) = mask 8" by (simp add: mask_eq_decr_exp)
  then show "bit (load64 m a) n = bit (mask 64 :: u64) n"
    using n by (simp add: bit_load64 bit_mask_iff)
qed

lemma bitmap_init_raw:
  assumes "bitmap_init m n ptr = (a, bm, m')"
  shows "bm_raw m' bm = {..<64 * unat (bm_size_in_block bm)}"
proof -
  note wf = bitmap_init_wf [OF assms]
  have m': "m' = memset m (bm_bitmap bm) 0xff (bm_size_in_block bm * 8)"
    using assms by (auto simp: bitmap_init_def Let_def)
  have "bm_bit m' bm k" if "k < 64 * unat (bm_size_in_block bm)" for k
  proof -
    have "m' (bm_cell bm (k div 64) + i) = 0xff" if "i < 8" for i
    proof -
      have "bm_span bm (bm_cell bm (k div 64) + i)"
        using \<open>k < _\<close> that by (intro cell_in_span [OF wf(1), of "k div 64"]) auto
      then show ?thesis by (simp add: m' memset_apply bm_span_def)
    qed
    then have "load64 m' (bm_cell bm (k div 64)) = mask 64"
      by (rule load64_all_ones)
    then show ?thesis by (simp add: bm_bit_def bit_mask_iff)
  qed
  then show ?thesis by (auto simp: bm_raw_def)
qed

lemma bitmap_init_free:
  assumes "bitmap_init m n ptr = (a, bm, m')"
  shows "bm_free m' bm = {..<unat n}"
proof -
  note wf = bitmap_init_wf [OF assms]
  show ?thesis
    using len_less_raw [OF wf(1)]
    unfolding bm_free_raw [OF wf(1)] bitmap_init_raw [OF assms] wf(2) by force
qed

section \<open>Release\<close>

lemma unset_shift:
  fixes i :: u64
  shows "unat (63 - i mod 64) = 63 - unat i mod 64"
proof -
  have m: "unat (i mod 64) = unat i mod 64" by (simp add: unat_mod)
  then have "i mod 64 \<le> 63" by (simp add: word_le_nat_alt)
  then show ?thesis using m by (simp add: unat_sub)
qed

lemma bitmap_unset_mask:
  assumes "i < bm_len bm" and "int_shl1 (63 - i mod 64) = Inr v"
  shows "bitmap_unset m bm i =
    Inr (store64 m (bm_cell bm (unat i div 64)) (load64 m (bm_cell bm (unat i div 64)) OR v))"
proof -
  have "\<not> bm_len bm \<le> i" using assms(1) by simp
  then show ?thesis using assms(2) by (simp add: bitmap_unset_def bm_block_cell unat_div Let_def)
qed

lemma raw_after_or:
  assumes wf: "bm_wf bm" and i: "i < unat (bm_len bm)"
  shows "bm_raw (store64 m (bm_cell bm (i div 64)) (load64 m (bm_cell bm (i div 64)) OR v)) bm
    = bm_raw m bm \<union> {n. n div 64 = i div 64 \<and> bit v (63 - n mod 64)}"
    (is "bm_raw ?m bm = ?R")
proof -
  have S: "unat (bm_size_in_block bm) \<le> 2 ^ 58" by (rule size_in_block_bound [OF wf])
  have blk: "i div 64 < unat (bm_size_in_block bm)" using i by (simp add: unat_size_in_block [OF wf])
  have "bm_bit ?m bm n \<longleftrightarrow> bm_bit m bm n \<or> (n div 64 = i div 64 \<and> bit v (63 - n mod 64))"
    if "n < 64 * unat (bm_size_in_block bm)" for n
  proof -
    have "i div 64 < 2 ^ 60" and "n div 64 < 2 ^ 60" using that S blk by auto
    from bm_bit_store [OF this] show ?thesis by (simp add: bm_bit_def bit_or_iff)
  qed
  moreover have "n < 64 * unat (bm_size_in_block bm)" if "n div 64 = i div 64" for n
    using that blk by auto
  ultimately show ?thesis by (auto simp: bm_raw_def)
qed

lemma unset_frame:
  assumes wf: "bm_wf bm" and i: "i < unat (bm_len bm)" and x: "\<not> bm_span bm x"
  shows "store64 m (bm_cell bm (i div 64)) v x = m x"
proof -
  have "i div 64 < unat (bm_size_in_block bm)" using i by (simp add: unat_size_in_block [OF wf])
  then show ?thesis using x cell_in_span [OF wf] by (auto simp: store64_apply)
qed

lemma unset_high_slot:
  assumes wf: "bm_wf bm" and i: "i < bm_len bm" and hi: "32 < unat i mod 64"
  shows "\<exists>m'. bitmap_unset m bm i = Inr m' \<and> bm_raw m' bm = insert (unat i) (bm_raw m bm)
    \<and> (\<forall>x. \<not> bm_span bm x \<longrightarrow> m' x = m x)"
proof -
  let ?k = "63 - unat i mod 64"
  have "int_shl1 (63 - i mod 64) = Inr (push_bit ?k 1)"
    using hi unset_shift [of i] by (simp add: int_shl1_small)
  from bitmap_unset_mask [OF i this]
  have eq: "bitmap_unset m bm i = Inr (store64 m (bm_cell bm (unat i div 64))
      (load64 m (bm_cell bm (unat i div 64)) OR push_bit ?k 1))" .
  have il: "unat i < unat (bm_len bm)" using i by (simp add: word_less_nat_alt)
  have "{n. n div 64 = unat i div 64 \<and> bit (push_bit ?k 1 :: u64) (63 - n mod 64)} = {unat i}"
  proof -
    have "n div 64 = unat i div 64 \<and> bit (push_bit ?k 1 :: u64) (63 - n mod 64) \<longleftrightarrow> n = unat i" for n
    proof -
      have "n mod 64 < 64" "unat i mod 64 < 64" by simp_all
      then have "bit (push_bit ?k 1 :: u64) (63 - n mod 64) \<longleftrightarrow> n mod 64 = unat i mod 64"
        by (auto simp: bit_simps)
      then show ?thesis by (metis div_mult_mod_eq)
    qed
    then show ?thesis by blast
  qed
  then show ?thesis
    using eq raw_after_or [OF wf il] unset_frame [OF wf il] by (simp del: push_bit_of_1)
qed

lemma unset_middle_slot:
  assumes wf: "bm_wf bm" and i: "i < bm_len bm" and mid: "unat i mod 64 = 32"
  shows "\<exists>m'. bitmap_unset m bm i = Inr m' \<and>
    bm_raw m' bm = bm_raw m bm \<union> {n. n div 64 = unat i div 64 \<and> n mod 64 \<le> 32}"
proof -
  have "63 - i mod 64 = 31"
    using mid unset_shift [of i] by (simp add: word_unat_eq_iff)
  then have "int_shl1 (63 - i mod 64) = Inr 0xffffffff80000000" by (simp add: int_shl1_31)
  from bitmap_unset_mask [OF i this] have eq: "bitmap_unset m bm i =
    Inr (store64 m (bm_cell bm (unat i div 64))
      (load64 m (bm_cell bm (unat i div 64)) OR 0xffffffff80000000))" .
  have il: "unat i < unat (bm_len bm)" using i by (simp add: word_less_nat_alt)
  have v: "(0xffffffff80000000 :: u64) = push_bit 31 (mask 33)" by (simp add: mask_eq_decr_exp)
  have "bit (0xffffffff80000000 :: u64) (63 - n mod 64) \<longleftrightarrow> n mod 64 \<le> 32" for n
  proof -
    have "n mod 64 < 64" by simp
    then show ?thesis unfolding v by (auto simp: bit_push_bit_iff bit_mask_iff)
  qed
  then show ?thesis using eq raw_after_or [OF wf il] by auto
qed

lemma unset_low_slot:
  assumes "i < bm_len bm" and "unat i mod 64 < 32"
  shows "bitmap_unset m bm i = Inl Shift_UB"
proof -
  have "\<not> 63 - i mod 64 < 32"
    using assms(2) unset_shift [of i] by (simp add: word_less_nat_alt)
  then show ?thesis using assms(1) by (simp add: bitmap_unset_def int_shl1_big Let_def)
qed

section \<open>The allocator contract\<close>

text \<open>
  A client asks for a slot, treats the capacity as the answer "none left", and relies on an
  answer below it being a slot nobody holds.
\<close>

fun take_many :: "('s \<Rightarrow> (u64 \<times> 's) res) \<Rightarrow> nat \<Rightarrow> 's \<Rightarrow> (u64 list \<times> 's) res" where
  "take_many f 0 s = Inr ([], s)"
| "take_many f (Suc k) s =
     bindR (f s) (\<lambda>(j, s'). bindR (take_many f k s') (\<lambda>(js, s''). Inr (j # js, s'')))"

locale slot_allocator =
  fixes inv :: "'s \<Rightarrow> bool"
    and free :: "'s \<Rightarrow> nat set"
    and cap :: "'s \<Rightarrow> u64"
    and take_slot :: "'s \<Rightarrow> (u64 \<times> 's) res"
  assumes free_bound: "inv s \<Longrightarrow> free s \<subseteq> {..<unat (cap s)}"
    and take_ok: "inv s \<Longrightarrow> free s \<noteq> {} \<Longrightarrow> \<exists>j s'. take_slot s = Inr (j, s')"
    and take_inv: "inv s \<Longrightarrow> take_slot s = Inr (j, s') \<Longrightarrow> inv s' \<and> cap s' = cap s"
    and take_free: "inv s \<Longrightarrow> take_slot s = Inr (j, s') \<Longrightarrow> free s' = free s - {unat j}"
    and take_cap: "inv s \<Longrightarrow> take_slot s = Inr (j, s') \<Longrightarrow> j = cap s \<longleftrightarrow> free s = {}"
    and take_least: "inv s \<Longrightarrow> take_slot s = Inr (j, s') \<Longrightarrow> j \<noteq> cap s \<Longrightarrow> unat j = Min (free s)"
begin

lemma free_finite: "inv s \<Longrightarrow> finite (free s)"
  using free_bound finite_subset by blast

lemma take_min:
  assumes "inv s" and "free s \<noteq> {}"
  obtains s' where "take_slot s = Inr (of_nat (Min (free s)), s')" and "inv s'"
    and "cap s' = cap s" and "free s' = free s - {Min (free s)}"
proof -
  obtain j s' where t: "take_slot s = Inr (j, s')" using take_ok [OF assms] by blast
  have "j \<noteq> cap s" using take_cap [OF assms(1) t] assms(2) by simp
  then have u: "unat j = Min (free s)" by (rule take_least [OF assms(1) t])
  then have "j = of_nat (Min (free s))" by (rule word_eq_of_nat)
  with t u take_inv [OF assms(1) t] take_free [OF assms(1) t] that show ?thesis by metis
qed

lemma take_many_ascending:
  "inv s \<Longrightarrow> k \<le> card (free s) \<Longrightarrow>
    \<exists>s'. take_many take_slot k s = Inr (map of_nat (take k (sorted_list_of_set (free s))), s')
      \<and> inv s' \<and> cap s' = cap s
      \<and> free s' = free s - set (take k (sorted_list_of_set (free s)))"
proof (induction k arbitrary: s)
  case 0
  then show ?case by simp
next
  case (Suc k)
  have fin: "finite (free s)" using Suc.prems(1) by (rule free_finite)
  from Suc.prems have ne: "free s \<noteq> {}" by auto
  from take_min [OF Suc.prems(1) ne] obtain s1 where s1:
    "take_slot s = Inr (of_nat (Min (free s)), s1)" "inv s1" "cap s1 = cap s"
    "free s1 = free s - {Min (free s)}" .
  have card: "k \<le> card (free s1)" using Suc.prems(2) s1(4) ne fin by simp
  have sl: "sorted_list_of_set (free s) = Min (free s) # sorted_list_of_set (free s1)"
    using fin ne s1(4) by (simp add: sorted_list_of_set_nonempty)
  from Suc.IH [OF s1(2) card] obtain s2 where
    "take_many take_slot k s1 = Inr (map of_nat (take k (sorted_list_of_set (free s1))), s2)"
    "inv s2" "cap s2 = cap s1"
    "free s2 = free s1 - set (take k (sorted_list_of_set (free s1)))" by blast
  with s1 sl show ?case by auto
qed

end

text \<open>The bitmap keeps the contract, with the memory and the record as its state.\<close>

definition bm_take :: "memory \<times> bitmap \<Rightarrow> (u64 \<times> memory \<times> bitmap) res" where
  "bm_take = (\<lambda>(m, bm). bindR (bitmap_find_and_set m bm) (\<lambda>(j, m'). Inr (j, m', bm)))"

lemma bm_take_Inr:
  "bm_take (m, bm) = Inr (j, m', bm') \<longleftrightarrow> bitmap_find_and_set m bm = Inr (j, m') \<and> bm' = bm"
  by (auto simp: bm_take_def bindR_Inr_iff)

lemma take_many_bm: "take_many bm_take k (m, bm) = Inr (js, s') \<Longrightarrow> snd s' = bm"
  by (induction k arbitrary: m js s') (auto simp: bindR_Inr_iff bm_take_Inr)

interpretation bmap: slot_allocator
  "\<lambda>(m, bm). bm_wf bm" "\<lambda>(m, bm). bm_free m bm" "\<lambda>(m, bm). bm_len bm" bm_take
proof (unfold_locales, goal_cases)
  case (1 s)
  then show ?case by (auto simp: bm_free_def split: prod.splits)
next
  case (2 s)
  obtain m bm where s: "s = (m, bm)" by (cases s)
  with 2 obtain j m' where "bitmap_find_and_set m bm = Inr (j, m')"
    using find_and_set_free [of bm m] by auto
  then have "bm_take s = Inr (j, m', bm)" by (simp add: s bm_take_Inr)
  then show ?case by blast
qed (auto simp: bm_take_Inr dest: find_and_set_Inr)

section \<open>Properties\<close>

text \<open>
  C11. Taking a slot from a well-formed bitmap that has a free one succeeds, returns the lowest
  free slot, marks exactly that slot as used, and writes no byte outside the bitmap's blocks.
\<close>

theorem bitmap_find_takes_least:
  assumes "bm_wf bm" and "bm_free m bm \<noteq> {}"
  shows "\<exists>m'. bitmap_find_and_set m bm = Inr (of_nat (Min (bm_free m bm)), m')
    \<and> bm_free m' bm = bm_free m bm - {Min (bm_free m bm)}
    \<and> (\<forall>x. \<not> bm_span bm x \<longrightarrow> m' x = m x)"
proof -
  obtain m' where m': "bitmap_find_and_set m bm = Inr (of_nat (Min (bm_free m bm)), m')"
    "bm_raw m' bm = bm_raw m bm - {Min (bm_free m bm)}" "\<forall>x. \<not> bm_span bm x \<longrightarrow> m' x = m x"
    using find_and_set_free [OF assms] by auto
  with bm_free_after [OF assms(1) m'(2)] show ?thesis by auto
qed

definition ones :: memory where "ones = (\<lambda>_. 0xff)"

definition bm3 :: bitmap where
  "bm3 = \<lparr>bm_len = 3, bm_size_in_block = 1, bm_bitmap = 0x1000\<rparr>"

lemma load64_ones: "load64 ones a = mask 64"
  by (rule load64_all_ones) (simp add: ones_def)

lemma bm_bit_ones: "bm_bit ones bm n"
  by (simp add: bm_bit_def load64_ones bit_mask_iff)

lemma bm_free_ones: "bm_free ones bm = {..<unat (bm_len bm)}"
  by (auto simp: bm_free_def bm_bit_ones)

lemma bm3_free: "bm_free ones bm3 = {0, 1, 2}"
proof -
  have "unat (bm_len bm3) = 3" by (simp add: bm3_def)
  moreover have "{..<3} = {0, 1, 2 :: nat}" by auto
  ultimately show ?thesis by (simp add: bm_free_ones)
qed

theorem bitmap_find_takes_least_witness:
  "\<exists>m'. bitmap_find_and_set ones bm3 = Inr (0, m') \<and> bm_free m' bm3 = {1, 2}"
proof -
  have "bm_wf bm3" by (simp add: bm_wf_def bm3_def BITMAP_SIZE_IN_BLOCK_def)
  moreover have "bm_free ones bm3 \<noteq> {}" by (simp add: bm3_free)
  ultimately have "\<exists>m'. bitmap_find_and_set ones bm3 = Inr (of_nat (Min (bm_free ones bm3)), m')
    \<and> bm_free m' bm3 = bm_free ones bm3 - {Min (bm_free ones bm3)}"
    using bitmap_find_takes_least [of bm3 ones] by auto
  then show ?thesis by (auto simp: bm3_free)
qed

text \<open>
  From a freshly initialised bitmap of any length, as many searches as there are slots
  return the slots in growing order, each once, and leave none free.
\<close>

theorem bitmap_fill_in_order:
  "case bitmap_init m n ptr of (a, bm, m0) \<Rightarrow>
     \<exists>m1. take_many bm_take (unat n) (m0, bm) = Inr (map of_nat [0..<unat n], m1, bm)
       \<and> bm_free m1 bm = {}"
proof -
  obtain a bm m0 where i: "bitmap_init m n ptr = (a, bm, m0)" by (metis prod_cases3)
  note wf = bitmap_init_wf [OF i]
  have fr: "bm_free m0 bm = {..<unat n}" by (rule bitmap_init_free [OF i])
  have sl: "sorted_list_of_set {..<unat n} = [0..<unat n]"
    by (simp add: lessThan_atLeast0)
  obtain s1 where t: "take_many bm_take (unat n) (m0, bm) = Inr (map of_nat [0..<unat n], s1)"
    and f: "(case s1 of (m1, bm1) \<Rightarrow> bm_free m1 bm1) = {..<unat n} - set (take (unat n) [0..<unat n])"
    using bmap.take_many_ascending [of "(m0, bm)" "unat n"] wf(1) by (auto simp only: fr sl
      prod.case card_lessThan order_refl take_all length_upt minus_nat.diff_0)
  obtain m1 where "s1 = (m1, bm)" using take_many_bm [OF t] by (cases s1) auto
  then show ?thesis using t f i by (auto simp: lessThan_atLeast0)
qed

text \<open>
  When no slot is free but padding bits of the last block are left, the search returns
  \<open>len\<close>, and keeps the set of free slots empty: the answer every caller tests for.
\<close>

theorem bitmap_find_full:
  assumes "bm_wf bm" and "bm_free m bm = {}" and "bm_raw m bm \<noteq> {}"
  shows "\<exists>m'. bitmap_find_and_set m bm = Inr (bm_len bm, m') \<and> bm_free m' bm = {}"
proof -
  obtain m' where m': "bitmap_find_and_set m bm = Inr (bm_len bm, m')"
    "bm_raw m' bm = bm_raw m bm - {Min (bm_raw m bm)}"
    using find_and_set_full [OF assms] by auto
  with bm_free_after [OF assms(1) m'(2)] assms(2) show ?thesis by auto
qed

definition bm0 :: bitmap where
  "bm0 = \<lparr>bm_len = 0, bm_size_in_block = 1, bm_bitmap = 0x1000\<rparr>"

theorem bitmap_find_full_witness:
  "\<exists>m'. bitmap_find_and_set ones bm0 = Inr (0, m') \<and> bm_free m' bm0 = {}"
proof -
  have "bm_wf bm0" by (simp add: bm_wf_def bm0_def BITMAP_SIZE_IN_BLOCK_def)
  moreover have "bm_free ones bm0 = {}" by (simp add: bm_free_def bm0_def)
  moreover have "0 \<in> bm_raw ones bm0" by (simp add: bm_raw_def bm0_def bm_bit_ones)
  ultimately have "\<exists>m'. bitmap_find_and_set ones bm0 = Inr (bm_len bm0, m') \<and> bm_free m' bm0 = {}"
    by (intro bitmap_find_full) auto
  then show ?thesis by (simp add: bm0_def)
qed

lemma take_many_raw:
  assumes wf: "bm_wf bm"
  shows "bm_raw m bm = {j..<64 * unat (bm_size_in_block bm)} \<Longrightarrow>
    j + k \<le> 64 * unat (bm_size_in_block bm) \<Longrightarrow>
    \<exists>js m'. take_many bm_take k (m, bm) = Inr (js, m', bm)
      \<and> bm_raw m' bm = {j + k..<64 * unat (bm_size_in_block bm)}"
proof (induction k arbitrary: m j)
  case 0
  then show ?case by simp
next
  case (Suc k)
  let ?N = "64 * unat (bm_size_in_block bm)"
  have lt: "j < ?N" using Suc.prems(2) by simp
  then have ne: "bm_raw m bm \<noteq> {}" using Suc.prems(1) by simp
  have min: "Min (bm_raw m bm) = j"
    unfolding Suc.prems(1) using lt by (intro Min_eqI) simp_all
  from find_and_set_raw [OF wf ne] obtain i m1 where
    m1: "bitmap_find_and_set m bm = Inr (i, m1)" "bm_raw m1 bm = bm_raw m bm - {j}"
    unfolding min by (elim exE conjE) (rule that)
  have "bm_raw m1 bm = {Suc j..<?N}"
    unfolding m1(2) Suc.prems(1) by (intro set_eqI) (simp, linarith)
  from Suc.IH [OF this] Suc.prems(2) obtain js m2 where
    "take_many bm_take k (m1, bm) = Inr (js, m2, bm)" "bm_raw m2 bm = {Suc j + k..<?N}" by auto
  moreover have "bm_take (m, bm) = Inr (i, m1, bm)" using m1(1) by (simp add: bm_take_Inr)
  ultimately show ?case by auto
qed

text \<open>
  Every failing search consumes a padding bit, so the answer \<open>len\<close> does not last: after
  \<open>64 * size_in_block\<close> searches of a fresh bitmap the next one reads \<^verbatim>\<open>index\<close> uninitialised.
\<close>

theorem bitmap_exhaustion_reads_uninitialised:
  "case bitmap_init m n ptr of (a, bm, m0) \<Rightarrow>
     \<exists>js m1. take_many bm_take (64 * unat (BITMAP_SIZE_IN_BLOCK n)) (m0, bm) = Inr (js, m1, bm)
       \<and> bitmap_find_and_set m1 bm = Inl Uninit_Read"
proof -
  obtain a bm m0 where i: "bitmap_init m n ptr = (a, bm, m0)" by (metis prod_cases3)
  note wf = bitmap_init_wf [OF i]
  have sz: "bm_size_in_block bm = BITMAP_SIZE_IN_BLOCK n" using wf(1,2) by (simp add: bm_wf_def)
  have "bm_raw m0 bm = {0..<64 * unat (bm_size_in_block bm)}"
    using bitmap_init_raw [OF i] by (simp add: lessThan_atLeast0)
  from take_many_raw [OF wf(1) this, of "64 * unat (bm_size_in_block bm)"]
  obtain js m1 where "take_many bm_take (64 * unat (BITMAP_SIZE_IN_BLOCK n)) (m0, bm) = Inr (js, m1, bm)"
    and "bm_raw m1 bm = {}" unfolding sz by auto
  then show ?thesis using find_and_set_exhausted [OF wf(1)] i by auto
qed

text \<open>
  Releasing a slot of the lower part of its block (\<open>32 < i mod 64\<close>) frees exactly that
  slot, so a slot just taken is given back.
\<close>

theorem bitmap_unset_frees_slot:
  assumes "bm_wf bm" and "i < bm_len bm" and "32 < unat i mod 64"
  shows "\<exists>m'. bitmap_unset m bm i = Inr m' \<and> bm_free m' bm = insert (unat i) (bm_free m bm)
    \<and> (\<forall>x. \<not> bm_span bm x \<longrightarrow> m' x = m x)"
proof -
  obtain m' where m': "bitmap_unset m bm i = Inr m'"
    "bm_raw m' bm = insert (unat i) (bm_raw m bm)" "\<forall>x. \<not> bm_span bm x \<longrightarrow> m' x = m x"
    using unset_high_slot [OF assms, of m] by auto
  have "bm_free m' bm = insert (unat i) (bm_free m bm)"
    using m'(2) assms(2) by (auto simp: bm_free_raw [OF assms(1)] word_less_nat_alt)
  with m' show ?thesis by auto
qed

definition bm64 :: bitmap where
  "bm64 = \<lparr>bm_len = 64, bm_size_in_block = 2, bm_bitmap = 0x1000\<rparr>"

lemma bm64_wf: "bm_wf bm64"
  by (simp add: bm_wf_def bm64_def BITMAP_SIZE_IN_BLOCK_def)

theorem bitmap_unset_frees_slot_witness:
  "\<exists>m'. bitmap_unset ones bm64 40 = Inr m' \<and> bm_free m' bm64 = insert 40 (bm_free ones bm64)"
proof -
  have "(40 :: u64) < bm_len bm64" "32 < unat (40 :: u64) mod 64" by (simp_all add: bm64_def)
  from bitmap_unset_frees_slot [OF bm64_wf this, of ones] show ?thesis by auto
qed

text \<open>
  Releasing a slot with \<open>i mod 64 = 32\<close> shifts the \<^verbatim>\<open>int\<close> literal into its sign bit, and the
  conversion to 64 bits frees the 33 slots \<open>0\<close> to \<open>32\<close> of the block, whoever holds them.
\<close>

theorem bitmap_unset_sign_extends:
  assumes "bm_wf bm" and "i < bm_len bm" and "unat i mod 64 = 32"
  shows "\<exists>m'. bitmap_unset m bm i = Inr m' \<and> bm_free m' bm =
    bm_free m bm \<union> {n. n < unat (bm_len bm) \<and> n div 64 = unat i div 64 \<and> n mod 64 \<le> 32}"
proof -
  obtain m' where m': "bitmap_unset m bm i = Inr m'"
    "bm_raw m' bm = bm_raw m bm \<union> {n. n div 64 = unat i div 64 \<and> n mod 64 \<le> 32}"
    using unset_middle_slot [OF assms, of m] by auto
  then show ?thesis by (intro exI [of _ m']) (auto simp: bm_free_raw [OF assms(1)])
qed

definition zeros :: memory where "zeros = (\<lambda>_. 0)"

theorem bitmap_unset_sign_extends_witness:
  "\<exists>m'. bitmap_unset zeros bm64 32 = Inr m' \<and> {0..32} \<subseteq> bm_free m' bm64"
proof -
  have "(32 :: u64) < bm_len bm64" "unat (32 :: u64) mod 64 = 32" by (simp_all add: bm64_def)
  from bitmap_unset_sign_extends [OF bm64_wf this, of zeros]
  obtain m' where "bitmap_unset zeros bm64 32 = Inr m'" "bm_free m' bm64 = bm_free zeros bm64 \<union>
    {n. n < unat (bm_len bm64) \<and> n div 64 = unat (32 :: u64) div 64 \<and> n mod 64 \<le> 32}" by auto
  moreover have "n < unat (bm_len bm64)" "n div 64 = unat (32 :: u64) div 64" "n mod 64 \<le> 32"
    if "n \<le> 32" for n using that by (simp_all add: bm64_def)
  ultimately show ?thesis by (intro exI [of _ m']) auto
qed

text \<open>
  Releasing a slot of the upper half of its block (\<open>i mod 64 < 32\<close>) shifts the \<^verbatim>\<open>int\<close>
  literal \<open>1\<close> by 32 or more: the operation has no defined result.
\<close>

theorem bitmap_unset_low_undefined:
  assumes "i < bm_len bm" and "unat i mod 64 < 32"
  shows "bitmap_unset m bm i = Inl Shift_UB"
  by (rule unset_low_slot [OF assms])

theorem bitmap_unset_low_undefined_witness: "bitmap_unset zeros bm64 0 = Inl Shift_UB"
  by (rule bitmap_unset_low_undefined) (simp_all add: bm64_def)

text \<open>
  The address \<^verbatim>\<open>bitmap_init\<close> returns as the first unused one always lies inside the blocks
  it has just written: it advances by the number of blocks, not by their size in bytes.
\<close>

theorem bitmap_init_result_inside:
  "case bitmap_init m n ptr of (a, bm, m') \<Rightarrow> bm_span bm a"
proof -
  obtain a bm m' where i: "bitmap_init m n ptr = (a, bm, m')" by (metis prod_cases3)
  note wf = bitmap_init_wf [OF i]
  have S: "unat (bm_size_in_block bm) \<le> 2 ^ 58" by (rule size_in_block_bound [OF wf(1)])
  have pos: "0 < unat (bm_size_in_block bm)" by (simp add: unat_size_in_block [OF wf(1)])
  have "unat (bm_size_in_block bm * 8) = 8 * unat (bm_size_in_block bm)"
    using S by (subst unat_mult_no_wrap) simp_all
  moreover have "a - bm_bitmap bm = bm_size_in_block bm" using wf by (simp add: bm_wf_def)
  ultimately show ?thesis using pos i by (simp add: bm_span_def word_less_nat_alt)
qed

end
