(* ===== verification/Layout.thy ===== *)
theory Layout
  imports Prelude
begin

text \<open>
  The address-space layout of \<^verbatim>\<open>kernel/mm/layout.h\<close>, the page-table macros of
  \<^verbatim>\<open>kernel/arch/x86_64/mm/paging.h\<close>, the boot structures of \<^verbatim>\<open>kernel/multiboot2.h\<close> that the
  memory manager reads, and the base of the kernel's state: byte memory indexed by virtual
  address, and the symbols the linker provides. A virtual address stands for its own cell: the
  second mapping of a frame (direct mapping against kernel or heap mapping) is not identified
  with the first.
\<close>

section \<open>Layout constants\<close>

definition BIOS_END :: u64 where [const_defs]: "BIOS_END = 0x100000"
definition LOWER_HALF_STOP :: u64 where [const_defs]: "LOWER_HALF_STOP = 0x00007fffffffffff"
definition HIGHER_HALF_START :: u64 where [const_defs]: "HIGHER_HALF_START = 0xffff800000000000"
definition HIGHER_HALF_STOP :: u64 where [const_defs]: "HIGHER_HALF_STOP = 0xffffffffffffffff"
definition MAXIMUM_SUPPORTED_MEMORY_IN_BYTES :: u64 where
  [const_defs]: "MAXIMUM_SUPPORTED_MEMORY_IN_BYTES = 0x1000000000"
definition KERNEL_VMA :: u64 where [const_defs]: "KERNEL_VMA = 0xffffffff80000000"

definition V2P :: "u64 \<Rightarrow> u64" where "V2P x = x - KERNEL_VMA"
definition P2V :: "u64 \<Rightarrow> u64" where "P2V x = x + KERNEL_VMA"
definition DM_V2P :: "u64 \<Rightarrow> u64" where "DM_V2P x = x - HIGHER_HALF_START"
definition DM_P2V :: "u64 \<Rightarrow> u64" where "DM_P2V x = x + HIGHER_HALF_START"

record link_symbols =
  kernel_vma_ro_start :: u64
  kernel_vma_ro_stop :: u64
  kernel_vma_rw_start :: u64
  kernel_vma_rw_stop :: u64
  kernel_vma_start :: u64
  kernel_vma_stop :: u64

definition KERNEL_HEAP_START :: "link_symbols \<Rightarrow> u64" where
  "KERNEL_HEAP_START ks = kernel_vma_start ks - MAXIMUM_SUPPORTED_MEMORY_IN_BYTES"

definition KERNEL_HEAP_STOP :: "link_symbols \<Rightarrow> u64" where
  "KERNEL_HEAP_STOP ks = kernel_vma_start ks"

section \<open>Paging constants\<close>

definition PAGE_PRESENT :: u64 where [const_defs]: "PAGE_PRESENT = 0b1"
definition PAGE_RO :: u64 where [const_defs]: "PAGE_RO = 0b0"
definition PAGE_RW :: u64 where [const_defs]: "PAGE_RW = 0b10"
definition PAGE_KERNEL_RING :: u64 where [const_defs]: "PAGE_KERNEL_RING = 0b0"
definition PAGE_USER_RING :: u64 where [const_defs]: "PAGE_USER_RING = 0b100"
definition PAGE_GLOBAL :: u64 where [const_defs]: "PAGE_GLOBAL = 0b100000000"
definition PAGE_TABLE_SIZE_IN_BYTES :: u64 where [const_defs]: "PAGE_TABLE_SIZE_IN_BYTES = 4096"
definition PAGE_SIZE_IN_BYTES :: u64 where [const_defs]: "PAGE_SIZE_IN_BYTES = 4096"
definition BOOT_PAGE_SIZE_IN_BYTES :: u64 where [const_defs]: "BOOT_PAGE_SIZE_IN_BYTES = 0x40000000"

definition PAGE_USER_RW :: u64 where
  [const_defs]: "PAGE_USER_RW = PAGE_PRESENT OR PAGE_RW OR PAGE_USER_RING"
definition PAGE_USER_RO :: u64 where
  [const_defs]: "PAGE_USER_RO = PAGE_PRESENT OR PAGE_RO OR PAGE_USER_RING"
definition PAGE_KERNEL_RW :: u64 where
  [const_defs]: "PAGE_KERNEL_RW = PAGE_PRESENT OR PAGE_RW OR PAGE_KERNEL_RING OR PAGE_GLOBAL"
definition PAGE_KERNEL_RO :: u64 where
  [const_defs]: "PAGE_KERNEL_RO = PAGE_PRESENT OR PAGE_RO OR PAGE_KERNEL_RING OR PAGE_GLOBAL"

definition DPL_KERN :: u64 where [const_defs]: "DPL_KERN = 0x0"
definition DPL_USER :: u64 where [const_defs]: "DPL_USER = 0x3"

definition PAGE_ADDR :: "u64 \<Rightarrow> u64 \<Rightarrow> u64" where
  "PAGE_ADDR addr page_size = addr AND NOT (page_size - 1)"

definition PML4E_INDEX :: "u64 \<Rightarrow> u64" where "PML4E_INDEX x = drop_bit 39 x AND 0x1ff"
definition PDPT_INDEX :: "u64 \<Rightarrow> u64" where "PDPT_INDEX x = drop_bit 30 x AND 0x1ff"
definition PDT_INDEX :: "u64 \<Rightarrow> u64" where "PDT_INDEX x = drop_bit 21 x AND 0x1ff"
definition PT_INDEX :: "u64 \<Rightarrow> u64" where "PT_INDEX x = drop_bit 12 x AND 0x1ff"

section \<open>Boot memory map\<close>

definition MULTIBOOT_MEMORY_AVAILABLE :: u32 where [const_defs]: "MULTIBOOT_MEMORY_AVAILABLE = 1"
definition MULTIBOOT_MEMORY_RESERVED :: u32 where [const_defs]: "MULTIBOOT_MEMORY_RESERVED = 2"

record multiboot_mmap_entry =
  me_addr :: u64
  me_len :: u64
  me_type :: u32

record multiboot_tag_mmap =
  mm_size :: u32
  mm_entry_size :: u32
  mm_entries :: "multiboot_mmap_entry list"

section \<open>Base of the kernel state\<close>

record kmem =
  mem :: memory
  syms :: link_symbols

section \<open>Alignment lemmas\<close>

abbreviation page_aligned :: "u64 \<Rightarrow> bool" where
  "page_aligned a \<equiv> unat a mod 4096 = 0"

lemma and_mask_unat:
  fixes a :: u64
  shows "unat (a AND mask n) = unat a mod 2 ^ n"
  by (simp flip: take_bit_eq_mask take_bit_eq_mod unsigned_take_bit_eq)

lemma and_not_mask_unat:
  fixes a :: u64
  assumes "n < 64"
  shows "unat (a AND NOT (mask n)) = unat a - unat a mod 2 ^ n"
proof -
  have "a AND NOT (mask n) = push_bit n (drop_bit n a)"
    by (rule bit_word_eqI) (auto simp: bit_simps)
  also have "\<dots> = drop_bit n a * 2 ^ n" by (simp add: push_bit_eq_mult)
  finally have eq: "a AND NOT (mask n) = drop_bit n a * 2 ^ n" .
  have "(2 ^ n :: nat) < 2 ^ 64" using assms by (rule power_strict_increasing) simp
  then have p: "unat (2 ^ n :: u64) = 2 ^ n" 
    using unat_of_nat [of "2 ^ n", where 'a = 64] by simp
  have d: "unat (drop_bit n a) = unat a div 2 ^ n" 
    unfolding unat_drop_bit_eq by (rule drop_bit_eq_div)
  have "unat a div 2 ^ n * 2 ^ n \<le> unat a" by (rule div_times_less_eq_dividend)
  then have "unat a div 2 ^ n * 2 ^ n < 2 ^ 64" using unat64_lt [of a] by linarith
  then have "unat (a AND NOT (mask n)) = unat a div 2 ^ n * 2 ^ n"
    unfolding eq using p d by (subst unat_mult_no_wrap) simp_all
  then show ?thesis by (simp add: minus_mod_eq_div_mult)
qed

lemma page_mask: "PAGE_SIZE_IN_BYTES - 1 = mask 12" "PAGE_TABLE_SIZE_IN_BYTES - 1 = mask 12"
  by (simp_all add: const_defs mask_eq_decr_exp)

lemma unat_PAGE_ADDR: "unat (PAGE_ADDR a PAGE_SIZE_IN_BYTES) = unat a - unat a mod 4096"
  using and_not_mask_unat [of 12 a] by (simp add: PAGE_ADDR_def page_mask)

lemma PAGE_ADDR_aligned: "page_aligned (PAGE_ADDR a PAGE_SIZE_IN_BYTES)"
  by (simp add: unat_PAGE_ADDR minus_mod_eq_mult_div)

lemma IS_ALIGNED_page: "IS_ALIGNED a PAGE_SIZE_IN_BYTES \<longleftrightarrow> page_aligned a"
  using and_mask_unat [of a 12] by (simp add: IS_ALIGNED_def page_mask unat_eq_0 [symmetric])

lemma unat_ROUNDUP_page:
  assumes "unat a + 4096 < 2 ^ 64"
  shows "unat (ROUNDUP a PAGE_SIZE_IN_BYTES) = (unat a div 4096 + 1) * 4096"
proof -
  have u: "unat (a + 4096) = unat a + 4096" using assms by (subst unat_add_no_wrap) simp_all
  have "ROUNDUP a PAGE_SIZE_IN_BYTES = (a + 4096) AND NOT (mask 12)"
    unfolding ROUNDUP_def page_mask by (simp add: const_defs)
  then have "unat (ROUNDUP a PAGE_SIZE_IN_BYTES) = (unat a + 4096) - (unat a + 4096) mod 4096"
    using and_not_mask_unat [of 12 "a + 4096"] u by simp
  also have "\<dots> = (unat a + 4096) div 4096 * 4096" by (rule minus_mod_eq_div_mult)
  also have "(unat a + 4096) div 4096 = unat a div 4096 + 1" by (rule div_add_self2) simp
  finally show ?thesis .
qed

lemma unat_page_size: "unat PAGE_SIZE_IN_BYTES = 4096"
  by (simp add: const_defs)

lemma unat_pages:
  assumes "4096 * unat w < 2 ^ 64"
  shows "unat (w * PAGE_SIZE_IN_BYTES) = 4096 * unat w"
proof -
  have "unat w * unat PAGE_SIZE_IN_BYTES < 2 ^ 64"
    unfolding unat_page_size using assms by (simp add: mult.commute)
  then have "unat (w * PAGE_SIZE_IN_BYTES) = unat w * unat PAGE_SIZE_IN_BYTES"
    by (rule unat_mult_no_wrap)
  then show ?thesis unfolding unat_page_size by (simp add: mult.commute)
qed

lemma unat_of_nat_pages:
  assumes "4096 * j < 2 ^ 64"
  shows "unat (of_nat j * PAGE_SIZE_IN_BYTES) = 4096 * j"
proof -
  have u: "unat (of_nat j :: u64) = j" using assms by (intro unat_of_nat64) simp
  show ?thesis using unat_pages [of "of_nat j"] assms unfolding u by simp
qed

section \<open>Loops over pages\<close>

text \<open>The shape \<^verbatim>\<open>for (va = start; va < stop; va += PAGE_SIZE_IN_BYTES) body\<close>.\<close>

function page_loop :: "('s \<Rightarrow> u64 \<Rightarrow> 's res) \<Rightarrow> 's \<Rightarrow> u64 \<Rightarrow> u64 \<Rightarrow> 's res" where
  "page_loop f s va stop =
     (if va < stop then
        bindR (f s va) (\<lambda>s'.
          if va + PAGE_SIZE_IN_BYTES < va then Inl Addr_Wrap
          else page_loop f s' (va + PAGE_SIZE_IN_BYTES) stop)
      else Inr s)"
  by pat_completeness auto
termination
proof (relation "measure (\<lambda>(f, s, va, stop). unat stop - unat va)", goal_cases)
  case 1
  then show ?case by simp
next
  case (2 f s va stop s')
  then have "unat va \<le> unat (va + PAGE_SIZE_IN_BYTES)" "va + PAGE_SIZE_IN_BYTES \<noteq> va"
    by (simp_all add: word_less_nat_alt const_defs)
  then have "unat va < unat (va + PAGE_SIZE_IN_BYTES)"
    using word_unat_eq_iff by fastforce
  with 2 show ?case by (simp add: word_less_nat_alt)
qed

declare page_loop.simps [simp del]

text \<open>The address of the page \<open>i\<close> pages above \<open>va\<close>.\<close>

abbreviation pg_at :: "u64 \<Rightarrow> nat \<Rightarrow> u64" where
  "pg_at va i \<equiv> va + of_nat i * PAGE_SIZE_IN_BYTES"

lemma unat_pg_at:
  assumes "unat va + 4096 * i < 2 ^ 64"
  shows "unat (pg_at va i) = unat va + 4096 * i"
proof -
  have u: "unat (of_nat i * PAGE_SIZE_IN_BYTES) = 4096 * i"
    using assms by (intro unat_of_nat_pages) simp
  show ?thesis using unat_add_no_wrap [of va "of_nat i * PAGE_SIZE_IN_BYTES"] assms unfolding u by simp
qed

lemma page_loop_step:
  assumes "unat va + 4096 * Suc n < 2 ^ 64"
  shows "page_loop f s va (pg_at va (Suc n)) =
    bindR (f s va) (\<lambda>s'. page_loop f s' (va + PAGE_SIZE_IN_BYTES) (pg_at (va + PAGE_SIZE_IN_BYTES) n))"
proof -
  have "unat (pg_at va (Suc n)) = unat va + 4096 * Suc n" by (rule unat_pg_at [OF assms])
  then have lt: "va < pg_at va (Suc n)" by (simp add: word_less_nat_alt)
  have "unat (pg_at va 1) = unat va + 4096" using assms by (subst unat_pg_at) simp_all
  then have nw: "\<not> va + PAGE_SIZE_IN_BYTES < va" by (simp add: word_less_nat_alt)
  have e: "pg_at va (Suc n) = pg_at (va + PAGE_SIZE_IN_BYTES) n" by (simp add: algebra_simps)
  have "(\<lambda>s'. if va + PAGE_SIZE_IN_BYTES < va then Inl Addr_Wrap
          else page_loop f s' (va + PAGE_SIZE_IN_BYTES) (pg_at va (Suc n)))
      = (\<lambda>s'. page_loop f s' (va + PAGE_SIZE_IN_BYTES) (pg_at (va + PAGE_SIZE_IN_BYTES) n))"
    using nw unfolding e by simp
  then show ?thesis unfolding page_loop.simps [of f s va] if_P [OF lt] by simp
qed

lemma page_loop_done: "page_loop f s va va = Inr s"
  by (simp add: page_loop.simps)

text \<open>The invariant rule: one step of the body per page, indexed from the start.\<close>

lemma page_loop_inv:
  assumes "page_loop f s va (pg_at va n) = Inr s'" and "unat va + 4096 * n < 2 ^ 64"
    and "I 0 s" and "\<And>i t t'. i < n \<Longrightarrow> I i t \<Longrightarrow> f t (pg_at va i) = Inr t' \<Longrightarrow> I (Suc i) t'"
  shows "I n s'"
  using assms
proof (induction n arbitrary: va s I)
  case 0
  then show ?case by (simp add: page_loop_done)
next
  case (Suc n)
  from Suc.prems(1,2) obtain t where t: "f s va = Inr t"
    "page_loop f t (va + PAGE_SIZE_IN_BYTES) (pg_at (va + PAGE_SIZE_IN_BYTES) n) = Inr s'"
    unfolding page_loop_step [OF Suc.prems(2)] by (auto simp: bindR_Inr_iff)
  have "unat (va + PAGE_SIZE_IN_BYTES) = unat va + 4096"
    using Suc.prems(2) by (subst unat_add_no_wrap) (simp_all add: unat_page_size)
  then have b: "unat (va + PAGE_SIZE_IN_BYTES) + 4096 * n < 2 ^ 64" using Suc.prems(2) by simp
  have e: "pg_at (va + PAGE_SIZE_IN_BYTES) i = pg_at va (Suc i)" for i by (simp add: algebra_simps)
  have "I (Suc 0) t" using Suc.prems(4) [of 0 s t] Suc.prems(3) t(1) by simp
  then show ?case
    using Suc.IH [OF t(2) b, of "\<lambda>i. I (Suc i)"] Suc.prems(4) unfolding e by simp
qed

text \<open>The loop returns when every step of the body does.\<close>

lemma page_loop_total:
  assumes "unat va + 4096 * n < 2 ^ 64"
    and "I 0 s" and "\<And>i t. i < n \<Longrightarrow> I i t \<Longrightarrow> \<exists>t'. f t (pg_at va i) = Inr t' \<and> I (Suc i) t'"
  shows "\<exists>s'. page_loop f s va (pg_at va n) = Inr s' \<and> I n s'"
  using assms
proof (induction n arbitrary: va s I)
  case 0
  then show ?case by (simp add: page_loop_done)
next
  case (Suc n)
  have "unat (va + PAGE_SIZE_IN_BYTES) = unat va + 4096"
    using Suc.prems(1) by (subst unat_add_no_wrap) (simp_all add: unat_page_size)
  then have b: "unat (va + PAGE_SIZE_IN_BYTES) + 4096 * n < 2 ^ 64" using Suc.prems(1) by simp
  have e: "pg_at (va + PAGE_SIZE_IN_BYTES) i = pg_at va (Suc i)" for i by (simp add: algebra_simps)
  obtain t where t: "f s va = Inr t" "I (Suc 0) t" using Suc.prems(3) [of 0 s] Suc.prems(2) by auto
  have "\<exists>t'. f u (pg_at (va + PAGE_SIZE_IN_BYTES) i) = Inr t' \<and> I (Suc (Suc i)) t'"
    if "i < n" "I (Suc i) u" for i u
    unfolding e using Suc.prems(3) [of "Suc i" u] that by simp
  from Suc.IH [OF b, of "\<lambda>i. I (Suc i)", OF t(2) this]
  have "\<exists>s'. page_loop f t (va + PAGE_SIZE_IN_BYTES) (pg_at (va + PAGE_SIZE_IN_BYTES) n) = Inr s'
    \<and> I (Suc n) s'" .
  then show ?case unfolding page_loop_step [OF Suc.prems(1)] using t(1) by simp
qed

text \<open>The same for a range of any length that ends below the last page.\<close>

lemma page_loop_below:
  assumes "unat stop + 4096 \<le> 2 ^ 64" and "\<And>t x. va \<le> x \<Longrightarrow> x < stop \<Longrightarrow> \<exists>t'. f t x = Inr t'"
  shows "\<exists>t. page_loop f s va stop = Inr t"
  using assms
proof (induction f s va stop rule: page_loop.induct)
  case (1 f s va stop)
  show ?case
  proof (cases "va < stop")
    case True
    obtain s' where s': "f s va = Inr s'" using "1.prems"(2) [of va s] True by auto
    have "unat va + 4096 < 2 ^ 64" using True "1.prems"(1) by (simp add: word_less_nat_alt)
    then have "unat (va + PAGE_SIZE_IN_BYTES) = unat va + 4096"
      by (subst unat_add_no_wrap) (simp_all add: unat_page_size)
    then have nw: "\<not> va + PAGE_SIZE_IN_BYTES < va" "va \<le> va + PAGE_SIZE_IN_BYTES"
      by (simp_all add: word_less_nat_alt word_le_nat_alt)
    have "\<exists>t. page_loop f s' (va + PAGE_SIZE_IN_BYTES) stop = Inr t"
      by (rule "1.IH" [OF True s' nw(1) "1.prems"]) (use nw(2) order_trans in blast)+
    then show ?thesis unfolding page_loop.simps [of f s va] using True s' nw by simp
  next
    case False
    then show ?thesis by (simp add: page_loop.simps)
  qed
qed

text \<open>Two bodies that agree on an invariant give the same loop.\<close>

lemma page_loop_cong:
  assumes "J s" and "\<And>s va. J s \<Longrightarrow> f s va = g s va" and "\<And>s va s'. J s \<Longrightarrow> g s va = Inr s' \<Longrightarrow> J s'"
  shows "page_loop f s va stop = page_loop g s va stop"
  using assms
proof (induction f s va stop rule: page_loop.induct)
  case (1 f s va stop)
  have "bindR (f s va) (\<lambda>s'. if va + PAGE_SIZE_IN_BYTES < va then Inl Addr_Wrap
          else page_loop f s' (va + PAGE_SIZE_IN_BYTES) stop)
      = bindR (g s va) (\<lambda>s'. if va + PAGE_SIZE_IN_BYTES < va then Inl Addr_Wrap
          else page_loop g s' (va + PAGE_SIZE_IN_BYTES) stop)" if lt: "va < stop"
  proof (rule bindR_cong)
    show fg: "f s va = g s va" by (rule "1.prems"(2) [OF "1.prems"(1)])
    fix s' assume g: "g s va = Inr s'"
    have "page_loop f s' (va + PAGE_SIZE_IN_BYTES) stop = page_loop g s' (va + PAGE_SIZE_IN_BYTES) stop"
      if "\<not> va + PAGE_SIZE_IN_BYTES < va"
      by (rule "1.IH" [OF lt _ that "1.prems"(3) [OF "1.prems"(1) g] "1.prems"(2,3)]) (use fg g in simp)
    then show "(if va + PAGE_SIZE_IN_BYTES < va then Inl Addr_Wrap
          else page_loop f s' (va + PAGE_SIZE_IN_BYTES) stop)
        = (if va + PAGE_SIZE_IN_BYTES < va then Inl Addr_Wrap
          else page_loop g s' (va + PAGE_SIZE_IN_BYTES) stop)" by simp
  qed
  then show ?case unfolding page_loop.simps [of f s va] page_loop.simps [of g s va] by simp
qed

end
