(* ===== verification/Pmm.thy ===== *)
theory Pmm
  imports Bitmap Layout
begin

text \<open>
  The physical page allocator of \<^verbatim>\<open>kernel/mm/pmm.c\<close>: the table of memory regions built from the
  boot loader's memory map, one bitmap per available region, page allocation and release. The
  list \<open>pmap\<close> is the used part of the static array, so \<^verbatim>\<open>pmap_size\<close> is its length. The lemmas
  show what the table holds and when its regions do not overlap, that allocation hands out a page
  no one holds, and where initialisation and release go wrong. The locale \<open>page_allocator\<close> is
  the contract towards the page-table and virtual memory code.
\<close>

section \<open>State\<close>

definition PMAP_SIZE :: nat where [const_defs]: "PMAP_SIZE = 10"

datatype pmm_region_type = PMM_REGION_AVAILABLE | PMM_REGION_RESERVED

record pmm_region =
  pr_addr :: u64
  pr_size_in_pages :: u64
  pr_type :: pmm_region_type
  pr_bitmap :: bitmap

record pmm_phys_addr =
  pa_type :: pmm_region_type
  pa_pa :: u64

record pmm_state = kmem +
  pmap :: "pmm_region list"
  pmm_vma_stop :: u64

section \<open>Building the region table\<close>

definition zero_bitmap :: bitmap where
  "zero_bitmap = \<lparr>bm_len = 0, bm_size_in_block = 0, bm_bitmap = 0\<rparr>"

definition region_stop :: "pmm_region \<Rightarrow> u64" where
  "region_stop r = pr_addr r + pr_size_in_pages r * PAGE_SIZE_IN_BYTES"

definition pmap_sorted :: "pmm_region list \<Rightarrow> bool" where
  "pmap_sorted xs \<longleftrightarrow> (\<forall>i \<in> {1..<length xs}. \<not> pr_addr (xs ! i) \<le> pr_addr (xs ! (i - 1)))"

function find_min :: "pmm_region list \<Rightarrow> nat \<Rightarrow> nat \<Rightarrow> nat" where
  "find_min xs mi j =
     (if j < length xs then
        find_min xs (if pr_addr (xs ! mi) > pr_addr (xs ! j) then j else mi) (j + 1)
      else mi)"
  by pat_completeness auto
termination
  by (relation "measure (\<lambda>(xs, mi, j). length xs - j)") auto

function pmap_sort_from :: "pmm_region list \<Rightarrow> nat \<Rightarrow> pmm_region list" where
  "pmap_sort_from xs start =
     (if start + 1 < length xs then
        (let mi = find_min xs start (start + 1); tmp = xs ! start in
         pmap_sort_from (xs[start := xs ! mi, mi := tmp]) (start + 1))
      else xs)"
  by pat_completeness auto
termination
  by (relation "measure (\<lambda>(xs, start). length xs - start)") (auto simp: Let_def)

declare find_min.simps [simp del] pmap_sort_from.simps [simp del]

definition pmap_sort :: "pmm_region list \<Rightarrow> pmm_region list" where
  "pmap_sort xs = (if length xs = 0 then xs else pmap_sort_from xs 0)"

definition pmap_new_region :: "link_symbols \<Rightarrow> multiboot_mmap_entry \<Rightarrow> pmm_region \<times> u64" where
  "pmap_new_region ks e =
     (let ty = (if me_type e = MULTIBOOT_MEMORY_AVAILABLE then PMM_REGION_AVAILABLE
                else PMM_REGION_RESERVED);
          addr = (if ty = PMM_REGION_AVAILABLE
                  then PAGE_ADDR (MAX64 (V2P (kernel_vma_stop ks)) (me_addr e)) PAGE_SIZE_IN_BYTES
                  else PAGE_ADDR (me_addr e) PAGE_SIZE_IN_BYTES);
          len = me_len e - (addr - me_addr e);
          addr_stop = ROUNDUP ((addr + len) - 1) PAGE_SIZE_IN_BYTES
      in (\<lparr>pr_addr = addr, pr_size_in_pages = (addr_stop - addr) div PAGE_SIZE_IN_BYTES,
           pr_type = ty, pr_bitmap = zero_bitmap\<rparr>, addr_stop))"

definition pmap_insert ::
  "link_symbols \<Rightarrow> pmm_region list \<Rightarrow> multiboot_mmap_entry \<Rightarrow> pmm_region list res" where
  "pmap_insert ks xs e =
     (let (r, addr_stop) = pmap_new_region ks e in
      if list_all (\<lambda>q. pr_addr r \<ge> region_stop q \<or> addr_stop \<le> pr_addr q) xs
      then Inr (xs @ [r])
      else Inl (Panic ''pmap_insert: physical memory overlap''))"

definition is_available_or_reserved :: "multiboot_mmap_entry \<Rightarrow> bool" where
  "is_available_or_reserved e \<longleftrightarrow>
     (me_type e = MULTIBOOT_MEMORY_AVAILABLE \<and> me_addr e \<ge> BIOS_END)
     \<or> me_type e = MULTIBOOT_MEMORY_RESERVED"

fun pmap_init_loop ::
  "link_symbols \<Rightarrow> multiboot_mmap_entry list \<Rightarrow> nat \<Rightarrow> pmm_region list \<Rightarrow> pmm_region list res" where
  "pmap_init_loop ks es 0 xs = Inr xs"
| "pmap_init_loop ks [] (Suc n) xs = Inl Fault"
| "pmap_init_loop ks (e # es) (Suc n) xs =
     (if \<not> is_available_or_reserved e then pmap_init_loop ks es n xs
      else if length xs \<ge> PMAP_SIZE \<or> length xs = 0xff
      then Inl (Panic ''pmap_init: statically allocated pmap not big enough'')
      else bindR (pmap_insert ks xs e) (\<lambda>xs'. pmap_init_loop ks es n xs'))"

definition nb_entries :: "multiboot_tag_mmap \<Rightarrow> u32 res" where
  "nb_entries mmap =
     (if mm_entry_size mmap = 0 then Inl Div_By_Zero
      else Inr (ucast (((ucast (mm_size mmap) :: u64) - 16) div ucast (mm_entry_size mmap))))"

definition pmap_init :: "link_symbols \<Rightarrow> multiboot_tag_mmap \<Rightarrow> pmm_region list res" where
  "pmap_init ks mmap =
     bindR (nb_entries mmap) (\<lambda>n.
     bindR (pmap_init_loop ks (mm_entries mmap) (unat n) []) (\<lambda>xs.
     Inr (pmap_sort xs)))"

section \<open>Page operations\<close>

text \<open>The lines \<^verbatim>\<open>pmm_dump_pmap\<close> prints: start, end, size in KiB and type of each region.\<close>

definition pmm_dump_pmap :: "'a pmm_state_scheme \<Rightarrow> (u64 \<times> u64 \<times> u64 \<times> pmm_region_type) list" where
  "pmm_dump_pmap s = map (\<lambda>r. (pr_addr r, region_stop r,
     BYTE2KB (pr_size_in_pages r * PAGE_SIZE_IN_BYTES), pr_type r)) (pmap s)"

fun next_phys_page_in :: "pmm_region list \<Rightarrow> u64 \<Rightarrow> pmm_phys_addr" where
  "next_phys_page_in [] nxt = \<lparr>pa_type = PMM_REGION_AVAILABLE, pa_pa = 1\<rparr>"
| "next_phys_page_in (r # rs) nxt =
     (if nxt \<ge> region_stop r then next_phys_page_in rs nxt
      else \<lparr>pa_type = pr_type r, pa_pa = MAX64 nxt (pr_addr r)\<rparr>)"

definition pmm_next_phys_page :: "'a pmm_state_scheme \<Rightarrow> u64 \<Rightarrow> pmm_phys_addr" where
  "pmm_next_phys_page s addr = next_phys_page_in (pmap s) (addr + PAGE_SIZE_IN_BYTES)"

fun alloc_in :: "memory \<Rightarrow> pmm_region list \<Rightarrow> (u64 \<times> memory) res" where
  "alloc_in m [] = Inr (0, m)"
| "alloc_in m (r # rs) =
     (if pr_type r \<noteq> PMM_REGION_AVAILABLE then alloc_in m rs
      else bindR (bitmap_find_and_set m (pr_bitmap r)) (\<lambda>(j, m').
        if j = bm_len (pr_bitmap r) then alloc_in m' rs
        else Inr (pr_addr r + j * PAGE_SIZE_IN_BYTES, m')))"

definition pmm_alloc :: "'a pmm_state_scheme \<Rightarrow> (u64 \<times> 'a pmm_state_scheme) res" where
  "pmm_alloc s = bindR (alloc_in (mem s) (pmap s)) (\<lambda>(p, m). Inr (p, s\<lparr>mem := m\<rparr>))"

definition pmm_xalloc :: "'a pmm_state_scheme \<Rightarrow> (u64 \<times> 'a pmm_state_scheme) res" where
  "pmm_xalloc s =
     bindR (pmm_alloc s) (\<lambda>(p, s').
       if p = 0 then Inl (Panic ''pmm_xalloc: no more memory'') else Inr (p, s'))"

fun free_in :: "memory \<Rightarrow> pmm_region list \<Rightarrow> u64 \<Rightarrow> memory res" where
  "free_in m [] ptr = Inl (Panic ''pmm_free: bad page free'')"
| "free_in m (r # rs) ptr =
     (if pr_type r \<noteq> PMM_REGION_AVAILABLE then free_in m rs ptr
      else if ptr \<ge> region_stop r \<or> ptr < pr_addr r then free_in m rs ptr
      else bitmap_unset m (pr_bitmap r) ((ptr - pr_addr r) div PAGE_SIZE_IN_BYTES))"

definition pmm_free :: "'a pmm_state_scheme \<Rightarrow> u64 \<Rightarrow> 'a pmm_state_scheme res" where
  "pmm_free s ptr =
     (if ptr \<le> V2P (pmm_vma_stop s)
      then Inl (Panic ''pmm_free: freeing non freeable memory pages'')
      else bindR (free_in (mem s) (pmap s) ptr) (\<lambda>m. Inr (s\<lparr>mem := m\<rparr>)))"

section \<open>Initialisation\<close>

fun init_bitmaps ::
  "memory \<Rightarrow> pmm_region list \<Rightarrow> u64 \<Rightarrow> u64 \<Rightarrow> pmm_region list \<times> u64 \<times> u64 \<times> memory" where
  "init_bitmaps m [] bitmap_alloc n = ([], bitmap_alloc, n, m)"
| "init_bitmaps m (r # rs) bitmap_alloc n =
     (if pr_type r \<noteq> PMM_REGION_AVAILABLE then
        (let (rs', a, n', m') = init_bitmaps m rs bitmap_alloc n in (r # rs', a, n', m'))
      else
        (let (a1, bm, m1) = bitmap_init m (pr_size_in_pages r) bitmap_alloc;
             (rs', a, n', m') = init_bitmaps m1 rs a1 (n + pr_size_in_pages r)
         in (r\<lparr>pr_bitmap := bm\<rparr> # rs', a, n', m')))"

text \<open>
  The loop that withdraws the pages of the kernel's own tail.
\<close>

function reserve_loop ::
  "'a pmm_state_scheme \<Rightarrow> u64 \<Rightarrow> u64 \<Rightarrow> u64 \<Rightarrow> (u64 \<times> 'a pmm_state_scheme) res" where
  "reserve_loop s pa stop n =
     (if pa < stop then
        bindR (pmm_alloc s) (\<lambda>(p, s').
          if pa + PAGE_SIZE_IN_BYTES < pa then Inl Addr_Wrap
          else reserve_loop s' (pa + PAGE_SIZE_IN_BYTES) stop (n - 1))
      else Inr (n, s))"
  by pat_completeness auto
termination
proof (relation "measure (\<lambda>(s, pa, stop, n). unat stop - unat pa)", goal_cases)
  case 1
  then show ?case by simp
next
  case (2 s pa stop n x p s')
  then have "unat pa \<le> unat (pa + PAGE_SIZE_IN_BYTES)" "pa + PAGE_SIZE_IN_BYTES \<noteq> pa"
    by (simp_all add: word_less_nat_alt const_defs)
  then have "unat pa < unat (pa + PAGE_SIZE_IN_BYTES)"
    using word_unat_eq_iff by fastforce
  with 2 show ?case by (simp add: word_less_nat_alt)
qed

declare reserve_loop.simps [simp del]

definition pmm_init ::
  "'a pmm_state_scheme \<Rightarrow> multiboot_tag_mmap \<Rightarrow> (u64 \<times> 'a pmm_state_scheme) res" where
  "pmm_init s mmap =
     bindR (pmap_init (syms s) mmap) (\<lambda>xs.
       let bitmap_alloc = kernel_vma_stop (syms s);
           (rs, a, n, m) = init_bitmaps (mem s) xs bitmap_alloc 0;
           vstop = ROUNDUP (a - 1) PAGE_SIZE_IN_BYTES;
           s' = s\<lparr>mem := m, pmap := rs, pmm_vma_stop := vstop\<rparr>
       in reserve_loop s' (V2P (kernel_vma_stop (syms s))) (V2P vstop) n)"

section \<open>The table is sorted\<close>

lemma find_min_spec:
  assumes "mi < length xs" and "lo \<le> mi" and "lo \<le> j" and "j \<le> length xs"
    and "\<And>k. lo \<le> k \<Longrightarrow> k < j \<Longrightarrow> pr_addr (xs ! mi) \<le> pr_addr (xs ! k)"
  shows "find_min xs mi j < length xs \<and> lo \<le> find_min xs mi j
    \<and> (\<forall>k. lo \<le> k \<longrightarrow> k < length xs \<longrightarrow> pr_addr (xs ! find_min xs mi j) \<le> pr_addr (xs ! k))"
  using assms
proof (induction xs mi j rule: find_min.induct)
  case (1 xs mi j)
  show ?case
  proof (cases "j < length xs")
    case True
    let ?mi = "if pr_addr (xs ! mi) > pr_addr (xs ! j) then j else mi"
    have "pr_addr (xs ! ?mi) \<le> pr_addr (xs ! k)" if "lo \<le> k" "k < j + 1" for k
      using "1.prems"(5) [of k] that by (cases "k = j") auto
    then have "find_min xs ?mi (j + 1) < length xs \<and> lo \<le> find_min xs ?mi (j + 1)
      \<and> (\<forall>k. lo \<le> k \<longrightarrow> k < length xs \<longrightarrow>
           pr_addr (xs ! find_min xs ?mi (j + 1)) \<le> pr_addr (xs ! k))"
      using True "1.prems" by (intro "1.IH") auto
    then show ?thesis using True by (simp add: find_min.simps [of xs mi j])
  next
    case False
    then show ?thesis using "1.prems" unfolding find_min.simps [of xs mi j] by simp
  qed
qed

lemma sort_step_mset:
  assumes "start < length xs" and "mi < length xs"
  shows "mset (xs[start := xs ! mi, mi := xs ! start]) = mset xs"
  by (rule mset_swap [OF assms(2,1)])

lemma pmap_sort_from_spec:
  assumes "\<And>i j. i < start \<Longrightarrow> i < j \<Longrightarrow> j < length xs \<Longrightarrow> pr_addr (xs ! i) \<le> pr_addr (xs ! j)"
  shows "mset (pmap_sort_from xs start) = mset xs \<and> sorted (map pr_addr (pmap_sort_from xs start))"
  using assms
proof (induction xs start rule: pmap_sort_from.induct)
  case (1 xs start)
  show ?case
  proof (cases "start + 1 < length xs")
    case True
    define mi where "mi = find_min xs start (start + 1)"
    let ?xs = "xs[start := xs ! mi, mi := xs ! start]"
    have mi: "mi < length xs" "start \<le> mi"
      "\<And>k. start \<le> k \<Longrightarrow> k < length xs \<Longrightarrow> pr_addr (xs ! mi) \<le> pr_addr (xs ! k)"
      using True find_min_spec [of start xs start "start + 1"] unfolding mi_def
      by (auto simp: le_less_Suc_eq)
    have nth: "?xs ! k = (if k = mi then xs ! start else if k = start then xs ! mi else xs ! k)"
      if "k < length xs" for k
      using that mi(1) True by (simp add: nth_list_update)
    have "pr_addr (?xs ! i) \<le> pr_addr (?xs ! j)" if "i < start + 1" "i < j" "j < length ?xs" for i j
    proof (cases "i = start")
      case True
      then have "?xs ! i = xs ! mi" using nth [of i] that by (cases "mi = start") auto
      moreover have "?xs ! j = xs ! (if j = mi then start else j)"
        using that True mi(1) by (simp add: nth_list_update)
      moreover have "start \<le> (if j = mi then start else j)"
        "(if j = mi then start else j) < length xs" using that True by auto
      ultimately show ?thesis using mi(3) by simp
    next
      case False
      then have "i < start" using that(1) by simp
      then have ei: "?xs ! i = xs ! i" using nth [of i] that mi(2) by simp
      have ej: "?xs ! j = xs ! (if j = mi then start else if j = start then mi else j)"
        using that True mi(1) by (simp add: nth_list_update)
      show ?thesis
        unfolding ei ej using \<open>i < start\<close> that mi(1,2) "1.prems" [of i j] "1.prems" [of i start]
          "1.prems" [of i mi] True by simp
    qed
    then have IH: "mset (pmap_sort_from ?xs (start + 1)) = mset ?xs
      \<and> sorted (map pr_addr (pmap_sort_from ?xs (start + 1)))"
      by (rule "1.IH" [OF True mi_def refl])
    have eq: "pmap_sort_from xs start = pmap_sort_from ?xs (start + 1)"
      using True unfolding pmap_sort_from.simps [of xs start] Let_def mi_def by simp
    show ?thesis using IH sort_step_mset [of start xs mi] True mi(1) unfolding eq by simp
  next
    case False
    have "sorted (map pr_addr xs)"
      unfolding sorted_iff_nth_mono_less using "1.prems" False by (auto simp: less_Suc_eq)
    then show ?thesis using False by (simp add: pmap_sort_from.simps [of xs start])
  qed
qed

lemma pmap_sort_spec: "mset (pmap_sort xs) = mset xs \<and> sorted (map pr_addr (pmap_sort xs))"
  using pmap_sort_from_spec [of 0 xs] by (simp add: pmap_sort_def)

section \<open>The regions do not overlap\<close>

lemma aligned_diff_div_mult:
  fixes a b :: u64
  assumes "page_aligned a" and "page_aligned b"
  shows "(b - a) div 4096 * 4096 = b - a"
proof -
  have "unat (b - a) mod 4096 = 0"
  proof (cases "a \<le> b")
    case True
    then show ?thesis using assms by (simp add: unat_sub_no_wrap word_le_nat_alt mod_diff_eq
          dvd_eq_mod_eq_0 [symmetric])
  next
    case False
    then have "unat (b - a) = unat b + 2 ^ 64 - unat a"
      by (simp add: unat_sub_if_size word_size word_le_nat_alt)
    moreover have "4096 dvd unat b + 2 ^ 64 - unat a"
      using assms by (intro dvd_diff_nat dvd_add) (auto simp: dvd_eq_mod_eq_0)
    ultimately show ?thesis by (simp add: dvd_eq_mod_eq_0)
  qed
  then have "unat (b - a) div 4096 * 4096 = unat (b - a)" by auto
  moreover have "unat ((b - a) div 4096 * 4096) = unat (b - a) div 4096 * 4096"
    using unat64_lt [of "b - a"] calculation by (subst unat_mult_no_wrap) (simp_all add: unat_div)
  ultimately show ?thesis by (simp add: word_unat_eq_iff)
qed

lemma ROUNDUP_aligned: "page_aligned (ROUNDUP a PAGE_SIZE_IN_BYTES)"
  using PAGE_ADDR_aligned [of "a + PAGE_SIZE_IN_BYTES"] by (simp add: ROUNDUP_def PAGE_ADDR_def)

lemma pmap_new_region_stop:
  assumes "pmap_new_region ks e = (r, stop)"
  shows "region_stop r = stop" and "page_aligned (pr_addr r)"
proof -
  from assms have al: "page_aligned (pr_addr r)" "page_aligned stop"
    and sz: "pr_size_in_pages r = (stop - pr_addr r) div PAGE_SIZE_IN_BYTES"
    by (auto simp: pmap_new_region_def Let_def PAGE_ADDR_aligned ROUNDUP_aligned)
  show "page_aligned (pr_addr r)" by (rule al(1))
  show "region_stop r = stop"
    using aligned_diff_div_mult [OF al] by (simp add: region_stop_def sz const_defs)
qed

text \<open>
  The code's own test of two regions, with the end that wraps around: it is a test of overlap only
  for regions that end below \<open>2 ^ 64\<close>.
\<close>

definition apart :: "pmm_region \<Rightarrow> pmm_region \<Rightarrow> bool" where
  "apart a b \<longleftrightarrow> region_stop a \<le> pr_addr b \<or> region_stop b \<le> pr_addr a"

lemma apart_sym: "apart a b \<Longrightarrow> apart b a"
  by (auto simp: apart_def)

lemma pmap_insert_apart:
  assumes "pmap_insert ks xs e = Inr ys" and "sorted_wrt apart xs"
  shows "sorted_wrt apart ys" and "length ys = length xs + 1"
    and "\<forall>r \<in> set xs. page_aligned (pr_addr r) \<Longrightarrow> \<forall>r \<in> set ys. page_aligned (pr_addr r)"
proof -
  obtain r stop where n: "pmap_new_region ks e = (r, stop)" by (metis surj_pair)
  from assms(1) n have ys: "ys = xs @ [r]"
    and ok: "list_all (\<lambda>q. pr_addr r \<ge> region_stop q \<or> stop \<le> pr_addr q) xs"
    by (auto simp: pmap_insert_def split: if_splits)
  note st = pmap_new_region_stop [OF n]
  show "sorted_wrt apart ys"
    using assms(2) ok st(1) by (auto simp: ys sorted_wrt_append apart_def list_all_iff)
  show "length ys = length xs + 1" by (simp add: ys)
  show "\<forall>r \<in> set ys. page_aligned (pr_addr r)" if "\<forall>r \<in> set xs. page_aligned (pr_addr r)"
    using that st(2) by (simp add: ys)
qed

lemma pmap_init_loop_apart:
  "pmap_init_loop ks es n xs = Inr ys \<Longrightarrow> sorted_wrt apart xs \<Longrightarrow> length xs \<le> PMAP_SIZE \<Longrightarrow>
   \<forall>r \<in> set xs. page_aligned (pr_addr r) \<Longrightarrow>
   sorted_wrt apart ys \<and> length ys \<le> PMAP_SIZE \<and> (\<forall>r \<in> set ys. page_aligned (pr_addr r))"
proof (induction ks es n xs rule: pmap_init_loop.induct)
  case (3 ks e es n xs)
  show ?case
  proof (cases "is_available_or_reserved e")
    case True
    with "3.prems"(1) obtain xs' where x: "\<not> (length xs \<ge> PMAP_SIZE \<or> length xs = 0xff)"
      "pmap_insert ks xs e = Inr xs'" "pmap_init_loop ks es n xs' = Inr ys"
      by (auto simp: bindR_Inr_iff split: if_splits)
    note ins = pmap_insert_apart [OF x(2) "3.prems"(2)]
    show ?thesis
      using x ins "3.prems"(4) True by (intro "3.IH"(2) [of xs']) auto
  next
    case False
    then show ?thesis using 3 by simp
  qed
qed auto

lemma pmap_init_apart:
  assumes "pmap_init ks mmap = Inr xs"
  shows "sorted_wrt apart xs" and "sorted (map pr_addr xs)" and "length xs \<le> PMAP_SIZE"
    and "\<forall>r \<in> set xs. page_aligned (pr_addr r)"
proof -
  from assms obtain n ys where ys: "pmap_init_loop ks (mm_entries mmap) (unat (n :: u32)) [] = Inr ys"
    and xs: "xs = pmap_sort ys" by (auto simp: pmap_init_def bindR_Inr_iff)
  have a: "sorted_wrt apart ys \<and> length ys \<le> PMAP_SIZE \<and> (\<forall>r \<in> set ys. page_aligned (pr_addr r))"
    by (rule pmap_init_loop_apart [OF ys]) simp_all
  have m: "mset ys = mset xs" and "sorted (map pr_addr xs)" using pmap_sort_spec [of ys] xs by auto
  then show "sorted (map pr_addr xs)" by simp
  show "sorted_wrt apart xs" using sorted_wrt_perm [of apart, OF apart_sym m] a by simp
  show "length xs \<le> PMAP_SIZE" using a m by (metis size_mset)
  show "\<forall>r \<in> set xs. page_aligned (pr_addr r)" using a m by (metis set_mset_mset)
qed

section \<open>What the table holds\<close>

text \<open>
  An entry that is used as it should be: not empty, ending a page below \<open>2 ^ 64\<close>, and, when it is
  available memory, ending above the kernel image. Its region in unbounded arithmetic: from the page
  of its start, or of the end of the kernel image if that is higher, up to the end of its last page.
\<close>

definition entry_usable :: "link_symbols \<Rightarrow> multiboot_mmap_entry \<Rightarrow> bool" where
  "entry_usable ks e \<longleftrightarrow> 0 < unat (me_len e) \<and> unat (me_addr e) + unat (me_len e) + 4096 \<le> 2 ^ 64
     \<and> (me_type e = 1 \<longrightarrow> unat (V2P (kernel_vma_stop ks)) < unat (me_addr e) + unat (me_len e))"

definition entry_start :: "link_symbols \<Rightarrow> multiboot_mmap_entry \<Rightarrow> nat" where
  "entry_start ks e =
     (if me_type e = 1 then max (unat (V2P (kernel_vma_stop ks))) (unat (me_addr e)) else unat (me_addr e)) div 4096 * 4096"

definition entry_stop :: "multiboot_mmap_entry \<Rightarrow> nat" where
  "entry_stop e = (unat (me_addr e) + unat (me_len e) + 4095) div 4096 * 4096"

definition region_of :: "link_symbols \<Rightarrow> multiboot_mmap_entry \<Rightarrow> pmm_region" where
  "region_of ks e = \<lparr>pr_addr = of_nat (entry_start ks e), pr_size_in_pages = of_nat ((entry_stop e - entry_start ks e) div 4096),
     pr_type = (if me_type e = 1 then PMM_REGION_AVAILABLE else PMM_REGION_RESERVED), pr_bitmap = zero_bitmap\<rparr>"

lemma entry_bounds:
  assumes "entry_usable ks e"
  shows "entry_start ks e < entry_stop e" "entry_stop e < 2 ^ 64"
    "4096 dvd entry_start ks e" "4096 dvd entry_stop e"
proof -
  have "a div 4096 * 4096 < (x + 4095) div 4096 * 4096" if "a < x" for a x :: nat using that by linarith
  then show "entry_start ks e < entry_stop e"
    using assms unfolding entry_start_def entry_stop_def entry_usable_def by auto
  have "x div 4096 * 4096 \<le> x" for x :: nat by simp
  then have "entry_stop e \<le> unat (me_addr e) + unat (me_len e) + 4095" unfolding entry_stop_def .
  then show "entry_stop e < 2 ^ 64" using assms unfolding entry_usable_def by linarith
qed (simp_all add: entry_start_def entry_stop_def)

lemma region_of_bounds:
  assumes "entry_usable ks e"
  shows "unat (pr_addr (region_of ks e)) = entry_start ks e"
    "unat (pr_addr (region_of ks e)) + 4096 * unat (pr_size_in_pages (region_of ks e)) = entry_stop e"
proof -
  note b = entry_bounds [OF assms]
  then show 1: "unat (pr_addr (region_of ks e)) = entry_start ks e" by (simp add: region_of_def unat_of_nat64)
  have "unat (pr_size_in_pages (region_of ks e)) = (entry_stop e - entry_start ks e) div 4096"
    using b(2) by (simp add: region_of_def unat_of_nat64)
  moreover have "4096 dvd entry_stop e - entry_start ks e" using b(3,4) by (rule dvd_diff_nat [rotated])
  ultimately show "unat (pr_addr (region_of ks e)) + 4096 * unat (pr_size_in_pages (region_of ks e)) = entry_stop e"
    using 1 b(1) by simp
qed

lemma pmap_new_region_of:
  assumes "entry_usable ks e"
  shows "fst (pmap_new_region ks e) = region_of ks e"
proof -
  let ?r = "fst (pmap_new_region ks e)"
  note b = entry_bounds [OF assms]
  have last: "unat (me_addr e + me_len e - 1) = unat (me_addr e) + unat (me_len e) - 1"
  proof -
    have "unat (me_addr e + me_len e) = unat (me_addr e) + unat (me_len e)"
      using assms by (intro unat_add_no_wrap) (simp add: entry_usable_def)
    moreover have "me_addr e + me_len e \<noteq> 0"
      using calculation assms by (auto simp: entry_usable_def unat_eq_0 [symmetric] simp del: unat_eq_0)
    ultimately show ?thesis by (simp add: unat_minus_one)
  qed
  have start: "unat (pr_addr ?r) = entry_start ks e"
    by (auto simp: pmap_new_region_def Let_def unat_PAGE_ADDR entry_start_def MAX64_def max_def word_less_nat_alt
        minus_mod_eq_div_mult MULTIBOOT_MEMORY_AVAILABLE_def)
  have "snd (pmap_new_region ks e) = ROUNDUP (me_addr e + me_len e - 1) PAGE_SIZE_IN_BYTES"
    by (simp add: pmap_new_region_def Let_def add.commute)
  moreover have "((x - 1) div 4096 + 1) * 4096 = (x + 4095) div 4096 * 4096" if "0 < x" for x :: nat
    using that div_add_self2 [of 4096 "x - 1"] by (simp add: add.commute)
  ultimately have stop: "unat (snd (pmap_new_region ks e)) = entry_stop e"
    using assms by (simp add: unat_ROUNDUP_page last entry_usable_def entry_stop_def del: One_nat_def)
  have sz: "pr_size_in_pages ?r = (snd (pmap_new_region ks e) - pr_addr ?r) div PAGE_SIZE_IN_BYTES"
    by (simp add: pmap_new_region_def Let_def)
  have "unat (snd (pmap_new_region ks e) - pr_addr ?r) = entry_stop e - entry_start ks e"
    using b(1) start stop by (simp add: unat_sub_no_wrap word_le_nat_alt)
  then have "pr_size_in_pages ?r = of_nat ((entry_stop e - entry_start ks e) div 4096)"
    using b(2) by (simp add: word_unat_eq_iff sz unat_div unat_of_nat64 const_defs)
  moreover have "pr_addr ?r = of_nat (entry_start ks e)" using start [symmetric] by simp
  ultimately show ?thesis
    by (simp add: region_of_def pmap_new_region_def Let_def MULTIBOOT_MEMORY_AVAILABLE_def)
qed

lemma pmap_init_loop_regions:
  "pmap_init_loop ks es n xs = Inr ys \<Longrightarrow> \<forall>e \<in> set es. is_available_or_reserved e \<longrightarrow> entry_usable ks e \<Longrightarrow>
   ys = xs @ map (region_of ks) (filter is_available_or_reserved (take n es))"
proof (induction ks es n xs rule: pmap_init_loop.induct)
  case (3 ks e es n xs)
  show ?case
  proof (cases "is_available_or_reserved e")
    case True
    with "3.prems"(1) obtain xs' where x: "\<not> (length xs \<ge> PMAP_SIZE \<or> length xs = 0xff)"
      "pmap_insert ks xs e = Inr xs'" "pmap_init_loop ks es n xs' = Inr ys"
      by (auto simp: bindR_Inr_iff split: if_splits)
    have "fst (pmap_new_region ks e) = region_of ks e" using "3.prems"(2) True by (intro pmap_new_region_of) simp
    then have "xs' = xs @ [region_of ks e]"
      using x(2) by (auto simp: pmap_insert_def split: if_splits prod.splits)
    then show ?thesis using "3.IH"(2) [OF _ x(1) _ x(3)] "3.prems"(2) True x(2) by simp
  next
    case False
    then show ?thesis using 3 by simp
  qed
qed auto

lemma pmap_init_regions:
  assumes "pmap_init ks mmap = Inr xs" "\<forall>e \<in> set (mm_entries mmap). is_available_or_reserved e \<longrightarrow> entry_usable ks e"
  obtains n where "nb_entries mmap = Inr n"
    "mset xs = mset (map (region_of ks) (filter is_available_or_reserved (take (unat n) (mm_entries mmap))))"
proof -
  from assms(1) obtain n ys where n: "nb_entries mmap = Inr n"
    and ys: "pmap_init_loop ks (mm_entries mmap) (unat n) [] = Inr ys" and xs: "xs = pmap_sort ys"
    by (auto simp: pmap_init_def bindR_Inr_iff)
  show thesis using pmap_init_loop_regions [OF ys assms(2)] pmap_sort_spec [of ys] by (intro that [OF n]) (simp add: xs)
qed

text \<open>Regions that end where their size says are strictly ordered once they are sorted and apart.\<close>

definition before :: "pmm_region \<Rightarrow> pmm_region \<Rightarrow> bool" where
  "before a b \<longleftrightarrow> unat (pr_addr a) + 4096 * unat (pr_size_in_pages a) \<le> unat (pr_addr b)"

definition region_sound :: "pmm_region \<Rightarrow> bool" where
  "region_sound r \<longleftrightarrow> page_aligned (pr_addr r) \<and> 0 < unat (pr_size_in_pages r)
     \<and> unat (pr_addr r) + 4096 * unat (pr_size_in_pages r) < 2 ^ 64"

lemma region_sound_stop: "region_sound r \<Longrightarrow> unat (region_stop r) = unat (pr_addr r) + 4096 * unat (pr_size_in_pages r)"
  by (simp add: region_sound_def region_stop_def unat_pages unat_add_no_wrap)

lemma sorted_apart_before:
  assumes "sorted (map pr_addr xs)" "sorted_wrt apart xs" "\<forall>r \<in> set xs. region_sound r"
  shows "sorted_wrt before xs"
  using assms
proof (induction xs)
  case (Cons a xs)
  have "before a b" if "b \<in> set xs" for b
  proof -
    have "region_sound a" "region_sound b" "pr_addr a \<le> pr_addr b" "apart a b" using Cons.prems that by auto
    then show ?thesis using region_sound_stop [of a] region_sound_stop [of b]
      by (auto simp: before_def apart_def word_le_nat_alt region_sound_def)
  qed
  then show ?case using Cons by simp
qed simp

lemma before_pmap_sorted:
  assumes "sorted_wrt before xs" "\<forall>r \<in> set xs. region_sound r"
  shows "pmap_sorted xs"
  unfolding pmap_sorted_def
proof (intro ballI)
  fix i assume i: "i \<in> {1..<length xs}"
  then have "before (xs ! (i - 1)) (xs ! i)" using sorted_wrt_nth_less [OF assms(1), of "i - 1" i] by simp
  moreover have "region_sound (xs ! (i - 1))" using assms(2) i by (simp add: less_imp_diff_less)
  ultimately show "\<not> pr_addr (xs ! i) \<le> pr_addr (xs ! (i - 1))"
    by (auto simp: before_def region_sound_def word_le_nat_alt)
qed

section \<open>Free pages\<close>

definition avail :: "pmm_region \<Rightarrow> bool" where
  "avail r \<longleftrightarrow> pr_type r = PMM_REGION_AVAILABLE"

definition page_of :: "pmm_region \<Rightarrow> nat \<Rightarrow> u64" where
  "page_of r j = pr_addr r + of_nat j * PAGE_SIZE_IN_BYTES"

definition region_free :: "memory \<Rightarrow> pmm_region \<Rightarrow> u64 set" where
  "region_free m r = page_of r ` bm_free m (pr_bitmap r)"

definition free_in_regions :: "memory \<Rightarrow> pmm_region list \<Rightarrow> u64 set" where
  "free_in_regions m xs = (\<Union>r \<in> {r \<in> set xs. avail r}. region_free m r)"

definition free_pages :: "'a pmm_state_scheme \<Rightarrow> u64 set" where
  "free_pages s = free_in_regions (mem s) (pmap s)"

text \<open>What the allocator needs of an available region, and of any two of them.\<close>

definition region_ok :: "pmm_region \<Rightarrow> bool" where
  "region_ok r \<longleftrightarrow> avail r \<longrightarrow>
     bm_wf (pr_bitmap r) \<and> bm_len (pr_bitmap r) = pr_size_in_pages r
     \<and> pr_addr r \<noteq> 0 \<and> page_aligned (pr_addr r)
     \<and> unat (pr_addr r) + 4096 * unat (pr_size_in_pages r) < 2 ^ 64"

definition regions_compatible :: "pmm_region \<Rightarrow> pmm_region \<Rightarrow> bool" where
  "regions_compatible a b \<longleftrightarrow>
     avail a \<and> avail b \<longrightarrow> apart a b \<and> bm_disjoint (pr_bitmap a) (pr_bitmap b)"

definition pmap_ok :: "pmm_region list \<Rightarrow> bool" where
  "pmap_ok xs \<longleftrightarrow> (\<forall>r \<in> set xs. region_ok r) \<and> sorted_wrt regions_compatible xs"

definition pmm_inv :: "'a pmm_state_scheme \<Rightarrow> bool" where
  "pmm_inv s \<longleftrightarrow> pmap_ok (pmap s)"

text \<open>Whether some available region has run out of padding bits as well as of pages.\<close>

definition pmm_exhausted :: "'a pmm_state_scheme \<Rightarrow> bool" where
  "pmm_exhausted s \<longleftrightarrow> (\<exists>r \<in> set (pmap s). avail r \<and> bm_raw (mem s) (pr_bitmap r) = {})"

lemma free_in_Cons:
  "free_in_regions m (r # rs) = (if avail r then region_free m r else {}) \<union> free_in_regions m rs"
  by (auto simp: free_in_regions_def)

lemma pmap_ok_Cons:
  "pmap_ok (r # rs) \<longleftrightarrow> region_ok r \<and> (\<forall>q \<in> set rs. regions_compatible r q) \<and> pmap_ok rs"
  by (auto simp: pmap_ok_def)

lemma load64_cong:
  assumes "\<And>i. i < 8 \<Longrightarrow> m' (a + i) = m (a + i)"
  shows "load64 m' a = load64 m a"
  using assms [of 0] assms [of 1] assms [of 2] assms [of 3] assms [of 4] assms [of 5]
    assms [of 6] assms [of 7] by (simp add: load64_def)

lemma bm_bit_frame:
  assumes wf: "bm_wf bm" and eq: "\<And>x. bm_span bm x \<Longrightarrow> m' x = m x"
    and n: "n < 64 * unat (bm_size_in_block bm)"
  shows "bm_bit m' bm n = bm_bit m bm n"
proof -
  have "load64 m' (bm_cell bm (n div 64)) = load64 m (bm_cell bm (n div 64))"
    using n by (intro load64_cong eq cell_in_span [OF wf, of "n div 64"]) auto
  then show ?thesis by (simp add: bm_bit_def)
qed

lemma bm_raw_frame:
  assumes "bm_wf bm" and "\<And>x. bm_span bm x \<Longrightarrow> m' x = m x"
  shows "bm_raw m' bm = bm_raw m bm" and "bm_free m' bm = bm_free m bm"
proof -
  show raw: "bm_raw m' bm = bm_raw m bm"
  proof -
    have "bm_bit m' bm n = bm_bit m bm n" if "n < 64 * unat (bm_size_in_block bm)" for n
      using assms that by (rule bm_bit_frame)
    then show ?thesis unfolding bm_raw_def by blast
  qed
  show "bm_free m' bm = bm_free m bm"
    unfolding bm_free_raw [OF assms(1)] raw by (rule refl)
qed

lemma page_of_unat_le:
  assumes "region_ok r" and "avail r" and "j \<le> unat (pr_size_in_pages r)"
  shows "unat (page_of r j) = unat (pr_addr r) + 4096 * j"
proof -
  have b: "unat (pr_addr r) + 4096 * unat (pr_size_in_pages r) < 2 ^ 64"
    using assms by (simp add: region_ok_def)
  have "4096 * j < 2 ^ 64" using assms(3) b by simp
  then have u: "unat (of_nat j * PAGE_SIZE_IN_BYTES) = 4096 * j" by (rule unat_of_nat_pages)
  have "unat (pr_addr r) + unat (of_nat j * PAGE_SIZE_IN_BYTES) < 2 ^ 64"
    unfolding u using assms(3) b by simp
  from unat_add_no_wrap [OF this] show ?thesis unfolding u page_of_def .
qed

lemmas page_of_unat = page_of_unat_le [OF _ _ less_imp_le]

lemma page_of_inj:
  assumes "region_ok r" and "avail r" and "i < unat (pr_size_in_pages r)"
    and "j < unat (pr_size_in_pages r)" and "page_of r i = page_of r j"
  shows "i = j"
proof -
  have "unat (pr_addr r) + 4096 * i = unat (pr_addr r) + 4096 * j"
    using page_of_unat [OF assms(1,2,3)] page_of_unat [OF assms(1,2,4)] assms(5) by metis
  then show ?thesis by simp
qed

lemma region_stop_unat:
  assumes "region_ok r" and "avail r"
  shows "unat (region_stop r) = unat (pr_addr r) + 4096 * unat (pr_size_in_pages r)"
proof -
  have b: "unat (pr_addr r) + 4096 * unat (pr_size_in_pages r) < 2 ^ 64"
    using assms by (simp add: region_ok_def)
  then have u: "unat (pr_size_in_pages r * PAGE_SIZE_IN_BYTES) = 4096 * unat (pr_size_in_pages r)"
    by (intro unat_pages) simp
  have "unat (pr_addr r) + unat (pr_size_in_pages r * PAGE_SIZE_IN_BYTES) < 2 ^ 64"
    unfolding u by (rule b)
  from unat_add_no_wrap [OF this] show ?thesis unfolding u region_stop_def .
qed

lemma pages_apart:
  assumes "region_ok a" "region_ok b" "avail a" "avail b" "apart a b"
    and "i < unat (pr_size_in_pages a)" and "j < unat (pr_size_in_pages b)"
  shows "page_of a i \<noteq> page_of b j"
  using assms page_of_unat [of a i] page_of_unat [of b j] region_stop_unat [of a] region_stop_unat [of b]
  by (auto simp: apart_def word_le_nat_alt)

lemma page_of_nonzero:
  assumes "region_ok r" and "avail r" and "j < unat (pr_size_in_pages r)"
  shows "page_of r j \<noteq> 0"
proof -
  have "unat (pr_addr r) \<noteq> 0" using assms by (auto simp: region_ok_def unat_eq_0)
  then show ?thesis using page_of_unat [OF assms] by (metis add_is_0 unat_0)
qed

section \<open>Allocation\<close>

definition outside_bitmaps :: "pmm_region list \<Rightarrow> u64 \<Rightarrow> bool" where
  "outside_bitmaps xs x \<longleftrightarrow> (\<forall>r \<in> set xs. avail r \<longrightarrow> \<not> bm_span (pr_bitmap r) x)"

text \<open>A change confined to one region's bitmap leaves the free pages of the others alone.\<close>

lemma region_free_frame:
  assumes "region_ok r" and "avail r" and "\<And>x. bm_span (pr_bitmap r) x \<Longrightarrow> m' x = m x"
  shows "region_free m' r = region_free m r"
proof -
  have "bm_wf (pr_bitmap r)" using assms(1,2) by (simp add: region_ok_def)
  then have "bm_free m' (pr_bitmap r) = bm_free m (pr_bitmap r)"
    using assms(3) by (rule bm_raw_frame(2))
  then show ?thesis by (simp add: region_free_def)
qed

lemma other_regions_frame:
  assumes ok: "pmap_ok (r # rs)" and av: "avail r"
    and eq: "\<And>x. \<not> bm_span (pr_bitmap r) x \<Longrightarrow> m' x = m x"
  shows "free_in_regions m' rs = free_in_regions m rs"
proof -
  have "region_free m' q = region_free m q" if q: "q \<in> set rs" "avail q" for q
  proof (rule region_free_frame)
    show "region_ok q" "avail q" using ok q by (auto simp: pmap_ok_def)
    fix x assume x: "bm_span (pr_bitmap q) x"
    have "bm_disjoint (pr_bitmap r) (pr_bitmap q)"
      using ok av q by (auto simp: pmap_ok_Cons regions_compatible_def)
    then show "m' x = m x" using x eq by (auto simp: bm_disjoint_def)
  qed
  then show ?thesis by (auto simp: free_in_regions_def)
qed

lemma head_region_frame:
  assumes ok: "pmap_ok (r # rs)" and av: "avail r"
    and eq: "\<And>x. outside_bitmaps rs x \<Longrightarrow> m' x = m x"
  shows "region_free m' r = region_free m r"
proof (rule region_free_frame)
  show "region_ok r" "avail r" using ok av by (auto simp: pmap_ok_Cons)
  fix x assume x: "bm_span (pr_bitmap r) x"
  have "outside_bitmaps rs x"
    using ok av x by (auto simp: outside_bitmaps_def pmap_ok_Cons regions_compatible_def bm_disjoint_def)
  then show "m' x = m x" by (rule eq)
qed

lemma free_pages_other_region:
  assumes ok: "pmap_ok (r # rs)" and av: "avail r" and j: "j < unat (pr_size_in_pages r)"
  shows "page_of r j \<notin> free_in_regions m rs"
proof
  assume "page_of r j \<in> free_in_regions m rs"
  then obtain q i where q: "q \<in> set rs" "avail q" "i \<in> bm_free m (pr_bitmap q)"
    "page_of r j = page_of q i" by (auto simp: free_in_regions_def region_free_def)
  have rq: "region_ok r" "region_ok q" "apart r q"
    using ok av q by (auto simp: pmap_ok_def regions_compatible_def)
  then have "i < unat (pr_size_in_pages q)" using q(2,3) by (auto simp: region_ok_def bm_free_def)
  then show False using pages_apart [OF rq(1,2) av q(2) rq(3) j] q(4) by blast
qed

lemma bm_free_bound:
  assumes "region_ok r" and "avail r" and "j \<in> bm_free m (pr_bitmap r)"
  shows "j < unat (pr_size_in_pages r)"
  using assms by (auto simp: region_ok_def bm_free_def)

lemma region_free_remove:
  assumes ok: "region_ok r" and av: "avail r" and j: "j < unat (pr_size_in_pages r)"
    and fr: "bm_free m' (pr_bitmap r) = bm_free m (pr_bitmap r) - {j}"
  shows "region_free m' r = region_free m r - {page_of r j}"
proof -
  have "page_of r i = page_of r j \<longleftrightarrow> i = j" if "i \<in> bm_free m (pr_bitmap r)" for i
    using page_of_inj [OF ok av bm_free_bound [OF ok av that] j] by blast
  then show ?thesis by (auto simp: region_free_def fr)
qed

lemma alloc_in_spec:
  "pmap_ok xs \<Longrightarrow> alloc_in m xs = Inr (p, m') \<Longrightarrow>
    (p = 0 \<longrightarrow> free_in_regions m xs = {}) \<and> (p \<noteq> 0 \<longrightarrow> p \<in> free_in_regions m xs)
    \<and> free_in_regions m' xs = free_in_regions m xs - {p}
    \<and> (\<forall>x. outside_bitmaps xs x \<longrightarrow> m' x = m x)"
proof (induction xs arbitrary: m m')
  case Nil
  then show ?case by (simp add: free_in_regions_def)
next
  case (Cons r rs)
  have ok: "region_ok r" "pmap_ok rs" using Cons.prems(1) by (auto simp: pmap_ok_Cons)
  show ?case
  proof (cases "avail r")
    case False
    then have "alloc_in m rs = Inr (p, m')" using Cons.prems(2) by (simp add: avail_def)
    from Cons.IH [OF ok(2) this] False show ?thesis
      by (auto simp: free_in_Cons outside_bitmaps_def)
  next
    case True
    let ?b = "pr_bitmap r"
    have wf: "bm_wf ?b" "bm_len ?b = pr_size_in_pages r" using ok(1) True by (auto simp: region_ok_def)
    obtain j m1 where f: "bitmap_find_and_set m ?b = Inr (j, m1)"
      and rest: "(if j = bm_len ?b then alloc_in m1 rs
        else Inr (pr_addr r + j * PAGE_SIZE_IN_BYTES, m1)) = Inr (p, m')"
      using Cons.prems(2) True by (auto simp: avail_def bindR_Inr_iff)
    note spec = find_and_set_Inr [OF wf(1) f]
    have others: "free_in_regions m1 rs = free_in_regions m rs"
      by (rule other_regions_frame [OF Cons.prems(1) True]) (rule spec(5))
    show ?thesis
    proof (cases "j = bm_len ?b")
      case full: True
      then have empty: "bm_free m ?b = {}" "bm_free m1 ?b = {}" using spec(2,4) by auto
      have "alloc_in m1 rs = Inr (p, m')" using rest full by simp
      note IH = Cons.IH [OF ok(2) this]
      have "region_free m' r = region_free m1 r"
        using head_region_frame [OF Cons.prems(1) True] IH by blast
      then have "region_free m' r = {}" "region_free m r = {}" using empty by (simp_all add: region_free_def)
      then show ?thesis
        using IH others spec(5) True by (auto simp: free_in_Cons outside_bitmaps_def)
    next
      case False
      then have p: "p = page_of r (unat j)" and m': "m' = m1"
        using rest by (auto simp: page_of_def)
      have j: "unat j \<in> bm_free m ?b" using spec(3) False by blast
      have jb: "unat j < unat (pr_size_in_pages r)" by (rule bm_free_bound [OF ok(1) True j])
      have "p \<in> region_free m r" using j by (auto simp: p region_free_def)
      moreover have "p \<noteq> 0" unfolding p by (rule page_of_nonzero [OF ok(1) True jb])
      moreover have "region_free m1 r = region_free m r - {p}"
        unfolding p by (rule region_free_remove [OF ok(1) True jb spec(2)])
      moreover have "p \<notin> free_in_regions m rs"
        unfolding p by (rule free_pages_other_region [OF Cons.prems(1) True jb])
      ultimately show ?thesis
        using others spec(5) True m' by (auto simp: free_in_Cons outside_bitmaps_def)
    qed
  qed
qed

lemma alloc_in_ok:
  "pmap_ok xs \<Longrightarrow> \<forall>r \<in> set xs. avail r \<longrightarrow> bm_raw m (pr_bitmap r) \<noteq> {} \<Longrightarrow>
    \<exists>p m'. alloc_in m xs = Inr (p, m')"
proof (induction xs arbitrary: m)
  case Nil
  then show ?case by simp
next
  case (Cons r rs)
  have ok: "region_ok r" "pmap_ok rs" using Cons.prems(1) by (auto simp: pmap_ok_Cons)
  show ?case
  proof (cases "avail r")
    case False
    then show ?thesis using Cons.IH [OF ok(2), of m] Cons.prems(2) by (simp add: avail_def)
  next
    case True
    let ?b = "pr_bitmap r"
    have wf: "bm_wf ?b" using ok(1) True by (auto simp: region_ok_def)
    have "bm_raw m ?b \<noteq> {}" using Cons.prems(2) True by simp
    from find_and_set_raw [OF wf this] obtain j m1 where f: "bitmap_find_and_set m ?b = Inr (j, m1)"
      and frame: "\<forall>x. \<not> bm_span ?b x \<longrightarrow> m1 x = m x" by (elim exE conjE) (rule that)
    have "bm_raw m1 (pr_bitmap q) = bm_raw m (pr_bitmap q)" if "q \<in> set rs" "avail q" for q
    proof (rule bm_raw_frame(1))
      show "bm_wf (pr_bitmap q)" using ok(2) that by (auto simp: pmap_ok_def region_ok_def)
      fix x assume "bm_span (pr_bitmap q) x"
      moreover have "bm_disjoint ?b (pr_bitmap q)"
        using Cons.prems(1) True that by (auto simp: pmap_ok_Cons regions_compatible_def)
      ultimately show "m1 x = m x" using frame by (auto simp: bm_disjoint_def)
    qed
    then have "\<exists>p m'. alloc_in m1 rs = Inr (p, m')"
      using Cons.prems(2) by (intro Cons.IH [OF ok(2)]) simp
    then show ?thesis using True f by (auto simp: avail_def)
  qed
qed

lemma pmm_alloc_Inr:
  "pmm_alloc s = Inr (p, s') \<longleftrightarrow>
    (\<exists>m. alloc_in (mem s) (pmap s) = Inr (p, m) \<and> s' = s\<lparr>mem := m\<rparr>)"
  by (auto simp: pmm_alloc_def bindR_Inr_iff)

lemma pmm_xalloc_Inr: "pmm_xalloc s = Inr (p, s') \<longleftrightarrow> pmm_alloc s = Inr (p, s') \<and> p \<noteq> 0"
  by (auto simp: pmm_xalloc_def bindR_Inr_iff split: if_splits)

lemma free_pages_frame:
  assumes "pmm_inv s" and "\<And>x. \<not> outside_bitmaps (pmap s) x \<Longrightarrow> m' x = mem s x"
  shows "free_pages (s\<lparr>mem := m'\<rparr>) = free_pages s"
proof -
  have "region_free m' r = region_free (mem s) r" if "r \<in> set (pmap s)" "avail r" for r
  proof (rule region_free_frame)
    show "region_ok r" "avail r" using assms(1) that by (auto simp: pmm_inv_def pmap_ok_def)
    show "m' x = mem s x" if "bm_span (pr_bitmap r) x" for x
      using assms(2) [of x] that \<open>r \<in> set (pmap s)\<close> \<open>avail r\<close> unfolding outside_bitmaps_def by blast
  qed
  then show ?thesis by (simp add: free_pages_def free_in_regions_def)
qed

text \<open>
  The contract of a page allocator towards its clients: a page handed out was free, is not free
  afterwards, is aligned and is not the null page. The client lemma is the one every user of
  several pages needs: pages obtained in a row differ.
\<close>

locale page_allocator =
  fixes pinv :: "'s \<Rightarrow> bool"
    and pfree :: "'s \<Rightarrow> u64 set"
    and palloc :: "'s \<Rightarrow> (u64 \<times> 's) res"
  assumes alloc_inv: "pinv s \<Longrightarrow> palloc s = Inr (p, s') \<Longrightarrow> pinv s'"
    and alloc_free: "pinv s \<Longrightarrow> palloc s = Inr (p, s') \<Longrightarrow> pfree s' = pfree s - {p}"
    and alloc_fresh: "pinv s \<Longrightarrow> palloc s = Inr (p, s') \<Longrightarrow> p \<noteq> 0 \<Longrightarrow> p \<in> pfree s"
    and alloc_null: "pinv s \<Longrightarrow> palloc s = Inr (0, s') \<Longrightarrow> pfree s = {}"
    and free_page: "pinv s \<Longrightarrow> p \<in> pfree s \<Longrightarrow> p \<noteq> 0 \<and> page_aligned p"
begin

lemma alloc_many_distinct:
  "pinv s \<Longrightarrow> take_many palloc k s = Inr (ps, s') \<Longrightarrow> 0 \<notin> set ps \<Longrightarrow>
    pinv s' \<and> distinct ps \<and> length ps = k \<and> set ps \<subseteq> pfree s \<and> pfree s' = pfree s - set ps"
proof (induction k arbitrary: s ps)
  case 0
  then show ?case by simp
next
  case (Suc k)
  then obtain p s1 qs where t: "palloc s = Inr (p, s1)" "take_many palloc k s1 = Inr (qs, s')"
    "ps = p # qs" by (auto simp: bindR_Inr_iff)
  note inv = alloc_inv [OF Suc.prems(1) t(1)] and fr = alloc_free [OF Suc.prems(1) t(1)]
  have "p \<in> pfree s" using alloc_fresh [OF Suc.prems(1) t(1)] Suc.prems(3) t(3) by auto
  with Suc.IH [OF inv t(2)] Suc.prems(3) fr t(3) show ?case by auto
qed

lemma alloc_cases:
  assumes "pinv s" and "palloc s = Inr (p, s')"
  shows "pinv s' \<and> pfree s' = pfree s - {p} \<and> (p = 0 \<longleftrightarrow> pfree s = {})
    \<and> (p \<noteq> 0 \<longrightarrow> p \<in> pfree s \<and> page_aligned p)"
  using alloc_inv [OF assms] alloc_free [OF assms] alloc_fresh [OF assms] alloc_null [of s s']
    free_page [OF assms(1), of p] assms by (cases "p = 0") auto

end

lemma free_in_regions_page:
  assumes "pmap_ok xs" and "p \<in> free_in_regions m xs"
  shows "p \<noteq> 0 \<and> page_aligned p"
proof -
  from assms(2) obtain r j where r: "r \<in> set xs" "avail r" "j \<in> bm_free m (pr_bitmap r)"
    "p = page_of r j" by (auto simp: free_in_regions_def region_free_def)
  have ok: "region_ok r" using assms(1) r(1) by (simp add: pmap_ok_def)
  have jb: "j < unat (pr_size_in_pages r)" by (rule bm_free_bound [OF ok r(2,3)])
  have "unat (pr_addr r) mod 4096 = 0" using ok r(2) by (simp add: region_ok_def)
  then have "(unat (pr_addr r) + 4096 * j) mod 4096 = 0" by simp
  then show ?thesis
    using page_of_unat [OF ok r(2) jb] page_of_nonzero [OF ok r(2) jb] r(4) by simp
qed

lemma pmm_alloc_spec:
  assumes "pmm_inv s" and "pmm_alloc s = Inr (p, s')"
  shows "pmm_inv s'" and "free_pages s' = free_pages s - {p}"
    and "p = 0 \<Longrightarrow> free_pages s = {}" and "p \<noteq> 0 \<Longrightarrow> p \<in> free_pages s"
    and "\<exists>m. s' = s\<lparr>mem := m\<rparr>" and "outside_bitmaps (pmap s) x \<Longrightarrow> mem s' x = mem s x"
proof -
  from assms(2) obtain m where a: "alloc_in (mem s) (pmap s) = Inr (p, m)" and s': "s' = s\<lparr>mem := m\<rparr>"
    by (auto simp: pmm_alloc_Inr)
  have ok: "pmap_ok (pmap s)" using assms(1) by (simp add: pmm_inv_def)
  note sp = alloc_in_spec [OF ok a]
  show "pmm_inv s'" using ok by (simp add: s' pmm_inv_def)
  show "free_pages s' = free_pages s - {p}" using sp by (simp add: s' free_pages_def)
  show "free_pages s = {}" if "p = 0" using sp that by (simp add: free_pages_def)
  show "p \<in> free_pages s" if "p \<noteq> 0" using sp that by (simp add: free_pages_def)
  show "\<exists>m. s' = s\<lparr>mem := m\<rparr>" using s' by blast
  show "mem s' x = mem s x" if "outside_bitmaps (pmap s) x" using sp that by (simp add: s')
qed

interpretation pg: page_allocator pmm_inv free_pages pmm_alloc
proof (unfold_locales, goal_cases)
  case (5 s p)
  then show ?case by (intro free_in_regions_page) (simp_all add: pmm_inv_def free_pages_def)
qed (rule pmm_alloc_spec, assumption+, simp?)+

text \<open>
  That at least \<open>k\<close> pages can be had from the first available region: enough for \<open>k\<close> allocations to
  succeed one after the other.
\<close>

definition pmm_room :: "'a pmm_state_scheme \<Rightarrow> nat \<Rightarrow> bool" where
  "pmm_room s k \<longleftrightarrow> (\<exists>xs r ys. pmap s = xs @ r # ys \<and> filter avail xs = [] \<and> avail r
     \<and> k \<le> card (bm_free (mem s) (pr_bitmap r)))"

lemma pmm_room_mono: "pmm_room s k \<Longrightarrow> j \<le> k \<Longrightarrow> pmm_room s j"
  unfolding pmm_room_def by (meson le_trans)

lemma pmm_room_frame:
  assumes inv: "pmm_inv s" and eq: "\<And>x. \<not> outside_bitmaps (pmap s) x \<Longrightarrow> m' x = mem s x"
    and room: "pmm_room s k"
  shows "pmm_room (s\<lparr>mem := m'\<rparr>) k"
proof -
  from room obtain xs r ys where r: "pmap s = xs @ r # ys" "filter avail xs = []" "avail r"
    "k \<le> card (bm_free (mem s) (pr_bitmap r))" unfolding pmm_room_def by blast
  have "bm_wf (pr_bitmap r)" using inv r by (auto simp: pmm_inv_def pmap_ok_def region_ok_def)
  moreover have "m' x = mem s x" if "bm_span (pr_bitmap r) x" for x
    by (rule eq) (use that r in \<open>auto simp: outside_bitmaps_def\<close>)
  ultimately have "bm_free m' (pr_bitmap r) = bm_free (mem s) (pr_bitmap r)" by (rule bm_raw_frame(2))
  then have "k \<le> card (bm_free m' (pr_bitmap r))" using r(4) by simp
  then show ?thesis using r(1-3) unfolding pmm_room_def by auto
qed

lemma pmm_room_xalloc:
  assumes inv: "pmm_inv s" and room: "pmm_room s (Suc k)"
  shows "\<exists>p s'. pmm_xalloc s = Inr (p, s') \<and> pmm_room s' k"
proof -
  from room obtain xs r ys where r: "pmap s = xs @ r # ys" "filter avail xs = []" "avail r"
    "Suc k \<le> card (bm_free (mem s) (pr_bitmap r))" unfolding pmm_room_def by blast
  have ok: "region_ok r" using inv r(1) by (auto simp: pmm_inv_def pmap_ok_def)
  have wf: "bm_wf (pr_bitmap r)" using ok r(3) by (auto simp: region_ok_def)
  have ne: "bm_free (mem s) (pr_bitmap r) \<noteq> {}" using r(4) by auto
  obtain j m where f: "bitmap_find_and_set (mem s) (pr_bitmap r) = Inr (j, m)"
    using find_and_set_free [OF wf ne] by (elim exE conjE) (rule that)
  note sp = find_and_set_Inr [OF wf f]
  have j: "j \<noteq> bm_len (pr_bitmap r)" using sp(4) ne by blast
  have jf: "unat j \<in> bm_free (mem s) (pr_bitmap r)" using sp(3) [OF j] by blast
  have "alloc_in m' (zs @ r # ys) = alloc_in m' (r # ys)" if "filter avail zs = []" for m' zs
    using that by (induction zs) (auto simp: avail_def split: if_splits)
  then have a: "pmm_alloc s = Inr (pr_addr r + j * PAGE_SIZE_IN_BYTES, s\<lparr>mem := m\<rparr>)"
    using r f j by (simp add: pmm_alloc_def avail_def)
  have "pr_addr r + j * PAGE_SIZE_IN_BYTES = page_of r (unat j)" by (simp add: page_of_def)
  then have nz: "pr_addr r + j * PAGE_SIZE_IN_BYTES \<noteq> 0"
    using page_of_nonzero [OF ok r(3) bm_free_bound [OF ok r(3) jf]] by metis
  have "finite (bm_free (mem s) (pr_bitmap r))" by (rule finite_subset [of _ "{..<unat (bm_len (pr_bitmap r))}"])
      (auto simp: bm_free_def)
  then have "k \<le> card (bm_free m (pr_bitmap r))" unfolding sp(2) using jf r(4) by simp
  then have "pmm_room (s\<lparr>mem := m\<rparr>) k" using r(1-3) unfolding pmm_room_def by auto
  with a nz show ?thesis by (auto simp: pmm_xalloc_Inr)
qed

section \<open>Release\<close>

lemma page_in_region:
  assumes "region_ok r" and "avail r" and "j < unat (pr_size_in_pages r)"
  shows "pr_addr r \<le> page_of r j" and "page_of r j < region_stop r"
    and "(page_of r j - pr_addr r) div PAGE_SIZE_IN_BYTES = of_nat j"
proof -
  note u = page_of_unat [OF assms] and st = region_stop_unat [OF assms(1,2)]
  show le: "pr_addr r \<le> page_of r j" using u by (simp add: word_le_nat_alt)
  show "page_of r j < region_stop r" using u st assms(3) by (simp add: word_less_nat_alt)
  have "unat ((page_of r j - pr_addr r) div PAGE_SIZE_IN_BYTES) = j"
    using u le by (simp add: unat_div unat_sub_no_wrap unat_page_size)
  then show "(page_of r j - pr_addr r) div PAGE_SIZE_IN_BYTES = of_nat j" by (rule word_eq_of_nat)
qed

lemma page_outside_region:
  assumes "region_ok r" "region_ok q" "avail r" "avail q" "apart q r \<or> apart r q"
    and "j < unat (pr_size_in_pages r)"
  shows "page_of r j \<ge> region_stop q \<or> page_of r j < pr_addr q"
  using assms page_in_region [of r j] unfolding apart_def by fastforce

lemma region_free_insert:
  assumes "bm_free m' (pr_bitmap r) = insert j (bm_free m (pr_bitmap r))"
  shows "region_free m' r = insert (page_of r j) (region_free m r)"
  using assms by (simp add: region_free_def)

lemma unset_region:
  assumes ok: "region_ok r" and av: "avail r" and j: "j < unat (pr_size_in_pages r)"
    and hi: "32 < j mod 64"
  shows "\<exists>m'. bitmap_unset m (pr_bitmap r) (of_nat j) = Inr m'
    \<and> region_free m' r = insert (page_of r j) (region_free m r)
    \<and> (\<forall>x. \<not> bm_span (pr_bitmap r) x \<longrightarrow> m' x = m x)"
proof -
  have wf: "bm_wf (pr_bitmap r)" and ln: "bm_len (pr_bitmap r) = pr_size_in_pages r"
    using ok av by (auto simp: region_ok_def)
  have u: "unat (of_nat j :: u64) = j"
    using j unat64_lt [of "pr_size_in_pages r"] by (intro unat_of_nat64) linarith
  have lt: "of_nat j < bm_len (pr_bitmap r)" using j u by (simp add: ln word_less_nat_alt)
  from unset_high_slot [OF wf lt, unfolded u, OF hi, of m] obtain m' where
    m': "bitmap_unset m (pr_bitmap r) (of_nat j) = Inr m'"
    "bm_raw m' (pr_bitmap r) = insert j (bm_raw m (pr_bitmap r))"
    "\<forall>x. \<not> bm_span (pr_bitmap r) x \<longrightarrow> m' x = m x" by (elim exE conjE) (rule that)
  have "bm_free m' (pr_bitmap r) = insert j (bm_free m (pr_bitmap r))"
    unfolding bm_free_raw [OF wf] m'(2) using j ln by auto
  from region_free_insert [OF this] m' show ?thesis by metis
qed

lemma free_in_spec:
  "pmap_ok xs \<Longrightarrow> r \<in> set xs \<Longrightarrow> avail r \<Longrightarrow> j < unat (pr_size_in_pages r) \<Longrightarrow> 32 < j mod 64 \<Longrightarrow>
    \<exists>m'. free_in m xs (page_of r j) = Inr m'
      \<and> free_in_regions m' xs = insert (page_of r j) (free_in_regions m xs)
      \<and> (\<forall>x. outside_bitmaps xs x \<longrightarrow> m' x = m x)"
proof (induction xs)
  case Nil
  then show ?case by simp
next
  case (Cons q qs)
  note ok = Cons.prems(1) and jb = Cons.prems(4)
  have okr: "region_ok r" "region_ok q" "pmap_ok qs"
    using ok Cons.prems(2) by (auto simp: pmap_ok_def)
  show ?case
  proof (cases "q = r")
    case True
    note pr = page_in_region [OF okr(1) Cons.prems(3) jb]
    obtain m' where m': "bitmap_unset m (pr_bitmap r) (of_nat j) = Inr m'"
      "region_free m' r = insert (page_of r j) (region_free m r)"
      and fr: "\<forall>x. \<not> bm_span (pr_bitmap r) x \<longrightarrow> m' x = m x"
      using unset_region [OF okr(1) Cons.prems(3) jb Cons.prems(5), of m] by (elim exE conjE) (rule that)
    have "free_in m (q # qs) (page_of r j) = Inr m'"
      using True Cons.prems(3) pr m'(1) by (auto simp: avail_def)
    moreover have "free_in_regions m' qs = free_in_regions m qs"
      by (rule other_regions_frame [OF ok [unfolded True] Cons.prems(3)]) (use fr in metis)
    moreover have "\<forall>x. outside_bitmaps (q # qs) x \<longrightarrow> m' x = m x"
      using fr True Cons.prems(3) unfolding outside_bitmaps_def by (metis list.set_intros(1))
    ultimately show ?thesis using m'(2) True Cons.prems(3) by (auto simp: free_in_Cons)
  next
    case False
    then have rq: "r \<in> set qs" using Cons.prems(2) by simp
    obtain m' where m': "free_in m qs (page_of r j) = Inr m'"
      "free_in_regions m' qs = insert (page_of r j) (free_in_regions m qs)"
      and fr: "\<forall>x. outside_bitmaps qs x \<longrightarrow> m' x = m x"
      using Cons.IH [OF okr(3) rq Cons.prems(3,4,5)] by (elim exE conjE) (rule that)
    have skip: "free_in m (q # qs) (page_of r j) = free_in m qs (page_of r j)"
    proof (cases "avail q")
      case True
      have "apart q r" using ok rq True Cons.prems(3) by (auto simp: pmap_ok_Cons regions_compatible_def)
      then have "page_of r j \<ge> region_stop q \<or> page_of r j < pr_addr q"
        using page_outside_region [OF okr(1,2) Cons.prems(3) True _ jb] by blast
      then show ?thesis by simp
    qed (simp add: avail_def)
    have "region_free m' q = region_free m q" if "avail q"
      by (rule head_region_frame [OF ok that]) (use fr in metis)
    moreover have "\<forall>x. outside_bitmaps (q # qs) x \<longrightarrow> m' x = m x"
      using fr unfolding outside_bitmaps_def by (metis list.set_intros(2))
    ultimately show ?thesis using m' skip by (auto simp: free_in_Cons)
  qed
qed

section \<open>Initialisation with one available region\<close>

text \<open>
  The usual machine: the boot map has one available region above the BIOS area, and the kernel
  image ends at its beginning. The bitmap is written from the kernel's end on, and the pages up
  to \<^verbatim>\<open>pmm_vma_stop\<close> are withdrawn.
\<close>

lemma alloc_in_none: "filter avail xs = [] \<Longrightarrow> alloc_in m xs = Inr (0, m)"
  by (induction xs) (auto simp: avail_def split: if_splits)

lemma alloc_in_single:
  "filter avail xs = [r] \<Longrightarrow>
    alloc_in m xs = bindR (bitmap_find_and_set m (pr_bitmap r)) (\<lambda>(j, m').
      Inr (if j = bm_len (pr_bitmap r) then 0 else pr_addr r + j * PAGE_SIZE_IN_BYTES, m'))"
proof (induction xs)
  case (Cons q qs)
  show ?case
  proof (cases "avail q")
    case True
    then have "q = r" "filter avail qs = []" using Cons.prems by auto
    then show ?thesis using True by (auto simp: avail_def alloc_in_none intro!: bindR_cong)
  next
    case False
    then show ?thesis using Cons by (simp add: avail_def)
  qed
qed simp

lemma init_bitmaps_none:
  "filter avail xs = [] \<Longrightarrow> init_bitmaps m xs a n = (xs, a, n, m)"
  by (induction xs) (auto simp: avail_def split: if_splits)

lemma init_bitmaps_single:
  "filter avail xs = [r] \<Longrightarrow> bitmap_init m (pr_size_in_pages r) a = (a', bm, m') \<Longrightarrow>
    \<exists>xs'. init_bitmaps m xs a n = (xs', a', n + pr_size_in_pages r, m')
      \<and> filter avail xs' = [r\<lparr>pr_bitmap := bm\<rparr>]"
proof (induction xs)
  case (Cons q qs)
  show ?case
  proof (cases "avail q")
    case True
    then have q: "q = r" "filter avail qs = []" using Cons.prems by auto
    have "avail (r\<lparr>pr_bitmap := bm\<rparr>)" using True q(1) by (simp add: avail_def)
    moreover have "init_bitmaps m (q # qs) a n
      = (r\<lparr>pr_bitmap := bm\<rparr> # qs, a', n + pr_size_in_pages r, m')"
      using True q(1) Cons.prems(2) init_bitmaps_none [OF q(2)] by (simp add: avail_def)
    ultimately show ?thesis using q(2) by simp
  next
    case False
    then have "filter avail qs = [r]" using Cons.prems(1) by simp
    from Cons.IH [OF this Cons.prems(2)] False show ?thesis by (auto simp: avail_def)
  qed
qed simp

lemma pmap_ok_single:
  assumes "filter avail xs = [r]" and "region_ok r"
  shows "pmap_ok xs" and "free_in_regions m xs = region_free m r"
proof -
  have "set (filter avail xs) = {r}" using assms(1) by simp
  then have only: "{q \<in> set xs. avail q} = {r}" by simp
  then have av: "q \<in> set xs \<Longrightarrow> avail q \<Longrightarrow> q = r" for q by auto
  have "sorted_wrt regions_compatible xs"
    using assms(1)
  proof (induction xs)
    case (Cons q qs)
    have "regions_compatible q p" if "p \<in> set qs" for p
    proof (cases "avail q")
      case True
      then have "filter avail qs = []" using Cons.prems by simp
      then have "\<not> avail p" using that by (metis filter_empty_conv)
      then show ?thesis by (simp add: regions_compatible_def)
    qed (simp add: regions_compatible_def)
    moreover have "sorted_wrt regions_compatible qs"
    proof (cases "filter avail qs = [r]")
      case True
      then show ?thesis by (rule Cons.IH)
    next
      case False
      then have none: "filter avail qs = []" using Cons.prems by (auto split: if_splits)
      have "sorted_wrt regions_compatible ys" if "filter avail ys = []" for ys
        using that by (induction ys) (auto simp: regions_compatible_def split: if_splits)
      with none show ?thesis by blast
    qed
    ultimately show ?case by simp
  qed simp
  moreover have "region_ok q" if "q \<in> set xs" for q
    using av [OF that] assms(2) by (cases "avail q") (auto simp: region_ok_def)
  ultimately show "pmap_ok xs" by (simp add: pmap_ok_def)
  show "free_in_regions m xs = region_free m r" by (simp add: free_in_regions_def only)
qed

lemma reserve_loop_single:
  assumes f: "filter avail (pmap s) = [r]" and ok: "region_ok r" and av: "avail r"
    and "bm_free (mem s) (pr_bitmap r) = {k..<unat (pr_size_in_pages r)}"
    and "k + d \<le> unat (pr_size_in_pages r)"
  shows "\<exists>m. reserve_loop s (page_of r k) (page_of r (k + d)) n = Inr (n - of_nat d, s\<lparr>mem := m\<rparr>)
    \<and> bm_free m (pr_bitmap r) = {k + d..<unat (pr_size_in_pages r)}"
  using assms
proof (induction d arbitrary: s k n)
  case 0
  have "s = s\<lparr>mem := mem s\<rparr>" by simp
  with 0 show ?case by (intro exI [of _ "mem s"]) (simp add: reserve_loop.simps)
next
  case (Suc d)
  let ?N = "unat (pr_size_in_pages r)" and ?b = "pr_bitmap r"
  have wf: "bm_wf ?b" and ln: "bm_len ?b = pr_size_in_pages r"
    using ok av by (auto simp: region_ok_def)
  have kN: "k < ?N" using Suc.prems(5) by simp
  have free: "bm_free (mem s) ?b = {k..<?N}" by (rule Suc.prems(4))
  obtain j m where t: "bm_take (mem s, ?b) = Inr (j, m, ?b)"
    using bmap.take_ok [of "(mem s, ?b)"] wf free kN by (auto simp: bm_take_def bindR_Inr_iff)
  then have f1: "bitmap_find_and_set (mem s) ?b = Inr (j, m)" by (simp add: bm_take_Inr)
  note sp = find_and_set_Inr [OF wf f1]
  have ne: "j \<noteq> bm_len ?b" using sp(4) free kN by simp
  have "Min {k..<?N} = k" using kN by (intro Min_eqI) auto
  then have j: "unat j = k" using sp(3) [OF ne] free by simp
  have free': "bm_free m ?b = {Suc k..<?N}" unfolding sp(2) free j using kN by auto
  have a: "pmm_alloc s = Inr (pr_addr r + j * PAGE_SIZE_IN_BYTES, s\<lparr>mem := m\<rparr>)"
    unfolding pmm_alloc_Inr alloc_in_single [OF Suc.prems(1)] using f1 ne by simp
  have u: "unat (page_of r k) = unat (pr_addr r) + 4096 * k"
    "unat (page_of r (k + Suc d)) = unat (pr_addr r) + 4096 * (k + Suc d)"
    "unat (page_of r (Suc k)) = unat (pr_addr r) + 4096 * Suc k"
    using Suc.prems(5) by (intro page_of_unat_le [OF ok av]; simp)+
  have step: "page_of r k + PAGE_SIZE_IN_BYTES = page_of r (Suc k)"
    by (simp add: page_of_def algebra_simps)
  have lt: "page_of r k < page_of r (k + Suc d)" "\<not> page_of r (Suc k) < page_of r k"
    unfolding word_less_nat_alt u by simp_all
  have "\<exists>m'. reserve_loop (s\<lparr>mem := m\<rparr>) (page_of r (Suc k)) (page_of r (Suc k + d)) (n - 1)
      = Inr (n - 1 - of_nat d, s\<lparr>mem := m\<rparr>\<lparr>mem := m'\<rparr>) \<and> bm_free m' ?b = {Suc k + d..<?N}"
    using Suc.prems(1,5) ok av free' by (intro Suc.IH) simp_all
  moreover have "reserve_loop s (page_of r k) (page_of r (k + Suc d)) n =
      reserve_loop (s\<lparr>mem := m\<rparr>) (page_of r (Suc k)) (page_of r (Suc k + d)) (n - 1)"
    unfolding reserve_loop.simps [of s "page_of r k"] using lt a step by simp
  ultimately show ?case by (simp add: algebra_simps)
qed

text \<open>How many pages \<^verbatim>\<open>pmm_init\<close> withdraws for a region of \<open>n\<close> pages.\<close>

definition reserved_pages :: "nat \<Rightarrow> nat" where
  "reserved_pages n = n div 262144 + 1"

text \<open>A machine with one available region that begins where the kernel image ends.\<close>

definition one_region ::
  "'a pmm_state_scheme \<Rightarrow> multiboot_tag_mmap \<Rightarrow> pmm_region \<Rightarrow> bool" where
  "one_region s mmap r \<longleftrightarrow>
     (case pmap_init (syms s) mmap of Inl _ \<Rightarrow> False | Inr xs \<Rightarrow> filter avail xs = [r])
     \<and> pr_addr r = V2P (kernel_vma_stop (syms s)) \<and> pr_addr r \<noteq> 0
     \<and> reserved_pages (unat (pr_size_in_pages r)) \<le> unat (pr_size_in_pages r)
     \<and> unat (pr_addr r) + 4096 * unat (pr_size_in_pages r) < 2 ^ 64
     \<and> unat (kernel_vma_stop (syms s))
         + 4096 * (reserved_pages (unat (pr_size_in_pages r)) + 1) < 2 ^ 64"

lemma aligned_add:
  assumes "page_aligned a" and "page_aligned b"
  shows "page_aligned (a + b)"
proof -
  have "unat (a + b) mod 4096 = (unat a + unat b) mod 2 ^ 64 mod 4096" by (simp add: unat_word_ariths)
  also have "\<dots> = (unat a + unat b) mod 4096" by (rule mod_mod_cancel) simp
  also have "\<dots> = 0" using assms by (simp add: mod_add_eq [symmetric])
  finally show ?thesis .
qed

lemma vma_stop_page:
  assumes al: "page_aligned k" and n: "unat k + 4096 * (reserved_pages (unat n) + 1) < 2 ^ 64"
  shows "ROUNDUP (k + BITMAP_SIZE_IN_BLOCK n - 1) PAGE_SIZE_IN_BYTES
    = k + of_nat (reserved_pages (unat n)) * PAGE_SIZE_IN_BYTES"
proof -
  let ?q = "unat n div 64"
  have q: "?q div 4096 = unat n div 262144" by (simp add: div_mult2_eq [symmetric])
  have qb: "?q < 4096 * reserved_pages (unat n)"
    unfolding reserved_pages_def q [symmetric] by (simp add: dividend_less_div_times)
  have e: "k + BITMAP_SIZE_IN_BLOCK n - 1 = k + n div 64" by (simp add: BITMAP_SIZE_IN_BLOCK_def)
  have d: "unat (n div 64) = ?q" by (simp add: unat_div)
  have u: "unat (k + n div 64) = unat k + ?q"
    using n qb unfolding d [symmetric] by (intro unat_add_no_wrap) (simp add: d)
  have "(unat k + ?q) div 4096 = unat k div 4096 + ?q div 4096"
    using al by (simp add: div_add1_eq)
  then have "unat (ROUNDUP (k + n div 64) PAGE_SIZE_IN_BYTES)
      = (unat k div 4096 + ?q div 4096 + 1) * 4096"
    using n qb by (subst unat_ROUNDUP_page) (simp_all add: u)
  also have "\<dots> = unat k + 4096 * reserved_pages (unat n)"
    using al unfolding reserved_pages_def q by auto
  finally have l: "unat (ROUNDUP (k + n div 64) PAGE_SIZE_IN_BYTES)
      = unat k + 4096 * reserved_pages (unat n)" .
  have p: "unat (of_nat (reserved_pages (unat n)) * PAGE_SIZE_IN_BYTES) = 4096 * reserved_pages (unat n)"
    using n by (intro unat_of_nat_pages) simp
  have "unat (k + of_nat (reserved_pages (unat n)) * PAGE_SIZE_IN_BYTES)
      = unat k + 4096 * reserved_pages (unat n)"
    using n p by (subst unat_add_no_wrap) simp_all
  with l show ?thesis unfolding e by (simp add: word_unat_eq_iff)
qed

lemma pmm_init_single:
  assumes one: "one_region s mmap r"
  defines "N \<equiv> unat (pr_size_in_pages r)"
  obtains s' r' where
    "pmm_init s mmap = Inr (pr_size_in_pages r - of_nat (reserved_pages N), s')"
    and "filter avail (pmap s') = [r']" and "region_ok r'" and "avail r'"
    and "pr_addr r' = pr_addr r" and "pr_size_in_pages r' = pr_size_in_pages r"
    and "bm_bitmap (pr_bitmap r') = kernel_vma_stop (syms s)"
    and "bm_free (mem s') (pr_bitmap r') = {reserved_pages N..<N}"
    and "V2P (pmm_vma_stop s') = page_of r' (reserved_pages N)"
proof -
  let ?k = "kernel_vma_stop (syms s)"
  from one obtain xs where xs: "pmap_init (syms s) mmap = Inr xs" "filter avail xs = [r]"
    and ad: "pr_addr r = V2P ?k" "pr_addr r \<noteq> 0"
    and rN: "reserved_pages N \<le> N" and b1: "unat (pr_addr r) + 4096 * N < 2 ^ 64"
    and b2: "unat ?k + 4096 * (reserved_pages N + 1) < 2 ^ 64"
    unfolding one_region_def N_def by (auto split: sum.splits)
  have "set (filter avail xs) = {r}" using xs(2) by simp
  then have r: "r \<in> set xs" "avail r" by auto
  then have al: "page_aligned (pr_addr r)" using pmap_init_apart(4) [OF xs(1)] by simp
  have "?k = pr_addr r + KERNEL_VMA" by (simp add: ad(1) V2P_def)
  then have alk: "page_aligned ?k" using aligned_add [OF al, of KERNEL_VMA] by (simp add: const_defs)
  obtain a bm m0 where i: "bitmap_init (mem s) (pr_size_in_pages r) ?k = (a, bm, m0)"
    by (metis prod_cases3)
  note wf = bitmap_init_wf [OF i] and fr = bitmap_init_free [OF i]
  let ?r = "r\<lparr>pr_bitmap := bm\<rparr>"
  obtain xs' where ib: "init_bitmaps (mem s) xs ?k 0 = (xs', a, pr_size_in_pages r, m0)"
    and f': "filter avail xs' = [?r]" using init_bitmaps_single [OF xs(2) i, of 0] by auto
  have sz: "bm_size_in_block bm = BITMAP_SIZE_IN_BLOCK (pr_size_in_pages r)"
    using wf(1,2) by (simp add: bm_wf_def)
  define vs where "vs = ?k + of_nat (reserved_pages N) * PAGE_SIZE_IN_BYTES"
  have "a = ?k + BITMAP_SIZE_IN_BLOCK (pr_size_in_pages r)" using wf sz by simp
  then have vstop: "ROUNDUP (a - 1) PAGE_SIZE_IN_BYTES = vs"
    unfolding vs_def N_def using vma_stop_page [OF alk b2 [unfolded N_def]] by simp
  have av: "avail ?r" using r(2) by (simp add: avail_def)
  have ok: "region_ok ?r" using wf ad(2) al b1 by (simp add: region_ok_def N_def)
  define s0 where "s0 = s\<lparr>mem := m0, pmap := xs', pmm_vma_stop := vs\<rparr>"
  have p0: "page_of ?r 0 = V2P ?k" and pr: "page_of ?r (0 + reserved_pages N) = V2P vs"
    by (simp_all add: page_of_def ad(1) V2P_def vs_def)
  have "\<exists>m. reserve_loop s0 (page_of ?r 0) (page_of ?r (0 + reserved_pages N)) (pr_size_in_pages r)
      = Inr (pr_size_in_pages r - of_nat (reserved_pages N), s0\<lparr>mem := m\<rparr>)
    \<and> bm_free m (pr_bitmap ?r) = {0 + reserved_pages N..<unat (pr_size_in_pages ?r)}"
  proof (rule reserve_loop_single)
    show "filter avail (pmap s0) = [?r]" using f' by (simp add: s0_def)
    show "bm_free (mem s0) (pr_bitmap ?r) = {0..<unat (pr_size_in_pages ?r)}"
      using fr by (simp add: s0_def lessThan_atLeast0)
    show "0 + reserved_pages N \<le> unat (pr_size_in_pages ?r)" using rN by (simp add: N_def)
  qed (rule ok, rule av)
  then obtain m where m: "reserve_loop s0 (V2P ?k) (V2P vs) (pr_size_in_pages r)
      = Inr (pr_size_in_pages r - of_nat (reserved_pages N), s0\<lparr>mem := m\<rparr>)"
    "bm_free m bm = {reserved_pages N..<N}" unfolding p0 pr by (auto simp: N_def)
  have "pmm_init s mmap = Inr (pr_size_in_pages r - of_nat (reserved_pages N), s0\<lparr>mem := m\<rparr>)"
    unfolding pmm_init_def using xs(1) ib m(1) by (simp add: vstop s0_def)
  then show thesis
    by (rule that [of _ ?r]) (use f' ok av wf m(2) pr in \<open>simp_all add: s0_def\<close>)
qed

section \<open>Properties\<close>

text \<open>
  C30. For a boot map whose used entries are not empty, end a page below \<open>2 ^ 64\<close> and, when available, end
  above the kernel image, the region table holds exactly one region for each of them, from the page of
  its start, or of the end of the kernel image, to the end of its last page; the regions are strictly
  sorted, as the debug check \<^verbatim>\<open>pmap_sorted\<close> wants, and in unbounded arithmetic each ends before the next
  begins; and the static array is never overrun.
\<close>

theorem pmap_init_table:
  assumes "pmap_init ks mmap = Inr xs" "\<forall>e \<in> set (mm_entries mmap). is_available_or_reserved e \<longrightarrow> entry_usable ks e"
  shows "pmap_sorted xs \<and> length xs \<le> PMAP_SIZE
    \<and> sorted_wrt (\<lambda>a b. unat (pr_addr a) + 4096 * unat (pr_size_in_pages a) \<le> unat (pr_addr b)) xs
    \<and> (\<exists>n. nb_entries mmap = Inr n
        \<and> mset xs = mset (map (region_of ks) (filter is_available_or_reserved (take (unat n) (mm_entries mmap)))))"
proof -
  obtain n where n: "nb_entries mmap = Inr n"
    "mset xs = mset (map (region_of ks) (filter is_available_or_reserved (take (unat n) (mm_entries mmap))))"
    using pmap_init_regions [OF assms] .
  note t = pmap_init_apart [OF assms(1)]
  have "region_sound r" if "r \<in> set xs" for r
  proof -
    have "r \<in> region_of ks ` {e \<in> set (mm_entries mmap). is_available_or_reserved e}"
      using that mset_eq_setD [OF n(2)] by (auto dest: in_set_takeD)
    then obtain e where e: "r = region_of ks e" "entry_usable ks e" using assms(2) by blast
    then show ?thesis using entry_bounds [OF e(2)] region_of_bounds [OF e(2)] t(4) that
      by (auto simp: region_sound_def)
  qed
  then have s: "\<forall>r \<in> set xs. region_sound r" by blast
  note b = sorted_apart_before [OF t(2,1) s]
  show ?thesis using b before_pmap_sorted [OF b s] t(3) n unfolding before_def by blast
qed

definition ks0 :: link_symbols where
  "ks0 = \<lparr>kernel_vma_ro_start = 0xffffffff80250000, kernel_vma_ro_stop = 0xffffffff80300000,
     kernel_vma_rw_start = 0xffffffff80000000, kernel_vma_rw_stop = 0xffffffff80250000,
     kernel_vma_start = 0xffffffff80000000, kernel_vma_stop = 0xffffffff80300000\<rparr>"

text \<open>A boot map: low memory, 128 MiB of usable memory from 1 MiB on, a reserved hole below it.\<close>

definition mmap0 :: multiboot_tag_mmap where
  "mmap0 = \<lparr>mm_size = 88, mm_entry_size = 24, mm_entries =
     [\<lparr>me_addr = 0x100000, me_len = 0x8200000, me_type = 1\<rparr>,
      \<lparr>me_addr = 0, me_len = 0x9fc00, me_type = 1\<rparr>,
      \<lparr>me_addr = 0xf0000, me_len = 0x10000, me_type = 2\<rparr>]\<rparr>"

definition avail0 :: pmm_region where
  "avail0 = \<lparr>pr_addr = 0x300000, pr_size_in_pages = 0x8000, pr_type = PMM_REGION_AVAILABLE,
     pr_bitmap = zero_bitmap\<rparr>"

definition rsvd0 :: pmm_region where
  "rsvd0 = \<lparr>pr_addr = 0xf0000, pr_size_in_pages = 0x10, pr_type = PMM_REGION_RESERVED,
     pr_bitmap = zero_bitmap\<rparr>"

lemma pmap_init_mmap0: "pmap_init ks0 mmap0 = Inr [rsvd0, avail0]"
  by code_simp

theorem pmap_init_table_witness:
  "pmap_sorted [rsvd0, avail0] \<and> length [rsvd0, avail0] \<le> PMAP_SIZE
   \<and> unat (pr_addr rsvd0) + 4096 * unat (pr_size_in_pages rsvd0) \<le> unat (pr_addr avail0)"
proof -
  have "\<forall>e \<in> set (mm_entries mmap0). is_available_or_reserved e \<longrightarrow> entry_usable ks0 e"
    by (simp add: mmap0_def entry_usable_def is_available_or_reserved_def ks0_def V2P_def const_defs)
  then show ?thesis using pmap_init_table [OF pmap_init_mmap0] by simp
qed

text \<open>
  Available memory between the end of the low megabyte and the end of the kernel image breaks the table:
  its region starts at the end of the image and its size wraps around, so it reaches over a later
  region, and the overlap test, which adds up the same wrapped end, lets both stand.
\<close>

definition mmap_low :: multiboot_tag_mmap where
  "mmap_low = \<lparr>mm_size = 64, mm_entry_size = 24, mm_entries =
     [\<lparr>me_addr = 0x100000, me_len = 0x10000, me_type = 1\<rparr>, \<lparr>me_addr = 0x400000, me_len = 0x100000, me_type = 1\<rparr>]\<rparr>"

lemma pmap_init_wrapped_region:
  "pmap_init ks0 mmap_low = Inr [avail0\<lparr>pr_size_in_pages := 0xffffffffffe10\<rparr>, avail0\<lparr>pr_addr := 0x400000, pr_size_in_pages := 0x100\<rparr>]"
  by code_simp

text \<open>
  C8. A successful allocation keeps the allocator's invariant and removes exactly the page it
  returns from the free pages. It returns the null page only when no page is free; any other
  page it returns was free and is aligned.
\<close>

theorem pmm_alloc_fresh_page:
  assumes "pmm_inv s" and "pmm_alloc s = Inr (p, s')"
  shows "pmm_inv s' \<and> free_pages s' = free_pages s - {p} \<and> (p = 0 \<longleftrightarrow> free_pages s = {})
    \<and> (p \<noteq> 0 \<longrightarrow> p \<in> free_pages s \<and> page_aligned p)"
  by (rule pg.alloc_cases [OF assms])

text \<open>A small machine: one available region of 100 pages, its bitmap at \<open>0x1000\<close>, all pages free.\<close>

definition bm100 :: bitmap where
  "bm100 = \<lparr>bm_len = 100, bm_size_in_block = 2, bm_bitmap = 0x1000\<rparr>"

definition region100 :: pmm_region where
  "region100 = \<lparr>pr_addr = 0x300000, pr_size_in_pages = 100, pr_type = PMM_REGION_AVAILABLE,
     pr_bitmap = bm100\<rparr>"

definition machine100 :: pmm_state where
  "machine100 = \<lparr>mem = ones, syms = ks0, pmap = [region100], pmm_vma_stop = 0xffffffff80300000\<rparr>"

lemma region100_ok: "region_ok region100" "avail region100"
  by (simp_all add: region_ok_def avail_def region100_def bm100_def bm_wf_def BITMAP_SIZE_IN_BLOCK_def)

lemma machine100_inv: "pmm_inv machine100"
  using region100_ok by (simp add: pmm_inv_def machine100_def pmap_ok_def)

lemma machine100_raw: "\<not> pmm_exhausted machine100"
proof -
  have "0 \<in> bm_raw ones bm100" by (simp add: bm_raw_def bm100_def bm_bit_ones)
  then show ?thesis by (auto simp: pmm_exhausted_def machine100_def region100_def)
qed

lemma machine100_free: "free_pages machine100 = page_of region100 ` {..<100}"
proof -
  have "filter avail [region100] = [region100]" using region100_ok(2) by simp
  from pmap_ok_single(2) [OF this region100_ok(1)]
  have "free_pages machine100 = region_free ones region100" by (simp add: free_pages_def machine100_def)
  then show ?thesis by (simp add: region_free_def bm_free_ones) (simp add: region100_def bm100_def)
qed

lemma pmm_alloc_total:
  assumes "pmm_inv s" and "\<not> pmm_exhausted s"
  shows "\<exists>p s'. pmm_alloc s = Inr (p, s')"
proof -
  have "\<exists>p m'. alloc_in (mem s) (pmap s) = Inr (p, m')"
    using assms by (intro alloc_in_ok) (auto simp: pmm_inv_def pmm_exhausted_def)
  then show ?thesis by (auto simp: pmm_alloc_Inr)
qed

theorem pmm_alloc_fresh_page_witness:
  "\<exists>p s'. pmm_alloc machine100 = Inr (p, s') \<and> p \<in> free_pages machine100
    \<and> free_pages s' = free_pages machine100 - {p}"
proof -
  obtain p s' where a: "pmm_alloc machine100 = Inr (p, s')"
    using pmm_alloc_total [OF machine100_inv machine100_raw] by blast
  have "free_pages machine100 \<noteq> {}" by (simp add: machine100_free lessThan_empty_iff)
  with pmm_alloc_fresh_page [OF machine100_inv a] a show ?thesis by auto
qed

text \<open>
  Pages obtained by any number of allocations in a row are pairwise different, were all free
  before, and are all withdrawn afterwards, as long as none of the calls returned the null page.
\<close>

theorem pmm_allocs_distinct:
  assumes "pmm_inv s" and "take_many pmm_alloc k s = Inr (ps, s')" and "0 \<notin> set ps"
  shows "distinct ps \<and> length ps = k \<and> set ps \<subseteq> free_pages s
    \<and> free_pages s' = free_pages s - set ps \<and> pmm_inv s'"
  using pg.alloc_many_distinct [OF assms] by simp

theorem pmm_allocs_distinct_witness:
  "\<exists>p s'. take_many pmm_alloc 1 machine100 = Inr ([p], s') \<and> p \<in> free_pages machine100
    \<and> p \<notin> free_pages s'"
proof -
  obtain p s' where a: "pmm_alloc machine100 = Inr (p, s')"
    using pmm_alloc_total [OF machine100_inv machine100_raw] by blast
  have "free_pages machine100 \<noteq> {}" by (simp add: machine100_free lessThan_empty_iff)
  with pg.alloc_cases [OF machine100_inv a] have "0 \<notin> set [p]" by auto
  moreover have t: "take_many pmm_alloc 1 machine100 = Inr ([p], s')" using a by simp
  ultimately show ?thesis using pmm_allocs_distinct [OF machine100_inv t] by auto
qed

text \<open>
  Allocation always returns as long as every available region still has a set bit in its
  bitmap, padding included; when the first available region has none left, it reads an
  uninitialised index even if another region has free pages.
\<close>

theorem pmm_alloc_returns:
  assumes "pmm_inv s"
  shows "(\<not> pmm_exhausted s \<longrightarrow> (\<exists>p s'. pmm_alloc s = Inr (p, s')))
    \<and> (\<forall>xs r ys. pmap s = xs @ r # ys \<and> filter avail xs = [] \<and> avail r
         \<and> bm_raw (mem s) (pr_bitmap r) = {} \<longrightarrow> pmm_alloc s = Inl Uninit_Read)"
proof (intro conjI impI allI)
  show "\<exists>p s'. pmm_alloc s = Inr (p, s')" if "\<not> pmm_exhausted s" by (rule pmm_alloc_total [OF assms that])
  fix xs r ys
  assume h: "pmap s = xs @ r # ys \<and> filter avail xs = [] \<and> avail r \<and> bm_raw (mem s) (pr_bitmap r) = {}"
  then have "bm_wf (pr_bitmap r)" using assms by (auto simp: pmm_inv_def pmap_ok_def region_ok_def)
  from find_and_set_exhausted [OF this] h
  have "bitmap_find_and_set (mem s) (pr_bitmap r) = Inl Uninit_Read" by blast
  moreover have "alloc_in m (zs @ r # ys) = alloc_in m (r # ys)" if "filter avail zs = []" for m zs
    using that by (induction zs) (auto simp: avail_def split: if_splits)
  ultimately show "pmm_alloc s = Inl Uninit_Read" using h by (simp add: pmm_alloc_def avail_def)
qed

theorem pmm_alloc_returns_witness: "\<exists>p s'. pmm_alloc machine100 = Inr (p, s')"
  using pmm_alloc_returns [OF machine100_inv] machine100_raw by blast

text \<open>
  Releasing a page of an available region, above the kernel's own memory and at one of the
  bitmap positions the release handles (\<open>32 < j mod 64\<close>), makes exactly that page free again.
\<close>

theorem pmm_free_returns_page:
  assumes "pmm_inv s" and "r \<in> set (pmap s)" and "avail r" and "j < unat (pr_size_in_pages r)"
    and "32 < j mod 64" and "V2P (pmm_vma_stop s) < page_of r j"
  shows "\<exists>s'. pmm_free s (page_of r j) = Inr s' \<and> pmm_inv s'
    \<and> free_pages s' = insert (page_of r j) (free_pages s)"
proof -
  have ok: "pmap_ok (pmap s)" using assms(1) by (simp add: pmm_inv_def)
  obtain m' where m': "free_in (mem s) (pmap s) (page_of r j) = Inr m'"
    "free_in_regions m' (pmap s) = insert (page_of r j) (free_in_regions (mem s) (pmap s))"
    using free_in_spec [OF ok assms(2-5), of "mem s"] by (elim exE conjE) (rule that)
  have "pmm_free s (page_of r j) = Inr (s\<lparr>mem := m'\<rparr>)"
    using m'(1) assms(6) by (simp add: pmm_free_def)
  then show ?thesis using ok m'(2) by (simp add: pmm_inv_def free_pages_def)
qed

theorem pmm_free_returns_page_witness:
  "\<exists>s'. pmm_free (machine100\<lparr>mem := zeros\<rparr>) (page_of region100 40) = Inr s'
    \<and> page_of region100 40 \<in> free_pages s'"
proof -
  have "pmm_inv (machine100\<lparr>mem := zeros\<rparr>)" using machine100_inv by (simp add: pmm_inv_def)
  moreover have "region100 \<in> set (pmap (machine100\<lparr>mem := zeros\<rparr>))" by (simp add: machine100_def)
  moreover have "40 < unat (pr_size_in_pages region100)" by (simp add: region100_def)
  moreover have "V2P (pmm_vma_stop (machine100\<lparr>mem := zeros\<rparr>)) < page_of region100 40"
    by (simp add: machine100_def page_of_def region100_def V2P_def const_defs)
  ultimately show ?thesis
    using pmm_free_returns_page [of "machine100\<lparr>mem := zeros\<rparr>" region100 40] region100_ok(2) by auto
qed

text \<open>
  C10. On a machine with one available region that begins at the kernel's end, initialisation
  returns; it withdraws the first \<open>reserved_pages\<close> pages, leaves every later page of the region
  free, establishes the invariant, and returns the number of free pages.
\<close>

theorem pmm_init_frees_the_rest:
  assumes "one_region s mmap r"
  shows "\<exists>n s'. pmm_init s mmap = Inr (n, s') \<and> pmm_inv s'
    \<and> free_pages s' = page_of r ` {reserved_pages (unat (pr_size_in_pages r))..<unat (pr_size_in_pages r)}
    \<and> unat n = card (free_pages s')"
proof -
  let ?N = "unat (pr_size_in_pages r)"
  obtain s' r' where s': "pmm_init s mmap = Inr (pr_size_in_pages r - of_nat (reserved_pages ?N), s')"
    "filter avail (pmap s') = [r']" "region_ok r'" "avail r'"
    "pr_addr r' = pr_addr r" "pr_size_in_pages r' = pr_size_in_pages r"
    "bm_free (mem s') (pr_bitmap r') = {reserved_pages ?N..<?N}"
    by (rule pmm_init_single [OF assms])
  have pg: "page_of r' = page_of r" by (simp add: page_of_def s'(5) fun_eq_iff)
  have fr: "free_pages s' = page_of r ` {reserved_pages ?N..<?N}"
    using pmap_ok_single(2) [OF s'(2,3)] by (simp add: free_pages_def region_free_def s'(7) pg)
  have "inj_on (page_of r) {reserved_pages ?N..<?N}"
  proof (rule inj_onI)
    fix i j assume "i \<in> {reserved_pages ?N..<?N}" "j \<in> {reserved_pages ?N..<?N}"
      "page_of r i = page_of r j"
    then show "i = j" using page_of_inj [OF s'(3,4), of i j] by (simp add: s'(6) pg)
  qed
  then have card: "card (free_pages s') = ?N - reserved_pages ?N" unfolding fr by (simp add: card_image)
  have le: "reserved_pages ?N \<le> ?N" using assms by (simp add: one_region_def)
  have u: "unat (of_nat (reserved_pages ?N) :: u64) = reserved_pages ?N"
    using le unat64_lt [of "pr_size_in_pages r"] by (intro unat_of_nat64) linarith
  have "unat (pr_size_in_pages r - of_nat (reserved_pages ?N)) = card (free_pages s')"
    unfolding card using le u by (subst unat_sub_no_wrap) (simp_all add: word_le_nat_alt)
  moreover have "pmm_inv s'" using pmap_ok_single(1) [OF s'(2,3)] by (simp add: pmm_inv_def)
  ultimately show ?thesis using s'(1) fr by blast
qed

definition boot0 :: pmm_state where
  "boot0 = \<lparr>mem = zeros, syms = ks0, pmap = [], pmm_vma_stop = 0\<rparr>"

lemma boot0_one_region: "one_region boot0 mmap0 avail0"
proof -
  have "filter avail [rsvd0, avail0] = [avail0]" by (simp add: avail_def rsvd0_def avail0_def)
  then show ?thesis
    by (simp add: one_region_def boot0_def pmap_init_mmap0)
       (simp add: avail0_def ks0_def V2P_def const_defs reserved_pages_def)
qed

theorem pmm_init_frees_the_rest_witness:
  "\<exists>n s'. pmm_init boot0 mmap0 = Inr (n, s') \<and> pmm_inv s' \<and> unat n = card (free_pages s')
    \<and> page_of avail0 1 \<in> free_pages s'"
proof -
  have "1 \<in> {reserved_pages (unat (pr_size_in_pages avail0))..<unat (pr_size_in_pages avail0)}"
    by (simp add: reserved_pages_def avail0_def)
  then show ?thesis using pmm_init_frees_the_rest [OF boot0_one_region] by blast
qed

text \<open>
  C39. On such a machine, when the bitmap takes more bytes than the pages withdrawn for it, the
  page that holds its end is left free for allocation: the allocator can hand out, and so
  overwrite, its own bitmap. The same first free page can never be given back: releasing it
  panics.
\<close>

theorem pmm_init_exposes_bitmap:
  assumes "one_region s mmap r"
    and "8 * (unat (pr_size_in_pages r) div 64 + 1) > 4096 * reserved_pages (unat (pr_size_in_pages r))"
    and "reserved_pages (unat (pr_size_in_pages r)) < unat (pr_size_in_pages r)"
  shows "\<exists>n s' q. pmm_init s mmap = Inr (n, s') \<and> q \<in> set (pmap s')
    \<and> bm_span (pr_bitmap q) (pmm_vma_stop s') \<and> V2P (pmm_vma_stop s') \<in> free_pages s'
    \<and> pmm_free s' (V2P (pmm_vma_stop s')) = Inl (Panic ''pmm_free: freeing non freeable memory pages'')"
proof -
  let ?N = "unat (pr_size_in_pages r)"
  obtain s' r' where s': "pmm_init s mmap = Inr (pr_size_in_pages r - of_nat (reserved_pages ?N), s')"
    "filter avail (pmap s') = [r']" "region_ok r'" "avail r'"
    "pr_addr r' = pr_addr r" "pr_size_in_pages r' = pr_size_in_pages r"
    "bm_bitmap (pr_bitmap r') = kernel_vma_stop (syms s)"
    "bm_free (mem s') (pr_bitmap r') = {reserved_pages ?N..<?N}"
    "V2P (pmm_vma_stop s') = page_of r' (reserved_pages ?N)"
    by (rule pmm_init_single [OF assms(1)])
  have "set (filter avail (pmap s')) = {r'}" using s'(2) by simp
  then have mem': "r' \<in> set (pmap s')" by auto
  have wf: "bm_wf (pr_bitmap r')" "bm_len (pr_bitmap r') = pr_size_in_pages r"
    using s'(3,4,6) by (simp_all add: region_ok_def)
  have ad: "pr_addr r = V2P (kernel_vma_stop (syms s))" using assms(1) by (simp add: one_region_def)
  have "pmm_vma_stop s' - KERNEL_VMA = pr_addr r + of_nat (reserved_pages ?N) * PAGE_SIZE_IN_BYTES"
    using s'(9) by (simp add: V2P_def page_of_def s'(5))
  then have off: "pmm_vma_stop s' - bm_bitmap (pr_bitmap r')
      = of_nat (reserved_pages ?N) * PAGE_SIZE_IN_BYTES"
    unfolding s'(7) ad V2P_def by (simp add: algebra_simps)
  have S: "unat (bm_size_in_block (pr_bitmap r')) = ?N div 64 + 1"
    using unat_size_in_block [OF wf(1)] by (simp add: wf(2))
  have b: "unat (bm_size_in_block (pr_bitmap r')) \<le> 2 ^ 58" by (rule size_in_block_bound [OF wf(1)])
  have u8: "unat (bm_size_in_block (pr_bitmap r') * 8) = 8 * (?N div 64 + 1)"
    using b by (subst unat_mult_no_wrap) (simp_all add: S)
  have up: "unat (of_nat (reserved_pages ?N) * PAGE_SIZE_IN_BYTES) = 4096 * reserved_pages ?N"
    using assms(2) b S by (intro unat_of_nat_pages) simp
  have "bm_span (pr_bitmap r') (pmm_vma_stop s')"
    unfolding bm_span_def off word_less_nat_alt u8 up by (rule assms(2))
  moreover have "V2P (pmm_vma_stop s') \<in> free_pages s'"
    using assms(3) unfolding free_pages_def pmap_ok_single(2) [OF s'(2,3)] region_free_def s'(8,9) by simp
  ultimately show ?thesis using s'(1) mem' by (auto simp: pmm_free_def)
qed

theorem pmm_init_exposes_bitmap_witness:
  "\<exists>n s'. pmm_init boot0 mmap0 = Inr (n, s') \<and> V2P (pmm_vma_stop s') \<in> free_pages s'"
proof -
  have "8 * (unat (pr_size_in_pages avail0) div 64 + 1) > 4096 * reserved_pages (unat (pr_size_in_pages avail0))"
    and "reserved_pages (unat (pr_size_in_pages avail0)) < unat (pr_size_in_pages avail0)"
    by (simp_all add: reserved_pages_def avail0_def)
  from pmm_init_exposes_bitmap [OF boot0_one_region this] show ?thesis by blast
qed

end
