(* ===== verification/Mmu.thy ===== *)
theory Mmu
  imports Pmm Kstring
begin

text \<open>
  The page-table code of \<^verbatim>\<open>kernel/arch/x86_64/mm/mmu.c\<close>: mapping, unmapping and translating a
  page through the four levels of tables, which lie in byte memory and are reached through the
  direct mapping. The abstraction of a space is the function from virtual pages to page-table
  entries; the lemmas show that mapping a page updates this function at that page and nowhere
  else, in this and in every other space, when the tables form disjoint trees. The structures of
  \<^verbatim>\<open>kernel/mm/vmm.h\<close> are declared here because the page-table code reads them.
\<close>

section \<open>State\<close>

record vmm_region =
  va_start :: u64
  va_stop :: u64
  vr_next :: u64
  vr_prev :: u64
  vr_flags :: u64

record vmm_space =
  page_directory :: u64
  sp_region :: u64

text \<open>
  Region and space objects are kept in typed heaps indexed by their address. \<open>cr3\<close> is the
  register \<^verbatim>\<open>paging_load\<close> writes, \<open>flushed\<close> the pages given to \<^verbatim>\<open>invlpg\<close>, latest first.
\<close>

record vm_state = pmm_state +
  vregions :: "u64 \<rightharpoonup> vmm_region"
  vspaces :: "u64 \<rightharpoonup> vmm_space"
  cr3 :: u64
  flushed :: "u64 list"

section \<open>Operations\<close>

definition tbl_entry :: "u64 \<Rightarrow> u64 \<Rightarrow> u64" where
  "tbl_entry t i = t + 8 * i"

definition present :: "u64 \<Rightarrow> bool" where
  "present e \<longleftrightarrow> e AND PAGE_PRESENT \<noteq> 0"

definition next_table :: "memory \<Rightarrow> u64 \<Rightarrow> u64 \<Rightarrow> u64" where
  "next_table m t i = PAGE_ADDR (DM_P2V (load64 m (tbl_entry t i))) PAGE_TABLE_SIZE_IN_BYTES"

definition mmu_translate_4k :: "memory \<Rightarrow> u64 \<Rightarrow> u64 \<Rightarrow> u64" where
  "mmu_translate_4k m pml4e va =
     (if \<not> present (load64 m (tbl_entry pml4e (PML4E_INDEX va))) then NOT 0
      else let pdpt = next_table m pml4e (PML4E_INDEX va) in
      if \<not> present (load64 m (tbl_entry pdpt (PDPT_INDEX va))) then NOT 0
      else let pdt = next_table m pdpt (PDPT_INDEX va) in
      if \<not> present (load64 m (tbl_entry pdt (PDT_INDEX va))) then NOT 0
      else let pt = next_table m pdt (PDT_INDEX va) in
      PAGE_ADDR (load64 m (tbl_entry pt (PT_INDEX va))) PAGE_SIZE_IN_BYTES
        OR (va AND (PAGE_SIZE_IN_BYTES - 1)))"

definition mmu_translate_1gb :: "memory \<Rightarrow> u64 \<Rightarrow> u64 \<Rightarrow> u64" where
  "mmu_translate_1gb m pml4 va =
     (if \<not> present (load64 m (tbl_entry pml4 (PML4E_INDEX va))) then NOT 0
      else let pdpt = PAGE_ADDR (load64 m (tbl_entry pml4 (PML4E_INDEX va))) PAGE_TABLE_SIZE_IN_BYTES in
      if \<not> present (load64 m (tbl_entry pdpt (PDPT_INDEX va))) then NOT 0
      else PAGE_ADDR (load64 m (tbl_entry pdpt (PDPT_INDEX va))) BOOT_PAGE_SIZE_IN_BYTES
        OR (va AND (BOOT_PAGE_SIZE_IN_BYTES - 1)))"

text \<open>
  The debug check that the new tables agree with the boot tables on the kernel image; \<open>boot_pml4\<close>
  is the physical address of the tables the boot code built.
\<close>

definition mmu_test_kernel_mapping :: "'a vm_state_scheme \<Rightarrow> u64 \<Rightarrow> u64 \<Rightarrow> unit res" where
  "mmu_test_kernel_mapping s boot_pml4 space =
     bindR (deref (vspaces s) space) (\<lambda>sp.
       page_loop (\<lambda>u addr.
           if mmu_translate_1gb (mem s) (P2V boot_pml4) addr
              \<noteq> mmu_translate_4k (mem s) (page_directory sp) addr
           then Inl (Panic ''mmu_test_kernel_mapping'') else Inr u)
         () (kernel_vma_start (syms s)) (pmm_vma_stop s))"

definition compare_pages :: "memory \<Rightarrow> u64 \<Rightarrow> u64 \<Rightarrow> u64 \<Rightarrow> u64 \<Rightarrow> unit res" where
  "compare_pages m pd1 pd2 start stop =
     page_loop (\<lambda>u va. if mmu_translate_4k m pd1 va \<noteq> mmu_translate_4k m pd2 va
                       then Inl (Panic ''mmu_test_compare_mapping: mismatch address'') else Inr u)
       () start stop"

definition compare_region :: "memory \<Rightarrow> u64 \<Rightarrow> u64 \<Rightarrow> vmm_region \<Rightarrow> vmm_region \<Rightarrow> unit res" where
  "compare_region m pd1 pd2 r1 r2 =
     (if va_start r1 \<noteq> va_start r2
      then Inl (Panic ''mmu_test_compare_mapping: regions don't have the same va_start'')
      else if va_stop r1 \<noteq> va_stop r2
      then Inl (Panic ''mmu_test_compare_mapping: regions don't have the same va_stop'')
      else if vr_flags r1 \<noteq> vr_flags r2
      then Inl (Panic ''mmu_test_compare_mapping: regions don't have the same flags'')
      else compare_pages m pd1 pd2 (va_start r1) (va_stop r1))"

partial_function (option) compare_regions ::
  "memory \<Rightarrow> (u64 \<rightharpoonup> vmm_region) \<Rightarrow> u64 \<Rightarrow> u64 \<Rightarrow> u64 \<Rightarrow> u64 \<Rightarrow> unit res option" where
  "compare_regions m h pd1 pd2 region1 region2 =
     (if region1 \<noteq> 0 \<and> region2 \<noteq> 0 then
        (case bindR (deref h region1) (\<lambda>r1. bindR (deref h region2) (\<lambda>r2.
                bindR (compare_region m pd1 pd2 r1 r2) (\<lambda>_. Inr (vr_next r1, vr_next r2)))) of
           Inl e \<Rightarrow> Some (Inl e)
         | Inr p \<Rightarrow> compare_regions m h pd1 pd2 (fst p) (snd p))
      else if region1 \<noteq> 0 \<or> region2 \<noteq> 0
      then Some (Inl (Panic ''mmu_test_compare_mapping: spaces don't have the same number of regions''))
      else Some (Inr ()))"

definition mmu_test_compare_mapping :: "'a vm_state_scheme \<Rightarrow> u64 \<Rightarrow> u64 \<Rightarrow> unit res" where
  "mmu_test_compare_mapping s space1 space2 =
     bindR (deref (vspaces s) space1) (\<lambda>sp1. bindR (deref (vspaces s) space2) (\<lambda>sp2.
       ret (compare_regions (mem s) (vregions s) (page_directory sp1) (page_directory sp2)
              (sp_region sp1) (sp_region sp2))))"

text \<open>
  One level of the walk of \<^verbatim>\<open>mmu_map_page\<close>: the table below entry \<open>i\<close> of \<open>t\<close>, allocated and
  cleared when the entry is not present.
\<close>

definition ensure_table ::
  "'a pmm_state_scheme \<Rightarrow> u64 \<Rightarrow> u64 \<Rightarrow> u64 \<Rightarrow> (u64 \<times> 'a pmm_state_scheme) res" where
  "ensure_table s t i perm_wo_g =
     bindR (if \<not> present (load64 (mem s) (tbl_entry t i)) then
              bindR (pmm_xalloc s) (\<lambda>(p, s1).
                let m1 = memset (mem s1) (DM_P2V p) 0 PAGE_SIZE_IN_BYTES;
                    m2 = store64 m1 (tbl_entry t i) (p OR PAGE_PRESENT OR perm_wo_g)
                in Inr (s1\<lparr>mem := m2\<rparr>))
            else Inr s)
       (\<lambda>s2. Inr (next_table (mem s2) t i, s2))"

definition map_page_in ::
  "'a pmm_state_scheme \<Rightarrow> u64 \<Rightarrow> u64 \<Rightarrow> u64 \<Rightarrow> u64 \<Rightarrow> (u64 \<times> 'a pmm_state_scheme) res" where
  "map_page_in s pml4e va pa perm =
     (let perm_wo_g = perm AND NOT PAGE_GLOBAL in
      bindR (ensure_table s pml4e (PML4E_INDEX va) perm_wo_g) (\<lambda>(pdpt, s1).
      bindR (ensure_table s1 pdpt (PDPT_INDEX va) perm_wo_g) (\<lambda>(pdt, s2).
      bindR (ensure_table s2 pdt (PDT_INDEX va) perm_wo_g) (\<lambda>(pt, s3).
        Inr (load64 (mem s3) (tbl_entry pt (PT_INDEX va)),
             s3\<lparr>mem := store64 (mem s3) (tbl_entry pt (PT_INDEX va)) (pa OR perm)\<rparr>)))))"

definition mmu_map_page ::
  "'a vm_state_scheme \<Rightarrow> u64 \<Rightarrow> u64 \<Rightarrow> u64 \<Rightarrow> u64 \<Rightarrow> (u64 \<times> 'a vm_state_scheme) res" where
  "mmu_map_page s space va pa perm =
     bindR (deref (vspaces s) space) (\<lambda>sp. map_page_in s (page_directory sp) va pa perm)"

definition invlpg :: "u64 \<Rightarrow> 'a vm_state_scheme \<Rightarrow> 'a vm_state_scheme" where
  [simp]: "invlpg addr s = s\<lparr>flushed := addr # flushed s\<rparr>"

definition mmu_unmap_page :: "'a vm_state_scheme \<Rightarrow> u64 \<Rightarrow> u64 \<Rightarrow> (u64 \<times> 'a vm_state_scheme) res" where
  "mmu_unmap_page s space va =
     bindR (mmu_map_page s space va 0 0) (\<lambda>(pa, s1).
     bindR (pmm_free s1 (PAGE_ADDR pa PAGE_SIZE_IN_BYTES)) (\<lambda>s2.
       Inr (pa, invlpg va s2)))"

definition copy_page ::
  "u64 \<Rightarrow> u64 \<Rightarrow> u64 \<Rightarrow> 'a vm_state_scheme \<Rightarrow> u64 \<Rightarrow> 'a vm_state_scheme res" where
  "copy_page dst src flags s va =
     bindR (deref (vspaces s) src) (\<lambda>sp.
     bindR (mmu_map_page s dst va (mmu_translate_4k (mem s) (page_directory sp) va) flags) (\<lambda>(old, s').
       if old \<noteq> 0 then Inl (Panic ''mmu_copy_pages: overwrite preexisting mapping'') else Inr s'))"

definition mmu_copy_pages ::
  "'a vm_state_scheme \<Rightarrow> u64 \<Rightarrow> u64 \<Rightarrow> u64 \<Rightarrow> 'a vm_state_scheme res" where
  "mmu_copy_pages s dst src region =
     bindR (deref (vregions s) region) (\<lambda>r.
       page_loop (copy_page dst src (vr_flags r)) s (va_start r) (va_stop r))"

definition paging_load :: "'a vm_state_scheme \<Rightarrow> u64 \<Rightarrow> 'a vm_state_scheme" where
  "paging_load s new_cr3 = s\<lparr>cr3 := new_cr3\<rparr>"

definition mmu_switch_space :: "'a vm_state_scheme \<Rightarrow> u64 \<Rightarrow> 'a vm_state_scheme res" where
  "mmu_switch_space s space =
     bindR (deref (vspaces s) space) (\<lambda>sp. Inr (paging_load s (DM_V2P (page_directory sp))))"

definition mmu_init :: "'a vm_state_scheme \<Rightarrow> u64 \<Rightarrow> 'a vm_state_scheme res" where
  "mmu_init s space =
     bindR (pmm_xalloc s) (\<lambda>(p, s1).
     bindR (deref (vspaces s1) space) (\<lambda>sp.
       let pd = DM_P2V p in
       Inr (s1\<lparr>vspaces := (vspaces s1)(space \<mapsto> sp\<lparr>page_directory := pd\<rparr>),
               mem := memset (mem s1) pd 0 PAGE_SIZE_IN_BYTES\<rparr>)))"

section \<open>Cells of page tables\<close>

lemma index_bound:
  "PML4E_INDEX va < 512" "PDPT_INDEX va < 512" "PDT_INDEX va < 512" "PT_INDEX va < 512"
proof -
  have "x AND 0x1ff < (512 :: u64)" for x
  proof -
    have "unat (x AND mask 9) < 512" unfolding and_mask_unat by simp
    moreover have "(mask 9 :: u64) = 0x1ff" by (simp add: mask_eq_decr_exp)
    ultimately show ?thesis by (simp add: word_less_nat_alt)
  qed
  then show "PML4E_INDEX va < 512" "PDPT_INDEX va < 512" "PDT_INDEX va < 512" "PT_INDEX va < 512"
    by (simp_all add: PML4E_INDEX_def PDPT_INDEX_def PDT_INDEX_def PT_INDEX_def)
qed

lemma aligned_room:
  assumes "page_aligned a"
  shows "unat a + 4096 \<le> 2 ^ 64"
proof -
  obtain k where k: "unat a = 4096 * k" using assms by (auto simp: mod_eq_0_iff_dvd dvd_def)
  have "4096 * k < 4096 * 2 ^ 52" using unat64_lt [of a] unfolding k by simp
  then have "Suc k \<le> 2 ^ 52" by simp
  then have "4096 * Suc k \<le> 4096 * 2 ^ 52" by (rule mult_le_mono2)
  then show ?thesis by (simp add: k)
qed

lemma aligned_gap:
  assumes "page_aligned a" and "page_aligned b" and "a \<noteq> b"
  shows "unat a + 4096 \<le> unat b \<or> unat b + 4096 \<le> unat a"
proof -
  obtain k l where k: "unat a = 4096 * k" "unat b = 4096 * l"
    using assms by (auto simp: mod_eq_0_iff_dvd dvd_def)
  then have "k \<noteq> l" using assms(3) by (auto simp: word_unat_eq_iff)
  then show ?thesis unfolding k by auto
qed

lemma unat_tbl_entry:
  assumes "page_aligned t" and "i < 512"
  shows "unat (tbl_entry t i) = unat t + 8 * unat i"
proof -
  have i: "unat i < 512" using assms(2) by (simp add: word_less_nat_alt)
  have "unat (8 * i) = 8 * unat i" using i by (subst unat_mult_no_wrap) simp_all
  then show ?thesis
    unfolding tbl_entry_def using aligned_room [OF assms(1)] i by (subst unat_add_no_wrap) simp_all
qed

lemma disj64_I:
  assumes "unat a + 8 \<le> unat b" and "unat b + 8 \<le> 2 ^ 64"
  shows "disj64 a b"
proof -
  have d: "unat (b - a) = unat b - unat a" using assms by (intro unat_sub_no_wrap) (simp add: word_le_nat_alt)
  have "a \<noteq> b" using assms by auto
  then have "unat (a - b) = 2 ^ 64 - (unat b - unat a)" using unat_diff_sym [of a b] d by simp
  then have "8 \<le> unat (a - b)" using assms by linarith
  moreover have "8 \<le> unat (b - a)" unfolding d using assms(1) by linarith
  ultimately show ?thesis by (simp add: disj64_def word_le_nat_alt)
qed

lemma entries_disjoint:
  assumes t: "page_aligned t" and t': "page_aligned t'" and i: "i < 512" and i': "i' < 512"
    and ne: "t \<noteq> t' \<or> i \<noteq> i'"
  shows "disj64 (tbl_entry t i) (tbl_entry t' i')"
proof -
  note u = unat_tbl_entry [OF t i] unat_tbl_entry [OF t' i']
  have b: "unat i < 512" "unat i' < 512" using i i' by (simp_all add: word_less_nat_alt)
  note r = aligned_room [OF t] aligned_room [OF t']
  have "unat t + 8 * unat i + 8 \<le> unat t' + 8 * unat i' \<or> unat t' + 8 * unat i' + 8 \<le> unat t + 8 * unat i"
  proof (cases "t = t'")
    case True
    then have "unat i \<noteq> unat i'" using ne by (simp add: word_unat_eq_iff)
    then show ?thesis using True by auto
  next
    case False
    then show ?thesis using aligned_gap [OF t t'] b by linarith
  qed
  then show ?thesis
  proof
    assume "unat t + 8 * unat i + 8 \<le> unat t' + 8 * unat i'"
    then show ?thesis using r b by (intro disj64_I) (simp_all add: u)
  next
    assume "unat t' + 8 * unat i' + 8 \<le> unat t + 8 * unat i"
    then have "disj64 (tbl_entry t' i') (tbl_entry t i)" using r b by (intro disj64_I) (simp_all add: u)
    then show ?thesis by (simp add: disj64_sym)
  qed
qed

definition page_bytes :: "u64 \<Rightarrow> u64 \<Rightarrow> bool" where
  "page_bytes t x \<longleftrightarrow> x - t < 4096"

lemma page_bytes_unat:
  assumes "page_aligned t"
  shows "page_bytes t x \<longleftrightarrow> unat t \<le> unat x \<and> unat x < unat t + 4096"
proof (cases "t \<le> x")
  case True
  then show ?thesis
    by (auto simp: page_bytes_def word_less_nat_alt unat_sub_no_wrap word_le_nat_alt)
next
  case False
  then have lt: "unat x < unat t" by (simp add: word_le_nat_alt)
  then have "x \<noteq> t" by auto
  have "unat (t - x) = unat t - unat x" using lt by (intro unat_sub_no_wrap) (simp add: word_le_nat_alt)
  then have "unat (x - t) = 2 ^ 64 - (unat t - unat x)" using unat_diff_sym [OF \<open>x \<noteq> t\<close>] by simp
  then show ?thesis using lt aligned_room [OF assms] by (auto simp: page_bytes_def word_less_nat_alt)
qed

lemma entry_bytes:
  assumes "page_aligned t" and "i < 512" and "k < 8"
  shows "page_bytes t (tbl_entry t i + k)"
proof -
  have b: "unat i < 512" "unat k < 8" using assms by (simp_all add: word_less_nat_alt)
  have "unat (tbl_entry t i + k) = unat t + 8 * unat i + unat k"
    using unat_tbl_entry [OF assms(1,2)] aligned_room [OF assms(1)] b by (subst unat_add_no_wrap) simp_all
  then show ?thesis using b by (simp add: page_bytes_unat [OF assms(1)])
qed

lemma pages_bytes_disjoint:
  assumes "page_aligned t" and "page_aligned c" and "t \<noteq> c" and "page_bytes t x"
  shows "\<not> page_bytes c x"
  using assms aligned_gap [OF assms(1-3)] by (auto simp: page_bytes_unat)

lemma load_entry_cong:
  assumes "page_aligned t" and "i < 512" and "\<And>x. page_bytes t x \<Longrightarrow> m' x = m x"
  shows "load64 m' (tbl_entry t i) = load64 m (tbl_entry t i)"
  by (rule load64_cong) (rule assms(3) [OF entry_bytes [OF assms(1,2)]])

lemma load64_zero:
  assumes "\<And>i. i < 8 \<Longrightarrow> m (a + i) = 0"
  shows "load64 m a = 0"
  using assms [of 0] assms [of 1] assms [of 2] assms [of 3] assms [of 4] assms [of 5]
    assms [of 6] assms [of 7] by (simp add: load64_def)

lemma present_0 [simp]: "\<not> present 0"
  by (simp add: present_def)

text \<open>The entry built for a fresh table leads to its page.\<close>

lemma or_low_bits:
  fixes a l :: u64
  assumes "page_aligned a" and "unat l < 4096"
  shows "a OR l = a + l"
proof -
  have a0: "take_bit 12 a = 0"
    using and_mask_unat [of a 12] assms(1) by (simp add: unat_eq_0 [symmetric] take_bit_eq_mask)
  have "unat (take_bit 12 l) = unat l"
    using and_mask_unat [of l 12] assms(2) by (simp add: take_bit_eq_mask)
  then have l0: "take_bit 12 l = l" by (simp add: word_unat_eq_iff)
  have "a AND l = take_bit 12 a AND l"
    by (metis l0 take_bit_eq_mask and.assoc and.commute)
  then have "a AND l = 0" by (simp add: a0)
  then show ?thesis by (simp add: disjunctive_add_eq_or)
qed

lemma PAGE_ADDR_add_low:
  assumes "page_aligned a" and "unat l < 4096"
  shows "PAGE_ADDR (a + l) PAGE_SIZE_IN_BYTES = a"
proof -
  have "unat (a + l) = unat a + unat l"
    using aligned_room [OF assms(1)] assms(2) by (intro unat_add_no_wrap) simp
  moreover have "(unat a + unat l) mod 4096 = unat l" using assms by (simp add: mod_add_left_eq [symmetric])
  ultimately have "unat (PAGE_ADDR (a + l) PAGE_SIZE_IN_BYTES) = unat a"
    by (simp add: unat_PAGE_ADDR)
  then show ?thesis by (simp add: word_unat_eq_iff)
qed

lemma DM_P2V_aligned: "page_aligned p \<Longrightarrow> page_aligned (DM_P2V p)"
  unfolding DM_P2V_def by (rule aligned_add) (simp_all add: const_defs)

lemma DM_P2V_inj: "DM_P2V p = DM_P2V q \<longleftrightarrow> p = q"
  by (simp add: DM_P2V_def)

lemma PAGE_TABLE_ADDR: "PAGE_ADDR a PAGE_TABLE_SIZE_IN_BYTES = PAGE_ADDR a PAGE_SIZE_IN_BYTES"
  by (simp add: const_defs)

lemma fresh_entry:
  assumes p: "page_aligned p" and l: "unat perm < 4096"
  shows "present (p OR PAGE_PRESENT OR perm)"
    and "PAGE_ADDR (DM_P2V (p OR PAGE_PRESENT OR perm)) PAGE_TABLE_SIZE_IN_BYTES = DM_P2V p"
proof -
  let ?l = "PAGE_PRESENT OR perm"
  have "take_bit 12 ?l = ?l"
  proof -
    have "unat (take_bit 12 perm) = unat perm"
      using and_mask_unat [of perm 12] l by (simp add: take_bit_eq_mask)
    then have "take_bit 12 perm = perm" by (simp add: word_unat_eq_iff)
    then show ?thesis by (simp add: const_defs)
  qed
  then have lo: "unat ?l < 4096"
  proof -
    have "unat (take_bit 12 ?l) = unat ?l mod 2 ^ 12" unfolding take_bit_eq_mask by (rule and_mask_unat)
    then have "unat ?l = unat ?l mod 4096" using \<open>take_bit 12 ?l = ?l\<close> by simp
    also have "\<dots> < 4096" by (rule mod_less_divisor) simp
    finally show ?thesis .
  qed
  have e: "p OR PAGE_PRESENT OR perm = p + ?l" using or_low_bits [OF p lo] by (simp add: or.assoc)
  have "bit (p OR PAGE_PRESENT OR perm) 0" by (simp add: bit_or_iff const_defs)
  then show "present (p OR PAGE_PRESENT OR perm)"
    by (simp add: present_def const_defs and_one_eq odd_iff_mod_2_eq_one bit_0)
  have "DM_P2V (p OR PAGE_PRESENT OR perm) = DM_P2V p + ?l" unfolding e by (simp add: DM_P2V_def)
  then show "PAGE_ADDR (DM_P2V (p OR PAGE_PRESENT OR perm)) PAGE_TABLE_SIZE_IN_BYTES = DM_P2V p"
    using PAGE_ADDR_add_low [OF DM_P2V_aligned [OF p] lo] by (simp add: PAGE_TABLE_ADDR)
qed

section \<open>Trees of tables\<close>

text \<open>
  The table reached from the root \<open>r\<close> along a list of at most three indices, and the leaf entry
  of a virtual address: \<open>0\<close> when a table on the way is missing.
\<close>

definition table_step :: "memory \<Rightarrow> u64 option \<Rightarrow> u64 \<Rightarrow> u64 option" where
  "table_step m o_t i = (case o_t of None \<Rightarrow> None
     | Some t \<Rightarrow> if present (load64 m (tbl_entry t i)) then Some (next_table m t i) else None)"

definition table_at :: "memory \<Rightarrow> u64 \<Rightarrow> u64 list \<Rightarrow> u64 option" where
  "table_at m r p = foldl (table_step m) (Some r) p"

definition va_path :: "u64 \<Rightarrow> u64 list" where
  "va_path va = [PML4E_INDEX va, PDPT_INDEX va, PDT_INDEX va]"

definition mmu_entry :: "memory \<Rightarrow> u64 \<Rightarrow> u64 \<Rightarrow> u64" where
  "mmu_entry m r va =
     (case table_at m r (va_path va) of None \<Rightarrow> 0 | Some pt \<Rightarrow> load64 m (tbl_entry pt (PT_INDEX va)))"

definition same_page :: "u64 \<Rightarrow> u64 \<Rightarrow> bool" where
  "same_page va va' \<longleftrightarrow> va_path va = va_path va' \<and> PT_INDEX va = PT_INDEX va'"

definition path :: "u64 list \<Rightarrow> bool" where
  "path p \<longleftrightarrow> length p \<le> 3 \<and> (\<forall>i \<in> set p. i < 512)"

definition tables :: "u64 set \<Rightarrow> memory \<Rightarrow> u64 set" where
  "tables R m = {t. \<exists>r \<in> R. \<exists>p. path p \<and> table_at m r p = Some t}"

definition pt_tree :: "u64 set \<Rightarrow> memory \<Rightarrow> bool" where
  "pt_tree R m \<longleftrightarrow> (\<forall>t \<in> tables R m. page_aligned t) \<and>
     (\<forall>r \<in> R. \<forall>r' \<in> R. \<forall>p p' t. path p \<and> path p' \<and> table_at m r p = Some t
        \<and> table_at m r' p' = Some t \<longrightarrow> r = r' \<and> p = p')"

text \<open>
  The invariant of the page-table code over the roots \<open>R\<close> in use: the tables form disjoint
  trees, none of them is a free page, and neither a table nor a free page holds a bitmap.
\<close>

definition off_bitmaps :: "'a pmm_state_scheme \<Rightarrow> u64 \<Rightarrow> bool" where
  "off_bitmaps s t \<longleftrightarrow> (\<forall>x. page_bytes t x \<longrightarrow> outside_bitmaps (pmap s) x)"

definition mmu_inv :: "u64 set \<Rightarrow> 'a pmm_state_scheme \<Rightarrow> bool" where
  "mmu_inv R s \<longleftrightarrow> pmm_inv s \<and> pt_tree R (mem s)
     \<and> (\<forall>t \<in> tables R (mem s). t \<notin> DM_P2V ` free_pages s \<and> off_bitmaps s t)
     \<and> (\<forall>p \<in> free_pages s. off_bitmaps s (DM_P2V p))"

lemma table_at_Nil [simp]: "table_at m r [] = Some r"
  by (simp add: table_at_def)

lemma table_at_snoc: "table_at m r (p @ [i]) = table_step m (table_at m r p) i"
  by (simp add: table_at_def)

lemma path_snoc: "path (p @ [i]) \<longleftrightarrow> length p < 3 \<and> (\<forall>j \<in> set p. j < 512) \<and> i < 512"
  by (auto simp: path_def)

lemma path_prefix: "path (p @ [i]) \<Longrightarrow> path p \<and> i < 512"
  by (simp add: path_def)

lemma va_path_path: "path (va_path va)"
  by (simp add: path_def va_path_def index_bound)

lemma va_path_length: "length (va_path va) = 3"
  by (simp add: va_path_def)

lemma tables_I: "r \<in> R \<Longrightarrow> path p \<Longrightarrow> table_at m r p = Some t \<Longrightarrow> t \<in> tables R m"
  by (auto simp: tables_def)

lemma pt_tree_aligned: "pt_tree R m \<Longrightarrow> t \<in> tables R m \<Longrightarrow> page_aligned t"
  by (simp add: pt_tree_def)

lemma pt_tree_inj:
  assumes "pt_tree R m" and "r \<in> R" and "r' \<in> R" and "path p" and "path p'"
    and "table_at m r p = Some t" and "table_at m r' p' = Some t"
  shows "r = r'" and "p = p'"
  using assms unfolding pt_tree_def by blast+

lemma table_at_step_Some:
  "table_at m r (p @ [i]) = Some c \<longleftrightarrow>
    (\<exists>t. table_at m r p = Some t \<and> present (load64 m (tbl_entry t i)) \<and> c = next_table m t i)"
  by (auto simp: table_at_snoc table_step_def split: option.splits if_splits)

text \<open>The tree does not change when no table entry above the leaves does.\<close>

lemma table_at_cong:
  assumes eq: "\<And>t p i. path (p @ [i]) \<Longrightarrow> table_at m r p = Some t \<Longrightarrow>
      load64 m' (tbl_entry t i) = load64 m (tbl_entry t i)"
  shows "path p \<Longrightarrow> table_at m' r p = table_at m r p"
proof (induction p rule: rev_induct)
  case (snoc i p)
  have IH: "table_at m' r p = table_at m r p" using snoc path_prefix by blast
  show ?case
  proof (cases "table_at m r p")
    case (Some t)
    then show ?thesis
      using eq [OF snoc.prems Some] by (simp add: table_at_snoc IH table_step_def next_table_def)
  qed (simp add: table_at_snoc IH table_step_def)
qed simp

lemma tables_cong:
  assumes "\<And>r p. r \<in> R \<Longrightarrow> path p \<Longrightarrow> table_at m' r p = table_at m r p"
  shows "tables R m' = tables R m" and "pt_tree R m' = pt_tree R m"
proof -
  show t: "tables R m' = tables R m"
    unfolding tables_def using assms by (intro Collect_cong bex_cong refl ex_cong1) metis
  show "pt_tree R m' = pt_tree R m"
    unfolding pt_tree_def t using assms by (intro conj_cong refl ball_cong all_cong1) metis
qed

text \<open>Writes that avoid every table change nothing.\<close>

lemma table_at_frame:
  assumes tree: "pt_tree R m" and eq: "\<And>t x. t \<in> tables R m \<Longrightarrow> page_bytes t x \<Longrightarrow> m' x = m x"
    and r: "r \<in> R" and p: "path p"
  shows "table_at m' r p = table_at m r p"
proof (rule table_at_cong [OF _ p])
  fix t q i assume q: "path (q @ [i])" "table_at m r q = Some t"
  then have t: "t \<in> tables R m" using r path_prefix [OF q(1)] by (auto intro: tables_I)
  show "load64 m' (tbl_entry t i) = load64 m (tbl_entry t i)"
    by (rule load_entry_cong [OF pt_tree_aligned [OF tree t]]) (use path_prefix [OF q(1)] eq [OF t] in auto)
qed

lemma mmu_entry_frame:
  assumes tree: "pt_tree R m" and eq: "\<And>t x. t \<in> tables R m \<Longrightarrow> page_bytes t x \<Longrightarrow> m' x = m x"
    and r: "r \<in> R"
  shows "mmu_entry m' r va = mmu_entry m r va"
proof -
  have tb: "table_at m' r (va_path va) = table_at m r (va_path va)"
    by (rule table_at_frame [OF tree eq r va_path_path])
  show ?thesis
  proof (cases "table_at m r (va_path va)")
    case (Some t)
    have t: "t \<in> tables R m" by (rule tables_I [OF r va_path_path Some])
    have "load64 m' (tbl_entry t (PT_INDEX va)) = load64 m (tbl_entry t (PT_INDEX va))"
      by (rule load_entry_cong [OF pt_tree_aligned [OF tree t] index_bound(4)]) (rule eq [OF t])
    then show ?thesis by (simp add: mmu_entry_def tb Some)
  qed (simp add: mmu_entry_def tb)
qed

section \<open>Adding a table\<close>

text \<open>Where a fresh, cleared table \<open>c\<close> is hung below entry \<open>i\<close> of the table at path \<open>p\<close>.\<close>

definition new_table ::
  "u64 set \<Rightarrow> memory \<Rightarrow> memory \<Rightarrow> u64 \<Rightarrow> u64 list \<Rightarrow> u64 \<Rightarrow> u64 \<Rightarrow> u64 \<Rightarrow> bool" where
  "new_table R m m' r p i t c \<longleftrightarrow>
     pt_tree R m \<and> r \<in> R \<and> path (p @ [i]) \<and> table_at m r p = Some t
     \<and> \<not> present (load64 m (tbl_entry t i)) \<and> c \<notin> tables R m \<and> page_aligned c
     \<and> present (load64 m' (tbl_entry t i)) \<and> next_table m' t i = c
     \<and> (\<forall>u \<in> tables R m. \<forall>j. j < 512 \<and> (u \<noteq> t \<or> j \<noteq> i) \<longrightarrow>
          load64 m' (tbl_entry u j) = load64 m (tbl_entry u j))
     \<and> (\<forall>j. j < 512 \<longrightarrow> load64 m' (tbl_entry c j) = 0)"

lemma new_tableD:
  assumes "new_table R m m' r p i t c"
  shows "pt_tree R m" and "r \<in> R" and "path (p @ [i])" and "table_at m r p = Some t"
    and "c \<notin> tables R m" and "page_aligned c"
    and "present (load64 m' (tbl_entry t i))" and "next_table m' t i = c"
    and "u \<in> tables R m \<Longrightarrow> j < 512 \<Longrightarrow> u \<noteq> t \<or> j \<noteq> i \<Longrightarrow>
      load64 m' (tbl_entry u j) = load64 m (tbl_entry u j)"
    and "j < 512 \<Longrightarrow> load64 m' (tbl_entry c j) = 0"
    and "table_at m r (p @ [i]) = None"
  using assms unfolding new_table_def by (blast, blast, blast, blast, blast, blast, blast, blast,
    blast, blast, simp add: table_at_snoc table_step_def)

lemma new_table_at:
  assumes nt: "new_table R m m' r p i t c"
  shows "r' \<in> R \<Longrightarrow> path q \<Longrightarrow>
    table_at m' r' q = (if r' = r \<and> q = p @ [i] then Some c else table_at m r' q)"
proof (induction q rule: rev_induct)
  case Nil
  then show ?case by simp
next
  case (snoc j q)
  have q: "path q" "j < 512" using path_prefix [OF snoc.prems(2)] by auto
  have IH: "table_at m' r' q = (if r' = r \<and> q = p @ [i] then Some c else table_at m r' q)"
    using snoc q by blast
  show ?case
  proof (cases "r' = r \<and> q = p @ [i]")
    case True
    then have "table_at m' r' q = Some c" using IH by simp
    then have "table_at m' r' (q @ [j]) = None" using new_tableD(10) [OF nt, OF q(2)]
      unfolding table_at_snoc by (simp add: table_step_def)
    moreover have "table_at m r' (q @ [j]) = None"
      using True new_tableD(11) [OF nt] unfolding table_at_snoc [of m r' q] by (simp add: table_step_def)
    ultimately show ?thesis using True by simp
  next
    case False
    show ?thesis
    proof (cases "table_at m r' q")
      case None
      then have "\<not> (r' = r \<and> q = p)" using new_tableD(4) [OF nt] by auto
      then have "\<not> (r' = r \<and> q @ [j] = p @ [i])" by auto
      then show ?thesis using None IH False by (auto simp: table_at_snoc table_step_def)
    next
      case (Some u)
      have u: "u \<in> tables R m" by (rule tables_I [OF snoc.prems(1) q(1) Some])
      show ?thesis
      proof (cases "u = t \<and> j = i")
        case True
        have "r' = r" "q = p"
          using pt_tree_inj [OF new_tableD(1) [OF nt] snoc.prems(1) new_tableD(2) [OF nt] q(1) _ Some] True new_tableD(4) [OF nt] path_prefix [OF new_tableD(3) [OF nt]] by auto
        then show ?thesis using True IH False Some new_tableD(7,8) [OF nt] by (simp add: table_at_snoc table_step_def)
      next
        case ne: False
        have "load64 m' (tbl_entry u j) = load64 m (tbl_entry u j)" using new_tableD(9) [OF nt] u q(2) ne by blast
        moreover have "\<not> (r' = r \<and> q @ [j] = p @ [i])" using ne Some new_tableD(4) [OF nt] by auto
        ultimately show ?thesis using False Some IH by (auto simp: table_at_snoc table_step_def next_table_def)
      qed
    qed
  qed
qed

lemma new_table_tables:
  assumes nt: "new_table R m m' r p i t c"
  shows "tables R m' = insert c (tables R m)"
proof (intro set_eqI iffI)
  fix u assume "u \<in> tables R m'"
  then obtain r' q where "r' \<in> R" "path q" "table_at m' r' q = Some u" by (auto simp: tables_def)
  then show "u \<in> insert c (tables R m)" using new_table_at [OF nt, of r' q] by (auto intro: tables_I split: if_splits)
next
  fix u assume u: "u \<in> insert c (tables R m)"
  show "u \<in> tables R m'"
  proof (cases "u = c")
    case True
    then show ?thesis using new_table_at [OF nt, OF new_tableD(2) [OF nt] new_tableD(3) [OF nt]] new_tableD(2) [OF nt] new_tableD(3) [OF nt] by (auto intro: tables_I)
  next
    case False
    then obtain r' q where q: "r' \<in> R" "path q" "table_at m r' q = Some u" using u by (auto simp: tables_def)
    then have "\<not> (r' = r \<and> q = p @ [i])" using new_tableD(11) [OF nt] by auto
    then show ?thesis using new_table_at [OF nt, OF q(1,2)] q by (auto intro: tables_I)
  qed
qed

lemma new_table_tree:
  assumes nt: "new_table R m m' r p i t c"
  shows "pt_tree R m'"
  unfolding pt_tree_def new_table_tables [OF nt]
proof (intro conjI ballI allI impI)
  fix u assume "u \<in> insert c (tables R m)"
  then show "page_aligned u" using new_tableD(6) [OF nt] pt_tree_aligned [OF new_tableD(1) [OF nt]] by auto
next
  fix r1 r2 q1 q2 u
  assume R: "r1 \<in> R" "r2 \<in> R"
    and h: "path q1 \<and> path q2 \<and> table_at m' r1 q1 = Some u \<and> table_at m' r2 q2 = Some u"
  have a1: "table_at m' r1 q1 = (if r1 = r \<and> q1 = p @ [i] then Some c else table_at m r1 q1)"
    and a2: "table_at m' r2 q2 = (if r2 = r \<and> q2 = p @ [i] then Some c else table_at m r2 q2)"
    using new_table_at [OF nt] R h by blast+
  have "u = c \<longleftrightarrow> r1 = r \<and> q1 = p @ [i]"
    using a1 h R(1) new_tableD(5) [OF nt] by (auto split: if_splits intro: tables_I)
  moreover have "u = c \<longleftrightarrow> r2 = r \<and> q2 = p @ [i]"
    using a2 h R(2) new_tableD(5) [OF nt] by (auto split: if_splits intro: tables_I)
  moreover have "r1 = r2 \<and> q1 = q2" if "table_at m r1 q1 = Some u" "table_at m r2 q2 = Some u"
    using pt_tree_inj [OF new_tableD(1) [OF nt] R _ _ that] h by blast
  ultimately show "r1 = r2" "q1 = q2" using a1 a2 h by (metis (full_types))+
qed

lemma new_table_entry:
  assumes nt: "new_table R m m' r p i t c" and "r' \<in> R"
  shows "mmu_entry m' r' va = mmu_entry m r' va"
proof (cases "r' = r \<and> va_path va = p @ [i]")
  case True
  then show ?thesis
    using new_table_at [OF nt, OF assms(2) va_path_path, of va] new_tableD(11) [OF nt] new_tableD(10) [OF nt, OF index_bound(4)]
    by (simp add: mmu_entry_def)
next
  case False
  have a: "table_at m' r' (va_path va) = table_at m r' (va_path va)"
    by (rule new_table_at [OF nt, OF assms(2) va_path_path, of va, unfolded if_not_P [OF False]])
  show ?thesis
  proof (cases "table_at m r' (va_path va)")
    case (Some u)
    have u: "u \<in> tables R m" by (rule tables_I [OF assms(2) va_path_path Some])
    have "u \<noteq> t"
    proof
      assume "u = t"
      then have "va_path va = p"
        using pt_tree_inj(2) [OF new_tableD(1) [OF nt] assms(2) new_tableD(2) [OF nt] va_path_path _ Some] new_tableD(4) [OF nt] path_prefix [OF new_tableD(3) [OF nt]] by auto
      then show False using new_tableD(3) [OF nt] va_path_length [of va] by (simp add: path_snoc)
    qed
    then have "load64 m' (tbl_entry u (PT_INDEX va)) = load64 m (tbl_entry u (PT_INDEX va))"
      using new_tableD(9) [OF nt, OF u index_bound(4)] by blast
    then show ?thesis by (simp add: mmu_entry_def a Some)
  qed (simp add: mmu_entry_def a)
qed

section \<open>One level of the walk\<close>

text \<open>The pages the page-table code may write: the tables, and the free pages that may become one.\<close>

definition mmu_pages :: "u64 set \<Rightarrow> 'a pmm_state_scheme \<Rightarrow> u64 set" where
  "mmu_pages R s = tables R (mem s) \<union> DM_P2V ` free_pages s"

definition mmu_untouched :: "u64 set \<Rightarrow> 'a pmm_state_scheme \<Rightarrow> u64 \<Rightarrow> bool" where
  "mmu_untouched R s x \<longleftrightarrow>
     outside_bitmaps (pmap s) x \<and> (\<forall>t \<in> mmu_pages R s. \<not> page_bytes t x)"

lemma mmu_invD:
  assumes "mmu_inv R s"
  shows "pmm_inv s" and "pt_tree R (mem s)"
    and "t \<in> tables R (mem s) \<Longrightarrow> t \<notin> DM_P2V ` free_pages s"
    and "t \<in> tables R (mem s) \<Longrightarrow> page_bytes t x \<Longrightarrow> outside_bitmaps (pmap s) x"
    and "q \<in> free_pages s \<Longrightarrow> page_bytes (DM_P2V q) x \<Longrightarrow> outside_bitmaps (pmap s) x"
    and "t \<in> tables R (mem s) \<Longrightarrow> page_aligned t"
proof -
  show "pmm_inv s" "pt_tree R (mem s)" using assms by (simp_all add: mmu_inv_def)
  show "t \<notin> DM_P2V ` free_pages s" if "t \<in> tables R (mem s)"
    using assms that by (simp add: mmu_inv_def)
  show "outside_bitmaps (pmap s) x" if "t \<in> tables R (mem s)" "page_bytes t x"
    using assms that by (simp add: mmu_inv_def off_bitmaps_def)
  show "outside_bitmaps (pmap s) x" if "q \<in> free_pages s" "page_bytes (DM_P2V q) x"
    using assms that by (simp add: mmu_inv_def off_bitmaps_def)
  show "page_aligned t" if "t \<in> tables R (mem s)"
    using assms that by (simp add: mmu_inv_def pt_tree_def)
qed

lemma mmu_pages_off_bitmaps:
  assumes "mmu_inv R s" and "t \<in> mmu_pages R s" and "page_bytes t x"
  shows "outside_bitmaps (pmap s) x"
  using assms mmu_invD(4,5) [OF assms(1)] unfolding mmu_pages_def by blast

lemma store_entry_other:
  assumes "page_aligned t" and "i < 512" and "\<not> page_bytes t x"
  shows "store64 m (tbl_entry t i) v x = m x"
proof -
  have "page_bytes t (tbl_entry t i + (x - tbl_entry t i))" if "x - tbl_entry t i < 8"
    using entry_bytes [OF assms(1,2) that] .
  then have "\<not> x - tbl_entry t i < 8" using assms(3) by auto
  then show ?thesis by (simp add: store64_apply)
qed

lemma memset_page: "memset m c 0 PAGE_SIZE_IN_BYTES x = (if page_bytes c x then 0 else m x)"
  by (simp add: memset_apply page_bytes_def const_defs)

lemma fresh_new_table:
  assumes inv: "mmu_inv R s" and r: "r \<in> R" and p: "path (p @ [i])"
    and at: "table_at (mem s) r p = Some t" and absent: "\<not> present (load64 (mem s) (tbl_entry t i))"
    and perm: "unat perm < 4096" and q: "q \<in> free_pages s" "page_aligned q"
    and m0: "\<And>x. outside_bitmaps (pmap s) x \<Longrightarrow> m0 x = mem s x"
    and m2: "m2 = store64 (memset m0 (DM_P2V q) 0 PAGE_SIZE_IN_BYTES) (tbl_entry t i)
      (q OR PAGE_PRESENT OR perm)"
  shows "new_table R (mem s) m2 r p i t (DM_P2V q)"
proof -
  let ?c = "DM_P2V q" and ?m1 = "memset m0 (DM_P2V q) 0 PAGE_SIZE_IN_BYTES"
  note tree = mmu_invD(2) [OF inv] and ix = path_prefix [OF p]
  have t: "t \<in> tables R (mem s)" using r at ix by (auto intro: tables_I)
  note alt = mmu_invD(6) [OF inv t]
  have c: "page_aligned ?c" by (rule DM_P2V_aligned [OF q(2)])
  have cf: "?c \<notin> tables R (mem s)" using mmu_invD(3) [OF inv] q(1) by blast
  have e: "load64 m2 (tbl_entry t i) = q OR PAGE_PRESENT OR perm" by (simp add: m2)
  have old: "load64 m2 (tbl_entry u j) = load64 (mem s) (tbl_entry u j)"
    if "u \<in> tables R (mem s)" "j < 512" "u \<noteq> t \<or> j \<noteq> i" for u j
  proof -
    note alu = mmu_invD(6) [OF inv that(1)]
    have "load64 m2 (tbl_entry u j) = load64 ?m1 (tbl_entry u j)"
      unfolding m2 by (rule load64_store64_other)
        (rule entries_disjoint [OF alt alu], use ix that in auto)
    also have "\<dots> = load64 (mem s) (tbl_entry u j)"
    proof (rule load_entry_cong [OF alu that(2)])
      fix x assume x: "page_bytes u x"
      have "u \<noteq> ?c" using cf that(1) by blast
      then have "\<not> page_bytes ?c x" using pages_bytes_disjoint [OF alu c] x by blast
      then show "?m1 x = mem s x" using m0 mmu_invD(4) [OF inv that(1) x] by (simp add: memset_page)
    qed
    finally show ?thesis .
  qed
  have "load64 m2 (tbl_entry ?c j) = 0" if "j < 512" for j
  proof -
    have "t \<noteq> ?c" using cf t by blast
    then have "load64 m2 (tbl_entry ?c j) = load64 ?m1 (tbl_entry ?c j)"
      unfolding m2 using ix that by (intro load64_store64_other entries_disjoint [OF alt c]) auto
    also have "\<dots> = 0" by (rule load64_zero) (simp add: memset_page entry_bytes [OF c that])
    finally show ?thesis .
  qed
  then show ?thesis
    using tree r p at absent cf c old fresh_entry [OF q(2) perm] e
    unfolding new_table_def next_table_def by auto
qed

lemma ensure_table_spec:
  assumes inv: "mmu_inv R s" and r: "r \<in> R" and p: "path (p @ [i])"
    and at: "table_at (mem s) r p = Some t" and perm: "unat perm < 4096"
    and run: "ensure_table s t i perm = Inr (c, s')"
  shows "mmu_inv R s' \<and> table_at (mem s') r (p @ [i]) = Some c \<and> s' = s\<lparr>mem := mem s'\<rparr>
    \<and> (\<forall>r' \<in> R. \<forall>va. mmu_entry (mem s') r' va = mmu_entry (mem s) r' va)
    \<and> mmu_pages R s' \<subseteq> mmu_pages R s \<and> (\<forall>x. mmu_untouched R s x \<longrightarrow> mem s' x = mem s x)
    \<and> free_pages s' \<subseteq> free_pages s"
proof (cases "present (load64 (mem s) (tbl_entry t i))")
  case True
  then have "s' = s" "c = next_table (mem s) t i" using run by (auto simp: ensure_table_def)
  then show ?thesis using inv at True by (simp add: table_at_snoc table_step_def)
next
  case False
  then obtain q s1 where x: "pmm_xalloc s = Inr (q, s1)" and s': "s' = s1\<lparr>mem := mem s'\<rparr>"
    and m2: "mem s' = store64 (memset (mem s1) (DM_P2V q) 0 PAGE_SIZE_IN_BYTES) (tbl_entry t i)
      (q OR PAGE_PRESENT OR perm)" and c: "c = next_table (mem s') t i"
    using run by (auto simp: ensure_table_def bindR_Inr_iff Let_def)
  have a: "pmm_alloc s = Inr (q, s1)" "q \<noteq> 0" using x by (auto simp: pmm_xalloc_Inr)
  note al = pmm_alloc_spec [OF mmu_invD(1) [OF inv] a(1)]
  have q: "q \<in> free_pages s" "page_aligned q" using pg.alloc_cases [OF mmu_invD(1) [OF inv] a(1)] a(2) by auto
  obtain m0 where s1: "s1 = s\<lparr>mem := m0\<rparr>" using al(5) by blast
  have m0: "m0 x = mem s x" if "outside_bitmaps (pmap s) x" for x using al(6) [OF that] by (simp add: s1)
  have nt: "new_table R (mem s) (mem s') r p i t (DM_P2V q)"
    by (rule fresh_new_table [OF inv r p at False perm q m0]) (use m2 in \<open>simp_all add: s1\<close>)
  have tin: "t \<in> tables R (mem s)" using r at path_prefix [OF p] by (auto intro: tables_I)
  note tb = new_table_tables [OF nt]
  have keep: "mem s' x = m0 x" if "\<not> page_bytes t x" "\<not> page_bytes (DM_P2V q) x" for x
    using that path_prefix [OF p] unfolding m2
    by (simp add: store_entry_other [OF mmu_invD(6) [OF inv tin]] memset_page s1)
  have "free_pages (s1\<lparr>mem := mem s'\<rparr>) = free_pages s1"
  proof (rule free_pages_frame [OF al(1)])
    fix x assume "\<not> outside_bitmaps (pmap s1) x"
    then have "\<not> page_bytes t x" "\<not> page_bytes (DM_P2V q) x"
      using mmu_invD(4) [OF inv tin] mmu_invD(5) [OF inv q(1)] by (auto simp: s1)
    then show "mem s' x = mem s1 x" using keep by (simp add: s1)
  qed
  then have fr: "free_pages s' = free_pages s - {q}" using s' al(2) by metis
  have pm: "pmap s' = pmap s" by (subst s') (simp add: s1)
  have "pmm_inv s'" using mmu_invD(1) [OF inv] by (simp add: pmm_inv_def pm)
  moreover have "\<forall>u \<in> tables R (mem s'). u \<notin> DM_P2V ` free_pages s' \<and> off_bitmaps s' u"
    using inv q(1) unfolding tb fr mmu_inv_def off_bitmaps_def pm by (auto simp: DM_P2V_inj)
  moreover have "\<forall>u \<in> free_pages s'. off_bitmaps s' (DM_P2V u)"
    using inv unfolding fr mmu_inv_def off_bitmaps_def pm by auto
  ultimately have "mmu_inv R s'" using new_table_tree [OF nt] by (simp add: mmu_inv_def)
  moreover have "table_at (mem s') r (p @ [i]) = Some c"
    using new_table_at [OF nt r p] c new_tableD(8) [OF nt] by simp
  moreover have "s' = s\<lparr>mem := mem s'\<rparr>" by (subst s') (simp add: s1)
  moreover have "\<forall>r' \<in> R. \<forall>va. mmu_entry (mem s') r' va = mmu_entry (mem s) r' va"
    using new_table_entry [OF nt] by blast
  moreover have "mmu_pages R s' \<subseteq> mmu_pages R s" unfolding mmu_pages_def tb fr using q(1) by auto
  moreover have "\<forall>x. mmu_untouched R s x \<longrightarrow> mem s' x = mem s x"
    using keep m0 tin q(1) unfolding mmu_untouched_def mmu_pages_def by (metis UnI1 UnI2 imageI)
  moreover have "free_pages s' \<subseteq> free_pages s" using fr by blast
  ultimately show ?thesis by blast
qed

section \<open>Mapping a page\<close>

lemma translate_table:
  "mmu_translate_4k m r va =
     (case table_at m r (va_path va) of None \<Rightarrow> NOT 0
      | Some pt \<Rightarrow> PAGE_ADDR (load64 m (tbl_entry pt (PT_INDEX va))) PAGE_SIZE_IN_BYTES
          OR (va AND (PAGE_SIZE_IN_BYTES - 1)))"
  by (simp add: mmu_translate_4k_def Let_def va_path_def table_at_def table_step_def)

lemma perm_wo_g_low:
  fixes perm g :: u64
  assumes "unat perm < 4096"
  shows "unat (perm AND g) < 4096"
proof -
  have "take_bit 12 perm = perm"
    using and_mask_unat [of perm 12] assms by (simp add: take_bit_eq_mask word_unat_eq_iff)
  then have "perm AND g = (perm AND g) AND mask 12" by (metis take_bit_eq_mask and.assoc and.commute)
  then have "unat (perm AND g) = unat (perm AND g) mod 2 ^ 12" by (metis and_mask_unat)
  also have "\<dots> < 2 ^ 12" by (rule mod_less_divisor) simp
  finally show ?thesis by simp
qed

lemma leaf_write:
  assumes inv: "mmu_inv R s" and r: "r \<in> R" and at: "table_at (mem s) r (va_path va) = Some pt"
    and s': "s' = s\<lparr>mem := store64 (mem s) (tbl_entry pt (PT_INDEX va)) v\<rparr>"
  shows "mmu_inv R s'"
    and "r' \<in> R \<Longrightarrow> mmu_entry (mem s') r' va' =
      (if r' = r \<and> same_page va' va then v else mmu_entry (mem s) r' va')"
    and "mmu_pages R s' = mmu_pages R s"
    and "mmu_untouched R s x \<Longrightarrow> mem s' x = mem s x"
    and "table_at (mem s') r (va_path va) = Some pt"
proof -
  let ?m = "mem s" and ?m' = "mem s'"
  note tree = mmu_invD(2) [OF inv]
  have pt: "pt \<in> tables R ?m" by (rule tables_I [OF r va_path_path at])
  note alp = mmu_invD(6) [OF inv pt]
  have m': "?m' = store64 ?m (tbl_entry pt (PT_INDEX va)) v" by (simp add: s')
  have other: "load64 ?m' (tbl_entry u j) = load64 ?m (tbl_entry u j)"
    if "u \<in> tables R ?m" "j < 512" "u \<noteq> pt \<or> j \<noteq> PT_INDEX va" for u j
    unfolding m' by (rule load64_store64_other)
      (rule entries_disjoint [OF alp mmu_invD(6) [OF inv that(1)] index_bound(4) that(2)], use that in auto)
  have tb: "table_at ?m' r1 q = table_at ?m r1 q" if r1: "r1 \<in> R" and q: "path q" for r1 q
  proof (rule table_at_cong [OF _ q])
    fix u w i assume w: "path (w @ [i])" "table_at ?m r1 w = Some u"
    have "w \<noteq> va_path va" using w(1) va_path_length [of va] by (auto simp: path_snoc)
    then have "u \<noteq> pt"
      using pt_tree_inj(2) [OF tree r1 r _ va_path_path w(2)] at path_prefix [OF w(1)] by blast
    then show "load64 ?m' (tbl_entry u i) = load64 ?m (tbl_entry u i)"
      using other [of u i] tables_I [OF r1 _ w(2)] path_prefix [OF w(1)] by blast
  qed
  have tc: "tables R ?m' = tables R ?m" "pt_tree R ?m' = pt_tree R ?m"
    by (rule tables_cong, rule tb, assumption+)+
  show "table_at ?m' r (va_path va) = Some pt" using tb [OF r va_path_path] at by simp
  have keep: "?m' x = ?m x" if "\<not> page_bytes pt x" for x
    unfolding m' by (rule store_entry_other [OF alp index_bound(4) that])
  have fr: "free_pages s' = free_pages s"
    unfolding s' by (rule free_pages_frame [OF mmu_invD(1) [OF inv]])
      (use keep mmu_invD(4) [OF inv pt] m' in metis)
  have pm: "pmap s' = pmap s" by (simp add: s')
  show "mmu_inv R s'"
    using inv unfolding mmu_inv_def tc fr pmm_inv_def off_bitmaps_def pm by simp
  show "mmu_pages R s' = mmu_pages R s" by (simp add: mmu_pages_def tc fr)
  show "?m' x = ?m x" if "mmu_untouched R s x"
    using that pt keep unfolding mmu_untouched_def mmu_pages_def by blast
  show "mmu_entry ?m' r' va' = (if r' = r \<and> same_page va' va then v else mmu_entry ?m r' va')"
    if r': "r' \<in> R"
  proof (cases "table_at ?m r' (va_path va')")
    case None
    then have "\<not> (r' = r \<and> same_page va' va)" using at by (auto simp: same_page_def)
    then show ?thesis using None tb [OF r' va_path_path, of va'] by (auto simp: mmu_entry_def)
  next
    case (Some u)
    have u: "u \<in> tables R ?m" by (rule tables_I [OF r' va_path_path Some])
    have e: "mmu_entry ?m' r' va' = load64 ?m' (tbl_entry u (PT_INDEX va'))"
      "mmu_entry ?m r' va' = load64 ?m (tbl_entry u (PT_INDEX va'))"
      using Some tb [OF r' va_path_path, of va'] by (simp_all add: mmu_entry_def)
    show ?thesis
    proof (cases "u = pt \<and> PT_INDEX va' = PT_INDEX va")
      case True
      then have "r' = r" "va_path va' = va_path va"
        using pt_tree_inj [OF tree r' r va_path_path va_path_path Some] at by auto
      then show ?thesis using True e by (simp add: same_page_def m')
    next
      case False
      then have "\<not> (r' = r \<and> same_page va' va)" using Some at by (auto simp: same_page_def)
      then show ?thesis using other [OF u index_bound(4)] False e by auto
    qed
  qed
qed

lemma leaf_write_free:
  assumes inv: "mmu_inv R s" and r: "r \<in> R" and at: "table_at (mem s) r (va_path va) = Some pt"
    and s': "s' = s\<lparr>mem := store64 (mem s) (tbl_entry pt (PT_INDEX va)) v\<rparr>"
  shows "free_pages s' = free_pages s" and "tables R (mem s') = tables R (mem s)"
proof -
  have pt: "pt \<in> tables R (mem s)" by (rule tables_I [OF r va_path_path at])
  show fr: "free_pages s' = free_pages s"
    unfolding s' by (rule free_pages_frame [OF mmu_invD(1) [OF inv]])
      (use store_entry_other [OF mmu_invD(6) [OF inv pt] index_bound(4)] mmu_invD(4) [OF inv pt] in blast)
  note lw = leaf_write [OF inv r at s']
  have "tables R (mem s') \<inter> DM_P2V ` free_pages s' = {}" "tables R (mem s) \<inter> DM_P2V ` free_pages s = {}"
    using mmu_invD(3) [OF lw(1)] mmu_invD(3) [OF inv] by blast+
  moreover have "A = B" if "A \<union> F = B \<union> F" "A \<inter> F = {}" "B \<inter> F = {}" for A B F :: "u64 set"
    using that by blast
  ultimately show "tables R (mem s') = tables R (mem s)"
    using lw(3) unfolding mmu_pages_def fr by metis
qed

lemma map_page_in_spec:
  assumes inv: "mmu_inv R s" and r: "r \<in> R" and perm: "unat perm < 4096"
    and run: "map_page_in s r va pa perm = Inr (old, s')"
  shows "mmu_inv R s' \<and> old = mmu_entry (mem s) r va \<and> s' = s\<lparr>mem := mem s'\<rparr>
    \<and> (\<forall>r' \<in> R. \<forall>va'. mmu_entry (mem s') r' va' =
         (if r' = r \<and> same_page va' va then pa OR perm else mmu_entry (mem s) r' va'))
    \<and> (\<exists>pt. table_at (mem s') r (va_path va) = Some pt)
    \<and> mmu_pages R s' \<subseteq> mmu_pages R s \<and> (\<forall>x. mmu_untouched R s x \<longrightarrow> mem s' x = mem s x)
    \<and> free_pages s' \<subseteq> free_pages s"
proof -
  let ?pw = "perm AND NOT PAGE_GLOBAL"
  note pw = perm_wo_g_low [OF perm, of "NOT PAGE_GLOBAL"]
  let ?p1 = "[] :: u64 list" and ?p2 = "[PML4E_INDEX va]" and ?p3 = "[PML4E_INDEX va, PDPT_INDEX va]"
  from run obtain t1 s1 t2 s2 pt s3 where
    e1: "ensure_table s r (PML4E_INDEX va) ?pw = Inr (t1, s1)" and
    e2: "ensure_table s1 t1 (PDPT_INDEX va) ?pw = Inr (t2, s2)" and
    e3: "ensure_table s2 t2 (PDT_INDEX va) ?pw = Inr (pt, s3)" and
    old: "old = load64 (mem s3) (tbl_entry pt (PT_INDEX va))" and
    s': "s' = s3\<lparr>mem := store64 (mem s3) (tbl_entry pt (PT_INDEX va)) (pa OR perm)\<rparr>"
    by (auto simp: map_page_in_def bindR_Inr_iff Let_def)
  have paths: "path (?p1 @ [PML4E_INDEX va])" "path (?p2 @ [PDPT_INDEX va])" "path (?p3 @ [PDT_INDEX va])"
    by (simp_all add: path_def index_bound)
  note f1 = ensure_table_spec [OF inv r paths(1) _ pw e1]
  have i1: "mmu_inv R s1" "table_at (mem s1) r ?p2 = Some t1" using f1 by simp_all
  note f2 = ensure_table_spec [OF i1(1) r paths(2) i1(2) pw e2]
  have i2: "mmu_inv R s2" "table_at (mem s2) r ?p3 = Some t2" using f2 by simp_all
  note f3 = ensure_table_spec [OF i2(1) r paths(3) i2(2) pw e3]
  have i3: "mmu_inv R s3" "table_at (mem s3) r (va_path va) = Some pt" using f3 by (simp_all add: va_path_def)
  note lw = leaf_write [OF i3(1) r i3(2) s']
  have ent: "mmu_entry (mem s3) r' va' = mmu_entry (mem s) r' va'" if "r' \<in> R" for r' va'
    using f1 f2 f3 that by simp
  have pgs: "mmu_pages R s3 \<subseteq> mmu_pages R s2" "mmu_pages R s2 \<subseteq> mmu_pages R s1"
    "mmu_pages R s1 \<subseteq> mmu_pages R s" using f1 f2 f3 by simp_all
  have upd: "s1 = s\<lparr>mem := mem s1\<rparr>" "s2 = s1\<lparr>mem := mem s2\<rparr>" "s3 = s2\<lparr>mem := mem s3\<rparr>"
    using f1 f2 f3 by simp_all
  have pm: "pmap s1 = pmap s" "pmap s2 = pmap s" "pmap s3 = pmap s"
    by (subst upd, simp)+ 
  have un: "mmu_untouched R s1 x" "mmu_untouched R s2 x" "mmu_untouched R s3 x"
    if "mmu_untouched R s x" for x
    using that pgs unfolding mmu_untouched_def pm by blast+
  have "mem s' x = mem s x" if "mmu_untouched R s x" for x
    using lw(4) [OF un(3) [OF that]] f1 f2 f3 un [OF that] that by simp
  moreover have "old = mmu_entry (mem s) r va"
    using ent [OF r, of va] i3(2) by (simp add: mmu_entry_def old)
  moreover have "s' = s\<lparr>mem := mem s'\<rparr>"
    by (subst s', subst upd(3), subst upd(2), subst upd(1)) (simp add: s')
  moreover have "\<exists>pt. table_at (mem s') r (va_path va) = Some pt"
    using lw(5) by blast
  moreover have "free_pages s' \<subseteq> free_pages s"
    using leaf_write_free(1) [OF i3(1) r i3(2) s'] f1 f2 f3 by auto
  ultimately show ?thesis using lw(1,2,3) ent pgs by auto
qed

text \<open>Three free pages are always enough to map one.\<close>

lemma ensure_table_total:
  assumes inv: "mmu_inv R s" and r: "r \<in> R" and p: "path (p @ [i])"
    and at: "table_at (mem s) r p = Some t" and room: "pmm_room s (Suc k)"
  shows "\<exists>c s'. ensure_table s t i perm = Inr (c, s') \<and> pmm_room s' k"
proof (cases "present (load64 (mem s) (tbl_entry t i))")
  case True
  then show ?thesis using pmm_room_mono [OF room, of k] by (simp add: ensure_table_def)
next
  case False
  obtain q s1 where x: "pmm_xalloc s = Inr (q, s1)" "pmm_room s1 k"
    using pmm_room_xalloc [OF mmu_invD(1) [OF inv] room] by blast
  have a: "pmm_alloc s = Inr (q, s1)" "q \<noteq> 0" using x by (auto simp: pmm_xalloc_Inr)
  note al = pmm_alloc_spec [OF mmu_invD(1) [OF inv] a(1)]
  have q: "q \<in> free_pages s" using al(4) a(2) by blast
  have t: "t \<in> tables R (mem s)" using r at path_prefix [OF p] by (auto intro: tables_I)
  let ?m = "store64 (memset (mem s1) (DM_P2V q) 0 PAGE_SIZE_IN_BYTES) (tbl_entry t i)
      (q OR PAGE_PRESENT OR perm)"
  have pm: "pmap s1 = pmap s" using al(5) by auto
  have "pmm_room (s1\<lparr>mem := ?m\<rparr>) k"
  proof (rule pmm_room_frame [OF al(1) _ x(2)])
    fix x assume "\<not> outside_bitmaps (pmap s1) x"
    then have n: "\<not> page_bytes t x" "\<not> page_bytes (DM_P2V q) x"
      using mmu_invD(4) [OF inv t] mmu_invD(5) [OF inv q] unfolding pm by blast+
    show "?m x = mem s1 x"
      using n path_prefix [OF p] by (simp add: store_entry_other [OF mmu_invD(6) [OF inv t]] memset_page)
  qed
  then show ?thesis using False x(1) by (simp add: ensure_table_def Let_def)
qed

lemma map_page_in_total:
  assumes inv: "mmu_inv R s" and r: "r \<in> R" and perm: "unat perm < 4096" and room: "pmm_room s (k + 3)"
  shows "\<exists>old s'. map_page_in s r va pa perm = Inr (old, s') \<and> pmm_room s' k"
proof -
  let ?pw = "perm AND NOT PAGE_GLOBAL"
  note pw = perm_wo_g_low [OF perm, of "NOT PAGE_GLOBAL"]
  let ?p1 = "[] :: u64 list" and ?p2 = "[PML4E_INDEX va]" and ?p3 = "[PML4E_INDEX va, PDPT_INDEX va]"
  have paths: "path (?p1 @ [PML4E_INDEX va])" "path (?p2 @ [PDPT_INDEX va])" "path (?p3 @ [PDT_INDEX va])"
    by (simp_all add: path_def index_bound)
  have rm: "pmm_room s (Suc (k + 2))" using room by (simp add: eval_nat_numeral)
  obtain t1 s1 where e1: "ensure_table s r (PML4E_INDEX va) ?pw = Inr (t1, s1)" "pmm_room s1 (k + 2)"
    using ensure_table_total [OF inv r paths(1) table_at_Nil rm] by blast
  have i1: "mmu_inv R s1" "table_at (mem s1) r ?p2 = Some t1"
    using ensure_table_spec [OF inv r paths(1) _ pw e1(1)] by simp_all
  have rm1: "pmm_room s1 (Suc (k + 1))" using e1(2) by simp
  obtain t2 s2 where e2: "ensure_table s1 t1 (PDPT_INDEX va) ?pw = Inr (t2, s2)" "pmm_room s2 (k + 1)"
    using ensure_table_total [OF i1(1) r paths(2) i1(2) rm1] by blast
  have i2: "mmu_inv R s2" "table_at (mem s2) r ?p3 = Some t2"
    using ensure_table_spec [OF i1(1) r paths(2) i1(2) pw e2(1)] by simp_all
  have rm2: "pmm_room s2 (Suc k)" using e2(2) by simp
  obtain pt s3 where e3: "ensure_table s2 t2 (PDT_INDEX va) ?pw = Inr (pt, s3)" "pmm_room s3 k"
    using ensure_table_total [OF i2(1) r paths(3) i2(2) rm2] by blast
  have i3: "mmu_inv R s3" "table_at (mem s3) r (va_path va) = Some pt"
    using ensure_table_spec [OF i2(1) r paths(3) i2(2) pw e3(1)] by (simp_all add: va_path_def)
  have pt: "pt \<in> tables R (mem s3)" by (rule tables_I [OF r va_path_path i3(2)])
  have "pmm_room (s3\<lparr>mem := store64 (mem s3) (tbl_entry pt (PT_INDEX va)) (pa OR perm)\<rparr>) k"
    by (rule pmm_room_frame [OF mmu_invD(1) [OF i3(1)] _ e3(2)])
      (use store_entry_other [OF mmu_invD(6) [OF i3(1) pt] index_bound(4)] mmu_invD(4) [OF i3(1) pt] in blast)
  then show ?thesis using e1(1) e2(1) e3(1) by (simp add: map_page_in_def Let_def)
qed

section \<open>Pages and virtual addresses\<close>

lemma bit_index:
  "bit (drop_bit k (va :: u64) AND 0x1ff) n \<longleftrightarrow> n < 9 \<and> bit va (k + n)"
proof -
  have m: "(0x1ff :: u64) = mask 9" by (simp add: mask_eq_decr_exp)
  show ?thesis unfolding m by (auto simp: bit_and_iff bit_mask_iff bit_drop_bit_eq)
qed

lemma same_page_iff:
  "same_page va va' \<longleftrightarrow> (unat va div 4096) mod 2 ^ 36 = (unat va' div 4096) mod 2 ^ 36"
proof -
  have u: "unat (take_bit 36 (drop_bit 12 v)) = (unat v div 4096) mod 2 ^ 36" for v :: u64
  proof -
    have "unat (take_bit 36 (drop_bit 12 v)) = take_bit 36 (unat (drop_bit 12 v))"
      by (rule unsigned_take_bit_eq)
    also have "unat (drop_bit 12 v) = unat v div 2 ^ 12"
      unfolding unat_drop_bit_eq by (rule drop_bit_eq_div)
    finally show ?thesis by (simp add: take_bit_eq_mod)
  qed
  have "same_page va va' \<longleftrightarrow> take_bit 36 (drop_bit 12 va) = take_bit 36 (drop_bit 12 va')"
  proof
    assume sp: "same_page va va'"
    show "take_bit 36 (drop_bit 12 va) = take_bit 36 (drop_bit 12 va')"
    proof (rule bit_word_eqI)
      fix n :: nat
      have b: "bit va (k + j) = bit va' (k + j)"
        if "drop_bit k va AND 0x1ff = drop_bit k va' AND 0x1ff" "j < 9" for k j
        using bit_index [of k va j] bit_index [of k va' j] that by simp
      from sp have e: "drop_bit 39 va AND 0x1ff = drop_bit 39 va' AND 0x1ff"
        "drop_bit 30 va AND 0x1ff = drop_bit 30 va' AND 0x1ff"
        "drop_bit 21 va AND 0x1ff = drop_bit 21 va' AND 0x1ff"
        "drop_bit 12 va AND 0x1ff = drop_bit 12 va' AND 0x1ff"
        by (simp_all add: same_page_def va_path_def PML4E_INDEX_def PDPT_INDEX_def PDT_INDEX_def PT_INDEX_def)
      consider "n < 9" | "9 \<le> n" "n < 18" | "18 \<le> n" "n < 27" | "27 \<le> n" "n < 36" | "36 \<le> n" by linarith
      then show "bit (take_bit 36 (drop_bit 12 va)) n = bit (take_bit 36 (drop_bit 12 va')) n"
        using b [OF e(4), of n] b [OF e(3), of "n - 9"] b [OF e(2), of "n - 18"] b [OF e(1), of "n - 27"]
        by cases (simp_all add: bit_simps)
    qed
  next
    assume eq: "take_bit 36 (drop_bit 12 va) = take_bit 36 (drop_bit 12 va')"
    have sh: "bit va (12 + j) = bit va' (12 + j)" if "j < 36" for j
      using arg_cong [OF eq, of "\<lambda>w. bit w j"] that by (simp add: bit_simps)
    have bits: "bit va k = bit va' k" if "12 \<le> k" "k < 48" for k
      using sh [of "k - 12"] that by simp
    have "drop_bit k va AND 0x1ff = drop_bit k va' AND 0x1ff" if "12 \<le> k" "k \<le> 39" for k
    proof (rule bit_word_eqI)
      fix n
      show "bit (drop_bit k va AND 0x1ff) n = bit (drop_bit k va' AND 0x1ff) n"
        using bits [of "k + n"] that unfolding bit_index by auto
    qed
    then show "same_page va va'"
      by (simp add: same_page_def va_path_def PML4E_INDEX_def PDPT_INDEX_def PDT_INDEX_def PT_INDEX_def)
  qed
  also have "\<dots> \<longleftrightarrow> (unat va div 4096) mod 2 ^ 36 = (unat va' div 4096) mod 2 ^ 36"
    unfolding word_unat_eq_iff u ..
  finally show ?thesis .
qed

lemma same_page_refl [simp]: "same_page va va"
  by (simp add: same_page_def)

lemma same_page_sym: "same_page va va' \<longleftrightarrow> same_page va' va"
  by (auto simp: same_page_def)

lemma pg_at_distinct:
  assumes "unat va + 4096 * n < 2 ^ 64" and "n \<le> 2 ^ 36" and "i < n" and "j < n" and "i \<noteq> j"
  shows "\<not> same_page (pg_at va i) (pg_at va j)"
proof -
  have u: "unat (pg_at va k) div 4096 = unat va div 4096 + k" if "k < n" for k
    using assms(1) that by (subst unat_pg_at) simp_all
  have "(a + i) mod 2 ^ 36 \<noteq> (a + j) mod 2 ^ 36" for a :: nat
  proof
    assume "(a + i) mod 2 ^ 36 = (a + j) mod 2 ^ 36"
    then have "i mod 2 ^ 36 = j mod 2 ^ 36" by (simp add: nat_mod_eq_iff)
    then show False using assms by simp
  qed
  then show ?thesis using u assms(3,4) by (simp add: same_page_iff)
qed

section \<open>The contract of a page mapper\<close>

text \<open>
  What the virtual memory manager relies on: mapping one page keeps the invariant, returns the
  entry that was there, and changes the entry of this page in this space only. The client lemma
  is the loop all its callers run: get a frame for each page of a range (by allocating it, by
  computing it, or by translating it in another space) and map it, failing when the page was in
  use. \<open>Q\<close> is what the caller knows of the frame of each page.
\<close>

definition map_step ::
  "('s \<Rightarrow> u64 \<Rightarrow> (u64 \<times> 's) res) \<Rightarrow> ('s \<Rightarrow> u64 \<Rightarrow> u64 \<Rightarrow> (u64 \<times> 's) res) \<Rightarrow> error \<Rightarrow> 's \<Rightarrow> u64 \<Rightarrow> 's res"
where
  "map_step frame mapf err s va =
     bindR (frame s va) (\<lambda>(pa, s1). bindR (mapf s1 va pa) (\<lambda>(old, s2).
       if old \<noteq> 0 then Inl err else Inr s2))"

locale page_mapper =
  fixes ptinv :: "u64 set \<Rightarrow> 's \<Rightarrow> bool"
    and ent :: "'s \<Rightarrow> u64 \<Rightarrow> u64 \<Rightarrow> u64"
    and mapf :: "u64 \<Rightarrow> u64 \<Rightarrow> 's \<Rightarrow> u64 \<Rightarrow> u64 \<Rightarrow> (u64 \<times> 's) res"
  assumes map_inv: "ptinv R s \<Longrightarrow> r \<in> R \<Longrightarrow> unat perm < 4096 \<Longrightarrow>
      mapf r perm s va pa = Inr (old, s') \<Longrightarrow> ptinv R s'"
    and map_old: "ptinv R s \<Longrightarrow> r \<in> R \<Longrightarrow> unat perm < 4096 \<Longrightarrow>
      mapf r perm s va pa = Inr (old, s') \<Longrightarrow> old = ent s r va"
    and map_ent: "ptinv R s \<Longrightarrow> r \<in> R \<Longrightarrow> unat perm < 4096 \<Longrightarrow>
      mapf r perm s va pa = Inr (old, s') \<Longrightarrow> r' \<in> R \<Longrightarrow>
      ent s' r' va' = (if r' = r \<and> same_page va' va then pa OR perm else ent s r' va')"
begin

lemma map_range:
  assumes inv: "ptinv R s" and r: "r \<in> R" and perm: "unat perm < 4096"
    and run: "page_loop (map_step frame (mapf r perm) err) s va (pg_at va n) = Inr s'"
    and rng: "unat va + 4096 * n < 2 ^ 64" "n \<le> 2 ^ 36"
    and frame: "\<And>t i pa t'. i < n \<Longrightarrow> ptinv R t \<Longrightarrow>
      \<forall>r' \<in> R. \<forall>x. (r' = r \<longrightarrow> (\<forall>j < n. \<not> same_page x (pg_at va j))) \<longrightarrow> ent t r' x = ent s r' x \<Longrightarrow>
      frame t (pg_at va i) = Inr (pa, t') \<Longrightarrow>
      ptinv R t' \<and> (\<forall>r' \<in> R. \<forall>x. ent t' r' x = ent t r' x) \<and> Q i pa"
  shows "ptinv R s' \<and> (\<forall>i < n. ent s r (pg_at va i) = 0 \<and> (\<exists>pa. Q i pa \<and> ent s' r (pg_at va i) = pa OR perm))
    \<and> (\<forall>r' \<in> R. \<forall>x. (r' = r \<longrightarrow> (\<forall>i < n. \<not> same_page x (pg_at va i))) \<longrightarrow> ent s' r' x = ent s r' x)"
proof -
  let ?I = "\<lambda>k t. ptinv R t
    \<and> (\<forall>i < k. ent s r (pg_at va i) = 0 \<and> (\<exists>pa. Q i pa \<and> ent t r (pg_at va i) = pa OR perm))
    \<and> (\<forall>r' \<in> R. \<forall>x. (r' = r \<longrightarrow> (\<forall>i < k. \<not> same_page x (pg_at va i))) \<longrightarrow> ent t r' x = ent s r' x)"
  have step: "?I (Suc i) t'" if i: "i < n" and I: "?I i t"
    and f: "map_step frame (mapf r perm) err t (pg_at va i) = Inr t'" for i t t'
  proof -
    from f obtain pa t1 old where g: "frame t (pg_at va i) = Inr (pa, t1)"
      and m: "mapf r perm t1 (pg_at va i) pa = Inr (old, t')" and old: "old = 0"
      by (auto simp: map_step_def bindR_Inr_iff split: if_splits)
    have "\<forall>r' \<in> R. \<forall>x. (r' = r \<longrightarrow> (\<forall>j < n. \<not> same_page x (pg_at va j))) \<longrightarrow> ent t r' x = ent s r' x"
      using I i by (meson less_trans)
    then have fr: "ptinv R t1" "\<forall>r' \<in> R. \<forall>x. ent t1 r' x = ent t r' x" "Q i pa"
      using frame [OF i _ _ g] I by blast+
    note me = map_ent [OF fr(1) r perm m]
    have ds: "\<not> same_page (pg_at va j) (pg_at va i)" if "j < i" for j
      by (rule pg_at_distinct [OF rng]) (use that i in auto)
    have "ent t r (pg_at va i) = ent s r (pg_at va i)"
      using I r ds same_page_sym by blast
    then have z: "ent s r (pg_at va i) = 0"
      using map_old [OF fr(1) r perm m] old fr(2) r by simp
    have new: "ent t' r (pg_at va i) = pa OR perm" using me [OF r, of "pg_at va i"] by simp
    have kept: "ent t' r (pg_at va j) = ent t r (pg_at va j)" if "j < i" for j
      using me [OF r, of "pg_at va j"] ds [OF that] fr(2) r by simp
    have "\<forall>j < Suc i. ent s r (pg_at va j) = 0 \<and> (\<exists>pa. Q j pa \<and> ent t' r (pg_at va j) = pa OR perm)"
      using I z new kept fr(3) by (metis less_Suc_eq)
    moreover have "ent t' r' x = ent s r' x"
      if "r' \<in> R" "r' = r \<longrightarrow> (\<forall>j < Suc i. \<not> same_page x (pg_at va j))" for r' x
      using me [OF that(1), of x] fr(2) I that by (metis less_Suc_eq)
    ultimately show ?thesis using map_inv [OF fr(1) r perm m] by blast
  qed
  have I0: "?I 0 s" using inv by simp
  show ?thesis
    by (rule page_loop_inv [where I = ?I, OF run rng(1) I0]) (rule step)
qed

end

lemma map_page_in_ent:
  assumes "mmu_inv R s" and "r \<in> R" and "unat perm < 4096"
    and "map_page_in s r va pa perm = Inr (old, s')"
  shows "mmu_inv R s'" and "old = mmu_entry (mem s) r va"
    and "r' \<in> R \<Longrightarrow> mmu_entry (mem s') r' va' =
      (if r' = r \<and> same_page va' va then pa OR perm else mmu_entry (mem s) r' va')"
    and "s' = s\<lparr>mem := mem s'\<rparr>"
  using map_page_in_spec [OF assms] by blast+

interpretation pt: page_mapper mmu_inv "\<lambda>s. mmu_entry (mem s)"
  "\<lambda>r perm s va pa. map_page_in s r va pa perm"
  by unfold_locales (rule map_page_in_ent, assumption+)+

section \<open>Unmapping, copying, and new spaces\<close>

lemma mem_self: "\<exists>m. s = (s :: 'a pmm_state_scheme)\<lparr>mem := m\<rparr>"
proof -
  have "s = s\<lparr>mem := mem s\<rparr>" by simp
  then show ?thesis by blast
qed

lemma xalloc_upd: "pmm_xalloc s = Inr (p, s') \<Longrightarrow> \<exists>m. s' = s\<lparr>mem := m\<rparr>"
  by (auto simp: pmm_xalloc_Inr pmm_alloc_Inr)

lemma ensure_table_upd: "ensure_table s t i perm = Inr (c, s') \<Longrightarrow> \<exists>m. s' = s\<lparr>mem := m\<rparr>"
  by (auto simp: ensure_table_def bindR_Inr_iff Let_def mem_self split: if_splits dest!: xalloc_upd)

lemma map_page_in_upd: "map_page_in s r va pa perm = Inr (old, s') \<Longrightarrow> \<exists>m. s' = s\<lparr>mem := m\<rparr>"
  by (auto simp: map_page_in_def bindR_Inr_iff Let_def dest!: ensure_table_upd)

lemma ensure_table_present:
  "present (load64 (mem s) (tbl_entry t i)) \<Longrightarrow> ensure_table s t i perm = Inr (next_table (mem s) t i, s)"
  by (simp add: ensure_table_def)

text \<open>When the tables exist nothing is allocated.\<close>

lemma map_page_in_existing:
  assumes "table_at (mem s) r (va_path va) = Some t"
  shows "map_page_in s r va pa perm = Inr (load64 (mem s) (tbl_entry t (PT_INDEX va)),
    s\<lparr>mem := store64 (mem s) (tbl_entry t (PT_INDEX va)) (pa OR perm)\<rparr>)"
  using assms
  by (auto simp: map_page_in_def Let_def va_path_def table_at_def table_step_def ensure_table_present
      split: if_splits)

lemma translate_entry:
  assumes "mmu_entry m r va \<noteq> 0"
  shows "mmu_translate_4k m r va =
    PAGE_ADDR (mmu_entry m r va) PAGE_SIZE_IN_BYTES OR (va AND (PAGE_SIZE_IN_BYTES - 1))"
  using assms by (auto simp: translate_table mmu_entry_def split: option.splits)

lemma PAGE_ADDR_or_low:
  assumes "unat perm < 4096"
  shows "PAGE_ADDR (PAGE_ADDR a PAGE_SIZE_IN_BYTES OR perm) PAGE_SIZE_IN_BYTES = PAGE_ADDR a PAGE_SIZE_IN_BYTES"
  using PAGE_ADDR_add_low [OF PAGE_ADDR_aligned assms] or_low_bits [OF PAGE_ADDR_aligned assms] by metis

lemma aligned_offset: "page_aligned va \<Longrightarrow> va AND (PAGE_SIZE_IN_BYTES - 1) = 0"
  using IS_ALIGNED_page [of va] by (simp add: IS_ALIGNED_def)

lemma pg_at_aligned: "page_aligned va \<Longrightarrow> page_aligned (pg_at va i)"
proof (rule aligned_add)
  have "unat (of_nat i * PAGE_SIZE_IN_BYTES :: u64) mod 4096 = (unat (of_nat i :: u64) * 4096) mod 2 ^ 64 mod 4096"
    by (simp add: unat_word_ariths unat_page_size)
  also have "\<dots> = (unat (of_nat i :: u64) * 4096) mod 4096" by (rule mod_mod_cancel) simp
  finally show "unat (of_nat i * PAGE_SIZE_IN_BYTES :: u64) mod 4096 = 0" by simp
qed

text \<open>A change of the bitmaps that frees no page does not concern the tables.\<close>

lemma bitmap_write:
  assumes inv: "mmu_inv R s" and eq: "\<And>x. outside_bitmaps (pmap s) x \<Longrightarrow> m' x = mem s x"
    and sub: "free_pages (s\<lparr>mem := m'\<rparr>) \<subseteq> free_pages s"
  shows "mmu_inv R (s\<lparr>mem := m'\<rparr>)" and "tables R m' = tables R (mem s)"
    and "r \<in> R \<Longrightarrow> mmu_entry m' r va = mmu_entry (mem s) r va"
proof -
  note tree = mmu_invD(2) [OF inv]
  have eqt: "m' x = mem s x" if "t \<in> tables R (mem s)" "page_bytes t x" for t x
    using eq mmu_invD(4) [OF inv that] by blast
  have tb: "table_at m' r p = table_at (mem s) r p" if "r \<in> R" "path p" for r p
    by (rule table_at_frame [OF tree eqt that])
  show tc: "tables R m' = tables R (mem s)" by (rule tables_cong, rule tb)
  have "pt_tree R m'" using tree tables_cong(2) [of R m' "mem s", OF tb] by blast
  then show "mmu_inv R (s\<lparr>mem := m'\<rparr>)"
    using inv sub unfolding mmu_inv_def pmm_inv_def off_bitmaps_def by (auto simp: tc)
  show "mmu_entry m' r va = mmu_entry (mem s) r va" if "r \<in> R"
    by (rule mmu_entry_frame [OF tree _ that]) (rule eqt)
qed

lemma xalloc_mmu:
  assumes inv: "mmu_inv R s" and x: "pmm_xalloc s = Inr (p, s')"
  shows "mmu_inv R s'" and "r \<in> R \<Longrightarrow> mmu_entry (mem s') r va = mmu_entry (mem s) r va"
    and "tables R (mem s') = tables R (mem s)" and "free_pages s' = free_pages s - {p}"
    and "p \<in> free_pages s" and "page_aligned p" and "s' = s\<lparr>mem := mem s'\<rparr>"
proof -
  have a: "pmm_alloc s = Inr (p, s')" "p \<noteq> 0" using x by (auto simp: pmm_xalloc_Inr)
  note al = pmm_alloc_spec [OF mmu_invD(1) [OF inv] a(1)]
  show s': "s' = s\<lparr>mem := mem s'\<rparr>" using al(5) by auto
  show fr: "free_pages s' = free_pages s - {p}" by (rule al(2))
  have sub: "free_pages (s\<lparr>mem := mem s'\<rparr>) \<subseteq> free_pages s" using fr s' by auto
  have "mmu_inv R (s\<lparr>mem := mem s'\<rparr>)" by (rule bitmap_write(1) [OF inv _ sub]) (rule al(6))
  then show "mmu_inv R s'" using s' by simp
  show "tables R (mem s') = tables R (mem s)" by (rule bitmap_write(2) [OF inv _ sub]) (rule al(6))
  show "mmu_entry (mem s') r va = mmu_entry (mem s) r va" if "r \<in> R"
    by (rule bitmap_write(3) [OF inv _ sub that]) (rule al(6))
  show "p \<in> free_pages s" using al(4) a(2) by blast
  then show "page_aligned p" using pg.free_page [OF mmu_invD(1) [OF inv]] by blast
qed

lemma copy_page_step:
  assumes "vspaces s dst = Some sp1" and "vspaces s src = Some sp2"
  shows "copy_page dst src flags s va =
    map_step (\<lambda>s va. Inr (mmu_translate_4k (mem s) (page_directory sp2) va, s))
      (\<lambda>s va pa. map_page_in s (page_directory sp1) va pa flags)
      (Panic ''mmu_copy_pages: overwrite preexisting mapping'') s va"
  using assms by (simp add: copy_page_def map_step_def mmu_map_page_def)

lemma copy_pages_loop:
  assumes sp: "vspaces s dst = Some sp1" "vspaces s src = Some sp2"
  shows "page_loop (copy_page dst src flags) s va stop =
    page_loop (map_step (\<lambda>s va. Inr (mmu_translate_4k (mem s) (page_directory sp2) va, s))
      (\<lambda>s va pa. map_page_in s (page_directory sp1) va pa flags)
      (Panic ''mmu_copy_pages: overwrite preexisting mapping'')) s va stop"
proof (rule page_loop_cong [where J = "\<lambda>t. vspaces t dst = Some sp1 \<and> vspaces t src = Some sp2"])
  show "vspaces s dst = Some sp1 \<and> vspaces s src = Some sp2" using sp by simp
qed (use copy_page_step in \<open>auto simp: map_step_def bindR_Inr_iff split: if_splits dest!: map_page_in_upd\<close>)

lemma free_in_frame_inv:
  assumes inv: "mmu_inv R s" and q: "q \<in> set (pmap s)" "avail q" "j < unat (pr_size_in_pages q)" "32 < j mod 64"
    and pg: "V2P (pmm_vma_stop s) < page_of q j"
    and nt: "DM_P2V (page_of q j) \<notin> tables R (mem s)" and off: "off_bitmaps s (DM_P2V (page_of q j))"
  shows "\<exists>m. pmm_free s (page_of q j) = Inr (s\<lparr>mem := m\<rparr>) \<and> mmu_inv R (s\<lparr>mem := m\<rparr>)
    \<and> free_pages (s\<lparr>mem := m\<rparr>) = insert (page_of q j) (free_pages s)
    \<and> (\<forall>r \<in> R. \<forall>va. mmu_entry m r va = mmu_entry (mem s) r va) \<and> tables R m = tables R (mem s)
    \<and> (\<forall>x. outside_bitmaps (pmap s) x \<longrightarrow> m x = mem s x)"
proof -
  have ok: "pmap_ok (pmap s)" using mmu_invD(1) [OF inv] by (simp add: pmm_inv_def)
  obtain m where m: "free_in (mem s) (pmap s) (page_of q j) = Inr m"
    "free_in_regions m (pmap s) = insert (page_of q j) (free_in_regions (mem s) (pmap s))"
    and fr: "\<forall>x. outside_bitmaps (pmap s) x \<longrightarrow> m x = mem s x"
    using free_in_spec [OF ok q, of "mem s"] by (elim exE conjE) (rule that)
  have run: "pmm_free s (page_of q j) = Inr (s\<lparr>mem := m\<rparr>)" using m(1) pg by (simp add: pmm_free_def)
  have free: "free_pages (s\<lparr>mem := m\<rparr>) = insert (page_of q j) (free_pages s)"
    using m(2) by (simp add: free_pages_def)
  note tree = mmu_invD(2) [OF inv]
  have eq: "m x = mem s x" if "t \<in> tables R (mem s)" "page_bytes t x" for t x
    using fr mmu_invD(4) [OF inv that] by blast
  have tb: "table_at m r p = table_at (mem s) r p" if "r \<in> R" "path p" for r p
    by (rule table_at_frame [OF tree eq that])
  have tc: "tables R m = tables R (mem s)" "pt_tree R m = pt_tree R (mem s)"
    by (rule tables_cong, rule tb, assumption+)+
  have "mmu_inv R (s\<lparr>mem := m\<rparr>)"
    using inv nt off unfolding mmu_inv_def pmm_inv_def off_bitmaps_def free by (auto simp: tc)
  moreover have "\<forall>r \<in> R. \<forall>va. mmu_entry m r va = mmu_entry (mem s) r va"
    by (intro ballI allI mmu_entry_frame [OF tree]) (rule eq)
  ultimately show ?thesis using run free tc(1) fr by blast
qed

section \<open>Properties\<close>

text \<open>
  C1. Mapping a page: when \<^verbatim>\<open>mmu_map_page\<close> returns, the entry of that virtual page in that space is
  the frame with its permissions, the value returned is the entry that was there before, and the
  entry of every other page, in this and in every other space, is unchanged. The page-table
  invariant is kept.
\<close>

theorem mmu_map_page_updates_one:
  assumes "mmu_inv R s" and "vspaces s space = Some sp" and "page_directory sp \<in> R"
    and "unat perm < 4096" and "mmu_map_page s space va pa perm = Inr (old, s')"
  shows "mmu_inv R s' \<and> old = mmu_entry (mem s) (page_directory sp) va
    \<and> (\<forall>r \<in> R. \<forall>va'. mmu_entry (mem s') r va' =
         (if r = page_directory sp \<and> same_page va' va then pa OR perm else mmu_entry (mem s) r va'))"
  using map_page_in_spec [OF assms(1,3,4), of va pa old s'] assms(2,5) by (simp add: mmu_map_page_def)

text \<open>A machine with an empty address space whose root is in the page below the free region.\<close>

definition root0 :: u64 where "root0 = DM_P2V 0x200000"

definition vm0 :: vm_state where
  "vm0 = \<lparr>mem = (\<lambda>x. if page_bytes root0 x then 0 else 0xff), syms = ks0, pmap = [region100],
     pmm_vma_stop = 0xffffffff80300000, vregions = Map.empty,
     vspaces = [0x8000 \<mapsto> \<lparr>page_directory = root0, sp_region = 0\<rparr>], cr3 = 0, flushed = []\<rparr>"

lemma root0_aligned: "page_aligned root0"
  by (simp add: root0_def DM_P2V_def const_defs)

lemma span100:
  assumes "bm_span bm100 x"
  shows "unat x < 0x2000"
proof -
  have d: "unat (x - 0x1000) < 16" using assms by (simp add: bm_span_def bm100_def word_less_nat_alt)
  then have "unat (x - 0x1000 + 0x1000) = unat (x - 0x1000) + unat (0x1000 :: u64)"
    by (intro unat_add_no_wrap) simp
  then show ?thesis using d by simp
qed

lemma high_page_off:
  assumes "page_aligned t" and "0x2000 \<le> unat t" and "pmap s = [region100]"
  shows "off_bitmaps s t"
proof -
  have "\<not> bm_span (pr_bitmap region100) x" if "page_bytes t x" for x
    using that span100 [of x] assms(2) by (auto simp: page_bytes_unat [OF assms(1)] region100_def)
  then show ?thesis using assms(3) by (simp add: off_bitmaps_def outside_bitmaps_def)
qed

lemma free_page_vm0:
  assumes "p \<in> free_pages s" and "pmap s = [region100]"
  obtains j where "j < 100" and "p = page_of region100 j" and "unat p = 0x300000 + 4096 * j"
    and "unat (DM_P2V p) = 0xffff800000300000 + 4096 * j"
proof -
  have f: "filter avail [region100] = [region100]" using region100_ok(2) by simp
  from assms have "p \<in> region_free (mem s) region100"
    using pmap_ok_single(2) [OF f region100_ok(1)] by (simp add: free_pages_def)
  then obtain j where j: "j \<in> bm_free (mem s) bm100" "p = page_of region100 j"
    by (auto simp: region_free_def region100_def)
  have jb: "j < 100" using j(1) by (simp add: bm_free_def bm100_def)
  then have u: "unat p = 0x300000 + 4096 * j"
    using page_of_unat [OF region100_ok, of j] j(2) by (simp add: region100_def)
  have "unat (DM_P2V p) = unat p + unat HIGHER_HALF_START"
    unfolding DM_P2V_def by (rule unat_add_no_wrap) (use jb u in \<open>simp add: const_defs\<close>)
  then show thesis using that [OF jb j(2) u] u by (simp add: const_defs)
qed

lemma vm0_entry: "i < 512 \<Longrightarrow> load64 (mem vm0) (tbl_entry root0 i) = 0"
  by (rule load64_zero) (simp add: vm0_def entry_bytes [OF root0_aligned])

lemma vm0_tables: "path p \<Longrightarrow> table_at (mem vm0) root0 p = (if p = [] then Some root0 else None)"
proof (induction p rule: rev_induct)
  case (snoc i p)
  then show ?case using vm0_entry path_prefix [OF snoc.prems]
    by (auto simp: table_at_snoc table_step_def split: if_splits)
qed simp

lemma vm0_unmapped: "mmu_entry (mem vm0) root0 va = 0"
proof -
  have "va_path va \<noteq> []" by (simp add: va_path_def)
  then show ?thesis using vm0_tables [OF va_path_path, of va] by (simp add: mmu_entry_def)
qed

lemma vm0_root: "tables {root0} (mem vm0) = {root0}"
proof -
  have p0: "path []" by (simp add: path_def)
  then show ?thesis using vm0_tables by (auto simp: tables_def split: if_splits)
qed

lemma vm0_inv: "mmu_inv {root0} vm0"
proof -
  note tb = vm0_root
  have "pt_tree {root0} (mem vm0)"
    unfolding pt_tree_def tb using root0_aligned vm0_tables by (auto split: if_splits)
  moreover have "pmm_inv vm0" using machine100_inv by (simp add: pmm_inv_def vm0_def machine100_def)
  moreover have pm: "pmap vm0 = [region100]" by (simp add: vm0_def)
  moreover have "off_bitmaps vm0 root0"
    by (rule high_page_off [OF root0_aligned _ pm]) (simp add: root0_def DM_P2V_def const_defs)
  moreover have "off_bitmaps vm0 (DM_P2V p) \<and> root0 \<noteq> DM_P2V p" if p: "p \<in> free_pages vm0" for p
  proof -
    obtain j where j: "j < 100" "unat (DM_P2V p) = 0xffff800000300000 + 4096 * j"
      using free_page_vm0 [OF p pm] by blast
    have "unat root0 = 0xffff800000200000" by (simp add: root0_def DM_P2V_def const_defs)
    then have "root0 \<noteq> DM_P2V p" using j(2) by auto
    moreover have "page_aligned (DM_P2V p)" using pg.free_page [OF _ p] calculation
      by (intro DM_P2V_aligned) (use \<open>pmm_inv vm0\<close> in blast)
    ultimately show ?thesis using j high_page_off [OF _ _ pm] by simp
  qed
  ultimately show ?thesis unfolding mmu_inv_def tb by auto
qed

lemma vm0_free: "bm_free (mem vm0) bm100 = {..<100}"
proof -
  have wf: "bm_wf bm100" using region100_ok by (simp add: region_ok_def region100_def)
  have "bm_free (mem vm0) bm100 = bm_free ones bm100"
  proof (rule bm_raw_frame(2) [OF wf])
    fix x assume "bm_span bm100 x"
    then have "unat x < 0x2000" by (rule span100)
    moreover have "unat root0 = 0xffff800000200000" by (simp add: root0_def DM_P2V_def const_defs)
    ultimately have "\<not> page_bytes root0 x" by (simp add: page_bytes_unat [OF root0_aligned])
    then show "mem vm0 x = ones x" by (simp add: vm0_def ones_def)
  qed
  then show ?thesis by (simp add: bm_free_ones) (simp add: bm100_def)
qed

lemma vm0_room: "k \<le> 100 \<Longrightarrow> pmm_room vm0 k"
  unfolding pmm_room_def
  by (rule exI [of _ "[]"], rule exI [of _ region100], rule exI [of _ "[]"])
    (simp add: region100_ok(2), simp add: vm0_def [THEN arg_cong [of _ _ pmap]] vm0_free region100_def)

definition space0 :: vmm_space where
  "space0 = \<lparr>page_directory = root0, sp_region = 0\<rparr>"

lemma vm0_space: "vspaces vm0 0x8000 = Some space0" "page_directory space0 = root0"
  by (simp_all add: vm0_def space0_def)

lemma vm0_map: "unat perm < 4096 \<Longrightarrow> \<exists>old s'. mmu_map_page vm0 0x8000 va pa perm = Inr (old, s')"
proof -
  assume perm: "unat perm < 4096"
  have rm: "pmm_room vm0 (0 + 3)" by (simp add: vm0_room)
  have "\<exists>old s'. map_page_in vm0 root0 va pa perm = Inr (old, s') \<and> pmm_room s' 0"
    by (rule map_page_in_total [OF vm0_inv _ perm rm]) simp
  then show ?thesis using vm0_space by (auto simp: mmu_map_page_def)
qed

theorem mmu_map_page_updates_one_witness:
  "\<exists>old s'. mmu_map_page vm0 0x8000 0x400000 0x310000 PAGE_KERNEL_RW = Inr (old, s')
    \<and> mmu_entry (mem s') root0 0x400000 = 0x310103
    \<and> mmu_entry (mem s') root0 0x401000 = mmu_entry (mem vm0) root0 0x401000"
proof -
  have perm: "unat PAGE_KERNEL_RW < 4096" by (simp add: const_defs)
  obtain old s' where m: "mmu_map_page vm0 0x8000 0x400000 0x310000 PAGE_KERNEL_RW = Inr (old, s')"
    using vm0_map [OF perm] by blast
  have rt: "page_directory space0 \<in> {root0}" by (simp add: vm0_space)
  have "\<not> same_page 0x401000 0x400000" by (simp add: same_page_iff)
  moreover have "(0x310000 :: u64) OR PAGE_KERNEL_RW = 0x310103" by (simp add: const_defs)
  ultimately show ?thesis
    using mmu_map_page_updates_one [OF vm0_inv vm0_space(1) rt perm m] m by (simp add: vm0_space(2))
qed

text \<open>
  With three pages to spare, mapping an aligned frame at an aligned address returns, and from
  then on translating that address yields the frame.
\<close>

theorem mmu_map_then_translate:
  assumes "mmu_inv R s" and "vspaces s space = Some sp" and "page_directory sp \<in> R"
    and "unat perm < 4096" and "pmm_room s 3" and "page_aligned pa" and "page_aligned va"
  shows "\<exists>old s'. mmu_map_page s space va pa perm = Inr (old, s')
    \<and> mmu_translate_4k (mem s') (page_directory sp) va = pa"
proof -
  have rm: "pmm_room s (0 + 3)" using assms(5) by simp
  obtain old s' where m: "map_page_in s (page_directory sp) va pa perm = Inr (old, s')"
    using map_page_in_total [OF assms(1,3,4) rm] by blast
  note sp = map_page_in_spec [OF assms(1,3,4) m]
  have e: "mmu_entry (mem s') (page_directory sp) va = pa OR perm" using sp assms(3) by simp
  have "PAGE_ADDR (pa OR perm) PAGE_SIZE_IN_BYTES = pa"
    using or_low_bits [OF assms(6,4)] PAGE_ADDR_add_low [OF assms(6,4)] by simp
  then have "mmu_translate_4k (mem s') (page_directory sp) va = pa"
    using sp e aligned_offset [OF assms(7)] by (auto simp: translate_table mmu_entry_def)
  with m assms(2) show ?thesis by (simp add: mmu_map_page_def)
qed

theorem mmu_map_then_translate_witness:
  "\<exists>old s'. mmu_map_page vm0 0x8000 0x400000 0x310000 PAGE_KERNEL_RW = Inr (old, s')
    \<and> mmu_translate_4k (mem s') root0 0x400000 = 0x310000"
proof -
  have h: "page_directory space0 \<in> {root0}" "unat PAGE_KERNEL_RW < 4096" "pmm_room vm0 3"
    "page_aligned 0x310000" "page_aligned 0x400000"
    by (simp_all add: const_defs vm0_space vm0_room)
  show ?thesis
    using mmu_map_then_translate [OF vm0_inv vm0_space(1) h] by (simp add: vm0_space(2))
qed

text \<open>
  Translation does not look at the present bit of the last level: after one page is mapped, an
  unmapped page that shares its last table translates to an offset in frame 0 rather than to the
  all-ones value that stands for no mapping.
\<close>

theorem mmu_translate_misses_absent_page:
  assumes "mmu_inv R s" and "vspaces s space = Some sp" and "page_directory sp \<in> R"
    and "unat perm < 4096" and "mmu_map_page s space va pa perm = Inr (old, s')"
    and "va_path va' = va_path va" and "\<not> same_page va' va"
    and "mmu_entry (mem s) (page_directory sp) va' = 0"
  shows "mmu_translate_4k (mem s') (page_directory sp) va' = va' AND 0xfff
    \<and> mmu_translate_4k (mem s') (page_directory sp) va' \<noteq> NOT 0"
proof -
  have m: "map_page_in s (page_directory sp) va pa perm = Inr (old, s')"
    using assms(2,5) by (simp add: mmu_map_page_def)
  note sp = map_page_in_spec [OF assms(1,3,4) m]
  obtain t where t: "table_at (mem s') (page_directory sp) (va_path va') = Some t"
    using sp assms(6) by auto
  have "mmu_entry (mem s') (page_directory sp) va' = 0" using sp assms(3,7,8) by simp
  then have z: "load64 (mem s') (tbl_entry t (PT_INDEX va')) = 0" using t by (simp add: mmu_entry_def)
  have tr: "mmu_translate_4k (mem s') (page_directory sp) va' = va' AND 0xfff"
    using t z by (simp add: translate_table PAGE_ADDR_def const_defs)
  have "unat (va' AND mask 12) < 4096" unfolding and_mask_unat by simp
  then have "unat (va' AND 0xfff) < 4096" by (simp add: mask_eq_decr_exp)
  moreover have "unat (0xffffffffffffffff :: u64) = 0xffffffffffffffff" by simp
  ultimately have "va' AND 0xfff \<noteq> 0xffffffffffffffff" by auto
  moreover have "(NOT 0 :: u64) = 0xffffffffffffffff" by simp
  ultimately have "va' AND 0xfff \<noteq> NOT 0" by metis
  with tr show ?thesis by simp
qed

theorem mmu_translate_misses_absent_page_witness:
  "\<exists>old s'. mmu_map_page vm0 0x8000 0x400000 0x310000 PAGE_KERNEL_RW = Inr (old, s')
    \<and> mmu_translate_4k (mem s') root0 0x401000 = 0"
proof -
  have perm: "unat PAGE_KERNEL_RW < 4096" by (simp add: const_defs)
  obtain old s' where m: "mmu_map_page vm0 0x8000 0x400000 0x310000 PAGE_KERNEL_RW = Inr (old, s')"
    using vm0_map [OF perm] by blast
  have rt: "page_directory space0 \<in> {root0}" by (simp add: vm0_space)
  have h1: "va_path 0x401000 = va_path 0x400000"
    by (simp add: va_path_def PML4E_INDEX_def PDPT_INDEX_def PDT_INDEX_def)
  have h2: "\<not> same_page 0x401000 0x400000" by (simp add: same_page_iff)
  have h3: "mmu_entry (mem vm0) (page_directory space0) 0x401000 = 0" by (simp add: vm0_unmapped vm0_space)
  show ?thesis
    using mmu_translate_misses_absent_page [OF vm0_inv vm0_space(1) rt perm m h1 h2 h3] m
    by (simp add: vm0_space(2))
qed

lemma unmap_page_run:
  assumes "mmu_inv R s" and "vspaces s space = Some sp" and "page_directory sp \<in> R"
    and "mmu_entry (mem s) (page_directory sp) va = page_of q j OR perm" and "page_of q j OR perm \<noteq> 0"
    and "unat perm < 4096" and "q \<in> set (pmap s)" and "avail q" and "j < unat (pr_size_in_pages q)"
    and "32 < j mod 64" and "V2P (pmm_vma_stop s) < page_of q j"
    and "DM_P2V (page_of q j) \<notin> tables R (mem s)" and "off_bitmaps s (DM_P2V (page_of q j))"
  shows "\<exists>s'. mmu_unmap_page s space va = Inr (page_of q j OR perm, s') \<and> mmu_inv R s'
    \<and> free_pages s' = insert (page_of q j) (free_pages s) \<and> flushed s' = va # flushed s
    \<and> (\<forall>r \<in> R. \<forall>va'. mmu_entry (mem s') r va' =
         (if r = page_directory sp \<and> same_page va' va then 0 else mmu_entry (mem s) r va'))
    \<and> s' = s\<lparr>mem := mem s', flushed := va # flushed s\<rparr> \<and> tables R (mem s') = tables R (mem s)
    \<and> (\<forall>x. mmu_untouched R s x \<longrightarrow> mem s' x = mem s x)"
proof -
  let ?pd = "page_directory sp"
  obtain t where t: "table_at (mem s) ?pd (va_path va) = Some t"
    using assms(4,5) by (auto simp: mmu_entry_def split: option.splits)
  define s1 where "s1 = s\<lparr>mem := store64 (mem s) (tbl_entry t (PT_INDEX va)) 0\<rparr>"
  note lw = leaf_write [OF assms(1,3) t s1_def]
  have "load64 (mem s) (tbl_entry t (PT_INDEX va)) = page_of q j OR perm"
    using assms(4) t by (simp add: mmu_entry_def)
  then have m: "mmu_map_page s space va 0 0 = Inr (page_of q j OR perm, s1)"
    using map_page_in_existing [OF t, of 0 0] assms(2) by (simp add: mmu_map_page_def s1_def)
  have ok: "region_ok q" using mmu_invD(1) [OF assms(1)] assms(7) by (simp add: pmm_inv_def pmap_ok_def)
  have al: "page_aligned (page_of q j)"
    using page_of_unat [OF ok assms(8,9)] ok assms(8) by (simp add: region_ok_def mod_add_left_eq [symmetric])
  have pa: "PAGE_ADDR (page_of q j OR perm) PAGE_SIZE_IN_BYTES = page_of q j"
    using or_low_bits [OF al assms(6)] PAGE_ADDR_add_low [OF al assms(6)] by simp
  have t1: "tables R (mem s1) \<union> DM_P2V ` free_pages s1 = tables R (mem s) \<union> DM_P2V ` free_pages s"
    using lw(3) by (simp add: mmu_pages_def)
  have pm: "pmap s1 = pmap s" "pmm_vma_stop s1 = pmm_vma_stop s" "flushed s1 = flushed s"
    by (simp_all add: s1_def)
  have fp: "free_pages s1 = free_pages s" and tb: "tables R (mem s1) = tables R (mem s)"
    using leaf_write_free [OF assms(1,3) t s1_def] by auto
  have off: "off_bitmaps s1 (DM_P2V (page_of q j))" using assms(13) by (simp add: off_bitmaps_def pm)
  obtain m2 where m2: "pmm_free s1 (page_of q j) = Inr (s1\<lparr>mem := m2\<rparr>)" "mmu_inv R (s1\<lparr>mem := m2\<rparr>)"
    "free_pages (s1\<lparr>mem := m2\<rparr>) = insert (page_of q j) (free_pages s1)"
    "\<forall>r \<in> R. \<forall>va. mmu_entry m2 r va = mmu_entry (mem s1) r va" "tables R m2 = tables R (mem s1)"
    "\<forall>x. outside_bitmaps (pmap s1) x \<longrightarrow> m2 x = mem s1 x"
    using free_in_frame_inv [OF lw(1), of q j] assms(7-12) off by (auto simp: pm tb)
  have "mmu_unmap_page s space va = Inr (page_of q j OR perm, s1\<lparr>mem := m2, flushed := va # flushed s\<rparr>)"
    using m m2(1) pa by (simp add: mmu_unmap_page_def pm)
  moreover have "mmu_inv R (s1\<lparr>mem := m2, flushed := va # flushed s\<rparr>)"
    using m2(2) by (simp add: mmu_inv_def pmm_inv_def off_bitmaps_def free_pages_def)
  moreover have "free_pages (s1\<lparr>mem := m2, flushed := va # flushed s\<rparr>) = insert (page_of q j) (free_pages s)"
    using m2(3) fp by (simp add: free_pages_def)
  moreover have "m2 x = mem s x" if "mmu_untouched R s x" for x
    using m2(6) lw(4) [OF that] that by (simp add: pm mmu_untouched_def)
  moreover have "s1\<lparr>mem := m2, flushed := va # flushed s\<rparr> = s\<lparr>mem := m2, flushed := va # flushed s\<rparr>" by (simp add: s1_def)
  ultimately show ?thesis using m2(4,5) lw(2) tb by (intro exI [of _ "s\<lparr>mem := m2, flushed := va # flushed s\<rparr>"]) auto
qed

text \<open>
  Unmapping a mapped page clears its entry, gives its frame back to the page allocator, flushes
  the translation, and leaves every other entry of every space as it was. The frame must lie above
  the kernel's own pages, at a position the release handles, and hold no page table.
\<close>

theorem mmu_unmap_page_releases:
  assumes "mmu_inv R s" and "vspaces s space = Some sp" and "page_directory sp \<in> R"
    and "mmu_entry (mem s) (page_directory sp) va = page_of q j OR perm" and "page_of q j OR perm \<noteq> 0"
    and "unat perm < 4096" and "q \<in> set (pmap s)" and "avail q" and "j < unat (pr_size_in_pages q)"
    and "32 < j mod 64" and "V2P (pmm_vma_stop s) < page_of q j"
    and "DM_P2V (page_of q j) \<notin> tables R (mem s)" and "off_bitmaps s (DM_P2V (page_of q j))"
  shows "\<exists>s'. mmu_unmap_page s space va = Inr (page_of q j OR perm, s') \<and> mmu_inv R s'
    \<and> free_pages s' = insert (page_of q j) (free_pages s) \<and> flushed s' = va # flushed s
    \<and> (\<forall>r \<in> R. \<forall>va'. mmu_entry (mem s') r va' =
         (if r = page_directory sp \<and> same_page va' va then 0 else mmu_entry (mem s) r va'))"
  using unmap_page_run [OF assms] by blast

text \<open>The region \<open>region100\<close>, all of whose frames are free, with its frames 8 to 63 taken.\<close>

lemma low_frames:
  assumes inv: "mmu_inv R s" and pm: "pmap s = [region100]" and free: "bm_free (mem s) bm100 = {..<100}"
  defines "m \<equiv> store64 (mem s) 0x1000 0xff00000000000000"
  shows "mmu_inv R (s\<lparr>mem := m\<rparr>)" and "pmm_room (s\<lparr>mem := m\<rparr>) 3" and "page_of region100 40 \<notin> free_pages (s\<lparr>mem := m\<rparr>)"
    and "free_pages (s\<lparr>mem := m\<rparr>) \<subseteq> free_pages s" and "tables R m = tables R (mem s)"
    and "r \<in> R \<Longrightarrow> mmu_entry m r va = mmu_entry (mem s) r va" and "outside_bitmaps (pmap s) x \<Longrightarrow> m x = mem s x"
proof -
  have fl: "filter avail [region100] = [region100]" using region100_ok(2) by simp
  have b: "pr_bitmap region100 = bm100" by (simp add: region100_def)
  have fp: "free_pages (s\<lparr>mem := m\<rparr>) = page_of region100 ` bm_free m bm100"
    "free_pages s = page_of region100 ` {..<100}"
    using pmap_ok_single(2) [OF fl region100_ok(1)] free by (simp_all add: free_pages_def region_free_def pm b)
  have sub: "bm_free m bm100 \<subseteq> {..<100}" by (auto simp: bm_free_def bm100_def)
  show sf: "free_pages (s\<lparr>mem := m\<rparr>) \<subseteq> free_pages s" unfolding fp using sub by blast
  have low: "bm_bit m bm100 n = bit (0xff00000000000000 :: u64) (63 - n)" if "n < 64" for n
    using that by (simp add: bm_bit_def bm_cell_def bm100_def m_def)
  show "page_of region100 40 \<notin> free_pages (s\<lparr>mem := m\<rparr>)"
  proof
    assume "page_of region100 40 \<in> free_pages (s\<lparr>mem := m\<rparr>)"
    then obtain j where j: "j \<in> bm_free m bm100" "page_of region100 40 = page_of region100 j"
      unfolding fp by blast
    then have "j = 40" using sub page_of_inj [OF region100_ok, of 40 j] by (auto simp: region100_def)
    then show False using j(1) low [of 40] by (simp add: bm_free_def)
  qed
  have "{0, 1, 2} \<subseteq> bm_free m bm100"
    using low [of 0] low [of 1] low [of 2] by (simp add: bm_free_def) (simp add: bm100_def)
  then have "card {0, 1, 2 :: nat} \<le> card (bm_free m bm100)"
    using finite_subset [OF sub] by (intro card_mono) auto
  then show "pmm_room (s\<lparr>mem := m\<rparr>) 3"
    unfolding pmm_room_def
    by (intro exI [of _ "[]"] exI [of _ region100]) (use region100_ok(2) in \<open>simp add: pm b\<close>)
  show eq: "m x = mem s x" if "outside_bitmaps (pmap s) x" for x
  proof -
    have "\<not> bm_span bm100 x" using that region100_ok(2) by (simp add: outside_bitmaps_def pm b)
    then have "\<not> x - 0x1000 < 8" by (auto simp: bm_span_def bm100_def word_less_nat_alt)
    then show ?thesis by (simp add: store64_apply m_def)
  qed
  show "mmu_inv R (s\<lparr>mem := m\<rparr>)" by (rule bitmap_write(1) [OF inv eq sf])
  show "tables R m = tables R (mem s)" by (rule bitmap_write(2) [OF inv eq sf])
  show "mmu_entry m r va = mmu_entry (mem s) r va" if "r \<in> R" by (rule bitmap_write(3) [OF inv eq sf that])
qed

definition vm1 :: vm_state where
  "vm1 = vm0\<lparr>mem := store64 (mem vm0) 0x1000 0xff00000000000000\<rparr>"

lemma vm0_pmap: "pmap vm0 = [region100]"
  by (simp add: vm0_def)

lemma vm1_facts:
  shows "mmu_inv {root0} vm1" and "pmm_room vm1 3" and "page_of region100 40 \<notin> free_pages vm1"
    and "free_pages vm1 \<subseteq> free_pages vm0" and "tables {root0} (mem vm1) = {root0}"
  using low_frames(1-5) [OF vm0_inv vm0_pmap vm0_free] vm0_root by (simp_all add: vm1_def)

theorem mmu_unmap_page_releases_witness:
  "\<exists>old s s'. mmu_map_page vm1 0x8000 0x400000 (page_of region100 40) PAGE_KERNEL_RW = Inr (old, s)
    \<and> mmu_unmap_page s 0x8000 0x400000 = Inr (page_of region100 40 OR PAGE_KERNEL_RW, s')
    \<and> page_of region100 40 \<in> free_pages s' \<and> mmu_entry (mem s') root0 0x400000 = 0"
proof -
  let ?p = "page_of region100 40"
  have perm: "unat PAGE_KERNEL_RW < 4096" by (simp add: const_defs)
  have rt: "root0 \<in> {root0}" "page_directory space0 \<in> {root0}" by (simp_all add: vm0_space)
  have sp1: "vspaces vm1 0x8000 = Some space0" by (simp add: vm1_def vm0_space)
  have rm: "pmm_room vm1 (0 + 3)" using vm1_facts(2) by simp
  obtain old s where m: "map_page_in vm1 root0 0x400000 ?p PAGE_KERNEL_RW = Inr (old, s)"
    using map_page_in_total [OF vm1_facts(1) rt(1) perm rm] by blast
  note sp = map_page_in_spec [OF vm1_facts(1) rt(1) perm m]
  have s: "s = vm1\<lparr>mem := mem s\<rparr>" using sp by blast
  have pm: "pmap s = [region100]" "vspaces s 0x8000 = Some space0" "pmm_vma_stop s = 0xffffffff80300000"
    by (subst s, simp add: vm1_def vm0_def space0_def)+
  have up: "unat ?p = 0x300000 + 4096 * 40"
    using page_of_unat [OF region100_ok, of 40] by (simp add: region100_def)
  then have udm: "unat (DM_P2V ?p) = 0xffff800000328000"
    unfolding DM_P2V_def by (subst unat_add_no_wrap) (simp_all add: const_defs)
  have "root0 \<noteq> DM_P2V ?p"
  proof
    assume "root0 = DM_P2V ?p"
    then have "unat root0 = 0xffff800000328000" using udm by simp
    then show False by (simp add: root0_def DM_P2V_def const_defs)
  qed
  moreover have "DM_P2V ?p \<notin> DM_P2V ` free_pages vm1" using vm1_facts(3) by (auto simp: DM_P2V_inj)
  ultimately have "DM_P2V ?p \<notin> mmu_pages {root0} vm1" using vm1_facts(5) by (auto simp: mmu_pages_def)
  then have nt: "DM_P2V ?p \<notin> tables {root0} (mem s)" using sp by (auto simp: mmu_pages_def)
  have "page_aligned (DM_P2V ?p)" using udm by simp
  then have off: "off_bitmaps s (DM_P2V ?p)" by (rule high_page_off [OF _ _ pm(1)]) (simp add: udm)
  have e: "mmu_entry (mem s) (page_directory space0) 0x400000 = ?p OR PAGE_KERNEL_RW"
    using sp by (simp add: vm0_space)
  have "page_aligned ?p" using up by simp
  then have nz: "?p OR PAGE_KERNEL_RW \<noteq> 0"
    using or_low_bits [OF _ perm, of ?p] by (metis PAGE_ADDR_add_low add.right_neutral perm unat_0 up
        zero_neq_numeral PAGE_ADDR_def and_zero_eq bit.conj_zero_left add_is_0)
  have vs: "V2P (pmm_vma_stop s) < ?p" using up by (simp add: pm V2P_def const_defs word_less_nat_alt)
  have j: "40 < unat (pr_size_in_pages region100)" "32 < (40 :: nat) mod 64" "region100 \<in> set (pmap s)"
    by (simp_all add: region100_def pm(1))
  have inv: "mmu_inv {root0} s" using sp by blast
  have "mmu_map_page vm1 0x8000 0x400000 ?p PAGE_KERNEL_RW = Inr (old, s)"
    using m sp1 by (simp add: mmu_map_page_def vm0_space)
  then show ?thesis
    using mmu_unmap_page_releases
      [OF inv pm(2) rt(2) e nz perm j(3) region100_ok(2) j(1,2) vs nt off] by (auto simp: vm0_space)
qed

text \<open>
  Unmapping a page that is not mapped never returns: the frame 0 read from the empty entry is
  handed to \<^verbatim>\<open>pmm_free\<close>, which panics. The test for a null result in \<^verbatim>\<open>vmm_free\<close> is never reached.
\<close>

theorem mmu_unmap_absent_panics:
  assumes "mmu_inv R s" and "vspaces s space = Some sp" and "page_directory sp \<in> R"
    and "mmu_entry (mem s) (page_directory sp) va = 0" and "pmm_room s 3"
  shows "mmu_unmap_page s space va = Inl (Panic ''pmm_free: freeing non freeable memory pages'')"
proof -
  have rm: "pmm_room s (0 + 3)" and z: "unat (0 :: u64) < 4096" using assms(5) by simp_all
  obtain old s' where m: "map_page_in s (page_directory sp) va 0 0 = Inr (old, s')"
    using map_page_in_total [OF assms(1,3) z rm] by blast
  have "old = 0" using map_page_in_ent(2) [OF assms(1,3) z m] assms(4) by simp
  then show ?thesis
    using m assms(2) by (simp add: mmu_unmap_page_def mmu_map_page_def pmm_free_def PAGE_ADDR_def)
qed

theorem mmu_unmap_absent_panics_witness:
  "mmu_unmap_page vm0 0x8000 0x400000 = Inl (Panic ''pmm_free: freeing non freeable memory pages'')"
  by (rule mmu_unmap_absent_panics [OF vm0_inv vm0_space(1)]) (simp_all add: vm0_space vm0_unmapped vm0_room)

lemma fresh_root:
  assumes inv: "mmu_inv R s" and p: "p \<in> free_pages s" and m0: "\<And>x. outside_bitmaps (pmap s) x \<Longrightarrow> m0 x = mem s x"
    and free: "free_pages (s\<lparr>mem := m0\<rparr>) = free_pages s - {p}"
    and m': "m' = memset m0 (DM_P2V p) 0 PAGE_SIZE_IN_BYTES"
  shows "mmu_inv (insert (DM_P2V p) R) (s\<lparr>mem := m'\<rparr>)" and "mmu_entry m' (DM_P2V p) va = 0"
    and "r \<in> R \<Longrightarrow> mmu_entry m' r va = mmu_entry (mem s) r va" and "DM_P2V p \<notin> R"
    and "tables (insert (DM_P2V p) R) m' = insert (DM_P2V p) (tables R (mem s))"
    and "free_pages (s\<lparr>mem := m'\<rparr>) = free_pages s - {p}"
proof -
  let ?c = "DM_P2V p"
  note tree = mmu_invD(2) [OF inv]
  have c: "page_aligned ?c" using pg.free_page [OF mmu_invD(1) [OF inv] p] by (intro DM_P2V_aligned) simp
  have cf: "?c \<notin> tables R (mem s)" using mmu_invD(3) [OF inv] p by blast
  have p0: "path []" by (simp add: path_def)
  show cR: "?c \<notin> R" using cf tables_I [OF _ p0 table_at_Nil] by blast
  have eq: "m' x = mem s x" if "t \<in> tables R (mem s)" "page_bytes t x" for t x
  proof -
    have "t \<noteq> ?c" using cf that(1) by blast
    then have "\<not> page_bytes ?c x" using pages_bytes_disjoint [OF mmu_invD(6) [OF inv that(1)] c] that(2) by blast
    then show ?thesis using m0 mmu_invD(4) [OF inv that] by (simp add: m' memset_page)
  qed
  have tb: "table_at m' r q = table_at (mem s) r q" if "r \<in> R" "path q" for r q
    by (rule table_at_frame [OF tree eq that])
  have clear: "load64 m' (tbl_entry ?c i) = 0" if "i < 512" for i
    by (rule load64_zero) (simp add: m' memset_page entry_bytes [OF c that])
  have tc: "table_at m' ?c q = (if q = [] then Some ?c else None)" if "path q" for q
    using that
  proof (induction q rule: rev_induct)
    case (snoc i q)
    then show ?case using clear path_prefix [OF snoc.prems]
      by (auto simp: table_at_snoc table_step_def split: if_splits)
  qed simp
  have tR: "tables R m' = tables R (mem s)" "pt_tree R m' = pt_tree R (mem s)"
    by (rule tables_cong, rule tb, assumption+)+
  have "tables {?c} m' = {?c}" using tc p0 by (auto simp: tables_def split: if_splits)
  moreover have "tables (insert ?c R) m' = tables {?c} m' \<union> tables R m'" by (auto simp: tables_def)
  ultimately show tt: "tables (insert ?c R) m' = insert ?c (tables R (mem s))" using tR by simp
  have "pt_tree (insert ?c R) m'"
    unfolding pt_tree_def tt
  proof (intro conjI ballI allI impI)
    fix t assume "t \<in> insert ?c (tables R (mem s))"
    then show "page_aligned t" using c mmu_invD(6) [OF inv] by auto
  next
    fix r1 r2 q1 q2 t
    assume R: "r1 \<in> insert ?c R" "r2 \<in> insert ?c R"
      and h: "path q1 \<and> path q2 \<and> table_at m' r1 q1 = Some t \<and> table_at m' r2 q2 = Some t"
    have in1: "t \<in> tables R (mem s)" if "r1 \<noteq> ?c" using R(1) that h tb by (auto intro: tables_I)
    have in2: "t \<in> tables R (mem s)" if "r2 \<noteq> ?c" using R(2) that h tb by (auto intro: tables_I)
    show "r1 = r2" "q1 = q2"
    proof (atomize (full), cases "r1 = ?c \<or> r2 = ?c")
      case True
      then have "t = ?c" using h tc by (auto split: if_splits)
      then have "r1 = ?c" "r2 = ?c" using in1 in2 cf by auto
      then show "r1 = r2 \<and> q1 = q2" using h tc by (auto split: if_splits)
    next
      case False
      then have "r1 \<in> R" "r2 \<in> R" using R by auto
      then show "r1 = r2 \<and> q1 = q2" using pt_tree_inj [OF tree, of r1 r2 q1 q2 t] h tb by auto
    qed
  qed
  moreover show "free_pages (s\<lparr>mem := m'\<rparr>) = free_pages s - {p}"
  proof -
    have "free_pages ((s\<lparr>mem := m0\<rparr>)\<lparr>mem := m'\<rparr>) = free_pages (s\<lparr>mem := m0\<rparr>)"
    proof (rule free_pages_frame)
      show "pmm_inv (s\<lparr>mem := m0\<rparr>)" using mmu_invD(1) [OF inv] by (simp add: pmm_inv_def)
      fix x assume "\<not> outside_bitmaps (pmap (s\<lparr>mem := m0\<rparr>)) x"
      then have "\<not> page_bytes ?c x" using mmu_invD(5) [OF inv p] by auto
      then show "m' x = mem (s\<lparr>mem := m0\<rparr>) x" by (simp add: m' memset_page)
    qed
    then show ?thesis using free by simp
  qed
  ultimately show "mmu_inv (insert ?c R) (s\<lparr>mem := m'\<rparr>)"
    using inv p unfolding mmu_inv_def by (auto simp: tt pmm_inv_def off_bitmaps_def DM_P2V_inj)
  have "va_path va \<noteq> []" by (simp add: va_path_def)
  then show "mmu_entry m' ?c va = 0" using tc [OF va_path_path, of va] by (simp add: mmu_entry_def)
  show "mmu_entry m' r va = mmu_entry (mem s) r va" if "r \<in> R"
    by (rule mmu_entry_frame [OF tree _ that]) (rule eq)
qed

lemma mmu_init_space:
  assumes "mmu_inv R s" and "mmu_init s space = Inr s'"
  obtains sp where "vspaces s' space = Some sp" and "page_directory sp \<notin> R"
    and "mmu_inv (insert (page_directory sp) R) s'" and "\<forall>va. mmu_entry (mem s') (page_directory sp) va = 0"
    and "\<forall>r \<in> R. \<forall>va. mmu_entry (mem s') r va = mmu_entry (mem s) r va"
    and "mmu_pages (insert (page_directory sp) R) s' \<subseteq> mmu_pages R s" and "free_pages s' \<subseteq> free_pages s"
    and "\<forall>x. mmu_untouched R s x \<longrightarrow> mem s' x = mem s x"
    and "\<exists>sp0. vspaces s space = Some sp0 \<and> sp = sp0\<lparr>page_directory := page_directory sp\<rparr>"
    and "s' = s\<lparr>vspaces := (vspaces s)(space \<mapsto> sp), mem := mem s'\<rparr>"
proof -
  from assms(2) obtain p s1 sp where x: "pmm_xalloc s = Inr (p, s1)" "vspaces s1 space = Some sp"
    and s': "s' = s1\<lparr>vspaces := (vspaces s1)(space \<mapsto> sp\<lparr>page_directory := DM_P2V p\<rparr>),
       mem := memset (mem s1) (DM_P2V p) 0 PAGE_SIZE_IN_BYTES\<rparr>"
    by (auto simp: mmu_init_def bindR_Inr_iff Let_def deref_Inr_iff)
  note xa = xalloc_mmu [OF assms(1) x(1)]
  have a: "pmm_alloc s = Inr (p, s1)" using x(1) by (simp add: pmm_xalloc_Inr)
  have fr: "free_pages (s\<lparr>mem := mem s1\<rparr>) = free_pages s - {p}" using xa(4,7) by metis
  note root = fresh_root [OF assms(1) xa(5) _ fr refl]
  have out: "mem s1 x = mem s x" if "outside_bitmaps (pmap s) x" for x
    by (rule pmm_alloc_spec(6) [OF mmu_invD(1) [OF assms(1)] a that])
  let ?m = "memset (mem s1) (DM_P2V p) 0 PAGE_SIZE_IN_BYTES"
  have eq: "pmap s1 = pmap s" "vspaces s1 = vspaces s" by (subst xa(7), simp)+
  have "mmu_inv (insert (DM_P2V p) R) (s\<lparr>mem := ?m\<rparr>)" by (rule root(1)) (rule out)
  then have inv: "mmu_inv (insert (DM_P2V p) R) s'"
    using eq(1) by (simp add: s' mmu_inv_def pmm_inv_def off_bitmaps_def free_pages_def)
  have e: "mmu_entry ?m (DM_P2V p) va = 0" for va by (rule root(2)) (rule out)
  have k: "mmu_entry ?m r va = mmu_entry (mem s) r va" if "r \<in> R" for r va
    by (rule root(3) [OF _ that]) (rule out)
  have n: "DM_P2V p \<notin> R" by (rule root(4)) (rule out)
  have t: "tables (insert (DM_P2V p) R) ?m = insert (DM_P2V p) (tables R (mem s))" by (rule root(5)) (rule out)
  have "free_pages (s\<lparr>mem := ?m\<rparr>) = free_pages s - {p}" by (rule root(6)) (rule out)
  then have f: "free_pages s' = free_pages s - {p}" using eq(1) by (simp add: s' free_pages_def)
  have pg: "DM_P2V p \<in> mmu_pages R s" using xa(5) by (simp add: mmu_pages_def)
  then have u: "?m x = mem s x" if "mmu_untouched R s x" for x
    using that out by (auto simp: memset_page mmu_untouched_def)
  have "s' = s\<lparr>vspaces := (vspaces s)(space \<mapsto> sp\<lparr>page_directory := DM_P2V p\<rparr>), mem := mem s'\<rparr>"
    unfolding s' by (subst xa(7)) (simp add: eq(2))
  then show thesis
    using x(2) inv e k n t f pg u eq(2)
    by (intro that [of "sp\<lparr>page_directory := DM_P2V p\<rparr>"]) (auto simp: s' mmu_pages_def)
qed

text \<open>
  Initialising a space gives it a root table of its own: no page is mapped in it, no table of
  another space is shared with it, and the mappings of all other spaces are unchanged.
\<close>

theorem mmu_init_new_space:
  assumes "mmu_inv R s" and "mmu_init s space = Inr s'"
  shows "\<exists>sp. vspaces s' space = Some sp \<and> page_directory sp \<notin> R
    \<and> mmu_inv (insert (page_directory sp) R) s'
    \<and> (\<forall>va. mmu_entry (mem s') (page_directory sp) va = 0)
    \<and> (\<forall>r \<in> R. \<forall>va. mmu_entry (mem s') r va = mmu_entry (mem s) r va)"
  by (rule mmu_init_space [OF assms]) blast

theorem mmu_init_new_space_witness:
  "\<exists>s' sp. mmu_init vm0 0x8000 = Inr s' \<and> vspaces s' 0x8000 = Some sp \<and> page_directory sp \<noteq> root0
    \<and> mmu_inv {page_directory sp, root0} s'"
proof -
  have "pmm_room vm0 (Suc 0)" by (simp add: vm0_room)
  then obtain p s1 where x: "pmm_xalloc vm0 = Inr (p, s1)"
    using pmm_room_xalloc [OF mmu_invD(1) [OF vm0_inv]] by blast
  have "vspaces s1 0x8000 = Some space0"
    using xalloc_mmu(7) [OF vm0_inv x] vm0_space(1) by (metis vm_state.select_convs(2) vm_state.surjective
        pmm_state.update_convs(1) kmem.update_convs(1) vm_state.ext_inject)
  then obtain s' where i: "mmu_init vm0 0x8000 = Inr s'" using x by (simp add: mmu_init_def Let_def)
  from mmu_init_new_space [OF vm0_inv i] i show ?thesis by auto
qed

lemma mmu_init_total:
  assumes inv: "mmu_inv R s" and sp: "vspaces s space = Some sp" and room: "pmm_room s (Suc k)"
  shows "\<exists>s' pd. mmu_init s space = Inr s' \<and> pmm_room s' k
    \<and> s' = s\<lparr>vspaces := (vspaces s)(space \<mapsto> sp\<lparr>page_directory := pd\<rparr>), mem := mem s'\<rparr>"
proof -
  obtain p s1 where x: "pmm_xalloc s = Inr (p, s1)" "pmm_room s1 k"
    using pmm_room_xalloc [OF mmu_invD(1) [OF inv] room] by blast
  note xa = xalloc_mmu [OF inv x(1)]
  obtain m1 where s1: "s1 = s\<lparr>mem := m1\<rparr>" using xa(7) by blast
  let ?m = "memset m1 (DM_P2V p) 0 PAGE_SIZE_IN_BYTES"
  have "pmm_room (s1\<lparr>mem := ?m\<rparr>) k"
  proof (rule pmm_room_frame [OF mmu_invD(1) [OF xa(1)] _ x(2)])
    fix x assume "\<not> outside_bitmaps (pmap s1) x"
    then have "\<not> page_bytes (DM_P2V p) x" using mmu_invD(5) [OF inv xa(5)] by (auto simp: s1)
    then show "?m x = mem s1 x" by (simp add: memset_page s1)
  qed
  then have "pmm_room (s\<lparr>vspaces := (vspaces s)(space \<mapsto> sp\<lparr>page_directory := DM_P2V p\<rparr>), mem := ?m\<rparr>) k"
    by (simp add: pmm_room_def s1)
  then show ?thesis using x(1) sp by (intro exI [of _ "s\<lparr>vspaces := (vspaces s)(space \<mapsto>
    sp\<lparr>page_directory := DM_P2V p\<rparr>), mem := ?m\<rparr>"] exI [of _ "DM_P2V p"])
    (simp add: mmu_init_def Let_def s1)
qed

definition text_region :: vmm_region where
  "text_region = \<lparr>va_start = 0x400000, va_stop = 0x401000, vr_next = 0, vr_prev = 0,
     vr_flags = PAGE_USER_RW\<rparr>"

end
