(* ===== verification/Dll.thy ===== *)
theory Dll
  imports Prelude
begin

text \<open>
  Doubly linked lists that end in the null pointer, over a typed heap: the shape of the region
  list of an address space, of the block chains of the object allocator and of the container and
  block chains of the kernel heap. \<open>nx\<close> and \<open>pv\<close> are the two link fields of a node.
\<close>

fun dseg :: "('n \<Rightarrow> u64) \<Rightarrow> ('n \<Rightarrow> u64) \<Rightarrow> (u64 \<rightharpoonup> 'n) \<Rightarrow> u64 \<Rightarrow> u64 \<Rightarrow> u64 list \<Rightarrow> u64 \<Rightarrow> bool" where
  "dseg nx pv h pr p [] q \<longleftrightarrow> p = q"
| "dseg nx pv h pr p (a # as) q \<longleftrightarrow>
     p = a \<and> a \<noteq> 0 \<and> (\<exists>n. h a = Some n \<and> pv n = pr \<and> dseg nx pv h a (nx n) as q)"

definition dll :: "('n \<Rightarrow> u64) \<Rightarrow> ('n \<Rightarrow> u64) \<Rightarrow> (u64 \<rightharpoonup> 'n) \<Rightarrow> u64 \<Rightarrow> u64 list \<Rightarrow> bool" where
  "dll nx pv h p as \<longleftrightarrow> dseg nx pv h 0 p as 0"

lemma dseg_append:
  "dseg nx pv h pr p (as @ bs) q \<longleftrightarrow>
    (\<exists>m. dseg nx pv h pr p as m \<and> dseg nx pv h (last (pr # as)) m bs q)"
  by (induction as arbitrary: pr p) auto

lemma dseg_node: "dseg nx pv h pr p as q \<Longrightarrow> a \<in> set as \<Longrightarrow> a \<noteq> 0 \<and> (\<exists>n. h a = Some n)"
  by (induction as arbitrary: pr p) auto

lemma dseg_cong:
  assumes "\<And>a v. a \<in> set as \<Longrightarrow> h a = Some v \<Longrightarrow> \<exists>v'. h' a = Some v' \<and> nx v' = nx v \<and> pv v' = pv v"
  shows "dseg nx pv h pr p as q \<Longrightarrow> dseg nx pv h' pr p as q"
  using assms
proof (induction as arbitrary: pr p)
  case (Cons a as)
  then obtain v where "h a = Some v" "pv v = pr" "p = a" "a \<noteq> 0" "dseg nx pv h a (nx v) as q" by auto
  moreover obtain v' where "h' a = Some v'" "nx v' = nx v" "pv v' = pv v"
    using Cons.prems(2) [of a v] calculation by auto
  moreover have "dseg nx pv h' a (nx v) as q" using Cons calculation by auto
  ultimately show ?case by auto
qed simp

lemma dseg_start: "dseg nx pv h pr p as 0 \<Longrightarrow> p = hd (as @ [0])"
  by (cases as) auto

lemma dseg_fun:
  "dseg nx pv h pr p as 0 \<Longrightarrow> dseg nx pv h pr' p bs 0 \<Longrightarrow> as = bs"
proof (induction as arbitrary: pr pr' p bs)
  case Nil
  then show ?case by (cases bs) auto
next
  case (Cons a as)
  then show ?case by (cases bs) auto
qed

lemma dseg_suffix:
  "dseg nx pv h pr p (as @ a # bs) 0 \<Longrightarrow> \<exists>pr'. dseg nx pv h pr' a (a # bs) 0"
  unfolding dseg_append by auto

lemma dll_distinct:
  assumes "dll nx pv h p as"
  shows "distinct as"
proof (rule ccontr)
  assume "\<not> distinct as"
  then obtain xs a ys zs where as: "as = xs @ [a] @ ys @ [a] @ zs" using not_distinct_decomp by blast
  have d: "dseg nx pv h 0 p (xs @ a # (ys @ a # zs)) 0" using assms as by (simp add: dll_def)
  have d': "dseg nx pv h 0 p ((xs @ a # ys) @ a # zs) 0" using d by simp
  obtain p1 p2 where "dseg nx pv h p1 a (a # (ys @ a # zs)) 0" "dseg nx pv h p2 a (a # zs) 0"
    using dseg_suffix [OF d] dseg_suffix [OF d'] by blast
  then have "a # (ys @ a # zs) = a # zs" by (rule dseg_fun)
  then have "length (ys @ a # zs) = length zs" by simp
  then show False by simp
qed

lemma dll_Nil [simp]: "dll nx pv h p [] \<longleftrightarrow> p = 0"
  by (simp add: dll_def)

lemma dll_empty: "dll nx pv h 0 as \<longleftrightarrow> as = []"
  by (cases as) (auto simp: dll_def)

lemma dll_start: "dll nx pv h p as \<Longrightarrow> p = hd (as @ [0])"
  unfolding dll_def by (rule dseg_start)

lemma dll_node: "dll nx pv h p as \<Longrightarrow> a \<in> set as \<Longrightarrow> a \<noteq> 0 \<and> (\<exists>n. h a = Some n)"
  unfolding dll_def by (rule dseg_node)

lemma dll_cong:
  assumes "\<And>a v. a \<in> set as \<Longrightarrow> h a = Some v \<Longrightarrow> \<exists>v'. h' a = Some v' \<and> nx v' = nx v \<and> pv v' = pv v"
  shows "dll nx pv h p as \<Longrightarrow> dll nx pv h' p as"
  unfolding dll_def by (rule dseg_cong) (rule assms)

lemma dll_frame: "(\<And>a. a \<in> set as \<Longrightarrow> h' a = h a) \<Longrightarrow> dll nx pv h p as \<Longrightarrow> dll nx pv h' p as"
  by (rule dll_cong) auto

text \<open>The links of a node in the middle.\<close>

lemma dll_links:
  assumes "dll nx pv h p (as @ x # bs)"
  shows "\<exists>n. h x = Some n \<and> pv n = last (0 # as) \<and> nx n = hd (bs @ [0])"
proof -
  obtain m where m: "dseg nx pv h (last (0 # as)) m (x # bs) 0"
    using assms unfolding dll_def dseg_append by blast
  then obtain n where n: "h x = Some n" "pv n = last (0 # as)" "dseg nx pv h x (nx n) bs 0" by auto
  then show ?thesis using dseg_start [OF n(3)] by auto
qed

lemma dseg_last:
  assumes "dseg nx pv h pr p (as @ [l]) m" and "h l = Some v"
    and "\<And>a. a \<in> set as \<Longrightarrow> \<forall>w. h a = Some w \<longrightarrow> (\<exists>w'. h' a = Some w' \<and> nx w' = nx w \<and> pv w' = pv w)"
    and "h' l = Some v'" and "pv v' = pv v"
  shows "dseg nx pv h' pr p (as @ [l]) (nx v')"
proof -
  obtain k where k: "dseg nx pv h pr p as k" "dseg nx pv h (last (pr # as)) k [l] m"
    using assms(1) unfolding dseg_append by blast
  have "dseg nx pv h' pr p as k" by (rule dseg_cong [OF _ k(1)]) (use assms(3) in blast)
  moreover have "dseg nx pv h' (last (pr # as)) k [l] (nx v')" using k(2) assms(2,4,5) by auto
  ultimately show ?thesis unfolding dseg_append by blast
qed

lemma dll_relink:
  assumes d: "dll nx pv h p (as @ bs)"
    and old: "\<And>a v. a \<in> set (as @ bs) \<Longrightarrow> h a = Some v \<Longrightarrow> \<exists>v'. h' a = Some v'
      \<and> nx v' = (if as \<noteq> [] \<and> a = last as then x else nx v)
      \<and> pv v' = (if bs \<noteq> [] \<and> a = hd bs then y else pv v)"
  shows "dseg nx pv h' 0 (if as = [] then x else p) as x" and "dseg nx pv h' y (hd (bs @ [0])) bs 0"
proof -
  have dist: "distinct (as @ bs)" by (rule dll_distinct [OF d])
  obtain m where m: "dseg nx pv h 0 p as m" "dseg nx pv h (last (0 # as)) m bs 0"
    using d unfolding dll_def dseg_append by blast
  show "dseg nx pv h' 0 (if as = [] then x else p) as x"
  proof (cases as rule: rev_cases)
    case Nil
    then show ?thesis by simp
  next
    case (snoc as0 l)
    then obtain v where v: "h l = Some v" using dseg_node [OF m(1)] by auto
    have lb: "\<not> (bs \<noteq> [] \<and> l = hd bs)" using dist snoc by (cases bs) auto
    then obtain v' where v': "h' l = Some v'" "nx v' = x" "pv v' = pv v"
      using old [of l v] v snoc by auto
    have "dseg nx pv h' 0 p (as0 @ [l]) (nx v')"
    proof (rule dseg_last [where h = h and v = v])
      show "dseg nx pv h 0 p (as0 @ [l]) m" using m(1) snoc by simp
      show "h l = Some v" by (rule v)
      show "h' l = Some v'" by (rule v'(1))
      show "pv v' = pv v" by (rule v'(3))
      fix a assume a: "a \<in> set as0"
      have "a \<noteq> l" "\<not> (bs \<noteq> [] \<and> a = hd bs)" using dist snoc a by (cases bs, auto)+
      then show "\<forall>w. h a = Some w \<longrightarrow> (\<exists>w'. h' a = Some w' \<and> nx w' = nx w \<and> pv w' = pv w)"
        using old [of a] a snoc by auto
    qed
    then show ?thesis using snoc v'(2) by simp
  qed
  show "dseg nx pv h' y (hd (bs @ [0])) bs 0"
  proof (cases bs)
    case Nil
    then show ?thesis by simp
  next
    case (Cons b bs0)
    from m(2) Cons obtain v where v: "h b = Some v" "b \<noteq> 0" "dseg nx pv h b (nx v) bs0 0" by auto
    have "b \<notin> set as" "b \<notin> set bs0" using dist Cons by auto
    then have ba: "\<not> (as \<noteq> [] \<and> b = last as)" using last_in_set by blast
    then obtain v' where v': "h' b = Some v'" "nx v' = nx v" "pv v' = y" using old [of b v] v Cons by auto
    have "dseg nx pv h' b (nx v) bs0 0"
    proof (rule dseg_cong [OF _ v(3)])
      fix a w assume a: "a \<in> set bs0" "h a = Some w"
      have "a \<notin> set as" "a \<noteq> b" using dist Cons a \<open>b \<notin> set bs0\<close> by auto
      then show "\<exists>v'. h' a = Some v' \<and> nx v' = nx w \<and> pv v' = pv w"
        using old [of a w] a Cons last_in_set [of as] by auto
    qed
    then show ?thesis using Cons v v' by simp
  qed
qed

lemma dll_insert:
  assumes d: "dll nx pv h p (as @ bs)" and x: "x \<noteq> 0"
    and hx: "h' x = Some n" "nx n = hd (bs @ [0])" "pv n = last (0 # as)"
    and old: "\<And>a v. a \<in> set (as @ bs) \<Longrightarrow> h a = Some v \<Longrightarrow> \<exists>v'. h' a = Some v'
      \<and> nx v' = (if as \<noteq> [] \<and> a = last as then x else nx v)
      \<and> pv v' = (if bs \<noteq> [] \<and> a = hd bs then x else pv v)"
  shows "dll nx pv h' (if as = [] then x else p) (as @ x # bs)"
  using dll_relink [OF d old] x hx unfolding dll_def dseg_append by auto

lemma dll_remove:
  assumes d: "dll nx pv h p (as @ x # bs)"
    and old: "\<And>a v. a \<in> set (as @ bs) \<Longrightarrow> h a = Some v \<Longrightarrow> \<exists>v'. h' a = Some v'
      \<and> nx v' = (if as \<noteq> [] \<and> a = last as then hd (bs @ [0]) else nx v)
      \<and> pv v' = (if bs \<noteq> [] \<and> a = hd bs then last (0 # as) else pv v)"
  shows "dll nx pv h' (if as = [] then hd (bs @ [0]) else p) (as @ bs)"
proof -
  have dist: "distinct (as @ x # bs)" by (rule dll_distinct [OF d])
  obtain n where n: "h x = Some n" "pv n = last (0 # as)" "nx n = hd (bs @ [0])" "x \<noteq> 0"
    using dll_links [OF d] dll_node [OF d, of x] by auto
  have dx: "dll nx pv h p ((as @ [x]) @ bs)" using d by simp
  have 1: "dseg nx pv h' 0 (if as = [] then hd (bs @ [0]) else p) as (hd (bs @ [0]))"
  proof -
    have d1: "dll nx pv h p (as @ (x # bs))" by (rule d)
    let ?g = "\<lambda>a. if a \<in> set as then h' a else map_option id (h a)"
    have "dseg nx pv ?g 0 (if as = [] then hd (bs @ [0]) else p) as (hd (bs @ [0]))"
    proof (rule dll_relink(1) [OF d1, where y = "last (0 # as)"])
      fix a v assume a: "a \<in> set (as @ x # bs)" "h a = Some v"
      show "\<exists>v'. ?g a = Some v' \<and> nx v' = (if as \<noteq> [] \<and> a = last as then hd (bs @ [0]) else nx v)
        \<and> pv v' = (if x # bs \<noteq> [] \<and> a = hd (x # bs) then last (0 # as) else pv v)"
      proof (cases "a \<in> set as")
        case True
        then have "a \<noteq> x" "\<not> (bs \<noteq> [] \<and> a = hd bs)" using dist by (cases bs, auto)+
        then show ?thesis using old [of a v] a True by auto
      next
        case False
        then have "\<not> (as \<noteq> [] \<and> a = last as)" using last_in_set by blast
        then show ?thesis using False a n by (auto simp: option.map_id)
      qed
    qed
    then show ?thesis by (rule dseg_cong [rotated]) auto
  qed
  have 2: "dseg nx pv h' (last (0 # as)) (hd (bs @ [0])) bs 0"
  proof -
    let ?g = "\<lambda>a. if a \<in> set bs then h' a else h a"
    have "dseg nx pv ?g (last (0 # as)) (hd (bs @ [0])) bs 0"
    proof (rule dll_relink(2) [OF dx, where x = "hd (bs @ [0])"])
      fix a v assume a: "a \<in> set ((as @ [x]) @ bs)" "h a = Some v"
      show "\<exists>v'. ?g a = Some v' \<and> nx v' = (if as @ [x] \<noteq> [] \<and> a = last (as @ [x]) then hd (bs @ [0]) else nx v)
        \<and> pv v' = (if bs \<noteq> [] \<and> a = hd bs then last (0 # as) else pv v)"
      proof (cases "a \<in> set bs")
        case True
        then have "a \<noteq> x" "a \<notin> set as" using dist by auto
        then have "\<not> (as \<noteq> [] \<and> a = last as)" using last_in_set by blast
        then show ?thesis using old [of a v] a True \<open>a \<noteq> x\<close> by auto
      next
        case False
        then have "\<not> (bs \<noteq> [] \<and> a = hd bs)" by (cases bs) auto
        then show ?thesis using False a n by auto
      qed
    qed
    then show ?thesis by (rule dseg_cong [rotated]) auto
  qed
  show ?thesis using 1 2 unfolding dll_def dseg_append by blast
qed

end
