(* ===== verification/Vmm.thy ===== *)
theory Vmm
  imports Mmu Dll
begin

text \<open>
  The virtual memory manager of \<^verbatim>\<open>kernel/mm/vmm.c\<close>: the block allocator its region and space
  objects come from, the sorted list of regions of a space with merging and splitting, the search
  for a free address range, and the operations that change regions and page tables together.
  Region, space and block objects live in typed heaps indexed by address; the bitmaps of the
  blocks live in byte memory. An access to an object that was released is a \<open>Fault\<close>.
\<close>

section \<open>State\<close>

datatype struct_type = TYPE_VMM_REGION | TYPE_VMM_SPACE

record vmm_block =
  vb_objects :: u64
  vb_nb_used :: u64
  vb_object_size :: u64
  vb_max_objects :: u64
  vb_bm :: bitmap
  vb_prev :: u64
  vb_next :: u64

record vmm_state = vm_state +
  vblocks :: "u64 \<rightharpoonup> vmm_block"
  block_heads :: "struct_type \<Rightarrow> u64"
  kspace :: u64
  kernel_dm_stop :: u64

section \<open>Object allocator\<close>

definition sizeof_vmm_block :: u64 where [const_defs]: "sizeof_vmm_block = 72"

fun get_struct_size :: "struct_type \<Rightarrow> u64" where
  "get_struct_size TYPE_VMM_REGION = 40"
| "get_struct_size TYPE_VMM_SPACE = 16"

text \<open>
  The source never assigns \<^verbatim>\<open>nb_used\<close> of a new block: it starts as whatever the page holds in
  the second word of the structure.
\<close>

definition create_block ::
  "struct_type \<Rightarrow> u64 \<Rightarrow> 'a vmm_state_scheme \<Rightarrow> (u64 \<times> 'a vmm_state_scheme) res" where
  "create_block type prev s =
     bindR (pmm_xalloc s) (\<lambda>(p, s1).
       let new_block = DM_P2V p;
           size = get_struct_size type;
           max_objects = (PAGE_SIZE_IN_BYTES - sizeof_vmm_block) div (size + 1);
           objects = new_block + sizeof_vmm_block;
           (last_used_map, bm, m) = bitmap_init (mem s1) max_objects (objects + max_objects * size);
           b = \<lparr>vb_objects = objects, vb_nb_used = load64 (mem s1) (new_block + 8),
                vb_object_size = size, vb_max_objects = max_objects, vb_bm = bm,
                vb_prev = prev, vb_next = 0\<rparr>
       in Inr (new_block, s1\<lparr>mem := m, vblocks := (vblocks s1)(new_block \<mapsto> b)\<rparr>))"

partial_function (option) block_alloc_from ::
  "struct_type \<Rightarrow> 'a vmm_state_scheme \<Rightarrow> u64 \<Rightarrow> (u64 \<times> 'a vmm_state_scheme) res option" where
  "block_alloc_from type s current =
     (if current = 0 then Some (Inr (0, s))
      else case vblocks s current of
        None \<Rightarrow> Some (Inl Fault)
      | Some b \<Rightarrow>
        (case bitmap_find_and_set (mem s) (vb_bm b) of
           Inl e \<Rightarrow> Some (Inl e)
         | Inr r \<Rightarrow>
           (if fst r \<noteq> bm_len (vb_bm b) then
              Some (Inr (vb_objects b + fst r * vb_object_size b,
                s\<lparr>mem := snd r,
                  vblocks := (vblocks s)(current \<mapsto> b\<lparr>vb_nb_used := vb_nb_used b + 1\<rparr>)\<rparr>))
            else if vb_next b = 0 then
              (case create_block type current (s\<lparr>mem := snd r\<rparr>) of
                 Inl e \<Rightarrow> Some (Inl e)
               | Inr c \<Rightarrow> block_alloc_from type
                   ((snd c)\<lparr>vblocks := (vblocks (snd c))(current \<mapsto> b\<lparr>vb_next := fst c\<rparr>)\<rparr>) (fst c))
            else block_alloc_from type (s\<lparr>mem := snd r\<rparr>) (vb_next b))))"

definition block_alloc :: "struct_type \<Rightarrow> 'a vmm_state_scheme \<Rightarrow> (u64 \<times> 'a vmm_state_scheme) res" where
  "block_alloc type s =
     bindR (if block_heads s type = 0 then
              bindR (create_block type 0 s) (\<lambda>(b, s1).
                Inr (s1\<lparr>block_heads := (block_heads s1)(type := b)\<rparr>))
            else Inr s)
       (\<lambda>s2. ret (block_alloc_from type s2 (block_heads s2 type)))"

definition set_block ::
  "u64 \<Rightarrow> (vmm_block \<Rightarrow> vmm_block) \<Rightarrow> 'a vmm_state_scheme \<Rightarrow> 'a vmm_state_scheme res" where
  "set_block p f s =
     bindR (deref (vblocks s) p) (\<lambda>b. Inr (s\<lparr>vblocks := (vblocks s)(p \<mapsto> f b)\<rparr>))"

text \<open>The object at an address ends its life.\<close>

fun drop_object :: "struct_type \<Rightarrow> u64 \<Rightarrow> 'a vmm_state_scheme \<Rightarrow> 'a vmm_state_scheme" where
  "drop_object TYPE_VMM_REGION p s = s\<lparr>vregions := (vregions s)(p := None)\<rparr>"
| "drop_object TYPE_VMM_SPACE p s = s\<lparr>vspaces := (vspaces s)(p := None)\<rparr>"

definition block_release :: "u64 \<Rightarrow> u64 \<Rightarrow> vmm_block \<Rightarrow> 'a vmm_state_scheme \<Rightarrow> 'a vmm_state_scheme res" where
  "block_release ptr current b s =
     bindR (if vb_object_size b = 0 then Inl Div_By_Zero
            else bitmap_unset (mem s) (vb_bm b) ((ptr - vb_objects b) div vb_object_size b)) (\<lambda>m.
       let b' = b\<lparr>vb_nb_used := vb_nb_used b - 1\<rparr>;
           s1 = s\<lparr>mem := m, vblocks := (vblocks s)(current \<mapsto> b')\<rparr> in
       if vb_nb_used b' = 0 then
         bindR (if vb_prev b' \<noteq> 0 then set_block (vb_prev b') (\<lambda>c. c\<lparr>vb_next := vb_next b'\<rparr>) s1 else Inr s1) (\<lambda>s2.
         bindR (if vb_next b' \<noteq> 0 then set_block (vb_next b') (\<lambda>c. c\<lparr>vb_prev := vb_prev b'\<rparr>) s2 else Inr s2) (\<lambda>s3.
         bindR (pmm_free s3 (DM_V2P current)) (\<lambda>s4.
           Inr (s4\<lparr>vblocks := (vblocks s4)(current := None)\<rparr>))))
       else Inr s1)"

partial_function (option) block_free_from ::
  "u64 \<Rightarrow> 'a vmm_state_scheme \<Rightarrow> u64 \<Rightarrow> 'a vmm_state_scheme res option" where
  "block_free_from ptr s current =
     (if current = 0 then Some (Inl (Panic ''block_free: freeing unknown pointer''))
      else case vblocks s current of
        None \<Rightarrow> Some (Inl Fault)
      | Some b \<Rightarrow>
          (if ptr < vb_objects b \<or> ptr > vb_objects b + vb_max_objects b * vb_object_size b
           then block_free_from ptr s (vb_next b)
           else Some (block_release ptr current b s)))"

definition block_free ::
  "u64 \<Rightarrow> struct_type \<Rightarrow> 'a vmm_state_scheme \<Rightarrow> 'a vmm_state_scheme res" where
  "block_free ptr type s =
     bindR (ret (block_free_from ptr s (block_heads s type))) (\<lambda>s'. Inr (drop_object type ptr s'))"

section \<open>Regions\<close>

definition set_region ::
  "u64 \<Rightarrow> (vmm_region \<Rightarrow> vmm_region) \<Rightarrow> 'a vm_state_scheme \<Rightarrow> 'a vm_state_scheme res" where
  "set_region p f s =
     bindR (deref (vregions s) p) (\<lambda>r. Inr (s\<lparr>vregions := (vregions s)(p \<mapsto> f r)\<rparr>))"

definition set_space ::
  "u64 \<Rightarrow> (vmm_space \<Rightarrow> vmm_space) \<Rightarrow> 'a vm_state_scheme \<Rightarrow> 'a vm_state_scheme res" where
  "set_space p f s =
     bindR (deref (vspaces s) p) (\<lambda>r. Inr (s\<lparr>vspaces := (vspaces s)(p \<mapsto> f r)\<rparr>))"

definition link_region ::
  "u64 \<Rightarrow> u64 \<Rightarrow> u64 \<Rightarrow> u64 \<Rightarrow> u64 \<Rightarrow> u64 \<Rightarrow> u64 \<Rightarrow> 'a vm_state_scheme \<Rightarrow> 'a vm_state_scheme res" where
  "link_region space region start stop flags prev nxt s =
     bindR (if prev = 0 then set_space space (\<lambda>sp. sp\<lparr>sp_region := region\<rparr>) s else Inr s) (\<lambda>s1.
     let s2 = s1\<lparr>vregions := (vregions s1)(region \<mapsto>
           \<lparr>va_start = start, va_stop = stop, vr_next = nxt, vr_prev = prev, vr_flags = flags\<rparr>)\<rparr> in
     bindR (if prev \<noteq> 0 then set_region prev (\<lambda>r. r\<lparr>vr_next := region\<rparr>) s2 else Inr s2) (\<lambda>s3.
     if nxt \<noteq> 0 then set_region nxt (\<lambda>r. r\<lparr>vr_prev := region\<rparr>) s3 else Inr s3))"

definition vmm_create_region ::
  "'a vmm_state_scheme \<Rightarrow> u64 \<Rightarrow> u64 \<Rightarrow> u64 \<Rightarrow> u64 \<Rightarrow> u64 \<Rightarrow> u64 \<Rightarrow> (u64 \<times> 'a vmm_state_scheme) res" where
  "vmm_create_region s space start stop flags prev nxt =
     bindR (block_alloc TYPE_VMM_REGION s) (\<lambda>(region, s1).
       if region = 0 then Inl Fault
       else bindR (link_region space region start stop flags prev nxt s1) (\<lambda>s2. Inr (region, s2)))"

definition unlink_region :: "u64 \<Rightarrow> u64 \<Rightarrow> 'a vm_state_scheme \<Rightarrow> 'a vm_state_scheme res" where
  "unlink_region space region s =
     bindR (deref (vregions s) region) (\<lambda>r.
       if vr_prev r = 0 \<and> vr_next r = 0 then set_space space (\<lambda>sp. sp\<lparr>sp_region := 0\<rparr>) s
       else
         bindR (deref (vspaces s) space) (\<lambda>sp.
         bindR (if sp_region sp = region then set_space space (\<lambda>sp. sp\<lparr>sp_region := vr_next r\<rparr>) s
                else Inr s) (\<lambda>s1.
         bindR (if vr_prev r \<noteq> 0 then set_region (vr_prev r) (\<lambda>q. q\<lparr>vr_next := vr_next r\<rparr>) s1
                else Inr s1) (\<lambda>s2.
         if vr_next r \<noteq> 0 then set_region (vr_next r) (\<lambda>q. q\<lparr>vr_prev := vr_prev r\<rparr>) s2
         else Inr s2))))"

definition vmm_remove_region :: "'a vmm_state_scheme \<Rightarrow> u64 \<Rightarrow> u64 \<Rightarrow> 'a vmm_state_scheme res" where
  "vmm_remove_region s space region =
     bindR (unlink_region space region s) (\<lambda>s1. block_free region TYPE_VMM_REGION s1)"

text \<open>A field of the region at an address that may be null, tested before it is read.\<close>

definition region_opt :: "'a vm_state_scheme \<Rightarrow> u64 \<Rightarrow> vmm_region option res" where
  "region_opt s p = (if p = 0 then Inr None else bindR (deref (vregions s) p) (\<lambda>r. Inr (Some r)))"

definition vmm_insert_range ::
  "'a vmm_state_scheme \<Rightarrow> u64 \<Rightarrow> u64 \<Rightarrow> u64 \<Rightarrow> u64 \<Rightarrow> u64 \<Rightarrow> u64 \<Rightarrow> (u64 \<times> 'a vmm_state_scheme) res" where
  "vmm_insert_range s space prev nxt start stop flags =
     bindR (region_opt s nxt) (\<lambda>n.
     if (case n of Some r \<Rightarrow> stop > va_start r | None \<Rightarrow> False)
     then Inl (Panic ''vmm_insert_range:overlap with next'')
     else bindR (region_opt s prev) (\<lambda>p.
     if (case p of Some r \<Rightarrow> start < va_stop r | None \<Rightarrow> False)
     then Inl (Panic ''vmm_insert_range:overlap with prev'')
     else
       let connected_with_prev = (case p of Some r \<Rightarrow> start = va_stop r \<and> flags = vr_flags r | None \<Rightarrow> False);
           connected_with_next = (case n of Some r \<Rightarrow> stop = va_start r \<and> vr_flags r = flags | None \<Rightarrow> False)
       in
       if connected_with_prev \<and> connected_with_next then
         bindR (set_region prev (\<lambda>r. r\<lparr>va_stop := va_stop (the n)\<rparr>) s) (\<lambda>s1.
         bindR (vmm_remove_region s1 space nxt) (\<lambda>s2. Inr (prev, s2)))
       else if connected_with_prev then
         bindR (set_region prev (\<lambda>r. r\<lparr>va_stop := stop\<rparr>) s) (\<lambda>s1. Inr (prev, s1))
       else if connected_with_next then
         bindR (set_region nxt (\<lambda>r. r\<lparr>va_start := start\<rparr>) s) (\<lambda>s1. Inr (nxt, s1))
       else vmm_create_region s space start stop flags prev nxt))"

partial_function (option) find_place ::
  "(u64 \<rightharpoonup> vmm_region) \<Rightarrow> u64 \<Rightarrow> u64 \<Rightarrow> u64 \<Rightarrow> u64 \<Rightarrow> (u64 \<times> u64) res option" where
  "find_place h start stop prev cur =
     (if cur = 0 then Some (Inr (prev, cur))
      else case h cur of
        None \<Rightarrow> Some (Inl Fault)
      | Some c \<Rightarrow>
        (case (if prev = 0 then Some True else map_option (\<lambda>p. start > va_start p) (h prev)) of
           None \<Rightarrow> Some (Inl Fault)
         | Some after_prev \<Rightarrow>
             (if after_prev \<and> stop < va_stop c then Some (Inr (prev, cur))
              else find_place h start stop cur (vr_next c))))"

definition vmm_add_range ::
  "'a vmm_state_scheme \<Rightarrow> u64 \<Rightarrow> u64 \<Rightarrow> u64 \<Rightarrow> u64 \<Rightarrow> (u64 \<times> 'a vmm_state_scheme) res" where
  "vmm_add_range s space start stop flags =
     bindR (deref (vspaces s) space) (\<lambda>sp.
       if sp_region sp = 0 then vmm_create_region s space start stop flags 0 0
       else bindR (ret (find_place (vregions s) start stop 0 (sp_region sp))) (\<lambda>(prev, cur).
         vmm_insert_range s space prev cur start stop flags))"

partial_function (option) find_region ::
  "(u64 \<rightharpoonup> vmm_region) \<Rightarrow> u64 \<Rightarrow> u64 \<Rightarrow> u64 res option" where
  "find_region h va region =
     (if region = 0 then Some (Inr 0)
      else case h region of
        None \<Rightarrow> Some (Inl Fault)
      | Some r \<Rightarrow> (if va \<ge> va_start r \<and> va < va_stop r then Some (Inr region)
                   else find_region h va (vr_next r)))"

definition vmm_remove_range ::
  "'a vmm_state_scheme \<Rightarrow> u64 \<Rightarrow> u64 \<Rightarrow> u64 \<Rightarrow> 'a vmm_state_scheme res" where
  "vmm_remove_range s space start stop =
     bindR (deref (vspaces s) space) (\<lambda>sp.
     bindR (ret (find_region (vregions s) start (sp_region sp))) (\<lambda>region.
       if region = 0 then Inl (Panic ''vmm_remove_range: not region matching va range'')
       else bindR (deref (vregions s) region) (\<lambda>r.
         if stop > va_stop r then Inl (Panic ''vmm_remove_range: can't free non contiguous va'')
         else if va_start r = start \<and> va_stop r = stop then vmm_remove_region s space region
         else if va_start r = start then set_region region (\<lambda>r. r\<lparr>va_start := stop\<rparr>) s
         else if va_stop r = stop then set_region region (\<lambda>r. r\<lparr>va_stop := start\<rparr>) s
         else
           bindR (vmm_remove_region s space region) (\<lambda>s1.
           bindR (vmm_add_range s1 space (va_start r) start (vr_flags r)) (\<lambda>(_, s2).
           bindR (vmm_add_range s2 space stop (va_stop r) (vr_flags r)) (\<lambda>(_, s3). Inr s3))))))"

section \<open>Spaces\<close>

text \<open>The two address arguments of the source are not used.\<close>

definition vmm_create_space :: "'a vmm_state_scheme \<Rightarrow> (u64 \<times> 'a vmm_state_scheme) res" where
  "vmm_create_space s =
     bindR (block_alloc TYPE_VMM_SPACE s) (\<lambda>(space, s1).
       if space = 0 then Inl Fault
       else
         let s2 = s1\<lparr>vspaces := (vspaces s1)(space \<mapsto> \<lparr>page_directory = 0, sp_region = 0\<rparr>)\<rparr> in
         bindR (mmu_init s2 space) (\<lambda>s3. Inr (space, s3)))"

partial_function (option) delete_regions ::
  "'a vmm_state_scheme \<Rightarrow> u64 \<Rightarrow> 'a vmm_state_scheme res option" where
  "delete_regions s space =
     (case vspaces s space of
        None \<Rightarrow> Some (Inl Fault)
      | Some sp \<Rightarrow>
        (if sp_region sp = 0 then Some (Inr s)
         else case vregions s (sp_region sp) of
           None \<Rightarrow> Some (Inl Fault)
         | Some r \<Rightarrow>
           (case block_free (sp_region sp) TYPE_VMM_REGION
                   (s\<lparr>vspaces := (vspaces s)(space \<mapsto> sp\<lparr>sp_region := vr_next r\<rparr>)\<rparr>) of
              Inl e \<Rightarrow> Some (Inl e)
            | Inr s' \<Rightarrow> delete_regions s' space)))"

definition vmm_delete_space :: "'a vmm_state_scheme \<Rightarrow> u64 \<Rightarrow> 'a vmm_state_scheme res" where
  "vmm_delete_space s space =
     bindR (ret (delete_regions s space)) (\<lambda>s1. block_free space TYPE_VMM_SPACE s1)"

section \<open>Address ranges\<close>

partial_function (option) find_gap ::
  "(u64 \<rightharpoonup> vmm_region) \<Rightarrow> u64 \<Rightarrow> u64 \<Rightarrow> u64 \<Rightarrow> u64 \<Rightarrow> u64 \<Rightarrow> (u64 \<times> u64 \<times> u64) res option" where
  "find_gap h lower_va need va prev cur =
     (if cur = 0 then Some (Inr (va, prev, cur))
      else case h cur of
        None \<Rightarrow> Some (Inl Fault)
      | Some c \<Rightarrow>
          (if va_stop c < lower_va then find_gap h lower_va need (va_stop c) cur (vr_next c)
           else
             (let va' = MAX64 va lower_va in
              if va_start c - va' \<ge> need then Some (Inr (va', prev, cur))
              else find_gap h lower_va need (va_stop c) cur (vr_next c))))"

text \<open>The loop that backs every page from \<open>va\<close> to the end of the region with a fresh frame.\<close>

definition map_fresh_page ::
  "string \<Rightarrow> u64 \<Rightarrow> u64 \<Rightarrow> 'a vm_state_scheme \<Rightarrow> u64 \<Rightarrow> 'a vm_state_scheme res" where
  "map_fresh_page func space flags s va =
     bindR (pmm_xalloc s) (\<lambda>(pa, s1).
     bindR (mmu_map_page s1 space va pa flags) (\<lambda>(old, s2).
       if old \<noteq> 0 then Inl (Panic (func @ '': overwrite of an already used virtual address''))
       else Inr s2))"

definition vmm_alloc_between ::
  "'a vmm_state_scheme \<Rightarrow> u64 \<Rightarrow> u64 \<Rightarrow> u64 \<Rightarrow> u64 \<Rightarrow> u64 \<Rightarrow> (u64 \<times> 'a vmm_state_scheme) res" where
  "vmm_alloc_between s space lower_va upper_va size_in_pages flags =
     (let size_in_bytes = size_in_pages * PAGE_SIZE_IN_BYTES;
          padding = 2 * PAGE_SIZE_IN_BYTES in
      bindR (deref (vspaces s) space) (\<lambda>sp.
      bindR (ret (find_gap (vregions s) lower_va (size_in_bytes + padding) lower_va 0 (sp_region sp)))
        (\<lambda>(va, prev, cur).
        if va + size_in_bytes + padding \<ge> upper_va then Inr (0, s)
        else
          let va' = va + PAGE_SIZE_IN_BYTES in
          bindR (vmm_insert_range s space prev cur va' (va' + size_in_bytes) flags) (\<lambda>(region, s1).
            if region = 0 then Inr (0, s1)
            else bindR (deref (vregions s1) region) (\<lambda>r.
              bindR (page_loop (map_fresh_page ''vmm_alloc_between'' space flags) s1 va' (va_stop r))
                (\<lambda>s2. Inr (va', s2)))))))"

definition vmm_alloc_at ::
  "'a vmm_state_scheme \<Rightarrow> u64 \<Rightarrow> u64 \<Rightarrow> u64 \<Rightarrow> u64 \<Rightarrow> (u64 \<times> 'a vmm_state_scheme) res" where
  "vmm_alloc_at s space va size_in_pages flags =
     (if va = 0 then Inr (0, s)
      else bindR (vmm_add_range s space va (va + size_in_pages * PAGE_SIZE_IN_BYTES) flags) (\<lambda>(region, s1).
        if region = 0 then Inr (0, s1)
        else bindR (deref (vregions s1) region) (\<lambda>r.
          bindR (page_loop (map_fresh_page ''vmm_alloc_at'' space flags) s1 va (va_stop r)) (\<lambda>s2.
            Inr (va, s2)))))"

definition vmm_map ::
  "'a vmm_state_scheme \<Rightarrow> u64 \<Rightarrow> u64 \<Rightarrow> u64 \<Rightarrow> u64 \<Rightarrow> (u64 \<times> 'a vmm_state_scheme) res" where
  "vmm_map s space va pa flags =
     bindR (vmm_add_range s space va (va + PAGE_SIZE_IN_BYTES) flags) (\<lambda>(region, s1).
       if region = 0 then Inr (0, s1)
       else bindR (mmu_map_page s1 space va pa flags) (\<lambda>(old, s2).
         if old \<noteq> 0 then Inl (Panic ''vmm_map: overwrite of an already used virtual address'')
         else Inr (va, s2)))"

definition unmap_step :: "u64 \<Rightarrow> 'a vm_state_scheme \<Rightarrow> u64 \<Rightarrow> 'a vm_state_scheme res" where
  "unmap_step space s va =
     bindR (mmu_unmap_page s space va) (\<lambda>(pa, s').
       if pa = 0 then Inl (Panic ''vmm_free: trying to unmap a non mapped va'') else Inr s')"

definition vmm_free :: "'a vmm_state_scheme \<Rightarrow> u64 \<Rightarrow> u64 \<Rightarrow> u64 \<Rightarrow> 'a vmm_state_scheme res" where
  "vmm_free s space va size_in_pages =
     (let stop = va + size_in_pages * PAGE_SIZE_IN_BYTES in
      bindR (vmm_remove_range s space va stop) (\<lambda>s1. page_loop (unmap_step space) s1 va stop))"

section \<open>Probing a space\<close>

text \<open>
  The debug probe reads one byte of every page of the regions that are not read-only. A read goes
  through the page tables the processor uses, those \<open>cr3\<close> points to: an entry that is not present
  is a \<open>Fault\<close>. The sum is a local of the source that is thrown away.
\<close>

definition probe_page :: "'a vm_state_scheme \<Rightarrow> u8 \<Rightarrow> u64 \<Rightarrow> u8 res" where
  "probe_page s useless addr =
     (let e = mmu_entry (mem s) (DM_P2V (cr3 s)) addr in
      if \<not> present e then Inl Fault
      else Inr (useless + mem s (DM_P2V (PAGE_ADDR e PAGE_SIZE_IN_BYTES OR (addr AND (PAGE_SIZE_IN_BYTES - 1))))))"

definition probe_region :: "'a vm_state_scheme \<Rightarrow> vmm_region \<Rightarrow> unit res" where
  "probe_region s r =
     (if vr_flags r = PAGE_KERNEL_RO \<or> vr_flags r = PAGE_USER_RO then Inr ()
      else bindR (page_loop (probe_page s) 0 (va_start r) (va_stop r)) (\<lambda>_. Inr ()))"

partial_function (option) probe_regions :: "'a vm_state_scheme \<Rightarrow> u64 \<Rightarrow> unit res option" where
  "probe_regions s region =
     (if region = 0 then Some (Inr ())
      else case vregions s region of
        None \<Rightarrow> Some (Inl Fault)
      | Some r \<Rightarrow>
        (case probe_region s r of
           Inl e \<Rightarrow> Some (Inl e)
         | Inr _ \<Rightarrow> probe_regions s (vr_next r)))"

definition vmm_probe_space :: "'a vm_state_scheme \<Rightarrow> u64 \<Rightarrow> unit res" where
  "vmm_probe_space s space =
     bindR (deref (vspaces s) space) (\<lambda>sp. ret (probe_regions s (sp_region sp)))"

section \<open>Kernel space\<close>

definition map_contiguous ::
  "vmm_region \<Rightarrow> u64 \<Rightarrow> 'a vmm_state_scheme \<Rightarrow> u64 \<Rightarrow> 'a vmm_state_scheme res" where
  "map_contiguous r pa s va =
     bindR (mmu_map_page s (kspace s) va (pa + (va - va_start r)) (vr_flags r)) (\<lambda>(old, s').
       if old \<noteq> 0 then Inl (Panic ''vmm_init_phys_contiguous_region: mapping an already mapped entry'')
       else Inr s')"

definition vmm_init_phys_contiguous_region ::
  "'a vmm_state_scheme \<Rightarrow> u64 \<Rightarrow> u64 \<Rightarrow> 'a vmm_state_scheme res" where
  "vmm_init_phys_contiguous_region s region pa =
     bindR (deref (vregions s) region) (\<lambda>r.
       page_loop (map_contiguous r pa) s (va_start r) (va_stop r))"

definition direct_map_page ::
  "'a vmm_state_scheme \<Rightarrow> pmm_phys_addr \<Rightarrow> 'a vmm_state_scheme res" where
  "direct_map_page s addr =
     (let flags = (if pa_type addr = PMM_REGION_AVAILABLE then PAGE_KERNEL_RW else PAGE_KERNEL_RO);
          va = DM_P2V (pa_pa addr) in
      bindR (vmm_add_range s (kspace s) va (va + PAGE_SIZE_IN_BYTES) flags) (\<lambda>(region, s1).
        if region = 0 then Inl (Panic ''DAM'')
        else
          let s2 = s1\<lparr>kernel_dm_stop := va\<rparr> in
          bindR (mmu_map_page s2 (kspace s2) va (pa_pa addr) flags) (\<lambda>(old, s3).
            if old \<noteq> 0 then Inl (Panic ''vmm_init_direct_mapping: mapping an already mapped entry'')
            else Inr s3)))"

partial_function (option) direct_map_from ::
  "'a vmm_state_scheme \<Rightarrow> pmm_phys_addr \<Rightarrow> 'a vmm_state_scheme res option" where
  "direct_map_from s addr =
     (case direct_map_page s addr of
        Inl e \<Rightarrow> Some (Inl e)
      | Inr s' \<Rightarrow>
          (let addr' = pmm_next_phys_page s' (pa_pa addr) in
           if pa_pa addr' \<noteq> 1 then direct_map_from s' addr' else Some (Inr s')))"

definition vmm_init_direct_mapping :: "'a vmm_state_scheme \<Rightarrow> 'a vmm_state_scheme res" where
  "vmm_init_direct_mapping s = ret (direct_map_from s (pmm_next_phys_page s 0))"

definition vmm_init :: "'a vmm_state_scheme \<Rightarrow> 'a vmm_state_scheme res" where
  "vmm_init s =
     bindR (vmm_create_space s) (\<lambda>(ks, s1).
     let s2 = s1\<lparr>kspace := ks\<rparr>; k = syms s2 in
     bindR (vmm_add_range s2 ks (kernel_vma_rw_start k) (kernel_vma_rw_stop k) PAGE_KERNEL_RW) (\<lambda>(kuefi, s3).
     bindR (vmm_add_range s3 ks (kernel_vma_ro_start k) (kernel_vma_ro_stop k) PAGE_KERNEL_RO) (\<lambda>(kcode, s4).
     bindR (vmm_add_range s4 ks (kernel_vma_ro_stop k) (pmm_vma_stop s4) PAGE_KERNEL_RW) (\<lambda>(kdata, s5).
     bindR (deref (vregions s5) kuefi) (\<lambda>r1.
     bindR (vmm_init_phys_contiguous_region s5 kuefi (V2P (va_start r1))) (\<lambda>s6.
     bindR (deref (vregions s6) kcode) (\<lambda>r2.
     bindR (vmm_init_phys_contiguous_region s6 kcode (V2P (va_start r2))) (\<lambda>s7.
     bindR (deref (vregions s7) kdata) (\<lambda>r3.
     bindR (vmm_init_phys_contiguous_region s7 kdata (V2P (va_start r3))) (\<lambda>s8.
     bindR (vmm_init_direct_mapping s8) (\<lambda>s9.
     mmu_switch_space s9 (kspace s9))))))))))))"

partial_function (option) copy_regions_from ::
  "u64 \<Rightarrow> u64 \<Rightarrow> 'a vmm_state_scheme \<Rightarrow> u64 \<Rightarrow> 'a vmm_state_scheme res option" where
  "copy_regions_from dst src s region =
     (if region = 0 then Some (Inr s)
      else case bindR (deref (vregions s) region) (\<lambda>r.
             bindR (vmm_add_range s dst (va_start r) (va_stop r) (vr_flags r)) (\<lambda>(new, s1).
             if new = 0 then Inl (Panic ''vmm_copy_regions: copy on region possibly corrupted'')
             else bindR (mmu_copy_pages s1 dst src region) (\<lambda>s2.
               bindR (deref (vregions s2) region) (\<lambda>r'. Inr (vr_next r', s2))))) of
        Inl e \<Rightarrow> Some (Inl e)
      | Inr p \<Rightarrow> copy_regions_from dst src (snd p) (fst p))"

definition vmm_copy_regions :: "'a vmm_state_scheme \<Rightarrow> u64 \<Rightarrow> u64 \<Rightarrow> 'a vmm_state_scheme res" where
  "vmm_copy_regions s dst src =
     bindR (deref (vspaces s) src) (\<lambda>sp. ret (copy_regions_from dst src s (sp_region sp)))"

text \<open>The lines \<^verbatim>\<open>vmm_dump_space\<close> prints: start, end and size in KiB of each region.\<close>

partial_function (option) dump_regions ::
  "(u64 \<rightharpoonup> vmm_region) \<Rightarrow> u64 \<Rightarrow> (u64 \<times> u64 \<times> u64) list \<Rightarrow> (u64 \<times> u64 \<times> u64) list res option" where
  "dump_regions h region out =
     (if region = 0 then Some (Inr out)
      else case h region of
        None \<Rightarrow> Some (Inl Fault)
      | Some r \<Rightarrow> dump_regions h (vr_next r)
                   (out @ [(va_start r, va_stop r, BYTE2KB (va_stop r - va_start r))]))"

definition vmm_dump_space :: "'a vmm_state_scheme \<Rightarrow> u64 \<Rightarrow> (u64 \<times> u64 \<times> u64) list res" where
  "vmm_dump_space s space =
     bindR (deref (vspaces s) space) (\<lambda>sp. ret (dump_regions (vregions s) (sp_region sp) []))"

section \<open>Object allocator: invariant\<close>

definition max_objs :: "struct_type \<Rightarrow> nat" where
  "max_objs ty = (case ty of TYPE_VMM_REGION \<Rightarrow> 98 | TYPE_VMM_SPACE \<Rightarrow> 236)"

text \<open>The bitmap of the block at address \<open>a\<close>, and the address of its \<open>i\<close>-th object.\<close>

definition blk_bm :: "struct_type \<Rightarrow> u64 \<Rightarrow> bitmap" where
  "blk_bm ty a = \<lparr>bm_len = of_nat (max_objs ty), bm_size_in_block = BITMAP_SIZE_IN_BLOCK (of_nat (max_objs ty)),
     bm_bitmap = a + 72 + of_nat (max_objs ty) * get_struct_size ty\<rparr>"

definition slot :: "struct_type \<Rightarrow> u64 \<Rightarrow> nat \<Rightarrow> u64" where
  "slot ty a i = a + 72 + of_nat i * get_struct_size ty"

definition block_ok :: "struct_type \<Rightarrow> u64 \<Rightarrow> vmm_block \<Rightarrow> bool" where
  "block_ok ty a b \<longleftrightarrow> page_aligned a \<and> vb_objects b = a + 72 \<and> vb_object_size b = get_struct_size ty
     \<and> vb_max_objects b = of_nat (max_objs ty) \<and> vb_bm b = blk_bm ty a"

text \<open>
  \<open>objs_ok ty bs live s\<close>: the chain of blocks of type \<open>ty\<close> is \<open>bs\<close>, and every object of \<open>live\<close> is a
  slot marked as used. \<open>vmm_inv\<close> adds that the pages of the blocks are neither tables, nor free
  pages, nor pages with allocator bitmaps.
\<close>

definition objs_ok ::
  "struct_type \<Rightarrow> u64 list \<Rightarrow> u64 set \<Rightarrow> 'a vmm_state_scheme \<Rightarrow> bool" where
  "objs_ok ty bs live s \<longleftrightarrow> dll vb_next vb_prev (vblocks s) (block_heads s ty) bs
     \<and> (\<forall>a \<in> set bs. \<exists>b. vblocks s a = Some b \<and> block_ok ty a b)
     \<and> (\<forall>p \<in> live. \<exists>a \<in> set bs. \<exists>i < max_objs ty. p = slot ty a i \<and> i \<notin> bm_free (mem s) (blk_bm ty a))"

definition vmm_inv ::
  "u64 set \<Rightarrow> (struct_type \<Rightarrow> u64 list) \<Rightarrow> (struct_type \<Rightarrow> u64 set) \<Rightarrow> 'a vmm_state_scheme \<Rightarrow> bool" where
  "vmm_inv R bs live s \<longleftrightarrow> mmu_inv R s \<and> 0 \<notin> mmu_pages R s \<and> (\<forall>ty. objs_ok ty (bs ty) (live ty) s)
     \<and> set (bs TYPE_VMM_REGION) \<inter> set (bs TYPE_VMM_SPACE) = {}
     \<and> (\<forall>ty. \<forall>a \<in> set (bs ty). a \<notin> mmu_pages R s \<and> off_bitmaps s a)"

lemma blk_bm_wf: "bm_wf (blk_bm ty a)" "unat (bm_len (blk_bm ty a)) = max_objs ty"
  by (cases ty; simp add: bm_wf_def blk_bm_def max_objs_def)+

lemma blk_bytes: "unat (bm_size_in_block (blk_bm ty a) * 8) \<le> 32"
  by (cases ty) (simp_all add: blk_bm_def BITMAP_SIZE_IN_BLOCK_def max_objs_def)

text \<open>The slots and the bitmap of a block lie inside its page.\<close>

lemma blk_span_page:
  assumes "page_aligned a" and "bm_span (blk_bm ty a) x"
  shows "page_bytes a x"
proof -
  let ?o = "72 + of_nat (max_objs ty) * get_struct_size ty :: u64"
  have o: "unat ?o \<le> 3992" by (cases ty) (simp_all add: max_objs_def)
  have d: "unat (x - (a + ?o)) < 32"
    using assms(2) blk_bytes [of ty a] by (simp add: bm_span_def word_less_nat_alt blk_bm_def add.assoc)
  have "x - a = (x - (a + ?o)) + ?o" by simp
  moreover have "unat ((x - (a + ?o)) + ?o) = unat (x - (a + ?o)) + unat ?o"
    using d o by (intro unat_add_no_wrap) simp
  ultimately have "unat (x - a) < 4096" using d o by simp
  then show ?thesis by (simp add: page_bytes_def word_less_nat_alt)
qed

lemma slot_offset:
  assumes "i < max_objs ty"
  shows "unat (of_nat i * get_struct_size ty) = i * unat (get_struct_size ty)"
    and "72 + i * unat (get_struct_size ty) < 4096"
proof -
  have i: "i < 236" using assms by (cases ty) (simp_all add: max_objs_def)
  then have u: "unat (of_nat i :: u64) = i" by (intro unat_of_nat64) simp
  show "unat (of_nat i * get_struct_size ty) = i * unat (get_struct_size ty)"
    using i by (cases ty) (subst unat_mult_no_wrap; simp add: u)+
  show "72 + i * unat (get_struct_size ty) < 4096" using assms by (cases ty) (simp_all add: max_objs_def)
qed

lemma unat_slot:
  assumes "page_aligned a" and "i < max_objs ty"
  shows "unat (slot ty a i) = unat a + 72 + i * unat (get_struct_size ty)"
proof -
  note so = slot_offset [OF assms(2)]
  have "unat (a + 72) = unat a + 72" using aligned_room [OF assms(1)] by (subst unat_add_no_wrap) simp_all
  then show ?thesis
    unfolding slot_def using so aligned_room [OF assms(1)] by (subst unat_add_no_wrap) simp_all
qed

lemma slot_inj:
  assumes "page_aligned a" "page_aligned a'" "i < max_objs ty" "j < max_objs ty"
    and "slot ty a i = slot ty a' j"
  shows "a = a' \<and> i = j"
proof -
  have e: "unat a + 72 + i * unat (get_struct_size ty) = unat a' + 72 + j * unat (get_struct_size ty)"
    using unat_slot [OF assms(1,3)] unat_slot [OF assms(2,4)] assms(5) by simp
  have "a = a'"
  proof (rule ccontr)
    assume "a \<noteq> a'"
    then show False
      using aligned_gap [OF assms(1,2)] e slot_offset(2) [OF assms(3)] slot_offset(2) [OF assms(4)] by linarith
  qed
  then have "i * unat (get_struct_size ty) = j * unat (get_struct_size ty)" using e by simp
  then have "i = j" by (cases ty) simp_all
  with \<open>a = a'\<close> show ?thesis by simp
qed

lemma slot_nonzero:
  assumes "page_aligned a" and "i < max_objs ty"
  shows "slot ty a i \<noteq> 0"
proof -
  have "unat (slot ty a i) \<noteq> 0" using unat_slot [OF assms] by simp
  then show ?thesis by auto
qed

lemma objs_okD:
  assumes "objs_ok ty bs live s"
  shows "dll vb_next vb_prev (vblocks s) (block_heads s ty) bs"
    and "a \<in> set bs \<Longrightarrow> \<exists>b. vblocks s a = Some b \<and> block_ok ty a b" and "a \<in> set bs \<Longrightarrow> page_aligned a"
  using assms unfolding objs_ok_def block_ok_def by blast+

lemma objs_ok_live:
  assumes "objs_ok ty bs live s" and "p \<in> live"
  obtains a i where "a \<in> set bs" and "i < max_objs ty" and "p = slot ty a i"
    and "i \<notin> bm_free (mem s) (blk_bm ty a)"
  using assms unfolding objs_ok_def by blast

lemma vmm_invD:
  assumes "vmm_inv R bs live s"
  shows "mmu_inv R s" and "objs_ok ty (bs ty) (live ty) s"
    and "a \<in> set (bs ty) \<Longrightarrow> a \<notin> mmu_pages R s" and "a \<in> set (bs ty) \<Longrightarrow> off_bitmaps s a"
    and "a \<in> set (bs ty) \<Longrightarrow> page_aligned a"
  using assms objs_okD(3) unfolding vmm_inv_def by blast+

text \<open>Pages of different blocks differ, across the two types as well.\<close>

lemma block_pages_differ:
  assumes "vmm_inv R bs live s" and "a \<in> set (bs ty)" and "a' \<in> set (bs ty')" and "ty \<noteq> ty'"
  shows "a \<noteq> a'"
  using assms unfolding vmm_inv_def by (cases ty; cases ty') auto

section \<open>Writes inside one page\<close>

lemma page_write:
  assumes inv: "mmu_inv R s" and a: "a \<notin> mmu_pages R s" "page_aligned a" "off_bitmaps s a"
    and eq: "\<And>x. \<not> page_bytes a x \<Longrightarrow> m' x = mem s x"
  shows "mmu_inv R (s\<lparr>mem := m'\<rparr>)" and "free_pages (s\<lparr>mem := m'\<rparr>) = free_pages s"
    and "mmu_pages R (s\<lparr>mem := m'\<rparr>) = mmu_pages R s"
    and "r \<in> R \<Longrightarrow> mmu_entry m' r va = mmu_entry (mem s) r va"
proof -
  note tree = mmu_invD(2) [OF inv]
  have at: "a \<notin> tables R (mem s)" using a(1) by (simp add: mmu_pages_def)
  have eqt: "m' x = mem s x" if "t \<in> tables R (mem s)" "page_bytes t x" for t x
  proof -
    have "t \<noteq> a" using at that(1) by blast
    then show ?thesis using eq pages_bytes_disjoint [OF mmu_invD(6) [OF inv that(1)] a(2)] that(2) by blast
  qed
  have tb: "table_at m' r p = table_at (mem s) r p" if "r \<in> R" "path p" for r p
    by (rule table_at_frame [OF tree eqt that])
  have tc: "tables R m' = tables R (mem s)" by (rule tables_cong, rule tb)
  have tr: "pt_tree R m'" using tree tables_cong(2) [of R m' "mem s", OF tb] by blast
  show fr: "free_pages (s\<lparr>mem := m'\<rparr>) = free_pages s"
    by (rule free_pages_frame [OF mmu_invD(1) [OF inv]])
      (use eq a(3) in \<open>unfold off_bitmaps_def, blast\<close>)
  show "mmu_inv R (s\<lparr>mem := m'\<rparr>)"
    using inv tr unfolding mmu_inv_def fr pmm_inv_def off_bitmaps_def by (simp add: tc)
  show "mmu_pages R (s\<lparr>mem := m'\<rparr>) = mmu_pages R s" by (simp add: mmu_pages_def fr tc)
  show "mmu_entry m' r va = mmu_entry (mem s) r va" if "r \<in> R"
    by (rule mmu_entry_frame [OF tree _ that]) (rule eqt)
qed

lemma blk_free_frame:
  assumes a: "page_aligned a" and eq: "\<And>x. page_bytes a x \<Longrightarrow> m' x = m x"
  shows "bm_free m' (blk_bm ty a) = bm_free m (blk_bm ty a)"
  by (rule bm_raw_frame(2) [OF blk_bm_wf(1)]) (rule eq, rule blk_span_page [OF a])

lemma objs_ok_mem:
  assumes "objs_ok ty bs live s" and "\<And>a. a \<in> set bs \<Longrightarrow> bm_free m' (blk_bm ty a) \<subseteq> bm_free (mem s) (blk_bm ty a)"
  shows "objs_ok ty bs live (s\<lparr>mem := m'\<rparr>)"
  using assms unfolding objs_ok_def by (simp, blast)

lemma vmm_inv_bits:
  assumes inv: "vmm_inv R bs live s" and a: "a \<in> set (bs ty)"
    and eq: "\<And>x. \<not> bm_span (blk_bm ty a) x \<Longrightarrow> m' x = mem s x"
    and sub: "bm_free m' (blk_bm ty a) \<subseteq> bm_free (mem s) (blk_bm ty a)"
  shows "vmm_inv R bs live (s\<lparr>mem := m'\<rparr>)" and "r \<in> R \<Longrightarrow> mmu_entry m' r va = mmu_entry (mem s) r va"
    and "mmu_pages R (s\<lparr>mem := m'\<rparr>) = mmu_pages R s" and "free_pages (s\<lparr>mem := m'\<rparr>) = free_pages s"
proof -
  have al: "page_aligned a" by (rule vmm_invD(5) [OF inv a])
  have eqp: "m' x = mem s x" if "\<not> page_bytes a x" for x
    by (rule eq) (use that blk_span_page [OF al] in blast)
  note pw = page_write [OF vmm_invD(1) [OF inv] vmm_invD(3) [OF inv a] al vmm_invD(4) [OF inv a]]
  have m: "mmu_inv R (s\<lparr>mem := m'\<rparr>)" "mmu_pages R (s\<lparr>mem := m'\<rparr>) = mmu_pages R s"
    by (rule pw(1), rule eqp, assumption) (rule pw(3), rule eqp, assumption)
  show "mmu_pages R (s\<lparr>mem := m'\<rparr>) = mmu_pages R s" by (rule m(2))
  show "free_pages (s\<lparr>mem := m'\<rparr>) = free_pages s" by (rule pw(2), rule eqp)
  show "mmu_entry m' r va = mmu_entry (mem s) r va" if "r \<in> R"
    by (rule pw(4) [OF _ that], rule eqp)
  have "objs_ok ty' (bs ty') (live ty') (s\<lparr>mem := m'\<rparr>)" for ty'
  proof (rule objs_ok_mem [OF vmm_invD(2) [OF inv]])
    fix a' assume a': "a' \<in> set (bs ty')"
    show "bm_free m' (blk_bm ty' a') \<subseteq> bm_free (mem s) (blk_bm ty' a')"
    proof (cases "a' = a")
      case True
      then have "ty' = ty" using block_pages_differ [OF inv a' a] by blast
      then show ?thesis using sub True by simp
    next
      case False
      have al': "page_aligned a'" by (rule vmm_invD(5) [OF inv a'])
      have "bm_free m' (blk_bm ty' a') = bm_free (mem s) (blk_bm ty' a')"
        by (rule blk_free_frame [OF al'], rule eqp, rule pages_bytes_disjoint [OF al' al False])
      then show ?thesis by simp
    qed
  qed
  then show "vmm_inv R bs live (s\<lparr>mem := m'\<rparr>)"
    using inv m unfolding vmm_inv_def off_bitmaps_def by simp
qed

lemma objs_ok_block:
  assumes "objs_ok ty' bs live s" and "vblocks s a = Some b"
    and "vb_next b' = vb_next b" "vb_prev b' = vb_prev b" "\<And>ty. block_ok ty a b \<Longrightarrow> block_ok ty a b'"
  shows "objs_ok ty' bs live (s\<lparr>vblocks := (vblocks s)(a \<mapsto> b')\<rparr>)"
proof -
  have "dll vb_next vb_prev ((vblocks s)(a \<mapsto> b')) (block_heads s ty') bs"
    by (rule dll_cong [OF _ objs_okD(1) [OF assms(1)]]) (use assms(2-4) in auto)
  moreover have "\<exists>c. ((vblocks s)(a \<mapsto> b')) x = Some c \<and> block_ok ty' x c" if "x \<in> set bs" for x
    using objs_okD(2) [OF assms(1) that] assms(2,5) by auto
  ultimately show ?thesis using assms(1) unfolding objs_ok_def by simp
qed

lemma vmm_inv_block:
  assumes inv: "vmm_inv R bs live s" and "vblocks s a = Some b"
    and "vb_next b' = vb_next b" "vb_prev b' = vb_prev b" "\<And>ty. block_ok ty a b \<Longrightarrow> block_ok ty a b'"
  shows "vmm_inv R bs live (s\<lparr>vblocks := (vblocks s)(a \<mapsto> b')\<rparr>)"
proof -
  have "objs_ok ty (bs ty) (live ty) (s\<lparr>vblocks := (vblocks s)(a \<mapsto> b')\<rparr>)" for ty
    by (rule objs_ok_block [OF vmm_invD(2) [OF inv] assms(2-5)])
  then show ?thesis
    using inv unfolding vmm_inv_def mmu_inv_def pmm_inv_def off_bitmaps_def mmu_pages_def free_pages_def by simp
qed

lemma vmm_inv_live:
  assumes inv: "vmm_inv R bs live s" and "a \<in> set (bs ty)" "i < max_objs ty" "p = slot ty a i"
    "i \<notin> bm_free (mem s) (blk_bm ty a)"
  shows "vmm_inv R bs (live(ty := insert p (live ty))) s"
proof -
  have "objs_ok ty (bs ty) (insert p (live ty)) s"
    using vmm_invD(2) [OF inv, of ty] assms(2-5) unfolding objs_ok_def by blast
  then have "objs_ok ty' (bs ty') ((live(ty := insert p (live ty))) ty') s" for ty'
    using vmm_invD(2) [OF inv, of ty'] by simp
  then show ?thesis using inv unfolding vmm_inv_def by simp
qed

text \<open>A slot that the bitmap search returns was not a live object.\<close>

lemma free_slot_fresh:
  assumes inv: "vmm_inv R bs live s" and a: "a \<in> set (bs ty)" and i: "i \<in> bm_free (mem s) (blk_bm ty a)"
  shows "slot ty a i \<notin> live ty" and "slot ty a i \<noteq> 0" and "i < max_objs ty"
proof -
  show im: "i < max_objs ty" using i blk_bm_wf(2) [of ty a] by (simp add: bm_free_def)
  show "slot ty a i \<noteq> 0" by (rule slot_nonzero [OF vmm_invD(5) [OF inv a] im])
  show "slot ty a i \<notin> live ty"
  proof
    assume "slot ty a i \<in> live ty"
    then obtain a' j where j: "a' \<in> set (bs ty)" "j < max_objs ty" "slot ty a i = slot ty a' j"
      "j \<notin> bm_free (mem s) (blk_bm ty a')"
      by (rule objs_ok_live [OF vmm_invD(2) [OF inv]])
    have "a = a' \<and> i = j"
      by (rule slot_inj [OF vmm_invD(5) [OF inv a] vmm_invD(5) [OF inv j(1)] im j(2,3)])
    then show False using i j(4) by simp
  qed
qed

lemma block_take:
  assumes inv: "vmm_inv R bs live s" and a: "a \<in> set (bs ty)" and b: "vblocks s a = Some b" "block_ok ty a b"
    and f: "bitmap_find_and_set (mem s) (vb_bm b) = Inr (j, m)"
  shows "vmm_inv R bs live (s\<lparr>mem := m\<rparr>)" and "r \<in> R \<Longrightarrow> mmu_entry m r va = mmu_entry (mem s) r va"
    and "j \<noteq> bm_len (vb_bm b) \<Longrightarrow> p = vb_objects b + j * vb_object_size b \<Longrightarrow>
      p \<noteq> 0 \<and> p \<notin> live ty \<and> vmm_inv R bs (live(ty := insert p (live ty)))
        (s\<lparr>mem := m, vblocks := (vblocks s)(a \<mapsto> b\<lparr>vb_nb_used := vb_nb_used b + 1\<rparr>)\<rparr>)"
    and "mmu_pages R (s\<lparr>mem := m\<rparr>) = mmu_pages R s" and "free_pages (s\<lparr>mem := m\<rparr>) = free_pages s"
proof -
  have bm: "vb_bm b = blk_bm ty a" using b(2) by (simp add: block_ok_def)
  note f' = f [unfolded bm]
  note sp = find_and_set_Inr [OF blk_bm_wf(1) f']
  have sub: "bm_free m (blk_bm ty a) \<subseteq> bm_free (mem s) (blk_bm ty a)" using sp(2) by blast
  show m: "vmm_inv R bs live (s\<lparr>mem := m\<rparr>)" by (rule vmm_inv_bits(1) [OF inv a _ sub]) (rule sp(5))
  show "mmu_entry m r va = mmu_entry (mem s) r va" if "r \<in> R"
    by (rule vmm_inv_bits(2) [OF inv a _ sub that]) (rule sp(5))
  show "mmu_pages R (s\<lparr>mem := m\<rparr>) = mmu_pages R s" by (rule vmm_inv_bits(3) [OF inv a _ sub]) (rule sp(5))
  show "free_pages (s\<lparr>mem := m\<rparr>) = free_pages s" by (rule vmm_inv_bits(4) [OF inv a _ sub]) (rule sp(5))
  assume ne: "j \<noteq> bm_len (vb_bm b)" and p: "p = vb_objects b + j * vb_object_size b"
  have ji: "unat j \<in> bm_free (mem s) (blk_bm ty a)" using sp(3) ne unfolding bm by blast
  have ps: "p = slot ty a (unat j)" using p b(2) by (simp add: block_ok_def slot_def)
  note fs = free_slot_fresh [OF inv a ji]
  have "unat j \<notin> bm_free (mem (s\<lparr>mem := m\<rparr>)) (blk_bm ty a)" using sp(2) by simp
  from vmm_inv_live [OF m a fs(3) ps this]
  have "vmm_inv R bs (live(ty := insert p (live ty))) (s\<lparr>mem := m\<rparr>)" .
  then have "vmm_inv R bs (live(ty := insert p (live ty)))
      ((s\<lparr>mem := m\<rparr>)\<lparr>vblocks := (vblocks (s\<lparr>mem := m\<rparr>))(a \<mapsto> b\<lparr>vb_nb_used := vb_nb_used b + 1\<rparr>)\<rparr>)"
    by (rule vmm_inv_block) (use b(1) in \<open>auto simp: block_ok_def\<close>)
  then show "p \<noteq> 0 \<and> p \<notin> live ty \<and> vmm_inv R bs (live(ty := insert p (live ty)))
        (s\<lparr>mem := m, vblocks := (vblocks s)(a \<mapsto> b\<lparr>vb_nb_used := vb_nb_used b + 1\<rparr>)\<rparr>)"
    using fs ps by simp
qed

section \<open>Object allocator: new blocks\<close>

lemma block_size_const:
  "(PAGE_SIZE_IN_BYTES - 72) div (get_struct_size ty + 1) = of_nat (max_objs ty)"
  by (cases ty) (simp_all add: const_defs max_objs_def)

lemma create_block_Inr:
  assumes "create_block ty prev s = Inr (c, s1)"
  obtains p s0 bm m b where "pmm_xalloc s = Inr (p, s0)" and "c = DM_P2V p"
    and "bm = blk_bm ty c"
    and "m = memset (mem s0) (bm_bitmap bm) 0xff (bm_size_in_block bm * 8)"
    and "s1 = s0\<lparr>mem := m, vblocks := (vblocks s0)(c \<mapsto> b)\<rparr>"
    and "vb_objects b = c + 72" and "vb_object_size b = get_struct_size ty"
    and "vb_max_objects b = of_nat (max_objs ty)" and "vb_bm b = bm" and "vb_prev b = prev" and "vb_next b = 0"
proof -
  obtain p s0 where x: "pmm_xalloc s = Inr (p, s0)"
    using assms unfolding create_block_def by (auto simp: bindR_Inr_iff)
  let ?b = "\<lparr>vb_objects = DM_P2V p + 72, vb_nb_used = load64 (mem s0) (DM_P2V p + 8),
    vb_object_size = get_struct_size ty, vb_max_objects = of_nat (max_objs ty),
    vb_bm = blk_bm ty (DM_P2V p), vb_prev = prev, vb_next = 0\<rparr>"
  have "create_block ty prev s = Inr (DM_P2V p, s0\<lparr>mem := memset (mem s0) (bm_bitmap (blk_bm ty (DM_P2V p)))
      0xff (bm_size_in_block (blk_bm ty (DM_P2V p)) * 8), vblocks := (vblocks s0)(DM_P2V p \<mapsto> ?b)\<rparr>)"
    unfolding create_block_def x bindR.simps prod.case Let_def sizeof_vmm_block_def
    unfolding block_size_const bitmap_init_def blk_bm_def by simp
  then show thesis
    using assms by (intro that [of p s0 "blk_bm ty (DM_P2V p)" _ ?b, OF x]) auto
qed

lemma create_block_mem:
  assumes inv: "vmm_inv R bs live s" and c: "create_block ty prev s = Inr (c, s1)"
  shows "mmu_inv R s1" and "page_aligned c" and "c \<noteq> 0" and "c \<notin> mmu_pages R s1" and "off_bitmaps s1 c"
    and "mmu_pages R s1 \<subseteq> mmu_pages R s" and "a \<in> set (bs ty') \<Longrightarrow> a \<noteq> c"
    and "a \<in> set (bs ty') \<Longrightarrow> bm_free (mem s1) (blk_bm ty' a) = bm_free (mem s) (blk_bm ty' a)"
    and "r \<in> R \<Longrightarrow> mmu_entry (mem s1) r va = mmu_entry (mem s) r va"
    and "\<exists>b. vblocks s1 = (vblocks s)(c \<mapsto> b) \<and> block_ok ty c b \<and> vb_prev b = prev \<and> vb_next b = 0"
    and "s1 = s\<lparr>mem := mem s1, vblocks := vblocks s1\<rparr>" and "free_pages s1 \<subseteq> free_pages s" and "c \<in> mmu_pages R s"
proof -
  obtain p s0 bm m b where x: "pmm_xalloc s = Inr (p, s0)" and cp: "c = DM_P2V p"
    and bm: "bm = blk_bm ty c"
    and m: "m = memset (mem s0) (bm_bitmap bm) 0xff (bm_size_in_block bm * 8)"
    and s1: "s1 = s0\<lparr>mem := m, vblocks := (vblocks s0)(c \<mapsto> b)\<rparr>"
    and b: "vb_objects b = c + 72" "vb_object_size b = get_struct_size ty"
      "vb_max_objects b = of_nat (max_objs ty)" "vb_bm b = bm" "vb_prev b = prev" "vb_next b = 0"
    by (rule create_block_Inr [OF c])
  note inv0 = vmm_invD(1) [OF inv]
  note xa = xalloc_mmu [OF inv0 x]
  have a0: "pmm_alloc s = Inr (p, s0)" using x by (simp add: pmm_xalloc_Inr)
  obtain m0 where s0: "s0 = s\<lparr>mem := m0\<rparr>" using xa(7) by blast
  have out: "m0 x = mem s x" if "outside_bitmaps (pmap s) x" for x
    using pmm_alloc_spec(6) [OF mmu_invD(1) [OF inv0] a0 that] by (simp add: s0)
  show al: "page_aligned c" unfolding cp by (rule DM_P2V_aligned [OF xa(6)])
  show cin: "c \<in> mmu_pages R s" using xa(5) by (simp add: mmu_pages_def cp)
  have pages0: "mmu_pages R s0 = mmu_pages R s - {c}"
  proof -
    have "c \<notin> tables R (mem s)" using mmu_invD(3) [OF inv0] xa(5) cp by blast
    then show ?thesis unfolding mmu_pages_def xa(3,4) cp by (auto simp: DM_P2V_inj)
  qed
  have off0: "off_bitmaps s0 c"
    using mmu_invD(5) [OF inv0 xa(5)] by (simp add: off_bitmaps_def s0 cp)
  have keep: "m x = m0 x" if "\<not> page_bytes c x" for x
  proof -
    have "\<not> bm_span (blk_bm ty c) x" using that blk_span_page [OF al] by blast
    then show ?thesis unfolding m bm by (simp add: memset_apply bm_span_def s0)
  qed
  have cn: "c \<notin> mmu_pages R s0" using pages0 by simp
  have eq: "m x = mem s0 x" if "\<not> page_bytes c x" for x using keep [OF that] by (simp add: s0)
  have pw: "mmu_inv R (s0\<lparr>mem := m\<rparr>)" "mmu_pages R (s0\<lparr>mem := m\<rparr>) = mmu_pages R s0"
    by (rule page_write(1) [OF xa(1) cn al off0 eq], assumption)
      (rule page_write(3) [OF xa(1) cn al off0 eq], assumption)
  show "mmu_inv R s1" using pw(1) by (simp add: s1 mmu_inv_def pmm_inv_def off_bitmaps_def free_pages_def)
  have pg1: "mmu_pages R s1 = mmu_pages R s - {c}"
    using pw(2) pages0 by (simp add: s1 mmu_pages_def free_pages_def)
  show "c \<notin> mmu_pages R s1" "mmu_pages R s1 \<subseteq> mmu_pages R s" using pg1 by auto
  show "off_bitmaps s1 c" using off0 by (simp add: s1 off_bitmaps_def)
  show "c \<noteq> 0" using cin inv unfolding vmm_inv_def by blast
  show diff: "a \<noteq> c" if "a \<in> set (bs ty')" for a ty' using vmm_invD(3) [OF inv that] cin by blast
  show "bm_free (mem s1) (blk_bm ty' a) = bm_free (mem s) (blk_bm ty' a)" if a: "a \<in> set (bs ty')" for a ty'
  proof (rule blk_free_frame [OF vmm_invD(5) [OF inv a]])
    fix x assume x: "page_bytes a x"
    have "\<not> page_bytes c x" by (rule pages_bytes_disjoint [OF vmm_invD(5) [OF inv a] al diff [OF a] x])
    moreover have "outside_bitmaps (pmap s) x" using vmm_invD(4) [OF inv a] x by (simp add: off_bitmaps_def)
    ultimately show "mem s1 x = mem s x" using keep out by (simp add: s1)
  qed
  show "mmu_entry (mem s1) r va = mmu_entry (mem s) r va" if "r \<in> R"
  proof -
    have "mmu_entry m r va = mmu_entry (mem s0) r va"
      by (rule page_write(4) [OF xa(1) cn al off0 _ that]) (rule eq)
    then show ?thesis using xa(2) [OF that] by (simp add: s1)
  qed
  show "\<exists>b. vblocks s1 = (vblocks s)(c \<mapsto> b) \<and> block_ok ty c b \<and> vb_prev b = prev \<and> vb_next b = 0"
    using b al bm by (intro exI [of _ b]) (simp add: s1 s0 block_ok_def)
  show "s1 = s\<lparr>mem := mem s1, vblocks := vblocks s1\<rparr>" by (simp add: s1 s0)
  have "free_pages (s0\<lparr>mem := m\<rparr>) = free_pages s0" by (rule page_write(2) [OF xa(1) cn al off0 eq])
  then show "free_pages s1 \<subseteq> free_pages s" using xa(4) by (auto simp: s1 free_pages_def)
qed

lemma objs_ok_fresh_block:
  assumes ok: "objs_ok ty bs live s" and c: "c \<notin> set bs"
    and fr: "\<And>a. a \<in> set bs \<Longrightarrow> bm_free (mem s1) (blk_bm ty a) = bm_free (mem s) (blk_bm ty a)"
    and vb: "\<And>a. a \<in> set bs \<Longrightarrow> vblocks s1 a = vblocks s a" and hd: "block_heads s1 ty = block_heads s ty"
  shows "objs_ok ty bs live s1"
proof -
  have "dll vb_next vb_prev (vblocks s1) (block_heads s1 ty) bs"
    unfolding hd by (rule dll_frame [OF _ objs_okD(1) [OF ok]]) (rule vb)
  then show ?thesis using ok fr vb unfolding objs_ok_def by simp
qed

text \<open>The two ways a fresh block is attached: as the head of an empty chain, or behind the last block.\<close>

lemma attach_block:
  assumes inv: "vmm_inv R bs live s" and c: "create_block ty (last (0 # bs ty)) s = Inr (c, s1)"
    and s2: "s2 = (if bs ty = [] then s1\<lparr>block_heads := (block_heads s1)(ty := c)\<rparr>
      else s1\<lparr>vblocks := (vblocks s1)(last (bs ty) \<mapsto> (the (vblocks s (last (bs ty))))\<lparr>vb_next := c\<rparr>)\<rparr>)"
  shows "vmm_inv R (bs(ty := bs ty @ [c])) live s2"
    and "r \<in> R \<Longrightarrow> mmu_entry (mem s2) r va = mmu_entry (mem s) r va"
    and "s2 = s\<lparr>mem := mem s2, vblocks := vblocks s2, block_heads := block_heads s2\<rparr>"
    and "mmu_pages R s2 \<subseteq> mmu_pages R s" and "free_pages s2 \<subseteq> free_pages s"
    and "dom (vblocks s2) \<subseteq> dom (vblocks s) \<union> mmu_pages R s"
proof -
  note cm = create_block_mem [OF inv c]
  obtain b where b: "vblocks s1 = (vblocks s)(c \<mapsto> b)" "block_ok ty c b" "vb_prev b = last (0 # bs ty)"
    "vb_next b = 0" using cm(10) by blast
  note ok = vmm_invD(2) [OF inv]
  note d = objs_okD(1) [OF ok, of ty]
  have hd1: "block_heads s1 = block_heads s" by (subst cm(11)) simp
  have mem2: "mem s2 = mem s1" by (simp add: s2)
  have vb2: "vblocks s2 a = vblocks s a" if "a \<noteq> c" "a \<noteq> last (bs ty) \<or> bs ty = []" for a
    using that b(1) by (auto simp: s2)
  have vbc: "vblocks s2 c = Some b"
    using b(1) cm(7) [of "last (bs ty)" ty] by (auto simp: s2)
  have lastn: "vblocks s2 (last (bs ty)) = Some ((the (vblocks s (last (bs ty))))\<lparr>vb_next := c\<rparr>)"
    if "bs ty \<noteq> []" using that by (simp add: s2)
  have cn: "c \<notin> set (bs ty')" for ty' using cm(7) by blast
  have "dll vb_next vb_prev (vblocks s2) (if bs ty = [] then c else block_heads s ty) (bs ty @ [c])"
  proof (rule dll_insert [where bs = "[]" and h = "vblocks s" and n = b, simplified])
    show "dll vb_next vb_prev (vblocks s) (block_heads s ty) (bs ty)" by (rule d)
    show "c \<noteq> 0" by (rule cm(3))
    show "vblocks s2 c = Some b" by (rule vbc)
    show "vb_next b = 0" "vb_prev b = (if bs ty = [] then 0 else last (bs ty))" using b(3,4) by auto
    fix a v assume a: "a \<in> set (bs ty)" "vblocks s a = Some v"
    have "a \<noteq> c" using cm(7) a(1) by blast
    then show "\<exists>v'. vblocks s2 a = Some v' \<and> vb_next v' = (if bs ty \<noteq> [] \<and> a = last (bs ty) then c else vb_next v)
      \<and> vb_prev v' = vb_prev v"
      using a lastn vb2 [of a] by (cases "a = last (bs ty)") auto
  qed
  moreover have "block_heads s2 ty = (if bs ty = [] then c else block_heads s ty)" by (simp add: s2 hd1)
  ultimately have d2: "dll vb_next vb_prev (vblocks s2) (block_heads s2 ty) (bs ty @ [c])" by simp
  have bo: "\<exists>b. vblocks s2 a = Some b \<and> block_ok ty a b" if "a \<in> set (bs ty @ [c])" for a
  proof (cases "a = c")
    case True
    then show ?thesis using vbc b(2) by simp
  next
    case False
    then have a: "a \<in> set (bs ty)" using that by simp
    obtain v where v: "vblocks s a = Some v" "block_ok ty a v" using objs_okD(2) [OF ok a] by blast
    show ?thesis
    proof (cases "a = last (bs ty)")
      case True
      have "bs ty \<noteq> []" using a by auto
      then show ?thesis using lastn True v by (simp add: block_ok_def)
    next
      case ne: False
      then show ?thesis using vb2 [of a] v False by simp
    qed
  qed
  have lv: "\<exists>a \<in> set (bs ty @ [c]). \<exists>i < max_objs ty. p = slot ty a i \<and> i \<notin> bm_free (mem s2) (blk_bm ty a)"
    if pl: "p \<in> live ty" for p
  proof -
    obtain a i where a: "a \<in> set (bs ty)" "i < max_objs ty" "p = slot ty a i" "i \<notin> bm_free (mem s) (blk_bm ty a)"
      by (rule objs_ok_live [OF ok pl])
    have "i \<notin> bm_free (mem s2) (blk_bm ty a)" unfolding mem2 cm(8) [OF a(1)] by (rule a(4))
    then show ?thesis using a(1-3) by (intro bexI [of _ a] exI [of _ i]) simp_all
  qed
  have "objs_ok ty (bs ty @ [c]) (live ty) s2" using d2 bo lv unfolding objs_ok_def by blast
  moreover have "objs_ok ty' (bs ty') (live ty') s2" if ne: "ty' \<noteq> ty" for ty'
  proof (rule objs_ok_fresh_block [OF ok cn])
    show "block_heads s2 ty' = block_heads s ty'" using ne by (simp add: s2 hd1)
    fix a assume a: "a \<in> set (bs ty')"
    show "bm_free (mem s2) (blk_bm ty' a) = bm_free (mem s) (blk_bm ty' a)" using cm(8) [OF a] mem2 by simp
    have "a \<noteq> c" using cn a by blast
    moreover have "a \<noteq> last (bs ty) \<or> bs ty = []"
      using block_pages_differ [OF inv a _ ne] last_in_set [of "bs ty"] by blast
    ultimately show "vblocks s2 a = vblocks s a" by (rule vb2)
  qed
  ultimately have obj: "objs_ok ty' ((bs(ty := bs ty @ [c])) ty') (live ty') s2" for ty' by simp
  have pm2: "pmap s2 = pmap s1" "mmu_pages R s2 = mmu_pages R s1" "mmu_inv R s2 = mmu_inv R s1"
    by (simp_all add: s2 mmu_pages_def free_pages_def mmu_inv_def pmm_inv_def off_bitmaps_def)
  have pm1: "pmap s1 = pmap s" by (subst cm(11)) simp
  have "\<forall>ty'. \<forall>a \<in> set ((bs(ty := bs ty @ [c])) ty'). a \<notin> mmu_pages R s2 \<and> off_bitmaps s2 a"
  proof (intro allI ballI)
    fix ty' a assume "a \<in> set ((bs(ty := bs ty @ [c])) ty')"
    then consider "a \<in> set (bs ty')" | "a = c" by (auto split: if_splits)
    then show "a \<notin> mmu_pages R s2 \<and> off_bitmaps s2 a"
    proof cases
      case 1
      then show ?thesis using vmm_invD(3,4) [OF inv 1] cm(6) by (auto simp: pm2 pm1 off_bitmaps_def)
    next
      case 2
      then show ?thesis using cm(4,5) by (simp add: pm2 off_bitmaps_def)
    qed
  qed
  moreover have "set ((bs(ty := bs ty @ [c])) TYPE_VMM_REGION) \<inter> set ((bs(ty := bs ty @ [c])) TYPE_VMM_SPACE) = {}"
    using inv cn unfolding vmm_inv_def by (cases ty) auto
  moreover have "0 \<notin> mmu_pages R s2" using inv cm(6) unfolding vmm_inv_def pm2 by blast
  ultimately show "vmm_inv R (bs(ty := bs ty @ [c])) live s2"
    using cm(1) obj unfolding vmm_inv_def by (simp add: pm2)
  show "mmu_entry (mem s2) r va = mmu_entry (mem s) r va" if "r \<in> R" using cm(9) [OF that] mem2 by simp
  show "mmu_pages R s2 \<subseteq> mmu_pages R s" using cm(6) pm2 by simp
  have "free_pages s2 = free_pages s1" by (simp add: s2 free_pages_def)
  then show "free_pages s2 \<subseteq> free_pages s" using cm(12) by simp
  have "last (bs ty) \<in> dom (vblocks s)" if "bs ty \<noteq> []" using objs_okD(2) [OF ok last_in_set [OF that]] by blast
  then show "dom (vblocks s2) \<subseteq> dom (vblocks s) \<union> mmu_pages R s" using b(1) cm(13) by (auto simp: s2)
  have "s1 = s\<lparr>mem := mem s1, vblocks := vblocks s1\<rparr>" by (rule cm(11))
  then obtain m1 v1 where "s1 = s\<lparr>mem := m1, vblocks := v1\<rparr>" by blast
  then show "s2 = s\<lparr>mem := mem s2, vblocks := vblocks s2, block_heads := block_heads s2\<rparr>" by (simp add: s2)
qed

text \<open>
  What a run of the object allocator leaves as it was: everything but byte memory, the block
  structures and the chain heads, and all page-table entries; no page becomes free, and a new block
  lies on a page that was free.
\<close>

definition alloc_frame :: "u64 set \<Rightarrow> 'a vmm_state_scheme \<Rightarrow> 'a vmm_state_scheme \<Rightarrow> bool" where
  "alloc_frame R s s' \<longleftrightarrow>
     s' = s\<lparr>mem := mem s', vblocks := vblocks s', block_heads := block_heads s'\<rparr>
     \<and> (\<forall>r \<in> R. \<forall>va. mmu_entry (mem s') r va = mmu_entry (mem s) r va) \<and> mmu_pages R s' \<subseteq> mmu_pages R s
     \<and> free_pages s' \<subseteq> free_pages s \<and> dom (vblocks s') \<subseteq> dom (vblocks s) \<union> mmu_pages R s"

lemma alloc_frame_trans:
  assumes "alloc_frame R s t" and "alloc_frame R t u"
  shows "alloc_frame R s u"
proof -
  from assms obtain m v b where t: "t = s\<lparr>mem := m, vblocks := v, block_heads := b\<rparr>"
    unfolding alloc_frame_def by blast
  from assms have "u = t\<lparr>mem := mem u, vblocks := vblocks u, block_heads := block_heads u\<rparr>"
    unfolding alloc_frame_def by blast
  then have "u = s\<lparr>mem := mem u, vblocks := vblocks u, block_heads := block_heads u\<rparr>"
    by (subst (asm) t) simp
  moreover have "dom (vblocks u) \<subseteq> dom (vblocks s) \<union> mmu_pages R s" "free_pages u \<subseteq> free_pages s" "mmu_pages R u \<subseteq> mmu_pages R s"
    using assms unfolding alloc_frame_def by blast+
  ultimately show ?thesis using assms unfolding alloc_frame_def by simp
qed

lemma alloc_frameI:
  assumes "s' = s\<lparr>mem := m, vblocks := v, block_heads := h\<rparr>"
    and "\<And>r va. r \<in> R \<Longrightarrow> mmu_entry m r va = mmu_entry (mem s) r va" and "mmu_pages R s' \<subseteq> mmu_pages R s"
    and "free_pages s' \<subseteq> free_pages s" and "dom v \<subseteq> dom (vblocks s) \<union> mmu_pages R s"
  shows "alloc_frame R s s'"
  unfolding alloc_frame_def using assms by simp

lemma alloc_frame_same:
  assumes "alloc_frame R s s'"
  shows "vregions s' = vregions s" and "vspaces s' = vspaces s" and "syms s' = syms s"
    and "pmap s' = pmap s" and "pmm_vma_stop s' = pmm_vma_stop s" and "kspace s' = kspace s"
proof -
  from assms obtain m v b where s': "s' = s\<lparr>mem := m, vblocks := v, block_heads := b\<rparr>"
    unfolding alloc_frame_def by blast
  show "vregions s' = vregions s" and "vspaces s' = vspaces s" and "syms s' = syms s"
    and "pmap s' = pmap s" and "pmm_vma_stop s' = pmm_vma_stop s" and "kspace s' = kspace s"
    by (simp_all add: s')
qed

lemma objs_next:
  assumes ok: "objs_ok ty bs live s" and a: "a \<in> set bs" and b: "vblocks s a = Some b"
  shows "vb_next b = 0 \<longleftrightarrow> a = last bs" and "vb_next b \<noteq> 0 \<Longrightarrow> vb_next b \<in> set bs"
proof -
  note d = objs_okD(1) [OF ok]
  obtain as cs where s: "bs = as @ a # cs" using a by (meson split_list)
  have n: "vb_next b = hd (cs @ [0])" using dll_links [OF d [unfolded s]] b by auto
  have dist: "distinct bs" by (rule dll_distinct [OF d])
  show "vb_next b = 0 \<longleftrightarrow> a = last bs"
  proof (cases cs)
    case Nil
    then show ?thesis using n s by simp
  next
    case (Cons c cs')
    then have "c \<noteq> 0" using dll_node [OF d, of c] s by simp
    moreover have "a \<noteq> last bs"
    proof -
      have "last bs = last cs" using s Cons by simp
      moreover have "last cs \<in> set cs" using Cons by (intro last_in_set) simp
      moreover have "a \<notin> set cs" using dist s by simp
      ultimately show ?thesis by metis
    qed
    ultimately show ?thesis using n Cons by simp
  qed
  show "vb_next b \<in> set bs" if "vb_next b \<noteq> 0" using n s that by (cases cs) auto
qed

definition alloc_result ::
  "u64 set \<Rightarrow> struct_type \<Rightarrow> (struct_type \<Rightarrow> u64 set) \<Rightarrow> 'a vmm_state_scheme \<Rightarrow> u64 \<Rightarrow> 'a vmm_state_scheme \<Rightarrow> bool" where
  "alloc_result R ty live s p s' \<longleftrightarrow> p \<noteq> 0 \<and> p \<notin> live ty \<and> alloc_frame R s s'
     \<and> (\<exists>bs'. vmm_inv R bs' (live(ty := insert p (live ty))) s')"

lemma alloc_result_trans:
  "alloc_frame R s t \<Longrightarrow> alloc_result R ty live t p u \<Longrightarrow> alloc_result R ty live s p u"
  unfolding alloc_result_def using alloc_frame_trans by blast

lemma block_alloc_from_spec:
  assumes "block_alloc_from ty s cur = Some r"
  shows "\<forall>bs p s'. vmm_inv R bs live s \<longrightarrow> cur \<in> set (bs ty) \<longrightarrow> r = Inr (p, s') \<longrightarrow>
    alloc_result R ty live s p s'"
proof (rule block_alloc_from.raw_induct [OF _ assms], intro allI impI)
  fix f ty s cur r bs p s'
  assume IH: "\<And>ty s cur r. f ty s cur = Some r \<Longrightarrow> \<forall>bs p s'. vmm_inv R bs live s \<longrightarrow>
      cur \<in> set (bs ty) \<longrightarrow> r = Inr (p, s') \<longrightarrow> alloc_result R ty live s p s'"
    and inv: "vmm_inv R bs live s" and cur: "cur \<in> set (bs ty)" and r: "r = Inr (p, s')"
    and run: "(if cur = 0 then Some (Inr (0, s))
      else case vblocks s cur of None \<Rightarrow> Some (Inl Fault)
      | Some b \<Rightarrow> (case bitmap_find_and_set (mem s) (vb_bm b) of Inl e \<Rightarrow> Some (Inl e)
         | Inr r \<Rightarrow> (if fst r \<noteq> bm_len (vb_bm b) then
              Some (Inr (vb_objects b + fst r * vb_object_size b,
                s\<lparr>mem := snd r, vblocks := (vblocks s)(cur \<mapsto> b\<lparr>vb_nb_used := vb_nb_used b + 1\<rparr>)\<rparr>))
            else if vb_next b = 0 then
              (case create_block ty cur (s\<lparr>mem := snd r\<rparr>) of Inl e \<Rightarrow> Some (Inl e)
               | Inr c \<Rightarrow> f ty ((snd c)\<lparr>vblocks := (vblocks (snd c))(cur \<mapsto> b\<lparr>vb_next := fst c\<rparr>)\<rparr>) (fst c))
            else f ty (s\<lparr>mem := snd r\<rparr>) (vb_next b)))) = Some r"
  note ok = vmm_invD(2) [OF inv, of ty]
  obtain b where b: "vblocks s cur = Some b" "block_ok ty cur b" using objs_okD(2) [OF ok cur] by blast
  have c0: "cur \<noteq> 0" using dll_node [OF objs_okD(1) [OF ok] cur] by blast
  obtain j m where f: "bitmap_find_and_set (mem s) (vb_bm b) = Inr (j, m)"
    using run r c0 b(1) by (auto split: sum.splits)
  note bt = block_take [OF inv cur b f]
  have fr1: "alloc_frame R s (s\<lparr>mem := m\<rparr>)"
    by (rule alloc_frameI [where m = m and v = "vblocks s" and h = "block_heads s"]) (simp_all add: bt(2,4,5))
  consider (found) "j \<noteq> bm_len (vb_bm b)" | (grow) "j = bm_len (vb_bm b)" "vb_next b = 0"
    | (next_block) "j = bm_len (vb_bm b)" "vb_next b \<noteq> 0" by blast
  then show "alloc_result R ty live s p s'"
  proof cases
    case found
    then have p: "p = vb_objects b + j * vb_object_size b"
      and s': "s' = s\<lparr>mem := m, vblocks := (vblocks s)(cur \<mapsto> b\<lparr>vb_nb_used := vb_nb_used b + 1\<rparr>)\<rparr>"
      using run r c0 b(1) f by auto
    have "alloc_frame R s s'"
      by (rule alloc_frameI [where m = m and h = "block_heads s" and v = "(vblocks s)(cur \<mapsto> b\<lparr>vb_nb_used := vb_nb_used b + 1\<rparr>)"])
        (use bt(2,4,5) b(1) in \<open>simp_all add: s' mmu_pages_def free_pages_def, auto\<close>)
    then show ?thesis using bt(3) [OF found p] unfolding alloc_result_def s' by blast
  next
    case next_block
    then have "f ty (s\<lparr>mem := m\<rparr>) (vb_next b) = Some r" using run c0 b(1) f by simp
    moreover have "vb_next b \<in> set (bs ty)" by (rule objs_next(2) [OF ok cur b(1) next_block(2)])
    ultimately have "alloc_result R ty live (s\<lparr>mem := m\<rparr>) p s'" using IH bt(1) r by blast
    then show ?thesis by (rule alloc_result_trans [OF fr1])
  next
    case grow
    then obtain c s1 where c: "create_block ty cur (s\<lparr>mem := m\<rparr>) = Inr (c, s1)"
      and g: "f ty (s1\<lparr>vblocks := (vblocks s1)(cur \<mapsto> b\<lparr>vb_next := c\<rparr>)\<rparr>) c = Some r"
      using run r c0 b(1) f by (auto split: sum.splits)
    have ne: "bs ty \<noteq> []" using cur by auto
    have last: "cur = last (bs ty)" using objs_next(1) [OF ok cur b(1)] grow(2) by simp
    define s2 where "s2 = s1\<lparr>vblocks := (vblocks s1)(cur \<mapsto> b\<lparr>vb_next := c\<rparr>)\<rparr>"
    have c': "create_block ty (last (0 # bs ty)) (s\<lparr>mem := m\<rparr>) = Inr (c, s1)" using c last ne by simp
    have "s2 = (if bs ty = [] then s1\<lparr>block_heads := (block_heads s1)(ty := c)\<rparr>
      else s1\<lparr>vblocks := (vblocks s1)(last (bs ty) \<mapsto>
        (the (vblocks (s\<lparr>mem := m\<rparr>) (last (bs ty))))\<lparr>vb_next := c\<rparr>)\<rparr>)"
      using ne last b(1) by (simp add: s2_def)
    note at = attach_block [OF bt(1) c' this]
    have "c \<in> set ((bs(ty := bs ty @ [c])) ty)" by simp
    then have "alloc_result R ty live s2 p s'" using IH [OF g [folded s2_def]] at(1) r by blast
    moreover have "alloc_frame R (s\<lparr>mem := m\<rparr>) s2" unfolding alloc_frame_def using at(2-6) by blast
    ultimately show ?thesis using alloc_result_trans [OF fr1] alloc_result_trans by blast
  qed
qed

lemma block_alloc_spec:
  assumes inv: "vmm_inv R bs live s" and run: "block_alloc ty s = Inr (p, s')"
  shows "alloc_result R ty live s p s'"
proof (cases "block_heads s ty = 0")
  case True
  then have empty: "bs ty = []"
    using objs_okD(1) [OF vmm_invD(2) [OF inv], of ty] by (simp add: dll_empty)
  obtain c s1 where c: "create_block ty 0 s = Inr (c, s1)"
    and r: "ret (block_alloc_from ty (s1\<lparr>block_heads := (block_heads s1)(ty := c)\<rparr>) c) = Inr (p, s')"
    using run True by (auto simp: block_alloc_def bindR_Inr_iff)
  let ?s2 = "s1\<lparr>block_heads := (block_heads s1)(ty := c)\<rparr>"
  have c': "create_block ty (last (0 # bs ty)) s = Inr (c, s1)" using c empty by simp
  have "?s2 = (if bs ty = [] then s1\<lparr>block_heads := (block_heads s1)(ty := c)\<rparr>
      else s1\<lparr>vblocks := (vblocks s1)(last (bs ty) \<mapsto> (the (vblocks s (last (bs ty))))\<lparr>vb_next := c\<rparr>)\<rparr>)"
    using empty by simp
  note at = attach_block [OF inv c' this]
  have "c \<in> set ((bs(ty := bs ty @ [c])) ty)" by simp
  moreover from r obtain q where "block_alloc_from ty ?s2 c = Some q" "q = Inr (p, s')"
    by (cases "block_alloc_from ty ?s2 c") auto
  ultimately have "alloc_result R ty live ?s2 p s'" using block_alloc_from_spec at(1) by blast
  moreover have "alloc_frame R s ?s2" unfolding alloc_frame_def using at(2-6) by blast
  ultimately show ?thesis using alloc_result_trans by blast
next
  case False
  then have r: "ret (block_alloc_from ty s (block_heads s ty)) = Inr (p, s')"
    using run by (simp add: block_alloc_def)
  have "block_heads s ty = hd (bs ty @ [0])"
    using dll_start [OF objs_okD(1) [OF vmm_invD(2) [OF inv]], of ty] .
  then have "block_heads s ty \<in> set (bs ty)" using False by (cases "bs ty") auto
  moreover from r obtain q where "block_alloc_from ty s (block_heads s ty) = Some q" "q = Inr (p, s')"
    by (cases "block_alloc_from ty s (block_heads s ty)") auto
  ultimately show ?thesis using block_alloc_from_spec inv by blast
qed

end
