(* ===== verification/Objects.thy ===== *)
theory Objects
  imports Vmm
begin

text \<open>
  The object allocator of \<^verbatim>\<open>kernel/mm/vmm.c\<close> as its clients see it: a pool that hands out objects
  nobody holds, and what releasing an object does. The pool contract is the locale
  \<open>object_pool\<close>, interpreted on \<open>block_alloc\<close>.
\<close>

section \<open>Handing out objects\<close>

locale object_pool =
  fixes ok :: "'s \<Rightarrow> u64 set \<Rightarrow> bool" and alloc :: "'s \<Rightarrow> (u64 \<times> 's) res"
  assumes alloc_fresh: "ok s live \<Longrightarrow> alloc s = Inr (p, s') \<Longrightarrow> p \<noteq> 0 \<and> p \<notin> live \<and> ok s' (insert p live)"
begin

lemma alloc_many:
  "ok s live \<Longrightarrow> take_many alloc k s = Inr (ps, s') \<Longrightarrow>
    distinct ps \<and> length ps = k \<and> set ps \<inter> live = {} \<and> 0 \<notin> set ps \<and> ok s' (set ps \<union> live)"
proof (induction k arbitrary: s live ps)
  case (Suc k)
  then obtain p s1 qs where p: "alloc s = Inr (p, s1)" and q: "take_many alloc k s1 = Inr (qs, s')"
    and ps: "ps = p # qs" by (auto simp: bindR_Inr_iff)
  note f = alloc_fresh [OF Suc.prems(1) p]
  from Suc.IH [OF _ q, of "insert p live"] f show ?case by (auto simp: ps)
qed simp

end

definition pool_ok :: "u64 set \<Rightarrow> struct_type \<Rightarrow> 'a vmm_state_scheme \<Rightarrow> u64 set \<Rightarrow> bool" where
  "pool_ok R ty s L \<longleftrightarrow> (\<exists>bs live. vmm_inv R bs live s \<and> live ty = L)"

interpretation pool: object_pool "pool_ok R ty" "block_alloc ty" for R ty
proof unfold_locales
  fix s :: "'a vmm_state_scheme" and L p s'
  assume "pool_ok R ty s L" and r: "block_alloc ty s = Inr (p, s')"
  then obtain bs live where i: "vmm_inv R bs live s" "live ty = L" unfolding pool_ok_def by blast
  have "alloc_result R ty live s p s'" by (rule block_alloc_spec [OF i(1) r])
  then obtain bs' where "vmm_inv R bs' (live(ty := insert p (live ty))) s'" "p \<noteq> 0" "p \<notin> live ty"
    unfolding alloc_result_def by blast
  then show "p \<noteq> 0 \<and> p \<notin> L \<and> pool_ok R ty s' (insert p L)" using i(2) unfolding pool_ok_def by fastforce
qed

section \<open>Releasing an object\<close>

text \<open>Bits of one block may change as long as no live object becomes free.\<close>

lemma vmm_inv_keep:
  assumes inv: "vmm_inv R bs live s" and a: "a \<in> set (bs ty)"
    and eq: "\<And>x. \<not> bm_span (blk_bm ty a) x \<Longrightarrow> m' x = mem s x"
    and keep: "\<And>j. j < max_objs ty \<Longrightarrow> slot ty a j \<in> live ty \<Longrightarrow> j \<notin> bm_free m' (blk_bm ty a)"
  shows "vmm_inv R bs live (s\<lparr>mem := m'\<rparr>)" and "r \<in> R \<Longrightarrow> mmu_entry m' r va = mmu_entry (mem s) r va"
    and "mmu_pages R (s\<lparr>mem := m'\<rparr>) = mmu_pages R s" and "free_pages (s\<lparr>mem := m'\<rparr>) = free_pages s"
proof -
  have al: "page_aligned a" by (rule vmm_invD(5) [OF inv a])
  have eqp: "m' x = mem s x" if "\<not> page_bytes a x" for x
    by (rule eq) (use that blk_span_page [OF al] in blast)
  note pw = page_write [OF vmm_invD(1) [OF inv] vmm_invD(3) [OF inv a] al vmm_invD(4) [OF inv a]]
  have m: "mmu_inv R (s\<lparr>mem := m'\<rparr>)" "mmu_pages R (s\<lparr>mem := m'\<rparr>) = mmu_pages R s"
    by (rule pw(1), rule eqp, assumption) (rule pw(3), rule eqp, assumption)
  show "mmu_pages R (s\<lparr>mem := m'\<rparr>) = mmu_pages R s" by (rule m(2))
  show "free_pages (s\<lparr>mem := m'\<rparr>) = free_pages s" by (rule pw(2), rule eqp)
  show "mmu_entry m' r va = mmu_entry (mem s) r va" if "r \<in> R"
    by (rule pw(4) [OF _ that], rule eqp)
  have "objs_ok ty' (bs ty') (live ty') (s\<lparr>mem := m'\<rparr>)" for ty'
  proof -
    have "\<exists>a' \<in> set (bs ty'). \<exists>j < max_objs ty'. p = slot ty' a' j \<and> j \<notin> bm_free m' (blk_bm ty' a')"
      if p: "p \<in> live ty'" for p
    proof -
      obtain a' j where j: "a' \<in> set (bs ty')" "j < max_objs ty'" "p = slot ty' a' j"
        "j \<notin> bm_free (mem s) (blk_bm ty' a')" by (rule objs_ok_live [OF vmm_invD(2) [OF inv] p])
      have "j \<notin> bm_free m' (blk_bm ty' a')"
      proof (cases "a' = a")
        case True
        then have "ty' = ty" using block_pages_differ [OF inv j(1) a] by blast
        then show ?thesis using keep j p True by simp
      next
        case False
        have al': "page_aligned a'" by (rule vmm_invD(5) [OF inv j(1)])
        have "bm_free m' (blk_bm ty' a') = bm_free (mem s) (blk_bm ty' a')"
          by (rule blk_free_frame [OF al'], rule eqp, rule pages_bytes_disjoint [OF al' al False])
        then show ?thesis using j(4) by simp
      qed
      then show ?thesis using j by blast
    qed
    then show ?thesis using vmm_invD(2) [OF inv, of ty'] unfolding objs_ok_def by simp
  qed
  then show "vmm_inv R bs live (s\<lparr>mem := m'\<rparr>)"
    using inv m unfolding vmm_inv_def off_bitmaps_def by simp
qed

lemma vmm_inv_mono:
  assumes "vmm_inv R bs live s" and "\<And>ty. live' ty \<subseteq> live ty"
  shows "vmm_inv R bs live' s"
proof -
  have "objs_ok ty (bs ty) (live' ty) s" for ty
    using vmm_invD(2) [OF assms(1), of ty] assms(2) [of ty] unfolding objs_ok_def by blast
  then show ?thesis using assms(1) unfolding vmm_inv_def by simp
qed

lemma blk_end:
  assumes "page_aligned a"
  shows "unat (a + 72) = unat a + 72"
    and "unat (a + 72 + of_nat (max_objs ty) * get_struct_size ty) = unat a + 72 + max_objs ty * unat (get_struct_size ty)"
    and "72 + max_objs ty * unat (get_struct_size ty) < 4096"
proof -
  show e: "unat (a + 72) = unat a + 72" using aligned_room [OF assms] by (subst unat_add_no_wrap) simp_all
  show b: "72 + max_objs ty * unat (get_struct_size ty) < 4096" by (cases ty) (simp_all add: max_objs_def)
  have "unat (of_nat (max_objs ty) * get_struct_size ty :: u64) = max_objs ty * unat (get_struct_size ty)"
    by (cases ty) (simp_all add: max_objs_def)
  then show "unat (a + 72 + of_nat (max_objs ty) * get_struct_size ty) = unat a + 72 + max_objs ty * unat (get_struct_size ty)"
    using e b aligned_room [OF assms] by (subst unat_add_no_wrap) simp_all
qed

text \<open>The search of \<^verbatim>\<open>block_free\<close> stops at the block that holds the object, and only there.\<close>

lemma slot_range:
  assumes "page_aligned a" and "page_aligned c" and "i < max_objs ty" and "block_ok ty c b"
  shows "slot ty a i < vb_objects b \<or> slot ty a i > vb_objects b + vb_max_objects b * vb_object_size b \<longleftrightarrow> c \<noteq> a"
proof -
  have vb: "vb_objects b = c + 72" "vb_object_size b = get_struct_size ty" "vb_max_objects b = of_nat (max_objs ty)"
    using assms(4) by (simp_all add: block_ok_def)
  note ce = blk_end(1) [OF assms(2)] blk_end(2,3) [OF assms(2), of ty]
  note u = unat_slot [OF assms(1,3)]
  have lt: "72 + i * unat (get_struct_size ty) < 4096" by (rule slot_offset(2) [OF assms(3)])
  have ile: "i * unat (get_struct_size ty) \<le> max_objs ty * unat (get_struct_size ty)"
    using assms(3) by simp
  have g: "c \<noteq> a \<Longrightarrow> unat a + 4096 \<le> unat c \<or> unat c + 4096 \<le> unat a"
    using aligned_gap [OF assms(2,1)] by blast
  obtain k l where kl: "k = i * unat (get_struct_size ty)" "l = max_objs ty * unat (get_struct_size ty)" by blast
  show ?thesis
    unfolding vb word_less_nat_alt ce(1,2) u using ce(3) lt ile g unfolding kl [symmetric] by (cases "c = a") auto
qed

lemma block_free_from_run:
  assumes ok: "objs_ok ty bs live s" and i: "i < max_objs ty" and p: "p = slot ty a i"
    and b: "vblocks s a = Some b"
  shows "xs @ a # cs = drop n bs \<Longrightarrow> block_free_from p s (hd (xs @ a # cs)) = Some (block_release p a b s)"
proof (induction xs arbitrary: n)
  case Nil
  have "set (drop n bs) \<subseteq> set bs" by (rule set_drop_subset)
  then have a: "a \<in> set bs" using Nil by (metis append_Nil list.set_intros(1) subsetD)
  have "block_ok ty a b" using objs_okD(2) [OF ok a] b by auto
  then have "\<not> (p < vb_objects b \<or> p > vb_objects b + vb_max_objects b * vb_object_size b)"
    using slot_range [OF objs_okD(3) [OF ok a] objs_okD(3) [OF ok a] i] p by simp
  moreover have "a \<noteq> 0" using dll_node [OF objs_okD(1) [OF ok] a] by blast
  ultimately show ?case using b by (simp add: block_free_from.simps [of p s a])
next
  case (Cons x xs)
  have split: "bs = take n bs @ x # (xs @ a # cs)" using Cons.prems by (metis append_Cons append_take_drop_id)
  have sub: "x \<in> set bs" "a \<in> set bs" by (subst split, simp)+
  obtain c where c: "vblocks s x = Some c" "block_ok ty x c" using objs_okD(2) [OF ok sub(1)] by blast
  note d = objs_okD(1) [OF ok]
  have d': "dll vb_next vb_prev (vblocks s) (block_heads s ty) (take n bs @ x # (xs @ a # cs))"
    using d split by simp
  have nx: "vb_next c = hd (xs @ a # cs)" using dll_links [OF d'] c(1) by (cases xs) auto
  have "distinct bs" by (rule dll_distinct [OF d])
  then have "x \<noteq> a" by (subst (asm) split) auto
  then have out: "p < vb_objects c \<or> p > vb_objects c + vb_max_objects c * vb_object_size c"
    using slot_range [OF objs_okD(3) [OF ok sub(2)] objs_okD(3) [OF ok sub(1)] i c(2)] p by simp
  have "x \<noteq> 0" using dll_node [OF d sub(1)] by blast
  then have "block_free_from p s x = block_free_from p s (vb_next c)"
    using c(1) out by (simp add: block_free_from.simps [of p s x])
  moreover have "xs @ a # cs = drop (Suc n) bs" using Cons.prems by (metis append_Cons drop_Suc list.sel(3) tl_drop)
  ultimately show ?case using Cons.IH nx by simp
qed

lemma slot_index:
  assumes "page_aligned a" and "i < max_objs ty"
  shows "(slot ty a i - (a + 72)) div get_struct_size ty = of_nat i"
proof -
  have "unat ((of_nat i * get_struct_size ty :: u64) div get_struct_size ty) = i"
    using slot_offset(1) [OF assms(2)] by (cases ty) (simp_all add: unat_div)
  then have "of_nat (unat ((of_nat i * get_struct_size ty :: u64) div get_struct_size ty)) = (of_nat i :: u64)" by simp
  then show ?thesis by (simp add: slot_def)
qed

text \<open>
  The index of an object decides what its release does (see the properties of \<open>bitmap_unset\<close>):
  only slots above the middle of their bitmap block are released cleanly, and the page of the
  block stays as long as its counter does not become zero.
\<close>

definition releasable :: "struct_type \<Rightarrow> 'a vmm_state_scheme \<Rightarrow> u64 \<Rightarrow> bool" where
  "releasable ty s p \<longleftrightarrow> (\<exists>a b i. vblocks s a = Some b \<and> page_aligned a \<and> i < max_objs ty \<and> p = slot ty a i
     \<and> 32 < i mod 64 \<and> vb_nb_used b \<noteq> 1)"

lemma index_word:
  assumes "i < max_objs ty"
  shows "unat (of_nat i :: u64) = i" and "(of_nat i :: u64) < bm_len (blk_bm ty a)"
proof -
  have "max_objs ty \<le> 236" by (cases ty) (simp_all add: max_objs_def)
  then show u: "unat (of_nat i :: u64) = i" using assms by (intro unat_of_nat64) simp
  then show "(of_nat i :: u64) < bm_len (blk_bm ty a)"
    unfolding word_less_nat_alt blk_bm_wf(2) using assms by simp
qed

lemma block_free_spec:
  assumes inv: "vmm_inv R bs live s" and p: "p \<in> live ty" and rel: "releasable ty s p"
  obtains m v where "block_free p ty s = Inr (drop_object ty p (s\<lparr>mem := m, vblocks := v\<rparr>))"
    and "vmm_inv R bs (live(ty := live ty - {p})) (s\<lparr>mem := m, vblocks := v\<rparr>)"
    and "\<And>r va. r \<in> R \<Longrightarrow> mmu_entry m r va = mmu_entry (mem s) r va"
    and "mmu_pages R (s\<lparr>mem := m, vblocks := v\<rparr>) = mmu_pages R s"
    and "free_pages (s\<lparr>mem := m, vblocks := v\<rparr>) = free_pages s" and "dom v = dom (vblocks s)"
proof -
  note ok = vmm_invD(2) [OF inv, of ty]
  obtain a i where a: "a \<in> set (bs ty)" "i < max_objs ty" "p = slot ty a i"
    "i \<notin> bm_free (mem s) (blk_bm ty a)" by (rule objs_ok_live [OF ok p])
  have al: "page_aligned a" by (rule objs_okD(3) [OF ok a(1)])
  obtain b where b: "vblocks s a = Some b" "32 < i mod 64" "vb_nb_used b \<noteq> 1"
    using rel slot_inj [OF al _ a(2)] a(3) unfolding releasable_def by (metis (no_types, lifting))
  have bo: "block_ok ty a b" using objs_okD(2) [OF ok a(1)] b(1) by auto
  then have vb: "vb_objects b = a + 72" "vb_object_size b = get_struct_size ty" "vb_bm b = blk_bm ty a"
    by (simp_all add: block_ok_def)
  note iw = index_word(1) [OF a(2)] index_word(2) [OF a(2), of a]
  obtain m where m: "bitmap_unset (mem s) (blk_bm ty a) (of_nat i) = Inr m"
    "bm_raw m (blk_bm ty a) = insert i (bm_raw (mem s) (blk_bm ty a))"
    "\<forall>x. \<not> bm_span (blk_bm ty a) x \<longrightarrow> m x = mem s x"
    using unset_high_slot [OF blk_bm_wf(1) iw(2), of "mem s"] iw(1) b(2) by auto
  let ?b = "b\<lparr>vb_nb_used := vb_nb_used b - 1\<rparr>"
  have z: "get_struct_size ty \<noteq> 0" by (cases ty) simp_all
  have rls: "block_release p a b s = Inr (s\<lparr>mem := m, vblocks := (vblocks s)(a \<mapsto> ?b)\<rparr>)"
    using m(1) b(3) z by (simp add: block_release_def vb a(3) slot_index [OF al a(2)] Let_def)
  obtain as cs where s: "bs ty = as @ a # cs" using a(1) by (meson split_list)
  have st: "block_heads s ty = hd (as @ a # cs)" using dll_start [OF objs_okD(1) [OF ok]] s by (cases as) auto
  have "block_free_from p s (block_heads s ty) = Some (block_release p a b s)"
    unfolding st by (rule block_free_from_run [OF ok a(2,3) b(1), of as cs 0]) (simp add: s)
  then have run: "block_free p ty s = Inr (drop_object ty p (s\<lparr>mem := m, vblocks := (vblocks s)(a \<mapsto> ?b)\<rparr>))"
    using rls by (simp add: block_free_def)
  let ?live = "live(ty := live ty - {p})"
  have inv1: "vmm_inv R bs ?live s" by (rule vmm_inv_mono [OF inv]) simp
  have keep: "j \<notin> bm_free m (blk_bm ty a)" if "j < max_objs ty" "slot ty a j \<in> ?live ty" for j
  proof -
    have "slot ty a j \<in> live ty" "j \<noteq> i" using that(2) a(3) by auto
    then have "j \<notin> bm_free (mem s) (blk_bm ty a)" using free_slot_fresh(1) [OF inv a(1)] by blast
    then show ?thesis using \<open>j \<noteq> i\<close> m(2) by (simp add: bm_free_raw [OF blk_bm_wf(1)])
  qed
  have eq: "m x = mem s x" if "\<not> bm_span (blk_bm ty a) x" for x using m(3) that by blast
  have k: "vmm_inv R bs ?live (s\<lparr>mem := m\<rparr>)" "mmu_pages R (s\<lparr>mem := m\<rparr>) = mmu_pages R s"
    by (rule vmm_inv_keep(1) [OF inv1 a(1)], erule eq, erule (1) keep)
      (rule vmm_inv_keep(3) [OF inv1 a(1)], erule eq, erule (1) keep)
  have e: "mmu_entry m r va = mmu_entry (mem s) r va" if "r \<in> R" for r va
    by (rule vmm_inv_keep(2) [OF inv1 a(1) _ _ that], erule eq, erule (1) keep)
  have "vmm_inv R bs ?live ((s\<lparr>mem := m\<rparr>)\<lparr>vblocks := (vblocks (s\<lparr>mem := m\<rparr>))(a \<mapsto> ?b)\<rparr>)"
    by (rule vmm_inv_block [OF k(1)]) (use b(1) in \<open>auto simp: block_ok_def\<close>)
  then have "vmm_inv R bs ?live (s\<lparr>mem := m, vblocks := (vblocks s)(a \<mapsto> ?b)\<rparr>)" by simp
  moreover have "mmu_pages R (s\<lparr>mem := m, vblocks := (vblocks s)(a \<mapsto> ?b)\<rparr>) = mmu_pages R s"
    using k(2) by (simp add: mmu_pages_def free_pages_def)
  moreover have "free_pages (s\<lparr>mem := m\<rparr>) = free_pages s"
    by (rule vmm_inv_keep(4) [OF inv1 a(1)], erule eq, erule (1) keep)
  then have "free_pages (s\<lparr>mem := m, vblocks := (vblocks s)(a \<mapsto> ?b)\<rparr>) = free_pages s" by (simp add: free_pages_def)
  moreover have "dom ((vblocks s)(a \<mapsto> ?b)) = dom (vblocks s)" using b(1) by auto
  ultimately show thesis using that run e by blast
qed

end
