(* ===== verification/Regions.thy ===== *)
theory Regions
  imports Objects
begin

text \<open>
  The region list of an address space: what the operations of \<^verbatim>\<open>kernel/mm/vmm.c\<close> on linked region
  objects do to the list of address ranges they represent. The abstract level is a list of
  ranges with flags (\<open>add_spec\<close>, \<open>cut_spec\<close>); the lemmas show that the pointer code refines it,
  that the list stays sorted and disjoint, and what is covered afterwards.
\<close>

section \<open>Linking and unlinking\<close>

type_synonym range = "u64 \<times> u64 \<times> u64"

abbreviation rdll :: "(u64 \<rightharpoonup> vmm_region) \<Rightarrow> u64 \<Rightarrow> u64 list \<Rightarrow> bool" where
  "rdll \<equiv> dll vr_next vr_prev"

definition rdata :: "vmm_region \<Rightarrow> range" where
  "rdata r = (va_start r, va_stop r, vr_flags r)"

definition rlist :: "(u64 \<rightharpoonup> vmm_region) \<Rightarrow> u64 list \<Rightarrow> range list" where
  "rlist h ps = map (\<lambda>p. rdata (the (h p))) ps"

definition regions_of :: "'a vm_state_scheme \<Rightarrow> u64 \<Rightarrow> u64 list \<Rightarrow> bool" where
  "regions_of s space ps \<longleftrightarrow> (\<exists>sp. vspaces s space = Some sp \<and> rdll (vregions s) (sp_region sp) ps)"

text \<open>
  The frame of a change of the region list of \<open>space\<close>, whose nodes are \<open>ps\<close>: no other region, no
  other space, and no page directory changes.
\<close>

definition region_frame :: "u64 \<Rightarrow> u64 set \<Rightarrow> 'a vm_state_scheme \<Rightarrow> 'a vm_state_scheme \<Rightarrow> bool" where
  "region_frame space ps s s' \<longleftrightarrow> (\<forall>q. q \<notin> ps \<longrightarrow> vregions s' q = vregions s q)
     \<and> (\<forall>x. x \<noteq> space \<longrightarrow> vspaces s' x = vspaces s x)
     \<and> map_option page_directory (vspaces s' space) = map_option page_directory (vspaces s space)"

lemma rlist_append [simp]: "rlist h (as @ bs) = rlist h as @ rlist h bs"
  by (simp add: rlist_def)

lemma rlist_Nil [simp]: "rlist h [] = []"
  by (simp add: rlist_def)

lemma rlist_Cons [simp]: "rlist h (a # as) = rdata (the (h a)) # rlist h as"
  by (simp add: rlist_def)

lemma length_rlist [simp]: "length (rlist h ps) = length ps"
  by (simp add: rlist_def)

lemma rlist_cong: "(\<And>p. p \<in> set ps \<Longrightarrow> rdata (the (h' p)) = rdata (the (h p))) \<Longrightarrow> rlist h' ps = rlist h ps"
  by (simp add: rlist_def)

lemma rlist_eq_Nil [simp]: "rlist h ps = [] \<longleftrightarrow> ps = []"
  by (simp add: rlist_def)

definition link_heap ::
  "(u64 \<rightharpoonup> vmm_region) \<Rightarrow> u64 \<Rightarrow> vmm_region \<Rightarrow> u64 list \<Rightarrow> u64 list \<Rightarrow> u64 \<rightharpoonup> vmm_region" where
  "link_heap h x n as bs = (\<lambda>q. if q = x then Some n else map_option (\<lambda>r.
     r\<lparr>vr_next := (if as \<noteq> [] \<and> q = last as then x else vr_next r),
       vr_prev := (if bs \<noteq> [] \<and> q = hd bs then x else vr_prev r)\<rparr>) (h q))"

lemma upd_self [simp]: "r\<lparr>vr_next := vr_next r, vr_prev := vr_prev r\<rparr> = r"
  "r\<lparr>vr_next := vr_next r\<rparr> = r" "r\<lparr>vr_prev := vr_prev r\<rparr> = r"
  by (cases r, simp)+

text \<open>Setting one link of the node \<open>l\<close> and one of the node \<open>b\<close>, where they exist.\<close>

lemma relink_two:
  assumes "A \<Longrightarrow> h l = Some v" and "B \<Longrightarrow> h b = Some w" and "A \<Longrightarrow> B \<Longrightarrow> l \<noteq> b"
  shows "(\<lambda>q. map_option (\<lambda>r. r\<lparr>vr_next := (if A \<and> q = l then X else vr_next r),
       vr_prev := (if B \<and> q = b then Y else vr_prev r)\<rparr>) (h q)) =
    (let h2 = (if A then h(l \<mapsto> v\<lparr>vr_next := X\<rparr>) else h) in
     if B then h2(b \<mapsto> w\<lparr>vr_prev := Y\<rparr>) else h2)"
proof (rule ext)
  fix q
  have id: "map_option (\<lambda>r. r) (h q) = h q" by (simp add: option.map_ident)
  show "map_option (\<lambda>r. r\<lparr>vr_next := (if A \<and> q = l then X else vr_next r),
       vr_prev := (if B \<and> q = b then Y else vr_prev r)\<rparr>) (h q) =
    (let h2 = (if A then h(l \<mapsto> v\<lparr>vr_next := X\<rparr>) else h) in
     if B then h2(b \<mapsto> w\<lparr>vr_prev := Y\<rparr>) else h2) q"
  proof (cases "A \<and> q = l")
    case True
    then have "\<not> (B \<and> q = b)" using assms(3) by blast
    then show ?thesis using True assms(1) by (auto simp: Let_def)
  next
    case False
    then show ?thesis
      using id assms(2) by (cases "B \<and> q = b") (auto simp: Let_def)
  qed
qed

lemma ends_nodes:
  assumes d: "rdll h p (as @ bs)"
  obtains v w where "as \<noteq> [] \<Longrightarrow> h (last as) = Some v" and "as \<noteq> [] \<Longrightarrow> last as \<noteq> 0"
    and "bs \<noteq> [] \<Longrightarrow> h (hd bs) = Some w" and "bs \<noteq> [] \<Longrightarrow> hd bs \<noteq> 0"
    and "as \<noteq> [] \<Longrightarrow> bs \<noteq> [] \<Longrightarrow> last as \<noteq> hd bs"
proof -
  have dist: "distinct (as @ bs)" by (rule dll_distinct [OF d])
  have l: "last as \<noteq> 0 \<and> (\<exists>v. h (last as) = Some v)" if "as \<noteq> []"
    using dll_node [OF d, of "last as"] that by simp
  have b: "hd bs \<noteq> 0 \<and> (\<exists>v. h (hd bs) = Some v)" if "bs \<noteq> []"
    using dll_node [OF d, of "hd bs"] that by simp
  have "last as \<noteq> hd bs" if "as \<noteq> []" "bs \<noteq> []"
    using dist that by (metis disjoint_iff distinct_append last_in_set list.set_sel(1))
  then show thesis using that [of "the (h (last as))" "the (h (hd bs))"] l b by (metis option.sel)
qed

lemma link_region_run:
  assumes sp: "vspaces s space = Some sp" and d: "rdll (vregions s) (sp_region sp) (as @ bs)"
    and x: "x \<notin> set (as @ bs)" and z: "x \<noteq> 0"
    and n: "n = \<lparr>va_start = st, va_stop = en, vr_next = hd (bs @ [0]), vr_prev = last (0 # as), vr_flags = fl\<rparr>"
  shows "link_region space x st en fl (last (0 # as)) (hd (bs @ [0])) s =
    Inr (s\<lparr>vspaces := (if as = [] then (vspaces s)(space \<mapsto> sp\<lparr>sp_region := x\<rparr>) else vspaces s),
           vregions := link_heap (vregions s) x n as bs\<rparr>)"
proof -
  obtain v w where vw: "as \<noteq> [] \<Longrightarrow> vregions s (last as) = Some v" "as \<noteq> [] \<Longrightarrow> last as \<noteq> 0"
    "bs \<noteq> [] \<Longrightarrow> vregions s (hd bs) = Some w" "bs \<noteq> [] \<Longrightarrow> hd bs \<noteq> 0"
    "as \<noteq> [] \<Longrightarrow> bs \<noteq> [] \<Longrightarrow> last as \<noteq> hd bs" using ends_nodes [OF d] by metis
  have nx: "as \<noteq> [] \<Longrightarrow> last as \<noteq> x" "bs \<noteq> [] \<Longrightarrow> hd bs \<noteq> x" using x by auto
  have "link_heap (vregions s) x n as bs =
    (\<lambda>q. map_option (\<lambda>r. r\<lparr>vr_next := (if as \<noteq> [] \<and> q = last as then x else vr_next r),
       vr_prev := (if bs \<noteq> [] \<and> q = hd bs then x else vr_prev r)\<rparr>) (vregions s q))(x \<mapsto> n)"
    by (rule ext) (simp add: link_heap_def)
  also have "\<dots> = (let h2 = (if as \<noteq> [] then (vregions s)(last as \<mapsto> v\<lparr>vr_next := x\<rparr>) else vregions s) in
     if bs \<noteq> [] then h2(hd bs \<mapsto> w\<lparr>vr_prev := x\<rparr>) else h2)(x \<mapsto> n)"
    by (rule arg_cong [where f = "\<lambda>h. h(x \<mapsto> n)"]) (rule relink_two [OF vw(1,3,5)])
  finally have lh: "link_heap (vregions s) x n as bs =
    (let h2 = (if as \<noteq> [] then (vregions s)(last as \<mapsto> v\<lparr>vr_next := x\<rparr>) else vregions s) in
     if bs \<noteq> [] then h2(hd bs \<mapsto> w\<lparr>vr_prev := x\<rparr>) else h2)(x \<mapsto> n)" .
  consider "as = []" "bs = []" | "as = []" "bs \<noteq> []" | "as \<noteq> []" "bs = []" | "as \<noteq> []" "bs \<noteq> []" by blast
  then show ?thesis
    unfolding lh link_region_def set_space_def set_region_def Let_def
    by cases (use sp n vw nx in \<open>simp_all add: fun_upd_twist\<close>)
qed

lemma link_region_spec:
  assumes sp: "vspaces s space = Some sp" and d: "rdll (vregions s) (sp_region sp) (as @ bs)"
    and x: "x \<notin> set (as @ bs)" and z: "x \<noteq> 0"
  shows "\<exists>s'. link_region space x st en fl (last (0 # as)) (hd (bs @ [0])) s = Inr s'
    \<and> regions_of s' space (as @ x # bs)
    \<and> rlist (vregions s') (as @ x # bs) = rlist (vregions s) as @ (st, en, fl) # rlist (vregions s) bs
    \<and> region_frame space (set (as @ x # bs)) s s' \<and> dom (vregions s') = insert x (dom (vregions s))
    \<and> dom (vspaces s') = dom (vspaces s) \<and> s' = s\<lparr>vspaces := vspaces s', vregions := vregions s'\<rparr>"
proof -
  define n where "n = \<lparr>va_start = st, va_stop = en, vr_next = hd (bs @ [0]), vr_prev = last (0 # as), vr_flags = fl\<rparr>"
  define h where "h = link_heap (vregions s) x n as bs"
  define vs where "vs = (if as = [] then (vspaces s)(space \<mapsto> sp\<lparr>sp_region := x\<rparr>) else vspaces s)"
  have run: "link_region space x st en fl (last (0 # as)) (hd (bs @ [0])) s = Inr (s\<lparr>vspaces := vs, vregions := h\<rparr>)"
    unfolding vs_def h_def by (rule link_region_run [OF sp d x z n_def])
  have d': "rdll h (if as = [] then x else sp_region sp) (as @ x # bs)"
  proof (rule dll_insert [OF d z, where n = n])
    show "h x = Some n" by (simp add: h_def link_heap_def)
    show "vr_next n = hd (bs @ [0])" "vr_prev n = last (0 # as)" by (simp_all add: n_def)
    fix a v assume a: "a \<in> set (as @ bs)" "vregions s a = Some v"
    then have "a \<noteq> x" using x by blast
    then show "\<exists>v'. h a = Some v' \<and> vr_next v' = (if as \<noteq> [] \<and> a = last as then x else vr_next v)
        \<and> vr_prev v' = (if bs \<noteq> [] \<and> a = hd bs then x else vr_prev v)"
      using a(2) by (simp add: h_def link_heap_def)
  qed
  have rd: "rdata (the (h q)) = rdata (the (vregions s q))" if q: "q \<in> set (as @ bs)" for q
  proof -
    have "q \<noteq> x" using q x by blast
    moreover obtain v where "vregions s q = Some v" using dll_node [OF d q] by blast
    ultimately show ?thesis by (simp add: h_def link_heap_def rdata_def)
  qed
  have "rlist h as = rlist (vregions s) as" "rlist h bs = rlist (vregions s) bs"
    by (rule rlist_cong, rule rd, simp)+
  then have rl: "rlist h (as @ x # bs) = rlist (vregions s) as @ (st, en, fl) # rlist (vregions s) bs"
    by (simp add: h_def link_heap_def n_def rdata_def)
  have fr: "h q = vregions s q" if q: "q \<notin> set (as @ x # bs)" for q
  proof -
    have "q \<noteq> x" "\<not> (as \<noteq> [] \<and> q = last as)" "\<not> (bs \<noteq> [] \<and> q = hd bs)" using q by auto
    then show ?thesis by (auto simp: h_def link_heap_def option.map_ident)
  qed
  have dm: "dom h = insert x (dom (vregions s))" by (auto simp: h_def link_heap_def dom_def split: if_splits)
  have ro: "regions_of (s\<lparr>vspaces := vs, vregions := h\<rparr>) space (as @ x # bs)"
    using d' sp by (cases "as = []") (simp_all add: regions_of_def vs_def)
  have "region_frame space (set (as @ x # bs)) s (s\<lparr>vspaces := vs, vregions := h\<rparr>)"
    using fr sp by (simp add: region_frame_def vs_def)
  moreover have "dom vs = dom (vspaces s)" using sp by (auto simp: vs_def)
  ultimately show ?thesis using run ro rl dm by simp
qed

text \<open>Unlinking the node \<open>x\<close> of \<open>as @ x # bs\<close>.\<close>

definition unlink_heap ::
  "(u64 \<rightharpoonup> vmm_region) \<Rightarrow> u64 list \<Rightarrow> u64 list \<Rightarrow> u64 \<rightharpoonup> vmm_region" where
  "unlink_heap h as bs = (\<lambda>q. map_option (\<lambda>r.
     r\<lparr>vr_next := (if as \<noteq> [] \<and> q = last as then hd (bs @ [0]) else vr_next r),
       vr_prev := (if bs \<noteq> [] \<and> q = hd bs then last (0 # as) else vr_prev r)\<rparr>) (h q))"

lemma unlink_region_run:
  assumes sp: "vspaces s space = Some sp" and d: "rdll (vregions s) (sp_region sp) (as @ x # bs)"
  shows "unlink_region space x s =
    Inr (s\<lparr>vspaces := (if as = [] then (vspaces s)(space \<mapsto> sp\<lparr>sp_region := hd (bs @ [0])\<rparr>) else vspaces s),
           vregions := unlink_heap (vregions s) as bs\<rparr>)"
proof -
  have dist: "distinct (as @ x # bs)" by (rule dll_distinct [OF d])
  obtain r where r: "vregions s x = Some r" "vr_prev r = last (0 # as)" "vr_next r = hd (bs @ [0])"
    using dll_links [OF d] by blast
  obtain v v0 where v: "as \<noteq> [] \<Longrightarrow> vregions s (last as) = Some v" "as \<noteq> [] \<Longrightarrow> last as \<noteq> 0"
    using ends_nodes [OF d] by metis
  have d1: "rdll (vregions s) (sp_region sp) ((as @ [x]) @ bs)" using d by simp
  obtain w where w: "bs \<noteq> [] \<Longrightarrow> vregions s (hd bs) = Some w" "bs \<noteq> [] \<Longrightarrow> hd bs \<noteq> 0"
    using ends_nodes [OF d1] by metis
  have ne: "last as \<noteq> hd bs" if "as \<noteq> []" "bs \<noteq> []"
    using dist that by (metis disjoint_iff distinct_append last_in_set list.set_sel(1) list.set_intros(2))
  have st: "sp_region sp = x \<longleftrightarrow> as = []"
  proof (cases as)
    case Nil
    then show ?thesis using dll_start [OF d] by simp
  next
    case (Cons a as')
    then show ?thesis using dll_start [OF d] dist by simp
  qed
  have uh: "unlink_heap (vregions s) as bs =
    (let h2 = (if as \<noteq> [] then (vregions s)(last as \<mapsto> v\<lparr>vr_next := hd (bs @ [0])\<rparr>) else vregions s) in
     if bs \<noteq> [] then h2(hd bs \<mapsto> w\<lparr>vr_prev := last (0 # as)\<rparr>) else h2)"
    unfolding unlink_heap_def by (rule relink_two [OF v(1) w(1) ne])
  have z: "last (0 # as) = 0 \<longleftrightarrow> as = []" "hd (bs @ [0]) = 0 \<longleftrightarrow> bs = []"
    using v(2) w(2) by (simp, cases "bs = []", simp_all)
  have hb: "bs \<noteq> [] \<Longrightarrow> hd (bs @ [0]) = hd bs" "as \<noteq> [] \<Longrightarrow> last (0 # as) = last as" by simp_all
  consider "as = []" "bs = []" | "as = []" "bs \<noteq> []" | "as \<noteq> []" "bs = []" | "as \<noteq> []" "bs \<noteq> []" by blast
  then show ?thesis
    unfolding uh unlink_region_def set_space_def set_region_def Let_def
    by cases (use sp r z st hb v w ne in simp_all)
qed

lemma unlink_region_spec:
  assumes sp: "vspaces s space = Some sp" and d: "rdll (vregions s) (sp_region sp) (as @ x # bs)"
  shows "\<exists>s'. unlink_region space x s = Inr s' \<and> regions_of s' space (as @ bs)
    \<and> rlist (vregions s') (as @ bs) = rlist (vregions s) (as @ bs)
    \<and> region_frame space (set (as @ bs)) s s' \<and> dom (vregions s') = dom (vregions s)
    \<and> dom (vspaces s') = dom (vspaces s) \<and> s' = s\<lparr>vspaces := vspaces s', vregions := vregions s'\<rparr>"
proof -
  define h where "h = unlink_heap (vregions s) as bs"
  define vs where "vs = (if as = [] then (vspaces s)(space \<mapsto> sp\<lparr>sp_region := hd (bs @ [0])\<rparr>) else vspaces s)"
  have run: "unlink_region space x s = Inr (s\<lparr>vspaces := vs, vregions := h\<rparr>)"
    unfolding vs_def h_def by (rule unlink_region_run [OF sp d])
  have d': "rdll h (if as = [] then hd (bs @ [0]) else sp_region sp) (as @ bs)"
    by (rule dll_remove [OF d]) (auto simp: h_def unlink_heap_def)
  have rd: "rdata (the (h q)) = rdata (the (vregions s q))" if q: "q \<in> set (as @ bs)" for q
  proof -
    obtain v where "vregions s q = Some v" using dll_node [OF d, of q] q by auto
    then show ?thesis by (simp add: h_def unlink_heap_def rdata_def)
  qed
  have rl: "rlist h (as @ bs) = rlist (vregions s) (as @ bs)" by (rule rlist_cong) (rule rd)
  have fr: "h q = vregions s q" if q: "q \<notin> set (as @ bs)" for q
  proof -
    have "\<not> (as \<noteq> [] \<and> q = last as)" "\<not> (bs \<noteq> [] \<and> q = hd bs)" using q by auto
    then show ?thesis by (auto simp: h_def unlink_heap_def option.map_ident)
  qed
  have ro: "regions_of (s\<lparr>vspaces := vs, vregions := h\<rparr>) space (as @ bs)"
    using d' sp by (cases "as = []") (simp_all add: regions_of_def vs_def)
  have "region_frame space (set (as @ bs)) s (s\<lparr>vspaces := vs, vregions := h\<rparr>)"
    using fr sp by (simp add: region_frame_def vs_def)
  moreover have "dom vs = dom (vspaces s)" using sp by (auto simp: vs_def)
  moreover have "dom h = dom (vregions s)" by (auto simp: h_def unlink_heap_def dom_def)
  ultimately show ?thesis using run ro rl by simp
qed

section \<open>Objects given back\<close>

lemma pmm_free_upd: "pmm_free s p = Inr s' \<Longrightarrow> \<exists>m. s' = s\<lparr>mem := m\<rparr>"
  by (auto simp: pmm_free_def bindR_Inr_iff split: if_splits)

lemma set_block_upd: "set_block p f s = Inr s' \<Longrightarrow> \<exists>v. s' = s\<lparr>vblocks := v\<rparr>"
  by (auto simp: set_block_def bindR_Inr_iff)

lemma cond_set_block:
  "(if c then set_block p f s else Inr s) = Inr s' \<Longrightarrow> vregions s' = vregions s \<and> vspaces s' = vspaces s"
  by (auto split: if_splits dest!: set_block_upd)

lemma block_release_heaps:
  assumes "block_release ptr a b s = Inr s'"
  shows "vregions s' = vregions s \<and> vspaces s' = vspaces s"
proof -
  obtain m where m: "(if vb_object_size b = 0 then Inl Div_By_Zero
      else bitmap_unset (mem s) (vb_bm b) ((ptr - vb_objects b) div vb_object_size b)) = Inr m"
    using assms unfolding block_release_def by (elim bindR_InrE) blast
  let ?b = "b\<lparr>vb_nb_used := vb_nb_used b - 1\<rparr>"
  let ?s1 = "s\<lparr>mem := m, vblocks := (vblocks s)(a \<mapsto> ?b)\<rparr>"
  show ?thesis
  proof (cases "vb_nb_used ?b = 0")
    case False
    then have "s' = ?s1" using assms m unfolding block_release_def by simp
    then show ?thesis by simp
  next
    case True
    then obtain s2 s3 s4 where
      2: "(if vb_prev ?b \<noteq> 0 then set_block (vb_prev ?b) (\<lambda>c. c\<lparr>vb_next := vb_next ?b\<rparr>) ?s1 else Inr ?s1) = Inr s2" and
      3: "(if vb_next ?b \<noteq> 0 then set_block (vb_next ?b) (\<lambda>c. c\<lparr>vb_prev := vb_prev ?b\<rparr>) s2 else Inr s2) = Inr s3" and
      4: "pmm_free s3 (DM_V2P a) = Inr s4" and 5: "s' = s4\<lparr>vblocks := (vblocks s4)(a := None)\<rparr>"
      using assms unfolding block_release_def m bindR.simps Let_def if_P [OF True]
      by (elim bindR_InrE) simp
    show ?thesis using cond_set_block [OF 2] cond_set_block [OF 3] pmm_free_upd [OF 4] 5 by auto
  qed
qed

lemma block_free_from_heaps:
  assumes "block_free_from ptr s a = Some r"
  shows "\<forall>s'. r = Inr s' \<longrightarrow> vregions s' = vregions s \<and> vspaces s' = vspaces s"
proof (rule block_free_from.raw_induct [OF _ assms], intro allI impI)
  fix f ptr s a r s'
  assume IH: "\<And>ptr s a r. f ptr s a = Some r \<Longrightarrow>
      \<forall>s'. r = Inr s' \<longrightarrow> vregions s' = vregions s \<and> vspaces s' = vspaces s" and r: "r = Inr s'"
    and run: "(if a = 0 then Some (Inl (Panic ''block_free: freeing unknown pointer''))
      else case vblocks s a of None \<Rightarrow> Some (Inl Fault)
      | Some b \<Rightarrow> (if ptr < vb_objects b \<or> ptr > vb_objects b + vb_max_objects b * vb_object_size b
           then f ptr s (vb_next b) else Some (block_release ptr a b s))) = Some r"
  then obtain b where b: "vblocks s a = Some b" "a \<noteq> 0" by (auto split: if_splits option.splits)
  show "vregions s' = vregions s \<and> vspaces s' = vspaces s"
  proof (cases "ptr < vb_objects b \<or> ptr > vb_objects b + vb_max_objects b * vb_object_size b")
    case True
    then show ?thesis using run b IH r by simp
  next
    case False
    then show ?thesis using run b r block_release_heaps by simp
  qed
qed

lemma block_free_heaps:
  assumes "block_free p TYPE_VMM_REGION s = Inr s'"
  shows "vregions s' = (vregions s)(p := None)" and "vspaces s' = vspaces s"
proof -
  from assms obtain t where "ret (block_free_from p s (block_heads s TYPE_VMM_REGION)) = Inr t"
    and s': "s' = drop_object TYPE_VMM_REGION p t" by (auto simp: block_free_def bindR_Inr_iff)
  then obtain r where "block_free_from p s (block_heads s TYPE_VMM_REGION) = Some r" "r = Inr t"
    by (cases "block_free_from p s (block_heads s TYPE_VMM_REGION)") auto
  from block_free_from_heaps [OF this(1)] this(2)
  have "vregions t = vregions s" "vspaces t = vspaces s" by auto
  then show "vregions s' = (vregions s)(p := None)" "vspaces s' = vspaces s" by (simp_all add: s')
qed

lemma vmm_remove_region_spec:
  assumes sp: "vspaces s space = Some sp" and d: "rdll (vregions s) (sp_region sp) (as @ x # bs)"
    and run: "vmm_remove_region s space x = Inr s'"
  shows "regions_of s' space (as @ bs)" and "rlist (vregions s') (as @ bs) = rlist (vregions s) (as @ bs)"
    and "region_frame space (set (as @ x # bs)) s s'"
proof -
  obtain s1 where u: "unlink_region space x s = Inr s1" "regions_of s1 space (as @ bs)"
    "rlist (vregions s1) (as @ bs) = rlist (vregions s) (as @ bs)" "region_frame space (set (as @ bs)) s s1"
    using unlink_region_spec [OF sp d] by blast
  then have f: "block_free x TYPE_VMM_REGION s1 = Inr s'" using run by (simp add: vmm_remove_region_def)
  note bf = block_free_heaps [OF f]
  have x: "x \<notin> set (as @ bs)" using dll_distinct [OF d] by auto
  have same: "vregions s' q = vregions s1 q" if "q \<noteq> x" for q using bf(1) that by simp
  obtain sp1 where sp1: "vspaces s1 space = Some sp1" "rdll (vregions s1) (sp_region sp1) (as @ bs)"
    using u(2) unfolding regions_of_def by blast
  have "rdll (vregions s') (sp_region sp1) (as @ bs)"
    by (rule dll_frame [OF _ sp1(2)], rule same) (use x in blast)
  then show "regions_of s' space (as @ bs)" using sp1(1) bf(2) by (simp add: regions_of_def)
  have "rlist (vregions s') (as @ bs) = rlist (vregions s1) (as @ bs)"
    by (rule rlist_cong) (use x same in metis)
  then show "rlist (vregions s') (as @ bs) = rlist (vregions s) (as @ bs)" using u(3) by simp
  show "region_frame space (set (as @ x # bs)) s s'"
    using u(4) same bf(2) unfolding region_frame_def by simp
qed

section \<open>The state between operations\<close>

text \<open>Every region and space object in use is a live object of the object allocator.\<close>

definition vmm_ok :: "u64 set \<Rightarrow> 'a vmm_state_scheme \<Rightarrow> bool" where
  "vmm_ok R s \<longleftrightarrow> (\<exists>bs live. vmm_inv R bs live s
     \<and> dom (vregions s) \<subseteq> live TYPE_VMM_REGION \<and> dom (vspaces s) \<subseteq> live TYPE_VMM_SPACE)"

lemma vmm_inv_heaps:
  "vmm_inv R bs live (s\<lparr>vspaces := a, vregions := b\<rparr>) = vmm_inv R bs live s"
  "vmm_inv R bs live (s\<lparr>vregions := b\<rparr>) = vmm_inv R bs live s"
  "vmm_inv R bs live (s\<lparr>vspaces := a\<rparr>) = vmm_inv R bs live s"
  by (simp_all add: vmm_inv_def objs_ok_def mmu_inv_def pmm_inv_def off_bitmaps_def mmu_pages_def free_pages_def)

lemma vmm_ok_heaps:
  assumes "vmm_ok R s" and "s' = s\<lparr>vspaces := vspaces s', vregions := vregions s'\<rparr>"
    and "dom (vregions s') \<subseteq> dom (vregions s)" and "dom (vspaces s') \<subseteq> dom (vspaces s)"
  shows "vmm_ok R s'"
proof -
  obtain bs live where "vmm_inv R bs live s" "dom (vregions s) \<subseteq> live TYPE_VMM_REGION"
    "dom (vspaces s) \<subseteq> live TYPE_VMM_SPACE" using assms(1) unfolding vmm_ok_def by blast
  moreover have "vmm_inv R bs live s'" by (subst assms(2)) (simp add: vmm_inv_heaps calculation)
  ultimately show ?thesis using assms(3,4) unfolding vmm_ok_def by blast
qed

lemma vmm_ok_mmu: "vmm_ok R s \<Longrightarrow> mmu_inv R s"
  unfolding vmm_ok_def using vmm_invD(1) by blast

text \<open>
  Every page-table entry and the root of every space is as before, no page became free, and new
  blocks of objects lie on pages that were free.
\<close>

definition mappings_kept :: "u64 set \<Rightarrow> 'a vmm_state_scheme \<Rightarrow> 'a vmm_state_scheme \<Rightarrow> bool" where
  "mappings_kept R s s' \<longleftrightarrow> (\<forall>r \<in> R. \<forall>va. mmu_entry (mem s') r va = mmu_entry (mem s) r va)
     \<and> mmu_pages R s' \<subseteq> mmu_pages R s \<and> free_pages s' \<subseteq> free_pages s
     \<and> dom (vblocks s') \<subseteq> dom (vblocks s) \<union> mmu_pages R s \<and> pmap s' = pmap s \<and> pmm_vma_stop s' = pmm_vma_stop s
     \<and> (\<forall>a. map_option page_directory (vspaces s' a) = map_option page_directory (vspaces s a))"

lemma region_frame_dirs: "region_frame space A s s' \<Longrightarrow> map_option page_directory (vspaces s' a) = map_option page_directory (vspaces s a)"
  unfolding region_frame_def by (cases "a = space") auto

lemma mappings_kept_trans: "mappings_kept R s t \<Longrightarrow> mappings_kept R t u \<Longrightarrow> mappings_kept R s u"
  unfolding mappings_kept_def by (simp, blast)

lemma vmm_create_region_spec:
  assumes ok: "vmm_ok R s" and ro: "regions_of s space (as @ bs)"
    and run: "vmm_create_region s space st en fl (last (0 # as)) (hd (bs @ [0])) = Inr (x, s')"
  shows "regions_of s' space (as @ x # bs)"
    and "rlist (vregions s') (as @ x # bs) = rlist (vregions s) as @ (st, en, fl) # rlist (vregions s) bs"
    and "region_frame space (set (as @ x # bs)) s s'" and "x \<notin> dom (vregions s)" and "vmm_ok R s'"
    and "mappings_kept R s s'" and "x \<noteq> 0" and "free_pages s' \<subseteq> free_pages s"
proof -
  obtain bl live where inv: "vmm_inv R bl live s" "dom (vregions s) \<subseteq> live TYPE_VMM_REGION"
    "dom (vspaces s) \<subseteq> live TYPE_VMM_SPACE" using ok unfolding vmm_ok_def by blast
  obtain s1 where a: "block_alloc TYPE_VMM_REGION s = Inr (x, s1)" "x \<noteq> 0"
    and l: "link_region space x st en fl (last (0 # as)) (hd (bs @ [0])) s1 = Inr s'"
    using run by (auto simp: vmm_create_region_def bindR_Inr_iff split: if_splits)
  have res: "alloc_result R TYPE_VMM_REGION live s x s1" by (rule block_alloc_spec [OF inv(1) a(1)])
  obtain bl' where inv1: "vmm_inv R bl' (live(TYPE_VMM_REGION := insert x (live TYPE_VMM_REGION))) s1"
    using res unfolding alloc_result_def by blast
  have fr: "alloc_frame R s s1" using res unfolding alloc_result_def by blast
  note same = alloc_frame_same [OF fr]
  show xd: "x \<notin> dom (vregions s)" using res inv(2) unfolding alloc_result_def by blast
  obtain sp where sp: "vspaces s space = Some sp" "rdll (vregions s) (sp_region sp) (as @ bs)"
    using ro unfolding regions_of_def by blast
  have xn: "x \<notin> set (as @ bs)" using dll_node [OF sp(2)] xd by blast
  have sp1: "vspaces s1 space = Some sp" "rdll (vregions s1) (sp_region sp) (as @ bs)"
    using sp same by simp_all
  obtain s2 where s2: "link_region space x st en fl (last (0 # as)) (hd (bs @ [0])) s1 = Inr s2"
    "regions_of s2 space (as @ x # bs)"
    "rlist (vregions s2) (as @ x # bs) = rlist (vregions s1) as @ (st, en, fl) # rlist (vregions s1) bs"
    "region_frame space (set (as @ x # bs)) s1 s2" "dom (vregions s2) = insert x (dom (vregions s1))"
    "dom (vspaces s2) = dom (vspaces s1)" "s2 = s1\<lparr>vspaces := vspaces s2, vregions := vregions s2\<rparr>"
    using link_region_spec [OF sp1 xn a(2)] by blast
  have eq: "s2 = s'" using l s2(1) by simp
  show "regions_of s' space (as @ x # bs)" using s2(2) eq by simp
  show "rlist (vregions s') (as @ x # bs) = rlist (vregions s) as @ (st, en, fl) # rlist (vregions s) bs"
    using s2(3) eq same by simp
  show rf: "region_frame space (set (as @ x # bs)) s s'"
    using s2(4) eq same unfolding region_frame_def by simp
  have "vmm_inv R bl' (live(TYPE_VMM_REGION := insert x (live TYPE_VMM_REGION))) s'"
    using inv1 unfolding eq [symmetric] by (subst s2(7)) (simp add: vmm_inv_heaps)
  moreover have "dom (vregions s') \<subseteq> insert x (live TYPE_VMM_REGION)" "dom (vspaces s') \<subseteq> live TYPE_VMM_SPACE"
    using s2(5,6) eq same inv(2,3) by auto
  ultimately show "vmm_ok R s'" unfolding vmm_ok_def by fastforce
  have "mem s2 = mem s1" "free_pages s2 = free_pages s1" "mmu_pages R s2 = mmu_pages R s1" "vblocks s2 = vblocks s1"
    "pmap s2 = pmap s1" "pmm_vma_stop s2 = pmm_vma_stop s1" by (subst s2(7), simp add: free_pages_def mmu_pages_def)+
  then show "mappings_kept R s s'" "free_pages s' \<subseteq> free_pages s"
    using fr eq same region_frame_dirs [OF rf] unfolding alloc_frame_def mappings_kept_def by simp_all
  show "x \<noteq> 0" by (rule a(2))
qed

lemma set_region_spec:
  assumes ro: "regions_of s space (as @ x # bs)" and links: "\<And>r. vr_next (f r) = vr_next r \<and> vr_prev (f r) = vr_prev r"
    and run: "set_region x f s = Inr s'"
  shows "regions_of s' space (as @ x # bs)"
    and "rlist (vregions s') (as @ x # bs) =
      rlist (vregions s) as @ rdata (f (the (vregions s x))) # rlist (vregions s) bs"
    and "region_frame space (set (as @ x # bs)) s s'" and "s' = s\<lparr>vregions := vregions s'\<rparr>"
    and "dom (vregions s') = dom (vregions s)"
proof -
  obtain r where r: "vregions s x = Some r" and s': "s' = s\<lparr>vregions := (vregions s)(x \<mapsto> f r)\<rparr>"
    using run by (auto simp: set_region_def bindR_Inr_iff deref_Inr_iff)
  obtain sp where sp: "vspaces s space = Some sp" "rdll (vregions s) (sp_region sp) (as @ x # bs)"
    using ro unfolding regions_of_def by blast
  have dist: "x \<notin> set as" "x \<notin> set bs" using dll_distinct [OF sp(2)] by auto
  have "rdll (vregions s') (sp_region sp) (as @ x # bs)"
    by (rule dll_cong [OF _ sp(2)]) (use r links in \<open>auto simp: s'\<close>)
  then show "regions_of s' space (as @ x # bs)" using sp(1) by (simp add: regions_of_def s')
  have "rlist (vregions s') as = rlist (vregions s) as" "rlist (vregions s') bs = rlist (vregions s) bs"
    by (rule rlist_cong, use dist in \<open>auto simp: s'\<close>)+
  then show "rlist (vregions s') (as @ x # bs) =
      rlist (vregions s) as @ rdata (f (the (vregions s x))) # rlist (vregions s) bs"
    using r by (simp add: s')
  show "region_frame space (set (as @ x # bs)) s s'" by (simp add: region_frame_def s')
  show "s' = s\<lparr>vregions := vregions s'\<rparr>" by (simp add: s')
  show "dom (vregions s') = dom (vregions s)" using r by (auto simp: s')
qed

section \<open>Inserting a range\<close>

definition joins_prev :: "range list \<Rightarrow> u64 \<Rightarrow> u64 \<Rightarrow> bool" where
  "joins_prev xs a f \<longleftrightarrow> xs \<noteq> [] \<and> fst (snd (last xs)) = a \<and> snd (snd (last xs)) = f"

definition joins_next :: "range list \<Rightarrow> u64 \<Rightarrow> u64 \<Rightarrow> bool" where
  "joins_next ys b f \<longleftrightarrow> ys \<noteq> [] \<and> fst (hd ys) = b \<and> snd (snd (hd ys)) = f"

definition merged :: "range list \<Rightarrow> range list \<Rightarrow> range \<Rightarrow> range" where
  "merged xs ys = (\<lambda>(a, b, f).
     (if joins_prev xs a f then fst (last xs) else a, if joins_next ys b f then fst (snd (hd ys)) else b, f))"

definition insert_between :: "range list \<Rightarrow> range list \<Rightarrow> range \<Rightarrow> range list" where
  "insert_between xs ys = (\<lambda>(a, b, f).
     (if joins_prev xs a f then butlast xs else xs) @ merged xs ys (a, b, f)
       # (if joins_next ys b f then tl ys else ys))"

definition collides :: "range list \<Rightarrow> range list \<Rightarrow> u64 \<Rightarrow> u64 \<Rightarrow> bool" where
  "collides xs ys a b \<longleftrightarrow> (ys \<noteq> [] \<and> b > fst (hd ys)) \<or> (xs \<noteq> [] \<and> a < fst (snd (last xs)))"

lemma region_opt_last:
  assumes "rdll (vregions s) p (as @ bs)"
  shows "as = [] \<Longrightarrow> region_opt s (last (0 # as)) = Inr None"
    and "as \<noteq> [] \<Longrightarrow> \<exists>r. region_opt s (last (0 # as)) = Inr (Some r) \<and> vregions s (last as) = Some r
      \<and> last (rlist (vregions s) as) = rdata r"
    and "bs = [] \<Longrightarrow> region_opt s (hd (bs @ [0])) = Inr None"
    and "bs \<noteq> [] \<Longrightarrow> \<exists>r. region_opt s (hd (bs @ [0])) = Inr (Some r) \<and> vregions s (hd bs) = Some r
      \<and> hd (rlist (vregions s) bs) = rdata r"
proof -
  obtain v w where vw: "as \<noteq> [] \<Longrightarrow> vregions s (last as) = Some v" "as \<noteq> [] \<Longrightarrow> last as \<noteq> 0"
    "bs \<noteq> [] \<Longrightarrow> vregions s (hd bs) = Some w" "bs \<noteq> [] \<Longrightarrow> hd bs \<noteq> 0"
    using ends_nodes [OF assms] by metis
  show "as = [] \<Longrightarrow> region_opt s (last (0 # as)) = Inr None" "bs = [] \<Longrightarrow> region_opt s (hd (bs @ [0])) = Inr None"
    by (simp_all add: region_opt_def)
  show "as \<noteq> [] \<Longrightarrow> \<exists>r. region_opt s (last (0 # as)) = Inr (Some r) \<and> vregions s (last as) = Some r
      \<and> last (rlist (vregions s) as) = rdata r"
    using vw(1,2) by (simp add: region_opt_def rlist_def last_map)
  show "bs \<noteq> [] \<Longrightarrow> \<exists>r. region_opt s (hd (bs @ [0])) = Inr (Some r) \<and> vregions s (hd bs) = Some r
      \<and> hd (rlist (vregions s) bs) = rdata r"
    using vw(3,4) by (simp add: region_opt_def rlist_def hd_map)
qed

text \<open>The decisions of \<^verbatim>\<open>vmm_insert_range\<close> in terms of the ranges.\<close>

lemma vmm_insert_range_cases:
  assumes d: "rdll (vregions s) p (as @ bs)"
  defines "xs \<equiv> rlist (vregions s) as" and "ys \<equiv> rlist (vregions s) bs"
  shows "vmm_insert_range s space (last (0 # as)) (hd (bs @ [0])) a b f =
    (if ys \<noteq> [] \<and> b > fst (hd ys) then Inl (Panic ''vmm_insert_range:overlap with next'')
     else if xs \<noteq> [] \<and> a < fst (snd (last xs)) then Inl (Panic ''vmm_insert_range:overlap with prev'')
     else if joins_prev xs a f \<and> joins_next ys b f then
       bindR (set_region (last as) (\<lambda>r. r\<lparr>va_stop := fst (snd (hd ys))\<rparr>) s) (\<lambda>s1.
       bindR (vmm_remove_region s1 space (hd bs)) (\<lambda>s2. Inr (last as, s2)))
     else if joins_prev xs a f then
       bindR (set_region (last as) (\<lambda>r. r\<lparr>va_stop := b\<rparr>) s) (\<lambda>s1. Inr (last as, s1))
     else if joins_next ys b f then
       bindR (set_region (hd bs) (\<lambda>r. r\<lparr>va_start := a\<rparr>) s) (\<lambda>s1. Inr (hd bs, s1))
     else vmm_create_region s space a b f (last (0 # as)) (hd (bs @ [0])))"
proof -
  note ro = region_opt_last [OF d]
  consider "as = []" "bs = []" | "as = []" "bs \<noteq> []" | "as \<noteq> []" "bs = []" | "as \<noteq> []" "bs \<noteq> []" by blast
  then show ?thesis
  proof cases
    case 1
    then show ?thesis
      by (simp add: vmm_insert_range_def region_opt_def xs_def ys_def joins_prev_def joins_next_def)
  next
    case 2
    then obtain w where w: "region_opt s (hd (bs @ [0])) = Inr (Some w)" "hd ys = rdata w" using ro(4) ys_def by blast
    show ?thesis using 2 w
      by (auto simp: vmm_insert_range_def region_opt_def [of s 0] xs_def ys_def joins_prev_def joins_next_def
          rdata_def Let_def)
  next
    case 3
    then obtain v where v: "region_opt s (last (0 # as)) = Inr (Some v)" "last xs = rdata v" using ro(2) xs_def by blast
    show ?thesis using 3 v
      by (auto simp: vmm_insert_range_def region_opt_def [of s 0] xs_def ys_def joins_prev_def joins_next_def
          rdata_def Let_def)
  next
    case 4
    then obtain v w where v: "region_opt s (last (0 # as)) = Inr (Some v)" "last xs = rdata v"
      and w: "region_opt s (hd (bs @ [0])) = Inr (Some w)" "hd ys = rdata w" using ro xs_def ys_def by metis
    show ?thesis using 4 v w
      by (auto simp: vmm_insert_range_def xs_def ys_def joins_prev_def joins_next_def rdata_def Let_def)
  qed
qed

text \<open>
  What a successful insertion between \<open>as\<close> and \<open>bs\<close> achieves: the list represents the ranges with
  the new one merged in, the region returned is the one that contains it, and nothing else
  changed. The object allocator's invariant is kept unless a region object had to be released,
  which happens when both neighbours are merged.
\<close>

definition inserted ::
  "u64 set \<Rightarrow> u64 \<Rightarrow> range list \<Rightarrow> range list \<Rightarrow> range \<Rightarrow> u64 set \<Rightarrow> 'a vmm_state_scheme \<Rightarrow> u64 \<Rightarrow> 'a vmm_state_scheme \<Rightarrow> bool"
where
  "inserted R space xs ys rg nodes s reg s' \<longleftrightarrow> (\<exists>ps. regions_of s' space ps
     \<and> rlist (vregions s') ps = insert_between xs ys rg \<and> reg \<in> set ps
     \<and> rdata (the (vregions s' reg)) = merged xs ys rg
     \<and> region_frame space (nodes \<union> {reg}) s s'
     \<and> (reg \<in> nodes \<or> reg \<notin> dom (vregions s))
     \<and> (\<not> (joins_prev xs (fst rg) (snd (snd rg)) \<and> joins_next ys (fst (snd rg)) (snd (snd rg)))
         \<longrightarrow> vmm_ok R s' \<and> mappings_kept R s s' \<and> free_pages s' \<subseteq> free_pages s))"

lemma set_region_ok:
  assumes "vmm_ok R s" and "set_region x f s = Inr s'"
  shows "vmm_ok R s'" and "mappings_kept R s s'" and "free_pages s' \<subseteq> free_pages s"
proof -
  obtain r where r: "vregions s x = Some r" and s': "s' = s\<lparr>vregions := (vregions s)(x \<mapsto> f r)\<rparr>"
    using assms(2) by (auto simp: set_region_def bindR_Inr_iff deref_Inr_iff)
  show "vmm_ok R s'" by (rule vmm_ok_heaps [OF assms(1)]) (use r in \<open>auto simp: s'\<close>)
  show "mappings_kept R s s'" by (simp add: mappings_kept_def s' free_pages_def mmu_pages_def)
  show "free_pages s' \<subseteq> free_pages s" by (simp add: s' free_pages_def)
qed

lemma region_frame_trans:
  "region_frame space A s t \<Longrightarrow> region_frame space B t u \<Longrightarrow> region_frame space (A \<union> B) s u"
  unfolding region_frame_def by simp

lemma region_frame_mono: "region_frame space A s t \<Longrightarrow> A \<subseteq> B \<Longrightarrow> region_frame space B s t"
  unfolding region_frame_def by blast

lemma vmm_insert_range_spec:
  assumes ok: "vmm_ok R s" and ro: "regions_of s space (as @ bs)"
    and run: "vmm_insert_range s space (last (0 # as)) (hd (bs @ [0])) a b f = Inr (reg, s')"
  defines "xs \<equiv> rlist (vregions s) as" and "ys \<equiv> rlist (vregions s) bs"
  shows "\<not> collides xs ys a b" and "inserted R space xs ys (a, b, f) (set (as @ bs)) s reg s'"
proof -
  obtain sp where sp: "vspaces s space = Some sp" "rdll (vregions s) (sp_region sp) (as @ bs)"
    using ro unfolding regions_of_def by blast
  note rc = run [unfolded vmm_insert_range_cases [OF sp(2)], folded xs_def ys_def]
  show nc: "\<not> collides xs ys a b" using rc unfolding collides_def by (auto split: if_splits)
  have n1: "\<not> (ys \<noteq> [] \<and> b > fst (hd ys))" and n2: "\<not> (xs \<noteq> [] \<and> a < fst (snd (last xs)))"
    using nc unfolding collides_def by blast+
  note rc' = rc [unfolded if_not_P [OF n1] if_not_P [OF n2]]
  consider (both) "joins_prev xs a f" "joins_next ys b f" | (prev) "joins_prev xs a f" "\<not> joins_next ys b f"
    | (nxt) "\<not> joins_prev xs a f" "joins_next ys b f" | (new) "\<not> joins_prev xs a f" "\<not> joins_next ys b f" by blast
  then show "inserted R space xs ys (a, b, f) (set (as @ bs)) s reg s'"
  proof cases
    case new
    then have c: "vmm_create_region s space a b f (last (0 # as)) (hd (bs @ [0])) = Inr (reg, s')" using rc' by simp
    note cr = vmm_create_region_spec [OF ok ro c]
    have d: "rdata (the (vregions s' reg)) = (a, b, f)"
    proof -
      have "rlist (vregions s') as @ rdata (the (vregions s' reg)) # rlist (vregions s') bs
        = rlist (vregions s) as @ (a, b, f) # rlist (vregions s) bs" using cr(2) by simp
      then show ?thesis by (simp add: append_eq_append_conv)
    qed
    show ?thesis
      unfolding inserted_def using cr new d
      by (intro exI [of _ "as @ reg # bs"]) (simp add: insert_between_def merged_def xs_def ys_def
          insert_is_Un [symmetric] Un_commute)
  next
    case prev
    then obtain as0 l where as: "as = as0 @ [l]" by (cases as rule: rev_cases) (auto simp: joins_prev_def xs_def)
    have ro1: "regions_of s space (as0 @ l # bs)" using ro as by simp
    have st: "set_region l (\<lambda>r. r\<lparr>va_stop := b\<rparr>) s = Inr s'" and reg: "reg = l"
      using rc' prev as by (auto simp: bindR_Inr_iff)
    note sr = set_region_spec [OF ro1 _ st, simplified]
    obtain v where v: "vregions s l = Some v" "f = vr_flags v"
      using dll_node [OF sp(2), of l] as prev by (auto simp: joins_prev_def xs_def rdata_def)
    have m: "merged xs ys (a, b, f) = (va_start v, b, f)"
      using prev v as by (simp add: merged_def xs_def rdata_def)
    have "vregions s' l = Some (v\<lparr>va_stop := b\<rparr>)" using st v(1) by (auto simp: set_region_def)
    then have d: "rdata (the (vregions s' reg)) = merged xs ys (a, b, f)"
      unfolding m reg using v(2) by (simp add: rdata_def)
    have "rlist (vregions s') (as0 @ l # bs) = insert_between xs ys (a, b, f)"
      using sr(2) prev v m as by (simp add: insert_between_def xs_def ys_def rdata_def)
    then show ?thesis
      unfolding inserted_def using sr(1) d set_region_ok [OF ok st] sr(3) reg as
      by (intro exI [of _ "as0 @ l # bs"]) (simp add: insert_absorb)
  next
    case nxt
    then obtain n bs0 where bs: "bs = n # bs0" by (cases bs) (auto simp: joins_next_def ys_def)
    have ro1: "regions_of s space (as @ n # bs0)" using ro bs by simp
    have st: "set_region n (\<lambda>r. r\<lparr>va_start := a\<rparr>) s = Inr s'" and reg: "reg = n"
      using rc' nxt bs by (auto simp: bindR_Inr_iff)
    note sr = set_region_spec [OF ro1 _ st, simplified]
    obtain v where v: "vregions s n = Some v" "f = vr_flags v"
      using dll_node [OF sp(2), of n] bs nxt by (auto simp: joins_next_def ys_def rdata_def)
    have m: "merged xs ys (a, b, f) = (a, va_stop v, f)"
      using nxt v bs by (simp add: merged_def ys_def rdata_def)
    have "vregions s' n = Some (v\<lparr>va_start := a\<rparr>)" using st v(1) by (auto simp: set_region_def)
    then have d: "rdata (the (vregions s' reg)) = merged xs ys (a, b, f)"
      unfolding m reg using v(2) by (simp add: rdata_def)
    have "rlist (vregions s') (as @ n # bs0) = insert_between xs ys (a, b, f)"
      using sr(2) nxt v m bs by (simp add: insert_between_def xs_def ys_def rdata_def)
    then show ?thesis
      unfolding inserted_def using sr(1) d set_region_ok [OF ok st] sr(3) reg bs
      by (intro exI [of _ "as @ n # bs0"]) (simp add: insert_absorb)
  next
    case both
    then obtain as0 l n bs0 where as: "as = as0 @ [l]" and bs: "bs = n # bs0"
      by (cases as rule: rev_cases; cases bs) (auto simp: joins_prev_def joins_next_def xs_def ys_def)
    have ro1: "regions_of s space (as0 @ l # n # bs0)" using ro as bs by simp
    obtain w where w: "vregions s n = Some w" "b = va_start w"
      using dll_node [OF sp(2), of n] bs both by (auto simp: joins_next_def ys_def rdata_def)
    obtain v where v: "vregions s l = Some v" "f = vr_flags v"
      using dll_node [OF sp(2), of l] as both by (auto simp: joins_prev_def xs_def rdata_def)
    have "fst (snd (hd ys)) = va_stop w" using bs w by (simp add: ys_def rdata_def)
    then obtain s1 where st: "set_region l (\<lambda>r. r\<lparr>va_stop := va_stop w\<rparr>) s = Inr s1"
      and rm: "vmm_remove_region s1 space n = Inr s'" and reg: "reg = l"
      using rc' both as bs by (auto simp: bindR_Inr_iff)
    note sr = set_region_spec [OF ro1 _ st, simplified]
    obtain sp1 where sp1: "vspaces s1 space = Some sp1" "rdll (vregions s1) (sp_region sp1) ((as0 @ [l]) @ n # bs0)"
      using sr(1) unfolding regions_of_def by auto
    note rs = vmm_remove_region_spec [OF sp1 rm]
    have m: "merged xs ys (a, b, f) = (va_start v, va_stop w, f)"
      using both v w as bs by (simp add: merged_def xs_def ys_def rdata_def)
    have sr2: "rlist (vregions s1) as0 = rlist (vregions s) as0"
      "rdata (the (vregions s1 l)) = (va_start v, va_stop w, f)"
      "rlist (vregions s1) bs0 = rlist (vregions s) bs0"
      using sr(2) v by (auto simp: rdata_def append_eq_append_conv)
    have rl: "rlist (vregions s') (as0 @ l # bs0) = insert_between xs ys (a, b, f)"
      using rs(2) sr2 m both as bs by (simp add: insert_between_def xs_def ys_def)
    have "rlist (vregions s') (as0 @ l # bs0) = rlist (vregions s1) as0 @ rdata (the (vregions s1 l)) # rlist (vregions s1) bs0"
      using rs(2) by simp
    then have d: "rdata (the (vregions s' reg)) = merged xs ys (a, b, f)"
      using sr2(2) m reg by (simp add: append_eq_append_conv)
    have fr: "region_frame space (set (as @ bs) \<union> {reg}) s s'"
      by (rule region_frame_mono [OF region_frame_trans [OF sr(3) rs(3)]]) (use as bs in auto)
    show ?thesis
      unfolding inserted_def using rs(1) rl d fr both reg as
      by (intro exI [of _ "as0 @ l # bs0"]) simp
  qed
qed

section \<open>Lists of ranges\<close>

definition ranges_ok :: "range list \<Rightarrow> bool" where
  "ranges_ok xs \<longleftrightarrow> (\<forall>x \<in> set xs. fst x < fst (snd x)) \<and> sorted_wrt (\<lambda>x y. fst (snd x) \<le> fst y) xs"

text \<open>The addresses covered with the flags \<open>f\<close>.\<close>

definition covered :: "range list \<Rightarrow> u64 \<Rightarrow> u64 set" where
  "covered xs f = (\<Union>x \<in> {x \<in> set xs. snd (snd x) = f}. {fst x..<fst (snd x)})"

fun place_from :: "u64 \<Rightarrow> u64 \<Rightarrow> range option \<Rightarrow> range list \<Rightarrow> nat" where
  "place_from a b pr [] = 0"
| "place_from a b pr (y # ys) =
     (if (case pr of None \<Rightarrow> True | Some q \<Rightarrow> a > fst q) \<and> b < fst (snd y) then 0
      else Suc (place_from a b (Some y) ys))"

text \<open>Adding a range, at the level of lists: \<open>None\<close> when it overlaps a neighbour.\<close>

definition add_spec :: "range \<Rightarrow> range list \<Rightarrow> range list option" where
  "add_spec = (\<lambda>(a, b, f) xs.
     let k = place_from a b None xs in
     if collides (take k xs) (drop k xs) a b then None
     else Some (insert_between (take k xs) (drop k xs) (a, b, f)))"

lemma ranges_ok_append:
  "ranges_ok (xs @ ys) \<longleftrightarrow> ranges_ok xs \<and> ranges_ok ys \<and> (\<forall>x \<in> set xs. \<forall>y \<in> set ys. fst (snd x) \<le> fst y)"
  by (auto simp: ranges_ok_def sorted_wrt_append)

lemma ranges_ok_Cons:
  "ranges_ok (x # xs) \<longleftrightarrow> fst x < fst (snd x) \<and> (\<forall>y \<in> set xs. fst (snd x) \<le> fst y) \<and> ranges_ok xs"
  by (auto simp: ranges_ok_def)

lemma ranges_ok_Nil [simp]: "ranges_ok []"
  by (simp add: ranges_ok_def)

lemma covered_append: "covered (xs @ ys) f = covered xs f \<union> covered ys f"
  by (auto simp: covered_def)

lemma covered_Cons: "covered (x # xs) f = (if snd (snd x) = f then {fst x..<fst (snd x)} else {}) \<union> covered xs f"
  by (auto simp: covered_def)

lemma covered_Nil [simp]: "covered [] f = {}"
  by (simp add: covered_def)

lemma no_collision_gap:
  assumes ok: "ranges_ok (xs @ ys)" and nc: "\<not> collides xs ys a b"
  shows "\<forall>x \<in> set xs. fst (snd x) \<le> a" and "\<forall>y \<in> set ys. b \<le> fst y"
proof -
  show "\<forall>x \<in> set xs. fst (snd x) \<le> a"
  proof (cases xs rule: rev_cases)
    case (snoc xs0 l)
    then have la: "fst (snd l) \<le> a" using nc by (auto simp: collides_def)
    have "fst (snd x) \<le> fst l" if "x \<in> set xs0" for x using ok snoc that by (auto simp: ranges_ok_append)
    moreover have "fst l < fst (snd l)" using ok snoc by (auto simp: ranges_ok_append ranges_ok_Cons)
    ultimately have "fst (snd x) \<le> a" if "x \<in> set xs0" for x
      using that la by (meson less_imp_le order_trans)
    then show ?thesis using la snoc by simp
  qed simp
  show "\<forall>y \<in> set ys. b \<le> fst y"
  proof (cases ys)
    case (Cons y ys0)
    then have by': "b \<le> fst y" using nc by (auto simp: collides_def)
    have "fst (snd y) \<le> fst z" if "z \<in> set ys0" for z using ok Cons that by (auto simp: ranges_ok_append ranges_ok_Cons)
    moreover have "fst y < fst (snd y)" using ok Cons by (auto simp: ranges_ok_append ranges_ok_Cons)
    ultimately have "b \<le> fst z" if "z \<in> set ys0" for z
      using that by' by (meson less_imp_le order_trans)
    then show ?thesis using by' Cons by simp
  qed simp
qed

lemma range_split:
  fixes a b c :: u64
  assumes "a \<le> b" and "b \<le> c"
  shows "{a..<c} = {a..<b} \<union> {b..<c}"
  using assms by auto

lemma insert_between_ok:
  assumes ok: "ranges_ok (xs @ ys)" and ab: "a < b" and nc: "\<not> collides xs ys a b"
  shows "ranges_ok (insert_between xs ys (a, b, f))"
    and "covered (insert_between xs ys (a, b, f)) g = covered (xs @ ys) g \<union> (if g = f then {a..<b} else {})"
    and "covered (xs @ ys) g \<inter> {a..<b} = {}"
proof -
  note gap = no_collision_gap [OF ok nc]
  have "covered xs g \<inter> {a..<b} = {}"
    using gap(1) unfolding covered_def by fastforce
  moreover have "covered ys g \<inter> {a..<b} = {}"
    using gap(2) unfolding covered_def by fastforce
  ultimately show "covered (xs @ ys) g \<inter> {a..<b} = {}" by (auto simp: covered_append)
  obtain xs1 a1 where xs1: "(if joins_prev xs a f then butlast xs else xs) = xs1"
    "(if joins_prev xs a f then fst (last xs) else a) = a1" by blast
  obtain ys1 b1 where ys1: "(if joins_next ys b f then tl ys else ys) = ys1"
    "(if joins_next ys b f then fst (snd (hd ys)) else b) = b1" by blast
  have ib: "insert_between xs ys (a, b, f) = xs1 @ (a1, b1, f) # ys1"
    using xs1 ys1 by (simp add: insert_between_def merged_def)
  have X: "ranges_ok xs1 \<and> (\<forall>x \<in> set xs1. fst (snd x) \<le> a1) \<and> a1 \<le> a
    \<and> covered xs g \<union> (if g = f then {a..<b} else {}) = covered xs1 g \<union> (if g = f then {a1..<b} else {}) \<and> set xs1 \<subseteq> set xs"
  proof (cases "joins_prev xs a f")
    case True
    then obtain xs0 l where l: "xs = xs0 @ [l]" "fst (snd l) = a" "snd (snd l) = f"
      by (cases xs rule: rev_cases) (auto simp: joins_prev_def)
    have o: "ranges_ok xs0" "\<forall>x \<in> set xs0. fst (snd x) \<le> fst l" "fst l < a"
      using ok l by (auto simp: ranges_ok_append ranges_ok_Cons)
    have "{fst l..<b} = {fst l..<a} \<union> {a..<b}" using o(3) ab by (intro range_split) simp_all
    then show ?thesis using True xs1 l o by (auto simp: covered_append covered_Cons)
  next
    case False
    then show ?thesis using xs1 ok gap(1) by (auto simp: ranges_ok_append)
  qed
  have Y: "ranges_ok ys1 \<and> (\<forall>y \<in> set ys1. b1 \<le> fst y) \<and> b \<le> b1
    \<and> covered ys g \<union> (if g = f then {a1..<b} else {}) = covered ys1 g \<union> (if g = f then {a1..<b1} else {}) \<and> set ys1 \<subseteq> set ys"
  proof (cases "joins_next ys b f")
    case True
    then obtain n ys0 where n: "ys = n # ys0" "fst n = b" "snd (snd n) = f"
      by (cases ys) (auto simp: joins_next_def)
    have o: "ranges_ok ys0" "\<forall>y \<in> set ys0. fst (snd n) \<le> fst y" "b < fst (snd n)"
      using ok n by (auto simp: ranges_ok_append ranges_ok_Cons)
    have "a1 \<le> b" using X ab by auto
    then have "{a1..<fst (snd n)} = {a1..<b} \<union> {b..<fst (snd n)}" using o(3) by (intro range_split) simp_all
    then show ?thesis using True ys1 n o by (auto simp: covered_Cons)
  next
    case False
    then show ?thesis using ys1 ok gap(2) by (auto simp: ranges_ok_append)
  qed
  have "a1 < b1" using X Y ab by (meson less_le_trans le_less_trans)
  moreover have "\<forall>x \<in> set xs1. \<forall>y \<in> set ys1. fst (snd x) \<le> fst y"
    using X Y ok by (meson ranges_ok_append subsetD)
  ultimately show "ranges_ok (insert_between xs ys (a, b, f))"
    unfolding ib using X Y by (auto simp: ranges_ok_append ranges_ok_Cons)
  have "covered (insert_between xs ys (a, b, f)) g = covered xs1 g \<union> (if g = f then {a1..<b1} else {}) \<union> covered ys1 g"
    unfolding ib by (auto simp: covered_append covered_Cons)
  also have "\<dots> = covered xs g \<union> covered ys g \<union> (if g = f then {a..<b} else {})"
    using X Y by (auto split: if_splits)
  finally show "covered (insert_between xs ys (a, b, f)) g = covered (xs @ ys) g \<union> (if g = f then {a..<b} else {})"
    by (simp add: covered_append)
qed

lemma place_from_gap:
  assumes "\<forall>y \<in> set ys. fst y < fst (snd y) \<and> (b \<le> fst y \<or> fst (snd y) \<le> a)" and "a < b"
    and "\<forall>q. pr = Some q \<longrightarrow> fst q < a"
  shows "(\<forall>y \<in> set (take (place_from a b pr ys) ys). fst (snd y) \<le> a)
    \<and> (\<forall>z zs. drop (place_from a b pr ys) ys = z # zs \<longrightarrow> b \<le> fst z)"
  using assms
proof (induction ys arbitrary: pr)
  case (Cons y ys)
  have pr: "(case pr of None \<Rightarrow> True | Some q \<Rightarrow> a > fst q)" using Cons.prems(3) by (cases pr) auto
  show ?case
  proof (cases "b < fst (snd y)")
    case True
    then have "\<not> fst (snd y) \<le> a" using Cons.prems(2) by (meson less_asym le_less_trans less_le_trans)
    then have "b \<le> fst y" using Cons.prems(1) by auto
    then show ?thesis using True pr by simp
  next
    case False
    then have "\<not> b \<le> fst y" using Cons.prems(1) by (meson le_less_trans list.set_intros(1))
    then have ya: "fst (snd y) \<le> a" "fst y < fst (snd y)" using Cons.prems(1) by auto
    then have "fst y < a" by (meson less_le_trans)
    then have "\<forall>q. Some y = Some q \<longrightarrow> fst q < a" by simp
    from Cons.IH [OF _ Cons.prems(2) this] Cons.prems(1) ya False pr show ?thesis by simp
  qed
qed simp

lemma add_spec_total:
  assumes ok: "ranges_ok xs" and ab: "a < b" and disj: "\<And>g. covered xs g \<inter> {a..<b} = {}"
  shows "add_spec (a, b, f) xs \<noteq> None"
proof -
  have "\<forall>y \<in> set xs. fst y < fst (snd y) \<and> (b \<le> fst y \<or> fst (snd y) \<le> a)"
  proof
    fix y assume y: "y \<in> set xs"
    have lt: "fst y < fst (snd y)" using ok y by (auto simp: ranges_ok_def)
    have sub: "{fst y..<fst (snd y)} \<subseteq> covered xs (snd (snd y))" using y unfolding covered_def by auto
    have "b \<le> fst y \<or> fst (snd y) \<le> a"
    proof (rule ccontr)
      assume "\<not> (b \<le> fst y \<or> fst (snd y) \<le> a)"
      then have "max a (fst y) \<in> {fst y..<fst (snd y)} \<inter> {a..<b}" using lt ab by (auto simp: max_def not_le)
      then show False using sub disj by blast
    qed
    with lt show "fst y < fst (snd y) \<and> (b \<le> fst y \<or> fst (snd y) \<le> a)" by blast
  qed
  define k where "k = place_from a b None xs"
  have g: "\<forall>y \<in> set (take k xs). fst (snd y) \<le> a" "\<forall>z zs. drop k xs = z # zs \<longrightarrow> b \<le> fst z"
    using place_from_gap [OF \<open>\<forall>y \<in> set xs. fst y < fst (snd y) \<and> (b \<le> fst y \<or> fst (snd y) \<le> a)\<close> ab, of None]
    unfolding k_def by auto
  have "fst (snd (last (take k xs))) \<le> a" if "take k xs \<noteq> []" using g(1) last_in_set [OF that] by blast
  moreover have "b \<le> fst (hd (drop k xs))" if "drop k xs \<noteq> []" using g(2) that by (metis list.collapse)
  ultimately have "\<not> collides (take k xs) (drop k xs) a b" unfolding collides_def by (meson not_le)
  then show ?thesis by (simp add: add_spec_def Let_def k_def)
qed

section \<open>Adding a range to a space\<close>

lemma find_place_run:
  assumes "rdll h p (as @ bs)"
    and "k = place_from a b (if as = [] then None else Some (rdata (the (h (last as))))) (rlist h bs)"
  shows "find_place h a b (last (0 # as)) (hd (bs @ [0]))
    = Some (Inr (last (0 # as @ take k bs), hd (drop k bs @ [0])))"
  using assms
proof (induction bs arbitrary: as k)
  case Nil
  then show ?case by (simp add: find_place.simps)
next
  case (Cons c bs)
  obtain v w where vw: "as \<noteq> [] \<Longrightarrow> h (last as) = Some v" "as \<noteq> [] \<Longrightarrow> last as \<noteq> 0"
    "h c = Some w" "c \<noteq> 0" using ends_nodes [OF Cons.prems(1)] by (metis list.discI list.sel(1))
  have nx: "vr_next w = hd (bs @ [0])" using dll_links [OF Cons.prems(1)] vw(3) by auto
  have ap: "(if last (0 # as) = 0 then Some True else map_option (\<lambda>p. a > va_start p) (h (last (0 # as))))
      = Some (as = [] \<or> a > va_start v)"
    using vw(1,2) by (cases "as = []") auto
  let ?pr = "if as = [] then None else Some (rdata (the (h (last as))))"
  have prc: "(case ?pr of None \<Rightarrow> True | Some q \<Rightarrow> a > fst q) \<longleftrightarrow> as = [] \<or> a > va_start v"
    using vw(1) by (cases "as = []") (auto simp: rdata_def)
  have bc: "b < fst (snd (rdata (the (h c)))) \<longleftrightarrow> b < va_stop w" using vw(3) by (simp add: rdata_def)
  have step: "find_place h a b (last (0 # as)) c = (if (as = [] \<or> a > va_start v) \<and> b < va_stop w
      then Some (Inr (last (0 # as), c)) else find_place h a b c (vr_next w))"
    unfolding find_place.simps [of h a b "last (0 # as)" c] ap using vw(3,4) by simp
  show ?case
  proof (cases "(as = [] \<or> a > va_start v) \<and> b < va_stop w")
    case True
    then have "k = 0" unfolding Cons.prems(2) using prc bc by simp
    then show ?thesis using True step by simp
  next
    case False
    define k' where "k' = place_from a b (Some (rdata (the (h c)))) (rlist h bs)"
    have k: "k = Suc k'" unfolding Cons.prems(2) k'_def using False prc bc by auto
    have d: "rdll h p ((as @ [c]) @ bs)" using Cons.prems(1) by simp
    have "find_place h a b (last (0 # (as @ [c]))) (hd (bs @ [0]))
      = Some (Inr (last (0 # (as @ [c]) @ take k' bs), hd (drop k' bs @ [0])))"
      by (rule Cons.IH [OF d]) (simp add: k'_def)
    then have "find_place h a b c (hd (bs @ [0])) = Some (Inr (last (0 # as @ take k (c # bs)), hd (drop k (c # bs) @ [0])))"
      unfolding k by simp
    moreover have "find_place h a b (last (0 # as)) c = find_place h a b c (hd (bs @ [0]))"
      unfolding step using False nx by auto
    ultimately show ?thesis by simp
  qed
qed

lemma vmm_add_range_run:
  fixes a b :: u64
  assumes ro: "regions_of s space ps"
  defines "k \<equiv> place_from a b None (rlist (vregions s) ps)"
  shows "vmm_add_range s space a b f = (if ps = [] then vmm_create_region s space a b f 0 0
    else vmm_insert_range s space (last (0 # take k ps)) (hd (drop k ps @ [0])) a b f)"
proof -
  obtain sp where sp: "vspaces s space = Some sp" "rdll (vregions s) (sp_region sp) ps"
    using ro unfolding regions_of_def by blast
  have d: "rdll (vregions s) (sp_region sp) ([] @ ps)" using sp(2) by simp
  have "find_place (vregions s) a b 0 (hd (ps @ [0])) = Some (Inr (last (0 # take k ps), hd (drop k ps @ [0])))"
    using find_place_run [OF d, of k a b] by (simp add: k_def)
  moreover have "sp_region sp = hd (ps @ [0])" by (rule dll_start [OF sp(2)])
  moreover have "sp_region sp = 0 \<longleftrightarrow> ps = []" using dll_empty sp(2) by (metis dll_Nil)
  ultimately show ?thesis using sp(1) unfolding vmm_add_range_def by (cases "ps = []") simp_all
qed

lemma vmm_add_range_spec:
  fixes a b :: u64
  assumes ok: "vmm_ok R s" and ro: "regions_of s space ps"
    and run: "vmm_add_range s space a b f = Inr (reg, s')"
  defines "xs \<equiv> rlist (vregions s) ps" and "k \<equiv> place_from a b None (rlist (vregions s) ps)"
  shows "\<not> collides (take k xs) (drop k xs) a b"
    and "inserted R space (take k xs) (drop k xs) (a, b, f) (set ps) s reg s'"
proof -
  have tk: "rlist (vregions s) (take k ps) = take k xs" "rlist (vregions s) (drop k ps) = drop k xs"
    by (simp_all add: xs_def rlist_def take_map drop_map)
  have ro': "regions_of s space (take k ps @ drop k ps)" using ro by simp
  have "vmm_insert_range s space (last (0 # take k ps)) (hd (drop k ps @ [0])) a b f = Inr (reg, s')"
  proof (cases "ps = []")
    case True
    have "rdll (vregions s) 0 ([] @ [])" by simp
    from vmm_insert_range_cases [OF this, of space a b f] True run show ?thesis
      unfolding vmm_add_range_run [OF ro] by (simp add: joins_prev_def joins_next_def)
  next
    case False
    then show ?thesis using run unfolding vmm_add_range_run [OF ro] k_def by simp
  qed
  note sp = vmm_insert_range_spec [OF ok ro' this, unfolded tk]
  show "\<not> collides (take k xs) (drop k xs) a b" by (rule sp(1))
  show "inserted R space (take k xs) (drop k xs) (a, b, f) (set ps) s reg s'" using sp(2) by simp
qed

lemma inserted_covers:
  assumes ins: "inserted R space xs ys (a, b, f) nodes s reg s'" and ok: "ranges_ok (xs @ ys)"
    and nc: "\<not> collides xs ys a b" and ab: "a < b"
  obtains ps' r where "regions_of s' space ps'" and "rlist (vregions s') ps' = insert_between xs ys (a, b, f)"
    and "reg \<in> set ps'" and "vregions s' reg = Some r" and "va_start r \<le> a" and "b \<le> va_stop r" and "vr_flags r = f"
    and "reg \<noteq> 0"
proof -
  obtain ps' where p: "regions_of s' space ps'" "rlist (vregions s') ps' = insert_between xs ys (a, b, f)"
    "reg \<in> set ps'" "rdata (the (vregions s' reg)) = merged xs ys (a, b, f)"
    using ins unfolding inserted_def by blast
  obtain sp where sp: "vspaces s' space = Some sp" "rdll (vregions s') (sp_region sp) ps'"
    using p(1) unfolding regions_of_def by blast
  obtain r where r: "vregions s' reg = Some r" "reg \<noteq> 0" using dll_node [OF sp(2) p(3)] by blast
  have rm: "(va_start r, va_stop r, vr_flags r) = merged xs ys (a, b, f)" using p(4) r by (simp add: rdata_def)
  have "fst (last xs) \<le> a" if "joins_prev xs a f"
  proof -
    have "last xs \<in> set xs" "fst (snd (last xs)) = a" using that by (auto simp: joins_prev_def)
    then show ?thesis using ok by (force simp: ranges_ok_append ranges_ok_def)
  qed
  moreover have "b \<le> fst (snd (hd ys))" if "joins_next ys b f"
  proof -
    have "hd ys \<in> set ys" "fst (hd ys) = b" using that by (auto simp: joins_next_def)
    then show ?thesis using ok by (force simp: ranges_ok_append ranges_ok_def)
  qed
  ultimately have "va_start r \<le> a" "b \<le> va_stop r" "vr_flags r = f" using rm by (auto simp: merged_def split: if_splits)
  then show thesis using that p(1-3) r by blast
qed

text \<open>The same facts in terms of the addresses covered.\<close>

lemma covered_I: "y \<in> set xs \<Longrightarrow> x \<in> {fst y..<fst (snd y)} \<Longrightarrow> x \<in> covered xs (snd (snd y))"
  unfolding covered_def by blast

lemma vmm_add_range_cover:
  fixes a b :: u64
  assumes ok: "vmm_ok R s" and ro: "regions_of s space ps" and so: "ranges_ok (rlist (vregions s) ps)"
    and ab: "a < b" and run: "vmm_add_range s space a b f = Inr (reg, s')"
  obtains ps' r where "regions_of s' space ps'"
    and "add_spec (a, b, f) (rlist (vregions s) ps) = Some (rlist (vregions s') ps')"
    and "ranges_ok (rlist (vregions s') ps')"
    and "\<And>g. covered (rlist (vregions s) ps) g \<inter> {a..<b} = {}"
    and "\<And>g. covered (rlist (vregions s') ps') g = covered (rlist (vregions s) ps) g \<union> (if g = f then {a..<b} else {})"
    and "reg \<in> set ps'" and "vregions s' reg = Some r" and "va_start r \<le> a" and "b \<le> va_stop r" and "vr_flags r = f"
    and "reg \<noteq> 0" and "b \<notin> covered (rlist (vregions s) ps) f \<or> (\<forall>y \<in> set (rlist (vregions s) ps). fst (snd y) \<noteq> a) \<Longrightarrow>
      vmm_ok R s' \<and> mappings_kept R s s' \<and> free_pages s' \<subseteq> free_pages s"
    and "region_frame space (set ps \<union> {reg}) s s'" and "reg \<in> set ps \<or> reg \<notin> dom (vregions s)"
proof -
  let ?xs = "rlist (vregions s) ps"
  let ?k = "place_from a b None ?xs"
  note sp = vmm_add_range_spec [OF ok ro run]
  have so': "ranges_ok (take ?k ?xs @ drop ?k ?xs)" using so by simp
  obtain ps' r where p: "regions_of s' space ps'"
    "rlist (vregions s') ps' = insert_between (take ?k ?xs) (drop ?k ?xs) (a, b, f)" "reg \<in> set ps'"
    "vregions s' reg = Some r" "va_start r \<le> a" "b \<le> va_stop r" "vr_flags r = f" "reg \<noteq> 0"
    by (rule inserted_covers [OF sp(2) so' sp(1) ab])
  note ib = insert_between_ok(1,2) [OF so' ab sp(1), of f] insert_between_ok(3) [OF so' ab sp(1)]
  have "add_spec (a, b, f) ?xs = Some (rlist (vregions s') ps')"
    using sp(1) p(2) by (simp add: add_spec_def Let_def)
  moreover have "vmm_ok R s' \<and> mappings_kept R s s' \<and> free_pages s' \<subseteq> free_pages s"
    if "b \<notin> covered ?xs f \<or> (\<forall>y \<in> set ?xs. fst (snd y) \<noteq> a)"
  proof -
    have "\<not> joins_next (drop ?k ?xs) b f \<or> \<not> joins_prev (take ?k ?xs) a f"
    proof (cases "b \<notin> covered ?xs f")
      case True
      have "fst y \<noteq> b \<or> snd (snd y) \<noteq> f" if "y \<in> set ?xs" for y
        using covered_I [OF that, of b] so that True by (auto simp: ranges_ok_def)
      moreover have "hd (drop ?k ?xs) \<in> set ?xs" if "drop ?k ?xs \<noteq> []"
        using that by (meson hd_in_set in_set_dropD)
      ultimately show ?thesis unfolding joins_next_def by blast
    next
      case False
      moreover have "last (take ?k ?xs) \<in> set ?xs" if "take ?k ?xs \<noteq> []"
        using that by (meson last_in_set in_set_takeD)
      ultimately show ?thesis using that unfolding joins_prev_def by blast
    qed
    then show ?thesis using sp(2) unfolding inserted_def fst_conv snd_conv by blast
  qed
  moreover have "region_frame space (set ps \<union> {reg}) s s'" "reg \<in> set ps \<or> reg \<notin> dom (vregions s)"
    using sp(2) unfolding inserted_def by blast+
  ultimately show thesis using that [of ps' r] p ib by simp
qed

section \<open>Removing a range\<close>

definition holds_va :: "(u64 \<rightharpoonup> vmm_region) \<Rightarrow> u64 \<Rightarrow> u64 \<Rightarrow> bool" where
  "holds_va h va p \<longleftrightarrow> va \<ge> va_start (the (h p)) \<and> va < va_stop (the (h p))"

lemma find_region_run:
  "rdll h q (as @ bs) \<Longrightarrow> find_region h va (hd (bs @ [0])) =
    Some (Inr (case find (holds_va h va) bs of Some x \<Rightarrow> x | None \<Rightarrow> 0))"
proof (induction bs arbitrary: as)
  case Nil
  then show ?case by (simp add: find_region.simps)
next
  case (Cons c bs)
  obtain w where w: "h c = Some w" "vr_next w = hd (bs @ [0])" using dll_links [OF Cons.prems] by blast
  have c: "c \<noteq> 0" using dll_node [OF Cons.prems, of c] by simp
  have "rdll h q ((as @ [c]) @ bs)" using Cons.prems by simp
  note IH = Cons.IH [OF this]
  show ?case using w c IH by (simp add: find_region.simps [of h va c] holds_va_def)
qed

lemma find_region_unique:
  assumes d: "rdll h q (as @ x # bs)" and so: "ranges_ok (rlist h (as @ x # bs))" and x: "holds_va h va x"
  shows "find_region h va q = Some (Inr x)"
proof -
  have "\<not> holds_va h va y" if y: "y \<in> set as" for y
  proof -
    have "rdata (the (h y)) \<in> set (rlist h as)" using y by (simp add: rlist_def)
    then have "va_stop (the (h y)) \<le> va_start (the (h x))"
      using so by (auto simp: ranges_ok_append rdata_def)
    then show ?thesis using x unfolding holds_va_def by (meson less_le_trans not_le)
  qed
  then have "find (holds_va h va) (as @ x # bs) = Some x"
    using x by (induction as) auto
  moreover have "q = hd ((as @ x # bs) @ [0])" by (rule dll_start [OF d])
  ultimately show ?thesis using find_region_run [of h q "[]" "as @ x # bs" va] d by simp
qed

lemma vmm_remove_region_total:
  assumes ok: "vmm_ok R s" and ro: "regions_of s space (as @ x # bs)" and rel: "releasable TYPE_VMM_REGION s x"
  obtains s' where "vmm_remove_region s space x = Inr s'" and "regions_of s' space (as @ bs)"
    and "rlist (vregions s') (as @ bs) = rlist (vregions s) (as @ bs)" and "vmm_ok R s'" and "mappings_kept R s s'"
proof -
  obtain sp where sp: "vspaces s space = Some sp" "rdll (vregions s) (sp_region sp) (as @ x # bs)"
    using ro unfolding regions_of_def by blast
  obtain bl live where inv: "vmm_inv R bl live s" "dom (vregions s) \<subseteq> live TYPE_VMM_REGION"
    "dom (vspaces s) \<subseteq> live TYPE_VMM_SPACE" using ok unfolding vmm_ok_def by blast
  obtain s1 where u: "unlink_region space x s = Inr s1" "s1 = s\<lparr>vspaces := vspaces s1, vregions := vregions s1\<rparr>"
    "dom (vregions s1) \<subseteq> dom (vregions s)" "dom (vspaces s1) \<subseteq> dom (vspaces s)"
    using unlink_region_spec [OF sp] by blast
  have inv1: "vmm_inv R bl live s1" using inv(1) by (subst u(2)) (simp add: vmm_inv_heaps)
  have vb: "vblocks s1 = vblocks s" "mem s1 = mem s" by (subst u(2), simp)+
  have x: "x \<in> live TYPE_VMM_REGION" using inv(2) dll_node [OF sp(2), of x] by auto
  have rel1: "releasable TYPE_VMM_REGION s1 x" using rel by (simp add: releasable_def vb)
  obtain m v where bf: "block_free x TYPE_VMM_REGION s1 = Inr (drop_object TYPE_VMM_REGION x (s1\<lparr>mem := m, vblocks := v\<rparr>))"
    "vmm_inv R bl (live(TYPE_VMM_REGION := live TYPE_VMM_REGION - {x})) (s1\<lparr>mem := m, vblocks := v\<rparr>)"
    and e: "\<forall>r \<in> R. \<forall>va. mmu_entry m r va = mmu_entry (mem s1) r va"
    and pk: "mmu_pages R (s1\<lparr>mem := m, vblocks := v\<rparr>) = mmu_pages R s1"
      "free_pages (s1\<lparr>mem := m, vblocks := v\<rparr>) = free_pages s1" "dom v = dom (vblocks s1)"
    by (rule block_free_spec [OF inv1 x rel1]) (rule that, assumption+, simp_all)
  let ?s' = "drop_object TYPE_VMM_REGION x (s1\<lparr>mem := m, vblocks := v\<rparr>)"
  have run: "vmm_remove_region s space x = Inr ?s'" using u(1) bf(1) by (simp add: vmm_remove_region_def)
  note rs = vmm_remove_region_spec [OF sp run]
  have "vmm_inv R bl (live(TYPE_VMM_REGION := live TYPE_VMM_REGION - {x})) ?s'"
    using bf(2) by (simp add: vmm_inv_heaps)
  moreover have "dom (vregions ?s') = dom (vregions s1) - {x}" "vspaces ?s' = vspaces s1" by auto
  moreover have "dom (vregions s1) \<subseteq> live TYPE_VMM_REGION" "dom (vspaces s1) \<subseteq> live TYPE_VMM_SPACE"
    using u(3,4) inv(2,3) by (metis order_trans)+
  ultimately have "vmm_ok R ?s'" unfolding vmm_ok_def
    by (intro exI [of _ bl] exI [of _ "live(TYPE_VMM_REGION := live TYPE_VMM_REGION - {x})"] conjI) (simp_all, blast)
  moreover have "mmu_pages R ?s' = mmu_pages R s" "free_pages ?s' = free_pages s" "vblocks ?s' = v" "pmap ?s' = pmap s"
    "pmm_vma_stop ?s' = pmm_vma_stop s"
    using pk by (simp_all add: mmu_pages_def free_pages_def) (subst u(2), simp)+
  then have "mappings_kept R s ?s'" using e pk(3) vb region_frame_dirs [OF rs(3)] by (simp add: mappings_kept_def)
  ultimately show thesis using that run rs(1,2) by blast
qed

lemma vmm_remove_range_run:
  assumes sp: "vspaces s space = Some sp" and d: "rdll (vregions s) (sp_region sp) (as @ x # bs)"
    and so: "ranges_ok (rlist (vregions s) (as @ x # bs))" and r: "vregions s x = Some r"
    and ab: "va_start r \<le> a" "a < va_stop r" "b \<le> va_stop r"
  shows "vmm_remove_range s space a b =
    (if va_start r = a \<and> va_stop r = b then vmm_remove_region s space x
     else if va_start r = a then set_region x (\<lambda>r. r\<lparr>va_start := b\<rparr>) s
     else if va_stop r = b then set_region x (\<lambda>r. r\<lparr>va_stop := a\<rparr>) s
     else
       bindR (vmm_remove_region s space x) (\<lambda>s1.
       bindR (vmm_add_range s1 space (va_start r) a (vr_flags r)) (\<lambda>(_, s2).
       bindR (vmm_add_range s2 space b (va_stop r) (vr_flags r)) (\<lambda>(_, s3). Inr s3))))"
proof -
  have "holds_va (vregions s) a x" using r ab by (auto simp: holds_va_def)
  then have "find_region (vregions s) a (sp_region sp) = Some (Inr x)"
    by (rule find_region_unique [OF d so])
  moreover have "x \<noteq> 0" using dll_node [OF d, of x] by simp
  ultimately show ?thesis using sp r ab(3) unfolding vmm_remove_range_def by (simp add: not_less [symmetric])
qed

lemma covered_cut:
  assumes so: "ranges_ok (xs @ (st, en, f) # ys)"
  shows "covered xs g \<inter> {st..<en} = {}" and "covered ys g \<inter> {st..<en} = {}" and "st < en"
proof -
  show "st < en" using so by (auto simp: ranges_ok_append ranges_ok_Cons)
  have "fst (snd x) \<le> st" if "x \<in> set xs" for x using so that by (auto simp: ranges_ok_append)
  then show "covered xs g \<inter> {st..<en} = {}" unfolding covered_def by fastforce
  have "en \<le> fst y" if "y \<in> set ys" for y using so that by (auto simp: ranges_ok_append ranges_ok_Cons)
  then show "covered ys g \<inter> {st..<en} = {}" unfolding covered_def by fastforce
qed

text \<open>Replacing one range of a sorted list by a part of it.\<close>

lemma ranges_ok_part:
  assumes so: "ranges_ok (xs @ (st, en, f) # ys)" and p: "st \<le> a" "a < b" "b \<le> en"
  shows "ranges_ok (xs @ (a, b, f) # ys)"
  using so p by (auto simp: ranges_ok_append ranges_ok_Cons intro: order_trans)

lemma covered_part:
  "covered (xs @ (st, en, f) # ys) g = covered xs g \<union> covered ys g \<union> (if g = f then {st..<en} else {})"
  by (auto simp: covered_append covered_Cons)

lemma cut_sets:
  assumes "X \<inter> I = {}" and "Y \<inter> I = {}" and "C \<subseteq> I"
  shows "X \<union> Y \<union> (if c then I else {}) - C = X \<union> Y \<union> (if c then I - C else {})"
  using assms by (cases c) (simp_all, blast+)

text \<open>What is left of the coverage when a part of one range goes away.\<close>

lemma covered_minus:
  assumes so: "ranges_ok (xs @ (st, en, f) # ys)" and p: "st \<le> a" "b \<le> en"
  shows "covered (xs @ (st, en, f) # ys) g - {a..<b}
    = covered xs g \<union> covered ys g \<union> (if g = f then {st..<en} - {a..<b} else {})"
proof -
  have "{a..<b} \<subseteq> {st..<en}" using p by auto
  then show ?thesis unfolding covered_part by (rule cut_sets [OF covered_cut(1,2) [OF so]])
qed

definition cut_result ::
  "u64 set \<Rightarrow> u64 \<Rightarrow> 'a vmm_state_scheme \<Rightarrow> u64 list \<Rightarrow> u64 \<Rightarrow> u64 \<Rightarrow> 'a vmm_state_scheme \<Rightarrow> bool" where
  "cut_result R space s ps a b s' \<longleftrightarrow> (\<exists>ps'. regions_of s' space ps' \<and> ranges_ok (rlist (vregions s') ps')
     \<and> (\<forall>g. covered (rlist (vregions s') ps') g = covered (rlist (vregions s) ps) g - {a..<b})
     \<and> vmm_ok R s' \<and> mappings_kept R s s')"

lemma cut_split:
  assumes ok: "vmm_ok R s" and ro: "regions_of s space (as @ x # bs)" and so: "ranges_ok (rlist (vregions s) (as @ x # bs))"
    and r: "vregions s x = Some r" and ab: "va_start r < a" "a < b" "b < va_stop r"
    and rel: "releasable TYPE_VMM_REGION s x" and rm: "vmm_remove_region s space x = Inr s1"
    and add1: "vmm_add_range s1 space (va_start r) a (vr_flags r) = Inr (n1, s2)"
    and add2: "vmm_add_range s2 space b (va_stop r) (vr_flags r) = Inr (n2, s3)"
  shows "cut_result R space s (as @ x # bs) a b s3"
proof -
  let ?xs = "rlist (vregions s) as" and ?ys = "rlist (vregions s) bs" and ?f = "vr_flags r"
  have all: "rlist (vregions s) (as @ x # bs) = ?xs @ (va_start r, va_stop r, ?f) # ?ys"
    using r by (simp add: rdata_def)
  have so': "ranges_ok (?xs @ (va_start r, va_stop r, ?f) # ?ys)" using so unfolding all .
  note cc = covered_cut [OF so']
  have r1: "regions_of s1 space (as @ bs)" "rlist (vregions s1) (as @ bs) = ?xs @ ?ys" "vmm_ok R s1" "mappings_kept R s s1"
    by (rule vmm_remove_region_total [OF ok ro rel], use rm in simp)+
  have so1: "ranges_ok (rlist (vregions s1) (as @ bs))"
    unfolding r1(2) using so' by (auto simp: ranges_ok_append ranges_ok_Cons)
  have c1: "covered (rlist (vregions s1) (as @ bs)) g = covered ?xs g \<union> covered ?ys g" for g
    unfolding r1(2) by (rule covered_append)
  have ain: "a \<in> {va_start r..<va_stop r}" using ab by (auto intro: less_trans less_imp_le)
  obtain ps2 where p2: "regions_of s2 space ps2" "ranges_ok (rlist (vregions s2) ps2)"
    and c2: "\<And>g. covered (rlist (vregions s2) ps2) g = covered ?xs g \<union> covered ?ys g \<union> (if g = ?f then {va_start r..<a} else {})"
    and k2: "vmm_ok R s2" "mappings_kept R s1 s2"
  proof (rule vmm_add_range_cover [OF r1(3,1) so1 ab(1) add1])
    fix ps'
    assume "regions_of s2 space ps'" "ranges_ok (rlist (vregions s2) ps')"
      "\<And>g. covered (rlist (vregions s2) ps') g = covered (rlist (vregions s1) (as @ bs)) g \<union> (if g = ?f then {va_start r..<a} else {})"
      "a \<notin> covered (rlist (vregions s1) (as @ bs)) ?f \<or> (\<forall>y \<in> set (rlist (vregions s1) (as @ bs)). fst (snd y) \<noteq> va_start r) \<Longrightarrow>
        vmm_ok R s2 \<and> mappings_kept R s1 s2 \<and> free_pages s2 \<subseteq> free_pages s1"
    moreover have "a \<notin> covered (rlist (vregions s1) (as @ bs)) ?f" unfolding c1 using cc(1,2) ain by blast
    ultimately show thesis using that [of ps'] unfolding c1 by blast
  qed
  have bst: "y \<in> set (rlist (vregions s2) ps2) \<Longrightarrow> fst (snd y) \<noteq> b" for y
  proof
    assume y: "y \<in> set (rlist (vregions s2) ps2)" "fst (snd y) = b"
    have lt: "fst y < b" using p2(2) y by (auto simp: ranges_ok_def)
    let ?m = "max (fst y) a"
    have "?m \<in> {fst y..<fst (snd y)}" using lt y(2) ab(2) by (auto simp: max_def)
    then have "?m \<in> covered (rlist (vregions s2) ps2) (snd (snd y))" by (rule covered_I [OF y(1)])
    moreover have m: "?m \<in> {va_start r..<va_stop r}" "\<not> ?m < a" using lt ab by (auto simp: max_def intro: less_trans less_imp_le)
    moreover have "?m \<notin> covered ?xs g" "?m \<notin> covered ?ys g" for g using cc(1,2) [of g] m(1) by blast+
    ultimately show False unfolding c2 by (simp split: if_splits)
  qed
  obtain ps3 where p3: "regions_of s3 space ps3" "ranges_ok (rlist (vregions s3) ps3)"
    and c3: "\<And>g. covered (rlist (vregions s3) ps3) g = covered ?xs g \<union> covered ?ys g
      \<union> (if g = ?f then {va_start r..<a} \<union> {b..<va_stop r} else {})"
    and k3: "vmm_ok R s3" "mappings_kept R s2 s3"
  proof (rule vmm_add_range_cover [OF k2(1) p2 ab(3) add2])
    fix ps'
    assume "regions_of s3 space ps'" "ranges_ok (rlist (vregions s3) ps')"
      "\<And>g. covered (rlist (vregions s3) ps') g = covered (rlist (vregions s2) ps2) g \<union> (if g = ?f then {b..<va_stop r} else {})"
      "va_stop r \<notin> covered (rlist (vregions s2) ps2) ?f \<or> (\<forall>y \<in> set (rlist (vregions s2) ps2). fst (snd y) \<noteq> b) \<Longrightarrow>
        vmm_ok R s3 \<and> mappings_kept R s2 s3 \<and> free_pages s3 \<subseteq> free_pages s2"
    note A = this
    have "covered (rlist (vregions s3) ps') g = covered ?xs g \<union> covered ?ys g
      \<union> (if g = ?f then {va_start r..<a} \<union> {b..<va_stop r} else {})" for g unfolding A(3) c2 by (simp add: Un_assoc)
    moreover have "vmm_ok R s3 \<and> mappings_kept R s2 s3" using A(4) bst by blast
    ultimately show thesis using that [of ps'] A(1,2) by blast
  qed
  have "covered (rlist (vregions s3) ps3) g = covered (rlist (vregions s) (as @ x # bs)) g - {a..<b}" for g
  proof -
    have "{va_start r..<va_stop r} - {a..<b} = {va_start r..<a} \<union> {b..<va_stop r}"
      using ab by (auto intro: less_trans less_imp_le le_less_trans less_le_trans)
    then show ?thesis unfolding c3 all using covered_minus [OF so', of a b g] ab by simp
  qed
  moreover have "mappings_kept R s s3" using mappings_kept_trans r1(4) k2(2) k3(2) by blast
  ultimately show ?thesis unfolding cut_result_def using p3 k3(1) by blast
qed

lemma cut_shrink:
  assumes ok: "vmm_ok R s" and ro: "regions_of s space (as @ x # bs)" and so: "ranges_ok (rlist (vregions s) (as @ x # bs))"
    and r: "vregions s x = Some r" and ab: "va_start r \<le> a" "b \<le> va_stop r" "a < b"
    and run: "set_region x f s = Inr s'"
    and f: "(f r = r\<lparr>va_start := b\<rparr> \<and> a = va_start r \<and> b < va_stop r) \<or> (f r = r\<lparr>va_stop := a\<rparr> \<and> b = va_stop r \<and> va_start r < a)"
    and links: "\<And>r. vr_next (f r) = vr_next r \<and> vr_prev (f r) = vr_prev r"
  shows "cut_result R space s (as @ x # bs) a b s'"
proof -
  let ?xs = "rlist (vregions s) as" and ?ys = "rlist (vregions s) bs" and ?f = "vr_flags r"
  have all: "rlist (vregions s) (as @ x # bs) = ?xs @ (va_start r, va_stop r, ?f) # ?ys"
    using r by (simp add: rdata_def)
  have so': "ranges_ok (?xs @ (va_start r, va_stop r, ?f) # ?ys)" using so unfolding all .
  note sr = set_region_spec [OF ro links run]
  obtain st en where se: "rdata (f r) = (st, en, ?f)" "va_start r \<le> st" "st < en" "en \<le> va_stop r"
    "{st..<en} = {va_start r..<va_stop r} - {a..<b}"
  proof (cases "a = va_start r \<and> b < va_stop r")
    case True
    then have "{b..<va_stop r} = {va_start r..<va_stop r} - {a..<b}" using ab by auto
    then show thesis using that [of b "va_stop r"] f True ab by (auto simp: rdata_def)
  next
    case False
    then have "{va_start r..<a} = {va_start r..<va_stop r} - {a..<b}" using f ab by auto
    then show thesis using that [of "va_start r" a] f False ab by (auto simp: rdata_def)
  qed
  have l: "rlist (vregions s') (as @ x # bs) = ?xs @ (st, en, ?f) # ?ys" using sr(2) r se(1) by simp
  have "ranges_ok (rlist (vregions s') (as @ x # bs))"
    unfolding l by (rule ranges_ok_part [OF so' se(2,3,4)])
  moreover have "covered (rlist (vregions s') (as @ x # bs)) g = covered (rlist (vregions s) (as @ x # bs)) g - {a..<b}" for g
    unfolding l all covered_part [of ?xs st] using covered_minus [OF so' ab(1,2), of g] se(5) by simp
  ultimately show ?thesis unfolding cut_result_def using sr(1) set_region_ok [OF ok run] by blast
qed

lemma cut_whole:
  assumes ok: "vmm_ok R s" and ro: "regions_of s space (as @ x # bs)" and so: "ranges_ok (rlist (vregions s) (as @ x # bs))"
    and r: "vregions s x = Some r" and rel: "releasable TYPE_VMM_REGION s x" and run: "vmm_remove_region s space x = Inr s'"
  shows "cut_result R space s (as @ x # bs) (va_start r) (va_stop r) s'"
proof -
  let ?xs = "rlist (vregions s) as" and ?ys = "rlist (vregions s) bs" and ?f = "vr_flags r"
  have all: "rlist (vregions s) (as @ x # bs) = ?xs @ (va_start r, va_stop r, ?f) # ?ys"
    using r by (simp add: rdata_def)
  have so': "ranges_ok (?xs @ (va_start r, va_stop r, ?f) # ?ys)" using so unfolding all .
  have t: "regions_of s' space (as @ bs)" "rlist (vregions s') (as @ bs) = ?xs @ ?ys" "vmm_ok R s'" "mappings_kept R s s'"
    by (rule vmm_remove_region_total [OF ok ro rel], use run in simp)+
  have "ranges_ok (rlist (vregions s') (as @ bs))"
    unfolding t(2) using so' by (auto simp: ranges_ok_append ranges_ok_Cons)
  moreover have "covered (rlist (vregions s') (as @ bs)) g = covered (rlist (vregions s) (as @ x # bs)) g - {va_start r..<va_stop r}" for g
    unfolding t(2) all using covered_minus [OF so' order_refl order_refl, of g] by (simp add: covered_append)
  ultimately show ?thesis unfolding cut_result_def using t by blast
qed

section \<open>A small space\<close>

text \<open>
  A space whose only region is one page of user memory at \<open>0x400000\<close>, with the block of region
  objects and the block of space objects in pages of their own, all their slots in use.
\<close>

definition sblk0 :: u64 where "sblk0 = DM_P2V 0x201000"
definition rblk0 :: u64 where "rblk0 = DM_P2V 0x202000"
definition sp0 :: u64 where "sp0 = slot TYPE_VMM_SPACE sblk0 0"
definition reg0 :: u64 where "reg0 = slot TYPE_VMM_REGION rblk0 33"

definition full_block :: "struct_type \<Rightarrow> u64 \<Rightarrow> vmm_block" where
  "full_block ty a = \<lparr>vb_objects = a + 72, vb_nb_used = of_nat (max_objs ty), vb_object_size = get_struct_size ty,
     vb_max_objects = of_nat (max_objs ty), vb_bm = blk_bm ty a, vb_prev = 0, vb_next = 0\<rparr>"

definition vmm0 :: vmm_state where
  "vmm0 = \<lparr>mem = (\<lambda>x. if page_bytes root0 x \<or> page_bytes sblk0 x \<or> page_bytes rblk0 x then 0 else 0xff),
     syms = ks0, pmap = [region100], pmm_vma_stop = 0xffffffff80300000,
     vregions = [reg0 \<mapsto> text_region], vspaces = [sp0 \<mapsto> \<lparr>page_directory = root0, sp_region = reg0\<rparr>],
     cr3 = 0, flushed = [],
     vblocks = [sblk0 \<mapsto> full_block TYPE_VMM_SPACE sblk0, rblk0 \<mapsto> full_block TYPE_VMM_REGION rblk0],
     block_heads = (\<lambda>ty. case ty of TYPE_VMM_REGION \<Rightarrow> rblk0 | TYPE_VMM_SPACE \<Rightarrow> sblk0),
     kspace = sp0, kernel_dm_stop = 0\<rparr>"

lemma blk0_aligned: "page_aligned sblk0" "page_aligned rblk0"
  by (simp_all add: sblk0_def rblk0_def DM_P2V_def const_defs)

lemma blk0_unat: "unat root0 = 0xffff800000200000" "unat sblk0 = 0xffff800000201000" "unat rblk0 = 0xffff800000202000"
  by (simp_all add: root0_def sblk0_def rblk0_def DM_P2V_def const_defs)

lemma objects0: "sp0 = 0xffff800000201048" "reg0 = 0xffff800000202570" "sblk0 = 0xffff800000201000" "rblk0 = 0xffff800000202000"
  by (simp_all add: sp0_def reg0_def slot_def sblk0_def rblk0_def DM_P2V_def const_defs)

lemma full_block_ok: "page_aligned a \<Longrightarrow> block_ok ty a (full_block ty a)"
  by (simp add: block_ok_def full_block_def)

text \<open>\<open>vmm0\<close> differs from \<open>vm0\<close> in memory only on the two block pages, which are no tables.\<close>

lemma vmm0_root:
  assumes "page_bytes root0 x"
  shows "mem vmm0 x = 0"
  using assms by (simp add: vmm0_def)

lemma vmm0_tables: "path p \<Longrightarrow> table_at (mem vmm0) root0 p = (if p = [] then Some root0 else None)"
proof (induction p rule: rev_induct)
  case (snoc i p)
  have "load64 (mem vmm0) (tbl_entry root0 i) = 0" if "i < 512"
    by (rule load64_zero) (simp add: vmm0_root entry_bytes [OF root0_aligned that])
  then show ?case using snoc path_prefix [OF snoc.prems]
    by (auto simp: table_at_snoc table_step_def split: if_splits)
qed simp

lemma vmm0_unmapped: "mmu_entry (mem vmm0) root0 va = 0"
proof -
  have "va_path va \<noteq> []" by (simp add: va_path_def)
  then show ?thesis using vmm0_tables [OF va_path_path, of va] by (simp add: mmu_entry_def)
qed

lemma vmm0_root_only: "tables {root0} (mem vmm0) = {root0}"
proof -
  have p0: "path []" by (simp add: path_def)
  then show ?thesis using vmm0_tables by (auto simp: tables_def split: if_splits)
qed

lemma vmm0_pmap: "pmap vmm0 = [region100]"
  by (simp add: vmm0_def)

lemma vmm0_pages:
  assumes "p \<in> free_pages vmm0"
  shows "off_bitmaps vmm0 (DM_P2V p)" and "0xffff800000300000 \<le> unat (DM_P2V p)"
proof -
  obtain j where j: "j < 100" "unat (DM_P2V p) = 0xffff800000300000 + 4096 * j"
    using free_page_vm0 [OF assms vmm0_pmap] by blast
  then show "0xffff800000300000 \<le> unat (DM_P2V p)" by simp
  have "pmm_inv vmm0" using machine100_inv by (simp add: pmm_inv_def vmm0_def machine100_def)
  then have "page_aligned (DM_P2V p)" using pg.free_page [OF _ assms] by (intro DM_P2V_aligned) blast
  then show "off_bitmaps vmm0 (DM_P2V p)" using j high_page_off [OF _ _ vmm0_pmap] by simp
qed

lemma vmm0_mmu: "mmu_inv {root0} vmm0"
proof -
  have "pt_tree {root0} (mem vmm0)"
    unfolding pt_tree_def vmm0_root_only using root0_aligned vmm0_tables by (auto split: if_splits)
  moreover have "pmm_inv vmm0" using machine100_inv by (simp add: pmm_inv_def vmm0_def machine100_def)
  moreover have "off_bitmaps vmm0 root0"
    by (rule high_page_off [OF root0_aligned _ vmm0_pmap]) (simp add: blk0_unat)
  moreover have "root0 \<noteq> DM_P2V p" if "p \<in> free_pages vmm0" for p
    using vmm0_pages(2) [OF that] blk0_unat(1) by auto
  ultimately show ?thesis unfolding mmu_inv_def vmm0_root_only using vmm0_pages(1) by auto
qed

lemma vmm0_block_full:
  assumes "page_aligned a" and "\<And>x. page_bytes a x \<Longrightarrow> mem vmm0 x = 0"
  shows "bm_free (mem vmm0) (blk_bm ty a) = {}"
proof -
  have "bm_free (mem vmm0) (blk_bm ty a) = bm_free zeros (blk_bm ty a)"
    by (rule bm_raw_frame(2) [OF blk_bm_wf(1)])
      (use assms(2) blk_span_page [OF assms(1)] in \<open>simp add: zeros_def\<close>)
  then show ?thesis by (simp add: bm_free_def bm_bit_def zeros_def load64_zero)
qed

lemma vmm0_objs:
  "objs_ok TYPE_VMM_SPACE [sblk0] {sp0} vmm0" "objs_ok TYPE_VMM_REGION [rblk0] {reg0} vmm0"
proof -
  have ne: "sblk0 \<noteq> rblk0" "sblk0 \<noteq> 0" "rblk0 \<noteq> 0" by (simp_all add: objects0)
  have f: "bm_free (mem vmm0) (blk_bm ty sblk0) = {}" "bm_free (mem vmm0) (blk_bm ty rblk0) = {}" for ty
    by (rule vmm0_block_full, simp_all add: blk0_aligned, simp add: vmm0_def)+
  have s: "dll vb_next vb_prev (vblocks vmm0) (block_heads vmm0 TYPE_VMM_SPACE) [sblk0]"
    "vblocks vmm0 sblk0 = Some (full_block TYPE_VMM_SPACE sblk0)" "0 < max_objs TYPE_VMM_SPACE"
    using ne by (simp_all add: vmm0_def dll_def full_block_def max_objs_def)
  have r: "dll vb_next vb_prev (vblocks vmm0) (block_heads vmm0 TYPE_VMM_REGION) [rblk0]"
    "vblocks vmm0 rblk0 = Some (full_block TYPE_VMM_REGION rblk0)" "33 < max_objs TYPE_VMM_REGION"
    using ne by (simp_all add: vmm0_def dll_def full_block_def max_objs_def)
  show "objs_ok TYPE_VMM_SPACE [sblk0] {sp0} vmm0"
    unfolding objs_ok_def using s f full_block_ok blk0_aligned sp0_def by auto
  show "objs_ok TYPE_VMM_REGION [rblk0] {reg0} vmm0"
    unfolding objs_ok_def using r f full_block_ok blk0_aligned reg0_def by auto
qed

definition vblocks0 :: "struct_type \<Rightarrow> u64 list" where
  "vblocks0 = (\<lambda>ty. case ty of TYPE_VMM_SPACE \<Rightarrow> [sblk0] | TYPE_VMM_REGION \<Rightarrow> [rblk0])"

definition vlive0 :: "struct_type \<Rightarrow> u64 set" where
  "vlive0 = (\<lambda>ty. case ty of TYPE_VMM_SPACE \<Rightarrow> {sp0} | TYPE_VMM_REGION \<Rightarrow> {reg0})"

lemma vmm0_inv: "vmm_inv {root0} vblocks0 vlive0 vmm0"
proof -
  have mp: "t = root0 \<or> 0xffff800000300000 \<le> unat t" if "t \<in> mmu_pages {root0} vmm0" for t
    using that vmm0_pages(2) unfolding mmu_pages_def vmm0_root_only by auto
  have "objs_ok ty (vblocks0 ty) (vlive0 ty) vmm0" for ty
    using vmm0_objs by (cases ty) (simp_all add: vblocks0_def vlive0_def)
  moreover have "a \<notin> mmu_pages {root0} vmm0 \<and> off_bitmaps vmm0 a" if "a \<in> set (vblocks0 ty)" for ty a
  proof -
    have a: "a = sblk0 \<or> a = rblk0" using that by (cases ty) (auto simp: vblocks0_def)
    have "off_bitmaps vmm0 a"
      by (rule high_page_off [OF _ _ vmm0_pmap]) (use a blk0_aligned blk0_unat in auto)
    then show ?thesis using mp [of a] a blk0_unat by auto
  qed
  moreover have "0 \<notin> mmu_pages {root0} vmm0" using mp [of 0] blk0_unat by auto
  moreover have "set (vblocks0 TYPE_VMM_REGION) \<inter> set (vblocks0 TYPE_VMM_SPACE) = {}" by (simp add: vblocks0_def objects0)
  ultimately show ?thesis using vmm0_mmu unfolding vmm_inv_def by blast
qed

lemma vmm0_live: "dom (vregions vmm0) \<subseteq> vlive0 TYPE_VMM_REGION" "dom (vspaces vmm0) \<subseteq> vlive0 TYPE_VMM_SPACE"
  by (simp_all add: vmm0_def vlive0_def)

lemma vmm0_ok: "vmm_ok {root0} vmm0"
  using vmm0_inv vmm0_live unfolding vmm_ok_def by blast

lemma vmm0_regions: "regions_of vmm0 sp0 [reg0]" "rlist (vregions vmm0) [reg0] = [(0x400000, 0x401000, PAGE_USER_RW)]"
  by (simp_all add: regions_of_def vmm0_def dll_def objects0 text_region_def rdata_def)

lemma vmm0_extend:
  "vmm_add_range vmm0 sp0 0x401000 0x402000 PAGE_USER_RW
    = Inr (reg0, vmm0\<lparr>vregions := (vregions vmm0)(reg0 \<mapsto> text_region\<lparr>va_stop := 0x402000\<rparr>)\<rparr>)"
proof -
  have pl: "place_from 0x401000 0x402000 None (rlist (vregions vmm0) [reg0]) = 1"
    unfolding vmm0_regions(2) by simp
  have rg: "vregions vmm0 reg0 = Some text_region" "reg0 \<noteq> 0" by (simp_all add: vmm0_def objects0)
  show ?thesis
    unfolding vmm_add_range_run [OF vmm0_regions(1)] pl
    using rg by (simp add: vmm_insert_range_def region_opt_def set_region_def) (simp add: text_region_def)
qed

section \<open>Adding a range: properties\<close>

text \<open>
  C2. Adding a range to a space: when \<^verbatim>\<open>vmm_add_range\<close> returns, the linked regions represent what the
  abstract list insertion gives, still sorted and disjoint; the new addresses, which no region
  covered before, are covered with the given flags and nothing else changes; and the region
  returned contains the whole range.
\<close>

theorem vmm_add_range_refines:
  assumes ok: "vmm_ok R s" and ro: "regions_of s space ps" and so: "ranges_ok (rlist (vregions s) ps)"
    and ab: "a < b" and run: "vmm_add_range s space a b f = Inr (reg, s')"
  shows "\<exists>ps' r. regions_of s' space ps'
    \<and> add_spec (a, b, f) (rlist (vregions s) ps) = Some (rlist (vregions s') ps')
    \<and> ranges_ok (rlist (vregions s') ps')
    \<and> (\<forall>g. covered (rlist (vregions s) ps) g \<inter> {a..<b} = {}
        \<and> covered (rlist (vregions s') ps') g = covered (rlist (vregions s) ps) g \<union> (if g = f then {a..<b} else {}))
    \<and> reg \<in> set ps' \<and> vregions s' reg = Some r \<and> va_start r \<le> a \<and> b \<le> va_stop r \<and> vr_flags r = f"
  by (rule vmm_add_range_cover [OF ok ro so ab run]) blast

theorem vmm_add_range_refines_witness:
  "\<exists>reg s' ps'. vmm_add_range vmm0 sp0 0x401000 0x402000 PAGE_USER_RW = Inr (reg, s')
    \<and> regions_of s' sp0 ps' \<and> covered (rlist (vregions s') ps') PAGE_USER_RW = {0x400000..<0x402000}"
proof -
  note run = vmm0_extend
  have "ranges_ok (rlist (vregions vmm0) [reg0])" unfolding vmm0_regions(2) by (simp add: ranges_ok_def)
  from vmm_add_range_refines [OF vmm0_ok vmm0_regions(1) this _ run] obtain ps' where
    "regions_of (vmm0\<lparr>vregions := (vregions vmm0)(reg0 \<mapsto> text_region\<lparr>va_stop := 0x402000\<rparr>)\<rparr>) sp0 ps'"
    "covered (rlist (vregions (vmm0\<lparr>vregions := (vregions vmm0)(reg0 \<mapsto> text_region\<lparr>va_stop := 0x402000\<rparr>)\<rparr>)) ps') PAGE_USER_RW
      = covered [(0x400000, 0x401000, PAGE_USER_RW)] PAGE_USER_RW \<union> {0x401000..<0x402000}"
    unfolding vmm0_regions(2) by auto
  moreover have "covered [(0x400000, 0x401000, PAGE_USER_RW)] PAGE_USER_RW \<union> {0x401000..<0x402000} = {0x400000..<0x402000}"
    using range_split [of "0x400000" "0x401000" "0x402000"] by (simp add: covered_Cons)
  ultimately show ?thesis using run by auto
qed

lemma first_two: "P \<or> Q \<Longrightarrow> (if P then x else if Q then y else z) \<in> {x, y}"
  by auto

text \<open>
  Adding a range that meets a region of the space always stops in the overlap panic of
  \<^verbatim>\<open>vmm_insert_range\<close>, wherever the search of \<^verbatim>\<open>vmm_add_range\<close> ends: an address is never handed out
  twice.
\<close>

lemma vmm_add_range_overlap_panics:
  assumes ro: "regions_of s space ps" and so: "ranges_ok (rlist (vregions s) ps)"
    and ab: "a < b" and meet: "covered (rlist (vregions s) ps) g \<inter> {a..<b} \<noteq> {}"
  shows "vmm_add_range s space a b f \<in>
    {Inl (Panic ''vmm_insert_range:overlap with next''), Inl (Panic ''vmm_insert_range:overlap with prev'')}"
proof -
  let ?xs = "rlist (vregions s) ps"
  let ?k = "place_from a b None ?xs"
  have so': "ranges_ok (take ?k ?xs @ drop ?k ?xs)" using so by simp
  have c: "collides (take ?k ?xs) (drop ?k ?xs) a b"
    using insert_between_ok(3) [OF so' ab, of g] meet by auto
  have ne: "ps \<noteq> []" using meet by auto
  obtain sp where sp: "vspaces s space = Some sp" "rdll (vregions s) (sp_region sp) ps"
    using ro unfolding regions_of_def by blast
  have tk: "rlist (vregions s) (take ?k ps) = take ?k ?xs" "rlist (vregions s) (drop ?k ps) = drop ?k ?xs"
    by (simp_all add: rlist_def take_map drop_map)
  have d: "rdll (vregions s) (sp_region sp) (take ?k ps @ drop ?k ps)" using sp(2) by simp
  have "vmm_add_range s space a b f = vmm_insert_range s space (last (0 # take ?k ps)) (hd (drop ?k ps @ [0])) a b f"
    unfolding vmm_add_range_run [OF ro] using ne by simp
  then show ?thesis unfolding vmm_insert_range_cases [OF d] tk by (simp only:) (rule first_two [OF c [unfolded collides_def]])
qed

lemma vmm_add_range_overlap_panics_witness:
  "vmm_add_range vmm0 sp0 0x400000 0x402000 PAGE_KERNEL_RO \<in>
    {Inl (Panic ''vmm_insert_range:overlap with next''), Inl (Panic ''vmm_insert_range:overlap with prev'')}"
proof (rule vmm_add_range_overlap_panics [OF vmm0_regions(1), of _ _ PAGE_USER_RW])
  show "ranges_ok (rlist (vregions vmm0) [reg0])" unfolding vmm0_regions(2) by (simp add: ranges_ok_def)
  show "covered (rlist (vregions vmm0) [reg0]) PAGE_USER_RW \<inter> {0x400000..<0x402000} \<noteq> {}"
    unfolding vmm0_regions(2) by (rule ex_in_conv [THEN iffD1]) (rule exI [of _ "0x400000"], simp add: covered_Cons)
qed simp

section \<open>Removing a range: properties\<close>

lemma vmm_remove_range_cut:
  assumes ok: "vmm_ok R s" and ro: "regions_of s space ps" and so: "ranges_ok (rlist (vregions s) ps)"
    and x: "x \<in> set ps" and r: "vregions s x = Some r" and ab: "va_start r \<le> a" "a < b" "b \<le> va_stop r"
    and rel: "(va_start r = a) = (va_stop r = b) \<Longrightarrow> releasable TYPE_VMM_REGION s x"
    and run: "vmm_remove_range s space a b = Inr s'"
  shows "cut_result R space s ps a b s'"
proof -
  obtain as bs where ps: "ps = as @ x # bs" using x by (meson split_list)
  obtain sp where sp: "vspaces s space = Some sp" "rdll (vregions s) (sp_region sp) (as @ x # bs)"
    using ro ps unfolding regions_of_def by blast
  have al: "a < va_stop r" using ab(2,3) by (rule less_le_trans)
  note run' = run [unfolded vmm_remove_range_run [OF sp so [unfolded ps] r ab(1) al ab(3)]]
  note com = ok ro [unfolded ps] so [unfolded ps] r
  consider (whole) "va_start r = a" "va_stop r = b" | (front) "va_start r = a" "va_stop r \<noteq> b"
    | (rear) "va_start r \<noteq> a" "va_stop r = b" | (mid) "va_start r \<noteq> a" "va_stop r \<noteq> b" by blast
  then have "cut_result R space s (as @ x # bs) a b s'"
  proof cases
    case whole
    then show ?thesis using cut_whole [OF com] rel run' by simp
  next
    case front
    then have "b < va_stop r" using ab(3) by simp
    then show ?thesis using run' front ab r
      by (intro cut_shrink [OF com ab(1,3,2), where f = "\<lambda>r. r\<lparr>va_start := b\<rparr>"]) (auto split: if_splits)
  next
    case rear
    then have "va_start r < a" using ab(1) by simp
    then show ?thesis using run' rear ab r
      by (intro cut_shrink [OF com ab(1,3,2), where f = "\<lambda>r. r\<lparr>va_stop := a\<rparr>"]) (auto split: if_splits)
  next
    case mid
    then have lt: "va_start r < a" "b < va_stop r" using ab by auto
    from run' mid obtain s1 n1 s2 n2 where
      "vmm_remove_region s space x = Inr s1" "vmm_add_range s1 space (va_start r) a (vr_flags r) = Inr (n1, s2)"
      "vmm_add_range s2 space b (va_stop r) (vr_flags r) = Inr (n2, s')"
      by (auto simp: bindR_Inr_iff)
    then show ?thesis using cut_split [OF com lt(1) ab(2) lt(2)] rel mid by blast
  qed
  then show ?thesis unfolding ps .
qed

text \<open>
  C9. Removing a range that lies inside one region: when \<^verbatim>\<open>vmm_remove_range\<close> returns, whether it
  dropped the region, shrank it on either side or split it in two, exactly the addresses of the
  range are no longer covered, the list is still sorted and disjoint, the object allocator is
  intact and no page-table entry has changed. The region object has to be one whose slot can be
  released (see \<open>bitmap_unset\<close>) in the cases that release it.
\<close>

theorem vmm_remove_range_cuts:
  assumes ok: "vmm_ok R s" and ro: "regions_of s space ps" and so: "ranges_ok (rlist (vregions s) ps)"
    and x: "x \<in> set ps" and r: "vregions s x = Some r" and ab: "va_start r \<le> a" "a < b" "b \<le> va_stop r"
    and rel: "(va_start r = a) = (va_stop r = b) \<Longrightarrow> releasable TYPE_VMM_REGION s x"
    and run: "vmm_remove_range s space a b = Inr s'"
  shows "\<exists>ps'. regions_of s' space ps' \<and> ranges_ok (rlist (vregions s') ps')
    \<and> (\<forall>g. covered (rlist (vregions s') ps') g = covered (rlist (vregions s) ps) g - {a..<b})
    \<and> vmm_ok R s' \<and> mappings_kept R s s'"
  using vmm_remove_range_cut [OF ok ro so x r ab rel run] unfolding cut_result_def .

theorem vmm_remove_range_cuts_witness:
  "\<exists>s' ps'. vmm_remove_range vmm0 sp0 0x400000 0x400800 = Inr s' \<and> regions_of s' sp0 ps'
    \<and> covered (rlist (vregions s') ps') PAGE_USER_RW = {0x400800..<0x401000}"
proof -
  have rg: "vregions vmm0 reg0 = Some text_region" "reg0 \<noteq> 0"
    "vspaces vmm0 sp0 = Some \<lparr>page_directory = root0, sp_region = reg0\<rparr>" by (simp_all add: vmm0_def objects0)
  let ?s = "vmm0\<lparr>vregions := (vregions vmm0)(reg0 \<mapsto> text_region\<lparr>va_start := 0x400800\<rparr>)\<rparr>"
  have run: "vmm_remove_range vmm0 sp0 0x400000 0x400800 = Inr ?s"
    using rg by (simp add: vmm_remove_range_def find_region.simps set_region_def) (simp add: text_region_def)
  have so: "ranges_ok (rlist (vregions vmm0) [reg0])" unfolding vmm0_regions(2) by (simp add: ranges_ok_def)
  have "covered (rlist (vregions vmm0) [reg0]) PAGE_USER_RW - {0x400000..<0x400800} = {0x400800..<0x401000}"
    unfolding vmm0_regions(2) by (auto simp: covered_Cons)
  moreover from vmm_remove_range_cuts [OF vmm0_ok vmm0_regions(1) so _ rg(1) _ _ _ _ run] obtain ps' where
    "regions_of ?s sp0 ps'" "covered (rlist (vregions ?s) ps') PAGE_USER_RW
      = covered (rlist (vregions vmm0) [reg0]) PAGE_USER_RW - {0x400000..<0x400800}"
    by (auto simp: text_region_def)
  ultimately show ?thesis using run by auto
qed

end
