(* ===== verification/Kheap.thy ===== *)
theory Kheap
  imports Regions
begin

text \<open>
  The kernel heap of \<^verbatim>\<open>kernel/mm/kheap.c\<close>: containers of pages obtained from the virtual memory
  manager, each with a list of blocks that are split on allocation and merged on release.
  Container and block headers live in typed heaps indexed by address. A header that was merged into
  its neighbour keeps its content and can still be read, as in the code; the headers inside a
  container end their life when its pages are given back: a later access to one of them is a
  \<open>Fault\<close>.
\<close>

section \<open>State\<close>

record kcontainer =
  kc_size :: u64
  kc_used_blocks :: u64
  kc_prev :: u64
  kc_next :: u64
  kc_block :: u64

record kblock =
  kb_size :: u64
  kb_used :: bool
  kb_prev :: u64
  kb_next :: u64
  kb_container :: u64

record kheap_state = vmm_state +
  kconts :: "u64 \<rightharpoonup> kcontainer"
  kblocks :: "u64 \<rightharpoonup> kblock"
  heap :: u64

definition KHEAP_MIN_ALLOC_IN_PAGES :: u64 where [const_defs]: "KHEAP_MIN_ALLOC_IN_PAGES = 5"
definition KHEAP_ALIGN_IN_BYTES :: u64 where [const_defs]: "KHEAP_ALIGN_IN_BYTES = 16"
definition sizeof_kblock :: u64 where [const_defs]: "sizeof_kblock = 40"
definition sizeof_kcontainer :: u64 where [const_defs]: "sizeof_kcontainer = 40"

definition BLOCK_DATA :: "u64 \<Rightarrow> u64" where "BLOCK_DATA x = x + sizeof_kblock"
definition DATA_BLOCK :: "u64 \<Rightarrow> u64" where "DATA_BLOCK x = x - sizeof_kblock"
definition CONTAINER_DATA :: "u64 \<Rightarrow> u64" where "CONTAINER_DATA x = x + sizeof_kcontainer"

definition set_kblock ::
  "u64 \<Rightarrow> (kblock \<Rightarrow> kblock) \<Rightarrow> 'a kheap_state_scheme \<Rightarrow> 'a kheap_state_scheme res" where
  "set_kblock p f s =
     bindR (deref (kblocks s) p) (\<lambda>b. Inr (s\<lparr>kblocks := (kblocks s)(p \<mapsto> f b)\<rparr>))"

definition set_kcont ::
  "u64 \<Rightarrow> (kcontainer \<Rightarrow> kcontainer) \<Rightarrow> 'a kheap_state_scheme \<Rightarrow> 'a kheap_state_scheme res" where
  "set_kcont p f s =
     bindR (deref (kconts s) p) (\<lambda>c. Inr (s\<lparr>kconts := (kconts s)(p \<mapsto> f c)\<rparr>))"

section \<open>Blocks of a container\<close>

partial_function (option) find_free_block ::
  "(u64 \<rightharpoonup> kblock) \<Rightarrow> u64 \<Rightarrow> u64 \<Rightarrow> u64 res option" where
  "find_free_block h size_in_bytes b =
     (if b = 0 then Some (Inr 0)
      else case h b of
        None \<Rightarrow> Some (Inl Fault)
      | Some k \<Rightarrow> (if \<not> kb_used k \<and> kb_size k \<ge> size_in_bytes then Some (Inr b)
                   else find_free_block h size_in_bytes (kb_next k)))"

text \<open>The part of \<^verbatim>\<open>try_alloc_block\<close> after the label \<^verbatim>\<open>found_block\<close>.\<close>

definition take_block ::
  "'a kheap_state_scheme \<Rightarrow> u64 \<Rightarrow> u64 \<Rightarrow> (u64 \<times> 'a kheap_state_scheme) res" where
  "take_block s b size_in_bytes =
     bindR (set_kblock b (\<lambda>k. k\<lparr>kb_used := True\<rparr>) s) (\<lambda>s1.
     bindR (deref (kblocks s1) b) (\<lambda>k.
     bindR (set_kcont (kb_container k) (\<lambda>c. c\<lparr>kc_used_blocks := kc_used_blocks c + 1\<rparr>) s1) (\<lambda>s2.
     let block_end = BLOCK_DATA b + kb_size k;
         block_end_after_alloc = BLOCK_DATA b + size_in_bytes;
         next_block_struct_end = ROUNDUP (block_end_after_alloc + sizeof_kblock) KHEAP_ALIGN_IN_BYTES;
         next_block = next_block_struct_end - sizeof_kblock
     in
     if next_block_struct_end \<ge> block_end then Inr (b, s2)
     else
       let s3 = s2\<lparr>kblocks := (kblocks s2)(next_block \<mapsto>
             \<lparr>kb_size = block_end - next_block_struct_end, kb_used = False, kb_prev = b,
              kb_next = kb_next k, kb_container = kb_container k\<rparr>)\<rparr> in
       bindR (set_kblock b (\<lambda>k. k\<lparr>kb_next := next_block\<rparr>) s3) (\<lambda>s4.
       bindR (deref (kblocks s4) next_block) (\<lambda>n.
       bindR (if kb_next n \<noteq> 0 then set_kblock (kb_next n) (\<lambda>k. k\<lparr>kb_prev := next_block\<rparr>) s4 else Inr s4) (\<lambda>s5.
       bindR (set_kblock b (\<lambda>k. k\<lparr>kb_size := size_in_bytes\<rparr>) s5) (\<lambda>s6.
       Inr (b, s6))))))))"

definition try_alloc_block ::
  "'a kheap_state_scheme \<Rightarrow> u64 \<Rightarrow> u64 \<Rightarrow> (u64 \<times> 'a kheap_state_scheme) res" where
  "try_alloc_block s container size_in_bytes =
     bindR (deref (kconts s) container) (\<lambda>c.
     bindR (ret (find_free_block (kblocks s) size_in_bytes (kc_block c))) (\<lambda>b.
       if b = 0 then Inr (0, s) else take_block s b size_in_bytes))"

section \<open>Containers\<close>

definition create_container ::
  "'a kheap_state_scheme \<Rightarrow> u64 \<Rightarrow> (u64 \<times> 'a kheap_state_scheme) res" where
  "create_container s n =
     (let size_in_pages = MAX64 KHEAP_MIN_ALLOC_IN_PAGES n in
      bindR (vmm_alloc_between s (kspace s) (KERNEL_HEAP_START (syms s)) (KERNEL_HEAP_STOP (syms s))
              size_in_pages PAGE_KERNEL_RW) (\<lambda>(c, s1).
      if c = 0 then Inr (0, s1)
      else
        let size_in_bytes = size_in_pages * PAGE_SIZE_IN_BYTES - sizeof_kcontainer;
            nxt = heap s1;
            b = CONTAINER_DATA c;
            s2 = s1\<lparr>kconts := (kconts s1)(c \<mapsto> \<lparr>kc_size = size_in_bytes, kc_used_blocks = 0, kc_prev = 0,
                   kc_next = nxt, kc_block = b\<rparr>)\<rparr> in
        bindR (if nxt \<noteq> 0 then set_kcont nxt (\<lambda>k. k\<lparr>kc_prev := c\<rparr>) s2 else Inr s2) (\<lambda>s3.
        Inr (c, s3\<lparr>heap := c,
               kblocks := (kblocks s3)(b \<mapsto> \<lparr>kb_size = size_in_bytes - sizeof_kblock, kb_used = False,
                 kb_prev = 0, kb_next = 0, kb_container = c\<rparr>)\<rparr>))))"

text \<open>The headers in a range of addresses that is given back end their life.\<close>

definition drop_headers :: "u64 \<Rightarrow> u64 \<Rightarrow> 'a kheap_state_scheme \<Rightarrow> 'a kheap_state_scheme" where
  "drop_headers start len s = s\<lparr>kconts := (\<lambda>p. if p - start < len then None else kconts s p),
     kblocks := (\<lambda>p. if p - start < len then None else kblocks s p)\<rparr>"

definition remove_container :: "'a kheap_state_scheme \<Rightarrow> u64 \<Rightarrow> 'a kheap_state_scheme res" where
  "remove_container s container =
     bindR (deref (kconts s) container) (\<lambda>c.
     bindR (if kc_prev c = 0 then Inr (s\<lparr>heap := kc_next c\<rparr>)
            else set_kcont (kc_prev c) (\<lambda>k. k\<lparr>kc_next := kc_next c\<rparr>) s) (\<lambda>s1.
     bindR (deref (kconts s1) container) (\<lambda>c1.
     bindR (if kc_next c1 \<noteq> 0 then set_kcont (kc_next c1) (\<lambda>k. k\<lparr>kc_prev := kc_prev c1\<rparr>) s1 else Inr s1) (\<lambda>s2.
     bindR (deref (kconts s2) container) (\<lambda>c2.
     let pages = (kc_size c2 + sizeof_kcontainer) div PAGE_SIZE_IN_BYTES in
     bindR (vmm_free s2 (kspace s2) container pages) (\<lambda>s3.
     Inr (drop_headers container (pages * PAGE_SIZE_IN_BYTES) s3)))))))"

definition kheap_init :: "'a kheap_state_scheme \<Rightarrow> u64 \<Rightarrow> 'a kheap_state_scheme res" where
  "kheap_init s size_in_pages =
     bindR (create_container s size_in_pages) (\<lambda>(c, s1).
       if c = 0 then Inl (Panic ''kheap_init: failed to init kheap'') else Inr s1)"

section \<open>Allocation and release\<close>

partial_function (option) kmalloc_scan ::
  "'a kheap_state_scheme \<Rightarrow> u64 \<Rightarrow> u64 \<Rightarrow> (u64 \<times> 'a kheap_state_scheme) res option" where
  "kmalloc_scan s size_in_bytes c =
     (if c = 0 then Some (Inr (0, s))
      else case try_alloc_block s c size_in_bytes of
        Inl e \<Rightarrow> Some (Inl e)
      | Inr r \<Rightarrow>
          (if fst r \<noteq> 0 then Some (Inr r)
           else case kconts (snd r) c of
             None \<Rightarrow> Some (Inl Fault)
           | Some k \<Rightarrow> kmalloc_scan (snd r) size_in_bytes (kc_next k)))"

definition kmalloc :: "'a kheap_state_scheme \<Rightarrow> u64 \<Rightarrow> (u64 \<times> 'a kheap_state_scheme) res" where
  "kmalloc s size_in_bytes =
     bindR (ret (kmalloc_scan s size_in_bytes (heap s))) (\<lambda>(b, s1).
       if b \<noteq> 0 then Inr (BLOCK_DATA b, s1)
       else bindR (create_container s1 ((size_in_bytes + sizeof_kblock) div PAGE_SIZE_IN_BYTES + 2)) (\<lambda>(c, s2).
         if c = 0 then Inr (0, s2)
         else bindR (try_alloc_block s2 c size_in_bytes) (\<lambda>(b, s3).
           if b = 0 then Inl (Panic ''kmalloc: the impossible is possible'')
           else Inr (BLOCK_DATA b, s3))))"

definition merge_prev ::
  "'a kheap_state_scheme \<Rightarrow> u64 \<Rightarrow> u64 \<Rightarrow> (u64 \<times> 'a kheap_state_scheme) res" where
  "merge_prev s b total_size =
     bindR (deref (kblocks s) b) (\<lambda>k.
       if kb_prev k = 0 then Inr (b, s)
       else bindR (deref (kblocks s) (kb_prev k)) (\<lambda>p.
         if kb_used p then Inr (b, s)
         else bindR (set_kblock (kb_prev k) (\<lambda>p. p\<lparr>kb_next := kb_next k, kb_size := kb_size p + total_size\<rparr>) s) (\<lambda>s1.
           Inr (kb_prev k, s1))))"

definition merge_next :: "'a kheap_state_scheme \<Rightarrow> u64 \<Rightarrow> 'a kheap_state_scheme res" where
  "merge_next s b =
     bindR (deref (kblocks s) b) (\<lambda>k.
       if kb_next k = 0 then Inr s
       else bindR (deref (kblocks s) (kb_next k)) (\<lambda>n.
         if kb_used n then Inr s
         else bindR (set_kblock b (\<lambda>k. k\<lparr>kb_size := kb_size k + (kb_size n + sizeof_kblock), kb_next := kb_next n\<rparr>) s) (\<lambda>s1.
           if kb_next n \<noteq> 0 then set_kblock (kb_next n) (\<lambda>q. q\<lparr>kb_prev := b\<rparr>) s1 else Inr s1)))"

definition kfree :: "'a kheap_state_scheme \<Rightarrow> u64 \<Rightarrow> 'a kheap_state_scheme res" where
  "kfree s ptr =
     (let b = DATA_BLOCK ptr in
      bindR (deref (kblocks s) b) (\<lambda>k.
      let total_size = kb_size k + sizeof_kblock in
      bindR (set_kblock b (\<lambda>k. k\<lparr>kb_used := False\<rparr>) s) (\<lambda>s1.
      bindR (set_kcont (kb_container k) (\<lambda>c. c\<lparr>kc_used_blocks := kc_used_blocks c - 1\<rparr>) s1) (\<lambda>s2.
      bindR (deref (kconts s2) (kb_container k)) (\<lambda>c.
      if kc_used_blocks c = 0 then remove_container s2 (kb_container k)
      else bindR (merge_prev s2 b total_size) (\<lambda>(b', s3). merge_next s3 b'))))))"

section \<open>Lists of chunks\<close>

text \<open>
  The abstract view of a container: its blocks in address order, each with the address of its
  header, its size and whether it is in use. \<open>tiled lo hi\<close> says that headers and data lie in
  \<open>lo..<hi\<close> one after the other and that every data address is a multiple of 16.
\<close>

type_synonym chunk = "u64 \<times> u64 \<times> bool"

fun tiled :: "nat \<Rightarrow> nat \<Rightarrow> chunk list \<Rightarrow> bool" where
  "tiled lo hi [] \<longleftrightarrow> lo \<le> hi"
| "tiled lo hi ((a, sz, u) # xs) \<longleftrightarrow>
     lo \<le> unat a \<and> 16 dvd (unat a + 40) \<and> tiled (unat a + 40 + unat sz) hi xs"

definition split_chunk :: "u64 \<Rightarrow> u64 \<Rightarrow> u64 \<Rightarrow> chunk list" where
  "split_chunk n a sz =
     (let e = ROUNDUP (BLOCK_DATA a + n + sizeof_kblock) KHEAP_ALIGN_IN_BYTES; stop = BLOCK_DATA a + sz in
      if e \<ge> stop then [(a, sz, True)] else [(a, n, True), (e - sizeof_kblock, stop - e, False)])"

text \<open>First fit: the first free chunk that is large enough is split.\<close>

fun first_fit :: "u64 \<Rightarrow> chunk list \<Rightarrow> (u64 \<times> chunk list) option" where
  "first_fit n [] = None"
| "first_fit n ((a, sz, u) # xs) =
     (if \<not> u \<and> n \<le> sz then Some (a, split_chunk n a sz @ xs)
      else map_option (\<lambda>(b, ys). (b, (a, sz, u) # ys)) (first_fit n xs))"

lemma tiled_le: "tiled lo hi xs \<Longrightarrow> lo \<le> hi"
proof (induction xs arbitrary: lo)
  case (Cons x xs)
  obtain a sz u where x: "x = (a, sz, u)" by (metis prod_cases3)
  show ?case using Cons.IH Cons.prems x by fastforce
qed simp

lemma tiled_mono: "tiled lo hi xs \<Longrightarrow> lo' \<le> lo \<Longrightarrow> tiled lo' hi xs"
  by (cases xs) auto

lemma tiled_append:
  "tiled lo hi (xs @ ys) \<longleftrightarrow> (\<exists>m. tiled lo m xs \<and> tiled m hi ys)"
proof (induction xs arbitrary: lo)
  case Nil
  then show ?case using tiled_mono by auto
next
  case (Cons x xs)
  then show ?case by (cases x) auto
qed

text \<open>The rounding of the source never rounds to itself: it skips between 1 and 16 bytes.\<close>

lemma round16_nat: "k + 16 - (k + 16) mod 16 = 16 * (k div 16 + 1)" for k :: nat
proof -
  obtain q r where q: "k div 16 = q" "k mod 16 = r" "k = 16 * q + r" by (metis mult_div_mod_eq)
  have "(k + 16) mod 16 = r" using q(2) by simp
  moreover have "k + 16 - r = 16 * (q + 1)" using q(3) by arith
  ultimately show ?thesis by (simp only: q(1))
qed

lemma roundup16:
  assumes "unat x + 16 < 2 ^ 64"
  shows "unat (ROUNDUP x KHEAP_ALIGN_IN_BYTES) = 16 * (unat x div 16 + 1)"
proof -
  have "ROUNDUP x KHEAP_ALIGN_IN_BYTES = (x + 16) AND NOT (mask 4)"
    by (simp add: ROUNDUP_def const_defs mask_eq_decr_exp)
  then have "unat (ROUNDUP x KHEAP_ALIGN_IN_BYTES) = unat (x + 16) - unat (x + 16) mod 2 ^ 4"
    using and_not_mask_unat [of 4 "x + 16"] by simp
  moreover have "unat (x + 16) = unat x + 16" using assms by (subst unat_add_no_wrap) simp_all
  moreover have "unat x + 16 - (unat x + 16) mod 16 = 16 * (unat x div 16 + 1)" by (rule round16_nat)
  ultimately show ?thesis by simp
qed

lemma unat_block_data:
  assumes "unat a + 40 + k < 2 ^ 64"
  shows "unat (BLOCK_DATA a) = unat a + 40"
  using assms unfolding BLOCK_DATA_def by (subst unat_add_no_wrap) (simp_all add: const_defs)

text \<open>A free chunk that is large enough, split for \<open>n\<close> bytes: a used chunk, maybe followed by a free one.\<close>

lemma split_chunk_tiled:
  assumes t: "16 dvd (unat a + 40)" "unat a + 40 + unat sz \<le> hi" "hi + 64 < 2 ^ 64" and n: "n \<le> sz"
  shows "tiled (unat a) (unat a + 40 + unat sz) (split_chunk n a sz)"
    and "\<exists>m ys. split_chunk n a sz = (a, m, True) # ys \<and> n \<le> m \<and> (\<forall>y \<in> set ys. \<not> snd (snd y))"
proof -
  have ns: "unat n \<le> unat sz" using n by (simp add: word_le_nat_alt)
  have bd: "unat (BLOCK_DATA a) = unat a + 40" by (rule unat_block_data [of a 0]) (use t in simp)
  have st: "unat (BLOCK_DATA a + sz) = unat a + 40 + unat sz"
    using bd t by (subst unat_add_no_wrap) simp_all
  have x: "unat (BLOCK_DATA a + n + sizeof_kblock) = unat a + 80 + unat n"
    using bd t ns by (subst unat_add_no_wrap; (subst unat_add_no_wrap)?) (simp_all add: const_defs)
  define e where "e = ROUNDUP (BLOCK_DATA a + n + sizeof_kblock) KHEAP_ALIGN_IN_BYTES"
  have e: "unat e = 16 * ((unat a + 80 + unat n) div 16 + 1)"
    unfolding e_def by (subst roundup16) (use x t ns in simp_all)
  have e2: "unat a + 80 + unat n < unat e" "16 dvd unat e" unfolding e
    using dividend_less_div_times [of 16 "unat a + 80 + unat n"] by (simp_all only: dvd_triv_left, simp)
  have e40: "unat (e - sizeof_kblock) = unat e - 40" "40 \<le> unat e"
    using e2 by (simp_all add: unat_sub_if' const_defs)
  have "tiled (unat a) (unat a + 40 + unat sz) (split_chunk n a sz)
    \<and> (\<exists>m ys. split_chunk n a sz = (a, m, True) # ys \<and> n \<le> m \<and> (\<forall>y \<in> set ys. \<not> snd (snd y)))"
  proof (cases "e \<ge> BLOCK_DATA a + sz")
    case True
    then show ?thesis using t n by (simp add: split_chunk_def Let_def e_def [symmetric])
  next
    case False
    then have lt: "unat e < unat a + 40 + unat sz" using st by (simp add: word_le_nat_alt)
    then have "unat (BLOCK_DATA a + sz - e) = unat a + 40 + unat sz - unat e"
      using st False by (subst unat_sub) (simp_all add: word_le_nat_alt)
    then show ?thesis using False t n e2 e40 lt ns
      by (simp add: split_chunk_def Let_def e_def [symmetric])
  qed
  then show "tiled (unat a) (unat a + 40 + unat sz) (split_chunk n a sz)"
    and "\<exists>m ys. split_chunk n a sz = (a, m, True) # ys \<and> n \<le> m \<and> (\<forall>y \<in> set ys. \<not> snd (snd y))" by blast+
qed

lemma first_fit_split:
  "first_fit n xs = Some (b, ys) \<longleftrightarrow> (\<exists>as a sz bs. xs = as @ (a, sz, False) # bs \<and> n \<le> sz \<and> b = a
     \<and> (\<forall>x \<in> set as. snd (snd x) \<or> fst (snd x) < n) \<and> ys = as @ split_chunk n a sz @ bs)"
  (is "?l \<longleftrightarrow> ?r xs b ys")
proof
  show "?l \<Longrightarrow> ?r xs b ys"
  proof (induction xs arbitrary: ys)
    case (Cons x xs)
    obtain a sz u where x: "x = (a, sz, u)" by (metis prod_cases3)
    show ?case
    proof (cases "\<not> u \<and> n \<le> sz")
      case True
      then show ?thesis using Cons.prems x by (intro exI [of _ "[]"]) auto
    next
      case False
      then obtain zs where z: "first_fit n xs = Some (b, zs)" "ys = x # zs" using Cons.prems x by auto
      from Cons.IH [OF z(1)] obtain as a' sz' bs where
        r: "xs = as @ (a', sz', False) # bs" "n \<le> sz'" "b = a'" "\<forall>x \<in> set as. snd (snd x) \<or> fst (snd x) < n"
          "zs = as @ split_chunk n a' sz' @ bs" by blast
      have "u \<or> sz < n" using False by auto
      then show ?thesis using r z(2) x
        by (intro exI [of _ "x # as"] exI [of _ a'] exI [of _ sz'] exI [of _ bs]) simp
    qed
  qed simp
next
  assume "?r xs b ys"
  then obtain as a sz bs where r: "xs = as @ (a, sz, False) # bs" "n \<le> sz" "b = a"
    "\<forall>x \<in> set as. snd (snd x) \<or> fst (snd x) < n" "ys = as @ split_chunk n a sz @ bs" by blast
  from r(4) have "first_fit n (as @ (a, sz, False) # bs) = Some (a, as @ split_chunk n a sz @ bs)"
    using r(2) by (induction as) auto
  then show ?l using r by simp
qed

text \<open>The chunks in use, and the data bytes of a chunk.\<close>

definition used_chunks :: "chunk list \<Rightarrow> (u64 \<times> u64) set" where
  "used_chunks xs = {(a, sz). (a, sz, True) \<in> set xs}"

definition data_bytes :: "u64 \<times> u64 \<Rightarrow> nat set" where
  "data_bytes c = {unat (fst c) + 40..<unat (fst c) + 40 + unat (snd c)}"

lemma tiled_member:
  assumes "tiled lo hi xs" and "(a, sz, u) \<in> set xs"
  shows "lo \<le> unat a" and "unat a + 40 + unat sz \<le> hi" and "16 dvd (unat a + 40)"
proof -
  obtain as bs where xs: "xs = as @ (a, sz, u) # bs" using assms(2) by (meson split_list)
  obtain m where m: "tiled lo m as" "tiled m hi ((a, sz, u) # bs)"
    using assms(1) unfolding xs tiled_append by blast
  then show "lo \<le> unat a" "unat a + 40 + unat sz \<le> hi" "16 dvd (unat a + 40)"
    using tiled_le [OF m(1)] tiled_le [of "unat a + 40 + unat sz" hi bs] by auto
qed

lemma tiled_disjoint:
  assumes t: "tiled lo hi (as @ (a, sz, u) # bs)" and x: "(b, m, v) \<in> set (as @ bs)"
  shows "data_bytes (b, m) \<inter> data_bytes (a, sz) = {}" and "b = a \<Longrightarrow> False"
proof -
  obtain k where k: "tiled lo k as" "k \<le> unat a" "tiled (unat a + 40 + unat sz) hi bs"
    using t unfolding tiled_append by auto
  have "unat b + 40 + unat m \<le> unat a \<or> unat a + 40 + unat sz \<le> unat b"
    using x tiled_member [OF k(1)] tiled_member [OF k(3)] k(2) by fastforce
  then show "data_bytes (b, m) \<inter> data_bytes (a, sz) = {}" "b = a \<Longrightarrow> False" by (auto simp: data_bytes_def)
qed

section \<open>The blocks of a container\<close>

abbreviation bdll :: "(u64 \<rightharpoonup> kblock) \<Rightarrow> u64 \<Rightarrow> u64 list \<Rightarrow> bool" where
  "bdll \<equiv> dll kb_next kb_prev"

definition cdata :: "(u64 \<rightharpoonup> kblock) \<Rightarrow> u64 \<Rightarrow> chunk" where
  "cdata h p = (p, kb_size (the (h p)), kb_used (the (h p)))"

definition cont_stop :: "u64 \<Rightarrow> kcontainer \<Rightarrow> nat" where
  "cont_stop c k = unat c + 40 + unat (kc_size k)"

text \<open>
  \<open>cont_ok s c ps\<close>: the blocks of the container at \<open>c\<close> are \<open>ps\<close>; they are properly linked, belong to
  the container, lie in it without overlap, and the counter counts those in use.
\<close>

definition cont_ok :: "'a kheap_state_scheme \<Rightarrow> u64 \<Rightarrow> u64 list \<Rightarrow> bool" where
  "cont_ok s c ps \<longleftrightarrow> (\<exists>k. kconts s c = Some k \<and> bdll (kblocks s) (kc_block k) ps
     \<and> (\<forall>p \<in> set ps. kb_container (the (kblocks s p)) = c)
     \<and> tiled (unat c + 40) (cont_stop c k) (map (cdata (kblocks s)) ps) \<and> cont_stop c k + 64 < 2 ^ 64
     \<and> kc_used_blocks k = of_nat (length (filter (\<lambda>p. kb_used (the (kblocks s p))) ps)))"

text \<open>What an operation on the container at \<open>c\<close> leaves alone.\<close>

definition in_cont :: "u64 \<Rightarrow> kcontainer \<Rightarrow> u64 \<Rightarrow> bool" where
  "in_cont c k q \<longleftrightarrow> unat c + 40 \<le> unat q \<and> unat q < cont_stop c k"

definition cont_frame :: "u64 \<Rightarrow> 'a kheap_state_scheme \<Rightarrow> 'a kheap_state_scheme \<Rightarrow> bool" where
  "cont_frame c s s' \<longleftrightarrow> s' = s\<lparr>kconts := kconts s', kblocks := kblocks s'\<rparr>
     \<and> (\<exists>k n. kconts s c = Some k \<and> kconts s' = (kconts s)(c \<mapsto> k\<lparr>kc_used_blocks := n\<rparr>)
         \<and> (\<forall>q. \<not> in_cont c k q \<longrightarrow> kblocks s' q = kblocks s q))"

lemma cdata_simps [simp]: "fst (cdata h p) = p" "snd (snd (cdata h p)) = kb_used (the (h p))"
  "fst (snd (cdata h p)) = kb_size (the (h p))"
  by (simp_all add: cdata_def)

lemma find_free_block_run:
  "bdll h q (as @ bs) \<Longrightarrow> find_free_block h n (hd (bs @ [0])) =
    Some (Inr (case find (\<lambda>p. \<not> kb_used (the (h p)) \<and> n \<le> kb_size (the (h p))) bs of Some x \<Rightarrow> x | None \<Rightarrow> 0))"
proof (induction bs arbitrary: as)
  case Nil
  then show ?case by (simp add: find_free_block.simps)
next
  case (Cons c bs)
  obtain w where w: "h c = Some w" "kb_next w = hd (bs @ [0])" using dll_links [OF Cons.prems] by blast
  have c: "c \<noteq> 0" using dll_node [OF Cons.prems, of c] by simp
  have "bdll h q ((as @ [c]) @ bs)" using Cons.prems by simp
  note IH = Cons.IH [OF this]
  show ?case using w c IH by (simp add: find_free_block.simps [of h n c])
qed

text \<open>The heap after the block at \<open>b\<close> was split, with the new header at \<open>nb\<close>.\<close>

definition split_heap :: "(u64 \<rightharpoonup> kblock) \<Rightarrow> u64 \<Rightarrow> u64 \<Rightarrow> u64 \<Rightarrow> kblock \<Rightarrow> u64 \<rightharpoonup> kblock" where
  "split_heap h b n nb N = (\<lambda>q. if q = nb then Some N else map_option (\<lambda>r. r\<lparr>
     kb_size := (if q = b then n else kb_size r), kb_used := (if q = b then True else kb_used r),
     kb_prev := (if kb_next N \<noteq> 0 \<and> q = kb_next N then nb else kb_prev r),
     kb_next := (if q = b then nb else kb_next r)\<rparr>) (h q))"

definition take_kblocks :: "(u64 \<rightharpoonup> kblock) \<Rightarrow> u64 \<Rightarrow> u64 \<Rightarrow> kblock \<Rightarrow> u64 \<rightharpoonup> kblock" where
  "take_kblocks h b n k =
     (let e = ROUNDUP (BLOCK_DATA b + n + sizeof_kblock) KHEAP_ALIGN_IN_BYTES; stop = BLOCK_DATA b + kb_size k in
      if e \<ge> stop then h(b \<mapsto> k\<lparr>kb_used := True\<rparr>)
      else split_heap h b n (e - sizeof_kblock) \<lparr>kb_size = stop - e, kb_used = False, kb_prev = b,
             kb_next = kb_next k, kb_container = kb_container k\<rparr>)"

lemma kblock_id [simp]: "r\<lparr>kb_size := kb_size r, kb_used := kb_used r, kb_prev := kb_prev r, kb_next := kb_next r\<rparr> = r"
  by (cases r) simp

lemma take_block_run:
  assumes k: "kblocks s b = Some k" and c: "kconts s (kb_container k) = Some c"
    and nx: "kb_next k \<noteq> 0 \<Longrightarrow> kblocks s (kb_next k) = Some w" "kb_next k \<noteq> b"
    and nb: "nb = ROUNDUP (BLOCK_DATA b + n + sizeof_kblock) KHEAP_ALIGN_IN_BYTES - sizeof_kblock" "nb \<noteq> b" "nb \<noteq> kb_next k"
  shows "take_block s b n = Inr (b, s\<lparr>kconts := (kconts s)(kb_container k \<mapsto> c\<lparr>kc_used_blocks := kc_used_blocks c + 1\<rparr>),
    kblocks := take_kblocks (kblocks s) b n k\<rparr>)"
proof -
  define e where "e = ROUNDUP (BLOCK_DATA b + n + sizeof_kblock) KHEAP_ALIGN_IN_BYTES"
  have nbe: "e - sizeof_kblock = nb" using nb(1) e_def by simp
  show ?thesis
  proof (cases "e \<ge> BLOCK_DATA b + kb_size k")
    case True
    then show ?thesis using k c
      by (simp add: take_block_def set_kblock_def set_kcont_def Let_def e_def [symmetric] take_kblocks_def)
  next
    case False
    let ?N = "\<lparr>kb_size = BLOCK_DATA b + kb_size k - e, kb_used = False, kb_prev = b, kb_next = kb_next k,
      kb_container = kb_container k\<rparr>"
    have h: "take_kblocks (kblocks s) b n k = split_heap (kblocks s) b n nb ?N"
      using False nbe by (simp add: take_kblocks_def Let_def e_def [symmetric])
    let ?b = "k\<lparr>kb_used := True, kb_next := nb, kb_size := n\<rparr>"
    have m: "split_heap (kblocks s) b n nb ?N = (if kb_next k = 0 then (kblocks s)(nb \<mapsto> ?N, b \<mapsto> ?b)
      else (kblocks s)(nb \<mapsto> ?N, kb_next k \<mapsto> w\<lparr>kb_prev := nb\<rparr>, b \<mapsto> ?b))"
      using k nb(2,3) nx by (auto simp: split_heap_def fun_eq_iff option.map_ident)
    have "take_block s b n = Inr (b, s\<lparr>kconts := (kconts s)(kb_container k \<mapsto> c\<lparr>kc_used_blocks := kc_used_blocks c + 1\<rparr>),
      kblocks := split_heap (kblocks s) b n nb ?N\<rparr>)"
    proof (cases "kb_next k = 0")
      case True
      then show ?thesis using False k c nb(2,3) unfolding m
        by (simp add: take_block_def set_kblock_def set_kcont_def Let_def e_def [symmetric] nbe)
    next
      case nz: False
      then show ?thesis using False k c nb(2,3) nx unfolding m
        by (simp add: take_block_def set_kblock_def set_kcont_def Let_def e_def [symmetric] nbe)
    qed
    then show ?thesis unfolding h .
  qed
qed

text \<open>Splitting at the level of lists keeps the tiling.\<close>

lemma tiled_split:
  assumes t: "tiled lo hi (xs @ (b, sz, False) # ys)" and hi: "hi + 64 < 2 ^ 64" and n: "n \<le> sz"
  shows "tiled lo hi (xs @ split_chunk n b sz @ ys)"
proof -
  obtain m where m: "tiled lo m xs" "m \<le> unat b" "16 dvd (unat b + 40)" "tiled (unat b + 40 + unat sz) hi ys"
    using t unfolding tiled_append by auto
  have "tiled (unat b) (unat b + 40 + unat sz) (split_chunk n b sz)"
    by (rule split_chunk_tiled(1) [OF m(3) tiled_le [OF m(4)] hi n])
  then have "tiled m (unat b + 40 + unat sz) (split_chunk n b sz)" using m(2) by (rule tiled_mono)
  then show ?thesis using m(1,4) unfolding tiled_append by blast
qed

lemma split_addr:
  assumes t: "tiled lo hi (xs @ split_chunk n b sz @ ys)" and e: "\<not> ROUNDUP (BLOCK_DATA b + n + sizeof_kblock) KHEAP_ALIGN_IN_BYTES \<ge> BLOCK_DATA b + sz"
    and nb: "nb = ROUNDUP (BLOCK_DATA b + n + sizeof_kblock) KHEAP_ALIGN_IN_BYTES - sizeof_kblock"
  shows "nb \<noteq> b" and "nb \<notin> fst ` set (xs @ ys)" and "nb \<noteq> 0" and "lo \<le> unat nb" and "unat nb + 40 \<le> hi"
proof -
  obtain m where sc: "split_chunk n b sz = [(b, n, True), (nb, m, False)]"
    using e nb by (auto simp: split_chunk_def Let_def)
  have "nb \<notin> fst ` set ((xs @ [(b, n, True)]) @ ys)"
  proof
    assume "nb \<in> fst ` set ((xs @ [(b, n, True)]) @ ys)"
    then obtain x where "x \<in> set ((xs @ [(b, n, True)]) @ ys)" "nb = fst x" by blast
    then obtain m' u where "(nb, m', u) \<in> set ((xs @ [(b, n, True)]) @ ys)" by (metis prod.collapse)
    then show False using tiled_disjoint(2) [of lo hi "xs @ [(b, n, True)]" nb m False ys] t sc by auto
  qed
  then show "nb \<noteq> b" "nb \<notin> fst ` set (xs @ ys)" by auto
  have mem: "(nb, m, False) \<in> set (xs @ split_chunk n b sz @ ys)" "(b, n, True) \<in> set (xs @ split_chunk n b sz @ ys)"
    by (simp_all add: sc)
  show "lo \<le> unat nb" "unat nb + 40 \<le> hi" using tiled_member(1,2) [OF t mem(1)] by simp_all
  have "unat b + 40 + unat n \<le> unat nb" using t unfolding sc tiled_append by auto
  then show "nb \<noteq> 0" by auto
qed

lemma take_kblocks_list:
  assumes d: "bdll h q (as @ b # bs)" and k: "h b = Some k" "n \<le> kb_size k" "\<not> kb_used k"
    and t: "tiled lo hi (map (cdata h) (as @ b # bs))" and hi: "hi + 64 < 2 ^ 64"
    and c: "\<And>p. p \<in> set (as @ b # bs) \<Longrightarrow> kb_container (the (h p)) = c"
  defines "h' \<equiv> take_kblocks h b n k"
  obtains ps where "bdll h' q ps" and "map (cdata h') ps = map (cdata h) as @ split_chunk n b (kb_size k) @ map (cdata h) bs"
    and "\<And>p. p \<in> set ps \<Longrightarrow> kb_container (the (h' p)) = c"
    and "\<And>x. x \<notin> set (as @ b # bs) \<Longrightarrow> \<not> (lo \<le> unat x \<and> unat x + 40 \<le> hi) \<Longrightarrow> h' x = h x"
proof -
  define e where "e = ROUNDUP (BLOCK_DATA b + n + sizeof_kblock) KHEAP_ALIGN_IN_BYTES"
  have dist: "b \<notin> set as" "b \<notin> set bs" "distinct (as @ b # bs)" using dll_distinct [OF d] by auto
  show thesis
  proof (cases "e \<ge> BLOCK_DATA b + kb_size k")
    case True
    then have h': "h' = h(b \<mapsto> k\<lparr>kb_used := True\<rparr>)" by (simp add: h'_def take_kblocks_def Let_def e_def [symmetric])
    have "bdll h' q (as @ b # bs)" by (rule dll_cong [OF _ d]) (use k(1) in \<open>auto simp: h'\<close>)
    moreover have "map (cdata h') (as @ b # bs) = map (cdata h) as @ split_chunk n b (kb_size k) @ map (cdata h) bs"
      using True dist k(1) by (auto simp: h' cdata_def split_chunk_def Let_def e_def [symmetric])
    moreover have "kb_container (the (h' p)) = c" if "p \<in> set (as @ b # bs)" for p using c [OF that] k(1) by (auto simp: h')
    moreover have "h' x = h x" if "x \<notin> set (as @ b # bs)" for x using that by (simp add: h')
    ultimately show ?thesis using that by blast
  next
    case False
    define nb where "nb = e - sizeof_kblock"
    let ?N = "\<lparr>kb_size = BLOCK_DATA b + kb_size k - e, kb_used = False, kb_prev = b, kb_next = kb_next k,
      kb_container = kb_container k\<rparr>"
    have h': "h' = split_heap h b n nb ?N" using False by (simp add: h'_def take_kblocks_def Let_def e_def [symmetric] nb_def)
    have "map (cdata h) (as @ b # bs) = map (cdata h) as @ (b, kb_size k, False) # map (cdata h) bs"
      using k by (simp add: cdata_def)
    from tiled_split [OF t [unfolded this] hi k(2)]
    have t': "tiled lo hi (map (cdata h) as @ split_chunk n b (kb_size k) @ map (cdata h) bs)" .
    note sa = split_addr [OF t' False [unfolded e_def] nb_def [unfolded e_def]]
    have "fst ` set (map (cdata h) as @ map (cdata h) bs) = set as \<union> set bs"
      by (simp add: image_Un image_image)
    then have nb: "nb \<notin> set (as @ b # bs)" using sa(1,2) by simp
    have nx: "kb_next k = hd (bs @ [0])" using dll_links [OF d] k(1) by auto
    have hdb: "kb_next k \<noteq> 0 \<and> x = kb_next k \<longleftrightarrow> bs \<noteq> [] \<and> x = hd bs" for x
      using nx dll_node [OF d, of "hd bs"] by (cases bs) auto
    have d': "bdll h q ((as @ [b]) @ bs)" using d by simp
    have "bdll h' (if as @ [b] = [] then nb else q) ((as @ [b]) @ nb # bs)"
    proof (rule dll_insert [OF d' sa(3)])
      show "h' nb = Some ?N" by (simp add: h' split_heap_def)
      show "kb_next ?N = hd (bs @ [0])" "kb_prev ?N = last (0 # as @ [b])" using nx by simp_all
      fix x v assume x: "x \<in> set ((as @ [b]) @ bs)" "h x = Some v"
      then have "x \<noteq> nb" using nb by auto
      then show "\<exists>v'. h' x = Some v' \<and> kb_next v' = (if as @ [b] \<noteq> [] \<and> x = last (as @ [b]) then nb else kb_next v)
        \<and> kb_prev v' = (if bs \<noteq> [] \<and> x = hd bs then nb else kb_prev v)"
        using x(2) hdb [of x] by (simp add: h' split_heap_def)
    qed
    then have "bdll h' q (as @ b # nb # bs)" by simp
    moreover have old: "cdata h' p = cdata h p" if "p \<in> set (as @ bs)" for p
    proof -
      have "p \<noteq> b" "p \<noteq> nb" using that dist nb by auto
      then show ?thesis using that dll_node [OF d, of p] by (auto simp: h' split_heap_def cdata_def)
    qed
    then have "map (cdata h') (as @ b # nb # bs) = map (cdata h) as @ split_chunk n b (kb_size k) @ map (cdata h) bs"
      using False k(1) sa(1) old by (auto simp: split_chunk_def Let_def e_def [symmetric] nb_def [symmetric])
        (simp_all add: cdata_def h' split_heap_def)
    moreover have "kb_container (the (h' p)) = c" if "p \<in> set (as @ b # nb # bs)" for p
    proof (cases "p = nb")
      case True
      then show ?thesis using c [of b] k(1) by (simp add: h' split_heap_def)
    next
      case pn: False
      then have "p \<in> set (as @ b # bs)" using that by auto
      then show ?thesis using c [of p] dll_node [OF d, of p] pn by (auto simp: h' split_heap_def)
    qed
    moreover have "h' x = h x" if "x \<notin> set (as @ b # bs)" "\<not> (lo \<le> unat x \<and> unat x + 40 \<le> hi)" for x
    proof -
      have "x \<noteq> nb" using that(2) sa(4,5) by auto
      moreover have "x \<noteq> b" "\<not> (kb_next k \<noteq> 0 \<and> x = kb_next k)" using that(1) hdb [of x] by (auto, cases bs, auto)
      ultimately show ?thesis by (cases "h x") (auto simp: h' split_heap_def)
    qed
    ultimately show ?thesis using that by blast
  qed
qed

lemma first_fit_None: "first_fit n xs = None \<longleftrightarrow> (\<forall>x \<in> set xs. snd (snd x) \<or> fst (snd x) < n)"
proof (induction xs)
  case (Cons x xs)
  then show ?case by (cases x) (auto simp: not_le)
qed simp

lemma used_count: "length (filter (\<lambda>p. kb_used (the (h p))) ps) = length (filter (\<lambda>x. snd (snd x)) (map (cdata h) ps))"
  by (simp add: filter_map o_def)

lemma cont_okE:
  assumes "cont_ok s c ps"
  obtains k where "kconts s c = Some k" and "bdll (kblocks s) (kc_block k) ps"
    and "\<And>p. p \<in> set ps \<Longrightarrow> kb_container (the (kblocks s p)) = c"
    and "tiled (unat c + 40) (cont_stop c k) (map (cdata (kblocks s)) ps)" and "cont_stop c k + 64 < 2 ^ 64"
    and "kc_used_blocks k = of_nat (length (filter (\<lambda>x. snd (snd x)) (map (cdata (kblocks s)) ps)))"
  using assms unfolding cont_ok_def used_count by blast

lemma cont_ok_in:
  assumes "tiled (unat c + 40) (cont_stop c k) (map (cdata h) ps)" and "p \<in> set ps"
  shows "in_cont c k p"
proof -
  have "(p, kb_size (the (h p)), kb_used (the (h p))) \<in> set (map (cdata h) ps)" using assms(2) by (simp add: cdata_def)
  from tiled_member(1,2) [OF assms(1) this] show ?thesis by (simp add: in_cont_def)
qed

text \<open>
  \<open>try_alloc_block\<close> refines first fit: it changes nothing when no free block is large enough, and
  otherwise it always returns the block that first fit takes.
\<close>

lemma try_alloc_block_none:
  assumes ok: "cont_ok s c ps" and ff: "first_fit n (map (cdata (kblocks s)) ps) = None"
  shows "try_alloc_block s c n = Inr (0, s)"
proof -
  obtain k where k: "kconts s c = Some k" "bdll (kblocks s) (kc_block k) ps" by (rule cont_okE [OF ok])
  have "find (\<lambda>p. \<not> kb_used (the (kblocks s p)) \<and> n \<le> kb_size (the (kblocks s p))) ps = None"
    using ff unfolding first_fit_None find_None_iff by (auto simp: not_le)
  moreover have "kc_block k = hd (ps @ [0])" by (rule dll_start [OF k(2)])
  ultimately have "find_free_block (kblocks s) n (kc_block k) = Some (Inr 0)"
    using find_free_block_run [of "kblocks s" "kc_block k" "[]" ps n] k(2) by simp
  then show ?thesis using k(1) by (simp add: try_alloc_block_def)
qed

lemma try_alloc_block_some:
  assumes ok: "cont_ok s c ps" and ff: "first_fit n (map (cdata (kblocks s)) ps) = Some (b, xs)"
  obtains s' ps' where "try_alloc_block s c n = Inr (b, s')" and "b \<noteq> 0" and "cont_ok s' c ps'"
    and "map (cdata (kblocks s')) ps' = xs" and "cont_frame c s s'"
proof -
  let ?h = "kblocks s"
  obtain k where kc: "kconts s c = Some k" and d: "bdll ?h (kc_block k) ps"
    and own: "\<And>p. p \<in> set ps \<Longrightarrow> kb_container (the (?h p)) = c"
    and t: "tiled (unat c + 40) (cont_stop c k) (map (cdata ?h) ps)" and hi: "cont_stop c k + 64 < 2 ^ 64"
    and cnt: "kc_used_blocks k = of_nat (length (filter (\<lambda>x. snd (snd x)) (map (cdata ?h) ps)))"
    by (rule cont_okE [OF ok]) blast
  obtain as' a sz bs' where f: "map (cdata ?h) ps = as' @ (a, sz, False) # bs'" "n \<le> sz" "b = a"
    "\<forall>x \<in> set as'. snd (snd x) \<or> fst (snd x) < n" "xs = as' @ split_chunk n a sz @ bs'"
    using ff unfolding first_fit_split by blast
  then obtain as bs where p: "ps = as @ b # bs" "as' = map (cdata ?h) as" "bs' = map (cdata ?h) bs"
    "cdata ?h b = (b, sz, False)"
    unfolding map_eq_append_conv map_eq_Cons_conv by (auto simp: cdata_def)
  obtain w where w: "?h b = Some w" "kb_next w = hd (bs @ [0])" using dll_links [OF d [unfolded p(1)]] by blast
  have ws: "kb_size w = sz" "\<not> kb_used w" using p(4) w(1) by (simp_all add: cdata_def)
  have b0: "b \<noteq> 0" using dll_node [OF d, of b] p(1) by simp
  have "find (\<lambda>p. \<not> kb_used (the (?h p)) \<and> n \<le> kb_size (the (?h p))) (as @ b # bs) = Some b"
    using f(2,4) w(1) ws unfolding p(2) by (induction as) (auto simp: not_le)
  then have fb: "find_free_block ?h n (kc_block k) = Some (Inr b)"
    using find_free_block_run [of ?h "kc_block k" "[]" ps n] dll_start [OF d] d p(1) by simp
  have own_b: "kb_container w = c" using own [of b] w(1) p(1) by simp
  define nb where "nb = ROUNDUP (BLOCK_DATA b + n + sizeof_kblock) KHEAP_ALIGN_IN_BYTES - sizeof_kblock"
  let ?h' = "take_kblocks ?h b n w"
  let ?s' = "s\<lparr>kconts := (kconts s)(c \<mapsto> k\<lparr>kc_used_blocks := kc_used_blocks k + 1\<rparr>), kblocks := ?h'\<rparr>"
  have tb: "take_block s b n = Inr (b, ?s')"
  proof (cases "ROUNDUP (BLOCK_DATA b + n + sizeof_kblock) KHEAP_ALIGN_IN_BYTES \<ge> BLOCK_DATA b + kb_size w")
    case True
    then show ?thesis using w(1) own_b kc
      by (simp add: take_block_def set_kblock_def set_kcont_def Let_def take_kblocks_def)
  next
    case False
    have t': "tiled (unat c + 40) (cont_stop c k) (as' @ split_chunk n b (kb_size w) @ bs')"
      using tiled_split [OF t [unfolded f(1)] hi f(2)] f(3) ws by simp
    note sa = split_addr [OF t' False nb_def]
    have "fst ` set (as' @ bs') = set as \<union> set bs" by (simp add: p(2,3) image_Un image_image)
    then have "nb \<notin> set bs" using sa(2) by simp
    then have nn: "nb \<noteq> kb_next w" using w(2) sa(3) by (cases bs) auto
    obtain v where v: "kb_next w \<noteq> 0 \<Longrightarrow> ?h (kb_next w) = Some v" "kb_next w \<noteq> b"
      using dll_node [OF d, of "kb_next w"] w(2) p(1) dll_distinct [OF d] b0 by (cases bs) auto
    have kc': "kconts s (kb_container w) = Some k" using kc own_b by simp
    show ?thesis using take_block_run [where w = v, OF w(1) kc' v nb_def sa(1) nn] own_b by simp
  qed
  have "\<not> kb_used w" "n \<le> kb_size w" using ws f(2) by simp_all
  then obtain ps' where q: "bdll ?h' (kc_block k) ps'"
    "map (cdata ?h') ps' = map (cdata ?h) as @ split_chunk n b (kb_size w) @ map (cdata ?h) bs"
    "\<And>p. p \<in> set ps' \<Longrightarrow> kb_container (the (?h' p)) = c"
    "\<And>x. x \<notin> set (as @ b # bs) \<Longrightarrow> \<not> (unat c + 40 \<le> unat x \<and> unat x + 40 \<le> cont_stop c k) \<Longrightarrow> ?h' x = ?h x"
    using take_kblocks_list [OF d [unfolded p(1)] w(1) _ _ t [unfolded p(1)] hi own [unfolded p(1)], of n] by blast
  have xs: "map (cdata ?h') ps' = xs" using q(2) f(3,5) p(2,3) ws by simp
  have t': "tiled (unat c + 40) (cont_stop c k) xs"
    using tiled_split [OF t [unfolded f(1)] hi f(2)] f(5) by simp
  obtain m ys where sp: "split_chunk n a sz = (a, m, True) # ys" "\<forall>y \<in> set ys. \<not> snd (snd y)"
  proof -
    have "(a, sz, False) \<in> set (map (cdata ?h) ps)" using f(1) by simp
    from split_chunk_tiled(2) [OF tiled_member(3,2) [OF t this] hi f(2)] that show thesis by blast
  qed
  have "filter (\<lambda>x. snd (snd x)) ys = []" using sp(2) by (simp add: filter_empty_conv)
  then have "length (filter (\<lambda>x. snd (snd x)) xs) = Suc (length (filter (\<lambda>x. snd (snd x)) (map (cdata ?h) ps)))"
    unfolding f(1,5) sp(1) by simp
  then have "cont_ok ?s' c ps'" unfolding cont_ok_def used_count using q(1,3) xs t' hi cnt
    by (intro exI [of _ "k\<lparr>kc_used_blocks := kc_used_blocks k + 1\<rparr>"]) (simp add: cont_stop_def)
  moreover have "cont_frame c s ?s'"
    unfolding cont_frame_def
  proof (intro conjI exI allI impI)
    show "kconts s c = Some k" by (rule kc)
    fix x assume x: "\<not> in_cont c k x"
    have "x \<notin> set ps" using x cont_ok_in [OF t] by blast
    moreover have "\<not> (unat c + 40 \<le> unat x \<and> unat x + 40 \<le> cont_stop c k)" using x by (auto simp: in_cont_def)
    ultimately show "kblocks ?s' x = kblocks s x" using q(4) p(1) by simp
  qed simp_all
  moreover have "try_alloc_block s c n = Inr (b, ?s')" using kc fb b0 tb by (simp add: try_alloc_block_def)
  ultimately show thesis using that b0 xs by auto
qed

section \<open>The whole heap\<close>

abbreviation kdll :: "(u64 \<rightharpoonup> kcontainer) \<Rightarrow> u64 \<Rightarrow> u64 list \<Rightarrow> bool" where
  "kdll \<equiv> dll kc_next kc_prev"

text \<open>The containers are \<open>cs\<close>, in disjoint address ranges, and \<open>ps c\<close> are the blocks of \<open>c\<close>.\<close>

definition kheap_ok :: "'a kheap_state_scheme \<Rightarrow> u64 list \<Rightarrow> (u64 \<Rightarrow> u64 list) \<Rightarrow> bool" where
  "kheap_ok s cs ps \<longleftrightarrow> kdll (kconts s) (heap s) cs \<and> (\<forall>c \<in> set cs. cont_ok s c (ps c))
     \<and> (\<forall>c \<in> set cs. \<forall>d \<in> set cs. c \<noteq> d \<longrightarrow>
          cont_stop c (the (kconts s c)) \<le> unat d \<or> cont_stop d (the (kconts s d)) \<le> unat c)"

definition chunks :: "'a kheap_state_scheme \<Rightarrow> u64 list \<Rightarrow> chunk list" where
  "chunks s ps = map (cdata (kblocks s)) ps"

text \<open>The areas handed out: header address and size of every block in use.\<close>

definition allocated :: "'a kheap_state_scheme \<Rightarrow> u64 list \<Rightarrow> (u64 \<Rightarrow> u64 list) \<Rightarrow> (u64 \<times> u64) set" where
  "allocated s cs ps = (\<Union>c \<in> set cs. used_chunks (chunks s (ps c)))"

text \<open>A container whose header keeps its size, counter and first block and whose blocks are as they were.\<close>

lemma cont_ok_cong:
  assumes ok: "cont_ok s d qs" and k: "kconts s d = Some k" and k': "kconts s' d = Some k'" "kc_size k' = kc_size k"
      "kc_block k' = kc_block k" "kc_used_blocks k' = kc_used_blocks k"
    and same: "\<And>p. p \<in> set qs \<Longrightarrow> kblocks s' p = kblocks s p"
  shows "cont_ok s' d qs" and "chunks s' qs = chunks s qs"
    and "cont_stop d (the (kconts s' d)) = cont_stop d (the (kconts s d))"
proof -
  obtain l where l: "kconts s d = Some l" "bdll (kblocks s) (kc_block l) qs"
    "\<And>p. p \<in> set qs \<Longrightarrow> kb_container (the (kblocks s p)) = d"
    "tiled (unat d + 40) (cont_stop d l) (map (cdata (kblocks s)) qs)" "cont_stop d l + 64 < 2 ^ 64"
    "kc_used_blocks l = of_nat (length (filter (\<lambda>x. snd (snd x)) (map (cdata (kblocks s)) qs)))"
    by (rule cont_okE [OF ok]) blast
  have lk: "l = k" using l(1) k by simp
  have mc: "map (cdata (kblocks s')) qs = map (cdata (kblocks s)) qs" using same by (simp add: cdata_def)
  then show "chunks s' qs = chunks s qs" by (simp add: chunks_def)
  have st: "cont_stop d k' = cont_stop d k" by (simp add: cont_stop_def k'(2))
  then show "cont_stop d (the (kconts s' d)) = cont_stop d (the (kconts s d))" using k k'(1) by simp
  have "bdll (kblocks s') (kc_block k) qs" using dll_frame [OF same l(2)] lk by simp
  then show "cont_ok s' d qs"
    unfolding cont_ok_def used_count mc using l same k' st unfolding lk by (intro exI [of _ k']) simp
qed

lemma cont_ok_other:
  assumes ok: "cont_ok s d qs" and fr: "cont_frame c s s'" and ne: "c \<noteq> d"
    and dj: "cont_stop c (the (kconts s c)) \<le> unat d \<or> cont_stop d (the (kconts s d)) \<le> unat c"
  shows "cont_ok s' d qs" and "chunks s' qs = chunks s qs" and "kconts s' d = kconts s d"
proof -
  obtain k where k: "kconts s d = Some k" "bdll (kblocks s) (kc_block k) qs"
    "\<And>p. p \<in> set qs \<Longrightarrow> kb_container (the (kblocks s p)) = d"
    "tiled (unat d + 40) (cont_stop d k) (map (cdata (kblocks s)) qs)" "cont_stop d k + 64 < 2 ^ 64"
    "kc_used_blocks k = of_nat (length (filter (\<lambda>x. snd (snd x)) (map (cdata (kblocks s)) qs)))"
    by (rule cont_okE [OF ok]) blast
  obtain kc n where f: "kconts s c = Some kc" "kconts s' = (kconts s)(c \<mapsto> kc\<lparr>kc_used_blocks := n\<rparr>)"
    "\<And>q. \<not> in_cont c kc q \<Longrightarrow> kblocks s' q = kblocks s q"
    using fr unfolding cont_frame_def by blast
  have same: "kblocks s' p = kblocks s p" if "p \<in> set qs" for p
  proof (rule f(3))
    have "in_cont d k p" by (rule cont_ok_in [OF k(4) that])
    then show "\<not> in_cont c kc p" using dj k(1) f(1) by (auto simp: in_cont_def)
  qed
  have mc: "map (cdata (kblocks s')) qs = map (cdata (kblocks s)) qs" using same by (simp add: cdata_def)
  then show "chunks s' qs = chunks s qs" by (simp add: chunks_def)
  show kd: "kconts s' d = kconts s d" using f(2) ne by simp
  have "bdll (kblocks s') (kc_block k) qs" by (rule dll_frame [OF _ k(2)]) (rule same)
  then show "cont_ok s' d qs" unfolding cont_ok_def used_count mc using k same kd by (intro exI [of _ k]) simp
qed

lemma cont_frame_stop:
  assumes "cont_frame c s s'"
  shows "cont_stop d (the (kconts s' d)) = cont_stop d (the (kconts s d))"
  using assms unfolding cont_frame_def by (auto simp: cont_stop_def)

text \<open>An operation on one container keeps the rest of the heap.\<close>

lemma kheap_ok_step:
  assumes ok: "kheap_ok s cs ps" and c: "c \<in> set cs" and fr: "cont_frame c s s'" and ok': "cont_ok s' c qs"
  shows "kheap_ok s' cs (ps(c := qs))"
    and "d \<in> set cs \<Longrightarrow> d \<noteq> c \<Longrightarrow> chunks s' (ps d) = chunks s (ps d)"
proof -
  have other: "cont_ok s' d (ps d)" "chunks s' (ps d) = chunks s (ps d)" if "d \<in> set cs" "d \<noteq> c" for d
  proof -
    have d: "cont_ok s d (ps d)" "cont_stop c (the (kconts s c)) \<le> unat d \<or> cont_stop d (the (kconts s d)) \<le> unat c"
      using ok that c unfolding kheap_ok_def by blast+
    then show "cont_ok s' d (ps d)" "chunks s' (ps d) = chunks s (ps d)"
      using cont_ok_other [OF d(1) fr] that(2) by blast+
  qed
  show "d \<in> set cs \<Longrightarrow> d \<noteq> c \<Longrightarrow> chunks s' (ps d) = chunks s (ps d)" by (rule other(2))
  have hs: "heap s' = heap s"
  proof -
    have "s' = s\<lparr>kconts := kconts s', kblocks := kblocks s'\<rparr>" using fr unfolding cont_frame_def by blast
    then show ?thesis by (metis kheap_state.simps(3) kheap_state.select_convs(3) kheap_state.update_convs(1,2) kheap_state.surjective)
  qed
  have "kdll (kconts s') (heap s') cs"
    unfolding hs
  proof (rule dll_cong)
    show "kdll (kconts s) (heap s) cs" using ok unfolding kheap_ok_def by blast
    fix a v assume "kconts s a = Some v"
    then show "\<exists>v'. kconts s' a = Some v' \<and> kc_next v' = kc_next v \<and> kc_prev v' = kc_prev v"
      using fr unfolding cont_frame_def by auto
  qed
  moreover have "cont_ok s' d ((ps(c := qs)) d)" if "d \<in> set cs" for d using ok' other(1) [OF that] by simp
  ultimately show "kheap_ok s' cs (ps(c := qs))"
    using ok unfolding kheap_ok_def cont_frame_stop [OF fr] by blast
qed

lemma kmalloc_scan_none:
  assumes ok: "kheap_ok s cs ps" and none: "\<And>c. c \<in> set cs \<Longrightarrow> first_fit n (chunks s (ps c)) = None"
  shows "kmalloc_scan s n (heap s) = Some (Inr (0, s))"
proof -
  have d: "kdll (kconts s) (heap s) cs" and co: "\<And>c. c \<in> set cs \<Longrightarrow> cont_ok s c (ps c)"
    using ok unfolding kheap_ok_def by blast+
  have "as @ ds = cs \<Longrightarrow> kmalloc_scan s n (hd (ds @ [0])) = Some (Inr (0, s))" for as ds
  proof (induction ds arbitrary: as)
    case Nil
    then show ?case by (simp add: kmalloc_scan.simps)
  next
    case (Cons c ds)
    have c: "c \<in> set cs" "c \<noteq> 0" using Cons.prems dll_node [OF d, of c] by auto
    obtain k where k: "kconts s c = Some k" "kc_next k = hd (ds @ [0])"
      using dll_links [of kc_next kc_prev "kconts s" "heap s" as c ds] d Cons.prems by auto
    have "try_alloc_block s c n = Inr (0, s)"
      by (rule try_alloc_block_none [OF co [OF c(1)]]) (use none [OF c(1)] in \<open>simp add: chunks_def\<close>)
    moreover have "kmalloc_scan s n (hd (ds @ [0])) = Some (Inr (0, s))"
      by (rule Cons.IH [of "as @ [c]"]) (use Cons.prems in simp)
    ultimately show ?case using c(2) k by (simp add: kmalloc_scan.simps [of s n c])
  qed
  from this [of "[]" cs] show ?thesis using dll_start [OF d] by simp
qed

lemma kmalloc_scan_some:
  assumes ok: "kheap_ok s cs ps" and fit: "c \<in> set cs" "first_fit n (chunks s (ps c)) \<noteq> None"
  obtains c' b xs s' qs where "kmalloc_scan s n (heap s) = Some (Inr (b, s'))" and "b \<noteq> 0" and "c' \<in> set cs"
    and "first_fit n (chunks s (ps c')) = Some (b, xs)" and "cont_ok s' c' qs" and "chunks s' qs = xs" and "cont_frame c' s s'"
proof -
  have d: "kdll (kconts s) (heap s) cs" and co: "\<And>c. c \<in> set cs \<Longrightarrow> cont_ok s c (ps c)"
    using ok unfolding kheap_ok_def by blast+
  have "as @ ds = cs \<Longrightarrow> \<exists>c \<in> set ds. first_fit n (chunks s (ps c)) \<noteq> None \<Longrightarrow>
    \<exists>c' \<in> set cs. \<exists>b xs s' qs. kmalloc_scan s n (hd (ds @ [0])) = Some (Inr (b, s')) \<and> b \<noteq> 0
      \<and> first_fit n (chunks s (ps c')) = Some (b, xs) \<and> cont_ok s' c' qs \<and> chunks s' qs = xs \<and> cont_frame c' s s'" for as ds
  proof (induction ds arbitrary: as)
    case (Cons c ds)
    have c: "c \<in> set cs" "c \<noteq> 0" using Cons.prems dll_node [OF d, of c] by auto
    show ?case
    proof (cases "first_fit n (chunks s (ps c))")
      case None
      obtain k where k: "kconts s c = Some k" "kc_next k = hd (ds @ [0])"
        using dll_links [of kc_next kc_prev "kconts s" "heap s" as c ds] d Cons.prems by auto
      have "try_alloc_block s c n = Inr (0, s)"
        by (rule try_alloc_block_none [OF co [OF c(1)]]) (use None in \<open>simp add: chunks_def\<close>)
      then have "kmalloc_scan s n c = kmalloc_scan s n (hd (ds @ [0]))"
        using c(2) k by (simp add: kmalloc_scan.simps [of s n c])
      moreover have "\<exists>c \<in> set ds. first_fit n (chunks s (ps c)) \<noteq> None" using Cons.prems(2) None by auto
      ultimately show ?thesis using Cons.IH [of "as @ [c]"] Cons.prems(1) by simp
    next
      case (Some r)
      obtain b xs where bx: "first_fit n (chunks s (ps c)) = Some (b, xs)" using Some by (cases r) auto
      obtain s' qs where t: "try_alloc_block s c n = Inr (b, s')" "b \<noteq> 0" "cont_ok s' c qs"
        "map (cdata (kblocks s')) qs = xs" "cont_frame c s s'"
        by (rule try_alloc_block_some [OF co [OF c(1)] bx [unfolded chunks_def]])
      have "kmalloc_scan s n c = Some (Inr (b, s'))" using t(1,2) c(2) by (simp add: kmalloc_scan.simps [of s n c])
      then show ?thesis using t bx c(1)
        by (intro bexI [of _ c] exI [of _ b] exI [of _ xs] exI [of _ s'] exI [of _ qs]) (simp_all add: chunks_def)
    qed
  qed simp
  from this [of "[]" cs] fit obtain c' b xs s' qs where "c' \<in> set cs"
    "kmalloc_scan s n (hd (cs @ [0])) = Some (Inr (b, s'))" "b \<noteq> 0" "first_fit n (chunks s (ps c')) = Some (b, xs)"
    "cont_ok s' c' qs" "chunks s' qs = xs" "cont_frame c' s s'" by blast
  then show thesis using that dll_start [OF d] by simp
qed

lemma used_chunks_split:
  assumes "split_chunk n b sz = (b, m, True) # ys" and "\<forall>y \<in> set ys. \<not> snd (snd y)"
  shows "used_chunks (as @ split_chunk n b sz @ bs) = insert (b, m) (used_chunks (as @ (b, sz, False) # bs))"
  using assms unfolding used_chunks_def by auto

lemma first_fit_spec:
  assumes t: "tiled lo hi xs" and hi: "hi + 64 < 2 ^ 64" and ff: "first_fit n xs = Some (b, ys)"
  obtains m where "n \<le> m" and "tiled lo hi ys" and "used_chunks ys = insert (b, m) (used_chunks xs)"
    and "(b, m, True) \<in> set ys" and "\<And>x. x \<in> used_chunks xs \<Longrightarrow> data_bytes x \<inter> data_bytes (b, m) = {}"
proof -
  obtain as sz bs where f: "xs = as @ (b, sz, False) # bs" "n \<le> sz" "ys = as @ split_chunk n b sz @ bs"
    using ff unfolding first_fit_split by blast
  have ty: "tiled lo hi ys" using tiled_split [OF t [unfolded f(1)] hi f(2)] f(3) by simp
  have "(b, sz, False) \<in> set xs" using f(1) by simp
  note tm = tiled_member(3,2) [OF t this]
  obtain m zs where sp: "split_chunk n b sz = (b, m, True) # zs" "n \<le> m" "\<forall>y \<in> set zs. \<not> snd (snd y)"
    using split_chunk_tiled(2) [OF tm hi f(2)] by blast
  have uc: "used_chunks ys = insert (b, m) (used_chunks xs)"
    using used_chunks_split [OF sp(1,3)] f(1,3) by simp
  have dj: "data_bytes x \<inter> data_bytes (b, m) = {}" if "x \<in> used_chunks xs" for x
  proof -
    have "(fst x, snd x, True) \<in> set (as @ (zs @ bs))" using that f(1) by (auto simp: used_chunks_def)
    moreover have "tiled lo hi (as @ (b, m, True) # (zs @ bs))" using ty f(3) sp(1) by simp
    ultimately show ?thesis using tiled_disjoint(1) [of lo hi as b m True "zs @ bs" "fst x" "snd x" True] by simp
  qed
  show thesis by (rule that [OF sp(2) ty uc _ dj]) (use f(3) sp(1) in simp_all)
qed

lemma cont_ok_area:
  assumes "cont_ok s c ps" and "x \<in> used_chunks (chunks s ps)"
  shows "data_bytes x \<subseteq> {unat c..<cont_stop c (the (kconts s c))}" and "16 dvd unat (BLOCK_DATA (fst x))"
proof -
  obtain k where k: "kconts s c = Some k" "tiled (unat c + 40) (cont_stop c k) (map (cdata (kblocks s)) ps)"
    "cont_stop c k + 64 < 2 ^ 64" by (rule cont_okE [OF assms(1)])
  have "(fst x, snd x, True) \<in> set (map (cdata (kblocks s)) ps)"
    using assms(2) by (auto simp: used_chunks_def chunks_def)
  note tm = tiled_member [OF k(2) this]
  show "data_bytes x \<subseteq> {unat c..<cont_stop c (the (kconts s c))}" using tm k(1) by (auto simp: data_bytes_def)
  have "unat (BLOCK_DATA (fst x)) = unat (fst x) + 40" by (rule unat_block_data [of _ 0]) (use tm k(3) in simp)
  then show "16 dvd unat (BLOCK_DATA (fst x))" using tm by simp
qed

lemma allocated_upd:
  assumes c: "c \<in> set cs" and other: "\<And>d. d \<in> set cs \<Longrightarrow> d \<noteq> c \<Longrightarrow> chunks s' (ps d) = chunks s (ps d)"
  shows "allocated s' cs (ps(c := qs)) = used_chunks (chunks s' qs) \<union> (\<Union>d \<in> set cs - {c}. used_chunks (chunks s (ps d)))"
    and "allocated s cs ps = used_chunks (chunks s (ps c)) \<union> (\<Union>d \<in> set cs - {c}. used_chunks (chunks s (ps d)))"
proof -
  have un: "(\<Union>d \<in> set cs. f d) = f c \<union> (\<Union>d \<in> set cs - {c}. f d)" for f :: "u64 \<Rightarrow> (u64 \<times> u64) set"
    using c by blast
  have "allocated s' cs (ps(c := qs)) = used_chunks (chunks s' qs) \<union> (\<Union>d \<in> set cs - {c}. used_chunks (chunks s' ((ps(c := qs)) d)))"
    unfolding allocated_def using un [of "\<lambda>d. used_chunks (chunks s' ((ps(c := qs)) d))"] by simp
  also have "(\<Union>d \<in> set cs - {c}. used_chunks (chunks s' ((ps(c := qs)) d))) = (\<Union>d \<in> set cs - {c}. used_chunks (chunks s (ps d)))"
    using other by (intro SUP_cong) auto
  finally show "allocated s' cs (ps(c := qs)) = used_chunks (chunks s' qs) \<union> (\<Union>d \<in> set cs - {c}. used_chunks (chunks s (ps d)))" .
  show "allocated s cs ps = used_chunks (chunks s (ps c)) \<union> (\<Union>d \<in> set cs - {c}. used_chunks (chunks s (ps d)))"
    unfolding allocated_def by (rule un)
qed

text \<open>Areas of different containers do not meet.\<close>

lemma containers_apart:
  assumes ok: "kheap_ok s cs ps" and cd: "c \<in> set cs" "d \<in> set cs" "c \<noteq> d"
    and x: "x \<in> used_chunks (chunks s (ps d))" and y: "y \<subseteq> {unat c..<cont_stop c (the (kconts s c))}"
  shows "data_bytes x \<inter> y = {}"
proof -
  have co: "cont_ok s d (ps d)" using ok cd(2) unfolding kheap_ok_def by blast
  have "cont_stop c (the (kconts s c)) \<le> unat d \<or> cont_stop d (the (kconts s d)) \<le> unat c"
    using ok cd unfolding kheap_ok_def by blast
  then have "{unat c..<cont_stop c (the (kconts s c))} \<inter> {unat d..<cont_stop d (the (kconts s d))} = {}" by auto
  then show ?thesis using cont_ok_area(1) [OF co x] y by blast
qed

text \<open>Allocation from a block of some container.\<close>

lemma alloc_step:
  assumes ok: "kheap_ok s cs ps" and c: "c \<in> set cs" and ff: "first_fit n (chunks s (ps c)) = Some (b, xs)"
    and ok': "cont_ok s' c qs" and xs: "chunks s' qs = xs" and fr: "cont_frame c s s'"
  obtains m where "kheap_ok s' cs (ps(c := qs))" and "n \<le> m" and "16 dvd unat (BLOCK_DATA b)"
    and "allocated s' cs (ps(c := qs)) = insert (b, m) (allocated s cs ps)"
    and "\<And>x. x \<in> allocated s cs ps \<Longrightarrow> data_bytes x \<inter> data_bytes (b, m) = {}"
    and "data_bytes (b, m) \<subseteq> {unat c..<cont_stop c (the (kconts s c))}"
proof -
  note st = kheap_ok_step [OF ok c fr ok']
  have co: "cont_ok s c (ps c)" using ok c unfolding kheap_ok_def by blast
  obtain k where k: "kconts s c = Some k" "tiled (unat c + 40) (cont_stop c k) (chunks s (ps c))"
    "cont_stop c k + 64 < 2 ^ 64" by (rule cont_okE [OF co]) (simp add: chunks_def)
  obtain m where m: "n \<le> m" "used_chunks xs = insert (b, m) (used_chunks (chunks s (ps c)))" "(b, m, True) \<in> set xs"
    "\<And>x. x \<in> used_chunks (chunks s (ps c)) \<Longrightarrow> data_bytes x \<inter> data_bytes (b, m) = {}"
    by (rule first_fit_spec [OF k(2,3) ff]) blast
  have bm: "(b, m) \<in> used_chunks (chunks s' qs)" using m(2) xs by simp
  note area = cont_ok_area [OF ok' bm]
  have sub: "data_bytes (b, m) \<subseteq> {unat c..<cont_stop c (the (kconts s c))}"
    using area(1) cont_frame_stop [OF fr, of c] by simp
  note al = allocated_upd(1) [where s = s and s' = s' and ps = ps and qs = qs, OF c st(2)]
    allocated_upd(2) [where s = s and s' = s' and ps = ps, OF c st(2)]
  show thesis
  proof (rule that [OF st(1) m(1)])
    show "16 dvd unat (BLOCK_DATA b)" using area(2) by simp
    show "allocated s' cs (ps(c := qs)) = insert (b, m) (allocated s cs ps)" using al m(2) xs by simp
    fix x assume "x \<in> allocated s cs ps"
    then consider "x \<in> used_chunks (chunks s (ps c))" | d where "d \<in> set cs" "d \<noteq> c" "x \<in> used_chunks (chunks s (ps d))"
      unfolding allocated_def by blast
    then show "data_bytes x \<inter> data_bytes (b, m) = {}"
      by cases (use m(4) containers_apart [OF ok c _ _ _ sub] in blast)+
  next
    show "data_bytes (b, m) \<subseteq> {unat c..<cont_stop c (the (kconts s c))}" by (rule sub)
  qed
qed

text \<open>Addresses that no allocation hands out: outside the containers, or in an area in use.\<close>

definition heap_kept :: "'a kheap_state_scheme \<Rightarrow> u64 list \<Rightarrow> (u64 \<Rightarrow> u64 list) \<Rightarrow> u64 \<Rightarrow> bool" where
  "heap_kept s cs ps a \<longleftrightarrow> (\<forall>c \<in> set cs. unat a \<notin> {unat c..<cont_stop c (the (kconts s c))})
     \<or> (\<exists>x \<in> allocated s cs ps. unat a \<in> data_bytes x)"

lemma allocated_area:
  assumes ok: "kheap_ok s cs ps" and b: "(b, m) \<in> allocated s cs ps"
  shows "unat (BLOCK_DATA b) = unat b + 40" and "unat b + 40 + unat m + 64 < 2 ^ 64" and "16 dvd unat (BLOCK_DATA b)"
    and "kb_used (the (kblocks s b))" and "kb_size (the (kblocks s b)) = m"
proof -
  obtain d where d: "cont_ok s d (ps d)" "(b, m) \<in> used_chunks (chunks s (ps d))"
    using assms unfolding allocated_def kheap_ok_def by blast
  obtain l where l: "kconts s d = Some l" "cont_stop d l + 64 < 2 ^ 64" "tiled (unat d + 40) (cont_stop d l) (chunks s (ps d))"
    by (rule cont_okE [OF d(1)]) (auto simp: chunks_def)
  have mem: "(b, m, True) \<in> set (chunks s (ps d))" using d(2) by (simp add: used_chunks_def)
  note tm = tiled_member [OF l(3) mem]
  show "unat (BLOCK_DATA b) = unat b + 40" by (rule unat_block_data [of _ 0]) (use tm l(2) in simp)
  show "unat b + 40 + unat m + 64 < 2 ^ 64" using tm l(2) by simp
  show "16 dvd unat (BLOCK_DATA b)" using cont_ok_area(2) [OF d] by simp
  show "kb_used (the (kblocks s b))" "kb_size (the (kblocks s b)) = m" using mem by (auto simp: chunks_def cdata_def)
qed

lemma allocated_disjoint:
  assumes ok: "kheap_ok s cs ps" and x: "x \<in> allocated s cs ps" and y: "y \<in> allocated s cs ps" and ne: "x \<noteq> y"
  shows "data_bytes x \<inter> data_bytes y = {}"
proof -
  obtain c where c: "c \<in> set cs" "x \<in> used_chunks (chunks s (ps c))" using x unfolding allocated_def by blast
  obtain d where d: "d \<in> set cs" "y \<in> used_chunks (chunks s (ps d))" using y unfolding allocated_def by blast
  have cd: "cont_ok s d (ps d)" using ok d(1) unfolding kheap_ok_def by blast
  show ?thesis
  proof (cases "c = d")
    case False
    then show ?thesis using containers_apart [OF ok d(1) c(1) _ c(2) cont_ok_area(1) [OF cd d(2)]] by auto
  next
    case True
    obtain l where l: "tiled (unat d + 40) (cont_stop d l) (chunks s (ps d))"
      by (rule cont_okE [OF cd]) (auto simp: chunks_def)
    have m: "(fst x, snd x, True) \<in> set (chunks s (ps d))" "(fst y, snd y, True) \<in> set (chunks s (ps d))"
      using c(2) d(2) True by (auto simp: used_chunks_def)
    obtain as bs where s: "chunks s (ps d) = as @ (fst y, snd y, True) # bs" using split_list [OF m(2)] by blast
    have "(fst x, snd x, True) \<in> set (as @ bs)" using m(1) s ne by (auto simp: prod_eq_iff)
    from tiled_disjoint(1) [OF l [unfolded s] this] show ?thesis by simp
  qed
qed

lemma kmalloc_area:
  assumes ok: "kheap_ok s cs ps" and c: "c \<in> set cs" and free: "(a, sz, False) \<in> set (chunks s (ps c))" "n \<le> sz"
  obtains b m s' ps' c' where "kmalloc s n = Inr (BLOCK_DATA b, s')" and "kheap_ok s' cs ps'" and "n \<le> m"
    and "16 dvd unat (BLOCK_DATA b)" and "allocated s' cs ps' = insert (b, m) (allocated s cs ps)"
    and "\<And>x. x \<in> allocated s cs ps \<Longrightarrow> data_bytes x \<inter> data_bytes (b, m) = {}"
    and "s' = s\<lparr>kconts := kconts s', kblocks := kblocks s'\<rparr>" and "unat (BLOCK_DATA b) + unat m + 64 < 2 ^ 64"
    and "\<And>x. heap_kept s cs ps x \<Longrightarrow> \<not> (unat (BLOCK_DATA b) \<le> unat x \<and> unat x < unat (BLOCK_DATA b) + unat n)"
    and "BLOCK_DATA b \<noteq> 0" and "cont_frame c' s s'"
proof -
  have ff: "first_fit n (chunks s (ps c)) \<noteq> None" using free unfolding first_fit_None by force
  obtain c' b xs s' qs where sc: "kmalloc_scan s n (heap s) = Some (Inr (b, s'))" "b \<noteq> 0" "c' \<in> set cs"
    "first_fit n (chunks s (ps c')) = Some (b, xs)" "cont_ok s' c' qs" "chunks s' qs = xs" "cont_frame c' s s'"
    by (rule kmalloc_scan_some [OF ok c ff])
  obtain m where m: "kheap_ok s' cs (ps(c' := qs))" "n \<le> m" "16 dvd unat (BLOCK_DATA b)"
    "allocated s' cs (ps(c' := qs)) = insert (b, m) (allocated s cs ps)"
    "\<And>x. x \<in> allocated s cs ps \<Longrightarrow> data_bytes x \<inter> data_bytes (b, m) = {}"
    "data_bytes (b, m) \<subseteq> {unat c'..<cont_stop c' (the (kconts s c'))}"
    by (rule alloc_step [OF ok sc(3-7)]) blast
  have bm: "(b, m) \<in> allocated s' cs (ps(c' := qs))" using m(4) by simp
  note ar = allocated_area [OF m(1) bm]
  show thesis
  proof (rule that [of b s' "ps(c' := qs)" m c'])
    show "kmalloc s n = Inr (BLOCK_DATA b, s')" using sc(1,2) by (simp add: kmalloc_def)
    show "s' = s\<lparr>kconts := kconts s', kblocks := kblocks s'\<rparr>" using sc(7) unfolding cont_frame_def by blast
    show "unat (BLOCK_DATA b) + unat m + 64 < 2 ^ 64" using ar by simp
    show "BLOCK_DATA b \<noteq> 0" using ar(1) by (auto simp: unat_eq_0 [symmetric])
    show "cont_frame c' s s'" by (rule sc(7))
    fix x assume "heap_kept s cs ps x"
    then have "unat x \<notin> data_bytes (b, m)" using m(5,6) sc(3) unfolding heap_kept_def by blast
    then show "\<not> (unat (BLOCK_DATA b) \<le> unat x \<and> unat x < unat (BLOCK_DATA b) + unat n)"
      using ar(1) m(2) by (auto simp: data_bytes_def word_le_nat_alt)
  qed (use m in auto)
qed

section \<open>A small heap\<close>

text \<open>One container of five pages at \<open>0x10000\<close> with two blocks in use and the rest free.\<close>

definition kheap0 :: kheap_state where
  "kheap0 = vmm_state.extend vmm0 (kheap_state.fields
     [0x10000 \<mapsto> \<lparr>kc_size = 0x4fd8, kc_used_blocks = 2, kc_prev = 0, kc_next = 0, kc_block = 0x10028\<rparr>]
     [0x10028 \<mapsto> \<lparr>kb_size = 0x20, kb_used = True, kb_prev = 0, kb_next = 0x10078, kb_container = 0x10000\<rparr>,
      0x10078 \<mapsto> \<lparr>kb_size = 0x50, kb_used = True, kb_prev = 0x10028, kb_next = 0x100f8, kb_container = 0x10000\<rparr>,
      0x100f8 \<mapsto> \<lparr>kb_size = 0x4ee0, kb_used = False, kb_prev = 0x10078, kb_next = 0, kb_container = 0x10000\<rparr>]
     0x10000)"

definition blocks0 :: "u64 \<Rightarrow> u64 list" where
  "blocks0 = (\<lambda>_. [0x10028, 0x10078, 0x100f8])"

lemma kheap0_chunks: "chunks kheap0 (blocks0 c) = [(0x10028, 0x20, True), (0x10078, 0x50, True), (0x100f8, 0x4ee0, False)]"
  by (simp add: chunks_def blocks0_def cdata_def kheap0_def vmm_state.defs kheap_state.defs)

lemma kheap0_ok: "kheap_ok kheap0 [0x10000] blocks0"
proof -
  have "cont_ok kheap0 0x10000 (blocks0 0x10000)"
    unfolding cont_ok_def blocks0_def
    by (simp add: kheap0_def vmm_state.defs kheap_state.defs dll_def cont_stop_def cdata_def)
  then show ?thesis
    by (simp add: kheap_ok_def) (simp add: kheap0_def vmm_state.defs kheap_state.defs dll_def)
qed

section \<open>Allocation: properties\<close>

text \<open>
  C12. As long as some container has a free block of the requested size, \<^verbatim>\<open>kmalloc\<close> returns: the address
  is a multiple of 16, the area behind it is at least as large as asked for and meets no area
  handed out before, all other areas stay as they are, and the invariant of the heap (linked
  blocks that tile their containers, correct counters) holds again.
\<close>

theorem kmalloc_fresh_area:
  assumes ok: "kheap_ok s cs ps" and c: "c \<in> set cs" and free: "(a, sz, False) \<in> set (chunks s (ps c))" "n \<le> sz"
  shows "\<exists>b m s' ps'. kmalloc s n = Inr (BLOCK_DATA b, s') \<and> kheap_ok s' cs ps' \<and> n \<le> m
    \<and> 16 dvd unat (BLOCK_DATA b) \<and> allocated s' cs ps' = insert (b, m) (allocated s cs ps)
    \<and> (\<forall>x \<in> allocated s cs ps. data_bytes x \<inter> data_bytes (b, m) = {})"
proof -
  obtain b m s' ps' where "kmalloc s n = Inr (BLOCK_DATA b, s')" "kheap_ok s' cs ps'" "n \<le> m"
    "16 dvd unat (BLOCK_DATA b)" "allocated s' cs ps' = insert (b, m) (allocated s cs ps)"
    "\<And>x. x \<in> allocated s cs ps \<Longrightarrow> data_bytes x \<inter> data_bytes (b, m) = {}"
    by (rule kmalloc_area [OF assms]) blast
  then show ?thesis by blast
qed

theorem kmalloc_fresh_area_witness:
  "\<exists>b m s' ps'. kmalloc kheap0 100 = Inr (BLOCK_DATA b, s') \<and> kheap_ok s' [0x10000] ps'
    \<and> allocated s' [0x10000] ps' = insert (b, m) (allocated kheap0 [0x10000] blocks0)"
proof -
  have "(0x100f8, 0x4ee0, False) \<in> set (chunks kheap0 (blocks0 0x10000))" by (simp add: kheap0_chunks)
  from kmalloc_fresh_area [OF kheap0_ok _ this, of 100] show ?thesis by auto
qed

text \<open>
  C14. \<^verbatim>\<open>try_alloc_block\<close> is first fit: on a well-formed container it always returns, the null block and
  an unchanged state exactly when no free block is large enough, and otherwise the block first
  fit selects, split as the abstract list splits it.
\<close>

theorem try_alloc_block_first_fit:
  assumes ok: "cont_ok s c ps"
  shows "case first_fit n (chunks s ps) of
      None \<Rightarrow> try_alloc_block s c n = Inr (0, s)
    | Some (b, xs) \<Rightarrow> \<exists>s' ps'. try_alloc_block s c n = Inr (b, s') \<and> cont_ok s' c ps' \<and> chunks s' ps' = xs
        \<and> cont_frame c s s'"
proof (cases "first_fit n (chunks s ps)")
  case None
  then show ?thesis using try_alloc_block_none [OF ok] by (simp add: chunks_def)
next
  case (Some r)
  obtain b xs where r: "r = (b, xs)" by (metis prod.collapse)
  obtain s' ps' where "try_alloc_block s c n = Inr (b, s')" "cont_ok s' c ps'" "map (cdata (kblocks s')) ps' = xs"
    "cont_frame c s s'" by (rule try_alloc_block_some [OF ok Some [unfolded r chunks_def]])
  then show ?thesis unfolding Some r by (auto simp: chunks_def)
qed

theorem try_alloc_block_first_fit_witness:
  "\<exists>s' ps'. try_alloc_block kheap0 0x10000 0x100 = Inr (0x100f8, s') \<and> cont_ok s' 0x10000 ps'
    \<and> chunks s' ps' = [(0x10028, 0x20, True), (0x10078, 0x50, True), (0x100f8, 0x100, True), (0x10228, 0x4db0, False)]"
proof -
  have co: "cont_ok kheap0 0x10000 (blocks0 0x10000)" using kheap0_ok by (simp add: kheap_ok_def)
  have "first_fit 0x100 (chunks kheap0 (blocks0 0x10000)) = Some (0x100f8,
    [(0x10028, 0x20, True), (0x10078, 0x50, True), (0x100f8, 0x100, True), (0x10228, 0x4db0, False)])"
    by (simp add: kheap0_chunks split_chunk_def BLOCK_DATA_def ROUNDUP_def const_defs Let_def)
  with try_alloc_block_first_fit [OF co, of "0x100"] show ?thesis by auto
qed

end
