(* ===== verification/Kfree.thy ===== *)
theory Kfree
  imports Kheap
begin

text \<open>
  Release of heap blocks (\<^verbatim>\<open>kfree\<close> of \<^verbatim>\<open>kernel/mm/kheap.c\<close>): what merging does to the list of chunks,
  when the heap invariant survives, and when it does not.
\<close>

section \<open>Absorbing a free block\<close>

text \<open>The heap in which the block at \<open>p\<close> has absorbed its successor \<open>q\<close>.\<close>

definition absorb :: "(u64 \<rightharpoonup> kblock) \<Rightarrow> u64 \<Rightarrow> u64 \<Rightarrow> u64 \<rightharpoonup> kblock" where
  "absorb h p q = (let v = the (h q) in (\<lambda>x. map_option (\<lambda>r. r\<lparr>
     kb_size := (if x = p then kb_size r + (kb_size v + 40) else kb_size r),
     kb_prev := (if kb_next v \<noteq> 0 \<and> x = kb_next v then p else kb_prev r),
     kb_next := (if x = p then kb_next v else kb_next r)\<rparr>) (h x)))"

lemma absorb_list:
  assumes d: "bdll h st (as @ p # q # bs)" and w: "h p = Some w" and v: "h q = Some v"
  shows "bdll (absorb h p q) st (as @ p # bs)"
    and "map (cdata (absorb h p q)) (as @ p # bs) = map (cdata h) as @ (p, kb_size w + (kb_size v + 40), kb_used w) # map (cdata h) bs"
    and "x \<in> set (as @ p # bs) \<Longrightarrow> kb_container (the (absorb h p q x)) = kb_container (the (h x))"
    and "x \<notin> set (as @ p # q # bs) \<Longrightarrow> absorb h p q x = h x"
proof -
  have dist: "p \<noteq> q" "p \<notin> set as" "p \<notin> set bs" "q \<notin> set as" "q \<notin> set bs" using dll_distinct [OF d] by auto
  have d': "bdll h st ((as @ [p]) @ q # bs)" using d by simp
  have vn: "kb_next v = hd (bs @ [0])" using dll_links [OF d'] v by auto
  have hdb: "kb_next v \<noteq> 0 \<and> x = kb_next v \<longleftrightarrow> bs \<noteq> [] \<and> x = hd bs" for x
    using vn dll_node [OF d, of "hd bs"] by (cases bs) auto
  have node: "\<exists>r. h x = Some r" if "x \<in> set (as @ p # bs)" for x using dll_node [OF d, of x] that by auto
  have "bdll (absorb h p q) (if as @ [p] = [] then hd (bs @ [0]) else st) ((as @ [p]) @ bs)"
  proof (rule dll_remove [OF d'])
    fix x r assume x: "x \<in> set ((as @ [p]) @ bs)" "h x = Some r"
    then have "x \<noteq> q" using dist by auto
    then show "\<exists>v'. absorb h p q x = Some v'
      \<and> kb_next v' = (if as @ [p] \<noteq> [] \<and> x = last (as @ [p]) then hd (bs @ [0]) else kb_next r)
      \<and> kb_prev v' = (if bs \<noteq> [] \<and> x = hd bs then last (0 # as @ [p]) else kb_prev r)"
      using x(2) v vn hdb [of x] by (simp add: absorb_def Let_def)
  qed
  then show "bdll (absorb h p q) st (as @ p # bs)" by simp
  have "cdata (absorb h p q) x = cdata h x" if "x \<in> set (as @ bs)" for x
  proof -
    have "x \<noteq> p" "x \<noteq> q" using that dist by auto
    then show ?thesis using node [of x] that by (auto simp: absorb_def Let_def cdata_def)
  qed
  then show "map (cdata (absorb h p q)) (as @ p # bs) = map (cdata h) as @ (p, kb_size w + (kb_size v + 40), kb_used w) # map (cdata h) bs"
    using w v dist(1) by (simp add: absorb_def Let_def cdata_def)
  show "kb_container (the (absorb h p q x)) = kb_container (the (h x))" if "x \<in> set (as @ p # bs)"
  proof -
    have "x \<noteq> q" using that dist by auto
    then show ?thesis using node [OF that] by (auto simp: absorb_def Let_def)
  qed
  show "absorb h p q x = h x" if "x \<notin> set (as @ p # q # bs)"
  proof -
    have "x \<noteq> q" "x \<noteq> p" using that by auto
    moreover have "\<not> (kb_next v \<noteq> 0 \<and> x = kb_next v)" using that hdb [of x] by (auto, cases bs, auto)
    ultimately show ?thesis using v by (cases "h x") (auto simp: absorb_def Let_def)
  qed
qed

lemma unat_add_le: "unat (a + b) \<le> unat a + unat b" for a b :: u64
  by (simp add: unat_word_ariths)

lemma tiled_absorb:
  assumes "tiled lo hi (xs @ (p, psz, u) # (q, qsz, v) # ys)"
  shows "tiled lo hi (xs @ (p, psz + (qsz + 40), u) # ys)"
proof -
  obtain m where m: "tiled lo m xs" "m \<le> unat p" "16 dvd (unat p + 40)" "unat p + 40 + unat psz \<le> unat q"
    "tiled (unat q + 40 + unat qsz) hi ys" using assms unfolding tiled_append by auto
  have "unat (psz + (qsz + 40)) \<le> unat psz + unat (qsz + 40)" "unat (qsz + 40) \<le> unat qsz + unat (40 :: u64)"
    by (rule unat_add_le)+
  then have "unat p + 40 + unat (psz + (qsz + 40)) \<le> unat q + 40 + unat qsz" using m(4) by simp
  from tiled_mono [OF m(5) this] show ?thesis using m(1-3) unfolding tiled_append by auto
qed

text \<open>Absorbing keeps a container well formed when the absorbed block is free.\<close>

lemma cont_ok_absorb:
  assumes ok: "cont_ok s c (as @ p # q # bs)" and v: "\<not> kb_used (the (kblocks s q))"
  shows "cont_ok (s\<lparr>kblocks := absorb (kblocks s) p q\<rparr>) c (as @ p # bs)"
    and "chunks (s\<lparr>kblocks := absorb (kblocks s) p q\<rparr>) (as @ p # bs) = chunks s as
      @ (p, kb_size (the (kblocks s p)) + (kb_size (the (kblocks s q)) + 40), kb_used (the (kblocks s p))) # chunks s bs"
    and "\<not> in_cont c (the (kconts s c)) x \<Longrightarrow> absorb (kblocks s) p q x = kblocks s x"
proof -
  let ?h = "kblocks s" and ?ps = "as @ p # q # bs"
  obtain k where kc: "kconts s c = Some k" and d: "bdll ?h (kc_block k) ?ps"
    and own: "\<And>p. p \<in> set ?ps \<Longrightarrow> kb_container (the (?h p)) = c"
    and t: "tiled (unat c + 40) (cont_stop c k) (map (cdata ?h) ?ps)" and hi: "cont_stop c k + 64 < 2 ^ 64"
    and cnt: "kc_used_blocks k = of_nat (length (filter (\<lambda>x. snd (snd x)) (map (cdata ?h) ?ps)))"
    by (rule cont_okE [OF ok]) blast
  obtain wp where wp: "?h p = Some wp" using dll_node [OF d, of p] by auto
  obtain wq where wq: "?h q = Some wq" using dll_node [OF d, of q] by auto
  note al = absorb_list [OF d wp wq]
  show "chunks (s\<lparr>kblocks := absorb ?h p q\<rparr>) (as @ p # bs) = chunks s as
      @ (p, kb_size (the (?h p)) + (kb_size (the (?h q)) + 40), kb_used (the (?h p))) # chunks s bs"
    using al(2) wp wq by (simp add: chunks_def)
  have t': "tiled (unat c + 40) (cont_stop c k) (map (cdata (absorb ?h p q)) (as @ p # bs))"
    unfolding al(2) by (rule tiled_absorb [where q = q]) (use t wp wq in \<open>simp add: cdata_def\<close>)
  have uq: "\<not> kb_used wq" using v wq by simp
  have "filter (\<lambda>x. snd (snd x)) (map (cdata (absorb ?h p q)) (as @ p # bs)) = filter (\<lambda>x. snd (snd x)) (map (cdata ?h) as)
      @ (if kb_used wp then [(p, kb_size wp + (kb_size wq + 40), True)] else []) @ filter (\<lambda>x. snd (snd x)) (map (cdata ?h) bs)"
    unfolding al(2) by simp
  moreover have "filter (\<lambda>x. snd (snd x)) (map (cdata ?h) ?ps) = filter (\<lambda>x. snd (snd x)) (map (cdata ?h) as)
      @ (if kb_used wp then [(p, kb_size wp, True)] else []) @ filter (\<lambda>x. snd (snd x)) (map (cdata ?h) bs)"
    using wp wq uq by (simp add: cdata_def)
  ultimately have n: "length (filter (\<lambda>x. snd (snd x)) (map (cdata (absorb ?h p q)) (as @ p # bs)))
      = length (filter (\<lambda>x. snd (snd x)) (map (cdata ?h) ?ps))" by simp
  have own': "kb_container (the (absorb ?h p q x)) = c" if "x \<in> set (as @ p # bs)" for x
    using al(3) [OF that] own [of x] that by auto
  show "cont_ok (s\<lparr>kblocks := absorb ?h p q\<rparr>) c (as @ p # bs)"
    unfolding cont_ok_def used_count
  proof (intro exI [of _ k] conjI ballI)
    show "kc_used_blocks k = of_nat (length (filter (\<lambda>x. snd (snd x)) (map (cdata (kblocks (s\<lparr>kblocks := absorb ?h p q\<rparr>))) (as @ p # bs))))"
      using cnt n by simp
  qed (use kc al(1) own' t' hi in simp_all)
  show "absorb ?h p q x = ?h x" if "\<not> in_cont c (the (kconts s c)) x"
  proof (rule al(4))
    show "x \<notin> set ?ps" using cont_ok_in [OF t, of x] that kc by auto
  qed
qed

section \<open>Release inside a container\<close>

text \<open>The state after \<^verbatim>\<open>kfree\<close> has marked the block as free and decremented the counter.\<close>

definition marked_free :: "'a kheap_state_scheme \<Rightarrow> u64 \<Rightarrow> u64 \<Rightarrow> 'a kheap_state_scheme" where
  "marked_free s c b = s\<lparr>kblocks := (kblocks s)(b \<mapsto> (the (kblocks s b))\<lparr>kb_used := False\<rparr>),
     kconts := (kconts s)(c \<mapsto> (the (kconts s c))\<lparr>kc_used_blocks := kc_used_blocks (the (kconts s c)) - 1\<rparr>)\<rparr>"

lemma marked_free_ok:
  assumes ok: "cont_ok s c (as @ b # bs)" and u: "kb_used (the (kblocks s b))"
  shows "cont_ok (marked_free s c b) c (as @ b # bs)"
    and "chunks (marked_free s c b) (as @ b # bs) = chunks s as @ (b, kb_size (the (kblocks s b)), False) # chunks s bs"
    and "cont_frame c s (marked_free s c b)"
proof -
  let ?h = "kblocks s" and ?ps = "as @ b # bs" and ?s = "marked_free s c b"
  obtain k where kc: "kconts s c = Some k" and d: "bdll ?h (kc_block k) ?ps"
    and own: "\<And>p. p \<in> set ?ps \<Longrightarrow> kb_container (the (?h p)) = c"
    and t: "tiled (unat c + 40) (cont_stop c k) (map (cdata ?h) ?ps)" and hi: "cont_stop c k + 64 < 2 ^ 64"
    and cnt: "kc_used_blocks k = of_nat (length (filter (\<lambda>x. snd (snd x)) (map (cdata ?h) ?ps)))"
    by (rule cont_okE [OF ok]) blast
  obtain w where w: "?h b = Some w" using dll_node [OF d, of b] by auto
  have dist: "b \<notin> set as" "b \<notin> set bs" using dll_distinct [OF d] by auto
  have h': "kblocks ?s = ?h(b \<mapsto> w\<lparr>kb_used := False\<rparr>)"
    "kconts ?s = (kconts s)(c \<mapsto> k\<lparr>kc_used_blocks := kc_used_blocks k - 1\<rparr>)" using w kc by (simp_all add: marked_free_def)
  have mc: "map (cdata (kblocks ?s)) ?ps = map (cdata ?h) as @ (b, kb_size w, False) # map (cdata ?h) bs"
    using dist by (auto simp: h' cdata_def)
  then show "chunks ?s ?ps = chunks s as @ (b, kb_size (the (?h b)), False) # chunks s bs" using w by (simp add: chunks_def)
  have mo: "map (cdata ?h) ?ps = map (cdata ?h) as @ (b, kb_size w, True) # map (cdata ?h) bs"
    using w u by (simp add: cdata_def)
  have t': "tiled (unat c + 40) (cont_stop c k) (map (cdata (kblocks ?s)) ?ps)"
    using t unfolding mc mo tiled_append by auto
  have d': "bdll (kblocks ?s) (kc_block k) ?ps" by (rule dll_cong [OF _ d]) (use w in \<open>auto simp: h'\<close>)
  have own': "kb_container (the (kblocks ?s p)) = c" if "p \<in> set ?ps" for p using own [OF that] w by (auto simp: h')
  have "kc_used_blocks k - 1 = of_nat (length (filter (\<lambda>x. snd (snd x)) (map (cdata (kblocks ?s)) ?ps)))"
    unfolding cnt mc mo by simp
  then show "cont_ok ?s c ?ps" unfolding cont_ok_def used_count
    using h'(2) d' own' t' hi by (intro exI [of _ "k\<lparr>kc_used_blocks := kc_used_blocks k - 1\<rparr>"]) (simp add: cont_stop_def)
  show "cont_frame c s ?s"
    unfolding cont_frame_def
  proof (intro conjI exI allI impI)
    show "?s = s\<lparr>kconts := kconts ?s, kblocks := kblocks ?s\<rparr>" by (simp add: marked_free_def)
    show "kconts s c = Some k" "kconts ?s = (kconts s)(c \<mapsto> k\<lparr>kc_used_blocks := kc_used_blocks k - 1\<rparr>)" by (rule kc) (rule h')
    fix x assume "\<not> in_cont c k x"
    then have "x \<noteq> b" using cont_ok_in [OF t, of b] by auto
    then show "kblocks ?s x = kblocks s x" by (simp add: h')
  qed
qed

lemma kfree_run:
  assumes ok: "cont_ok s c (as @ b # bs)" and u: "kb_used (the (kblocks s b))"
    and n: "kc_used_blocks (the (kconts s c)) \<noteq> 1"
  shows "kfree s (BLOCK_DATA b) = bindR (merge_prev (marked_free s c b) b (kb_size (the (kblocks s b)) + 40)) (\<lambda>(b', s3). merge_next s3 b')"
proof -
  obtain k where k: "kconts s c = Some k" "bdll (kblocks s) (kc_block k) (as @ b # bs)"
    "\<And>p. p \<in> set (as @ b # bs) \<Longrightarrow> kb_container (the (kblocks s p)) = c" by (rule cont_okE [OF ok]) blast
  obtain w where w: "kblocks s b = Some w" using dll_node [OF k(2), of b] by auto
  have "kb_container w = c" using k(3) [of b] w by simp
  moreover have "DATA_BLOCK (BLOCK_DATA b) = b" by (simp add: DATA_BLOCK_def BLOCK_DATA_def)
  ultimately show ?thesis using w k(1) n
    by (simp add: kfree_def Let_def set_kblock_def set_kcont_def marked_free_def sizeof_kblock_def)
qed

lemma cont_links:
  assumes ok: "cont_ok s c (as @ b # bs)"
  obtains w where "kblocks s b = Some w" and "kb_prev w = last (0 # as)" and "kb_next w = hd (bs @ [0])" and "b \<noteq> 0"
proof -
  obtain k where k: "kconts s c = Some k" "bdll (kblocks s) (kc_block k) (as @ b # bs)" by (rule cont_okE [OF ok])
  then show thesis using that dll_links [OF k(2)] dll_node [OF k(2), of b] by auto
qed

lemma cont_distinct: "cont_ok s c ps \<Longrightarrow> distinct ps"
  by (erule cont_okE) (rule dll_distinct)

lemma deref_upd: "deref (h(p := v)) x = (if x = p then deref (\<lambda>_. v) x else deref h x)"
  by (simp add: deref_def)

lemma merge_next_stops:
  assumes ok: "cont_ok s c (as @ b # bs)" and n: "bs = [] \<or> kb_used (the (kblocks s (hd bs)))"
  shows "merge_next s b = Inr s"
proof -
  obtain w where w: "kblocks s b = Some w" "kb_next w = hd (bs @ [0])" by (rule cont_links [OF ok])
  show ?thesis
  proof (cases bs)
    case (Cons q bs')
    then have "cont_ok s c ((as @ [b]) @ q # bs')" using ok by simp
    then obtain v where "kblocks s q = Some v" by (rule cont_links)
    then show ?thesis using w n Cons by (simp add: merge_next_def)
  qed (use w in \<open>simp add: merge_next_def\<close>)
qed

lemma merge_next_absorbs:
  assumes ok: "cont_ok s c (as @ b # q # bs)" and f: "\<not> kb_used (the (kblocks s q))"
  shows "merge_next s b = Inr (s\<lparr>kblocks := absorb (kblocks s) b q\<rparr>)"
proof -
  obtain w where w: "kblocks s b = Some w" "kb_next w = q" by (rule cont_links [OF ok]) simp
  have "cont_ok s c ((as @ [b]) @ q # bs)" using ok by simp
  then obtain v where v: "kblocks s q = Some v" "kb_next v = hd (bs @ [0])" "q \<noteq> 0" by (rule cont_links)
  have dist: "b \<noteq> q" "b \<notin> set bs" "q \<notin> set bs" using cont_distinct [OF ok] by auto
  let ?b = "w\<lparr>kb_size := kb_size w + (kb_size v + 40), kb_next := kb_next v\<rparr>"
  show ?thesis
  proof (cases bs)
    case Nil
    then have "(kblocks s)(b \<mapsto> ?b) = absorb (kblocks s) b q"
      using w v dist by (auto simp: absorb_def Let_def fun_eq_iff option.map_ident)
    then show ?thesis using w v f Nil dist
      by (simp add: merge_next_def set_kblock_def sizeof_kblock_def deref_upd)
  next
    case (Cons x bs')
    have "cont_ok s c ((as @ [b, q]) @ x # bs')" using ok Cons by simp
    then obtain u where u: "kblocks s x = Some u" "x \<noteq> 0" by (rule cont_links)
    have ne: "x \<noteq> b" "x \<noteq> q" using dist Cons by auto
    have vx: "kb_next v = x" using v(2) Cons by simp
    have "merge_next s b = Inr (s\<lparr>kblocks := (kblocks s)(b \<mapsto> ?b, x \<mapsto> u\<lparr>kb_prev := b\<rparr>)\<rparr>)"
      using w v(1,3) f u ne dist(1) vx by (simp add: merge_next_def set_kblock_def sizeof_kblock_def deref_upd)
    moreover have "(kblocks s)(b \<mapsto> ?b, x \<mapsto> u\<lparr>kb_prev := b\<rparr>) = absorb (kblocks s) b q"
      using w v u dist Cons by (auto simp: absorb_def Let_def fun_eq_iff option.map_ident)
    ultimately show ?thesis by (simp only:)
  qed
qed

lemma merge_prev_stops:
  assumes ok: "cont_ok s c (as @ b # bs)" and p: "as = [] \<or> kb_used (the (kblocks s (last as)))"
  shows "merge_prev s b total_size = Inr (b, s)"
proof -
  obtain w where w: "kblocks s b = Some w" "kb_prev w = last (0 # as)" by (rule cont_links [OF ok])
  show ?thesis
  proof (cases as rule: rev_cases)
    case (snoc as0 l)
    then have "cont_ok s c (as0 @ l # b # bs)" using ok by simp
    then obtain v where "kblocks s l = Some v" "l \<noteq> 0" by (rule cont_links)
    then show ?thesis using w p snoc by (simp add: merge_prev_def)
  qed (use w in \<open>simp add: merge_prev_def\<close>)
qed

text \<open>
  Merging into the predecessor takes the block out of the list but leaves the back link of the
  successor as it was; \<open>prev_merged\<close> is the heap it produces.
\<close>

definition prev_merged :: "(u64 \<rightharpoonup> kblock) \<Rightarrow> u64 \<Rightarrow> u64 \<Rightarrow> u64 \<rightharpoonup> kblock" where
  "prev_merged h p b = h(p \<mapsto> (the (h p))\<lparr>kb_next := kb_next (the (h b)),
     kb_size := kb_size (the (h p)) + (kb_size (the (h b)) + 40)\<rparr>)"

lemma merge_prev_merges:
  assumes ok: "cont_ok s c (as @ p # b # bs)" and f: "\<not> kb_used (the (kblocks s p))"
  shows "merge_prev s b (kb_size (the (kblocks s b)) + 40) = Inr (p, s\<lparr>kblocks := prev_merged (kblocks s) p b\<rparr>)"
proof -
  have "cont_ok s c ((as @ [p]) @ b # bs)" using ok by simp
  then obtain w where w: "kblocks s b = Some w" "kb_prev w = p" by (rule cont_links) simp
  obtain v where v: "kblocks s p = Some v" "p \<noteq> 0" by (rule cont_links [OF ok])
  have "b \<noteq> p" using cont_distinct [OF ok] by auto
  then show ?thesis using w v f by (simp add: merge_prev_def set_kblock_def prev_merged_def)
qed

lemma prev_merged_last:
  assumes ok: "cont_ok s c (as @ [p, b])"
  shows "prev_merged (kblocks s) p b = absorb (kblocks s) p b"
proof -
  have "cont_ok s c ((as @ [p]) @ b # [])" using ok by simp
  then obtain w where w: "kblocks s b = Some w" "kb_next w = 0" by (rule cont_links) simp
  obtain v where v: "kblocks s p = Some v" by (rule cont_links [OF ok])
  show ?thesis using w v by (auto simp: prev_merged_def absorb_def Let_def fun_eq_iff option.map_ident)
qed

text \<open>
  After a merge into the predecessor, the merge with the successor leaves the header of the successor
  as it is, with its old back link; no list holds it any more.
\<close>

lemma merge_both:
  assumes ok: "cont_ok s c (as @ p # b # q # bs)" and f: "\<not> kb_used (the (kblocks s q))"
  shows "merge_next (s\<lparr>kblocks := prev_merged (kblocks s) p b\<rparr>) p
    = Inr (s\<lparr>kblocks := (absorb (absorb (kblocks s) p b) p q)(q := kblocks s q)\<rparr>)"
proof -
  have ok2: "cont_ok s c ((as @ [p]) @ b # q # bs)" "cont_ok s c ((as @ [p, b]) @ q # bs)" using ok by simp_all
  obtain w where w: "kblocks s b = Some w" "kb_next w = q" by (rule cont_links [OF ok2(1)]) simp
  obtain v where v: "kblocks s p = Some v" "p \<noteq> 0" by (rule cont_links [OF ok])
  obtain u where u: "kblocks s q = Some u" "kb_next u = hd (bs @ [0])" "q \<noteq> 0" by (rule cont_links [OF ok2(2)])
  have dist: "p \<noteq> b" "p \<noteq> q" "b \<noteq> q" "p \<notin> set bs" "q \<notin> set bs" "b \<notin> set bs" using cont_distinct [OF ok] by auto
  let ?h1 = "prev_merged (kblocks s) p b"
  have h1: "?h1 = (kblocks s)(p \<mapsto> v\<lparr>kb_next := q, kb_size := kb_size v + (kb_size w + 40)\<rparr>)"
    using w v by (simp add: prev_merged_def)
  let ?p = "v\<lparr>kb_size := kb_size v + (kb_size w + 40) + (kb_size u + 40), kb_next := kb_next u\<rparr>"
  show ?thesis
  proof (cases bs)
    case Nil
    then have "?h1(p \<mapsto> ?p) = (absorb (absorb (kblocks s) p b) p q)(q := kblocks s q)"
      using w v u dist by (auto simp: prev_merged_def absorb_def Let_def fun_eq_iff option.map_ident option.map_comp o_def)
    then show ?thesis using w v u f Nil dist
      by (simp add: merge_next_def set_kblock_def sizeof_kblock_def deref_upd h1)
  next
    case (Cons x bs')
    have "cont_ok s c ((as @ [p, b, q]) @ x # bs')" using ok Cons by simp
    then obtain y where y: "kblocks s x = Some y" "x \<noteq> 0" by (rule cont_links)
    have ne: "x \<noteq> b" "x \<noteq> q" "x \<noteq> p" using dist Cons by auto
    have ux: "kb_next u = x" using u(2) Cons by simp
    have "merge_next (s\<lparr>kblocks := ?h1\<rparr>) p = Inr (s\<lparr>kblocks := ?h1(p \<mapsto> ?p, x \<mapsto> y\<lparr>kb_prev := p\<rparr>)\<rparr>)"
      using w v u(1,3) f y ne dist(1-3) ux by (simp add: merge_next_def set_kblock_def sizeof_kblock_def deref_upd h1)
    moreover have "?h1(p \<mapsto> ?p, x \<mapsto> y\<lparr>kb_prev := p\<rparr>) = (absorb (absorb (kblocks s) p b) p q)(q := kblocks s q)"
      using w v u y dist Cons by (auto simp: prev_merged_def absorb_def Let_def fun_eq_iff option.map_ident option.map_comp o_def)
    ultimately show ?thesis by (simp only:)
  qed
qed

lemma cont_frame_blocks:
  assumes "cont_frame c s t" and "\<And>x. \<not> in_cont c (the (kconts t c)) x \<Longrightarrow> h x = kblocks t x"
  shows "cont_frame c s (t\<lparr>kblocks := h\<rparr>)"
proof -
  obtain k n where k: "kconts s c = Some k" "kconts t = (kconts s)(c \<mapsto> k\<lparr>kc_used_blocks := n\<rparr>)"
    "\<And>q. \<not> in_cont c k q \<Longrightarrow> kblocks t q = kblocks s q" "t = s\<lparr>kconts := kconts t, kblocks := kblocks t\<rparr>"
    using assms(1) unfolding cont_frame_def by blast
  have "in_cont c (the (kconts t c)) x = in_cont c k x" for x by (simp add: k(2) in_cont_def cont_stop_def)
  then have "h x = kblocks s x" if "\<not> in_cont c k x" for x using assms(2) [of x] k(3) that by simp
  moreover have "t\<lparr>kblocks := h\<rparr> = s\<lparr>kconts := kconts t, kblocks := h\<rparr>" by (subst k(4)) simp
  ultimately show ?thesis unfolding cont_frame_def using k(1,2) by (intro conjI exI [of _ k] exI [of _ n]) simp_all
qed

lemma used_chunks_append: "used_chunks (xs @ ys) = used_chunks xs \<union> used_chunks ys"
  by (auto simp: used_chunks_def)

lemma used_chunks_Cons: "used_chunks ((a, sz, u) # xs) = (if u then {(a, sz)} else {}) \<union> used_chunks xs"
  by (auto simp: used_chunks_def)

lemma chunks_append: "chunks s (as @ bs) = chunks s as @ chunks s bs"
  by (simp add: chunks_def)

lemma chunks_Cons: "chunks s (a # as) = cdata (kblocks s) a # chunks s as"
  by (simp add: chunks_def)

lemmas chunk_sets = used_chunks_append used_chunks_Cons chunks_append chunks_Cons

text \<open>
  The specification of a release on the list of chunks: the chunk becomes free and is joined with the chunk
  before it and the chunk behind it when these are free, header included.
\<close>

fun merge_right :: "chunk \<Rightarrow> chunk list \<Rightarrow> chunk list" where
  "merge_right (a, sz, u) [] = [(a, sz, u)]"
| "merge_right (a, sz, u) ((b, m, v) # xs) = (if v then (a, sz, u) # (b, m, v) # xs else (a, sz + (m + 40), u) # xs)"

definition release_chunks :: "chunk list \<Rightarrow> u64 \<Rightarrow> u64 \<Rightarrow> chunk list \<Rightarrow> chunk list" where
  "release_chunks as b sz bs =
     (if as = [] \<or> snd (snd (last as)) then as @ merge_right (b, sz, False) bs
      else butlast as @ merge_right (fst (last as), fst (snd (last as)) + (sz + 40), False) bs)"

lemma used_chunks_Nil [simp]: "used_chunks [] = {}"
  by (simp add: used_chunks_def)

lemma used_merge_right: "used_chunks (merge_right (a, sz, False) xs) = used_chunks xs"
  by (cases xs) (auto simp: used_chunks_Cons)

lemma used_release_chunks: "used_chunks (release_chunks as b sz bs) = used_chunks as \<union> used_chunks bs"
proof (cases as rule: rev_cases)
  case (snoc ys y)
  obtain a m u where "y = (a, m, u)" by (metis prod_cases3)
  with snoc show ?thesis by (simp add: release_chunks_def used_chunks_append used_chunks_Cons used_merge_right)
qed (simp add: release_chunks_def used_merge_right)

text \<open>What every successful release does to its container: the blocks are \<open>qs\<close>, their chunks \<open>xs\<close>.\<close>

definition cont_released :: "u64 \<Rightarrow> 'a kheap_state_scheme \<Rightarrow> 'a kheap_state_scheme \<Rightarrow> u64 list \<Rightarrow> chunk list \<Rightarrow> bool" where
  "cont_released c s t qs xs \<longleftrightarrow> cont_ok t c qs \<and> cont_frame c s t \<and> chunks t qs = xs"

lemma cont_released_absorb:
  assumes r: "cont_released c s t (as @ p # q # bs) xs" and f: "\<not> kb_used (the (kblocks t q))"
  shows "cont_released c s (t\<lparr>kblocks := absorb (kblocks t) p q\<rparr>) (as @ p # bs) (chunks t as
    @ (p, kb_size (the (kblocks t p)) + (kb_size (the (kblocks t q)) + 40), kb_used (the (kblocks t p))) # chunks t bs)"
proof -
  have ok: "cont_ok t c (as @ p # q # bs)" "cont_frame c s t" using r by (simp_all add: cont_released_def)
  note a = cont_ok_absorb [OF ok(1) f]
  have "cont_frame c s (t\<lparr>kblocks := absorb (kblocks t) p q\<rparr>)"
    by (rule cont_frame_blocks [OF ok(2)]) (rule a(3))
  then show ?thesis using a(1,2) unfolding cont_released_def by blast
qed

lemma chunks_marked:
  assumes "b \<notin> set as"
  shows "chunks (marked_free s c b) as = chunks s as"
  using assms by (auto simp: chunks_def cdata_def marked_free_def)

lemma cont_released_marked:
  assumes ok: "cont_ok s c (as @ b # bs)" and u: "kb_used (the (kblocks s b))"
  shows "cont_released c s (marked_free s c b) (as @ b # bs) (chunks s as @ (b, kb_size (the (kblocks s b)), False) # chunks s bs)"
  using marked_free_ok [OF ok u] unfolding cont_released_def by blast

text \<open>The content of a header that is on no list does not matter.\<close>

lemma cont_released_stale:
  assumes r: "cont_released c s t qs xs" and q: "q \<notin> set qs" "in_cont c (the (kconts t c)) q"
  shows "cont_released c s (t\<lparr>kblocks := (kblocks t)(q := v)\<rparr>) qs xs"
proof -
  let ?h = "(kblocks t)(q := v)" and ?t = "t\<lparr>kblocks := (kblocks t)(q := v)\<rparr>"
  have ok: "cont_ok t c qs" "cont_frame c s t" "chunks t qs = xs" using r by (simp_all add: cont_released_def)
  obtain k where k: "kconts t c = Some k" "bdll (kblocks t) (kc_block k) qs"
    "\<And>p. p \<in> set qs \<Longrightarrow> kb_container (the (kblocks t p)) = c"
    "tiled (unat c + 40) (cont_stop c k) (map (cdata (kblocks t)) qs)" "cont_stop c k + 64 < 2 ^ 64"
    "kc_used_blocks k = of_nat (length (filter (\<lambda>x. snd (snd x)) (map (cdata (kblocks t)) qs)))"
    by (rule cont_okE [OF ok(1)]) blast
  have same: "?h x = kblocks t x" if "x \<in> set qs" for x using q(1) that by auto
  have mc: "map (cdata ?h) qs = map (cdata (kblocks t)) qs" using same by (simp add: cdata_def)
  have "bdll ?h (kc_block k) qs" by (rule dll_frame [OF _ k(2)]) (rule same)
  moreover have kb: "kblocks ?t = ?h" "kconts ?t = kconts t" by simp_all
  ultimately have "cont_ok ?t c qs"
    unfolding cont_ok_def used_count kb mc using k same by (intro exI [of _ k]) (simp del: fun_upd_apply)
  moreover have "cont_frame c s ?t"
    by (rule cont_frame_blocks [OF ok(2)]) (use q(2) in auto)
  moreover have "chunks ?t qs = xs" using ok(3) mc by (simp add: chunks_def del: fun_upd_apply)
  ultimately show ?thesis by (simp add: cont_released_def)
qed

lemma kfree_released:
  assumes ok: "cont_ok s c (as @ b # bs)" and u: "kb_used (the (kblocks s b))"
    and n: "kc_used_blocks (the (kconts s c)) \<noteq> 1"
    and g: "as = [] \<or> kb_used (the (kblocks s (last as))) \<or> bs = [] \<or> \<not> kb_used (the (kblocks s (hd bs)))"
  shows "\<exists>t qs. kfree s (BLOCK_DATA b) = Inr t
    \<and> cont_released c s t qs (release_chunks (chunks s as) b (kb_size (the (kblocks s b))) (chunks s bs))"
proof -
  let ?m = "marked_free s c b" and ?sz = "kb_size (the (kblocks s b))"
  note rm = cont_released_marked [OF ok u]
  have okm: "cont_ok ?m c (as @ b # bs)" using rm by (simp add: cont_released_def)
  have dist: "b \<notin> set as" "b \<notin> set bs" using cont_distinct [OF ok] by auto
  have same: "kblocks ?m x = kblocks s x" if "x \<noteq> b" for x using that by (simp add: marked_free_def)
  have sz: "kb_size (the (kblocks ?m b)) = ?sz" "\<not> kb_used (the (kblocks ?m b))"
    by (simp_all add: marked_free_def)
  note run = kfree_run [OF ok u n, folded sz(1)]
  have us: "kblocks ?m x = kblocks s x" if "x \<in> set as \<union> set bs" for x
    by (rule same) (use that dist in auto)
  show ?thesis
  proof (cases "as = [] \<or> kb_used (the (kblocks s (last as)))")
    case True
    then have pm: "as = [] \<or> kb_used (the (kblocks ?m (last as)))" using us by (cases as) auto
    have mp: "kfree s (BLOCK_DATA b) = merge_next ?m b" using run merge_prev_stops [OF okm pm] by simp
    have rc: "release_chunks (chunks s as) b ?sz (chunks s bs) = chunks s as @ merge_right (b, ?sz, False) (chunks s bs)"
      using True by (auto simp: release_chunks_def chunks_def last_map)
    show ?thesis
    proof (cases "bs = [] \<or> kb_used (the (kblocks s (hd bs)))")
      case True
      then have "bs = [] \<or> kb_used (the (kblocks ?m (hd bs)))" using us by (cases bs) auto
      moreover have "merge_right (b, ?sz, False) (chunks s bs) = (b, ?sz, False) # chunks s bs"
        using True by (cases bs) (auto simp: chunks_def cdata_def)
      ultimately show ?thesis using mp merge_next_stops [OF okm] rm rc by auto
    next
      case False
      then obtain q bs' where b: "bs = q # bs'" "\<not> kb_used (the (kblocks ?m q))" using us by (cases bs) auto
      have "merge_right (b, ?sz, False) (chunks s bs) = (b, ?sz + (kb_size (the (kblocks s q)) + 40), False) # chunks s bs'"
        using False b(1) by (simp add: chunks_def cdata_def)
      moreover have "chunks ?m as = chunks s as" "chunks ?m bs' = chunks s bs'" using dist b(1) by (simp_all add: chunks_marked)
      ultimately show ?thesis using mp merge_next_absorbs [OF okm [unfolded b(1)] b(2)]
          cont_released_absorb [OF rm [unfolded b(1)] b(2)] b(1) rc sz us by auto
    qed
  next
    case False
    then obtain as' p where a: "as = as' @ [p]" "\<not> kb_used (the (kblocks ?m p))" using us by (cases as rule: rev_cases) auto
    have okp: "cont_ok ?m c (as' @ p # b # bs)"
      and rp: "cont_released c s ?m (as' @ p # b # bs) (chunks s as @ (b, ?sz, False) # chunks s bs)" using okm rm a(1) by simp_all
    have mp: "kfree s (BLOCK_DATA b) = merge_next (?m\<lparr>kblocks := prev_merged (kblocks ?m) p b\<rparr>) p"
      using run merge_prev_merges [OF okp a(2)] by simp
    let ?psz = "kb_size (the (kblocks s p)) + (?sz + 40)"
    have cm: "chunks ?m as' = chunks s as'" "chunks ?m bs = chunks s bs" using dist a(1) by (simp_all add: chunks_marked)
    have mpp: "kblocks ?m p = kblocks s p" using us a(1) by simp
    have up: "\<not> kb_used (the (kblocks s p))" using a(2) mpp by simp
    have r1: "cont_released c s (?m\<lparr>kblocks := absorb (kblocks ?m) p b\<rparr>) (as' @ p # bs) (chunks s as' @ (p, ?psz, False) # chunks s bs)"
      using cont_released_absorb [OF rp sz(2)] cm sz(1) mpp up by simp
    have rc: "release_chunks (chunks s as) b ?sz (chunks s bs) = chunks s as' @ merge_right (p, ?psz, False) (chunks s bs)"
      using a(1) up by (simp add: release_chunks_def chunks_append chunks_Cons) (simp add: chunks_def cdata_def)
    show ?thesis
    proof (cases bs)
      case Nil
      have "prev_merged (kblocks ?m) p b = absorb (kblocks ?m) p b"
        by (rule prev_merged_last) (use okp Nil in simp)
      moreover have "cont_ok (?m\<lparr>kblocks := absorb (kblocks ?m) p b\<rparr>) c (as' @ [p])"
        using r1 Nil by (simp add: cont_released_def)
      from merge_next_stops [OF this] have "merge_next (?m\<lparr>kblocks := absorb (kblocks ?m) p b\<rparr>) p
          = Inr (?m\<lparr>kblocks := absorb (kblocks ?m) p b\<rparr>)" by simp
      moreover have "merge_right (p, ?psz, False) (chunks s bs) = (p, ?psz, False) # chunks s bs" using Nil by (simp add: chunks_def)
      ultimately show ?thesis using mp r1 rc by auto
    next
      case (Cons q bs')
      have qs: "\<not> kb_used (the (kblocks s q))" using g Cons a up by auto
      have mq: "kblocks ?m q = kblocks s q" using us Cons by simp
      have qf: "\<not> kb_used (the (kblocks ?m q))" using qs mq by simp
      have okq: "cont_ok ?m c (as' @ p # b # q # bs')" using okp Cons by simp
      have d: "distinct (as' @ p # b # q # bs')" by (rule cont_distinct [OF okq])
      let ?t = "?m\<lparr>kblocks := absorb (kblocks ?m) p b\<rparr>"
      let ?u = "?m\<lparr>kblocks := absorb (absorb (kblocks ?m) p b) p q\<rparr>"
      obtain x where x: "kblocks ?m p = Some x" by (rule cont_links [OF okq])
      have "cont_ok ?m c ((as' @ [p, b]) @ q # bs')" using okq by simp
      then obtain y where y: "kblocks ?m q = Some y" by (rule cont_links)
      have tq: "\<not> kb_used (the (kblocks ?t q))" "kb_size (the (kblocks ?t q)) = kb_size (the (kblocks s q))"
        using qf y d mq by (auto simp: absorb_def Let_def)
      have r1': "chunks ?t (as' @ p # q # bs') = chunks s as' @ (p, ?psz, False) # chunks s (q # bs')"
        using r1 Cons by (simp add: cont_released_def)
      then have ct: "chunks ?t as' = chunks s as'" "chunks ?t bs' = chunks s bs'" "cdata (kblocks ?t) p = (p, ?psz, False)"
        by (simp_all add: chunks_def append_eq_append_conv)
      have "cont_released c s ?u (as' @ p # bs') (chunks s as' @ (p, ?psz + (kb_size (the (kblocks s q)) + 40), False) # chunks s bs')"
        using cont_released_absorb [OF r1 [unfolded Cons] tq(1)] ct tq(2) by (simp add: cdata_def)
      moreover have "q \<notin> set (as' @ p # bs')" using d by auto
      moreover have "in_cont c (the (kconts ?u c)) q"
      proof -
        obtain k where "kconts ?m c = Some k" "tiled (unat c + 40) (cont_stop c k) (map (cdata (kblocks ?m)) (as' @ p # b # q # bs'))"
          by (rule cont_okE [OF okq])
        then show ?thesis using cont_ok_in [of c k "kblocks ?m" "as' @ p # b # q # bs'" q] by simp
      qed
      ultimately have "cont_released c s (?u\<lparr>kblocks := (kblocks ?u)(q := kblocks ?m q)\<rparr>) (as' @ p # bs')
          (chunks s as' @ (p, ?psz + (kb_size (the (kblocks s q)) + 40), False) # chunks s bs')" by (rule cont_released_stale)
      moreover have "merge_right (p, ?psz, False) (chunks s bs) = (p, ?psz + (kb_size (the (kblocks s q)) + 40), False) # chunks s bs'"
        using Cons qs by (simp add: chunks_def cdata_def)
      ultimately show ?thesis using mp merge_both [OF okq qf] Cons rc by auto
    qed
  qed
qed

section \<open>Release: properties\<close>

lemma used_only_here:
  assumes ok: "kheap_ok s cs ps" and c: "c \<in> set cs" and b: "b \<in> set (ps c)"
  shows "(b, sz) \<notin> (\<Union>d \<in> set cs - {c}. used_chunks (chunks s (ps d)))"
proof
  assume "(b, sz) \<in> (\<Union>d \<in> set cs - {c}. used_chunks (chunks s (ps d)))"
  then obtain d where d: "d \<in> set cs" "d \<noteq> c" "b \<in> set (ps d)"
    by (auto simp: used_chunks_def chunks_def cdata_def)
  have cd: "cont_ok s d (ps d)" "cont_ok s c (ps c)" using ok c d(1) unfolding kheap_ok_def by blast+
  obtain k where k: "kconts s d = Some k" "tiled (unat d + 40) (cont_stop d k) (map (cdata (kblocks s)) (ps d))" by (rule cont_okE [OF cd(1)])
  obtain l where l: "kconts s c = Some l" "tiled (unat c + 40) (cont_stop c l) (map (cdata (kblocks s)) (ps c))" by (rule cont_okE [OF cd(2)])
  have "in_cont d k b" "in_cont c l b" using cont_ok_in [OF k(2) d(3)] cont_ok_in [OF l(2) b] by auto
  moreover have "cont_stop c l \<le> unat d \<or> cont_stop d k \<le> unat c" using ok c d(1,2) k(1) l(1) unfolding kheap_ok_def by fastforce
  ultimately show False by (auto simp: in_cont_def)
qed

text \<open>The release of a block, with all it leaves alone.\<close>

lemma kfree_area:
  assumes ok: "kheap_ok s cs ps" and c: "c \<in> set cs" and b: "ps c = as @ b # bs" "kb_used (the (kblocks s b))"
    and n: "kc_used_blocks (the (kconts s c)) \<noteq> 1"
    and g: "as = [] \<or> kb_used (the (kblocks s (last as))) \<or> bs = [] \<or> \<not> kb_used (the (kblocks s (hd bs)))"
  obtains s' ps' where "kfree s (BLOCK_DATA b) = Inr s'" and "kheap_ok s' cs ps'"
    and "allocated s' cs ps' = allocated s cs ps - {(b, kb_size (the (kblocks s b)))}"
    and "s' = s\<lparr>kconts := kconts s', kblocks := kblocks s'\<rparr>" and "cont_frame c s s'"
    and "chunks s' (ps' c) = release_chunks (chunks s as) b (kb_size (the (kblocks s b))) (chunks s bs)"
    and "\<And>d. d \<in> set cs \<Longrightarrow> d \<noteq> c \<Longrightarrow> chunks s' (ps' d) = chunks s (ps d)"
proof -
  have co: "cont_ok s c (ps c)" using ok c unfolding kheap_ok_def by blast
  let ?sz = "kb_size (the (kblocks s b))"
  let ?xs = "release_chunks (chunks s as) b ?sz (chunks s bs)"
  obtain t qs where r: "kfree s (BLOCK_DATA b) = Inr t" "cont_released c s t qs ?xs"
    using kfree_released [OF co [unfolded b(1)] b(2) n g] by auto
  have t: "cont_ok t c qs" "cont_frame c s t" "chunks t qs = ?xs" using r(2) by (simp_all add: cont_released_def)
  have "b \<notin> set as" "b \<notin> set bs" using cont_distinct [OF co] b(1) by auto
  then have "(b, z) \<notin> used_chunks (chunks s as) \<union> used_chunks (chunks s bs)" for z
    by (auto simp: used_chunks_def chunks_def cdata_def)
  then have us: "used_chunks (chunks t qs) = used_chunks (chunks s (ps c)) - {(b, ?sz)}"
    unfolding t(3) used_release_chunks b(1) using b(2) by (auto simp: chunk_sets cdata_def)
  note st = kheap_ok_step [OF ok c t(2,1)]
  note al = allocated_upd(1) [where s = s and s' = t and ps = ps and qs = qs, OF c st(2)]
    allocated_upd(2) [where s = s and s' = t and ps = ps, OF c st(2)]
  have "(b, ?sz) \<notin> (\<Union>d \<in> set cs - {c}. used_chunks (chunks s (ps d)))"
    by (rule used_only_here [OF ok c]) (simp add: b(1))
  then have "allocated t cs (ps(c := qs)) = allocated s cs ps - {(b, ?sz)}" using al us by auto
  moreover have "t = s\<lparr>kconts := kconts t, kblocks := kblocks t\<rparr>" using t(2) unfolding cont_frame_def by blast
  moreover have "chunks t ((ps(c := qs)) c) = ?xs" using t(3) by simp
  moreover have "chunks t ((ps(c := qs)) d) = chunks s (ps d)" if "d \<in> set cs" "d \<noteq> c" for d using st(2) [OF that] that(2) by simp
  ultimately show thesis using that r(1) st(1) t(2) by blast
qed

text \<open>
  C15. Releasing an area that is not the last one of its container, unless its block lies between a
  free block and a block in use: \<^verbatim>\<open>kfree\<close> returns, the blocks of the container are those before with
  the released one free and joined with its free neighbours (\<open>release_chunks\<close>), the other containers
  are as they were, the area and no other is given back, and the invariant of the heap holds again.
\<close>

theorem kfree_gives_back:
  assumes ok: "kheap_ok s cs ps" and c: "c \<in> set cs" and b: "ps c = as @ b # bs" "kb_used (the (kblocks s b))"
    and n: "kc_used_blocks (the (kconts s c)) \<noteq> 1"
    and g: "as = [] \<or> kb_used (the (kblocks s (last as))) \<or> bs = [] \<or> \<not> kb_used (the (kblocks s (hd bs)))"
  shows "\<exists>s' ps'. kfree s (BLOCK_DATA b) = Inr s' \<and> kheap_ok s' cs ps'
    \<and> allocated s' cs ps' = allocated s cs ps - {(b, kb_size (the (kblocks s b)))}
    \<and> chunks s' (ps' c) = release_chunks (chunks s as) b (kb_size (the (kblocks s b))) (chunks s bs)
    \<and> (\<forall>d \<in> set cs - {c}. chunks s' (ps' d) = chunks s (ps d))"
  by (rule kfree_area [OF assms]) blast

theorem kfree_gives_back_witness:
  "\<exists>s' ps'. kfree kheap0 0x100a0 = Inr s' \<and> kheap_ok s' [0x10000] ps'
    \<and> allocated s' [0x10000] ps' = allocated kheap0 [0x10000] blocks0 - {(0x10078, 0x50)}
    \<and> chunks s' (ps' 0x10000) = [(0x10028, 0x20, True), (0x10078, 0x4f58, False)]"
proof -
  have b: "blocks0 0x10000 = [0x10028] @ 0x10078 # [0x100f8]" by (simp add: blocks0_def)
  have v: "kb_used (the (kblocks kheap0 0x10078))" "kc_used_blocks (the (kconts kheap0 0x10000)) \<noteq> 1"
    "kb_size (the (kblocks kheap0 0x10078)) = 0x50" "kb_used (the (kblocks kheap0 (last [0x10028])))"
    by (simp_all add: kheap0_def vmm_state.defs kheap_state.defs)
  have "release_chunks (chunks kheap0 [0x10028]) 0x10078 0x50 (chunks kheap0 [0x100f8])
      = [(0x10028, 0x20, True), (0x10078, 0x4f58, False)]"
    by (simp add: release_chunks_def chunks_def cdata_def kheap0_def vmm_state.defs kheap_state.defs)
  then show ?thesis using kfree_gives_back [OF kheap0_ok _ b v(1,2)] v(3,4) by (simp add: BLOCK_DATA_def const_defs)
qed





text \<open>
  Allocating from a free block that has to be split and releasing the area again restores the
  container except for the size of that block: the rounding gap of 1 to 16 bytes in front of the
  second header is lost for good.
\<close>

theorem kmalloc_kfree_loses_gap:
  assumes ok: "cont_ok s c ps" and xs: "chunks s ps = as @ (b, sz, False) # bs" "n \<le> sz"
    and first: "\<forall>x \<in> set as. snd (snd x)"
    and split: "ROUNDUP (BLOCK_DATA b + n + sizeof_kblock) KHEAP_ALIGN_IN_BYTES < BLOCK_DATA b + sz"
    and u: "kc_used_blocks (the (kconts s c)) \<noteq> 0"
  shows "\<exists>s1 s2 ps2 gap. try_alloc_block s c n = Inr (b, s1) \<and> kfree s1 (BLOCK_DATA b) = Inr s2
    \<and> cont_ok s2 c ps2 \<and> chunks s2 ps2 = as @ (b, sz - gap, False) # bs \<and> 1 \<le> gap \<and> gap \<le> 16"
proof -
  define e where "e = ROUNDUP (BLOCK_DATA b + n + sizeof_kblock) KHEAP_ALIGN_IN_BYTES"
  define m where "m = BLOCK_DATA b + sz - e"
  let ?nb = "e - sizeof_kblock"
  have sc: "split_chunk n b sz = [(b, n, True), (?nb, m, False)]"
    using split by (simp add: split_chunk_def Let_def e_def m_def not_le)
  have ff: "first_fit n (chunks s ps) = Some (b, as @ (b, n, True) # (?nb, m, False) # bs)"
    unfolding first_fit_split using xs first sc by fastforce
  obtain s1 ps1 where a: "try_alloc_block s c n = Inr (b, s1)" "cont_ok s1 c ps1" "cont_frame c s s1"
    "chunks s1 ps1 = as @ (b, n, True) # (?nb, m, False) # bs"
    by (rule try_alloc_block_some [OF ok ff [unfolded chunks_def]]) (simp add: chunks_def)
  obtain qs rs where p: "ps1 = qs @ b # ?nb # rs" "chunks s1 qs = as" "chunks s1 rs = bs"
    "cdata (kblocks s1) b = (b, n, True)" "cdata (kblocks s1) ?nb = (?nb, m, False)"
    using a(4) unfolding chunks_def map_eq_append_conv map_eq_Cons_conv by (auto simp: cdata_def)
  note ok1 = a(2) [unfolded p(1)]
  have ub: "kb_used (the (kblocks s1 b))" "kb_size (the (kblocks s1 b)) = n" using p(4) by (simp_all add: cdata_def)
  obtain k1 where k1: "kconts s1 c = Some k1"
    "kc_used_blocks k1 = of_nat (length (filter (\<lambda>x. snd (snd x)) (chunks s1 ps1)))"
    by (rule cont_okE [OF a(2)]) (simp add: chunks_def)
  obtain k where k: "kconts s c = Some k" "kc_used_blocks k = of_nat (length (filter (\<lambda>x. snd (snd x)) (chunks s ps)))"
    "tiled (unat c + 40) (cont_stop c k) (chunks s ps)" "cont_stop c k + 64 < 2 ^ 64"
    by (rule cont_okE [OF ok]) (simp add: chunks_def)
  have "kc_used_blocks k1 = kc_used_blocks k + 1" unfolding k1(2) k(2) a(4) xs(1) by simp
  then have n1: "kc_used_blocks (the (kconts s1 c)) \<noteq> 1" using u k(1) k1(1) by simp
  let ?m = "marked_free s1 c b"
  note mf = marked_free_ok [OF ok1 ub(1)]
  have "chunks ?m (qs @ b # ?nb # rs) = as @ (b, n, False) # (?nb, m, False) # bs"
    unfolding mf(2) by (simp add: p(2,3,5) ub(2) chunks_Cons)
  then have cm: "chunks ?m qs = as" "chunks ?m rs = bs" "cdata (kblocks ?m) b = (b, n, False)" "cdata (kblocks ?m) ?nb = (?nb, m, False)"
    using p(2,3) by (auto simp: chunks_def append_eq_append_conv)
  have "qs = [] \<or> kb_used (the (kblocks ?m (last qs)))"
  proof (cases qs rule: rev_cases)
    case (snoc qs0 l)
    then have "cdata (kblocks ?m) l \<in> set as" using cm(1) by (auto simp: chunks_def)
    then show ?thesis using first snoc by (force simp: cdata_def)
  qed simp
  from merge_prev_stops [OF mf(1) this] have f1: "kfree s1 (BLOCK_DATA b) = merge_next ?m b"
    using kfree_run [OF ok1 ub(1) n1] by simp
  have nf: "\<not> kb_used (the (kblocks ?m ?nb))" using cm(4) by (simp add: cdata_def)
  let ?s2 = "?m\<lparr>kblocks := absorb (kblocks ?m) b ?nb\<rparr>"
  have f2: "kfree s1 (BLOCK_DATA b) = Inr ?s2" using f1 merge_next_absorbs [OF mf(1) nf] by simp
  note ab = cont_ok_absorb [OF mf(1) nf]
  have sz2: "n + (m + 40) = sz - (e - (BLOCK_DATA b + n + sizeof_kblock))"
    by (simp add: m_def const_defs algebra_simps)
  have ch: "chunks ?s2 (qs @ b # rs) = as @ (b, sz - (e - (BLOCK_DATA b + n + sizeof_kblock)), False) # bs"
    using ab(2) cm unfolding sz2 [symmetric] by (simp add: cdata_def)
  have tm: "unat b + 40 + unat sz \<le> cont_stop c k" using tiled_member(2) [OF k(3), of b sz False] xs(1) by simp
  have ns: "unat n \<le> unat sz" using xs(2) by (simp add: word_le_nat_alt)
  let ?x = "BLOCK_DATA b + n + sizeof_kblock"
  have bd: "unat (BLOCK_DATA b) = unat b + 40" by (rule unat_block_data [of _ 0]) (use tm k(4) in simp)
  have x: "unat ?x = unat b + 80 + unat n"
    using bd tm k(4) ns by (subst unat_add_no_wrap; (subst unat_add_no_wrap)?) (simp_all add: const_defs)
  have ue: "unat e = 16 * (unat ?x div 16 + 1)" unfolding e_def by (rule roundup16) (use x tm ns k(4) in simp)
  have gt: "unat ?x < unat e" "unat e \<le> unat ?x + 16"
    unfolding ue using dividend_less_div_times [of 16 "unat ?x"] div_times_less_eq_dividend [of "unat ?x" 16] by simp_all
  have "unat (e - ?x) = unat e - unat ?x" using gt(1) by (subst unat_sub) (simp_all add: word_le_nat_alt)
  then have "1 \<le> e - ?x" "e - ?x \<le> 16" using gt by (simp_all add: word_le_nat_alt)
  then show ?thesis using a(1) f2 ab(1) ch by blast
qed

theorem kmalloc_kfree_loses_gap_witness:
  "\<exists>s1 s2 ps2 gap. try_alloc_block kheap0 0x10000 0x100 = Inr (0x100f8, s1) \<and> kfree s1 0x10120 = Inr s2
    \<and> chunks s2 ps2 = [(0x10028, 0x20, True), (0x10078, 0x50, True), (0x100f8, 0x4ee0 - gap, False)] \<and> 1 \<le> gap"
proof -
  have co: "cont_ok kheap0 0x10000 (blocks0 0x10000)" using kheap0_ok by (simp add: kheap_ok_def)
  have ch: "chunks kheap0 (blocks0 0x10000) = [(0x10028, 0x20, True), (0x10078, 0x50, True)] @ (0x100f8, 0x4ee0, False) # []"
    by (simp add: kheap0_chunks)
  have r: "ROUNDUP (BLOCK_DATA 0x100f8 + 0x100 + sizeof_kblock) KHEAP_ALIGN_IN_BYTES < BLOCK_DATA 0x100f8 + 0x4ee0"
    by (simp add: ROUNDUP_def BLOCK_DATA_def const_defs)
  have u: "kc_used_blocks (the (kconts kheap0 0x10000)) \<noteq> 0" by (simp add: kheap0_def vmm_state.defs kheap_state.defs)
  have bd: "BLOCK_DATA 0x100f8 = 0x10120" by (simp add: BLOCK_DATA_def const_defs)
  from kmalloc_kfree_loses_gap [OF co ch _ _ r u] show ?thesis unfolding bd by auto
qed

end
