(* ===== verification/Klist.thy ===== *)
theory Klist
  imports Prelude
begin

text \<open>
  The intrusive circular list of \<^verbatim>\<open>kernel/lib/list/list.h\<close>. A heap maps the address of every
  existing \<^verbatim>\<open>struct list_head\<close> to its two pointers; an access through any other address is a
  fault. \<open>ring h head xs\<close> says that the nodes \<open>xs\<close> hang off \<open>head\<close> in this order, and the
  locale \<open>list_contract\<close> is what the scheduler and the mount table rely on.
\<close>

section \<open>State and operations\<close>

record list_head =
  lh_next :: u64
  lh_prev :: u64

type_synonym lheap = "u64 \<rightharpoonup> list_head"

definition set_next :: "lheap \<Rightarrow> u64 \<Rightarrow> u64 \<Rightarrow> lheap res" where
  "set_next h p v = bindR (deref h p) (\<lambda>n. Inr (h(p \<mapsto> n\<lparr>lh_next := v\<rparr>)))"

definition set_prev :: "lheap \<Rightarrow> u64 \<Rightarrow> u64 \<Rightarrow> lheap res" where
  "set_prev h p v = bindR (deref h p) (\<lambda>n. Inr (h(p \<mapsto> n\<lparr>lh_prev := v\<rparr>)))"

definition LIST_HEAD_INIT :: "u64 \<Rightarrow> list_head" where
  "LIST_HEAD_INIT p = \<lparr>lh_next = p, lh_prev = p\<rparr>"

definition INIT_LIST_HEAD :: "lheap \<Rightarrow> u64 \<Rightarrow> lheap res" where
  "INIT_LIST_HEAD h p = bindR (set_next h p p) (\<lambda>h. set_prev h p p)"

definition list_add_between :: "lheap \<Rightarrow> u64 \<Rightarrow> u64 \<Rightarrow> u64 \<Rightarrow> lheap res" where
  "list_add_between h el prev nxt =
     bindR (set_prev h nxt el) (\<lambda>h.
     bindR (set_next h el nxt) (\<lambda>h.
     bindR (set_prev h el prev) (\<lambda>h.
     set_next h prev el)))"

definition list_add :: "lheap \<Rightarrow> u64 \<Rightarrow> u64 \<Rightarrow> lheap res" where
  "list_add h el head =
     bindR (deref h head) (\<lambda>n. list_add_between h el head (lh_next n))"

definition list_add_tail :: "lheap \<Rightarrow> u64 \<Rightarrow> u64 \<Rightarrow> lheap res" where
  "list_add_tail h el head =
     bindR (deref h head) (\<lambda>n. list_add_between h el (lh_prev n) head)"

definition list_del_between :: "lheap \<Rightarrow> u64 \<Rightarrow> u64 \<Rightarrow> lheap res" where
  "list_del_between h prev nxt = bindR (set_prev h nxt prev) (\<lambda>h. set_next h prev nxt)"

definition list_del :: "lheap \<Rightarrow> u64 \<Rightarrow> lheap res" where
  "list_del h entry =
     bindR (deref h entry) (\<lambda>n.
     bindR (list_del_between h (lh_prev n) (lh_next n)) (\<lambda>h.
     bindR (set_next h entry 0) (\<lambda>h.
     set_prev h entry 0)))"

definition list_empty :: "lheap \<Rightarrow> u64 \<Rightarrow> bool res" where
  "list_empty h head = bindR (deref h head) (\<lambda>n. Inr (lh_next n = head))"

definition list_entry :: "u64 \<Rightarrow> u64 \<Rightarrow> u64" where
  "list_entry ptr offset = ptr - offset"

text \<open>
  The read-only loop macro as the sequence of positions it visits, and the loop that tolerates
  deletion of the current element, with its body as an argument. \<open>None\<close> is a loop that never
  comes back to the head.
\<close>

partial_function (option) for_each_ro_from :: "lheap \<Rightarrow> u64 \<Rightarrow> u64 \<Rightarrow> u64 list res option" where
  "for_each_ro_from h head pos =
     (if pos = head then Some (Inr [])
      else case h pos of
        None \<Rightarrow> Some (Inl Fault)
      | Some n \<Rightarrow> Option.bind (for_each_ro_from h head (lh_next n))
                   (\<lambda>r. Some (map_sum id ((#) pos) r)))"

definition list_for_each_ro :: "lheap \<Rightarrow> u64 \<Rightarrow> u64 list res option" where
  "list_for_each_ro h head =
     (case h head of None \<Rightarrow> Some (Inl Fault) | Some n \<Rightarrow> for_each_ro_from h head (lh_next n))"

partial_function (option) for_each_safe_from ::
  "(u64 \<Rightarrow> lheap \<Rightarrow> lheap res) \<Rightarrow> lheap \<Rightarrow> u64 \<Rightarrow> u64 \<Rightarrow> u64 \<Rightarrow> lheap res option" where
  "for_each_safe_from body h head pos n =
     (if pos = head then Some (Inr h)
      else case body pos h of
        Inl e \<Rightarrow> Some (Inl e)
      | Inr h' \<Rightarrow>
          (case h' n of
             None \<Rightarrow> Some (Inl Fault)
           | Some nn \<Rightarrow> for_each_safe_from body h' head n (lh_next nn)))"

definition list_for_each_safe ::
  "(u64 \<Rightarrow> lheap \<Rightarrow> lheap res) \<Rightarrow> lheap \<Rightarrow> u64 \<Rightarrow> lheap res option" where
  "list_for_each_safe body h head =
     (case h head of
        None \<Rightarrow> Some (Inl Fault)
      | Some nh \<Rightarrow>
          (case h (lh_next nh) of
             None \<Rightarrow> Some (Inl Fault)
           | Some np \<Rightarrow> for_each_safe_from body h head (lh_next nh) (lh_next np)))"

section \<open>Abstraction\<close>

text \<open>The two link fields as partial maps, and chains of nodes linked in both directions.\<close>

definition nxt_of :: "lheap \<Rightarrow> u64 \<rightharpoonup> u64" where
  "nxt_of h p = map_option lh_next (h p)"

definition prv_of :: "lheap \<Rightarrow> u64 \<rightharpoonup> u64" where
  "prv_of h p = map_option lh_prev (h p)"

fun chain :: "(u64 \<rightharpoonup> u64) \<Rightarrow> (u64 \<rightharpoonup> u64) \<Rightarrow> u64 list \<Rightarrow> bool" where
  "chain N P (a # b # xs) \<longleftrightarrow> N a = Some b \<and> P b = Some a \<and> chain N P (b # xs)"
| "chain N P _ \<longleftrightarrow> True"

definition ring :: "lheap \<Rightarrow> u64 \<Rightarrow> u64 list \<Rightarrow> bool" where
  "ring h head xs \<longleftrightarrow> distinct (head # xs) \<and> chain (nxt_of h) (prv_of h) (head # xs @ [head])"

section \<open>Chains\<close>

lemma chain_append: "chain N P (xs @ a # ys) \<longleftrightarrow> chain N P (xs @ [a]) \<and> chain N P (a # ys)"
proof (induction xs)
  case Nil
  then show ?case by simp
next
  case (Cons x xs)
  then show ?case by (cases xs) auto
qed

lemma chain_cong:
  assumes "\<And>x. x \<in> set (butlast xs) \<Longrightarrow> N' x = N x" and "\<And>x. x \<in> set (tl xs) \<Longrightarrow> P' x = P x"
  shows "chain N' P' xs = chain N P xs"
  using assms
proof (induction N P xs rule: chain.induct)
  case (1 N P a b xs)
  then show ?case by (auto split: if_splits)
qed simp_all

lemma chain_outside: "e \<notin> set xs \<Longrightarrow> chain (N(e := u)) (P(e := v)) xs = chain N P xs"
  by (induction N P xs rule: chain.induct) auto

lemma chain_insert:
  assumes c: "chain N P (as @ p # q # bs)"
    and d: "distinct (butlast (as @ p # q # bs))" "distinct (tl (as @ p # q # bs))"
    and e: "e \<notin> set (as @ p # q # bs)"
  shows "chain (N(e \<mapsto> q, p \<mapsto> e)) (P(q \<mapsto> e, e \<mapsto> p)) (as @ p # e # q # bs)"
proof -
  let ?N = "N(e \<mapsto> q, p \<mapsto> e)" and ?P = "P(q \<mapsto> e, e \<mapsto> p)"
  have "chain N P (as @ [p])" and qb: "chain N P (q # bs)"
    using c chain_append [of N P as p "q # bs"] by auto
  moreover have "chain ?N ?P (as @ [p]) = chain N P (as @ [p])"
  proof (rule chain_cong)
    fix x assume "x \<in> set (butlast (as @ [p]))"
    then show "?N x = N x" using d(1) e by (auto simp: butlast_append)
  next
    fix x assume "x \<in> set (tl (as @ [p]))"
    then show "?P x = P x" using d(2) e by (cases as) auto
  qed
  moreover have "chain ?N ?P (q # bs) = chain N P (q # bs)"
  proof (rule chain_cong)
    fix x assume "x \<in> set (butlast (q # bs))"
    moreover have "p \<notin> set (butlast (q # bs))" using d(1) by (auto simp: butlast_append)
    ultimately show "?N x = N x" using e in_set_butlastD [of x "q # bs"] by auto
  next
    fix x assume x: "x \<in> set (tl (q # bs))"
    moreover have "q \<notin> set bs" using d(2) by (cases as) auto
    ultimately show "?P x = P x" using e by auto
  qed
  moreover have "p \<noteq> e" "q \<noteq> e" using e by auto
  ultimately show ?thesis
    using chain_append [of ?N ?P as p "e # q # bs"] by simp
qed

lemma chain_remove:
  assumes c: "chain N P (as @ p # e # q # bs)"
    and d: "distinct (butlast (as @ p # e # q # bs))" "distinct (tl (as @ p # e # q # bs))"
  shows "chain (N(p \<mapsto> q)) (P(q \<mapsto> p)) (as @ p # q # bs)"
proof -
  let ?N = "N(p \<mapsto> q)" and ?P = "P(q \<mapsto> p)"
  have "chain N P (as @ [p])" and "chain N P (q # bs)"
    using c chain_append [of N P as p "e # q # bs"] by auto
  moreover have "chain ?N ?P (as @ [p]) = chain N P (as @ [p])"
  proof (rule chain_cong)
    fix x assume "x \<in> set (butlast (as @ [p]))"
    then show "?N x = N x" using d(1) by (auto simp: butlast_append)
  next
    fix x assume "x \<in> set (tl (as @ [p]))"
    then show "?P x = P x" using d(2) by (cases as) auto
  qed
  moreover have "chain ?N ?P (q # bs) = chain N P (q # bs)"
  proof (rule chain_cong)
    fix x assume x: "x \<in> set (butlast (q # bs))"
    moreover have "p \<notin> set (butlast (q # bs))" using d(1) by (auto simp: butlast_append)
    ultimately show "?N x = N x" by auto
  next
    fix x assume x: "x \<in> set (tl (q # bs))"
    moreover have "q \<notin> set bs" using d(2) by (cases as) auto
    ultimately show "?P x = P x" by auto
  qed
  ultimately show ?thesis
    using chain_append [of ?N ?P as p "q # bs"] by simp
qed

section \<open>Field updates\<close>

lemma set_next_ok:
  assumes "p \<in> dom h"
  obtains h' where "set_next h p v = Inr h'" and "nxt_of h' = (nxt_of h)(p \<mapsto> v)"
    and "prv_of h' = prv_of h" and "dom h' = dom h"
proof -
  from assms obtain n where n: "h p = Some n" by auto
  show ?thesis
  proof (rule that [of "h(p \<mapsto> n\<lparr>lh_next := v\<rparr>)"])
    show "set_next h p v = Inr (h(p \<mapsto> n\<lparr>lh_next := v\<rparr>))" using n by (simp add: set_next_def)
  qed (use n in \<open>auto simp: nxt_of_def prv_of_def fun_eq_iff\<close>)
qed

lemma set_prev_ok:
  assumes "p \<in> dom h"
  obtains h' where "set_prev h p v = Inr h'" and "prv_of h' = (prv_of h)(p \<mapsto> v)"
    and "nxt_of h' = nxt_of h" and "dom h' = dom h"
proof -
  from assms obtain n where n: "h p = Some n" by auto
  show ?thesis
  proof (rule that [of "h(p \<mapsto> n\<lparr>lh_prev := v\<rparr>)"])
    show "set_prev h p v = Inr (h(p \<mapsto> n\<lparr>lh_prev := v\<rparr>))" using n by (simp add: set_prev_def)
  qed (use n in \<open>auto simp: nxt_of_def prv_of_def fun_eq_iff\<close>)
qed

lemma dom_nxt_of: "nxt_of h p = Some v \<Longrightarrow> p \<in> dom h"
  by (auto simp: nxt_of_def)

lemma dom_prv_of: "prv_of h p = Some v \<Longrightarrow> p \<in> dom h"
  by (auto simp: prv_of_def)

lemma list_add_between_ok:
  assumes "el \<in> dom h" and "p \<in> dom h" and "q \<in> dom h"
  obtains h' where "list_add_between h el p q = Inr h'"
    and "nxt_of h' = (nxt_of h)(el \<mapsto> q, p \<mapsto> el)" and "prv_of h' = (prv_of h)(q \<mapsto> el, el \<mapsto> p)"
    and "dom h' = dom h"
proof -
  obtain h1 where 1: "set_prev h q el = Inr h1" "prv_of h1 = (prv_of h)(q \<mapsto> el)"
    "nxt_of h1 = nxt_of h" "dom h1 = dom h" using set_prev_ok [OF assms(3)] .
  obtain h2 where 2: "set_next h1 el q = Inr h2" "nxt_of h2 = (nxt_of h1)(el \<mapsto> q)"
    "prv_of h2 = prv_of h1" "dom h2 = dom h1" using set_next_ok [of el h1 q] 1(4) assms(1) by metis
  obtain h3 where 3: "set_prev h2 el p = Inr h3" "prv_of h3 = (prv_of h2)(el \<mapsto> p)"
    "nxt_of h3 = nxt_of h2" "dom h3 = dom h2" using set_prev_ok [of el h2 p] 1(4) 2(4) assms(1) by metis
  obtain h4 where 4: "set_next h3 p el = Inr h4" "nxt_of h4 = (nxt_of h3)(p \<mapsto> el)"
    "prv_of h4 = prv_of h3" "dom h4 = dom h3"
    using set_next_ok [of p h3 el] 1(4) 2(4) 3(4) assms(2) by metis
  show ?thesis
    by (rule that [of h4]) (simp_all add: list_add_between_def 1 2 3 4)
qed

lemma list_del_ok:
  assumes "nxt_of h e = Some q" and "prv_of h e = Some p" and "p \<in> dom h" and "q \<in> dom h"
  obtains h' where "list_del h e = Inr h'"
    and "nxt_of h' = (nxt_of h)(p \<mapsto> q, e \<mapsto> 0)" and "prv_of h' = (prv_of h)(q \<mapsto> p, e \<mapsto> 0)"
    and "dom h' = dom h"
proof -
  from assms(1,2) obtain n where n: "h e = Some n" "lh_next n = q" "lh_prev n = p"
    by (auto simp: nxt_of_def prv_of_def)
  obtain h1 where 1: "set_prev h q p = Inr h1" "prv_of h1 = (prv_of h)(q \<mapsto> p)"
    "nxt_of h1 = nxt_of h" "dom h1 = dom h" using set_prev_ok [OF assms(4)] .
  obtain h2 where 2: "set_next h1 p q = Inr h2" "nxt_of h2 = (nxt_of h1)(p \<mapsto> q)"
    "prv_of h2 = prv_of h1" "dom h2 = dom h1" using set_next_ok [of p h1 q] 1(4) assms(3) by metis
  have e: "e \<in> dom h2" using n(1) 1(4) 2(4) by auto
  obtain h3 where 3: "set_next h2 e 0 = Inr h3" "nxt_of h3 = (nxt_of h2)(e \<mapsto> 0)"
    "prv_of h3 = prv_of h2" "dom h3 = dom h2" using set_next_ok [OF e] .
  obtain h4 where 4: "set_prev h3 e 0 = Inr h4" "prv_of h4 = (prv_of h3)(e \<mapsto> 0)"
    "nxt_of h4 = nxt_of h3" "dom h4 = dom h3" using set_prev_ok [of e h3 0] e 3(4) by metis
  show ?thesis
    by (rule that [of h4]) (simp_all add: list_del_def list_del_between_def n 1 2 3 4)
qed

section \<open>Rings\<close>

lemma chain_nodes:
  assumes "chain (nxt_of h) (prv_of h) (a # xs @ [b])"
  shows "set (a # xs @ [b]) \<subseteq> dom h"
  using assms
proof (induction xs arbitrary: a)
  case Nil
  then show ?case by (auto dest: dom_nxt_of dom_prv_of)
next
  case (Cons x xs)
  then show ?case by (auto dest: dom_nxt_of)
qed

lemma ring_dom: "ring h head xs \<Longrightarrow> insert head (set xs) \<subseteq> dom h"
  using chain_nodes [of h head xs head] by (auto simp: ring_def)

lemma ring_outside:
  assumes "ring h head xs" and "e \<notin> insert head (set xs)"
  shows "ring (h(e := v)) head xs"
proof -
  have "nxt_of (h(e := v)) = (nxt_of h)(e := map_option lh_next v)"
    "prv_of (h(e := v)) = (prv_of h)(e := map_option lh_prev v)"
    by (auto simp: nxt_of_def prv_of_def fun_eq_iff)
  then show ?thesis using assms by (simp add: ring_def chain_outside)
qed

lemma ring_distinct:
  assumes "ring h head xs" and "head # xs @ [head] = as"
  shows "distinct (butlast as)" and "distinct (tl as)"
  using assms by (auto simp: ring_def butlast_append)

lemma ring_first:
  assumes "ring h head xs"
  obtains n where "h head = Some n" and "lh_next n = hd (xs @ [head])" and "lh_prev n = last (head # xs)"
proof -
  have c: "chain (nxt_of h) (prv_of h) (head # xs @ [head])" using assms by (simp add: ring_def)
  have 1: "nxt_of h head = Some (hd (xs @ [head]))" using c by (cases xs) auto
  have "chain (nxt_of h) (prv_of h) (butlast (head # xs) @ [last (head # xs), head])"
    using c by (metis append_butlast_last_id append.assoc append_Cons append_Nil list.distinct(1))
  then have 2: "prv_of h head = Some (last (head # xs))"
    using chain_append [of _ _ "butlast (head # xs)" "last (head # xs)" "[head]"] by simp
  from 1 2 that show ?thesis by (auto simp: nxt_of_def prv_of_def)
qed

lemma list_empty_ring: "ring h head xs \<Longrightarrow> list_empty h head = Inr (xs = [])"
proof -
  assume r: "ring h head xs"
  then obtain n where n: "h head = Some n" "lh_next n = hd (xs @ [head])" by (rule ring_first)
  moreover have "hd (xs @ [head]) = head \<longleftrightarrow> xs = []" using r by (cases xs) (auto simp: ring_def)
  ultimately show ?thesis by (simp add: list_empty_def)
qed

lemma init_ring: "p \<in> dom h \<Longrightarrow> \<exists>h'. INIT_LIST_HEAD h p = Inr h' \<and> ring h' p [] \<and> dom h' = dom h"
proof -
  assume p: "p \<in> dom h"
  obtain h1 where 1: "set_next h p p = Inr h1" "nxt_of h1 = (nxt_of h)(p \<mapsto> p)" "dom h1 = dom h"
    using set_next_ok [OF p] by metis
  obtain h2 where 2: "set_prev h1 p p = Inr h2" "prv_of h2 = (prv_of h1)(p \<mapsto> p)"
    "nxt_of h2 = nxt_of h1" "dom h2 = dom h1" using set_prev_ok [of p h1 p] p 1(3) by metis
  then show ?thesis using 1 by (simp add: INIT_LIST_HEAD_def ring_def)
qed

lemma insert_between:
  assumes r: "ring h head xs" and split: "head # xs @ [head] = as @ p # q # bs"
    and el: "el \<in> dom h" "el \<notin> insert head (set xs)"
    and new: "head # ys @ [head] = as @ p # el # q # bs"
  shows "\<exists>h'. list_add_between h el p q = Inr h' \<and> ring h' head ys \<and> dom h' = dom h"
proof -
  have nodes: "set (as @ p # q # bs) \<subseteq> dom h"
    using chain_nodes [of h head xs head] r unfolding split [symmetric] by (simp add: ring_def)
  obtain h' where h': "list_add_between h el p q = Inr h'"
    "nxt_of h' = (nxt_of h)(el \<mapsto> q, p \<mapsto> el)" "prv_of h' = (prv_of h)(q \<mapsto> el, el \<mapsto> p)"
    "dom h' = dom h" using list_add_between_ok [of el h p q] el(1) nodes by auto
  have "el \<notin> set (as @ p # q # bs)" using el(2) unfolding split [symmetric] by simp
  moreover have "chain (nxt_of h) (prv_of h) (as @ p # q # bs)"
    using r unfolding split [symmetric] by (simp add: ring_def)
  ultimately have "chain (nxt_of h') (prv_of h') (head # ys @ [head])"
    unfolding new h'(2,3) using ring_distinct [OF r split] by (intro chain_insert)
  moreover have "mset (head # ys @ [head]) = add_mset el (mset (head # xs @ [head]))"
    unfolding new split by simp
  then have "mset ys = add_mset el (mset xs)" by simp
  then have "distinct (head # ys)"
    using r el(2) mset_eq_imp_distinct_iff [of "head # ys" "el # head # xs"] by (auto simp: ring_def)
  ultimately show ?thesis using h' by (auto simp: ring_def)
qed

lemma list_add_ring:
  assumes r: "ring h head xs" and el: "el \<in> dom h" "el \<notin> insert head (set xs)"
  shows "\<exists>h'. list_add h el head = Inr h' \<and> ring h' head (el # xs) \<and> dom h' = dom h"
proof -
  obtain n where n: "h head = Some n" "lh_next n = hd (xs @ [head])" using ring_first [OF r] .
  have "head # xs @ [head] = [] @ head # hd (xs @ [head]) # tl (xs @ [head])"
    "head # (el # xs) @ [head] = [] @ head # el # hd (xs @ [head]) # tl (xs @ [head])" by simp_all
  from insert_between [OF r this(1) el this(2)] n show ?thesis by (simp add: list_add_def)
qed

lemma list_add_tail_ring:
  assumes r: "ring h head xs" and el: "el \<in> dom h" "el \<notin> insert head (set xs)"
  shows "\<exists>h'. list_add_tail h el head = Inr h' \<and> ring h' head (xs @ [el]) \<and> dom h' = dom h"
proof -
  obtain n where n: "h head = Some n" "lh_prev n = last (head # xs)" using ring_first [OF r] .
  have b: "head # xs = butlast (head # xs) @ [last (head # xs)]" by simp
  have "head # xs @ [head] = butlast (head # xs) @ last (head # xs) # head # []"
    "head # (xs @ [el]) @ [head] = butlast (head # xs) @ last (head # xs) # el # head # []"
    using b by (metis append.assoc append_Cons append_Nil)+
  from insert_between [OF r this(1) el this(2)] n show ?thesis by (simp add: list_add_tail_def)
qed

lemma list_del_ring:
  assumes r: "ring h head (xs @ e # ys)"
  shows "\<exists>h'. list_del h e = Inr h' \<and> ring h' head (xs @ ys) \<and> dom h' = dom h
    \<and> h' e = Some \<lparr>lh_next = 0, lh_prev = 0\<rparr>"
proof -
  obtain as p where b: "head # xs = as @ [p]" by (metis list.distinct(1) rev_exhaust)
  obtain q bs where q: "ys @ [head] = q # bs" by (metis append_is_Nil_conv list.distinct(1) list.exhaust)
  have split: "head # (xs @ e # ys) @ [head] = as @ p # e # q # bs"
    using b q by (metis append.assoc append_Cons append_Nil)
  have join: "head # (xs @ ys) @ [head] = as @ p # q # bs"
    using b q by (metis append.assoc append_Cons append_Nil)
  have c: "chain (nxt_of h) (prv_of h) (as @ p # e # q # bs)"
    using r unfolding split [symmetric] by (simp add: ring_def)
  have nodes: "set (as @ p # e # q # bs) \<subseteq> dom h"
    using chain_nodes [of h head "xs @ e # ys" head] r unfolding split [symmetric]
    by (simp add: ring_def)
  have "nxt_of h e = Some q" "prv_of h e = Some p"
    using c chain_append [of "nxt_of h" "prv_of h" as p "e # q # bs"] by auto
  then obtain h' where h': "list_del h e = Inr h'" "nxt_of h' = (nxt_of h)(p \<mapsto> q, e \<mapsto> 0)"
    "prv_of h' = (prv_of h)(q \<mapsto> p, e \<mapsto> 0)" "dom h' = dom h"
    using list_del_ok [of h e q p] nodes by auto
  have "chain ((nxt_of h)(p \<mapsto> q)) ((prv_of h)(q \<mapsto> p)) (as @ p # q # bs)"
    using ring_distinct [OF r split] by (rule chain_remove [OF c])
  moreover have "e \<notin> set (as @ p # q # bs)"
    using r unfolding join [symmetric] by (auto simp: ring_def)
  ultimately have "chain (nxt_of h') (prv_of h') (as @ p # q # bs)"
    unfolding h'(2,3) by (subst chain_outside)
  then have "ring h' head (xs @ ys)" using r unfolding join [symmetric] by (auto simp: ring_def)
  moreover have "h' e = Some \<lparr>lh_next = 0, lh_prev = 0\<rparr>"
    using fun_cong [OF h'(2), of e] fun_cong [OF h'(3), of e] by (auto simp: nxt_of_def prv_of_def)
  ultimately show ?thesis using h' by auto
qed

section \<open>Traversal\<close>

lemma for_each_ro_from_chain:
  assumes "chain (nxt_of h) (prv_of h) (xs @ [head])" and "head \<notin> set xs"
  shows "for_each_ro_from h head (hd (xs @ [head])) = Some (Inr xs)"
  using assms
proof (induction xs)
  case Nil
  then show ?case by (simp add: for_each_ro_from.simps)
next
  case (Cons x xs)
  have c: "chain (nxt_of h) (prv_of h) (xs @ [head])" and n: "nxt_of h x = Some (hd (xs @ [head]))"
    using Cons.prems(1) by (cases xs; auto)+
  from n obtain nd where "h x = Some nd" "lh_next nd = hd (xs @ [head])"
    by (auto simp: nxt_of_def)
  moreover have "for_each_ro_from h head (hd (xs @ [head])) = Some (Inr xs)"
    using Cons.IH [OF c] Cons.prems(2) by simp
  ultimately show ?case
    using Cons.prems(2) by (auto simp: for_each_ro_from.simps [of h head x])
qed

lemma ring_chain_tail:
  assumes "ring h head xs"
  shows "chain (nxt_of h) (prv_of h) (xs @ [head])"
  using assms chain_append [of "nxt_of h" "prv_of h" "[head]" "hd (xs @ [head])" "tl (xs @ [head])"]
  by (simp add: ring_def)

lemma list_for_each_ro_ring:
  assumes "ring h head xs"
  shows "list_for_each_ro h head = Some (Inr xs)"
proof -
  obtain n where n: "h head = Some n" "lh_next n = hd (xs @ [head])" using ring_first [OF assms] .
  have "for_each_ro_from h head (hd (xs @ [head])) = Some (Inr xs)"
    using ring_chain_tail [OF assms] assms by (intro for_each_ro_from_chain) (auto simp: ring_def)
  with n show ?thesis by (simp add: list_for_each_ro_def)
qed

lemma for_each_safe_empties:
  "ring h head xs \<Longrightarrow> \<exists>h'. for_each_safe_from (\<lambda>pos h. list_del h pos) h head
     (hd (xs @ [head])) (hd (tl (xs @ [head]) @ [hd (xs @ [head])])) = Some (Inr h') \<and> ring h' head []
     \<and> dom h' = dom h"
proof (induction xs arbitrary: h)
  case Nil
  then show ?case by (auto simp: for_each_safe_from.simps)
next
  case (Cons x xs)
  have ne: "x \<noteq> head" using Cons.prems by (auto simp: ring_def)
  obtain h1 where h1: "list_del h x = Inr h1" "ring h1 head xs" "dom h1 = dom h"
    using list_del_ring [of h head "[]" x xs] Cons.prems by auto
  from Cons.IH [OF h1(2)] obtain h2 where h2: "for_each_safe_from (\<lambda>pos h. list_del h pos) h1 head
     (hd (xs @ [head])) (hd (tl (xs @ [head]) @ [hd (xs @ [head])])) = Some (Inr h2)"
     "ring h2 head []" "dom h2 = dom h1" by blast
  have hd: "hd (tl ((x # xs) @ [head]) @ [x]) = hd (xs @ [head])" by (cases xs) auto
  show ?case
  proof (cases xs)
    case Nil
    obtain n where "h1 head = Some n" "lh_next n = head"
      using ring_first [OF h1(2)] Nil by auto
    then show ?thesis using h1 h2 ne Nil
      by (simp add: for_each_safe_from.simps [of _ h head x])
  next
    case (Cons y ys)
    have "nxt_of h1 y = Some (hd (ys @ [head]))"
      using h1(2) Cons by (cases ys) (auto simp: ring_def)
    then obtain n where "h1 y = Some n" "lh_next n = hd (ys @ [head])" by (auto simp: nxt_of_def)
    moreover have "hd (tl (xs @ [head]) @ [hd (xs @ [head])]) = hd (ys @ [head])"
      using Cons by (cases ys) auto
    ultimately show ?thesis using h1 h2 ne Cons hd
      by (simp add: for_each_safe_from.simps [of _ h head x])
  qed
qed

lemma list_for_each_safe_empties:
  assumes r: "ring h head xs"
  shows "\<exists>h'. list_for_each_safe (\<lambda>pos h. list_del h pos) h head = Some (Inr h') \<and> ring h' head []"
proof -
  obtain n where n: "h head = Some n" "lh_next n = hd (xs @ [head])" using ring_first [OF r] .
  let ?p = "hd (xs @ [head])"
  have "nxt_of h ?p = Some (hd (tl (xs @ [head]) @ [?p]))"
  proof (cases xs)
    case Nil
    then show ?thesis using n by (simp add: nxt_of_def)
  next
    case (Cons y ys)
    then show ?thesis using r by (cases ys) (auto simp: ring_def)
  qed
  then obtain np where "h ?p = Some np" "lh_next np = hd (tl (xs @ [head]) @ [?p])"
    by (auto simp: nxt_of_def)
  then show ?thesis
    using n for_each_safe_empties [OF r] by (auto simp: list_for_each_safe_def)
qed

section \<open>The list contract\<close>

text \<open>
  What a client of the list relies on: the two insertions put a node that is in no list at
  the front or the back, deletion takes exactly one node out, and a traversal sees the nodes in
  order.
\<close>

locale list_contract =
  fixes lst :: "'h \<Rightarrow> 'a \<Rightarrow> 'a list \<Rightarrow> bool"
    and nodes :: "'h \<Rightarrow> 'a set"
    and add :: "'h \<Rightarrow> 'a \<Rightarrow> 'a \<Rightarrow> 'h res"
    and add_tail :: "'h \<Rightarrow> 'a \<Rightarrow> 'a \<Rightarrow> 'h res"
    and del :: "'h \<Rightarrow> 'a \<Rightarrow> 'h res"
    and walk :: "'h \<Rightarrow> 'a \<Rightarrow> 'a list res option"
  assumes add_front: "lst h p xs \<Longrightarrow> e \<in> nodes h \<Longrightarrow> e \<notin> insert p (set xs) \<Longrightarrow>
      \<exists>h'. add h e p = Inr h' \<and> lst h' p (e # xs) \<and> nodes h' = nodes h"
    and add_back: "lst h p xs \<Longrightarrow> e \<in> nodes h \<Longrightarrow> e \<notin> insert p (set xs) \<Longrightarrow>
      \<exists>h'. add_tail h e p = Inr h' \<and> lst h' p (xs @ [e]) \<and> nodes h' = nodes h"
    and del_one: "lst h p (xs @ e # ys) \<Longrightarrow>
      \<exists>h'. del h e = Inr h' \<and> lst h' p (xs @ ys) \<and> nodes h' = nodes h"
    and walk_order: "lst h p xs \<Longrightarrow> walk h p = Some (Inr xs)"
begin

fun add_all :: "'h \<Rightarrow> 'a list \<Rightarrow> 'a \<Rightarrow> 'h res" where
  "add_all h [] p = Inr h"
| "add_all h (e # es) p = bindR (add_tail h e p) (\<lambda>h'. add_all h' es p)"

lemma add_then_del:
  assumes "lst h p xs" and "e \<in> nodes h" and "e \<notin> insert p (set xs)"
  shows "\<exists>h'. bindR (add h e p) (\<lambda>h1. del h1 e) = Inr h' \<and> lst h' p xs"
proof -
  obtain h1 where h1: "add h e p = Inr h1" "lst h1 p ([] @ e # xs)" using add_front [OF assms] by auto
  from del_one [OF h1(2)] h1(1) show ?thesis by auto
qed

lemma add_all_order:
  "lst h p xs \<Longrightarrow> set es \<subseteq> nodes h \<Longrightarrow> distinct es \<Longrightarrow> set es \<inter> insert p (set xs) = {} \<Longrightarrow>
    \<exists>h'. add_all h es p = Inr h' \<and> walk h' p = Some (Inr (xs @ es))"
proof (induction es arbitrary: h xs)
  case Nil
  then show ?case by (simp add: walk_order)
next
  case (Cons e es)
  then obtain h1 where h1: "add_tail h e p = Inr h1" "lst h1 p (xs @ [e])" "nodes h1 = nodes h"
    using add_back [of h p xs e] by auto
  have "\<exists>h'. add_all h1 es p = Inr h' \<and> walk h' p = Some (Inr ((xs @ [e]) @ es))"
    using h1 Cons.prems by (intro Cons.IH) auto
  with h1(1) show ?case by auto
qed

end

interpretation lh: list_contract ring dom list_add list_add_tail list_del list_for_each_ro
proof (unfold_locales, goal_cases)
  case (1 h p xs e)
  then show ?case by (rule list_add_ring)
next
  case (2 h p xs e)
  then show ?case by (rule list_add_tail_ring)
next
  case (3 h p xs e ys)
  then show ?case using list_del_ring [of h p xs e ys] by blast
next
  case (4 h p xs)
  then show ?case by (rule list_for_each_ro_ring)
qed

section \<open>Properties\<close>

definition heap2 :: lheap where
  "heap2 = [0x10 \<mapsto> LIST_HEAD_INIT 0x10, 0x20 \<mapsto> LIST_HEAD_INIT 0x20]"

lemma heap2_ring: "ring heap2 0x10 []"
  by (simp add: ring_def heap2_def LIST_HEAD_INIT_def nxt_of_def prv_of_def)

lemma heap2_dom: "0x20 \<in> dom heap2"
  by (simp add: heap2_def)

text \<open>
  \<^verbatim>\<open>list_add\<close> puts a node that is not yet in the list at its front and \<^verbatim>\<open>list_add_tail\<close> at
  its back; the doubly linked ring stays intact, so a traversal visits the old nodes in their
  old order with the new one first, or last.
\<close>

theorem list_insertions:
  assumes "ring h head xs" and "el \<in> dom h" and "el \<notin> insert head (set xs)"
  shows "\<exists>h1 h2. list_add h el head = Inr h1 \<and> ring h1 head (el # xs)
      \<and> list_for_each_ro h1 head = Some (Inr (el # xs))
      \<and> list_add_tail h el head = Inr h2 \<and> ring h2 head (xs @ [el])
      \<and> list_for_each_ro h2 head = Some (Inr (xs @ [el]))"
proof -
  obtain h1 where "list_add h el head = Inr h1" "ring h1 head (el # xs)"
    using lh.add_front [OF assms] by auto
  moreover obtain h2 where "list_add_tail h el head = Inr h2" "ring h2 head (xs @ [el])"
    using lh.add_back [OF assms] by auto
  ultimately show ?thesis using lh.walk_order by blast
qed

theorem list_insertions_witness:
  "\<exists>h1. list_add heap2 0x20 0x10 = Inr h1 \<and> list_for_each_ro h1 0x10 = Some (Inr [0x20])"
  using list_insertions [OF heap2_ring heap2_dom] by auto

text \<open>
  \<^verbatim>\<open>list_del\<close> of any node of a list removes exactly that node, leaves a ring of the others in
  their order and sets both links of the removed node to NULL; and an insertion undone by a
  deletion leaves the list as it was.
\<close>

theorem list_del_removes:
  assumes "ring h head (xs @ e # ys)"
  shows "\<exists>h'. list_del h e = Inr h' \<and> ring h' head (xs @ ys)
    \<and> h' e = Some \<lparr>lh_next = 0, lh_prev = 0\<rparr>"
  using list_del_ring [OF assms] by blast

theorem list_del_removes_witness:
  "\<exists>h1 h2. list_add heap2 0x20 0x10 = Inr h1 \<and> list_del h1 0x20 = Inr h2 \<and> ring h2 0x10 []"
proof -
  obtain h1 where h1: "list_add heap2 0x20 0x10 = Inr h1" "ring h1 0x10 ([] @ 0x20 # [])"
    using list_add_ring [OF heap2_ring heap2_dom] by auto
  from list_del_removes [OF h1(2)] h1(1) show ?thesis by auto
qed

text \<open>
  C34. \<^verbatim>\<open>list_for_each_safe\<close> with a body that deletes the current element visits every element,
  ends, and leaves the empty list.
\<close>

theorem list_for_each_safe_deletes_all:
  assumes "ring h head xs"
  shows "\<exists>h'. list_for_each_safe (\<lambda>pos h. list_del h pos) h head = Some (Inr h')
    \<and> list_empty h' head = Inr True"
  using list_for_each_safe_empties [OF assms] list_empty_ring by fastforce

theorem list_for_each_safe_deletes_all_witness:
  "\<exists>h1 h'. list_add heap2 0x20 0x10 = Inr h1
    \<and> list_for_each_safe (\<lambda>pos h. list_del h pos) h1 0x10 = Some (Inr h')
    \<and> list_empty h' 0x10 = Inr True"
proof -
  obtain h1 where h1: "list_add heap2 0x20 0x10 = Inr h1" "ring h1 0x10 [0x20]"
    using list_add_ring [OF heap2_ring heap2_dom] by auto
  from list_for_each_safe_deletes_all [OF h1(2)] h1(1) show ?thesis by auto
qed

end
