(* ===== verification/Descriptors.thy ===== *)
theory Descriptors
  imports Layout
begin

text \<open>
  The descriptor tables of \<^verbatim>\<open>kernel/arch/x86_64/mm/gdt.c\<close> and
  \<^verbatim>\<open>kernel/arch/x86_64/interrupts/idt.c\<close>: segment, task-state and gate descriptors with the field
  split of the packed structs, the processor registers the code loads them into, and the byte
  layout of the task-state segment. The lemmas read the split fields back the way the processor
  does.
\<close>

named_theorems gdt_defs \<open>the constants of the descriptor tables\<close>

section \<open>Constants\<close>

definition GDT_ACCESS_RW :: u8 where [gdt_defs]: "GDT_ACCESS_RW = 0b00000010"
definition GDT_ACCESS_CODE_DATA_SEG :: u8 where [gdt_defs]: "GDT_ACCESS_CODE_DATA_SEG = 0b00010000"
definition GDT_ACCESS_SYSTEM_SEG :: u8 where [gdt_defs]: "GDT_ACCESS_SYSTEM_SEG = 0"
definition GDT_ACCESS_CODE :: u8 where [gdt_defs]: "GDT_ACCESS_CODE = 0b00001000"
definition GDT_ACCESS_DATA :: u8 where [gdt_defs]: "GDT_ACCESS_DATA = 0"
definition GDT_ACCESS_KERNEL :: u8 where [gdt_defs]: "GDT_ACCESS_KERNEL = 0"
definition GDT_ACCESS_USER :: u8 where [gdt_defs]: "GDT_ACCESS_USER = 0b01100000"
definition GDT_ACCESS_PRESENT :: u8 where [gdt_defs]: "GDT_ACCESS_PRESENT = 0b10000000"
definition GDT_ACCESS_TSS :: u8 where [gdt_defs]: "GDT_ACCESS_TSS = 0b00001001"
definition GDT_FLAGS_LONG_MODE :: u8 where [gdt_defs]: "GDT_FLAGS_LONG_MODE = 0b0010"

definition GDT_NULL_INDEX :: nat where [gdt_defs]: "GDT_NULL_INDEX = 0"
definition GDT_KERNEL_CODE_INDEX :: nat where [gdt_defs]: "GDT_KERNEL_CODE_INDEX = 1"
definition GDT_KERNEL_DATA_INDEX :: nat where [gdt_defs]: "GDT_KERNEL_DATA_INDEX = 2"
definition GDT_USER_CODE_INDEX :: nat where [gdt_defs]: "GDT_USER_CODE_INDEX = 3"
definition GDT_USER_DATA_INDEX :: nat where [gdt_defs]: "GDT_USER_DATA_INDEX = 4"
definition GDT_TSS_INDEX :: nat where [gdt_defs]: "GDT_TSS_INDEX = 5"
definition GDT_SIZE :: nat where [gdt_defs]: "GDT_SIZE = 7"

definition IDT_SIZE :: nat where [gdt_defs]: "IDT_SIZE = 256"
definition VECTOR_PRESENT :: u8 where [gdt_defs]: "VECTOR_PRESENT = 0b10000000"
definition INT_GATE :: u8 where [gdt_defs]: "INT_GATE = 0b1110"
definition TRAP_GATE :: u8 where [gdt_defs]: "TRAP_GATE = 0b1111"
definition IDT_USER :: u8 where [gdt_defs]: "IDT_USER = 0x60"
definition IDT_TRAP :: u8 where [gdt_defs]: "IDT_TRAP = 0xef"
definition IDT_GATE :: u8 where [gdt_defs]: "IDT_GATE = 0x8e"
definition IDT_PAGE_FAULT :: u64 where [gdt_defs]: "IDT_PAGE_FAULT = 14"
definition IDT_TIMER_INT :: u64 where [gdt_defs]: "IDT_TIMER_INT = 60"
definition IDT_SYSCALL_INT :: u64 where [gdt_defs]: "IDT_SYSCALL_INT = 0x80"
definition IDT_SPURIOUS_INT :: u64 where [gdt_defs]: "IDT_SPURIOUS_INT = 0xff"

definition IDT_DIVIDE_BY_ZERO :: u64 where [gdt_defs]: "IDT_DIVIDE_BY_ZERO = 0"
definition IDT_DEBUG :: u64 where [gdt_defs]: "IDT_DEBUG = 1"
definition IDT_NMI :: u64 where [gdt_defs]: "IDT_NMI = 2"
definition IDT_BREAKPOINT :: u64 where [gdt_defs]: "IDT_BREAKPOINT = 3"
definition IDT_OVERFLOW :: u64 where [gdt_defs]: "IDT_OVERFLOW = 4"
definition IDT_BOUND_RANGE_EXCEED :: u64 where [gdt_defs]: "IDT_BOUND_RANGE_EXCEED = 5"
definition IDT_INVALID_OPCODE :: u64 where [gdt_defs]: "IDT_INVALID_OPCODE = 6"
definition IDT_DEV_NOT_AVL :: u64 where [gdt_defs]: "IDT_DEV_NOT_AVL = 7"
definition IDT_DOUBLE_FAULT :: u64 where [gdt_defs]: "IDT_DOUBLE_FAULT = 8"
definition IDT_COPROC_SEG_OVERRUN :: u64 where [gdt_defs]: "IDT_COPROC_SEG_OVERRUN = 9"
definition IDT_INVALID_TSS :: u64 where [gdt_defs]: "IDT_INVALID_TSS = 10"
definition IDT_SEGMENT_NOT_PRESENT :: u64 where [gdt_defs]: "IDT_SEGMENT_NOT_PRESENT = 11"
definition IDT_STACK_SEGMENT_FAULT :: u64 where [gdt_defs]: "IDT_STACK_SEGMENT_FAULT = 12"
definition IDT_GENERAL_PROTECTION :: u64 where [gdt_defs]: "IDT_GENERAL_PROTECTION = 13"
definition IDT_FLOATING_POINT_ERR :: u64 where [gdt_defs]: "IDT_FLOATING_POINT_ERR = 16"
definition IDT_ALIGNMENT_CHECK :: u64 where [gdt_defs]: "IDT_ALIGNMENT_CHECK = 17"
definition IDT_MACHINE_CHECK :: u64 where [gdt_defs]: "IDT_MACHINE_CHECK = 18"
definition IDT_SIMD_FP_EXC :: u64 where [gdt_defs]: "IDT_SIMD_FP_EXC = 19"
definition IDT_CONTROL_PROTECTION_ERROR :: u64 where [gdt_defs]: "IDT_CONTROL_PROTECTION_ERROR = 21"
definition IDT_HYPERVISOR_INJECTION_EXC :: u64 where [gdt_defs]: "IDT_HYPERVISOR_INJECTION_EXC = 28"
definition IDT_VMM_COM_EXC :: u64 where [gdt_defs]: "IDT_VMM_COM_EXC = 29"
definition IDT_SECURITY_EXC :: u64 where [gdt_defs]: "IDT_SECURITY_EXC = 30"
definition IDT_KEYBOARD_INT :: u64 where [gdt_defs]: "IDT_KEYBOARD_INT = 61"

section \<open>Structures\<close>

record gdt_entry =
  limit0_15 :: u16
  base0_15 :: u16
  base16_23 :: u8
  access :: u8
  limit16_19 :: u8
  flags :: u8
  base24_31 :: u8

record tss_entry =
  te_limit :: u16
  te_base0_15 :: u16
  te_base16_23 :: u8
  te_access :: u8
  te_flags2 :: u8
  te_base24_31 :: u8
  te_base32_63 :: u32
  te_reserved :: u32

record tss =
  reserved0 :: u32
  rsp0 :: u64
  rsp1 :: u64
  rsp2 :: u64
  reserved1 :: u64
  reserved2 :: u64
  ist1 :: u64
  ist2 :: u64
  ist3 :: u64
  ist4 :: u64
  ist5 :: u64
  ist6 :: u64
  ist7 :: u64
  reserved3 :: u64
  reserved4 :: u16
  io_bitmap_offset :: u16

record gdt_descriptor =
  gd_size :: u16
  gd_offset :: u64

record idt_entry =
  offset0_15 :: u16
  selector :: u16
  ist :: u8
  attributes :: u8
  offset16_31 :: u16
  offset32_63 :: u32
  idt_zero :: u32

record idtr =
  idtr_limit :: u16
  idtr_base :: u64

text \<open>
  The static objects and the registers they are loaded into. The two slots of \<^verbatim>\<open>gdt\<close> from
  \<^verbatim>\<open>GDT_TSS_INDEX\<close> on are only ever written through the \<^verbatim>\<open>struct tss_entry\<close> that overlays them.
\<close>

record tables =
  gdt :: "gdt_entry list"
  gdt_tss_entry :: tss_entry
  tss_seg :: tss
  idt :: "u8 \<Rightarrow> idt_entry"
  gdtr :: gdt_descriptor
  idt_reg :: idtr
  task_reg :: u16
  int_enabled :: bool

definition gdt_null :: gdt_entry where
  "gdt_null = \<lparr>limit0_15 = 0, base0_15 = 0, base16_23 = 0, access = 0, limit16_19 = 0, flags = 0, base24_31 = 0\<rparr>"

definition GDT_ENTRY :: "u8 \<Rightarrow> u8 \<Rightarrow> gdt_entry" where
  "GDT_ENTRY a b = gdt_null\<lparr>flags := a, access := GDT_ACCESS_PRESENT OR b\<rparr>"

definition gdt_static :: "gdt_entry list" where
  "gdt_static =
     [gdt_null,
      GDT_ENTRY GDT_FLAGS_LONG_MODE (GDT_ACCESS_KERNEL OR GDT_ACCESS_CODE_DATA_SEG OR GDT_ACCESS_CODE OR GDT_ACCESS_RW),
      GDT_ENTRY 0 (GDT_ACCESS_KERNEL OR GDT_ACCESS_CODE_DATA_SEG OR GDT_ACCESS_DATA OR GDT_ACCESS_RW),
      GDT_ENTRY GDT_FLAGS_LONG_MODE (GDT_ACCESS_USER OR GDT_ACCESS_CODE_DATA_SEG OR GDT_ACCESS_CODE OR GDT_ACCESS_RW),
      GDT_ENTRY 0 (GDT_ACCESS_USER OR GDT_ACCESS_CODE_DATA_SEG OR GDT_ACCESS_DATA OR GDT_ACCESS_RW),
      gdt_null, gdt_null]"

text \<open>
  The packed layout: \<open>le n v\<close> are the \<open>n\<close> low bytes of \<open>v\<close>, least significant first.
\<close>

fun le :: "nat \<Rightarrow> u64 \<Rightarrow> u8 list" where
  "le 0 v = []"
| "le (Suc n) v = ucast v # le n (drop_bit 8 v)"

definition tss_bytes :: "tss \<Rightarrow> u8 list" where
  "tss_bytes t = le 4 (ucast (reserved0 t)) @ le 8 (rsp0 t) @ le 8 (rsp1 t) @ le 8 (rsp2 t) @ le 8 (reserved1 t)
     @ le 8 (reserved2 t) @ le 8 (ist1 t) @ le 8 (ist2 t) @ le 8 (ist3 t) @ le 8 (ist4 t) @ le 8 (ist5 t)
     @ le 8 (ist6 t) @ le 8 (ist7 t) @ le 8 (reserved3 t) @ le 2 (ucast (reserved4 t)) @ le 2 (ucast (io_bitmap_offset t))"

definition sizeof_tss :: nat where "sizeof_tss = 112"

section \<open>Operations\<close>

definition load_tr :: "u16 \<Rightarrow> tables \<Rightarrow> tables" where
  "load_tr sel t = t\<lparr>task_reg := sel\<rparr>"

definition lidt :: "idtr \<Rightarrow> tables \<Rightarrow> tables" where
  "lidt r t = t\<lparr>idt_reg := r\<rparr>"

definition cli :: "tables \<Rightarrow> tables" where "cli t = t\<lparr>int_enabled := False\<rparr>"
definition sti :: "tables \<Rightarrow> tables" where "sti t = t\<lparr>int_enabled := True\<rparr>"

definition gdt_set_tss_rsp :: "u64 \<Rightarrow> tables \<Rightarrow> tables" where
  "gdt_set_tss_rsp v t = t\<lparr>tss_seg := (tss_seg t)\<lparr>rsp0 := v\<rparr>\<rparr>"

text \<open>
  \<open>tss_addr\<close>, \<open>gdt_addr\<close> and \<open>idt_addr\<close> are the addresses of the static objects, \<open>stack_top\<close> the value
  of the variable \<^verbatim>\<open>stack_top_64\<close> and \<open>vectors\<close> the table \<^verbatim>\<open>idt_vectors\<close> of \<^verbatim>\<open>idt.asm\<close>.
\<close>

definition gdt_init_tss :: "u64 \<Rightarrow> u64 \<Rightarrow> tables \<Rightarrow> tables" where
  "gdt_init_tss tss_addr stack_top t =
     load_tr (of_nat (GDT_TSS_INDEX * 8))
       (t\<lparr>tss_seg := \<lparr>reserved0 = 0, rsp0 = stack_top, rsp1 = 0, rsp2 = 0, reserved1 = 0, reserved2 = 0,
            ist1 = 0, ist2 = 0, ist3 = 0, ist4 = 0, ist5 = 0, ist6 = 0, ist7 = 0, reserved3 = 0, reserved4 = 0,
            io_bitmap_offset = 0\<rparr>,
          gdt_tss_entry := \<lparr>te_limit = of_nat (sizeof_tss - 1),
            te_base0_15 = ucast (tss_addr AND ucast U16_MAX),
            te_base16_23 = ucast (drop_bit 16 tss_addr AND 0xff),
            te_access = GDT_ACCESS_KERNEL OR GDT_ACCESS_PRESENT OR GDT_ACCESS_SYSTEM_SEG OR GDT_ACCESS_TSS,
            te_flags2 = 0,
            te_base24_31 = ucast (drop_bit 24 tss_addr AND 0xff),
            te_base32_63 = ucast (drop_bit 32 tss_addr),
            te_reserved = 0\<rparr>\<rparr>)"

definition gdt_reload_asm :: "gdt_descriptor \<Rightarrow> tables \<Rightarrow> tables" where
  "gdt_reload_asm d t = t\<lparr>gdtr := d\<rparr>"

definition gdt_reload :: "u64 \<Rightarrow> u64 \<Rightarrow> u64 \<Rightarrow> tables \<Rightarrow> tables" where
  "gdt_reload gdt_addr tss_addr stack_top t =
     gdt_init_tss tss_addr stack_top (gdt_reload_asm \<lparr>gd_size = of_nat (GDT_SIZE * 8), gd_offset = gdt_addr\<rparr> t)"

definition idt_set_entry :: "u8 \<Rightarrow> u64 \<Rightarrow> u8 \<Rightarrow> tables \<Rightarrow> tables" where
  "idt_set_entry vector handler type t = t\<lparr>idt := (idt t)(vector :=
     \<lparr>offset0_15 = ucast (handler AND ucast U16_MAX), selector = of_nat (GDT_KERNEL_CODE_INDEX * 8), ist = 0,
      attributes = type, offset16_31 = ucast (drop_bit 16 handler AND ucast U16_MAX),
      offset32_63 = ucast (drop_bit 32 handler AND ucast U32_MAX), idt_zero = 0\<rparr>)\<rparr>"

function idt_init_loop :: "(nat \<Rightarrow> u64) \<Rightarrow> nat \<Rightarrow> tables \<Rightarrow> tables" where
  "idt_init_loop vectors i t =
     (if i < IDT_SIZE then idt_init_loop vectors (i + 1) (idt_set_entry (of_nat i) (vectors i) IDT_GATE t) else t)"
  by pat_completeness auto
termination
  by (relation "measure (\<lambda>(vectors, i, t). IDT_SIZE - i)") auto

definition idt_init :: "u64 \<Rightarrow> (nat \<Rightarrow> u64) \<Rightarrow> tables \<Rightarrow> tables" where
  "idt_init idt_addr vectors t =
     sti (lidt \<lparr>idtr_limit = of_nat (IDT_SIZE * 16 - 1), idtr_base = idt_addr\<rparr> (idt_init_loop vectors 0 t))"

declare idt_init_loop.simps [simp del]

section \<open>What the processor reads\<close>

definition gate_target :: "idt_entry \<Rightarrow> u64" where
  "gate_target e = ucast (offset0_15 e) OR push_bit 16 (ucast (offset16_31 e)) OR push_bit 32 (ucast (offset32_63 e))"

definition tss_base :: "tss_entry \<Rightarrow> u64" where
  "tss_base e = ucast (te_base0_15 e) OR push_bit 16 (ucast (te_base16_23 e)) OR push_bit 24 (ucast (te_base24_31 e))
     OR push_bit 32 (ucast (te_base32_63 e))"

definition gate_for :: "u64 \<Rightarrow> idt_entry \<Rightarrow> bool" where
  "gate_for handler e \<longleftrightarrow> gate_target e = handler \<and> selector e = 8 \<and> ist e = 0 \<and> attributes e = 0x8e \<and> idt_zero e = 0"

lemma masks: "(ucast U16_MAX :: u64) = mask 16" "(ucast U32_MAX :: u64) = mask 32" "(0xff :: u64) = mask 8"
  by (simp_all add: U16_MAX_def U32_MAX_def mask_eq_exp_minus_1)

lemma gate_target_set: "gate_target (idt (idt_set_entry v handler type t) v) = handler"
proof (rule bit_word_eqI)
  fix n assume "n < LENGTH(64)"
  then consider "n < 16" | "16 \<le> n" "n < 32" | "32 \<le> n" "n < 64" by fastforce
  then show "bit (gate_target (idt (idt_set_entry v handler type t) v)) n = bit handler n"
    by cases (auto simp: gate_target_def idt_set_entry_def masks bit_simps)
qed

lemma tss_base_init: "tss_base (gdt_tss_entry (gdt_init_tss a st t)) = a"
proof (rule bit_word_eqI)
  fix n assume "n < LENGTH(64)"
  then consider "n < 16" | "16 \<le> n" "n < 24" | "24 \<le> n" "n < 32" | "32 \<le> n" "n < 64" by fastforce
  then show "bit (tss_base (gdt_tss_entry (gdt_init_tss a st t))) n = bit a n"
    by cases (auto simp: tss_base_def gdt_init_tss_def load_tr_def masks bit_simps)
qed

lemma le_length [simp]: "length (le n v) = n"
  by (induction n arbitrary: v) simp_all

lemma idt_init_loop_gates:
  assumes "i \<le> 256"
  shows "idt (idt_init_loop vectors i t) v
    = (if i \<le> unat v then idt (idt_set_entry v (vectors (unat v)) IDT_GATE t) v else idt t v)"
  using assms
proof (induction vectors i t rule: idt_init_loop.induct)
  case (1 vectors i t)
  have lt: "unat v < 256" by (rule order_less_le_trans [OF unsigned_less]) simp
  show ?case
  proof (cases "i < 256")
    case True
    let ?t = "idt_set_entry (of_nat i) (vectors i) IDT_GATE t"
    have u: "v = of_nat i \<longleftrightarrow> unat v = i" using True by (auto simp: unat_of_nat)
    have "idt (idt_init_loop vectors i t) v = idt (idt_init_loop vectors (i + 1) ?t) v"
      using True by (simp add: idt_init_loop.simps [of vectors i] IDT_SIZE_def)
    also have "\<dots> = (if i + 1 \<le> unat v then idt (idt_set_entry v (vectors (unat v)) IDT_GATE ?t) v else idt ?t v)"
      using 1 True by (simp add: IDT_SIZE_def)
    finally show ?thesis using u by (auto simp: idt_set_entry_def not_le less_Suc_eq)
  next
    case False
    then show ?thesis using lt by (simp add: idt_init_loop.simps [of vectors i] IDT_SIZE_def)
  qed
qed

text \<open>
  After the interrupt table is initialised every one of the 256 gates is a present interrupt
  gate of the kernel code segment, and the three offset fields of the gate of a vector read back
  as the address of that vector's handler; the register covers the 4096 bytes of the table and
  interrupts are enabled.
\<close>

theorem idt_init_installs_handlers:
  "(\<forall>v. gate_for (vectors (unat v)) (idt (idt_init a vectors t) v)) \<and> int_enabled (idt_init a vectors t)
   \<and> idt_reg (idt_init a vectors t) = \<lparr>idtr_limit = 4095, idtr_base = a\<rparr>"
proof -
  have "idt (idt_init a vectors t) v = idt (idt_set_entry v (vectors (unat v)) IDT_GATE t) v" for v
    using idt_init_loop_gates [of 0 vectors t v] by (simp add: idt_init_def sti_def lidt_def)
  moreover have "gate_for (vectors (unat v)) (idt (idt_set_entry v (vectors (unat v)) IDT_GATE t) v)" for v
    unfolding gate_for_def gate_target_set by (simp add: idt_set_entry_def gdt_defs)
  ultimately show ?thesis by (simp add: idt_init_def sti_def lidt_def IDT_SIZE_def)
qed

text \<open>
  Reloading the segment table leaves a task-state descriptor whose four base fields read back
  as the address of the task-state segment, with a limit that covers the whole structure, and the
  task register selects it; the ring 0 stack pointer sits at byte offset 4 of the segment, where
  the processor looks for it.
\<close>

theorem gdt_reload_task_state:
  "tss_base (gdt_tss_entry (gdt_reload ga ta st t)) = ta
   \<and> unat (te_limit (gdt_tss_entry (gdt_reload ga ta st t))) + 1 = length (tss_bytes (tss_seg (gdt_reload ga ta st t)))
   \<and> unat (task_reg (gdt_reload ga ta st t)) = 8 * GDT_TSS_INDEX
   \<and> take 8 (drop 4 (tss_bytes (tss_seg (gdt_set_tss_rsp v (gdt_reload ga ta st t))))) = le 8 v"
proof -
  have "length (tss_bytes x) = 112" for x by (simp add: tss_bytes_def)
  moreover have "take 8 (drop 4 (tss_bytes x)) = le 8 (rsp0 x)" for x by (simp add: tss_bytes_def)
  ultimately show ?thesis
    by (simp add: gdt_reload_def tss_base_init, simp add: gdt_init_tss_def load_tr_def sizeof_tss_def gdt_defs gdt_set_tss_rsp_def)
qed

text \<open>
  The processor looks for the first interrupt stack pointer at offset 36 and the I/O map base at
  offset 102 of the segment; the structure has a second reserved word, so its fields sit at 44 and 110.
\<close>

lemma tss_ist_offset:
  "take 8 (drop 44 (tss_bytes t)) = le 8 (ist1 t)" "take 8 (drop 36 (tss_bytes t)) = le 8 (reserved2 t)"
  "take 2 (drop 110 (tss_bytes t)) = le 2 (ucast (io_bitmap_offset t))"
  by (simp_all add: tss_bytes_def)

end
