(* ===== verification/Process.thy ===== *)
theory Process
  imports Kfree Klist Kstring Descriptors
begin

text \<open>
  Processes: \<^verbatim>\<open>kernel/multitasking/process.c\<close>, \<^verbatim>\<open>sched.c\<close>, \<^verbatim>\<open>signal.c\<close> and their x86-64 part
  \<^verbatim>\<open>kernel/arch/x86_64/multitasking\<close>. A process object is a record at its heap address; its two
  embedded list nodes live in a heap of list heads at their offsets, and its kernel stack in byte
  memory, where the switch routine of \<^verbatim>\<open>switch.asm\<close> pushes and pops the registers. Fields that
  the code does not assign keep the content the heap area had before, which is an argument of
  the constructors.
\<close>

section \<open>State\<close>

definition PROCESS_NSIG :: nat where [const_defs]: "PROCESS_NSIG = 64"
definition PROCESS_NAME_MAX :: u64 where [const_defs]: "PROCESS_NAME_MAX = 64"
definition PROCESS_MAX_FD :: u64 where [const_defs]: "PROCESS_MAX_FD = 256"
definition PROCESS_KERNEL_STACK_SIZE :: u64 where [const_defs]: "PROCESS_KERNEL_STACK_SIZE = 16384"
definition PROCESS_KERNEL_STACK_TOP :: "u64 \<Rightarrow> u64" where "PROCESS_KERNEL_STACK_TOP x = x + PROCESS_KERNEL_STACK_SIZE"

datatype process_state = PROCESS_RUNNING | PROCESS_READY | PROCESS_STOPPED | PROCESS_ZOMBIE

record fdesc =
  fs_file_id :: u64
  fd_head :: u64

text \<open>The inline bitmap of the descriptors: its words are part of the object.\<close>

record bitmap_static =
  bs_len :: u64
  bs_size_in_block :: u64
  bs_words :: "u64 list"

record process =
  pr_pid :: u16
  pr_name :: "u8 list"
  pr_state :: process_state
  pr_space :: u64
  pr_parent :: u64
  pr_child :: u64
  pr_fds :: "fdesc list"
  pr_fdbitmap :: bitmap_static
  pr_masked_signals :: u64
  pr_pending_signals :: u64
  pr_signals_handlers :: "u64 list"
  pr_kstack :: u64
  pr_tf :: u64
  pr_saved_tf :: "u64 list"
  pr_context :: u64

definition sizeof_process :: u64 where [const_defs]: "sizeof_process = 5008"
definition sched_list_offset :: u64 where [const_defs]: "sched_list_offset = 80"
definition siblings_list_offset :: u64 where [const_defs]: "siblings_list_offset = 96"

text \<open>The layout of \<^verbatim>\<open>struct context\<close> and \<^verbatim>\<open>struct trap_frame\<close>: byte offsets of the fields.\<close>

definition sizeof_context :: u64 where [const_defs]: "sizeof_context = 56"
definition ctx_rip :: u64 where [const_defs]: "ctx_rip = 48"
definition sizeof_trap_frame :: u64 where [const_defs]: "sizeof_trap_frame = 176"
definition tf_rdi :: u64 where [const_defs]: "tf_rdi = 72"
definition tf_vector_number :: u64 where [const_defs]: "tf_vector_number = 120"
definition tf_error_code :: u64 where [const_defs]: "tf_error_code = 128"
definition tf_rip :: u64 where [const_defs]: "tf_rip = 136"
definition tf_cs :: u64 where [const_defs]: "tf_cs = 144"
definition tf_rflags :: u64 where [const_defs]: "tf_rflags = 152"
definition tf_rsp :: u64 where [const_defs]: "tf_rsp = 160"
definition tf_ss :: u64 where [const_defs]: "tf_ss = 168"

text \<open>The registers the switch routine saves; \<open>reg_rip\<close> is where execution goes on.\<close>

record registers =
  reg_rsp :: u64
  reg_rip :: u64
  reg_rbx :: u64
  reg_rbp :: u64
  reg_r12 :: u64
  reg_r13 :: u64
  reg_r14 :: u64
  reg_r15 :: u64

record task_state = kheap_state +
  procs :: "u64 \<rightharpoonup> process"
  nodes :: lheap
  tabs :: tables
  pid_bitmap :: bitmap
  running :: u64
  sched_schleeper :: u64
  scheduled_procs :: u64
  trap_ret :: u64
  first_run :: u64
  regs :: registers

definition set_proc :: "u64 \<Rightarrow> (process \<Rightarrow> process) \<Rightarrow> 'a task_state_scheme \<Rightarrow> 'a task_state_scheme res" where
  "set_proc p f s = bindR (deref (procs s) p) (\<lambda>v. Inr (s\<lparr>procs := (procs s)(p \<mapsto> f v)\<rparr>))"

section \<open>Switching\<close>

definition push64 :: "u64 \<Rightarrow> 'a task_state_scheme \<Rightarrow> 'a task_state_scheme" where
  "push64 v s = (let sp = reg_rsp (regs s) - 8
     in s\<lparr>mem := store64 (mem s) sp v, regs := (regs s)\<lparr>reg_rsp := sp\<rparr>\<rparr>)"

definition pop64 :: "'a task_state_scheme \<Rightarrow> u64 \<times> 'a task_state_scheme" where
  "pop64 s = (load64 (mem s) (reg_rsp (regs s)), s\<lparr>regs := (regs s)\<lparr>reg_rsp := reg_rsp (regs s) + 8\<rparr>\<rparr>)"

text \<open>
  \<^verbatim>\<open>process_switch_asm(&cur->context, next)\<close>, from the call on: the call pushes the return address,
  the routine pushes the six saved registers, stores the stack pointer through its first
  argument, and returns on the other stack.
\<close>

definition save_context :: "'a task_state_scheme \<Rightarrow> 'a task_state_scheme" where
  "save_context s = (let r = regs s in
     push64 (reg_r12 r) (push64 (reg_r13 r) (push64 (reg_r14 r) (push64 (reg_r15 r)
       (push64 (reg_rbp r) (push64 (reg_rbx r) (push64 (reg_rip r) s)))))))"

definition load_context :: "u64 \<Rightarrow> 'a task_state_scheme \<Rightarrow> 'a task_state_scheme" where
  "load_context next_ctx s =
     (let (r12, s1) = pop64 (s\<lparr>regs := (regs s)\<lparr>reg_rsp := next_ctx\<rparr>\<rparr>);
          (r13, s2) = pop64 s1; (r14, s3) = pop64 s2; (r15, s4) = pop64 s3;
          (rbp, s5) = pop64 s4; (rbx, s6) = pop64 s5; (rip, s7) = pop64 s6
      in s7\<lparr>regs := \<lparr>reg_rsp = reg_rsp (regs s7), reg_rip = rip, reg_rbx = rbx, reg_rbp = rbp,
              reg_r12 = r12, reg_r13 = r13, reg_r14 = r14, reg_r15 = r15\<rparr>\<rparr>)"

definition process_switch_asm :: "u64 \<Rightarrow> u64 \<Rightarrow> 'a task_state_scheme \<Rightarrow> 'a task_state_scheme res" where
  "process_switch_asm cur next_ctx s =
     (let s1 = save_context s
      in bindR (set_proc cur (\<lambda>p. p\<lparr>pr_context := reg_rsp (regs s1)\<rparr>) s1) (\<lambda>s2.
         Inr (load_context next_ctx s2)))"

definition process_switch :: "u64 \<Rightarrow> u64 \<Rightarrow> 'a task_state_scheme \<Rightarrow> 'a task_state_scheme res" where
  "process_switch cur next_proc s =
     (if cur = next_proc then Inr s
      else bindR (deref (procs s) next_proc) (\<lambda>n.
           let s1 = s\<lparr>tabs := gdt_set_tss_rsp (pr_kstack n + PROCESS_KERNEL_STACK_SIZE - 1) (tabs s)\<rparr>
           in bindR (mmu_switch_space s1 (pr_space n)) (\<lambda>s2.
              process_switch_asm cur (pr_context n) s2)))"

text \<open>\<^verbatim>\<open>process_first_run\<close> only returns: it pops the next return address.\<close>

definition process_first_run :: "'a task_state_scheme \<Rightarrow> 'a task_state_scheme" where
  "process_first_run s = (let (rip, s1) = pop64 s in s1\<lparr>regs := (regs s1)\<lparr>reg_rip := rip\<rparr>\<rparr>)"

definition user_selector :: "nat \<Rightarrow> u64" where
  "user_selector index = of_nat (index * 8) OR DPL_USER"

definition process_arch_init :: "u64 \<Rightarrow> u64 \<Rightarrow> u64 \<Rightarrow> 'a task_state_scheme \<Rightarrow> 'a task_state_scheme res" where
  "process_arch_init proc uentry ustack s =
     bindR (deref (procs s) proc) (\<lambda>p.
     let sp = pr_kstack p + PROCESS_KERNEL_STACK_SIZE - sizeof_trap_frame;
         m1 = memset (mem s) sp 0 sizeof_trap_frame;
         m2 = store64 m1 (sp + tf_rsp) ustack;
         m3 = store64 m2 (sp + tf_ss) (user_selector GDT_USER_DATA_INDEX);
         m4 = store64 m3 (sp + tf_cs) (user_selector GDT_USER_CODE_INDEX);
         m5 = store64 m4 (sp + tf_rflags) 0x202;
         m6 = store64 m5 (sp + tf_rip) uentry;
         sp1 = sp - 8;
         m7 = store64 m6 sp1 (trap_ret s);
         sp2 = sp1 - sizeof_context;
         m8 = memset m7 sp2 0 sizeof_context;
         m9 = store64 m8 (sp2 + ctx_rip) (first_run s)
     in set_proc proc (\<lambda>p. p\<lparr>pr_tf := sp, pr_context := sp2\<rparr>) (s\<lparr>mem := m9\<rparr>))"

section \<open>Signals\<close>

datatype signal = SIGKILL | SIGSEGV | SIGSTOP | SIGCONT

fun signum_of :: "signal \<Rightarrow> u64" where
  "signum_of SIGKILL = 0"
| "signum_of SIGSEGV = 1"
| "signum_of SIGSTOP = 2"
| "signum_of SIGCONT = 3"

definition SIGNAL_IS_SET :: "u64 \<Rightarrow> u64 \<Rightarrow> bool res" where
  "SIGNAL_IS_SET bm signum = bindR (int_shl1 signum) (\<lambda>b. Inr (bm AND b \<noteq> 0))"

definition SIGNAL_SET :: "u64 \<Rightarrow> u64 \<Rightarrow> u64 res" where
  "SIGNAL_SET bm signum = bindR (int_shl1 signum) (\<lambda>b. Inr (bm OR b))"

definition SIGNAL_UNSET :: "u64 \<Rightarrow> u64 \<Rightarrow> u64 res" where
  "SIGNAL_UNSET bm signum = bindR (int_shl1 signum) (\<lambda>b. Inr (bm AND NOT b))"

text \<open>\<open>EINVAL\<close> is declared nowhere in the sources; it is an argument.\<close>

definition signal_send :: "i32 \<Rightarrow> u64 \<Rightarrow> u64 \<Rightarrow> 'a task_state_scheme \<Rightarrow> (i32 \<times> 'a task_state_scheme) res" where
  "signal_send EINVAL proc signum s =
     (if of_nat PROCESS_NSIG \<le> signum then Inr (- EINVAL, s)
      else bindR (deref (procs s) proc) (\<lambda>p.
           bindR (SIGNAL_IS_SET (pr_masked_signals p) signum) (\<lambda>masked.
           bindR (if masked then Inr s
                  else bindR (SIGNAL_SET (pr_pending_signals p) signum) (\<lambda>b.
                       set_proc proc (\<lambda>p. p\<lparr>pr_pending_signals := b\<rparr>) s)) (\<lambda>s1.
           Inr (0, s1)))))"

function find_signal :: "u64 \<Rightarrow> u64 \<Rightarrow> u64 res" where
  "find_signal pending signum =
     (if signum < of_nat PROCESS_NSIG
      then bindR (SIGNAL_IS_SET pending signum) (\<lambda>b. if b then Inr signum else find_signal pending (signum + 1))
      else Inr signum)"
  by pat_completeness auto
termination
  by (relation "measure (\<lambda>(pending, signum). 64 - unat signum)")
    (auto simp: PROCESS_NSIG_def word_less_nat_alt unat_word_ariths)

text \<open>The action of a signal without a handler.\<close>

definition default_action :: "u64 \<Rightarrow> process \<Rightarrow> process" where
  "default_action signum p =
     (if signum = signum_of SIGSTOP then p\<lparr>pr_state := PROCESS_STOPPED\<rparr>
      else if signum = signum_of SIGCONT \<and> pr_state p = PROCESS_STOPPED then p\<lparr>pr_state := PROCESS_READY\<rparr>
      else p)"

definition load_words :: "memory \<Rightarrow> u64 \<Rightarrow> nat \<Rightarrow> u64 list" where
  "load_words m a n = map (\<lambda>i. load64 m (a + 8 * of_nat i)) [0..<n]"

definition signal_deliver :: "u64 \<Rightarrow> 'a task_state_scheme \<Rightarrow> 'a task_state_scheme res" where
  "signal_deliver proc s =
     bindR (deref (procs s) proc) (\<lambda>p.
       if pr_pending_signals p = 0 then Inr s
       else bindR (find_signal (pr_pending_signals p) 0) (\<lambda>signum.
            bindR (SIGNAL_UNSET (pr_pending_signals p) signum) (\<lambda>pending.
            bindR (set_proc proc (\<lambda>p. p\<lparr>pr_pending_signals := pending\<rparr>) s) (\<lambda>s1.
            if length (pr_signals_handlers p) \<le> unat signum then Inl Fault
            else let handler = pr_signals_handlers p ! unat signum
                 in if handler = 0 \<or> signum = signum_of SIGKILL
                    then set_proc proc (default_action signum) s1
                    else if pr_tf p = 0 then Inl Fault
                    else bindR (set_proc proc (\<lambda>p. p\<lparr>pr_saved_tf := load_words (mem s1) (pr_tf p) 22\<rparr>) s1) (\<lambda>s2.
                         Inr (s2\<lparr>mem := store64 (store64 (mem s2) (pr_tf p + tf_rip) handler)
                                (pr_tf p + tf_rdi) signum\<rparr>))))))"

section \<open>Scheduling\<close>

definition sched_add :: "u64 \<Rightarrow> 'a task_state_scheme \<Rightarrow> 'a task_state_scheme res" where
  "sched_add proc s =
     bindR (list_add (nodes s) (proc + sched_list_offset) (scheduled_procs s)) (\<lambda>h. Inr (s\<lparr>nodes := h\<rparr>))"

definition sched_init :: "u64 \<Rightarrow> 'a task_state_scheme \<Rightarrow> 'a task_state_scheme res" where
  "sched_init proc s = sched_add proc (s\<lparr>sched_schleeper := proc, running := proc\<rparr>)"

definition sched_rmv :: "u64 \<Rightarrow> 'a task_state_scheme \<Rightarrow> 'a task_state_scheme res" where
  "sched_rmv proc s = set_proc proc (\<lambda>p. p\<lparr>pr_state := PROCESS_ZOMBIE\<rparr>) s"

text \<open>
  The loop of \<^verbatim>\<open>sched_switch\<close> from position \<open>pos\<close> with \<open>n\<close> read ahead, round the list from the node
  \<open>hd_node\<close> of the running process: the first ready process, with the zombies before it unlinked. The
  walk meets the head of the list as well and reads the static memory round it as a process; what
  these bytes are taken for is the entry of \<open>ps\<close> there, and no entry makes the access a \<open>Fault\<close>.
\<close>

partial_function (option) sched_walk ::
    "(u64 \<rightharpoonup> process) \<Rightarrow> u64 \<Rightarrow> lheap \<Rightarrow> u64 \<Rightarrow> u64 \<Rightarrow> (u64 option \<times> lheap) res option" where
  "sched_walk ps hd_node h pos n =
     (if pos = hd_node then Some (Inr (None, h))
      else let proc = list_entry pos sched_list_offset
           in case ps proc of None \<Rightarrow> Some (Inl Fault)
              | Some p \<Rightarrow>
                  if pr_state p = PROCESS_READY then Some (Inr (Some proc, h))
                  else case (if pr_state p = PROCESS_ZOMBIE then list_del h (proc + sched_list_offset) else Inr h) of
                      Inl e \<Rightarrow> Some (Inl e)
                    | Inr h' \<Rightarrow> (case h' n of None \<Rightarrow> Some (Inl Fault)
                         | Some nn \<Rightarrow> sched_walk ps hd_node h' n (lh_next nn)))"

definition sched_switch :: "'a task_state_scheme \<Rightarrow> 'a task_state_scheme res" where
  "sched_switch s =
     (let hd_node = running s + sched_list_offset
      in bindR (deref (nodes s) hd_node) (\<lambda>nh.
         bindR (deref (nodes s) (lh_next nh)) (\<lambda>np.
         bindR (ret (sched_walk (procs s) hd_node (nodes s) (lh_next nh) (lh_next np))) (\<lambda>(found, h).
         let s1 = s\<lparr>nodes := h\<rparr>
         in case found of
              Some proc \<Rightarrow> bindR (signal_deliver proc s1) (\<lambda>s2. process_switch (running s) proc s2)
            | None \<Rightarrow> process_switch (running s) (sched_schleeper s) s1))))"

section \<open>Creating processes\<close>

definition process_get_unused_pid :: "'a task_state_scheme \<Rightarrow> (u16 \<times> 'a task_state_scheme) res" where
  "process_get_unused_pid s =
     bindR (bitmap_find_and_set (mem s) (pid_bitmap s)) (\<lambda>(i, m).
       let pid = ucast i :: u16
       in if ucast pid = bm_len (pid_bitmap s) then Inl (Panic ''process_get_unused_pid: exhausted all PIDs'')
          else Inr (pid, s\<lparr>mem := m\<rparr>))"

text \<open>
  \<^verbatim>\<open>bitmap_init_kheap\<close>: the result is the address the source calls the first unused one, NULL when
  the heap has no room.
\<close>

definition bitmap_init_kheap :: "u64 \<Rightarrow> 'a kheap_state_scheme \<Rightarrow> (u64 \<times> bitmap \<times> 'a kheap_state_scheme) res" where
  "bitmap_init_kheap n s =
     (let blocks = BITMAP_SIZE_IN_BLOCK n
      in bindR (kmalloc s (8 * blocks)) (\<lambda>(p, s1).
         let bm = \<lparr>bm_len = n, bm_size_in_block = blocks, bm_bitmap = p\<rparr>
         in if p = 0 then Inr (0, bm, s1)
            else Inr (p + blocks, bm, s1\<lparr>mem := memset (mem s1) p 0xff (blocks * 8)\<rparr>)))"

text \<open>
  The name: \<^verbatim>\<open>memcpy\<close> of the counted bytes and a terminator after them, which lies outside the
  array when the name has 64 characters or more.
\<close>

definition copy_name :: "memory \<Rightarrow> u64 \<Rightarrow> process \<Rightarrow> process res" where
  "copy_name m name p =
     (let n = unat (strlen m name PROCESS_NAME_MAX)
      in if length (pr_name p) \<le> n then Inl Fault
         else Inr (p\<lparr>pr_name := (map (\<lambda>i. m (name + of_nat i)) [0..<n] @ drop n (pr_name p))[n := 0]\<rparr>))"

text \<open>
  \<^verbatim>\<open>bitmap_init_static\<close> on the inline bitmap, seen as a \<^verbatim>\<open>struct bitmap\<close>: the first inline word is
  taken for the pointer to the blocks.
\<close>

definition init_fdbitmap :: "memory \<Rightarrow> bitmap_static \<Rightarrow> bitmap_static \<times> memory" where
  "init_fdbitmap m b =
     (let (bm, m') = bitmap_init_static m \<lparr>bm_len = bs_len b, bm_size_in_block = bs_size_in_block b, bm_bitmap = hd (bs_words b)\<rparr>
                       PROCESS_MAX_FD
      in (b\<lparr>bs_len := bm_len bm, bs_size_in_block := bm_size_in_block bm\<rparr>, m'))"

definition link_child :: "u64 \<Rightarrow> u64 \<Rightarrow> 'a task_state_scheme \<Rightarrow> 'a task_state_scheme res" where
  "link_child proc parent s =
     bindR (deref (procs s) parent) (\<lambda>q.
       if pr_child q \<noteq> 0
       then bindR (list_add (nodes s) (proc + siblings_list_offset) (pr_child q + siblings_list_offset)) (\<lambda>h. Inr (s\<lparr>nodes := h\<rparr>))
       else set_proc parent (\<lambda>q. q\<lparr>pr_child := proc\<rparr>) s)"

text \<open>The assignments after the user stack is mapped.\<close>

definition process_setup ::
    "u64 \<Rightarrow> u64 \<Rightarrow> u64 \<Rightarrow> u64 \<Rightarrow> 'a task_state_scheme \<Rightarrow> 'a task_state_scheme res" where
  "process_setup proc name uentry parent s =
     bindR (process_arch_init proc uentry 0xffff s) (\<lambda>s1.
     bindR (deref (procs s1) proc) (\<lambda>p.
     bindR (copy_name (mem s1) name p) (\<lambda>p1.
     bindR (process_get_unused_pid (s1\<lparr>procs := (procs s1)(proc \<mapsto> p1)\<rparr>)) (\<lambda>(pid, s2).
     let (fb, m) = init_fdbitmap (mem s2) (pr_fdbitmap p1);
         h = (nodes s2)(proc + sched_list_offset \<mapsto> LIST_HEAD_INIT (proc + sched_list_offset),
                        proc + siblings_list_offset \<mapsto> LIST_HEAD_INIT (proc + siblings_list_offset))
     in bindR (set_proc proc (\<lambda>p. p\<lparr>pr_pid := pid, pr_fdbitmap := fb, pr_state := PROCESS_READY, pr_parent := parent\<rparr>)
                 (s2\<lparr>mem := m, nodes := h\<rparr>)) (\<lambda>s3.
        bindR (link_child proc parent s3) (\<lambda>s4.
        set_proc proc (\<lambda>p. p\<lparr>pr_child := 0, pr_signals_handlers := replicate PROCESS_NSIG 0\<rparr>) s4))))))"

definition process_create ::
    "process \<Rightarrow> u64 \<Rightarrow> u64 \<Rightarrow> u64 \<Rightarrow> 'a task_state_scheme \<Rightarrow> (u64 \<times> 'a task_state_scheme) res" where
  "process_create raw name uentry parent s =
     bindR (kmalloc s sizeof_process) (\<lambda>(proc, s1).
       if proc = 0 then Inr (0, s1)
       else bindR (kmalloc s1 PROCESS_KERNEL_STACK_SIZE) (\<lambda>(kstack, s2).
         if kstack = 0 then bindR (kfree s2 proc) (\<lambda>s3. Inr (0, s3))
         else bindR (vmm_create_space s2) (\<lambda>(space, s3).
           if space = 0 then bindR (kfree s3 kstack) (\<lambda>s4. bindR (kfree s4 proc) (\<lambda>s5. Inr (0, s5)))
           else bindR (vmm_copy_regions s3 space (kspace s3)) (\<lambda>s4.
                bindR (vmm_alloc_at s4 space 0xf000 8 PAGE_USER_RW) (\<lambda>(ustack, s5).
                  if ustack = 0
                  then bindR (vmm_delete_space s5 space) (\<lambda>s6. bindR (kfree s6 kstack) (\<lambda>s7.
                       bindR (kfree s7 proc) (\<lambda>s8. Inr (0, s8))))
                  else bindR (process_setup proc name uentry parent
                         (s5\<lparr>procs := (procs s5)(proc \<mapsto> raw\<lparr>pr_kstack := kstack, pr_space := space\<rparr>)\<rparr>)) (\<lambda>s6.
                       Inr (proc, s6)))))))"

text \<open>\<open>boot_name\<close> is the array \<^verbatim>\<open>"BOOTSTRAP PROCESS"\<close> with its terminator, 18 bytes.\<close>

definition boot_name :: "u8 list" where
  "boot_name = map of_char ''BOOTSTRAP PROCESS'' @ [0]"

definition process_init :: "process \<Rightarrow> 'a task_state_scheme \<Rightarrow> 'a task_state_scheme res" where
  "process_init raw s =
     bindR (kmalloc s sizeof_process) (\<lambda>(proc, s1).
       if proc = 0 then Inl (Panic ''process_init: failed to init boot process'')
       else let p = raw\<lparr>pr_space := kspace s1, pr_pid := 0, pr_name := boot_name @ drop (length boot_name) (pr_name raw),
                       pr_tf := 0, pr_state := PROCESS_RUNNING\<rparr>;
                s2 = s1\<lparr>procs := (procs s1)(proc \<mapsto> p),
                        nodes := (nodes s1)(proc + sched_list_offset \<mapsto> LIST_HEAD_INIT (proc + sched_list_offset))\<rparr>
            in bindR (sched_init proc s2) (\<lambda>s3.
               bindR (bitmap_init_kheap (ucast U16_MAX) s3) (\<lambda>(x, bm, s4).
               Inr (s4\<lparr>pid_bitmap := bm\<rparr>))))"

section \<open>Totality of the switch\<close>

lemma process_switch_total:
  assumes "procs s cur = Some p" "procs s nxt = Some n" "vspaces s (pr_space n) = Some sp"
  shows "\<exists>t. process_switch cur nxt s = Inr t"
  using assms
  by (simp add: process_switch_def process_switch_asm_def mmu_switch_space_def paging_load_def set_proc_def Let_def
      save_context_def push64_def)

lemma process_arch_init_total:
  assumes "procs s proc = Some p"
  shows "\<exists>t. process_arch_init proc uentry ustack s = Inr t"
  using assms by (simp add: process_arch_init_def set_proc_def Let_def)

section \<open>An example state\<close>

text \<open>
  The boot process at 0x1000 and a ready process at 0x8000, both in the example space of the memory
  manager; the list of scheduled processes has its head at 0x500.
\<close>

definition proc0 :: process where
  "proc0 = \<lparr>pr_pid = 0, pr_name = replicate 64 0, pr_state = PROCESS_RUNNING, pr_space = sp0, pr_parent = 0, pr_child = 0,
     pr_fds = [], pr_fdbitmap = \<lparr>bs_len = 0, bs_size_in_block = 0, bs_words = [0, 0, 0, 0, 0]\<rparr>, pr_masked_signals = 0,
     pr_pending_signals = 0, pr_signals_handlers = replicate 64 0, pr_kstack = 0, pr_tf = 0, pr_saved_tf = [], pr_context = 0\<rparr>"

definition proc1 :: process where
  "proc1 = proc0\<lparr>pr_pid := 1, pr_state := PROCESS_READY, pr_kstack := 0x20000, pr_context := 0x23f10, pr_tf := 0x23f50\<rparr>"

definition tables0 :: tables where
  "tables0 = gdt_reload 0 0 0 \<lparr>gdt = gdt_static, gdt_tss_entry = \<lparr>te_limit = 0, te_base0_15 = 0, te_base16_23 = 0,
     te_access = 0, te_flags2 = 0, te_base24_31 = 0, te_base32_63 = 0, te_reserved = 0\<rparr>,
     tss_seg = \<lparr>reserved0 = 0, rsp0 = 0, rsp1 = 0, rsp2 = 0, reserved1 = 0, reserved2 = 0, ist1 = 0, ist2 = 0, ist3 = 0,
       ist4 = 0, ist5 = 0, ist6 = 0, ist7 = 0, reserved3 = 0, reserved4 = 0, io_bitmap_offset = 0\<rparr>,
     idt = (\<lambda>v. \<lparr>offset0_15 = 0, selector = 0, ist = 0, attributes = 0, offset16_31 = 0, offset32_63 = 0, idt_zero = 0\<rparr>),
     gdtr = \<lparr>gd_size = 0, gd_offset = 0\<rparr>, idt_reg = \<lparr>idtr_limit = 0, idtr_base = 0\<rparr>, task_reg = 0, int_enabled = False\<rparr>"

definition task0 :: task_state where
  "task0 = kheap_state.extend kheap0 (task_state.fields
     [0x1000 \<mapsto> proc0, 0x8000 \<mapsto> proc1]
     [0x500 \<mapsto> \<lparr>lh_next = 0x8050, lh_prev = 0x1050\<rparr>, 0x8050 \<mapsto> \<lparr>lh_next = 0x1050, lh_prev = 0x500\<rparr>,
      0x1050 \<mapsto> \<lparr>lh_next = 0x500, lh_prev = 0x8050\<rparr>]
     tables0 zero_bitmap 0x1000 0x1000 0x500 0x7000 0x6000
     \<lparr>reg_rsp = 0x90000, reg_rip = 0x1234, reg_rbx = 1, reg_rbp = 2, reg_r12 = 3, reg_r13 = 4, reg_r14 = 5, reg_r15 = 6\<rparr>)"

lemma task0_simps [simp]:
  "procs task0 = [0x1000 \<mapsto> proc0, 0x8000 \<mapsto> proc1]"
  "nodes task0 = [0x500 \<mapsto> \<lparr>lh_next = 0x8050, lh_prev = 0x1050\<rparr>, 0x8050 \<mapsto> \<lparr>lh_next = 0x1050, lh_prev = 0x500\<rparr>,
      0x1050 \<mapsto> \<lparr>lh_next = 0x500, lh_prev = 0x8050\<rparr>]"
  "running task0 = 0x1000" "sched_schleeper task0 = 0x1000" "scheduled_procs task0 = 0x500"
  "trap_ret task0 = 0x7000" "first_run task0 = 0x6000"
  "regs task0 = \<lparr>reg_rsp = 0x90000, reg_rip = 0x1234, reg_rbx = 1, reg_rbp = 2, reg_r12 = 3, reg_r13 = 4, reg_r14 = 5, reg_r15 = 6\<rparr>"
  "vspaces task0 = [sp0 \<mapsto> \<lparr>page_directory = root0, sp_region = reg0\<rparr>]"
  by (simp_all add: task0_def kheap0_def vmm0_def vmm_state.defs kheap_state.defs task_state.defs)

lemma proc0_space [simp]: "pr_space proc0 = sp0" "pr_space proc1 = sp0"
  by (simp_all add: proc0_def proc1_def)

end
