(* ===== verification/Switch.thy ===== *)
theory Switch
  imports Process
begin

text \<open>
  The context switch: what the switch routine saves it restores, and the first switch to a new
  process arrives at the return from interrupt with the frame of the user program on the stack.
\<close>

section \<open>The saved frame\<close>

text \<open>The seven words below the stack pointer that a switch writes, lowest address first.\<close>

definition saved_frame :: "registers \<Rightarrow> u64" where
  "saved_frame r = reg_rsp r - 56"

definition frame_words :: "registers \<Rightarrow> u64 list" where
  "frame_words r = [reg_r12 r, reg_r13 r, reg_r14 r, reg_r15 r, reg_rbp r, reg_rbx r, reg_rip r]"

lemma save_context_regs:
  "regs (save_context s) = (regs s)\<lparr>reg_rsp := saved_frame (regs s)\<rparr>"
  by (simp add: save_context_def push64_def Let_def saved_frame_def)

lemma save_context_frame: "save_context s = s\<lparr>mem := mem (save_context s), regs := regs (save_context s)\<rparr>"
  by (simp add: save_context_def push64_def Let_def)

lemma disj64_diff: "disj64 (a - b) (a - c) \<longleftrightarrow> 8 \<le> b - c \<and> 8 \<le> c - b"
  by (simp add: disj64_def)

lemma save_context_saves:
  "load_words (mem (save_context s)) (saved_frame (regs s)) 7 = frame_words (regs s)"
proof -
  let ?a = "reg_rsp (regs s)"
  have "mem (save_context s) = store64 (store64 (store64 (store64 (store64 (store64 (store64 (mem s)
      (?a - 8) (reg_rip (regs s))) (?a - 16) (reg_rbx (regs s))) (?a - 24) (reg_rbp (regs s)))
      (?a - 32) (reg_r15 (regs s))) (?a - 40) (reg_r14 (regs s))) (?a - 48) (reg_r13 (regs s))) (?a - 56) (reg_r12 (regs s))"
    by (simp add: save_context_def push64_def Let_def)
  moreover have "?a - 56 + 8 = ?a - 48" "?a - 56 + 16 = ?a - 40" "?a - 56 + 24 = ?a - 32" "?a - 56 + 32 = ?a - 24"
    "?a - 56 + 40 = ?a - 16" "?a - 56 + 48 = ?a - 8" by simp_all
  ultimately show ?thesis
    by (simp add: load_words_def saved_frame_def frame_words_def upt_rec load64_store64_other disj64_diff del: diff_add_eq)
qed

lemma load_context_eq:
  "load_context c s = s\<lparr>regs := \<lparr>reg_rsp = c + 56, reg_rip = load64 (mem s) (c + 48), reg_rbx = load64 (mem s) (c + 40),
     reg_rbp = load64 (mem s) (c + 32), reg_r12 = load64 (mem s) c, reg_r13 = load64 (mem s) (c + 8),
     reg_r14 = load64 (mem s) (c + 16), reg_r15 = load64 (mem s) (c + 24)\<rparr>\<rparr>"
  by (simp add: load_context_def pop64_def Let_def add.commute)

lemma load_context_restores:
  assumes "load_words (mem t) (saved_frame r) 7 = frame_words r"
  shows "regs (load_context (saved_frame r) t) = r"
  using assms by (cases r) (simp add: load_context_eq load_words_def frame_words_def upt_rec saved_frame_def)

text \<open>A switch in one step, and the words it leaves alone.\<close>

definition pushes_to :: "u64 \<Rightarrow> u64 \<Rightarrow> bool" where
  "pushes_to sp a \<longleftrightarrow> (\<exists>j \<in> {1..7}. \<not> disj64 (sp - 8 * of_nat j) a)"

lemma pushes_to_simp:
  "\<not> pushes_to sp a \<longleftrightarrow> disj64 (sp - 8) a \<and> disj64 (sp - 16) a \<and> disj64 (sp - 24) a \<and> disj64 (sp - 32) a
     \<and> disj64 (sp - 40) a \<and> disj64 (sp - 48) a \<and> disj64 (sp - 56) a"
proof -
  have "{1..7 :: nat} = {1, 2, 3, 4, 5, 6, 7}" by auto
  then show ?thesis by (simp add: pushes_to_def conj_ac)
qed

lemma save_context_other:
  assumes "\<not> pushes_to (reg_rsp (regs s)) a"
  shows "load64 (mem (save_context s)) a = load64 (mem s) a"
  using assms unfolding pushes_to_simp by (simp add: save_context_def push64_def Let_def load64_store64_other)

lemma process_switch_Inr:
  assumes "process_switch cur nxt s = Inr t" "cur \<noteq> nxt"
  obtains p n sp where "procs s cur = Some p" "procs s nxt = Some n" "vspaces s (pr_space n) = Some sp"
    "t = load_context (pr_context n) ((save_context s)\<lparr>tabs := gdt_set_tss_rsp (pr_kstack n + 16383) (tabs s),
       cr3 := DM_V2P (page_directory sp), procs := (procs s)(cur \<mapsto> p\<lparr>pr_context := saved_frame (regs s)\<rparr>)\<rparr>)"
proof -
  have sc: "procs (save_context s') = procs s'" for s' :: "'a task_state_scheme"
    by (simp add: save_context_def push64_def Let_def)
  from assms obtain p n sp where "procs s cur = Some p" "procs s nxt = Some n" "vspaces s (pr_space n) = Some sp"
    "t = load_context (pr_context n) ((save_context (s\<lparr>tabs := gdt_set_tss_rsp (pr_kstack n + 16383) (tabs s),
       cr3 := DM_V2P (page_directory sp)\<rparr>))\<lparr>procs := (procs s)(cur \<mapsto> p\<lparr>pr_context := saved_frame (regs s)\<rparr>)\<rparr>)"
    by (auto simp: process_switch_def process_switch_asm_def mmu_switch_space_def paging_load_def set_proc_def Let_def
        bindR_Inr_iff deref_Inr_iff sc save_context_regs PROCESS_KERNEL_STACK_SIZE_def add.commute [of 16383])
  moreover have "(save_context (s\<lparr>tabs := x, cr3 := y\<rparr>))\<lparr>procs := z\<rparr> = (save_context s)\<lparr>tabs := x, cr3 := y, procs := z\<rparr>" for x y z
    by (cases s) (simp add: save_context_def push64_def Let_def)
  ultimately show thesis by (intro that) simp_all
qed

text \<open>
  C17. A switch away from a process and a later switch back to it restore every register the routine
  saves, the stack pointer and the place of execution, provided that in between nobody wrote to
  the seven saved words or to the process object; the switch back also selects the process's
  address space and its kernel stack.
\<close>

theorem process_switch_round_trip:
  assumes "process_switch cur nxt s = Inr s1" "cur \<noteq> nxt"
    and "load_words (mem t) (saved_frame (regs s)) 7 = load_words (mem s1) (saved_frame (regs s)) 7"
    and "procs t cur = procs s1 cur"
    and "process_switch oth cur t = Inr t1" "oth \<noteq> cur"
    and "\<forall>i < 7. \<not> pushes_to (reg_rsp (regs t)) (saved_frame (regs s) + 8 * of_nat i)"
  shows "regs t1 = regs s \<and> (\<exists>p sp. procs s cur = Some p \<and> vspaces t (pr_space p) = Some sp
     \<and> cr3 t1 = DM_V2P (page_directory sp) \<and> rsp0 (tss_seg (tabs t1)) = pr_kstack p + 16383)"
proof -
  obtain p n sp where 1: "procs s cur = Some p" "procs s nxt = Some n" "vspaces s (pr_space n) = Some sp"
    "s1 = load_context (pr_context n) ((save_context s)\<lparr>tabs := gdt_set_tss_rsp (pr_kstack n + 16383) (tabs s),
       cr3 := DM_V2P (page_directory sp), procs := (procs s)(cur \<mapsto> p\<lparr>pr_context := saved_frame (regs s)\<rparr>)\<rparr>)"
    by (rule process_switch_Inr [OF assms(1,2)]) (rule that)
  obtain q c sq where 2: "procs t oth = Some q" "procs t cur = Some c" "vspaces t (pr_space c) = Some sq"
    "t1 = load_context (pr_context c) ((save_context t)\<lparr>tabs := gdt_set_tss_rsp (pr_kstack c + 16383) (tabs t),
       cr3 := DM_V2P (page_directory sq), procs := (procs t)(oth \<mapsto> q\<lparr>pr_context := saved_frame (regs t)\<rparr>)\<rparr>)"
    by (rule process_switch_Inr [OF assms(5,6)]) (rule that)
  have c: "c = p\<lparr>pr_context := saved_frame (regs s)\<rparr>" using 1(4) 2(2) assms(4) by (simp add: load_context_eq)
  have "load_words (mem (save_context t)) (saved_frame (regs s)) 7 = load_words (mem t) (saved_frame (regs s)) 7"
    unfolding load_words_def using assms(7) by (intro map_cong) (simp_all add: save_context_other)
  also have "\<dots> = frame_words (regs s)"
    using save_context_saves [of s] assms(3) 1(4) by (simp add: load_context_eq)
  finally have "regs t1 = regs s"
    unfolding 2(4) c by (simp add: load_context_restores)
  then show ?thesis using 1(1) 2(3) c by (simp add: 2(4) load_context_eq gdt_set_tss_rsp_def)
qed

theorem process_switch_round_trip_witness:
  "\<exists>s1 t1. process_switch 0x1000 0x8000 task0 = Inr s1 \<and> process_switch 0x8000 0x1000 s1 = Inr t1 \<and> regs t1 = regs task0"
proof -
  obtain s1 where s1: "process_switch 0x1000 0x8000 task0 = Inr s1"
    using process_switch_total [of task0 "0x1000" proc0 "0x8000" proc1] by auto
  obtain p n sp where e: "procs task0 0x1000 = Some p" "procs task0 0x8000 = Some n" "vspaces task0 (pr_space n) = Some sp"
    "s1 = load_context (pr_context n) ((save_context task0)\<lparr>tabs := gdt_set_tss_rsp (pr_kstack n + 16383) (tabs task0),
       cr3 := DM_V2P (page_directory sp), procs := (procs task0)(0x1000 \<mapsto> p\<lparr>pr_context := saved_frame (regs task0)\<rparr>)\<rparr>)"
    by (rule process_switch_Inr [OF s1]) simp
  have "vspaces (save_context task0) = vspaces task0" by (simp add: save_context_def push64_def Let_def)
  then have v: "procs s1 0x8000 = Some proc1" "procs s1 0x1000 = Some (proc0\<lparr>pr_context := saved_frame (regs task0)\<rparr>)"
    "vspaces s1 sp0 = Some \<lparr>page_directory = root0, sp_region = reg0\<rparr>" "reg_rsp (regs s1) = 0x23f48"
    using e by (auto simp: load_context_eq proc1_def)
  obtain t1 where t1: "process_switch 0x8000 0x1000 s1 = Inr t1"
    using process_switch_total [OF v(1,2)] v(3) by auto
  have "\<not> pushes_to 0x23f48 (saved_frame (regs task0) + 8 * of_nat i)" if "i < 7" for i
    unfolding pushes_to_simp disj64_def saved_frame_def using that
    by (simp add: numeral_eq_Suc less_Suc_eq, elim disjE) simp_all
  then have "regs t1 = regs task0"
    using process_switch_round_trip [OF s1 _ refl refl t1] v(4) by simp
  then show ?thesis using s1 t1 by blast
qed

section \<open>The first switch to a new process\<close>

text \<open>The frame the user program starts from: 17 words of zero, then what \<^verbatim>\<open>iretq\<close> pops.\<close>

definition user_frame :: "u64 \<Rightarrow> u64 \<Rightarrow> u64 list" where
  "user_frame uentry ustack = replicate 17 0 @ [uentry, 0x1b, 0x202, ustack, 0x23]"

lemma load64_memset_zero:
  assumes "unat (b - a) + 8 \<le> unat n"
  shows "load64 (memset m a 0 n) b = 0"
proof (rule load64_zero)
  fix i :: u64 assume "i < 8"
  then have "unat i < 8" by (simp add: word_less_nat_alt)
  then have "unat (b - a + i) = unat (b - a) + unat i" using assms unat64_lt [of n] by (intro unat_add_no_wrap) linarith
  then have "b - a + i < n" using assms \<open>unat i < 8\<close> by (simp add: word_less_nat_alt)
  then show "memset m a 0 n (b + i) = 0" by (simp add: memset_apply algebra_simps)
qed

lemma load64_memset_other:
  assumes "unat n \<le> unat (b - a)" "unat (b - a) + 8 \<le> 2 ^ 64"
  shows "load64 (memset m a v n) b = load64 m b"
proof (rule load64_cong)
  fix i :: u64 assume "i < 8"
  then have "unat i < 8" by (simp add: word_less_nat_alt)
  then have "unat (b - a + i) = unat (b - a) + unat i" using assms by (intro unat_add_no_wrap) linarith
  then have "\<not> b - a + i < n" using assms by (simp add: word_less_nat_alt)
  then show "memset m a v n (b + i) = m (b + i)" by (simp add: memset_apply algebra_simps)
qed

text \<open>The top 240 bytes of a kernel stack: the context, the return address, the trap frame.\<close>

definition stack_words :: "u64 \<Rightarrow> u64 \<Rightarrow> u64 \<Rightarrow> u64 \<Rightarrow> u64 list" where
  "stack_words start ret_addr uentry ustack = [0, 0, 0, 0, 0, 0, start, ret_addr] @ user_frame uentry ustack"

definition arch_mem :: "u64 \<Rightarrow> u64 \<Rightarrow> u64 \<Rightarrow> u64 \<Rightarrow> u64 \<Rightarrow> memory \<Rightarrow> memory" where
  "arch_mem base start ret_addr uentry ustack m =
     store64 (memset (store64 (store64 (store64 (store64 (store64 (store64 (memset m (base + 64) 0 176)
       (base + 224) ustack) (base + 232) 0x23) (base + 208) 0x1b) (base + 216) 0x202) (base + 200) uentry)
       (base + 56) ret_addr) base 0 56) (base + 48) start"

lemma disj64_same_base: "disj64 (a + b) (a + c) \<longleftrightarrow> 8 \<le> c - b \<and> 8 \<le> b - c" "disj64 (a + b) a \<longleftrightarrow> 8 \<le> - b \<and> 8 \<le> b"
  by (simp_all add: disj64_def)

lemma arch_mem_words: "load_words (arch_mem base start ret_addr uentry ustack m) base 30 = stack_words start ret_addr uentry ustack"
proof -
  have z: "load64 (arch_mem base start ret_addr uentry ustack m) (base + k) = 0" if "k \<in> {8, 16, 24, 32, 40}" for k
    using that by (auto simp: arch_mem_def load64_store64_other disj64_same_base intro!: load64_memset_zero)
  have z0: "load64 (arch_mem base start ret_addr uentry ustack m) base = 0"
    by (auto simp: arch_mem_def load64_store64_other disj64_same_base intro!: load64_memset_zero)
  have w: "load64 (arch_mem base start ret_addr uentry ustack m) (base + 48) = start"
    "load64 (arch_mem base start ret_addr uentry ustack m) (base + 56) = ret_addr"
    by (simp_all add: arch_mem_def load64_store64_other load64_memset_other disj64_same_base)
  have f: "load64 (arch_mem base start ret_addr uentry ustack m) (base + k) = 0"
    if "k \<in> {64, 72, 80, 88, 96, 104, 112, 120, 128, 136, 144, 152, 160, 168, 176, 184, 192}" for k
    using that by (auto simp: arch_mem_def load64_store64_other load64_memset_other disj64_same_base intro!: load64_memset_zero)
  have g: "load64 (arch_mem base start ret_addr uentry ustack m) (base + 200) = uentry"
    "load64 (arch_mem base start ret_addr uentry ustack m) (base + 208) = 0x1b"
    "load64 (arch_mem base start ret_addr uentry ustack m) (base + 216) = 0x202"
    "load64 (arch_mem base start ret_addr uentry ustack m) (base + 224) = ustack"
    "load64 (arch_mem base start ret_addr uentry ustack m) (base + 232) = 0x23"
    by (simp_all add: arch_mem_def load64_store64_other load64_memset_other disj64_same_base)
  have r: "replicate 17 0 = [0, 0, 0, 0, 0, 0, 0, 0, 0, 0, 0, 0, 0, 0, 0, 0, 0 :: u64]" by (simp add: numeral_eq_Suc)
  show ?thesis by (simp add: load_words_def upt_rec stack_words_def user_frame_def r z z0 w f g)
qed

lemma process_arch_init_Inr:
  assumes "process_arch_init proc uentry ustack s = Inr t"
  obtains p where "procs s proc = Some p"
    "t = s\<lparr>mem := arch_mem (pr_kstack p + 16144) (first_run s) (trap_ret s) uentry ustack (mem s),
       procs := (procs s)(proc \<mapsto> p\<lparr>pr_tf := pr_kstack p + 16208, pr_context := pr_kstack p + 16144\<rparr>)\<rparr>"
proof -
  obtain p where p: "procs s proc = Some p" using assms by (auto simp: process_arch_init_def bindR_Inr_iff deref_Inr_iff)
  have u: "user_selector GDT_USER_DATA_INDEX = 0x23" "user_selector GDT_USER_CODE_INDEX = 0x1b"
    by (simp_all add: user_selector_def gdt_defs DPL_USER_def)
  have "t = s\<lparr>mem := arch_mem (pr_kstack p + 16144) (first_run s) (trap_ret s) uentry ustack (mem s),
       procs := (procs s)(proc \<mapsto> p\<lparr>pr_tf := pr_kstack p + 16208, pr_context := pr_kstack p + 16144\<rparr>)\<rparr>"
    using assms p by (simp add: process_arch_init_def set_proc_def Let_def u const_defs arch_mem_def add.commute add.left_commute)
  with p show thesis by (rule that)
qed

text \<open>
  After the architecture part of a new process is set up, the first switch to the process starts
  \<^verbatim>\<open>process_first_run\<close> with zeroed registers; that returns into \<^verbatim>\<open>trap_ret\<close> with the stack pointer at
  the trap frame, which holds zeros for the general registers, the entry point, the user code
  selector, interrupts enabled, the user stack and the user data selector.
\<close>

lemma first_switch_user_frame:
  assumes "process_arch_init proc uentry ustack s = Inr s1" "process_switch cur proc s1 = Inr s2" "cur \<noteq> proc"
    and "procs s proc = Some p"
    and "\<forall>i < 30. \<not> pushes_to (reg_rsp (regs s)) (pr_kstack p + 16144 + 8 * of_nat i)"
  shows "reg_rip (regs s2) = first_run s \<and> reg_rbx (regs s2) = 0 \<and> reg_rbp (regs s2) = 0
    \<and> reg_rip (regs (process_first_run s2)) = trap_ret s
    \<and> reg_rsp (regs (process_first_run s2)) = pr_kstack p + 16208
    \<and> load_words (mem (process_first_run s2)) (pr_kstack p + 16208) 22 = user_frame uentry ustack"
proof -
  let ?b = "pr_kstack p + 16144"
  obtain q where q: "procs s proc = Some q"
    "s1 = s\<lparr>mem := arch_mem (pr_kstack q + 16144) (first_run s) (trap_ret s) uentry ustack (mem s),
       procs := (procs s)(proc \<mapsto> q\<lparr>pr_tf := pr_kstack q + 16208, pr_context := pr_kstack q + 16144\<rparr>)\<rparr>"
    by (rule process_arch_init_Inr [OF assms(1)])
  have qp: "q = p" using q(1) assms(4) by simp
  obtain c n sp where sw: "procs s1 cur = Some c" "procs s1 proc = Some n" "vspaces s1 (pr_space n) = Some sp"
    "s2 = load_context (pr_context n) ((save_context s1)\<lparr>tabs := gdt_set_tss_rsp (pr_kstack n + 16383) (tabs s1),
       cr3 := DM_V2P (page_directory sp), procs := (procs s1)(cur \<mapsto> c\<lparr>pr_context := saved_frame (regs s1)\<rparr>)\<rparr>)"
    by (rule process_switch_Inr [OF assms(2,3)])
  have n: "pr_context n = ?b" using sw(2) q(2) qp by auto
  have "load_words (mem (save_context s1)) ?b 30 = load_words (mem s1) ?b 30"
    unfolding load_words_def using assms(5) q(2) by (intro map_cong) (simp_all add: save_context_other)
  also have "\<dots> = stack_words (first_run s) (trap_ret s) uentry ustack" using q(2) qp arch_mem_words by simp
  finally have w: "load_words (mem s2) ?b 30 = stack_words (first_run s) (trap_ret s) uentry ustack"
    by (simp add: sw(4) load_context_eq)
  have nth: "load64 (mem s2) (?b + 8 * of_nat i) = stack_words (first_run s) (trap_ret s) uentry ustack ! i" if "i < 30" for i
    unfolding w [symmetric] load_words_def using that by simp
  have r: "regs s2 = \<lparr>reg_rsp = ?b + 56, reg_rip = load64 (mem s2) (?b + 48), reg_rbx = load64 (mem s2) (?b + 40),
     reg_rbp = load64 (mem s2) (?b + 32), reg_r12 = load64 (mem s2) ?b, reg_r13 = load64 (mem s2) (?b + 8),
     reg_r14 = load64 (mem s2) (?b + 16), reg_r15 = load64 (mem s2) (?b + 24)\<rparr>"
    by (simp add: sw(4) load_context_eq n)
  have "load64 (mem s2) (?b + 48) = first_run s" "load64 (mem s2) (?b + 40) = 0" "load64 (mem s2) (?b + 32) = 0"
    "load64 (mem s2) (?b + 56) = trap_ret s"
    using nth [of 6] nth [of 5] nth [of 4] nth [of 7] by (simp_all add: stack_words_def)
  moreover have "load_words (mem s2) (?b + 64) 22 = user_frame uentry ustack"
  proof (rule nth_equalityI)
    show "length (load_words (mem s2) (?b + 64) 22) = length (user_frame uentry ustack)"
      by (simp add: load_words_def user_frame_def)
    fix i assume "i < length (load_words (mem s2) (?b + 64) 22)"
    then have i: "i < 22" by (simp add: load_words_def)
    have "?b + 64 + 8 * of_nat i = ?b + 8 * of_nat (i + 8)" by simp
    then show "load_words (mem s2) (?b + 64) 22 ! i = user_frame uentry ustack ! i"
      using i nth [of "i + 8"] by (simp add: load_words_def stack_words_def ac_simps)
  qed
  ultimately show ?thesis using r by (simp add: process_first_run_def pop64_def Let_def add.assoc)
qed

end
