(* ===== verification/Sched.thy ===== *)
theory Sched
  imports Switch
begin

text \<open>
  Signals and scheduling. A pending signal is delivered lowest number first, to its handler or to
  its default action. The scheduler walks the list of processes from the running one; its
  specification \<open>pick\<close> works on the list of nodes.
\<close>

section \<open>Signals\<close>

declare find_signal.simps [simp del]

lemma unat_small: "i < 64 \<Longrightarrow> unat (of_nat i :: u64) = i"
  by (simp add: unat_of_nat)

lemma below_nsig: "i < 64 \<Longrightarrow> (of_nat i :: u64) < of_nat PROCESS_NSIG"
  by (simp add: PROCESS_NSIG_def word_less_nat_alt unat_of_nat)

lemma SIGNAL_IS_SET_low:
  assumes "i < 31"
  shows "SIGNAL_IS_SET bm (of_nat i) = Inr (bit bm i)"
proof -
  have "bm AND push_bit i 1 \<noteq> 0 \<longleftrightarrow> bit bm i" by (auto simp: bit_iff_and_push_bit_not_eq_0)
  then show ?thesis using assms by (simp add: SIGNAL_IS_SET_def int_shl1_small unat_small)
qed

lemma SIGNAL_UNSET_low:
  assumes "i < 31"
  shows "SIGNAL_UNSET bm (of_nat i) = Inr (unset_bit i bm)"
  using assms by (simp add: SIGNAL_UNSET_def int_shl1_small unat_small unset_bit_eq_and_not)

lemma find_signal_from:
  assumes "k < 31" "bit pending k" "\<forall>j < k. \<not> bit pending j" "i \<le> k"
  shows "find_signal pending (of_nat i) = Inr (of_nat k)"
  using assms(4)
proof (induction "k - i" arbitrary: i)
  case 0
  then have "i = k" by simp
  then show ?case using assms(1,2)
    by (simp add: find_signal.simps [of _ "of_nat k"] SIGNAL_IS_SET_low below_nsig)
next
  case (Suc n)
  then have i: "i < k" by simp
  then have "\<not> bit pending i" "i < 31" using assms(1,3) by auto
  moreover have "find_signal pending (of_nat (Suc i)) = Inr (of_nat k)" using Suc.hyps(1) [of "Suc i"] Suc.hyps(2) i by simp
  ultimately show ?case
    by (simp add: find_signal.simps [of _ "of_nat i"] SIGNAL_IS_SET_low below_nsig add.commute)
qed

text \<open>Sending a number from 32 to 63 shifts an \<^verbatim>\<open>int\<close> by its width or more.\<close>

lemma signal_send_high_undefined:
  assumes "procs s proc = Some p" "32 \<le> unat signum" "unat signum < 64"
  shows "signal_send einval proc signum s = Inl Shift_UB"
  using assms by (simp add: signal_send_def SIGNAL_IS_SET_def int_shl1_big word_le_nat_alt word_less_nat_alt PROCESS_NSIG_def)

lemma signal_send_sets:
  assumes "procs s proc = Some p" "i < 31" "\<not> bit (pr_masked_signals p) i"
  shows "signal_send einval proc (of_nat i) s
    = Inr (0, s\<lparr>procs := (procs s)(proc \<mapsto> p\<lparr>pr_pending_signals := set_bit i (pr_pending_signals p)\<rparr>)\<rparr>)"
  using assms
  by (simp add: signal_send_def SIGNAL_IS_SET_low SIGNAL_SET_def int_shl1_small unat_small set_proc_def set_bit_eq_or
      PROCESS_NSIG_def word_le_nat_alt)

text \<open>
  C26. When the lowest pending signal of a process is below 31, delivery clears exactly that bit. A
  signal with a handler (other than SIGKILL) saves the trap frame in the process object and
  redirects the frame: its instruction pointer becomes the handler and its first argument
  register the signal number. A signal without one takes its default action: SIGSTOP stops the
  process, SIGCONT makes a stopped one ready, the others change nothing.
\<close>

theorem signal_deliver_lowest:
  assumes "procs s proc = Some p" "length (pr_signals_handlers p) = 64" "pr_tf p \<noteq> 0"
    and "k < 31" "bit (pr_pending_signals p) k" "\<forall>j < k. \<not> bit (pr_pending_signals p) j"
  shows "\<exists>t q. signal_deliver proc s = Inr t \<and> procs t = (procs s)(proc \<mapsto> q)
    \<and> (if pr_signals_handlers p ! k \<noteq> 0 \<and> k \<noteq> 0
       then q = p\<lparr>pr_pending_signals := unset_bit k (pr_pending_signals p), pr_saved_tf := load_words (mem s) (pr_tf p) 22\<rparr>
         \<and> load64 (mem t) (pr_tf p + tf_rip) = pr_signals_handlers p ! k
         \<and> load64 (mem t) (pr_tf p + tf_rdi) = of_nat k
         \<and> (\<forall>i < 22. i \<notin> {9, 17} \<longrightarrow> load64 (mem t) (pr_tf p + 8 * of_nat i) = load64 (mem s) (pr_tf p + 8 * of_nat i))
       else mem t = mem s \<and> q = (if k = 2 then p\<lparr>pr_pending_signals := unset_bit k (pr_pending_signals p), pr_state := PROCESS_STOPPED\<rparr>
         else if k = 3 \<and> pr_state p = PROCESS_STOPPED
         then p\<lparr>pr_pending_signals := unset_bit k (pr_pending_signals p), pr_state := PROCESS_READY\<rparr>
         else p\<lparr>pr_pending_signals := unset_bit k (pr_pending_signals p)\<rparr>))"
proof -
  have nz: "pr_pending_signals p \<noteq> 0" using assms(5) by auto
  have f: "find_signal (pr_pending_signals p) 0 = Inr (of_nat k)" using find_signal_from [OF assms(4-6), of 0] by simp
  have u: "unat (of_nat k :: u64) = k" using assms(4) by (intro unat_small) simp
  have kz: "(of_nat k :: u64) = 0 \<longleftrightarrow> k = 0" "(of_nat k :: u64) = 2 \<longleftrightarrow> k = 2" "(of_nat k :: u64) = 3 \<longleftrightarrow> k = 3"
    using u by (auto simp: word_unat_eq_iff)
  have frame: "load64 (store64 (store64 m (a + 136) v) (a + 72) w) (a + 8 * of_nat i) = load64 m (a + 8 * of_nat i)"
    if i: "i < 22" "i \<notin> {9, 17}" for m :: memory and a v w :: u64 and i :: nat
  proof -
    have ui: "unat (8 * of_nat i :: u64) = 8 * i" using i by (simp add: unat_word_ariths unat_of_nat)
    have "disj64 (a + c) (a + 8 * of_nat i)" if "unat c = 8 * j" "j \<noteq> i" "j < 22" for c j
      using that i(1) ui unfolding disj64_same_base by (auto simp: word_le_nat_alt unat_sub_if_size word_size)
    from this [of 136 17] this [of 72 9] i show ?thesis by (simp add: load64_store64_other)
  qed
  show ?thesis
  proof (cases "pr_signals_handlers p ! k \<noteq> 0 \<and> k \<noteq> 0")
    case True
    then show ?thesis
      using assms(1-4) nz f u kz frame
      by (simp add: signal_deliver_def SIGNAL_UNSET_low set_proc_def Let_def tf_rip_def tf_rdi_def
          load64_store64_other disj64_same_base)
  next
    case False
    then show ?thesis
      using assms(1-4) nz f u kz
      by (auto simp: signal_deliver_def SIGNAL_UNSET_low set_proc_def Let_def default_action_def)
  qed
qed

text \<open>The ready process of the example with signals 5 and 8 pending and a handler for signal 5.\<close>

definition task_sig :: task_state where
  "task_sig = task0\<lparr>procs := (procs task0)(0x8000 \<mapsto> proc1\<lparr>pr_pending_signals := 0x120,
     pr_signals_handlers := (replicate 64 0)[5 := 0x4242]\<rparr>)\<rparr>"

theorem signal_deliver_lowest_witness:
  "\<exists>t. signal_deliver 0x8000 task_sig = Inr t \<and> load64 (mem t) (0x23f50 + tf_rip) = 0x4242
     \<and> pr_pending_signals (the (procs t 0x8000)) = 0x100"
proof -
  let ?p = "proc1\<lparr>pr_pending_signals := 0x120, pr_signals_handlers := (replicate 64 0)[5 := 0x4242]\<rparr>"
  have p: "procs task_sig 0x8000 = Some ?p" by (simp add: task_sig_def)
  have b: "bit (0x120 :: u64) 5" "\<forall>j < 5. \<not> bit (0x120 :: u64) j"
    by (simp, simp add: numeral_eq_Suc All_less_Suc bit_Suc)
  have u: "unset_bit 5 (0x120 :: u64) = 0x100" by (simp add: unset_bit_eq_and_not)
  have "(replicate 64 (0 :: u64))[5 := 0x4242] ! 5 = 0x4242" by simp
  then show ?thesis
    using signal_deliver_lowest [OF p, of 5] b u by (auto simp: proc1_def)
qed

section \<open>The walk over the processes\<close>

text \<open>
  The specification of the walk on the nodes after the running one: the first ready process, and
  the nodes of the zombies before it.
\<close>

fun pick :: "(u64 \<rightharpoonup> process) \<Rightarrow> u64 list \<Rightarrow> u64 option \<times> u64 list" where
  "pick ps [] = (None, [])"
| "pick ps (x # xs) =
     (let proc = x - sched_list_offset; st = pr_state (the (ps proc))
      in if st = PROCESS_READY then (Some proc, [])
         else let (found, dead) = pick ps xs in (found, if st = PROCESS_ZOMBIE then x # dead else dead))"

lemma ring_next:
  assumes "ring h r (as @ y # ys)"
  obtains v where "h y = Some v" "lh_next v = hd (ys @ [r])"
proof -
  have "chain (nxt_of h) (prv_of h) ((r # as) @ y # ys @ [r])" using assms by (simp add: ring_def)
  then have "chain (nxt_of h) (prv_of h) (y # ys @ [r])" using chain_append [of _ _ "r # as" y "ys @ [r]"] by blast
  then have "nxt_of h y = Some (hd (ys @ [r]))" by (cases ys) auto
  then show thesis using that by (auto simp: nxt_of_def)
qed

lemma ring_rotate:
  assumes "ring h a (xs @ b # ys)"
  shows "ring h b (ys @ a # xs)"
proof -
  have "chain (nxt_of h) (prv_of h) ((a # xs) @ b # ys @ [a])" using assms by (simp add: ring_def)
  then have "chain (nxt_of h) (prv_of h) ((a # xs) @ [b])" "chain (nxt_of h) (prv_of h) ((b # ys) @ [a])"
    using chain_append [of "nxt_of h" "prv_of h" "a # xs" b "ys @ [a]"] by simp_all
  then have "chain (nxt_of h) (prv_of h) ((b # ys) @ a # xs @ [b])"
    using chain_append [of "nxt_of h" "prv_of h" "b # ys" a "xs @ [b]"] by simp
  then show ?thesis using assms by (auto simp: ring_def)
qed

lemma pick_dead_subset: "set (snd (pick ps xs)) \<subseteq> set xs"
  by (induction xs) (auto simp: Let_def split: prod.splits)

lemma sched_walk_ring:
  assumes "ring h r (as @ xs)" and "\<forall>x \<in> set xs. ps (x - sched_list_offset) \<noteq> None"
    and "pos = hd (xs @ [r])" and "xs \<noteq> [] \<longrightarrow> n = hd (tl xs @ [r])"
  shows "\<exists>h'. sched_walk ps r h pos n = Some (Inr (fst (pick ps xs), h'))
    \<and> ring h' r (as @ filter (\<lambda>x. x \<notin> set (snd (pick ps xs))) xs) \<and> dom h' = dom h"
  using assms
proof (induction xs arbitrary: as h pos n)
  case Nil
  then show ?case by (simp add: sched_walk.simps [of ps r h r])
next
  case (Cons x xs)
  let ?q = "x - sched_list_offset"
  obtain p where p: "ps ?q = Some p" using Cons.prems(2) by auto
  have xr: "x \<noteq> r" "distinct (x # xs)" using Cons.prems(1) by (auto simp: ring_def)
  have x: "pos = x" "n = hd (xs @ [r])" "?q + sched_list_offset = x" using Cons.prems(3,4) by simp_all
  have nd: "x \<notin> set (snd (pick ps xs))" using pick_dead_subset [of ps xs] xr(2) by auto
  show ?case
  proof (cases "pr_state p = PROCESS_READY")
    case True
    then show ?thesis using Cons.prems(1) p xr(1) x
      by (simp add: sched_walk.simps [of ps r h x] list_entry_def Let_def)
  next
    case False
    let ?z = "pr_state p = PROCESS_ZOMBIE"
    let ?as = "as @ (if ?z then [] else [x])"
    obtain h1 where h1: "(if ?z then list_del h x else Inr h) = Inr h1" "ring h1 r (?as @ xs)" "dom h1 = dom h"
      using list_del_ring [of h r as x xs] Cons.prems(1) by (cases ?z) auto
    obtain v where v: "h1 n = Some v" "xs \<noteq> [] \<longrightarrow> lh_next v = hd (tl xs @ [r])"
    proof (cases xs)
      case Nil
      then have "n \<in> dom h1" using ring_dom [OF h1(2)] x(2) by simp
      then show thesis using that Nil by blast
    next
      case (Cons y ys)
      obtain v where "h1 y = Some v" "lh_next v = hd (ys @ [r])" using ring_next [of h1 r ?as y ys] h1(2) Cons by auto
      then show thesis using that [of v] Cons x(2) by simp
    qed
    have "sched_walk ps r h pos n = sched_walk ps r h1 n (lh_next v)"
      using p False xr(1) h1(1) v(1) x by (cases ?z) (simp_all add: sched_walk.simps [of ps r _ x] list_entry_def Let_def)
    moreover obtain h' where "sched_walk ps r h1 n (lh_next v) = Some (Inr (fst (pick ps xs), h'))"
      "ring h' r (?as @ filter (\<lambda>x. x \<notin> set (snd (pick ps xs))) xs)" "dom h' = dom h1"
      using Cons.IH [OF h1(2) _ x(2) v(2)] Cons.prems(2) by auto
    moreover have "filter (\<lambda>y. y \<notin> set (snd (pick ps (x # xs)))) (x # xs)
        = (if ?z then [] else [x]) @ filter (\<lambda>y. y \<notin> set (snd (pick ps xs))) xs"
      using p False nd xr(2) by (auto simp: Let_def case_prod_beta intro!: filter_cong)
    moreover have "fst (pick ps (x # xs)) = fst (pick ps xs)" using p False by (simp add: Let_def case_prod_beta)
    ultimately show ?thesis using h1(3) by simp
  qed
qed

lemma sched_switch_run:
  assumes r: "ring (nodes s) (running s + sched_list_offset) xs"
    and ps: "\<forall>x \<in> set xs. procs s (x - sched_list_offset) \<noteq> None"
  shows "\<exists>h. ring h (running s + sched_list_offset) (filter (\<lambda>x. x \<notin> set (snd (pick (procs s) xs))) xs)
    \<and> sched_switch s = (case fst (pick (procs s) xs) of
        Some q \<Rightarrow> bindR (signal_deliver q (s\<lparr>nodes := h\<rparr>)) (process_switch (running s) q)
      | None \<Rightarrow> process_switch (running s) (sched_schleeper s) (s\<lparr>nodes := h\<rparr>))"
proof -
  let ?r = "running s + sched_list_offset"
  obtain nh where nh: "nodes s ?r = Some nh" "lh_next nh = hd (xs @ [?r])" by (rule ring_first [OF r])
  obtain np where np: "nodes s (lh_next nh) = Some np" "xs \<noteq> [] \<longrightarrow> lh_next np = hd (tl xs @ [?r])"
  proof (cases xs)
    case Nil
    then show thesis using that nh by simp
  next
    case (Cons y ys)
    obtain v where "nodes s y = Some v" "lh_next v = hd (ys @ [?r])" using ring_next [of "nodes s" ?r "[]" y ys] r Cons by auto
    then show thesis using that [of v] Cons nh(2) by simp
  qed
  obtain h where "sched_walk (procs s) ?r (nodes s) (lh_next nh) (lh_next np) = Some (Inr (fst (pick (procs s) xs), h))"
    "ring h ?r ([] @ filter (\<lambda>x. x \<notin> set (snd (pick (procs s) xs))) xs)"
    using sched_walk_ring [of "nodes s" ?r "[]" xs "procs s", OF _ ps nh(2) np(2)] r by auto
  then show ?thesis using nh(1) np(1) by (auto simp: sched_switch_def Let_def)
qed

section \<open>Properties of the scheduler\<close>

text \<open>
  The example with the memory round the head of the list read as a process whose state is
  \<^verbatim>\<open>PROCESS_RUNNING\<close>, which is 0.
\<close>

definition task_phantom :: task_state where
  "task_phantom = task0\<lparr>procs := (procs task0)(0x4b0 \<mapsto> proc0)\<rparr>"

lemma task0_ring: "ring (nodes task0) 0x1050 [0x500, 0x8050]"
  by (simp add: ring_def nxt_of_def prv_of_def)

lemma phantom_pick: "pick (procs task_phantom) [0x500, 0x8050] = (Some 0x8000, [])"
  by (simp add: task_phantom_def sched_list_offset_def proc0_def proc1_def)

lemma phantom_ring:
  "ring (nodes task_phantom) (running task_phantom + sched_list_offset) [0x500, 0x8050]"
  "\<forall>x \<in> set [0x500, 0x8050]. procs task_phantom (x - sched_list_offset) \<noteq> None"
  using task0_ring by (simp_all add: task_phantom_def sched_list_offset_def)

text \<open>The list as the boot code leaves it, and processes added to it one after the other.\<close>

fun sched_adds :: "u64 list \<Rightarrow> 'a task_state_scheme \<Rightarrow> 'a task_state_scheme res" where
  "sched_adds [] s = Inr s"
| "sched_adds (p # ps) s = bindR (sched_add p s) (sched_adds ps)"

definition node_of :: "u64 \<Rightarrow> u64" where "node_of p = p + sched_list_offset"

lemma sched_adds_ring:
  assumes "ring (nodes s) (scheduled_procs s) xs" "set (map node_of ps) \<subseteq> dom (nodes s)"
    and "distinct (map node_of ps)" "set (map node_of ps) \<inter> insert (scheduled_procs s) (set xs) = {}"
  shows "\<exists>h. sched_adds ps s = Inr (s\<lparr>nodes := h\<rparr>) \<and> ring h (scheduled_procs s) (rev (map node_of ps) @ xs)"
  using assms
proof (induction ps arbitrary: s xs)
  case Nil
  then show ?case by (intro exI [of _ "nodes s"]) simp
next
  case (Cons p ps)
  obtain h where h: "list_add (nodes s) (node_of p) (scheduled_procs s) = Inr h"
    "ring h (scheduled_procs s) (node_of p # xs)" "dom h = dom (nodes s)"
    using list_add_ring [OF Cons.prems(1), of "node_of p"] Cons.prems(2,4) by auto
  obtain h' where "sched_adds ps (s\<lparr>nodes := h\<rparr>) = Inr (s\<lparr>nodes := h\<rparr>\<lparr>nodes := h'\<rparr>)"
    "ring h' (scheduled_procs s) (rev (map node_of ps) @ node_of p # xs)"
    using Cons.IH [of "s\<lparr>nodes := h\<rparr>" "node_of p # xs"] h Cons.prems by auto
  moreover have "sched_add p s = Inr (s\<lparr>nodes := h\<rparr>)" using h(1) by (simp add: sched_add_def node_of_def)
  ultimately show ?case by (intro exI [of _ h']) simp
qed

lemma pick_spec:
  fixes ps :: "u64 \<rightharpoonup> process"
  defines "rdy \<equiv> \<lambda>p. pr_state (the (ps p)) = PROCESS_READY" and "dead \<equiv> \<lambda>p. pr_state (the (ps p)) = PROCESS_ZOMBIE"
  assumes "distinct (map node_of qs)"
  shows "fst (pick ps (map node_of qs)) = find rdy qs"
    and "filter (\<lambda>x. x \<notin> set (snd (pick ps (map node_of qs)))) (map node_of qs)
      = map node_of (filter (\<lambda>p. \<not> dead p) (takeWhile (\<lambda>p. \<not> rdy p) qs) @ dropWhile (\<lambda>p. \<not> rdy p) qs)"
proof -
  have "fst (pick ps (map node_of qs)) = find rdy qs
    \<and> filter (\<lambda>x. x \<notin> set (snd (pick ps (map node_of qs)))) (map node_of qs)
      = map node_of (filter (\<lambda>p. \<not> dead p) (takeWhile (\<lambda>p. \<not> rdy p) qs) @ dropWhile (\<lambda>p. \<not> rdy p) qs)"
    using assms(3)
  proof (induction qs)
    case (Cons q qs)
    obtain f d where fd: "pick ps (map node_of qs) = (f, d)" by fastforce
    have nq: "node_of q \<notin> set d" using pick_dead_subset [of ps "map node_of qs"] fd Cons.prems by auto
    have "filter (\<lambda>x. x \<noteq> node_of q \<and> x \<notin> set d) (map node_of qs) = filter (\<lambda>x. x \<notin> set d) (map node_of qs)"
      using Cons.prems by (intro filter_cong) (auto, metis imageI)
    moreover have "node_of q - sched_list_offset = q" by (simp add: node_of_def)
    ultimately show ?case using Cons fd nq
      by (auto simp: Let_def rdy_def dead_def)
  qed simp
  then show "fst (pick ps (map node_of qs)) = find rdy qs"
    "filter (\<lambda>x. x \<notin> set (snd (pick ps (map node_of qs)))) (map node_of qs)
      = map node_of (filter (\<lambda>p. \<not> dead p) (takeWhile (\<lambda>p. \<not> rdy p) qs) @ dropWhile (\<lambda>p. \<not> rdy p) qs)" by blast+
qed

text \<open>The list after the boot process and further processes have been put on it.\<close>

lemma sched_adds_boot:
  assumes "ring (nodes s) (scheduled_procs s) []" "distinct (map node_of (boot # ps))"
    and "set (map node_of (boot # ps)) \<subseteq> dom (nodes s) - {scheduled_procs s}"
  obtains h where "bindR (sched_init boot s) (sched_adds ps) = Inr (s\<lparr>sched_schleeper := boot, running := boot, nodes := h\<rparr>)"
    and "ring h (node_of boot) (scheduled_procs s # rev (map node_of ps))"
proof -
  let ?s = "s\<lparr>sched_schleeper := boot, running := boot\<rparr>" and ?H = "scheduled_procs s"
  have "ring (nodes ?s) (scheduled_procs ?s) []" using assms(1) by simp
  moreover have "set (map node_of (boot # ps)) \<subseteq> dom (nodes ?s)"
    "set (map node_of (boot # ps)) \<inter> insert (scheduled_procs ?s) (set []) = {}" using assms(3) by auto
  ultimately obtain h where
    h: "sched_adds (boot # ps) ?s = Inr (?s\<lparr>nodes := h\<rparr>)" "ring h ?H (rev (map node_of ps) @ [node_of boot])"
    using sched_adds_ring [of ?s "[]" "boot # ps"] assms(2) by auto
  have "ring h (node_of boot) (?H # rev (map node_of ps))"
    using ring_rotate [of h ?H "rev (map node_of ps)" "node_of boot" "[]"] h(2) by simp
  moreover have "bindR (sched_init boot s) (sched_adds ps) = Inr (?s\<lparr>nodes := h\<rparr>)"
    using h(1) by (simp add: sched_init_def)
  ultimately show thesis using that by simp
qed

text \<open>
  C18. After the boot process and the processes \<open>ps\<close> have been put on the list: a scheduler run switches
  to the ready process that was added last, after delivering its signal, and takes exactly the
  zombies added after it off the list; when no process is ready it switches to the boot process. The
  walk passes over the head of the list, taken for a process too, so this holds when the static
  memory read there as its state is neither ready nor zombie (zeros read as running).
\<close>

theorem sched_switch_picks_first_ready:
  assumes "ring (nodes s) (scheduled_procs s) []" "distinct (map node_of (boot # ps))"
    and "set (map node_of (boot # ps)) \<subseteq> dom (nodes s) - {scheduled_procs s}" "\<forall>p \<in> set ps. procs s p \<noteq> None"
    and "procs s (scheduled_procs s - sched_list_offset) = Some hd_bytes" "pr_state hd_bytes \<notin> {PROCESS_READY, PROCESS_ZOMBIE}"
  defines "rdy \<equiv> \<lambda>p. pr_state (the (procs s p)) = PROCESS_READY" and "dead \<equiv> \<lambda>p. pr_state (the (procs s p)) = PROCESS_ZOMBIE"
  shows "\<exists>t h. bindR (sched_init boot s) (sched_adds ps) = Inr t
    \<and> ring h (scheduled_procs s) (map node_of (filter (\<lambda>p. \<not> dead p) (takeWhile (\<lambda>p. \<not> rdy p) (rev ps))
        @ dropWhile (\<lambda>p. \<not> rdy p) (rev ps) @ [boot]))
    \<and> sched_switch t = (case find rdy (rev ps) of
        Some q \<Rightarrow> bindR (signal_deliver q (t\<lparr>nodes := h\<rparr>)) (process_switch boot q)
      | None \<Rightarrow> process_switch boot boot (t\<lparr>nodes := h\<rparr>))"
proof -
  let ?H = "scheduled_procs s" and ?ns = "map node_of (rev ps)"
  let ?keep = "filter (\<lambda>p. \<not> dead p) (takeWhile (\<lambda>p. \<not> rdy p) (rev ps)) @ dropWhile (\<lambda>p. \<not> rdy p) (rev ps)"
  obtain h0 where h0: "bindR (sched_init boot s) (sched_adds ps) = Inr (s\<lparr>sched_schleeper := boot, running := boot, nodes := h0\<rparr>)"
    "ring h0 (node_of boot) (?H # rev (map node_of ps))" by (rule sched_adds_boot [OF assms(1-3)])
  let ?t = "s\<lparr>sched_schleeper := boot, running := boot, nodes := h0\<rparr>"
  have r: "ring (nodes ?t) (running ?t + sched_list_offset) (?H # ?ns)" using h0(2) by (simp add: node_of_def rev_map)
  have ps: "\<forall>x \<in> set (?H # ?ns). procs ?t (x - sched_list_offset) \<noteq> None" using assms(4,5) by (auto simp: node_of_def)
  have pk: "fst (pick (procs s) (?H # ?ns)) = find rdy (rev ps)" "snd (pick (procs s) (?H # ?ns)) = snd (pick (procs s) ?ns)"
    "filter (\<lambda>x. x \<notin> set (snd (pick (procs s) ?ns))) ?ns = map node_of ?keep"
    using pick_spec [of "rev ps" "procs s"] assms(2,5,6) unfolding rdy_def dead_def
    by (simp_all add: rev_map [symmetric] Let_def case_prod_beta)
  have "?H \<notin> set ?ns" using h0(2) by (auto simp: ring_def)
  then have "?H \<notin> set (snd (pick (procs s) ?ns))" using pick_dead_subset by blast
  then have fl: "filter (\<lambda>x. x \<notin> set (snd (pick (procs s) (?H # ?ns)))) (?H # ?ns) = ?H # map node_of ?keep"
    using pk(2,3) by simp
  have tf: "procs ?t = procs s" "running ?t = boot" "sched_schleeper ?t = boot" "boot + sched_list_offset = node_of boot"
    by (simp_all add: node_of_def)
  obtain h where h: "ring h (node_of boot) (?H # map node_of ?keep)"
    "sched_switch ?t = (case find rdy (rev ps) of
        Some q \<Rightarrow> bindR (signal_deliver q (?t\<lparr>nodes := h\<rparr>)) (process_switch boot q)
      | None \<Rightarrow> process_switch boot boot (?t\<lparr>nodes := h\<rparr>))"
    using sched_switch_run [OF r ps] unfolding tf fl pk(1) by blast
  have "ring h ?H (map node_of ?keep @ [node_of boot])" using ring_rotate [of h "node_of boot" "[]" ?H "map node_of ?keep"] h(1) by simp
  then show ?thesis using h0(1) h(2) by (intro exI [of _ ?t] exI [of _ h]) simp
qed

theorem sched_switch_picks_first_ready_witness:
  "\<exists>t h. bindR (sched_init 0x1000 (task_phantom\<lparr>nodes := (nodes task0)(0x500 \<mapsto> LIST_HEAD_INIT 0x500)\<rparr>)) (sched_adds [0x8000]) = Inr t
     \<and> ring h 0x500 [0x8050, 0x1050]
     \<and> sched_switch t = bindR (signal_deliver 0x8000 (t\<lparr>nodes := h\<rparr>)) (process_switch 0x1000 0x8000)"
proof -
  let ?s = "task_phantom\<lparr>nodes := (nodes task0)(0x500 \<mapsto> LIST_HEAD_INIT 0x500)\<rparr>"
  have f: "procs task_phantom = (procs task0)(0x4b0 \<mapsto> proc0)" "scheduled_procs task_phantom = 0x500"
    by (simp_all add: task_phantom_def)
  have h: "ring (nodes ?s) (scheduled_procs ?s) []" "distinct (map node_of [0x1000, 0x8000])"
    "set (map node_of [0x1000, 0x8000]) \<subseteq> dom (nodes ?s) - {scheduled_procs ?s}" "\<forall>p \<in> set [0x8000]. procs ?s p \<noteq> None"
    "procs ?s (scheduled_procs ?s - sched_list_offset) = Some proc0" "pr_state proc0 \<notin> {PROCESS_READY, PROCESS_ZOMBIE}"
    by (simp_all add: f ring_def nxt_of_def prv_of_def LIST_HEAD_INIT_def node_of_def sched_list_offset_def) (simp add: proc0_def)
  have st: "pr_state (the (procs ?s 0x8000)) = PROCESS_READY" by (simp add: f) (simp add: proc1_def)
  from sched_switch_picks_first_ready [OF h] show ?thesis using st
    by (simp add: f(2) del: fun_upd_apply) (simp add: node_of_def sched_list_offset_def)
qed

text \<open>
  C38. After the boot process and any further processes have been put on the list, the first node the
  scheduler looks at is the head of the list itself, which it takes for a node inside a process:
  when no process object lies at that place the run is an access outside every object.
\<close>

theorem sched_switch_takes_head_for_process:
  assumes "ring (nodes s) (scheduled_procs s) []" "distinct (map node_of (boot # ps))"
    and "set (map node_of (boot # ps)) \<subseteq> dom (nodes s) - {scheduled_procs s}"
    and "procs s (scheduled_procs s - sched_list_offset) = None"
  shows "\<exists>t. bindR (sched_init boot s) (sched_adds ps) = Inr t \<and> sched_switch t = Inl Fault"
proof -
  obtain h where h: "bindR (sched_init boot s) (sched_adds ps) = Inr (s\<lparr>sched_schleeper := boot, running := boot, nodes := h\<rparr>)"
    and r: "ring h (node_of boot) (scheduled_procs s # rev (map node_of ps))" by (rule sched_adds_boot [OF assms(1-3)])
  let ?H = "scheduled_procs s"
  obtain n where n: "h (node_of boot) = Some n" "lh_next n = ?H" using ring_first [OF r] by auto
  have hd: "?H \<noteq> node_of boot" "?H \<in> dom h" using r ring_dom [OF r] by (auto simp: ring_def)
  then obtain m where m: "h ?H = Some m" by auto
  have "sched_switch (s\<lparr>sched_schleeper := boot, running := boot, nodes := h\<rparr>) = Inl Fault"
    using n m hd(1) assms(4) by (simp add: sched_switch_def Let_def node_of_def sched_walk.simps list_entry_def)
  then show ?thesis using h by blast
qed

theorem sched_switch_takes_head_for_process_witness:
  "\<exists>t. bindR (sched_init 0x1000 (task0\<lparr>nodes := (nodes task0)(0x500 \<mapsto> LIST_HEAD_INIT 0x500)\<rparr>)) (sched_adds [0x8000]) = Inr t
     \<and> sched_switch t = Inl Fault"
  by (rule sched_switch_takes_head_for_process)
    (simp_all add: ring_def nxt_of_def prv_of_def LIST_HEAD_INIT_def node_of_def sched_list_offset_def)

lemma pick_cong:
  assumes "\<And>x. x \<in> set xs \<Longrightarrow> pr_state (the (ps' (x - sched_list_offset))) = pr_state (the (ps (x - sched_list_offset)))"
  shows "pick ps' xs = pick ps xs"
  using assms by (induction xs) (simp_all add: Let_def)

lemma pick_again:
  assumes "pick ps xs = (found, dead)" "distinct xs"
  shows "pick ps (filter (\<lambda>x. x \<notin> set dead) xs) = (found, [])"
  using assms
proof (induction xs arbitrary: found dead)
  case Nil
  then show ?case by simp
next
  case (Cons x xs)
  obtain f d where fd: "pick ps xs = (f, d)" by fastforce
  have "x \<notin> set d" using pick_dead_subset [of ps xs] fd Cons.prems(2) by auto
  moreover have "filter (\<lambda>y. y \<noteq> x \<and> y \<notin> set d) xs = filter (\<lambda>y. y \<notin> set d) xs" using Cons.prems(2) by (auto intro: filter_cong)
  ultimately show ?case
    using Cons.IH [OF fd] Cons.prems fd by (auto simp: Let_def split: if_splits)
qed

lemma sched_switch_to:
  assumes ring: "ring (nodes s) (running s + sched_list_offset) xs" "\<forall>x \<in> set xs. procs s (x - sched_list_offset) \<noteq> None"
    and q: "fst (pick (procs s) xs) = Some q" "q \<noteq> running s" "procs s q = Some pq" "pr_pending_signals pq = 0"
    and r: "procs s (running s) = Some pr" "vspaces s (pr_space pq) = Some sp"
  shows "\<exists>t. sched_switch s = Inr t \<and> ring (nodes t) (running s + sched_list_offset) (filter (\<lambda>x. x \<notin> set (snd (pick (procs s) xs))) xs)
    \<and> running t = running s \<and> procs t = (procs s)(running s \<mapsto> pr\<lparr>pr_context := saved_frame (regs s)\<rparr>)
    \<and> saved_frame (regs t) = pr_context pq \<and> vspaces t = vspaces s"
proof -
  obtain h where h: "ring h (running s + sched_list_offset) (filter (\<lambda>x. x \<notin> set (snd (pick (procs s) xs))) xs)"
    "sched_switch s = bindR (signal_deliver q (s\<lparr>nodes := h\<rparr>)) (process_switch (running s) q)"
    using sched_switch_run [OF ring] q(1) by auto
  let ?s = "s\<lparr>nodes := h\<rparr>"
  have d: "signal_deliver q ?s = Inr ?s" using q(3,4) by (simp add: signal_deliver_def)
  obtain t where t: "process_switch (running s) q ?s = Inr t" using process_switch_total [of ?s "running s" pr q pq sp] r q(3) by auto
  have ne: "running s \<noteq> q" using q(2) by simp
  obtain p n sp' where e: "procs ?s (running s) = Some p" "procs ?s q = Some n" "vspaces ?s (pr_space n) = Some sp'"
    "t = load_context (pr_context n) ((save_context ?s)\<lparr>tabs := gdt_set_tss_rsp (pr_kstack n + 16383) (tabs ?s),
       cr3 := DM_V2P (page_directory sp'), procs := (procs ?s)(running s \<mapsto> p\<lparr>pr_context := saved_frame (regs ?s)\<rparr>)\<rparr>)"
    by (rule process_switch_Inr [OF t ne])
  have "n = pq" "p = pr" using e(1,2) q(3) r(1) by simp_all
  moreover have "nodes (save_context ?s) = h" "running (save_context ?s) = running s" "vspaces (save_context ?s) = vspaces s"
    by (simp_all add: save_context_def push64_def Let_def)
  ultimately show ?thesis using h d t e(4) by (auto simp: load_context_eq saved_frame_def)
qed

text \<open>
  The variable that names the running process is never updated. When the scheduler picks the
  same ready process twice in a row, the second run saves that process's stack pointer as the
  context of the process that was running first: its own saved context is lost.
\<close>

theorem sched_switch_twice_loses_context:
  assumes "ring (nodes s) (running s + sched_list_offset) xs" "\<forall>x \<in> set xs. procs s (x - sched_list_offset) \<noteq> None"
    and "fst (pick (procs s) xs) = Some q" "q \<noteq> running s" "procs s q = Some pq" "pr_pending_signals pq = 0"
    and "procs s (running s) = Some pr" "vspaces s (pr_space pq) = Some sp"
  shows "\<exists>s1 s2 p. sched_switch s = Inr s1 \<and> sched_switch s1 = Inr s2 \<and> running s2 = running s
    \<and> procs s1 (running s) = Some (pr\<lparr>pr_context := saved_frame (regs s)\<rparr>)
    \<and> procs s2 (running s) = Some p \<and> pr_context p = pr_context pq"
proof -
  let ?r = "running s + sched_list_offset"
  let ?ys = "filter (\<lambda>x. x \<notin> set (snd (pick (procs s) xs))) xs"
  obtain s1 where s1: "sched_switch s = Inr s1" "ring (nodes s1) ?r ?ys" "running s1 = running s"
    "procs s1 = (procs s)(running s \<mapsto> pr\<lparr>pr_context := saved_frame (regs s)\<rparr>)"
    "saved_frame (regs s1) = pr_context pq" "vspaces s1 = vspaces s"
    using sched_switch_to [OF assms] by auto
  have off: "x - sched_list_offset \<noteq> running s" if "x \<in> set xs" for x
  proof
    assume "x - sched_list_offset = running s"
    then have "x = ?r" by (metis diff_add_cancel)
    then show False using assms(1) that by (simp add: ring_def)
  qed
  have "pick (procs s1) ?ys = pick (procs s) ?ys" by (rule pick_cong) (use off in \<open>auto simp: s1(4)\<close>)
  also have "\<dots> = (Some q, [])" using pick_again [of "procs s" xs "Some q"] assms(1,3) by (simp add: prod_eq_iff ring_def)
  finally have pk: "fst (pick (procs s1) ?ys) = Some q" by simp
  have "\<forall>x \<in> set ?ys. procs s1 (x - sched_list_offset) \<noteq> None" using assms(2) by (simp add: s1(4))
  from sched_switch_to [of s1 ?ys q pq "pr\<lparr>pr_context := saved_frame (regs s)\<rparr>" sp] this pk s1 assms(4-6,8)
  obtain s2 where "sched_switch s1 = Inr s2" "running s2 = running s"
    "procs s2 = (procs s1)(running s \<mapsto> pr\<lparr>pr_context := saved_frame (regs s), pr_context := pr_context pq\<rparr>)" by auto
  then show ?thesis using s1(1,4) by auto
qed

theorem sched_switch_twice_loses_context_witness:
  "\<exists>s1 s2 p. sched_switch task_phantom = Inr s1 \<and> sched_switch s1 = Inr s2 \<and> procs s2 0x1000 = Some p \<and> pr_context p = 0x23f10"
proof -
  have k: "fst (pick (procs task_phantom) [0x500, 0x8050]) = Some 0x8000" unfolding phantom_pick by simp
  have h: "0x8000 \<noteq> running task_phantom" "procs task_phantom 0x8000 = Some proc1" "pr_pending_signals proc1 = 0"
    "procs task_phantom (running task_phantom) = Some proc0"
    "vspaces task_phantom (pr_space proc1) = Some \<lparr>page_directory = root0, sp_region = reg0\<rparr>"
    by (simp_all add: task_phantom_def, simp add: proc1_def proc0_def)
  have "running task_phantom = 0x1000" "pr_context proc1 = 0x23f10" by (simp_all add: task_phantom_def proc1_def)
  with sched_switch_twice_loses_context [OF phantom_ring k h] show ?thesis by auto
qed

end
