(* ===== verification/Acpi.thy ===== *)
theory Acpi
  imports Layout Kstring
begin

text \<open>
  The ACPI table walk of \<^verbatim>\<open>kernel/drivers/acpi/acpi.c\<close> over byte memory: the root pointer with its
  checksum, the search of a table by signature and the search of an entry of the interrupt
  controller table. The field offsets are those of the packed structs of \<^verbatim>\<open>acpi.h\<close>.
\<close>

section \<open>Structures as offsets\<close>

definition load32 :: "memory \<Rightarrow> u64 \<Rightarrow> u32" where
  "load32 m a = ucast (m a) OR push_bit 8 (ucast (m (a + 1))) OR push_bit 16 (ucast (m (a + 2)))
     OR push_bit 24 (ucast (m (a + 3)))"

text \<open>\<^verbatim>\<open>struct acpi_rsdp\<close>: signature at 0, checksum at 8, table address at 16; 20 bytes.\<close>

definition sizeof_acpi_rsdp :: u64 where "sizeof_acpi_rsdp = 20"
definition rsdp_rsdt_address :: "memory \<Rightarrow> u64 \<Rightarrow> u32" where "rsdp_rsdt_address m rsdp = load32 m (rsdp + 16)"

text \<open>\<^verbatim>\<open>struct acpi_header\<close>: signature at 0, length at 4; 36 bytes.\<close>

definition sizeof_acpi_header :: u64 where "sizeof_acpi_header = 36"
definition header_length :: "memory \<Rightarrow> u64 \<Rightarrow> u32" where "header_length m h = load32 m (h + 4)"

text \<open>The entries of \<^verbatim>\<open>struct acpi_rsdt\<close>, \<^verbatim>\<open>struct acpi_madt\<close> and \<^verbatim>\<open>struct acpi_madt_entry\<close>.\<close>

definition rsdt_sdt :: "memory \<Rightarrow> u64 \<Rightarrow> u32 \<Rightarrow> u32" where "rsdt_sdt m rsdt i = load32 m (rsdt + 36 + 4 * ucast i)"
definition madt_entries :: "u64 \<Rightarrow> u64" where "madt_entries madt = madt + 44"
definition madt_entry_type :: "memory \<Rightarrow> u64 \<Rightarrow> u8" where "madt_entry_type m e = m e"
definition madt_entry_length :: "memory \<Rightarrow> u64 \<Rightarrow> u8" where "madt_entry_length m e = m (e + 1)"
definition madt_io_apic_address :: "memory \<Rightarrow> u64 \<Rightarrow> u32" where "madt_io_apic_address m e = load32 m (e + 4)"
definition acpi_hpet_address :: "memory \<Rightarrow> u64 \<Rightarrow> u64" where "acpi_hpet_address m h = load64 m (h + 44)"

definition ACPI_MADT_LAPIC :: u8 where "ACPI_MADT_LAPIC = 0"
definition ACPI_MADT_IO_APIC :: u8 where "ACPI_MADT_IO_APIC = 1"
definition ACPI_MADT_IO_APIC_INTERRUPT_SOURCE_OVERRIDE :: u8 where "ACPI_MADT_IO_APIC_INTERRUPT_SOURCE_OVERRIDE = 2"
definition ACPI_MADT_IO_APIC_NMI :: u8 where "ACPI_MADT_IO_APIC_NMI = 3"
definition ACPI_MADT_LOCAL_APIC_NMI :: u8 where "ACPI_MADT_LOCAL_APIC_NMI = 4"
definition ACPI_MADT_LAPIC_ADDRESS_OVERRIDE :: u8 where "ACPI_MADT_LAPIC_ADDRESS_OVERRIDE = 5"
definition ACPI_MADT_LX2APIC :: u8 where "ACPI_MADT_LX2APIC = 9"

record acpi_state =
  rsdt :: u64
  madt :: u64

section \<open>Operations\<close>

function checksum_loop :: "memory \<Rightarrow> u64 \<Rightarrow> u64 \<Rightarrow> u8 \<Rightarrow> u8" where
  "checksum_loop m ptr sz acc = (if sz = 0 then acc else checksum_loop m ptr (sz - 1) (acc + m (ptr + (sz - 1))))"
  by pat_completeness auto
termination
  by (relation "measure (\<lambda>(m, ptr, sz, acc). unat sz)") (auto intro: word_down_decreases)

definition checksum :: "memory \<Rightarrow> u64 \<Rightarrow> u64 \<Rightarrow> u8" where
  "checksum m ptr sz = checksum_loop m ptr sz 0"

lemma u32_lt: "unat (n :: u32) < 2 ^ 32"
  by (rule order_less_le_trans [OF unsigned_less]) simp

lemma u32_up_decreases:
  fixes i n :: u32
  assumes "i < n"
  shows "unat n - unat (i + 1) < unat n - unat i"
  using assms u32_lt [of n] by (simp add: word_less_nat_alt unat_word_ariths)

lemma unat_ucast_u32: "unat (ucast (x :: u32) :: u64) = unat x"
  by transfer (simp add: take_bit_take_bit take_bit_nat_eq_self)

text \<open>The number of entries: the length is widened before the header size is taken off.\<close>

definition rsdt_count :: "memory \<Rightarrow> u64 \<Rightarrow> u32" where
  "rsdt_count m r = ucast ((ucast (header_length m r) - sizeof_acpi_header) div 4)"

function find_table_loop :: "memory \<Rightarrow> u64 \<Rightarrow> u64 \<Rightarrow> u32 \<Rightarrow> u32 \<Rightarrow> u64" where
  "find_table_loop m r sig entries i =
     (if i < entries
      then let h = DM_P2V (ucast (rsdt_sdt m r i))
           in if memcmp m h sig 4 = 0 then h else find_table_loop m r sig entries (i + 1)
      else 0)"
  by pat_completeness auto
termination
  by (relation "measure (\<lambda>(m, r, sig, entries, i). unat entries - unat i)") (auto intro: u32_up_decreases)

definition acpi_find_table :: "memory \<Rightarrow> acpi_state \<Rightarrow> u64 \<Rightarrow> u64" where
  "acpi_find_table m s sig = find_table_loop m (rsdt s) sig (rsdt_count m (rsdt s)) 0"

definition acpi_copy_table :: "memory \<Rightarrow> acpi_state \<Rightarrow> u64 \<Rightarrow> u64 \<Rightarrow> u8 \<times> memory" where
  "acpi_copy_table m s sig dst =
     (let ptr = acpi_find_table m s sig
      in if ptr = 0 then (1, m) else (0, snd (memcpy m dst ptr (ucast (header_length m ptr)))))"

text \<open>\<open>rsd_ptr\<close> is the address of the literal \<^verbatim>\<open>"RSD PTR "\<close>, \<open>apic_sig\<close> that of \<^verbatim>\<open>"APIC"\<close>.\<close>

definition acpi_init :: "u64 \<Rightarrow> memory \<Rightarrow> acpi_state \<Rightarrow> u64 \<Rightarrow> acpi_state res" where
  "acpi_init rsd_ptr m s rsdp =
     (if memcmp m rsdp rsd_ptr 8 \<noteq> 0 \<or> checksum m rsdp sizeof_acpi_rsdp \<noteq> 0
      then Inl (Panic ''acpi_init: invalid rsdp'')
      else let s' = s\<lparr>rsdt := DM_P2V (ucast (rsdp_rsdt_address m rsdp))\<rparr>
           in if checksum m (rsdt s') (ucast (header_length m (rsdt s'))) \<noteq> 0
              then Inl (Panic ''acpi_init: invalid rsdt'') else Inr s')"

partial_function (option) madt_find_loop :: "memory \<Rightarrow> u8 \<Rightarrow> u64 \<Rightarrow> u64 \<Rightarrow> u64 option" where
  "madt_find_loop m type stop entry =
     (if entry < stop
      then if madt_entry_type m entry = type then Some entry
           else madt_find_loop m type stop (entry + ucast (madt_entry_length m entry))
      else Some 0)"

definition acpi_madt_find :: "u64 \<Rightarrow> memory \<Rightarrow> acpi_state \<Rightarrow> u8 \<Rightarrow> (u64 \<times> acpi_state) res" where
  "acpi_madt_find apic_sig m s type =
     bindR (if madt s = 0
            then let p = acpi_find_table m s apic_sig
                 in if p = 0 then Inl Fault
                    else if checksum m p (ucast (header_length m p)) \<noteq> 0 then Inl (Panic ''acpi_madt_find: invalid madt'')
                    else Inr (s\<lparr>madt := p\<rparr>)
            else Inr s) (\<lambda>s'.
     bindR (ret (map_option Inr (madt_find_loop m type (madt s' + ucast (header_length m (madt s'))) (madt_entries (madt s')))))
       (\<lambda>e. Inr (e, s')))"

declare checksum_loop.simps [simp del] find_table_loop.simps [simp del]

section \<open>Closed forms\<close>

text \<open>
  The bytes of an area, and the addresses of the tables the root table lists: its length field counts
  the 36 bytes of the header and one 32-bit physical address for each table.
\<close>

definition bytes_at :: "memory \<Rightarrow> u64 \<Rightarrow> nat \<Rightarrow> u8 list" where
  "bytes_at m a n = map (\<lambda>i. m (a + of_nat i)) [0..<n]"

definition sdt_list :: "memory \<Rightarrow> u64 \<Rightarrow> u64 list" where
  "sdt_list m r = map (\<lambda>i. DM_P2V (ucast (load32 m (r + 36 + 4 * of_nat i)))) [0..<(unat (load32 m (r + 4)) - 36) div 4]"

lemma checksum_loop_sum: "checksum_loop m ptr sz acc = acc + sum_list (bytes_at m ptr (unat sz))"
proof (induction m ptr sz acc rule: checksum_loop.induct)
  case (1 m ptr sz acc)
  show ?case
  proof (cases "sz = 0")
    case True
    then show ?thesis by (simp add: checksum_loop.simps [of _ _ 0] bytes_at_def)
  next
    case False
    then have u: "unat sz = Suc (unat (sz - 1))" by (simp add: unat_minus_one unat_gt_0)
    have "checksum_loop m ptr sz acc = acc + m (ptr + (sz - 1)) + sum_list (bytes_at m ptr (unat (sz - 1)))"
      using 1 False by (simp add: checksum_loop.simps [of _ _ sz])
    then show ?thesis unfolding bytes_at_def u by simp
  qed
qed

lemma checksum_sum: "checksum m ptr sz = sum_list (bytes_at m ptr (unat sz))"
  by (simp add: checksum_def checksum_loop_sum)

lemma memcmp_bytes:
  "memcmp m a b sz = 0 \<longleftrightarrow> bytes_at m a (unat sz) = bytes_at m b (unat sz)"
proof -
  have "(\<forall>i < sz. m (a + i) = m (b + i)) \<longleftrightarrow> (\<forall>k < unat sz. m (a + of_nat k) = m (b + of_nat k))"
  proof
    assume l: "\<forall>i < sz. m (a + i) = m (b + i)"
    show "\<forall>k < unat sz. m (a + of_nat k) = m (b + of_nat k)"
    proof (intro allI impI)
      fix k assume k: "k < unat sz"
      then have "k < 2 ^ 64" using unat64_lt [of sz] by simp
      then have "(of_nat k :: u64) < sz" using k by (simp add: word_less_nat_alt unat_of_nat64)
      then show "m (a + of_nat k) = m (b + of_nat k)" using l by blast
    qed
  next
    assume r: "\<forall>k < unat sz. m (a + of_nat k) = m (b + of_nat k)"
    show "\<forall>i < sz. m (a + i) = m (b + i)"
    proof (intro allI impI)
      fix i assume "i < sz"
      then have "unat i < unat sz" by (simp add: word_less_nat_alt)
      then show "m (a + i) = m (b + i)" using r by fastforce
    qed
  qed
  then show ?thesis by (auto simp: memcmp_eq bytes_at_def)
qed

lemma find_table_loop_find:
  assumes "unat i \<le> unat entries"
  shows "find_table_loop m r sig entries i = (case find (\<lambda>h. bytes_at m h 4 = bytes_at m sig 4)
     (map (\<lambda>k. DM_P2V (ucast (rsdt_sdt m r (of_nat k)))) [unat i..<unat entries]) of None \<Rightarrow> 0 | Some h \<Rightarrow> h)"
  using assms
proof (induction m r sig entries i rule: find_table_loop.induct)
  case (1 m r sig entries i)
  show ?case
  proof (cases "i < entries")
    case True
    then have lt: "unat i < unat entries" by (simp add: word_less_nat_alt)
    then have "unat (i + 1) = Suc (unat i)"
      using u32_lt [of entries] by (simp add: unat_word_ariths)
    then show ?thesis
      using 1 True lt memcmp_bytes [of m _ sig 4]
      by (simp add: find_table_loop.simps [of _ _ _ _ i] Let_def upt_conv_Cons)
  next
    case False
    then show ?thesis using 1(2) by (simp add: find_table_loop.simps [of _ _ _ _ i] word_less_nat_alt)
  qed
qed

text \<open>A root table at least as long as its header has as many entries as fit behind the header.\<close>

lemma rsdt_count_entries:
  assumes "36 \<le> unat (header_length m r)"
  shows "unat (rsdt_count m r) = (unat (load32 m (r + 4)) - 36) div 4"
proof -
  let ?l = "ucast (header_length m r) :: u64"
  have u: "unat ?l = unat (load32 m (r + 4))" unfolding unat_ucast_u32 header_length_def ..
  have "unat (?l - 36) = unat ?l - 36"
    using assms by (subst unat_sub) (simp_all add: word_le_nat_alt unat_ucast_u32)
  then have "unat ((?l - 36) div 4) = (unat (load32 m (r + 4)) - 36) div 4" by (simp add: unat_div u)
  moreover have "(unat (load32 m (r + 4)) - 36) div 4 < 2 ^ 32" using u32_lt [of "load32 m (r + 4)"] by linarith
  ultimately show ?thesis
    unfolding rsdt_count_def sizeof_acpi_header_def
    by (simp add: unsigned_ucast_eq take_bit_nat_eq_self)
qed

lemma sdt_list_eq:
  assumes "36 \<le> unat (header_length m r)"
  shows "sdt_list m r = map (\<lambda>i. DM_P2V (ucast (rsdt_sdt m r (of_nat i)))) [0..<unat (rsdt_count m r)]"
  unfolding sdt_list_def rsdt_count_entries [OF assms]
proof (rule map_cong [OF refl])
  fix i assume "i \<in> set [0..<(unat (load32 m (r + 4)) - 36) div 4]"
  then have "i < 2 ^ 32" using u32_lt [of "load32 m (r + 4)"] by simp
  then have "ucast (of_nat i :: u32) = (of_nat i :: u64)"
    by (intro word_unat_eq_iff [THEN iffD2]) (simp add: unat_ucast_u32 unat_of_nat)
  then show "DM_P2V (ucast (load32 m (r + 36 + 4 * of_nat i))) = DM_P2V (ucast (rsdt_sdt m r (of_nat i)))"
    by (simp add: rsdt_sdt_def)
qed

section \<open>Properties\<close>

text \<open>
  C35. With a root table at least as long as its header, the table search returns the first of the
  tables the root table lists, one for each 32-bit address behind the header, whose first four bytes
  are the signature, and NULL when there is none.
\<close>

theorem acpi_find_table_first:
  assumes "36 \<le> unat (header_length m (rsdt s))"
  shows "acpi_find_table m s sig = (case find (\<lambda>h. bytes_at m h 4 = bytes_at m sig 4) (sdt_list m (rsdt s)) of
     None \<Rightarrow> 0 | Some h \<Rightarrow> h)"
  using find_table_loop_find [of 0 "rsdt_count m (rsdt s)" m "rsdt s" sig]
  by (simp add: acpi_find_table_def sdt_list_eq [OF assms])

text \<open>A root table that lists two tables, of which the second is the one looked for.\<close>

definition acpi1 :: memory where
  "acpi1 = (\<lambda>a. 0)(0x10 := 65, 0x11 := 80, 0x12 := 73, 0x13 := 67, 0x204 := 44, 0x225 := 4, 0x229 := 3,
     0xffff800000000300 := 65, 0xffff800000000301 := 80, 0xffff800000000302 := 73, 0xffff800000000303 := 67)"

theorem acpi_find_table_first_witness:
  "acpi_find_table acpi1 \<lparr>rsdt = 0x200, madt = 0\<rparr> 0x10 = 0xffff800000000300"
proof -
  have "header_length acpi1 0x200 = 44" by (simp add: header_length_def load32_def acpi1_def)
  moreover have "sdt_list acpi1 0x200 = [0xffff800000000400, 0xffff800000000300]"
    by (simp add: sdt_list_def load32_def acpi1_def DM_P2V_def HIGHER_HALF_START_def upt_rec)
  moreover have "bytes_at acpi1 0x10 4 = [65, 80, 73, 67]" "bytes_at acpi1 0xffff800000000300 4 = [65, 80, 73, 67]"
    "bytes_at acpi1 0xffff800000000400 4 = [0, 0, 0, 0]"
    by (simp_all add: bytes_at_def acpi1_def upt_rec)
  ultimately show ?thesis using acpi_find_table_first [of acpi1 "\<lparr>rsdt = 0x200, madt = 0\<rparr>" "0x10"] by simp
qed

text \<open>
  Initialisation accepts a root pointer exactly when its signature matches and the bytes of the
  root pointer and those of the root table both add up to 0 modulo 256; it then remembers the
  direct-mapping address of the root table, and in every other case it panics.
\<close>

theorem acpi_init_validates:
  "acpi_init lit m s rsdp =
     (if bytes_at m rsdp 8 = bytes_at m lit 8 \<and> sum_list (bytes_at m rsdp 20) = 0
      then let r = DM_P2V (ucast (rsdp_rsdt_address m rsdp))
           in if sum_list (bytes_at m r (unat (header_length m r))) = 0 then Inr (s\<lparr>rsdt := r\<rparr>)
              else Inl (Panic ''acpi_init: invalid rsdt'')
      else Inl (Panic ''acpi_init: invalid rsdp''))"
proof -
  note unat_ucast_u32 [simp]
  show ?thesis using memcmp_bytes [of m rsdp lit 8]
    by (simp add: acpi_init_def checksum_sum Let_def sizeof_acpi_rsdp_def)
qed

text \<open>
  The entries of the interrupt controller table from an address on: each starts where the length
  byte of the one before it ends, and the last ends at \<open>stop\<close> or beyond it.
\<close>

fun entries_at :: "memory \<Rightarrow> u64 \<Rightarrow> u64 \<Rightarrow> u64 list \<Rightarrow> bool" where
  "entries_at m stop p [] \<longleftrightarrow> stop \<le> p"
| "entries_at m stop p (e # es) \<longleftrightarrow> e = p \<and> p < stop \<and> entries_at m stop (p + ucast (madt_entry_length m p)) es"

lemma madt_find_loop_first:
  assumes "entries_at m stop p es"
  shows "madt_find_loop m type stop p = Some (case find (\<lambda>e. madt_entry_type m e = type) es of None \<Rightarrow> 0 | Some e \<Rightarrow> e)"
  using assms
proof (induction es arbitrary: p)
  case Nil
  then have "\<not> p < stop" by (simp add: not_less)
  then show ?case by (simp add: madt_find_loop.simps [of m type stop p])
next
  case (Cons e es)
  then show ?case by (simp add: madt_find_loop.simps [of m type stop p])
qed

text \<open>
  In an interrupt controller table whose entries tile the table, the entry search returns the
  first entry of the requested type, or NULL when there is none, and remembers the table.
\<close>

theorem acpi_madt_find_first:
  assumes "acpi_find_table m s lit = p" "p \<noteq> 0" "madt s = 0" "sum_list (bytes_at m p (unat (header_length m p))) = 0"
    and "entries_at m (p + ucast (header_length m p)) (p + 44) es"
  shows "acpi_madt_find lit m s type =
    Inr (case find (\<lambda>e. madt_entry_type m e = type) es of None \<Rightarrow> 0 | Some e \<Rightarrow> e, s\<lparr>madt := p\<rparr>)"
proof -
  note unat_ucast_u32 [simp]
  have "checksum m p (ucast (header_length m p)) = 0" using assms(4) by (simp add: checksum_sum)
  then show ?thesis
    using assms(1-3) madt_find_loop_first [OF assms(5), of type] by (simp add: acpi_madt_find_def Let_def madt_entries_def)
qed

text \<open>The search passes over a run of entries of other types.\<close>

fun entries_to :: "memory \<Rightarrow> u64 \<Rightarrow> u64 \<Rightarrow> u64 list \<Rightarrow> u64 \<Rightarrow> bool" where
  "entries_to m stop p [] e \<longleftrightarrow> p = e"
| "entries_to m stop p (x # xs) e \<longleftrightarrow> x = p \<and> p < stop \<and> entries_to m stop (p + ucast (madt_entry_length m p)) xs e"

lemma madt_find_loop_pass:
  "entries_to m stop p es e \<Longrightarrow> \<forall>x \<in> set es. madt_entry_type m x \<noteq> type \<Longrightarrow>
    madt_find_loop m type stop p = madt_find_loop m type stop e"
proof (induction es arbitrary: p)
  case Nil
  then show ?case by simp
next
  case (Cons x es)
  then show ?case by (simp add: madt_find_loop.simps [of m type stop p])
qed

lemma madt_find_loop_stuck:
  assumes "e < stop" "madt_entry_length m e = 0" "madt_entry_type m e \<noteq> type"
  shows "madt_find_loop m type stop e = None"
proof (rule ccontr)
  have never: "m' = m \<longrightarrow> t' = type \<longrightarrow> s' = stop \<longrightarrow> x \<noteq> e" if "madt_find_loop m' t' s' x = Some y" for m' t' s' x y
    by (rule madt_find_loop.raw_induct [OF _ that]) (use assms in \<open>fastforce split: if_splits\<close>)
  assume "madt_find_loop m type stop e \<noteq> None"
  then show False using never by blast
qed

text \<open>
  When every entry before it is of another type, an entry with a length byte of 0 that is not of
  the requested type either makes the entry search run for ever.
\<close>

theorem acpi_madt_find_runs_forever:
  assumes "madt s \<noteq> 0" and "entries_to m (madt s + ucast (header_length m (madt s))) (madt s + 44) es e"
    and "\<forall>x \<in> set es. madt_entry_type m x \<noteq> type" "e < madt s + ucast (header_length m (madt s))"
    and "madt_entry_length m e = 0" "madt_entry_type m e \<noteq> type"
  shows "acpi_madt_find lit m s type = Inl No_Return"
  using assms madt_find_loop_pass [OF assms(2,3)] madt_find_loop_stuck [OF assms(4-6)]
  by (simp add: acpi_madt_find_def madt_entries_def)

text \<open>A table with one I/O controller entry of 12 bytes after the header, then an entry of length 0.\<close>

definition madt0 :: memory where
  "madt0 = (\<lambda>a. 0)(0x104 := 58, 0x12c := 1, 0x12d := 12, 0x138 := 9)"

theorem acpi_madt_find_runs_forever_witness:
  "acpi_madt_find 0 madt0 \<lparr>rsdt = 0, madt = 0x100\<rparr> 0 = Inl No_Return"
proof (rule acpi_madt_find_runs_forever [where es = "[0x12c]" and e = "0x138"])
  have "header_length madt0 0x100 = 58" by (simp add: header_length_def load32_def madt0_def)
  then show "entries_to madt0 (madt \<lparr>rsdt = 0, madt = 0x100\<rparr> + ucast (header_length madt0 (madt \<lparr>rsdt = 0, madt = 0x100\<rparr>)))
      (madt \<lparr>rsdt = 0, madt = 0x100\<rparr> + 44) [0x12c] 0x138"
    "0x138 < madt \<lparr>rsdt = 0, madt = 0x100\<rparr> + ucast (header_length madt0 (madt \<lparr>rsdt = 0, madt = 0x100\<rparr>))"
    by (simp_all add: madt_entry_length_def madt0_def)
qed (simp_all add: madt_entry_length_def madt_entry_type_def madt0_def)

text \<open>A root table that lists one table, which is an interrupt controller table with one entry.\<close>

definition acpi0 :: memory where
  "acpi0 = (\<lambda>a. 0)(0x10 := 65, 0x11 := 80, 0x12 := 73, 0x13 := 67,
     0x204 := 40, 0x224 := 0, 0x225 := 3,
     0xffff800000000300 := 65, 0xffff800000000301 := 80, 0xffff800000000302 := 73, 0xffff800000000303 := 67,
     0xffff800000000304 := 56, 0xffff800000000309 := 158, 0xffff80000000032c := 1, 0xffff80000000032d := 12)"

theorem acpi_madt_find_first_witness:
  "acpi_madt_find 0x10 acpi0 \<lparr>rsdt = 0x200, madt = 0\<rparr> 1
   = Inr (0xffff80000000032c, \<lparr>rsdt = 0x200, madt = 0xffff800000000300\<rparr>)"
proof -
  let ?p = "0xffff800000000300 :: u64"
  have l: "header_length acpi0 0x200 = 40" "header_length acpi0 ?p = 56"
    by (simp_all add: header_length_def load32_def acpi0_def)
  have c: "rsdt_count acpi0 0x200 = 1" by (simp add: rsdt_count_def l sizeof_acpi_header_def)
  have d: "DM_P2V (ucast (rsdt_sdt acpi0 0x200 0)) = ?p"
    by (simp add: rsdt_sdt_def load32_def acpi0_def DM_P2V_def HIGHER_HALF_START_def)
  have "memcmp acpi0 ?p 0x10 4 = 0"
    unfolding memcmp_bytes by (simp add: bytes_at_def acpi0_def upt_rec)
  then have f: "acpi_find_table acpi0 \<lparr>rsdt = 0x200, madt = 0\<rparr> 0x10 = ?p"
    by (simp add: acpi_find_table_def c d find_table_loop.simps [of _ _ _ _ 0])
  have s: "sum_list (bytes_at acpi0 ?p (unat (header_length acpi0 ?p))) = 0"
    unfolding l by (simp add: bytes_at_def acpi0_def upt_rec)
  have e: "entries_at acpi0 (?p + ucast (header_length acpi0 ?p)) (?p + 44) [0xffff80000000032c]"
    unfolding l by (simp add: madt_entry_length_def acpi0_def)
  show ?thesis
    using acpi_madt_find_first [OF f _ _ s e, of 1] by (simp add: madt_entry_type_def acpi0_def)
qed

end
