(* ===== verification/Console.thy ===== *)
theory Console
  imports Layout Kstring
begin

text \<open>
  The text console: the VGA driver of \<^verbatim>\<open>kernel/drivers/vga/vga.c\<close>, the formatter of
  \<^verbatim>\<open>kernel/lib/printk/printk.c\<close> and \<^verbatim>\<open>panic\<close> of \<^verbatim>\<open>kernel/lib/debug/panic.c\<close>. The driver writes
  16-bit cells into byte memory at the address of the hardware's text buffer; the formatter
  reads its strings from that same memory. The specification is a terminal: a list of 2000 cells
  and a position that runs around it. The driver refines the terminal, and the formatter refines
  the output of \<open>render\<close>, which is defined on character lists and positional digits.
\<close>

named_theorems vga_defs \<open>the constants of the VGA driver\<close>

section \<open>The VGA driver\<close>

definition VGA_BUFFER_ADDRESS :: u64 where [vga_defs]: "VGA_BUFFER_ADDRESS = P2V 0xB8000"
definition VGA_WIDTH :: nat where [vga_defs]: "VGA_WIDTH = 80"
definition VGA_HEIGHT :: nat where [vga_defs]: "VGA_HEIGHT = 25"

definition VGA_BLACK :: u8 where [vga_defs]: "VGA_BLACK = 0"
definition VGA_BLUE :: u8 where [vga_defs]: "VGA_BLUE = 1"
definition VGA_GREEN :: u8 where [vga_defs]: "VGA_GREEN = 2"
definition VGA_CYAN :: u8 where [vga_defs]: "VGA_CYAN = 3"
definition VGA_RED :: u8 where [vga_defs]: "VGA_RED = 4"
definition VGA_MAGENTA :: u8 where [vga_defs]: "VGA_MAGENTA = 5"
definition VGA_BROWN :: u8 where [vga_defs]: "VGA_BROWN = 6"
definition VGA_LIGHT_GREY :: u8 where [vga_defs]: "VGA_LIGHT_GREY = 7"
definition VGA_DARK_GREY :: u8 where [vga_defs]: "VGA_DARK_GREY = 8"
definition VGA_LIGHT_BLUE :: u8 where [vga_defs]: "VGA_LIGHT_BLUE = 9"
definition VGA_LIGHT_GREEN :: u8 where [vga_defs]: "VGA_LIGHT_GREEN = 10"
definition VGA_LIGHT_CYAN :: u8 where [vga_defs]: "VGA_LIGHT_CYAN = 11"
definition VGA_LIGHT_RED :: u8 where [vga_defs]: "VGA_LIGHT_RED = 12"
definition VGA_LIGHT_MAGENTA :: u8 where [vga_defs]: "VGA_LIGHT_MAGENTA = 13"
definition VGA_LIGHT_BROWN :: u8 where [vga_defs]: "VGA_LIGHT_BROWN = 14"
definition VGA_WHITE :: u8 where [vga_defs]: "VGA_WHITE = 15"

record console =
  con_mem :: memory
  vga_x :: u8
  vga_y :: u8

definition load16 :: "memory \<Rightarrow> u64 \<Rightarrow> u16" where
  "load16 m a = ucast (m a) OR push_bit 8 (ucast (m (a + 1)))"

definition store16 :: "memory \<Rightarrow> u64 \<Rightarrow> u16 \<Rightarrow> memory" where
  "store16 m a v = m(a := ucast v, a + 1 := ucast (drop_bit 8 v))"

definition vga_color_entry :: "u8 \<Rightarrow> u8 \<Rightarrow> u8" where
  "vga_color_entry fg bg = fg OR push_bit 4 bg"

text \<open>\<^verbatim>\<open>char\<close> is signed on this target, so \<^verbatim>\<open>(u16)ch\<close> extends the sign of the character.\<close>

definition vga_entry :: "u8 \<Rightarrow> u8 \<Rightarrow> u16" where
  "vga_entry ch color = scast ch OR push_bit 8 (ucast color)"

definition vga_putchar :: "console \<Rightarrow> u8 \<Rightarrow> u8 \<Rightarrow> console" where
  "vga_putchar c ch color =
     (let index = of_nat (unat (vga_y c) * VGA_WIDTH + unat (vga_x c)) :: u32
      in c\<lparr>con_mem := store16 (con_mem c) (VGA_BUFFER_ADDRESS + 2 * ucast index) (vga_entry ch color),
           vga_y := of_nat ((unat (vga_y c) + (unat (vga_x c) + 1) div VGA_WIDTH) mod VGA_HEIGHT),
           vga_x := of_nat ((unat (vga_x c) + 1) mod VGA_WIDTH)\<rparr>)"

function vga_reset_loop :: "console \<Rightarrow> u16 \<Rightarrow> console" where
  "vga_reset_loop c i =
     (if unat i < VGA_WIDTH * VGA_HEIGHT
      then vga_reset_loop (vga_putchar c 0x20 (vga_color_entry VGA_BLACK VGA_BLACK)) (i + 1) else c)"
  by pat_completeness auto
termination
  by (relation "measure (\<lambda>(c, i). 2000 - unat i)") (auto simp: vga_defs unat_word_ariths)

definition vga_reset :: "console \<Rightarrow> console" where
  "vga_reset c = (vga_reset_loop c 0)\<lparr>vga_x := 0, vga_y := 0\<rparr>"

partial_function (option) vga_pad_loop :: "u8 \<Rightarrow> console \<Rightarrow> console option" where
  "vga_pad_loop y0 c =
     (if vga_y c = y0 then vga_pad_loop y0 (vga_putchar c 0x20 (vga_color_entry VGA_BLACK VGA_BLACK))
      else Some c)"

definition vga_pad :: "console \<Rightarrow> console option" where
  "vga_pad c = vga_pad_loop (vga_y c) c"

definition vga_newline :: "console \<Rightarrow> console" where
  "vga_newline c = c\<lparr>vga_y := of_nat ((unat (vga_y c) + 1) mod VGA_HEIGHT), vga_x := 0\<rparr>"

section \<open>The formatter\<close>

text \<open>
  A \<^verbatim>\<open>va_list\<close> is the list of the argument slots still unread, each 64 bits wide; reading past
  the last one is undefined. A local \<^verbatim>\<open>char array[log]\<close> is a partial map from its index, defined
  where the code has written.
\<close>

definition ascii :: "char \<Rightarrow> u8" where "ascii ch = of_char ch"

definition HEX_ALPHA :: "u8 list" where "HEX_ALPHA = map ascii ''0123456789abcdef''"

definition LOG_LOOKUP :: "u8 list" where
  "LOG_LOOKUP = [64, 41, 32, 28, 25, 23, 22, 21, 20, 19, 18, 18, 17, 17, 16]"

definition U64_MAX_LOG_BASE :: "u8 \<Rightarrow> u8 res" where
  "U64_MAX_LOG_BASE base =
     (if 2 \<le> base \<and> unat base - 2 < length LOG_LOOKUP then Inr (LOG_LOOKUP ! (unat base - 2)) else Inl Fault)"

fun va_arg :: "u64 list \<Rightarrow> (u64 \<times> u64 list) res" where
  "va_arg [] = Inl Fault"
| "va_arg (v # ap) = Inr (v, ap)"

partial_function (option) putnbr_digits ::
    "u8 \<Rightarrow> u8 \<Rightarrow> u64 \<Rightarrow> u8 \<Rightarrow> (u8 \<rightharpoonup> u8) \<Rightarrow> (u8 \<times> (u8 \<rightharpoonup> u8)) res option" where
  "putnbr_digits base log nbr i array =
     (if i < log
      then let array' = array(i \<mapsto> HEX_ALPHA ! unat (nbr mod ucast base)); nbr' = nbr div ucast base
           in if nbr' \<noteq> 0 then putnbr_digits base log nbr' (i - 1) array' else Some (Inr (i - 1, array'))
      else Some (Inl Fault))"

lemma u8_lt: "unat (i :: u8) < 256"
  by (rule order_less_le_trans [OF unsigned_less]) simp

lemma u8_suc:
  fixes i n :: u8
  assumes "i < n"
  shows "unat (i + 1) = Suc (unat i)"
  using assms u8_lt [of n] by (simp add: word_less_nat_alt unat_word_ariths)

lemma u8_up_decreases:
  fixes i n :: u8
  assumes "i < n"
  shows "unat n - unat (i + 1) < unat n - unat i"
  using assms u8_suc [OF assms] by (simp add: word_less_nat_alt)

function emit_array :: "console \<Rightarrow> (u8 \<rightharpoonup> u8) \<Rightarrow> u8 \<Rightarrow> u8 \<Rightarrow> console res" where
  "emit_array c array log i =
     (if i < log
      then case array i of None \<Rightarrow> Inl Uninit_Read
           | Some ch \<Rightarrow> emit_array (vga_putchar c ch VGA_WHITE) array log (i + 1)
      else Inr c)"
  by pat_completeness auto
termination
  by (relation "measure (\<lambda>(c, array, log, i). unat log - unat i)") (auto intro: u8_up_decreases)

definition putnbr :: "console \<Rightarrow> u64 \<Rightarrow> u8 \<Rightarrow> console res" where
  "putnbr c nbr base =
     bindR (U64_MAX_LOG_BASE base) (\<lambda>log.
     bindR (ret (putnbr_digits base log nbr (log - 1) Map.empty)) (\<lambda>(i, array).
     emit_array c array log (i + 1)))"

function putptr_digits :: "u64 \<Rightarrow> u8 \<Rightarrow> u8 \<Rightarrow> (u8 \<rightharpoonup> u8) \<Rightarrow> (u8 \<times> (u8 \<rightharpoonup> u8)) res" where
  "putptr_digits ptr log i array =
     (if i < log
      then let array' = array(i \<mapsto> HEX_ALPHA ! unat (ptr mod 16))
           in if i - 1 \<noteq> U8_MAX then putptr_digits (ptr div 16) log (i - 1) array' else Inr (i - 1, array')
      else Inl Fault)"
  by pat_completeness auto
termination
proof (relation "measure (\<lambda>(ptr, log, i, array). unat i)", goal_cases)
  case 1
  show ?case by simp
next
  case (2 ptr log i array array')
  then have "i \<noteq> 0" by (auto simp: U8_MAX_def)
  then show ?case by (simp add: unat_minus_one unat_gt_0)
qed

definition putptr :: "console \<Rightarrow> u64 \<Rightarrow> console res" where
  "putptr c ptr =
     (let c' = vga_putchar (vga_putchar c (ascii CHR ''0'') VGA_WHITE) (ascii CHR ''x'') VGA_WHITE
      in bindR (U64_MAX_LOG_BASE 16) (\<lambda>log.
         bindR (putptr_digits ptr log (log - 1) Map.empty) (\<lambda>(i, array).
         emit_array c' array log (i + 1))))"

partial_function (option) putstr :: "console \<Rightarrow> u64 \<Rightarrow> console option" where
  "putstr c str =
     (if con_mem c str \<noteq> 0 then putstr (vga_putchar c (con_mem c str) VGA_WHITE) (str + 1) else Some c)"

definition print_arg :: "console \<Rightarrow> u8 \<Rightarrow> u64 list \<Rightarrow> (u64 \<times> console \<times> u64 list) res" where
  "print_arg c specifier ap =
     (if specifier = ascii CHR ''b'' then
        bindR (va_arg ap) (\<lambda>(v, ap'). bindR (putnbr c v 2) (\<lambda>c'. Inr (2, c', ap')))
      else if specifier = ascii CHR ''x'' then
        bindR (va_arg ap) (\<lambda>(v, ap'). bindR (putnbr c v 16) (\<lambda>c'. Inr (2, c', ap')))
      else if specifier = ascii CHR ''u'' then
        bindR (va_arg ap) (\<lambda>(v, ap'). bindR (putnbr c v 10) (\<lambda>c'. Inr (2, c', ap')))
      else if specifier = ascii CHR ''c'' then
        bindR (va_arg ap) (\<lambda>(v, ap'). Inr (2, vga_putchar c (ucast v) VGA_WHITE, ap'))
      else if specifier = ascii CHR ''s'' then
        bindR (va_arg ap) (\<lambda>(v, ap'). bindR (ret (map_option Inr (putstr c v))) (\<lambda>c'. Inr (2, c', ap')))
      else if specifier = ascii CHR ''p'' then
        bindR (va_arg ap) (\<lambda>(v, ap'). bindR (putptr c v) (\<lambda>c'. Inr (2, c', ap')))
      else if specifier = ascii CHR ''%'' then
        Inr (2, vga_putchar c (ascii CHR ''%'') VGA_WHITE, ap)
      else Inr (1, c, ap))"

partial_function (option) interpret_format :: "console \<Rightarrow> u64 \<Rightarrow> u64 list \<Rightarrow> console res option" where
  "interpret_format c format args =
     (if con_mem c format \<noteq> ascii CHR ''%'' then
        if con_mem c format = 0 then Some (Inr c)
        else if con_mem c format = 10 then
          Option.bind (vga_pad c) (\<lambda>c'. interpret_format c' (format + 1) args)
        else interpret_format (vga_putchar c (con_mem c format) VGA_WHITE) (format + 1) args
      else case print_arg c (con_mem c (format + 1)) args of
          Inl e \<Rightarrow> Some (Inl e)
        | Inr (n, c', args') \<Rightarrow> interpret_format c' (format + n) args')"

definition printk_va :: "console \<Rightarrow> u64 \<Rightarrow> u64 list \<Rightarrow> console res" where
  "printk_va c format args = (if format = 0 then Inr c else ret (interpret_format c format args))"

definition printk :: "console \<Rightarrow> u64 \<Rightarrow> u64 list \<Rightarrow> console res" where
  "printk c format args = printk_va c format args"

text \<open>
  \<^verbatim>\<open>panic\<close> prints its message between two literals, whose addresses are arguments here, and then
  halts: the result is the console at the first \<^verbatim>\<open>cpu_halt\<close>.
\<close>

definition panic :: "u64 \<Rightarrow> u64 \<Rightarrow> console \<Rightarrow> u64 \<Rightarrow> u64 list \<Rightarrow> console res" where
  "panic prefix_lit newline_lit c fmt args =
     bindR (printk c prefix_lit []) (\<lambda>c1.
     bindR (printk_va c1 fmt args) (\<lambda>c2.
     printk c2 newline_lit []))"

declare vga_reset_loop.simps [simp del] emit_array.simps [simp del] putptr_digits.simps [simp del]

section \<open>The terminal\<close>

text \<open>The buffer as 2000 cells and the cursor as a position on the ring of cells.\<close>

definition vga_ok :: "console \<Rightarrow> bool" where
  "vga_ok c \<longleftrightarrow> unat (vga_x c) < 80 \<and> unat (vga_y c) < 25"

definition cursor :: "console \<Rightarrow> nat" where
  "cursor c = 80 * unat (vga_y c) + unat (vga_x c)"

definition vga_cell :: "memory \<Rightarrow> nat \<Rightarrow> u16" where
  "vga_cell m i = load16 m (VGA_BUFFER_ADDRESS + 2 * of_nat i)"

definition in_vga :: "u64 \<Rightarrow> bool" where
  "in_vga a \<longleftrightarrow> a - VGA_BUFFER_ADDRESS < 4000"

definition screen :: "console \<Rightarrow> u16 list \<times> nat" where
  "screen c = (map (vga_cell (con_mem c)) [0..<2000], cursor c)"

fun term_put :: "u16 \<Rightarrow> u16 list \<times> nat \<Rightarrow> u16 list \<times> nat" where
  "term_put e (cells, p) = (cells[p := e], Suc p mod 2000)"

definition blank :: u16 where "blank = vga_entry 0x20 (vga_color_entry VGA_BLACK VGA_BLACK)"

fun term_pad :: "u16 list \<times> nat \<Rightarrow> u16 list \<times> nat" where
  "term_pad (cells, p) = (term_put blank ^^ (80 - p mod 80)) (cells, p)"

lemma load16_store16_same: "load16 (store16 m a v) a = v"
proof (rule bit_word_eqI)
  fix n assume "n < LENGTH(16)"
  then show "bit (load16 (store16 m a v) a) n = bit v n"
    by (cases "n < 8") (auto simp: load16_def store16_def bit_simps)
qed

lemma load16_store16_other:
  assumes "b \<noteq> a" "b \<noteq> a + 1" "b + 1 \<noteq> a"
  shows "load16 (store16 m a v) b = load16 m b"
  using assms by (simp add: load16_def store16_def)

lemma vga_cell_store:
  assumes "i < 2000" "j < 2000"
  shows "vga_cell (store16 m (VGA_BUFFER_ADDRESS + 2 * of_nat i) v) j = (if j = i then v else vga_cell m j)"
proof (cases "j = i")
  case True
  then show ?thesis by (simp add: vga_cell_def load16_store16_same)
next
  case False
  have u: "unat (2 * of_nat k :: u64) = 2 * k" if "k < 2000" for k
    using that by (simp add: unat_word_ariths unat_of_nat)
  have s: "unat (2 * of_nat k + 1 :: u64) = 2 * k + 1" if "k < 2000" for k
    using that u [OF that] by (simp add: unat_word_ariths(1) [of _ 1])
  have "(2 * of_nat j :: u64) \<noteq> 2 * of_nat i" "(2 * of_nat j :: u64) \<noteq> 2 * of_nat i + 1"
    "(2 * of_nat j + 1 :: u64) \<noteq> 2 * of_nat i"
    using False assms u s by (auto simp: word_unat_eq_iff)
  then show ?thesis using False by (simp add: vga_cell_def load16_store16_other add.assoc)
qed

lemma store16_outside:
  assumes "i < 2000" "\<not> in_vga a"
  shows "store16 m (VGA_BUFFER_ADDRESS + 2 * of_nat i) v a = m a"
proof -
  have u: "unat (2 * of_nat i :: u64) = 2 * i" using assms by (simp add: unat_word_ariths unat_of_nat)
  have s: "unat (2 * of_nat i + 1 :: u64) = 2 * i + 1"
    using assms u by (simp add: unat_word_ariths(1) [of _ 1])
  have "(2 * of_nat i :: u64) < 4000" "(2 * of_nat i + 1 :: u64) < 4000"
    using assms u s by (simp_all add: word_less_nat_alt)
  then have "a \<noteq> VGA_BUFFER_ADDRESS + 2 * of_nat i" "a \<noteq> VGA_BUFFER_ADDRESS + 2 * of_nat i + 1"
    using assms(2) by (auto simp: in_vga_def add.assoc)
  then show ?thesis by (simp add: store16_def)
qed

text \<open>One character: the simulation step of the driver.\<close>

definition con_step :: "console \<Rightarrow> console \<Rightarrow> (u16 list \<times> nat \<Rightarrow> u16 list \<times> nat) \<Rightarrow> bool" where
  "con_step c c' f \<longleftrightarrow> vga_ok c' \<and> screen c' = f (screen c)
     \<and> (\<forall>a. \<not> in_vga a \<longrightarrow> con_mem c' a = con_mem c a)"

lemma con_step_refl: "vga_ok c \<Longrightarrow> con_step c c id" "vga_ok c \<Longrightarrow> con_step c c (\<lambda>a. a)"
  by (simp_all add: con_step_def)

lemma con_step_trans: "con_step c d f \<Longrightarrow> con_step d e g \<Longrightarrow> con_step c e (g \<circ> f)"
  by (simp add: con_step_def)

lemma cursor_step:
  fixes x y :: nat
  assumes "x < 80" "y < 25"
  shows "80 * ((y + Suc x div 80) mod 25) + Suc x mod 80 = Suc (80 * y + x) mod 2000"
proof (cases "Suc x = 80")
  case True
  then show ?thesis using assms by (cases "y = 24") auto
next
  case False
  then show ?thesis using assms by auto
qed

lemma vga_putchar_step:
  assumes "vga_ok c"
  shows "con_step c (vga_putchar c ch color) (term_put (vga_entry ch color))"
proof -
  have xy: "unat (vga_x c) < 80" "unat (vga_y c) < 25" using assms by (auto simp: vga_ok_def)
  let ?c = "vga_putchar c ch color"
  have k: "cursor c < 2000" using xy by (simp add: cursor_def)
  then have i: "ucast (of_nat (cursor c) :: u32) = (of_nat (cursor c) :: u64)"
    by (intro word_unat_eq_iff [THEN iffD2]) (simp add: unat_of_nat unsigned_ucast_eq take_bit_nat_eq_self)
  have m: "con_mem ?c = store16 (con_mem c) (VGA_BUFFER_ADDRESS + 2 * of_nat (cursor c)) (vga_entry ch color)"
    using i by (simp add: vga_putchar_def Let_def cursor_def VGA_WIDTH_def mult.commute)
  have x: "unat (vga_x ?c) = Suc (unat (vga_x c)) mod 80"
    by (simp add: vga_putchar_def Let_def vga_defs unat_of_nat)
  have y: "unat (vga_y ?c) = (unat (vga_y c) + Suc (unat (vga_x c)) div 80) mod 25"
    by (simp add: vga_putchar_def Let_def vga_defs unat_of_nat)
  have "cursor ?c = Suc (cursor c) mod 2000"
    unfolding cursor_def x y by (rule cursor_step [OF xy])
  moreover have "map (vga_cell (con_mem ?c)) [0..<2000]
      = (map (vga_cell (con_mem c)) [0..<2000])[cursor c := vga_entry ch color]"
    unfolding m using k by (intro nth_equalityI) (simp_all add: vga_cell_store nth_list_update)
  ultimately show ?thesis
    using k unfolding con_step_def screen_def m by (simp add: x y vga_ok_def store16_outside)
qed

text \<open>Runs of characters, and the two loops over blanks.\<close>

definition vga_puts :: "console \<Rightarrow> u8 list \<Rightarrow> console" where
  "vga_puts c chs = foldl (\<lambda>c ch. vga_putchar c ch VGA_WHITE) c chs"

lemma vga_puts_simps [simp]:
  "vga_puts c [] = c" "vga_puts c (ch # chs) = vga_puts (vga_putchar c ch VGA_WHITE) chs"
  by (simp_all add: vga_puts_def)

lemma vga_puts_step:
  "vga_ok c \<Longrightarrow> con_step c (vga_puts c chs) (fold (\<lambda>ch. term_put (vga_entry ch VGA_WHITE)) chs)"
proof (induction chs arbitrary: c)
  case Nil
  then show ?case using con_step_refl by (simp add: id_def)
next
  case (Cons ch chs)
  note s = vga_putchar_step [OF Cons.prems, of ch VGA_WHITE]
  then have "vga_ok (vga_putchar c ch VGA_WHITE)" by (simp add: con_step_def)
  from con_step_trans [OF s Cons.IH [OF this]] show ?case by (simp add: comp_def)
qed

lemma term_put_run:
  assumes "p < 2000" "n \<le> 2000" "length cells = 2000"
  shows "snd ((term_put e ^^ n) (cells, p)) = (p + n) mod 2000
    \<and> length (fst ((term_put e ^^ n) (cells, p))) = 2000
    \<and> (\<forall>j < 2000. fst ((term_put e ^^ n) (cells, p)) ! j = (if (j + 2000 - p) mod 2000 < n then e else cells ! j))"
  using assms(2)
proof (induction n)
  case 0
  then show ?case using assms by simp
next
  case (Suc n)
  obtain cs q where cq: "(term_put e ^^ n) (cells, p) = (cs, q)" by (cases "(term_put e ^^ n) (cells, p)")
  have IH: "q = (p + n) mod 2000" "length cs = 2000"
    "\<And>j. j < 2000 \<Longrightarrow> cs ! j = (if (j + 2000 - p) mod 2000 < n then e else cells ! j)"
    using Suc cq by auto
  have key: "j = q \<longleftrightarrow> (j + 2000 - p) mod 2000 = n" if "j < 2000" for j
    using that assms(1) Suc.prems IH(1) by (auto simp: mod_if)
  have "cs[q := e] ! j = (if (j + 2000 - p) mod 2000 < Suc n then e else cells ! j)" if "j < 2000" for j
    using that IH(2) IH(3) [OF that] key [OF that] by (auto simp: nth_list_update less_Suc_eq)
  then show ?case using IH(1,2) cq by (simp add: mod_simps)
qed

lemma screen_fst_length [simp]: "length (fst (screen c)) = 2000"
  by (simp add: screen_def)

lemma vga_reset_loop_step:
  "vga_ok c \<Longrightarrow> con_step c (vga_reset_loop c i) (term_put blank ^^ (2000 - unat i))"
proof (induction c i rule: vga_reset_loop.induct)
  case (1 c i)
  show ?case
  proof (cases "unat i < 2000")
    case True
    let ?c = "vga_putchar c 0x20 (vga_color_entry VGA_BLACK VGA_BLACK)"
    have s: "con_step c ?c (term_put blank)" using vga_putchar_step [OF 1(2)] by (simp add: blank_def)
    have i: "unat (i + 1) = Suc (unat i)" using True by (simp add: unat_word_ariths)
    have "con_step ?c (vga_reset_loop ?c (i + 1)) (term_put blank ^^ (2000 - unat (i + 1)))"
      using 1(1) True s by (simp add: vga_defs con_step_def)
    note t = con_step_trans [OF s this]
    have "(term_put blank ^^ (2000 - unat (i + 1))) \<circ> term_put blank = term_put blank ^^ (2000 - unat i)"
      unfolding i using True by (metis Suc_diff_Suc funpow_Suc_right)
    with t show ?thesis using True by (simp add: vga_reset_loop.simps [of c i] vga_defs)
  next
    case False
    then show ?thesis using con_step_refl(2) [OF 1(2)] by (simp add: vga_reset_loop.simps [of c i] vga_defs)
  qed
qed

lemma vga_pad_loop_step:
  assumes "vga_ok c"
  shows "\<exists>c'. vga_pad_loop (vga_y c) c = Some c' \<and> con_step c c' (term_put blank ^^ (80 - unat (vga_x c)))"
  using assms
proof (induction "80 - unat (vga_x c)" arbitrary: c rule: less_induct)
  case less
  let ?c = "vga_putchar c 0x20 (vga_color_entry VGA_BLACK VGA_BLACK)"
  have xy: "unat (vga_x c) < 80" "unat (vga_y c) < 25" using less.prems by (auto simp: vga_ok_def)
  have s: "con_step c ?c (term_put blank)" using vga_putchar_step [OF less.prems] by (simp add: blank_def)
  then have ok: "vga_ok ?c" by (simp add: con_step_def)
  have x: "unat (vga_x ?c) = Suc (unat (vga_x c)) mod 80" and y: "unat (vga_y ?c) = (unat (vga_y c) + Suc (unat (vga_x c)) div 80) mod 25"
    by (simp_all add: vga_putchar_def Let_def vga_defs unat_of_nat)
  have unf: "vga_pad_loop (vga_y c) c = vga_pad_loop (vga_y c) ?c" by (simp add: vga_pad_loop.simps [of _ c])
  show ?case
  proof (cases "Suc (unat (vga_x c)) = 80")
    case True
    have "vga_y ?c \<noteq> vga_y c" using y xy True by (auto simp: word_unat_eq_iff mod_if)
    then have "vga_pad_loop (vga_y c) ?c = Some ?c" by (simp add: vga_pad_loop.simps [of _ ?c])
    moreover have "80 - unat (vga_x c) = Suc 0" using True by simp
    ultimately show ?thesis using s unf by simp
  next
    case False
    then have x': "unat (vga_x ?c) = Suc (unat (vga_x c))" and "unat (vga_y ?c) = unat (vga_y c)" using x y xy by auto
    then have "vga_y ?c = vga_y c" by (simp add: word_unat_eq_iff)
    moreover have "80 - unat (vga_x ?c) < 80 - unat (vga_x c)" using x' xy by linarith
    ultimately obtain c' where c': "vga_pad_loop (vga_y c) ?c = Some c'" "con_step ?c c' (term_put blank ^^ (80 - Suc (unat (vga_x c))))"
      using less.hyps [OF _ ok] unfolding x' by auto
    have "term_put blank ^^ (80 - unat (vga_x c)) = (term_put blank ^^ (80 - Suc (unat (vga_x c)))) \<circ> term_put blank"
      using xy by (metis Suc_diff_Suc funpow_Suc_right)
    then show ?thesis using con_step_trans [OF s c'(2)] c'(1) unf by auto
  qed
qed

lemma vga_pad_step:
  assumes "vga_ok c"
  shows "\<exists>c'. vga_pad c = Some c' \<and> con_step c c' term_pad"
proof -
  have "cursor c mod 80 = unat (vga_x c)" using assms by (simp add: vga_ok_def cursor_def)
  then have "term_pad (screen c) = (term_put blank ^^ (80 - unat (vga_x c))) (screen c)" by (simp add: screen_def)
  then show ?thesis using vga_pad_loop_step [OF assms] by (auto simp: vga_pad_def con_step_def)
qed

section \<open>Digits\<close>

fun digits :: "nat \<Rightarrow> nat \<Rightarrow> nat list" where
  "digits b n = (if b < 2 \<or> n < b then [n] else digits b (n div b) @ [n mod b])"

declare digits.simps [simp del]

definition digit_char :: "nat \<Rightarrow> u8" where "digit_char d = HEX_ALPHA ! d"

lemma digits_nonempty [simp]: "digits b n \<noteq> []"
  by (subst digits.simps) simp

lemma digits_bounded: "2 \<le> b \<Longrightarrow> d \<in> set (digits b n) \<Longrightarrow> d < b"
proof (induction b n rule: digits.induct)
  case (1 b n)
  then show ?case by (cases "n < b") (auto simp: digits.simps [of b n])
qed

lemma digits_value: "2 \<le> b \<Longrightarrow> foldl (\<lambda>v d. v * b + d) 0 (digits b n) = n"
proof (induction b n rule: digits.induct)
  case (1 b n)
  then show ?case by (cases "n < b") (auto simp: digits.simps [of b n])
qed

lemma digits_no_leading_zero: "2 \<le> b \<Longrightarrow> n \<noteq> 0 \<Longrightarrow> hd (digits b n) \<noteq> 0"
proof (induction b n rule: digits.induct)
  case (1 b n)
  then show ?case by (cases "n < b") (auto simp: digits.simps [of b n] div_greater_zero_iff)
qed

lemma digits_length: "2 \<le> b \<Longrightarrow> n < b ^ Suc k \<Longrightarrow> length (digits b n) \<le> Suc k"
proof (induction k arbitrary: n)
  case 0
  then show ?case by (simp add: digits.simps [of b n])
next
  case (Suc k)
  have "n div b < b ^ Suc k" using Suc.prems by (simp add: less_mult_imp_div_less mult.commute)
  then show ?case using Suc by (simp add: digits.simps [of b n])
qed

lemma u64_base:
  fixes nbr :: u64 and base :: u8
  shows "unat (nbr div ucast base) = unat nbr div unat base" "unat (nbr mod ucast base) = unat nbr mod unat base"
proof -
  have "unat (ucast base :: u64) = unat base" by transfer (simp add: take_bit_nat_eq_self take_bit_take_bit)
  then show "unat (nbr div ucast base) = unat nbr div unat base" "unat (nbr mod ucast base) = unat nbr mod unat base"
    by (simp_all add: unat_div_distrib unat_mod_distrib)
qed

text \<open>The digit loop fills the array from the index \<open>i\<close> downwards.\<close>

lemma u8_pred:
  fixes i :: u8
  shows "0 < unat i \<Longrightarrow> unat (i - 1) = unat i - 1"
  by (simp add: unat_minus_one unat_gt_0)

lemma putnbr_digits_fill:
  assumes "2 \<le> unat base" "i < log" "length (digits (unat base) (unat nbr)) \<le> Suc (unat i)"
  shows "\<exists>array'. putnbr_digits base log nbr i array = Some (Inr (i - of_nat (length (digits (unat base) (unat nbr))), array'))
    \<and> (\<forall>k < length (digits (unat base) (unat nbr)).
         array' (i - of_nat k) = Some (digit_char (rev (digits (unat base) (unat nbr)) ! k)))
    \<and> (\<forall>j. i < j \<longrightarrow> array' j = array j)"
  using assms(2,3)
proof (induction "unat nbr" arbitrary: nbr i array rule: less_induct)
  case less
  let ?n = "unat nbr" and ?b = "unat base"
  let ?a = "array(i \<mapsto> digit_char (?n mod ?b))"
  have unf: "putnbr_digits base log nbr i array =
      (if nbr div ucast base \<noteq> 0 then putnbr_digits base log (nbr div ucast base) (i - 1) ?a else Some (Inr (i - 1, ?a)))"
    using less.prems(1) by (simp add: putnbr_digits.simps [of base log nbr i] Let_def u64_base digit_char_def)
  show ?case
  proof (cases "?n < ?b")
    case True
    then have "nbr div ucast base = 0" by (simp add: word_unat_eq_iff u64_base)
    moreover have "digits ?b ?n = [?n]" using True by (simp add: digits.simps [of ?b])
    ultimately show ?thesis using unf True by auto
  next
    case False
    let ?q = "nbr div ucast base :: u64"
    have q: "unat ?q = ?n div ?b" by (rule u64_base)
    have nz: "?q \<noteq> 0" using False assms(1) by (auto simp: word_unat_eq_iff u64_base div_eq_0_iff)
    have d: "digits ?b ?n = digits ?b (?n div ?b) @ [?n mod ?b]" using False assms(1) by (simp add: digits.simps [of ?b ?n])
    have "1 \<le> length (digits ?b (?n div ?b))" by (simp add: Suc_leI)
    then have i: "0 < unat i" using less.prems(2) d by simp
    have lt: "unat ?q < ?n" using q False assms(1) by simp
    have i1: "i - 1 < log" using less.prems(1) u8_pred [OF i] by (simp add: word_less_nat_alt)
    have len: "length (digits ?b (unat ?q)) \<le> Suc (unat (i - 1))"
      using less.prems(2) d q u8_pred [OF i] i by simp
    obtain array' where r: "putnbr_digits base log ?q (i - 1) ?a = Some (Inr (i - 1 - of_nat (length (digits ?b (unat ?q))), array'))"
      "\<forall>k < length (digits ?b (unat ?q)). array' (i - 1 - of_nat k) = Some (digit_char (rev (digits ?b (unat ?q)) ! k))"
      "\<forall>j. i - 1 < j \<longrightarrow> array' j = ?a j"
      using less.hyps [OF lt i1 len] by blast
    have gt: "i - 1 < j" if "i \<le> j" for j using that i u8_pred [OF i] by (simp add: word_less_nat_alt word_le_nat_alt)
    have "array' (i - of_nat k) = Some (digit_char (rev (digits ?b ?n) ! k))" if "k < length (digits ?b ?n)" for k
    proof (cases k)
      case 0
      then show ?thesis using r(3) gt [of i] d by simp
    next
      case (Suc k')
      then show ?thesis using r(2) that d q by (simp add: algebra_simps)
    qed
    moreover have "i - 1 - of_nat (length (digits ?b (unat ?q))) = i - of_nat (length (digits ?b ?n))"
      using d q by (simp add: algebra_simps)
    moreover have "array' j = array j" if "i < j" for j using r(3) gt [of j] that by auto
    ultimately show ?thesis using unf nz r(1) by auto
  qed
qed

lemma emit_array_run:
  assumes "unat log \<le> unat i + length chs" "unat i + length chs \<le> unat log"
    and "\<And>k. k < length chs \<Longrightarrow> array (i + of_nat k) = Some (chs ! k)"
  shows "emit_array c array log i = Inr (vga_puts c chs)"
  using assms
proof (induction chs arbitrary: c i)
  case Nil
  then show ?case by (simp add: emit_array.simps [of _ _ log i] word_less_nat_alt)
next
  case (Cons ch chs)
  have i: "i < log" using Cons.prems(2) by (simp add: word_less_nat_alt)
  have "emit_array (vga_putchar c ch VGA_WHITE) array log (i + 1) = Inr (vga_puts (vga_putchar c ch VGA_WHITE) chs)"
  proof (rule Cons.IH)
    show "array (i + 1 + of_nat k) = Some (chs ! k)" if "k < length chs" for k
      using Cons.prems(3) [of "Suc k"] that by (simp add: algebra_simps)
  qed (use Cons.prems u8_suc [OF i] in simp_all)
  moreover have "array i = Some ch" using Cons.prems(3) [of 0] by simp
  ultimately show ?case using i by (simp add: emit_array.simps [of _ _ log i])
qed

lemma log_lookup_covers:
  assumes "2 \<le> unat base" "unat base \<le> 16"
  shows "\<exists>log. U64_MAX_LOG_BASE base = Inr log \<and> 0 < unat log \<and> 2 ^ 64 \<le> unat base ^ unat log"
proof -
  have "list_all (\<lambda>b. 0 < unat (LOG_LOOKUP ! (b - 2)) \<and> 2 ^ 64 \<le> b ^ unat (LOG_LOOKUP ! (b - 2))) [2..<17]"
    by (simp add: LOG_LOOKUP_def upt_conv_Cons)
  moreover have "unat base \<in> set [2..<17]" unfolding set_upt atLeastLessThan_iff using assms by linarith
  ultimately have "0 < unat (LOG_LOOKUP ! (unat base - 2)) \<and> 2 ^ 64 \<le> unat base ^ unat (LOG_LOOKUP ! (unat base - 2))"
    unfolding list_all_iff by (rule bspec)
  moreover have "U64_MAX_LOG_BASE base = Inr (LOG_LOOKUP ! (unat base - 2))"
    using assms by (simp add: U64_MAX_LOG_BASE_def LOG_LOOKUP_def word_le_nat_alt)
  ultimately show ?thesis by blast
qed

section \<open>The formatter prints what \<open>render\<close> describes\<close>

definition number_chars :: "nat \<Rightarrow> u64 \<Rightarrow> u8 list" where
  "number_chars b v = map digit_char (digits b (unat v))"

definition pointer_chars :: "u64 \<Rightarrow> u8 list" where
  "pointer_chars v = ascii CHR ''0'' # ascii CHR ''x'' # map (\<lambda>k. digit_char (unat v div 16 ^ (15 - k) mod 16)) [0..<16]"

lemma putnbr_prints:
  assumes "2 \<le> unat base" "unat base \<le> 16"
  shows "putnbr c v base = Inr (vga_puts c (number_chars (unat base) v))"
    and "\<exists>log. U64_MAX_LOG_BASE base = Inr log \<and> length (number_chars (unat base) v) \<le> unat log"
proof -
  let ?ds = "digits (unat base) (unat v)"
  obtain log where log: "U64_MAX_LOG_BASE base = Inr log" "0 < unat log" "2 ^ 64 \<le> unat base ^ unat log"
    using log_lookup_covers [OF assms] by blast
  have "unat v < unat base ^ Suc (unat log - 1)" using log(2,3) unat64_lt [of v] by simp
  then have len: "length ?ds \<le> unat log" using digits_length [OF assms(1)] log(2) by fastforce
  then show "\<exists>log. U64_MAX_LOG_BASE base = Inr log \<and> length (number_chars (unat base) v) \<le> unat log"
    using log(1) by (auto simp: number_chars_def)
  have l1: "unat (log - 1) = unat log - 1" using log(2) by (rule u8_pred)
  then have lt: "log - 1 < log" using log(2) by (simp add: word_less_nat_alt)
  have "length ?ds \<le> Suc (unat (log - 1))" using len l1 by simp
  from putnbr_digits_fill [OF assms(1) lt this, of Map.empty] obtain array where
    d: "putnbr_digits base log v (log - 1) Map.empty = Some (Inr (log - 1 - of_nat (length ?ds), array))"
       "\<And>k. k < length ?ds \<Longrightarrow> array (log - 1 - of_nat k) = Some (digit_char (rev ?ds ! k))"
    by blast
  let ?i = "log - 1 - of_nat (length ?ds) + 1"
  have i: "?i = of_nat (unat log - length ?ds)" using len by (simp add: of_nat_diff)
  have ui: "unat ?i = unat log - length ?ds" unfolding i using u8_lt [of log] by (simp add: unat_of_nat)
  have "emit_array c array log ?i = Inr (vga_puts c (map digit_char ?ds))"
  proof (rule emit_array_run)
    fix k assume k: "k < length (map digit_char ?ds)"
    have "?i + of_nat k = log - 1 - of_nat (length ?ds - Suc k)" using k by (simp add: of_nat_diff)
    then have "array (?i + of_nat k) = array (log - 1 - of_nat (length ?ds - Suc k))" by (rule arg_cong)
    also have "\<dots> = Some (digit_char (?ds ! k))" using d(2) [of "length ?ds - Suc k"] k by (simp add: rev_nth)
    finally show "array (?i + of_nat k) = Some (map digit_char ?ds ! k)" using k by simp
  qed (use ui len in simp_all)
  then show "putnbr c v base = Inr (vga_puts c (number_chars (unat base) v))"
    using log(1) d(1) by (simp add: putnbr_def number_chars_def)
qed

lemma putptr_digits_fill:
  assumes "i < log"
  shows "\<exists>array'. putptr_digits ptr log i array = Inr (U8_MAX, array')
    \<and> (\<forall>k \<le> unat i. array' (of_nat k) = Some (digit_char (unat ptr div 16 ^ (unat i - k) mod 16)))
    \<and> (\<forall>j. i < j \<longrightarrow> array' j = array j)"
  using assms
proof (induction "unat i" arbitrary: ptr i array rule: less_induct)
  case less
  let ?a = "array(i \<mapsto> digit_char (unat ptr mod 16))"
  have unf: "putptr_digits ptr log i array = (if i - 1 \<noteq> U8_MAX then putptr_digits (ptr div 16) log (i - 1) ?a else Inr (i - 1, ?a))"
    using less.prems by (simp add: putptr_digits.simps [of ptr log i] Let_def digit_char_def unat_mod_distrib)
  show ?case
  proof (cases "i = 0")
    case True
    then show ?thesis using unf by (simp add: U8_MAX_def)
  next
    case False
    then have p: "0 < unat i" by (simp add: unat_gt_0)
    note u = u8_pred [OF p]
    have "i - 1 \<noteq> U8_MAX" using u p u8_lt [of i] by (auto simp: U8_MAX_def word_unat_eq_iff)
    moreover have "i - 1 < log" "unat (i - 1) < unat i" using u p less.prems by (simp_all add: word_less_nat_alt)
    ultimately obtain array' where r: "putptr_digits ptr log i array = Inr (U8_MAX, array')"
      "\<forall>k \<le> unat i - 1. array' (of_nat k) = Some (digit_char (unat (ptr div 16) div 16 ^ (unat i - 1 - k) mod 16))"
      "\<forall>j. i - 1 < j \<longrightarrow> array' j = ?a j"
      using less.hyps [of "i - 1" "ptr div 16" ?a] unf u by auto
    have gt: "i - 1 < j" if "i \<le> j" for j using that p u by (simp add: word_less_nat_alt word_le_nat_alt)
    have "array' (of_nat k) = Some (digit_char (unat ptr div 16 ^ (unat i - k) mod 16))" if "k \<le> unat i" for k
    proof (cases "k = unat i")
      case True
      then show ?thesis using r(3) gt [of i] by simp
    next
      case False
      then have "unat i - k = Suc (unat i - 1 - k)" using that by simp
      then show ?thesis using r(2) False that by (simp add: unat_div_distrib div_mult2_eq [symmetric] mult.commute)
    qed
    moreover have "array' j = array j" if "i < j" for j using r(3) gt [of j] that by auto
    ultimately show ?thesis using r(1) by blast
  qed
qed

lemma putptr_prints: "putptr c v = Inr (vga_puts c (pointer_chars v))"
proof -
  let ?c = "vga_putchar (vga_putchar c (ascii CHR ''0'') VGA_WHITE) (ascii CHR ''x'') VGA_WHITE"
  have log: "U64_MAX_LOG_BASE 16 = Inr 16" by (simp add: U64_MAX_LOG_BASE_def LOG_LOOKUP_def)
  obtain array where d: "putptr_digits v 16 15 Map.empty = Inr (U8_MAX, array)"
    "\<forall>k \<le> 15. array (of_nat k) = Some (digit_char (unat v div 16 ^ (15 - k) mod 16))"
    using putptr_digits_fill [of 15 16 v Map.empty] by auto
  have "emit_array ?c array 16 0 = Inr (vga_puts ?c (map (\<lambda>k. digit_char (unat v div 16 ^ (15 - k) mod 16)) [0..<16]))"
    by (rule emit_array_run) (use d(2) in auto)
  moreover have "U8_MAX + 1 = 0" by (simp add: U8_MAX_def word_unat_eq_iff)
  ultimately show ?thesis using log d(1) by (simp add: putptr_def Let_def pointer_chars_def)
qed

text \<open>
  The format language on character lists: the output items of a format string with its
  arguments, \<open>None\<close> when an argument is missing or not of the kind the directive reads. A
  character after \<^verbatim>\<open>%\<close> that is no directive is printed as itself; a newline pads the line.
\<close>

datatype out_item = Put u8 | Pad
datatype printk_arg = Num u64 | Text "u8 list"

fun term_out :: "out_item \<Rightarrow> u16 list \<times> nat \<Rightarrow> u16 list \<times> nat" where
  "term_out (Put ch) t = term_put (vga_entry ch VGA_WHITE) t"
| "term_out Pad t = term_pad t"

definition arg_chars :: "u8 \<Rightarrow> printk_arg \<Rightarrow> u8 list option" where
  "arg_chars s a = (case a of
       Num v \<Rightarrow> if s = ascii CHR ''b'' then Some (number_chars 2 v)
         else if s = ascii CHR ''x'' then Some (number_chars 16 v)
         else if s = ascii CHR ''u'' then Some (number_chars 10 v)
         else if s = ascii CHR ''c'' then Some [ucast v]
         else if s = ascii CHR ''p'' then Some (pointer_chars v)
         else None
     | Text t \<Rightarrow> if s = ascii CHR ''s'' then Some t else None)"

definition takes_arg :: "u8 \<Rightarrow> bool" where
  "takes_arg s \<longleftrightarrow> s \<in> set (map ascii ''bxucsp'')"

fun render :: "u8 list \<Rightarrow> printk_arg list \<Rightarrow> out_item list option" where
  "render [] args = Some []"
| "render (ch # cs) args =
     (if ch = 10 then map_option (Cons Pad) (render cs args)
      else if ch \<noteq> ascii CHR ''%'' then map_option (Cons (Put ch)) (render cs args)
      else case cs of [] \<Rightarrow> Some []
        | s # cs' \<Rightarrow>
            if s = ascii CHR ''%'' then map_option (Cons (Put s)) (render cs' args)
            else if takes_arg s then
              (case args of [] \<Rightarrow> None
               | a # args' \<Rightarrow> (case arg_chars s a of None \<Rightarrow> None
                   | Some t \<Rightarrow> map_option (append (map Put t)) (render cs' args')))
            else render cs args)"

text \<open>A string in memory, outside the text buffer, and arguments that stand for slots.\<close>

fun text_at :: "memory \<Rightarrow> u64 \<Rightarrow> u8 list \<Rightarrow> bool" where
  "text_at m p [] \<longleftrightarrow> m p = 0 \<and> \<not> in_vga p"
| "text_at m p (ch # cs) \<longleftrightarrow> m p = ch \<and> ch \<noteq> 0 \<and> \<not> in_vga p \<and> text_at m (p + 1) cs"

fun arg_at :: "memory \<Rightarrow> printk_arg \<Rightarrow> u64 \<Rightarrow> bool" where
  "arg_at m (Num v) w \<longleftrightarrow> w = v"
| "arg_at m (Text t) w \<longleftrightarrow> text_at m w t"

lemma text_at_cong: "(\<And>a. \<not> in_vga a \<Longrightarrow> m' a = m a) \<Longrightarrow> text_at m' p cs = text_at m p cs"
  by (induction cs arbitrary: p) auto

lemma arg_at_cong: "(\<And>a. \<not> in_vga a \<Longrightarrow> m' a = m a) \<Longrightarrow> arg_at m' a w = arg_at m a w"
  by (cases a) (simp, simp only: arg_at.simps, rule text_at_cong)

lemma con_step_text: "con_step c c' f \<Longrightarrow> text_at (con_mem c') p cs = text_at (con_mem c) p cs"
  by (rule text_at_cong) (simp add: con_step_def)

lemma con_step_args: "con_step c c' f \<Longrightarrow> list_all2 (arg_at (con_mem c')) as ap = list_all2 (arg_at (con_mem c)) as ap"
  using arg_at_cong [of "con_mem c'" "con_mem c"] by (simp add: con_step_def cong: list.rel_cong)

lemma putstr_prints: "vga_ok c \<Longrightarrow> text_at (con_mem c) p cs \<Longrightarrow> putstr c p = Some (vga_puts c cs)"
proof (induction cs arbitrary: c p)
  case Nil
  then show ?case by (simp add: putstr.simps [of c])
next
  case (Cons ch cs)
  note s = vga_putchar_step [OF Cons.prems(1), of ch VGA_WHITE]
  then have "vga_ok (vga_putchar c ch VGA_WHITE)" "text_at (con_mem (vga_putchar c ch VGA_WHITE)) (p + 1) cs"
    using con_step_text [OF s] Cons.prems(2) by (simp_all add: con_step_def)
  from Cons.IH [OF this] show ?case using Cons.prems(2) by (simp add: putstr.simps [of c p])
qed

lemma ascii_directives [simp]:
  "ascii CHR ''b'' = 98" "ascii CHR ''x'' = 120" "ascii CHR ''u'' = 117" "ascii CHR ''c'' = 99"
  "ascii CHR ''s'' = 115" "ascii CHR ''p'' = 112" "ascii CHR ''%'' = 37"
  by (simp_all add: ascii_def)

lemma print_arg_directives:
  "print_arg c 98 (w # ap) = bindR (putnbr c w 2) (\<lambda>c'. Inr (2, c', ap))"
  "print_arg c 120 (w # ap) = bindR (putnbr c w 16) (\<lambda>c'. Inr (2, c', ap))"
  "print_arg c 117 (w # ap) = bindR (putnbr c w 10) (\<lambda>c'. Inr (2, c', ap))"
  "print_arg c 99 (w # ap) = Inr (2, vga_puts c [ucast w], ap)"
  "print_arg c 115 (w # ap) = bindR (ret (map_option Inr (putstr c w))) (\<lambda>c'. Inr (2, c', ap))"
  "print_arg c 112 (w # ap) = bindR (putptr c w) (\<lambda>c'. Inr (2, c', ap))"
  by (simp_all add: print_arg_def)

lemma print_arg_prints:
  assumes ok: "vga_ok c" and s: "takes_arg s" and a: "arg_at (con_mem c) a w" "arg_chars s a = Some t"
  shows "print_arg c s (w # ap) = Inr (2, vga_puts c t, ap)"
proof (cases a)
  case (Num v)
  then show ?thesis
    using s a putnbr_prints(1) [of 2 c w] putnbr_prints(1) [of 10 c w] putnbr_prints(1) [of 16 c w]
    by (auto simp: takes_arg_def arg_chars_def print_arg_directives putptr_prints)
next
  case (Text cs)
  then show ?thesis using ok s a putstr_prints [of c w cs] by (auto simp: takes_arg_def arg_chars_def print_arg_directives)
qed

lemma print_arg_no_directive:
  assumes "\<not> takes_arg s" "s \<noteq> ascii CHR ''%''"
  shows "print_arg c s ap = Inr (1, c, ap)"
  using assms by (simp add: print_arg_def takes_arg_def)

lemma fold_Put: "fold term_out (map Put t) = fold (\<lambda>ch. term_put (vga_entry ch VGA_WHITE)) t"
  by (induction t) (simp_all add: comp_def fun_eq_iff)

lemma renders_step:
  assumes "con_step c c1 f" and "fold term_out xs = f"
    and "\<exists>c'. interpret_format c1 p ap = Some (Inr c') \<and> con_step c1 c' (fold term_out outs)"
  shows "\<exists>c'. interpret_format c1 p ap = Some (Inr c') \<and> con_step c c' (fold term_out (xs @ outs))"
  using assms con_step_trans [OF assms(1)] by (auto simp: comp_def)

lemma interpret_renders:
  assumes "render cs args = Some outs" "vga_ok c" "text_at (con_mem c) p cs" "list_all2 (arg_at (con_mem c)) args ap"
  shows "\<exists>c'. interpret_format c p ap = Some (Inr c') \<and> con_step c c' (fold term_out outs)"
  using assms
proof (induction cs args arbitrary: outs c p ap rule: render.induct)
  case (1 args)
  then show ?case using con_step_refl(1) [of c] by (simp add: interpret_format.simps [of c] id_def)
next
  case (2 ch cs args)
  have mem: "con_mem c p = ch" "ch \<noteq> 0" "text_at (con_mem c) (p + 1) cs" using "2.prems"(3) by simp_all
  show ?case
  proof (cases "ch = 10")
    case True
    then obtain outs' where outs: "render cs args = Some outs'" "outs = [Pad] @ outs'" using "2.prems"(1) by auto
    obtain c1 where c1: "vga_pad c = Some c1" "con_step c c1 term_pad" using vga_pad_step [OF "2.prems"(2)] by blast
    then have "vga_ok c1" by (simp add: con_step_def)
    with "2.IH"(1) [OF True outs(1), of c1 "p + 1" ap] mem(3) "2.prems"(4) con_step_text [OF c1(2)] con_step_args [OF c1(2)]
    have "\<exists>c'. interpret_format c1 (p + 1) ap = Some (Inr c') \<and> con_step c1 c' (fold term_out outs')" by simp
    from renders_step [OF c1(2) _ this, of "[Pad]"] show ?thesis
      using True mem c1(1) outs(2) by (simp add: interpret_format.simps [of c p] comp_def)
  next
    case nl: False
    show ?thesis
    proof (cases "ch = ascii CHR ''%''")
      case False
      then obtain outs' where outs: "render cs args = Some outs'" "outs = [Put ch] @ outs'" using nl "2.prems"(1) by auto
      note s = vga_putchar_step [OF "2.prems"(2), of ch VGA_WHITE]
      let ?c = "vga_putchar c ch VGA_WHITE"
      have "vga_ok ?c" using s by (simp add: con_step_def)
      with "2.IH"(2) [OF nl False outs(1), of ?c "p + 1" ap] mem(3) "2.prems"(4) con_step_text [OF s] con_step_args [OF s]
      have "\<exists>c'. interpret_format ?c (p + 1) ap = Some (Inr c') \<and> con_step ?c c' (fold term_out outs')" by simp
      from renders_step [OF s _ this, of "[Put ch]"] show ?thesis
        using nl False mem outs(2) by (simp add: interpret_format.simps [of c p] comp_def)
    next
      case pc: True
      show ?thesis
      proof (cases cs)
        case Nil
        then have "con_mem c (p + 1) = 0" "outs = []" using mem(3) "2.prems"(1) nl pc by auto
        moreover have "\<not> takes_arg 0" by (simp add: takes_arg_def)
        ultimately show ?thesis using mem(1) pc print_arg_no_directive [of 0 c ap] con_step_refl(1) [OF "2.prems"(2)]
          by (simp add: interpret_format.simps [of c p] interpret_format.simps [of c "p + 1"] id_def)
      next
        case (Cons s cs')
        have s: "con_mem c (p + 1) = s" "text_at (con_mem c) (p + 2) cs'" using mem(3) Cons by (auto simp: add.assoc)
        have unf: "interpret_format c p ap = (case print_arg c s ap of Inl e \<Rightarrow> Some (Inl e)
            | Inr (n, c', args') \<Rightarrow> interpret_format c' (p + n) args')"
          using mem(1) pc s(1) by (simp add: interpret_format.simps [of c p])
        consider (percent) "s = ascii CHR ''%''" | (arg) "s \<noteq> ascii CHR ''%''" "takes_arg s" | (other) "s \<noteq> ascii CHR ''%''" "\<not> takes_arg s"
          by blast
        then show ?thesis
        proof cases
          case percent
          then obtain outs' where outs: "render cs' args = Some outs'" "outs = [Put s] @ outs'" using nl pc "2.prems"(1) Cons by auto
          note st = vga_putchar_step [OF "2.prems"(2), of s VGA_WHITE]
          let ?c = "vga_putchar c s VGA_WHITE"
          have "vga_ok ?c" using st by (simp add: con_step_def)
          with "2.IH"(3) [OF nl _ Cons percent outs(1), of ?c "p + 2" ap] pc s(2) "2.prems"(4) con_step_text [OF st] con_step_args [OF st]
          have "\<exists>c'. interpret_format ?c (p + 2) ap = Some (Inr c') \<and> con_step ?c c' (fold term_out outs')" by simp
          from renders_step [OF st _ this, of "[Put s]"] show ?thesis
            using percent outs(2) unf by (simp add: print_arg_def comp_def)
        next
          case arg
          then obtain a args' t outs' where a: "args = a # args'" "arg_chars s a = Some t"
            "render cs' args' = Some outs'" "outs = map Put t @ outs'"
            using nl pc "2.prems"(1) Cons by (auto split: list.splits option.splits)
          then obtain w ap' where ap: "ap = w # ap'" "arg_at (con_mem c) a w" "list_all2 (arg_at (con_mem c)) args' ap'"
            using "2.prems"(4) by (auto simp: list_all2_Cons1)
          note st = vga_puts_step [OF "2.prems"(2), of t]
          have ok: "vga_ok (vga_puts c t)" using st by (simp add: con_step_def)
          have "\<exists>c'. interpret_format (vga_puts c t) (p + 2) ap' = Some (Inr c') \<and> con_step (vga_puts c t) c' (fold term_out outs')"
            using nl pc Cons arg a ok s(2) ap(3) con_step_text [OF st] con_step_args [OF st]
            by (intro "2.IH"(4) [OF nl _ Cons arg a(1,2,3) ok]) simp_all
          from renders_step [OF st fold_Put this] show ?thesis
            using print_arg_prints [OF "2.prems"(2) arg(2) ap(2) a(2), of ap'] ap(1) a(4) unf by (simp add: comp_def)
        next
          case other
          then have "render cs args = Some outs" using nl pc "2.prems"(1) Cons by auto
          from "2.IH"(5) [OF nl _ Cons other this "2.prems"(2) mem(3) "2.prems"(4)] pc show ?thesis using unf print_arg_no_directive [OF other(2,1), of c ap] by simp
        qed
      qed
    qed
  qed
qed

section \<open>Properties\<close>

lemma cursor_bound: "vga_ok c \<Longrightarrow> cursor c < 2000"
  by (simp add: vga_ok_def cursor_def)

lemma screen_snd: "snd (screen c) = cursor c"
  by (simp only: screen_def snd_conv)

lemma screen_reset: "fst (screen (vga_reset c)) = fst (screen (vga_reset_loop c 0))"
proof -
  have "con_mem (vga_reset c) = con_mem (vga_reset_loop c 0)" by (simp add: vga_reset_def)
  then show ?thesis by (simp only: screen_def fst_conv)
qed

lemma term_put_all:
  assumes "length (fst t) = 2000" "snd t < 2000"
  shows "fst ((term_put e ^^ 2000) t) = replicate 2000 e"
proof (rule nth_equalityI)
  have t: "t = (fst t, snd t)" by simp
  note r = term_put_run [OF assms(2) order_refl assms(1), of e, folded t]
  then have l: "length (fst ((term_put e ^^ 2000) t)) = 2000" by blast
  then show "length (fst ((term_put e ^^ 2000) t)) = length (replicate 2000 e)" by (simp only: length_replicate)
  fix j assume "j < length (fst ((term_put e ^^ 2000) t))"
  then have "j < 2000" using l by (simp only:)
  moreover have "(j + 2000 - snd t) mod 2000 < 2000" by (rule mod_less_divisor) simp
  ultimately show "fst ((term_put e ^^ 2000) t) ! j = replicate 2000 e ! j"
    using r by (simp only: nth_replicate if_True)
qed

text \<open>
  Resetting the console from any cursor position writes a blank into every one of the 2000
  cells, puts the cursor back to the first cell and changes no byte outside the text buffer.
\<close>

theorem vga_reset_clears_screen:
  assumes "vga_ok c"
  shows "screen (vga_reset c) = (replicate 2000 blank, 0) \<and> vga_ok (vga_reset c)
    \<and> (\<forall>a. \<not> in_vga a \<longrightarrow> con_mem (vga_reset c) a = con_mem c a)"
proof -
  have "con_step c (vga_reset_loop c 0) (term_put blank ^^ (2000 - unat (0 :: u16)))" by (rule vga_reset_loop_step [OF assms])
  then have s: "screen (vga_reset_loop c 0) = (term_put blank ^^ 2000) (screen c)"
    "\<forall>a. \<not> in_vga a \<longrightarrow> con_mem (vga_reset_loop c 0) a = con_mem c a"
    unfolding con_step_def unsigned_0 diff_zero by blast+
  have "fst (screen (vga_reset_loop c 0)) = replicate 2000 blank"
    unfolding s(1) by (rule term_put_all) (use assms in \<open>simp_all add: cursor_bound screen_snd\<close>)
  then have "fst (screen (vga_reset c)) = replicate 2000 blank" by (simp only: screen_reset)
  moreover have "vga_ok (vga_reset c)" "snd (screen (vga_reset c)) = 0"
    by (simp_all add: vga_ok_def vga_reset_def cursor_def screen_snd)
  moreover have "con_mem (vga_reset c) = con_mem (vga_reset_loop c 0)" by (simp add: vga_reset_def)
  ultimately show ?thesis using s(2) by (metis prod.collapse)
qed

theorem vga_reset_clears_screen_witness:
  "screen (vga_reset \<lparr>con_mem = (\<lambda>a. 7), vga_x = 79, vga_y = 24\<rparr>) = (replicate 2000 blank, 0)"
proof -
  have "vga_ok \<lparr>con_mem = (\<lambda>a. 7), vga_x = 79, vga_y = 24\<rparr>" by (simp add: vga_ok_def)
  from vga_reset_clears_screen [OF this] show ?thesis by (rule conjunct1)
qed

definition char_digit :: "u8 \<Rightarrow> nat" where
  "char_digit ch = length (takeWhile (\<lambda>x. x \<noteq> ch) HEX_ALPHA)"

definition read_number :: "nat \<Rightarrow> u8 list \<Rightarrow> nat" where
  "read_number b chs = foldl (\<lambda>v ch. v * b + char_digit ch) 0 chs"

lemma HEX_ALPHA_codes: "HEX_ALPHA = [48, 49, 50, 51, 52, 53, 54, 55, 56, 57, 97, 98, 99, 100, 101, 102]"
  by (simp add: HEX_ALPHA_def ascii_def)

lemma char_digit_char:
  assumes "d < 16"
  shows "char_digit (digit_char d) = d"
proof -
  have "distinct (map unat HEX_ALPHA)" unfolding HEX_ALPHA_codes by simp
  then have h: "distinct HEX_ALPHA" "length HEX_ALPHA = 16" unfolding distinct_map by (blast, simp add: HEX_ALPHA_def)
  have "takeWhile (\<lambda>x. x \<noteq> HEX_ALPHA ! d) HEX_ALPHA = take d HEX_ALPHA"
    by (rule takeWhile_eq_take_P_nth) (use h assms in \<open>auto simp: nth_eq_iff_index_eq\<close>)
  then show ?thesis using h(2) assms by (simp add: char_digit_def digit_char_def)
qed

lemma read_number_chars:
  assumes "2 \<le> b" "b \<le> 16"
  shows "read_number b (number_chars b v) = unat v"
proof -
  have "d < 16" if "d \<in> set (digits b (unat v))" for d using digits_bounded [OF assms(1) that] assms(2) by simp
  then have "foldl (\<lambda>v d. v * b + char_digit (digit_char d)) 0 (digits b (unat v))
      = foldl (\<lambda>v d. v * b + d) 0 (digits b (unat v))"
    by (intro foldl_cong) (simp_all add: char_digit_char)
  then show ?thesis using digits_value [OF assms(1)] by (simp add: read_number_def number_chars_def foldl_map)
qed

text \<open>
  Printing a number in a base from 2 to 16 never leaves its digit buffer: it prints at most as
  many characters as the table of logarithms reserves, without a leading zero (except for 0
  itself), and reading the characters back in that base gives the number.
\<close>

theorem putnbr_round_trip:
  assumes "2 \<le> unat base" "unat base \<le> 16"
  shows "\<exists>chs log. putnbr c v base = Inr (vga_puts c chs) \<and> read_number (unat base) chs = unat v
    \<and> (v \<noteq> 0 \<longrightarrow> hd chs \<noteq> ascii CHR ''0'') \<and> U64_MAX_LOG_BASE base = Inr log \<and> length chs \<le> unat log"
proof -
  let ?ds = "digits (unat base) (unat v)"
  have "hd (number_chars (unat base) v) \<noteq> ascii CHR ''0''" if "v \<noteq> 0"
  proof -
    have "hd ?ds \<noteq> 0" using digits_no_leading_zero [OF assms(1), of "unat v"] that by (simp add: unat_gt_0)
    moreover have "hd ?ds < 16" using digits_bounded [OF assms(1) hd_in_set [OF digits_nonempty], of "unat v"] assms(2) by simp
    ultimately have "char_digit (digit_char (hd ?ds)) \<noteq> 0" by (simp add: char_digit_char)
    moreover have "char_digit (ascii CHR ''0'') = 0" by (simp add: char_digit_def HEX_ALPHA_def)
    ultimately show ?thesis by (auto simp: number_chars_def hd_map)
  qed
  then show ?thesis using putnbr_prints [OF assms] read_number_chars [OF assms] by blast
qed

theorem putnbr_round_trip_witness:
  "\<exists>chs. putnbr \<lparr>con_mem = (\<lambda>a. 0), vga_x = 0, vga_y = 0\<rparr> 0xffffffffffffffff 2
      = Inr (vga_puts \<lparr>con_mem = (\<lambda>a. 0), vga_x = 0, vga_y = 0\<rparr> chs) \<and> read_number 2 chs = 18446744073709551615"
  using putnbr_round_trip [where base = 2 and v = "0xffffffffffffffff" and c = "\<lparr>con_mem = (\<lambda>a. 0), vga_x = 0, vga_y = 0\<rparr>"] by auto

text \<open>
  C19. For a format string and string arguments that lie outside the text buffer, with an argument
  of the right kind for every directive, the formatter returns, the screen is what printing the
  rendered items on the terminal gives, and no byte outside the text buffer changes.
\<close>

theorem printk_renders:
  assumes "vga_ok c" "format \<noteq> 0" "text_at (con_mem c) format cs" "list_all2 (arg_at (con_mem c)) args ap"
    and "render cs args = Some outs"
  shows "\<exists>c'. printk c format ap = Inr c' \<and> screen c' = fold term_out outs (screen c) \<and> vga_ok c'
    \<and> (\<forall>a. \<not> in_vga a \<longrightarrow> con_mem c' a = con_mem c a)"
  using interpret_renders [OF assms(5,1,3,4)] assms(2) by (auto simp: printk_def printk_va_def con_step_def)

text \<open>The format \<^verbatim>\<open>"%x\n%d"\<close> at address 16, with one argument: \<^verbatim>\<open>%d\<close> is no directive.\<close>

definition format0 :: memory where
  "format0 = (\<lambda>a. 0)(16 := 37, 17 := 120, 18 := 10, 19 := 37, 20 := 100)"

theorem printk_renders_witness:
  "render [37, 120, 10, 37, 100] [Num 0x2a] = Some [Put 50, Put 97, Pad, Put 100]
   \<and> (\<exists>c'. printk \<lparr>con_mem = format0, vga_x = 0, vga_y = 0\<rparr> 16 [0x2a] = Inr c'
        \<and> screen c' = fold term_out [Put 50, Put 97, Pad, Put 100] (screen \<lparr>con_mem = format0, vga_x = 0, vga_y = 0\<rparr>))"
proof -
  have r: "render [37, 120, 10, 37, 100] [Num 0x2a] = Some [Put 50, Put 97, Pad, Put 100]"
    by (simp add: takes_arg_def arg_chars_def number_chars_def digits.simps digit_char_def HEX_ALPHA_def ascii_def)
  have "text_at format0 16 [37, 120, 10, 37, 100]"
    by (simp add: format0_def in_vga_def VGA_BUFFER_ADDRESS_def P2V_def KERNEL_VMA_def)
  then show ?thesis
    using r printk_renders [of "\<lparr>con_mem = format0, vga_x = 0, vga_y = 0\<rparr>" 16 "[37, 120, 10, 37, 100]" "[Num 0x2a]" "[0x2a]"]
    by (auto simp: vga_ok_def)
qed

text \<open>The attribute of a cell is the colour for a character below 0x80, and 0xff for any other.\<close>

lemma vga_entry_attribute:
  "ucast (drop_bit 8 (vga_entry ch color)) = (if bit ch 7 then 0xff else color :: u8)" "ucast (vga_entry ch color) = ch"
proof -
  have "bit (ucast (drop_bit 8 (vga_entry ch color)) :: u8) n = bit (if bit ch 7 then 0xff else color) n" if "n < 8" for n
    using that bit_mask_iff [of 8 n, where 'a = u8] by (auto simp: vga_entry_def bit_simps min_def mask_eq_exp_minus_1)
  then show "ucast (drop_bit 8 (vga_entry ch color)) = (if bit ch 7 then 0xff else color)" by (intro bit_word_eqI) simp
  have "bit (ucast (vga_entry ch color) :: u8) n = bit ch n" if "n < 8" for n
    using that by (cases "n = 7") (auto simp: vga_entry_def bit_simps min_def)
  then show "ucast (vga_entry ch color) = ch" by (intro bit_word_eqI) simp
qed

end
