(* ===== verification/Devices.thy ===== *)
theory Devices
  imports Sched Acpi Console
begin

text \<open>
  The timers and interrupt controllers: \<^verbatim>\<open>apic.c\<close>, \<^verbatim>\<open>pic.c\<close>, \<^verbatim>\<open>interrupts.c\<close>, \<^verbatim>\<open>timers/hpet.c\<close>, the register
  accessors of \<^verbatim>\<open>asm.h\<close> and the dispatcher of \<^verbatim>\<open>idt.c\<close>. Model specific registers are a map, port
  writes a log, memory-mapped registers cells of byte memory. What the hardware answers (the
  processor features, the successive values of the free-running counter, the countdown of the
  local timer) is the argument \<open>hw\<close>.
\<close>

named_theorems dev_defs \<open>the constants of the device headers\<close>

section \<open>Registers\<close>

definition IA32_APIC_BASE_MSR :: u32 where [dev_defs]: "IA32_APIC_BASE_MSR = 0x1b"
definition IA32_APIC_BASE_MSR_BSP :: u64 where [dev_defs]: "IA32_APIC_BASE_MSR_BSP = 0x100"
definition IA32_APIC_BASE_MSR_ENABLE :: u64 where [dev_defs]: "IA32_APIC_BASE_MSR_ENABLE = 0x800"
definition LOCAL_APIC_ID :: u32 where [dev_defs]: "LOCAL_APIC_ID = 0x802"
definition LOCAL_APIC_VERSION :: u32 where [dev_defs]: "LOCAL_APIC_VERSION = 0x803"
definition PROCESS_PRIORITY_REGISTER :: u32 where [dev_defs]: "PROCESS_PRIORITY_REGISTER = 0x808"
definition PROCESSOR_PRIORITY_REGISTER :: u32 where [dev_defs]: "PROCESSOR_PRIORITY_REGISTER = 0x80a"
definition EOI_REGISTER :: u32 where [dev_defs]: "EOI_REGISTER = 0x80b"
definition LOGICAL_DESTINATION_REGISTER :: u32 where [dev_defs]: "LOGICAL_DESTINATION_REGISTER = 0x80d"
definition SPURIOUS_INTERRUPT_VECTOR_REGISTER :: u32 where [dev_defs]: "SPURIOUS_INTERRUPT_VECTOR_REGISTER = 0x80f"
definition IN_SERVICE_REGISTER :: u32 where [dev_defs]: "IN_SERVICE_REGISTER = 0x810"
definition TRIGGER_MODE_REGISTER :: u32 where [dev_defs]: "TRIGGER_MODE_REGISTER = 0x818"
definition ERROR_STATUS_REGISTER :: u32 where [dev_defs]: "ERROR_STATUS_REGISTER = 0x828"
definition LVT_CMCI_REGISTER :: u32 where [dev_defs]: "LVT_CMCI_REGISTER = 0x82f"
definition INTERRUPT_COMMAND_REGISTER :: u32 where [dev_defs]: "INTERRUPT_COMMAND_REGISTER = 0x830"
definition LVT_TIMER_REGISTER :: u32 where [dev_defs]: "LVT_TIMER_REGISTER = 0x832"
definition LVT_THERMAL_SENSOR_REGISTER :: u32 where [dev_defs]: "LVT_THERMAL_SENSOR_REGISTER = 0x833"
definition LVT_PERFORMANCE_MONITORING_REGISTER :: u32 where [dev_defs]: "LVT_PERFORMANCE_MONITORING_REGISTER = 0x834"
definition LVT_LINT0_REGISTER :: u32 where [dev_defs]: "LVT_LINT0_REGISTER = 0x835"
definition LVT_LINT1_REGISTER :: u32 where [dev_defs]: "LVT_LINT1_REGISTER = 0x836"
definition LVT_ERROR_REGISTER :: u32 where [dev_defs]: "LVT_ERROR_REGISTER = 0x837"
definition INITIAL_COUNT_REGISTER :: u32 where [dev_defs]: "INITIAL_COUNT_REGISTER = 0x838"
definition CURRENT_COUNTER_REGISTER :: u32 where [dev_defs]: "CURRENT_COUNTER_REGISTER = 0x839"
definition DIVIDE_CONFIGURATION_REGISTER :: u32 where [dev_defs]: "DIVIDE_CONFIGURATION_REGISTER = 0x83e"
definition SELF_IPI :: u32 where [dev_defs]: "SELF_IPI = 0x83f"
definition TIMER_DIVIDE_BY_2 :: u64 where [dev_defs]: "TIMER_DIVIDE_BY_2 = 0b0000"
definition TIMER_DIVIDE_BY_4 :: u64 where [dev_defs]: "TIMER_DIVIDE_BY_4 = 0b0001"
definition TIMER_DIVIDE_BY_8 :: u64 where [dev_defs]: "TIMER_DIVIDE_BY_8 = 0b0010"
definition TIMER_DIVIDE_BY_16 :: u64 where [dev_defs]: "TIMER_DIVIDE_BY_16 = 0b0011"
definition TIMER_DIVIDE_BY_32 :: u64 where [dev_defs]: "TIMER_DIVIDE_BY_32 = 0b1000"
definition TIMER_DIVIDE_BY_64 :: u64 where [dev_defs]: "TIMER_DIVIDE_BY_64 = 0b1001"
definition TIMER_DIVIDE_BY_128 :: u64 where [dev_defs]: "TIMER_DIVIDE_BY_128 = 0b1010"
definition TIMER_DIVIDE_BY_1 :: u64 where [dev_defs]: "TIMER_DIVIDE_BY_1 = 0b1011"
definition LVT_MASK :: u64 where [dev_defs]: "LVT_MASK = 65536"
definition LVT_PERIODIC :: u64 where [dev_defs]: "LVT_PERIODIC = 131072"
definition IO_APIC_REGISTER_SELECT :: u64 where [dev_defs]: "IO_APIC_REGISTER_SELECT = 0x0"
definition IO_APIC_REGISTER_DATA :: u64 where [dev_defs]: "IO_APIC_REGISTER_DATA = 0x10"
definition IO_APIC_ID :: u64 where [dev_defs]: "IO_APIC_ID = 0x00"
definition IO_APIC_VER :: u64 where [dev_defs]: "IO_APIC_VER = 0x01"
definition IO_APIC_ARB :: u64 where [dev_defs]: "IO_APIC_ARB = 0x02"
definition PIC_COMMAND_MASTER :: u16 where [dev_defs]: "PIC_COMMAND_MASTER = 0x20"
definition PIC_COMMAND_SLAVE :: u16 where [dev_defs]: "PIC_COMMAND_SLAVE = 0xa0"
definition PIC_DATA_MASTER :: u16 where [dev_defs]: "PIC_DATA_MASTER = 0x21"
definition PIC_DATA_SLAVE :: u16 where [dev_defs]: "PIC_DATA_SLAVE = 0xa1"
definition ICW_1 :: u8 where [dev_defs]: "ICW_1 = 0x11"
definition ICW_2_M :: u8 where [dev_defs]: "ICW_2_M = 0x20"
definition ICW_2_S :: u8 where [dev_defs]: "ICW_2_S = 0x28"
definition ICW_3_M :: u8 where [dev_defs]: "ICW_3_M = 0x04"
definition ICW_3_S :: u8 where [dev_defs]: "ICW_3_S = 0x02"
definition ICW_4 :: u8 where [dev_defs]: "ICW_4 = 0x01"
definition HPET_GENERAL_CAPABILITIES :: u64 where [dev_defs]: "HPET_GENERAL_CAPABILITIES = 0x0"
definition HPET_GENERAL_CONFIGURATION :: u64 where [dev_defs]: "HPET_GENERAL_CONFIGURATION = 0x10"
definition HPET_MAIN_COUNTER_VALUE :: u64 where [dev_defs]: "HPET_MAIN_COUNTER_VALUE = 0xf0"
definition HPET_CAP_COUNTER_CLOCK_OFFSET :: nat where [dev_defs]: "HPET_CAP_COUNTER_CLOCK_OFFSET = 32"
definition HPET_CONFIGURATION_ON :: u64 where [dev_defs]: "HPET_CONFIGURATION_ON = 1"
definition HPET_CONFIGURATION_OFF :: u64 where [dev_defs]: "HPET_CONFIGURATION_OFF = 0"

definition IO_APIC_REDIRECTION_TBL :: "u64 \<Rightarrow> u64" where "IO_APIC_REDIRECTION_TBL n = 0x10 + 2 * n"

section \<open>State\<close>

text \<open>What the hardware answers, and the addresses the linker gives to static objects and literals.\<close>

record hardware =
  hw_cpuid :: "u32 \<Rightarrow> u32 \<Rightarrow> u32 \<times> u32 \<times> u32 \<times> u32"
  hw_counter :: "nat \<Rightarrow> u64"
  hw_current_count :: u64

record image =
  at_gdt :: u64
  at_tss :: u64
  at_idt :: u64
  at_hpet :: u64
  val_stack_top :: u64
  val_idt_vectors :: "nat \<Rightarrow> u64"
  lit_rsd_ptr :: u64
  lit_apic :: u64
  lit_hpet :: u64
  lit_page_fault :: u64
  lit_fault_at :: u64
  lit_fault_code :: u64
  lit_available :: u64

record device_state = task_state +
  con_x :: u8
  con_y :: u8
  msrs :: "u32 \<Rightarrow> u64"
  port_log :: "(u16 \<times> u8) list"
  acpi :: acpi_state
  hpet_base :: u64
  hpet_clock :: u32
  io_apic_base :: u64
  timer_ticks_per_10ms :: u32

definition rdmsr :: "u32 \<Rightarrow> 'a device_state_scheme \<Rightarrow> u64" where
  "rdmsr r s = (let v = msrs s r; low = ucast v :: u32; high = ucast (drop_bit 32 v) :: u32
     in push_bit 32 (ucast high) OR ucast low)"

definition wrmsr :: "u32 \<Rightarrow> u64 \<Rightarrow> 'a device_state_scheme \<Rightarrow> 'a device_state_scheme" where
  "wrmsr r v s = (let low = ucast (v AND ucast U32_MAX) :: u32; high = ucast (drop_bit 32 v) :: u32
     in s\<lparr>msrs := (msrs s)(r := push_bit 32 (ucast high) OR ucast low)\<rparr>)"

definition outb :: "u16 \<Rightarrow> u8 \<Rightarrow> 'a device_state_scheme \<Rightarrow> 'a device_state_scheme" where
  "outb port v s = s\<lparr>port_log := port_log s @ [(port, v)]\<rparr>"

definition store32 :: "memory \<Rightarrow> u64 \<Rightarrow> u32 \<Rightarrow> memory" where
  "store32 m a v = m(a := ucast v, a + 1 := ucast (drop_bit 8 v), a + 2 := ucast (drop_bit 16 v), a + 3 := ucast (drop_bit 24 v))"

definition volatile_read64 :: "u64 \<Rightarrow> 'a kmem_scheme \<Rightarrow> u64" where
  "volatile_read64 a s = load64 (mem s) a"

definition volatile_write64 :: "u64 \<Rightarrow> u64 \<Rightarrow> 'a kmem_scheme \<Rightarrow> 'a kmem_scheme" where
  "volatile_write64 a v s = s\<lparr>mem := store64 (mem s) a v\<rparr>"

text \<open>The 32-bit read dereferences a 64-bit pointer and truncates.\<close>

definition volatile_read32 :: "u64 \<Rightarrow> 'a kmem_scheme \<Rightarrow> u32" where
  "volatile_read32 a s = ucast (load64 (mem s) a)"

definition volatile_write32 :: "u64 \<Rightarrow> u32 \<Rightarrow> 'a kmem_scheme \<Rightarrow> 'a kmem_scheme" where
  "volatile_write32 a v s = s\<lparr>mem := store32 (mem s) a v\<rparr>"

section \<open>Timers\<close>

text \<open>
  \<open>hpet_sleep\<close> reads the counter once for the target and then until the target is reached; the
  result is how many times it read. The product is a signed 64-bit one.
\<close>

partial_function (option) hpet_wait :: "(nat \<Rightarrow> u64) \<Rightarrow> u64 \<Rightarrow> nat \<Rightarrow> nat option" where
  "hpet_wait counter target k = (if counter k < target then hpet_wait counter target (k + 1) else Some (k + 1))"

definition hpet_target :: "hardware \<Rightarrow> u32 \<Rightarrow> u32 \<Rightarrow> u64 res" where
  "hpet_target hw clock milliseconds =
     (if 2 ^ 63 \<le> unat milliseconds * 1000000000000 then Inl Overflow_UB
      else if clock = 0 then Inl Div_By_Zero
      else Inr (hw_counter hw 0 + (ucast milliseconds * 1000000000000) div ucast clock))"

definition hpet_sleep :: "hardware \<Rightarrow> u32 \<Rightarrow> 'a device_state_scheme \<Rightarrow> nat res" where
  "hpet_sleep hw milliseconds s =
     bindR (hpet_target hw (hpet_clock s) milliseconds) (\<lambda>target.
     ret (map_option Inr (hpet_wait (hw_counter hw) target 1)))"

definition hpet_init :: "image \<Rightarrow> 'a device_state_scheme \<Rightarrow> 'a device_state_scheme res" where
  "hpet_init im s =
     (case acpi_copy_table (mem s) (acpi s) (lit_hpet im) (at_hpet im) of (failed, m) \<Rightarrow>
        if failed \<noteq> 0 then Inl (Panic ''hpet_init: failed to retrieve hpet acpi table'')
        else let s1 = s\<lparr>mem := m\<rparr>; address = acpi_hpet_address m (at_hpet im)
             in if \<not> IS_ALIGNED address PAGE_SIZE_IN_BYTES
                then Inl (Panic ''hpet_init: HPET address isn't aligned gl'')
                else bindR (vmm_map s1 (kspace s1) (DM_P2V address) address PAGE_KERNEL_RW) (\<lambda>(base, s2).
                     if base = 0 then Inl (Panic ''hpet_init: failed to map HPET'')
                     else let s3 = s2\<lparr>hpet_base := base,
                                hpet_clock := ucast (drop_bit HPET_CAP_COUNTER_CLOCK_OFFSET (volatile_read64 (base + HPET_GENERAL_CAPABILITIES) s2))\<rparr>;
                              s4 = volatile_write64 (base + HPET_GENERAL_CONFIGURATION) HPET_CONFIGURATION_OFF s3;
                              s5 = volatile_write64 (base + HPET_MAIN_COUNTER_VALUE) 0 s4
                          in Inr (volatile_write64 (base + HPET_GENERAL_CONFIGURATION) HPET_CONFIGURATION_ON s5)))"

section \<open>Interrupt controllers\<close>

definition io_apic_write_register :: "u8 \<Rightarrow> u32 \<Rightarrow> 'a device_state_scheme \<Rightarrow> 'a device_state_scheme" where
  "io_apic_write_register reg v s =
     volatile_write32 (io_apic_base s + IO_APIC_REGISTER_DATA) v (volatile_write32 (io_apic_base s) (ucast reg) s)"

definition io_apic_read_register :: "u8 \<Rightarrow> 'a device_state_scheme \<Rightarrow> u32 \<times> 'a device_state_scheme" where
  "io_apic_read_register reg s =
     (let s1 = volatile_write32 (io_apic_base s) (ucast reg) s
      in (volatile_read32 (io_apic_base s + IO_APIC_REGISTER_DATA) s1, s1))"

definition io_apic_init :: "image \<Rightarrow> 'a device_state_scheme \<Rightarrow> 'a device_state_scheme res" where
  "io_apic_init im s =
     bindR (acpi_madt_find (lit_apic im) (mem s) (acpi s) ACPI_MADT_IO_APIC) (\<lambda>(e, a).
       if e = 0 then Inl (Panic ''io_apic_init: couldn't find IO APIC in acpi_madt'')
       else let address = ucast (madt_io_apic_address (mem s) e) :: u64; s1 = s\<lparr>acpi := a\<rparr>
            in bindR (vmm_map s1 (kspace s1) (DM_P2V address) address PAGE_KERNEL_RW) (\<lambda>(base, s2).
               if base = 0 then Inl (Panic ''io_apic_init: failed to map IO APIC'')
               else Inr (s2\<lparr>io_apic_base := base\<rparr>)))"

definition local_apic_eoi :: "'a device_state_scheme \<Rightarrow> 'a device_state_scheme" where
  "local_apic_eoi s = wrmsr EOI_REGISTER 0 s"

definition local_apic_periodic_timer :: "'a device_state_scheme \<Rightarrow> 'a device_state_scheme" where
  "local_apic_periodic_timer s =
     (let reg = ucast ((rdmsr LVT_TIMER_REGISTER s AND NOT LVT_MASK) OR LVT_PERIODIC OR IDT_TIMER_INT) :: u32
      in wrmsr INITIAL_COUNT_REGISTER (ucast (timer_ticks_per_10ms s)) (wrmsr LVT_TIMER_REGISTER (ucast reg) s))"

definition local_apic_timer_calibrate :: "hardware \<Rightarrow> 'a device_state_scheme \<Rightarrow> 'a device_state_scheme res" where
  "local_apic_timer_calibrate hw s =
     (let conf = ucast (rdmsr DIVIDE_CONFIGURATION_REGISTER s) :: u32;
          s1 = wrmsr DIVIDE_CONFIGURATION_REGISTER (ucast conf OR TIMER_DIVIDE_BY_2) s;
          s2 = wrmsr INITIAL_COUNT_REGISTER (ucast U32_MAX) s1
      in bindR (hpet_sleep hw 10 s2) (\<lambda>_.
         Inr (wrmsr INITIAL_COUNT_REGISTER 0 (s2\<lparr>timer_ticks_per_10ms := ucast (ucast U32_MAX - hw_current_count hw)\<rparr>))))"

definition local_apic_init :: "hardware \<Rightarrow> 'a device_state_scheme \<Rightarrow> 'a device_state_scheme res" where
  "local_apic_init hw s =
     (case hw_cpuid hw 1 0 of (eax, ebx, ecx, edx) \<Rightarrow>
        if \<not> bit edx 9 then Inl (Panic ''local_apic_init: hardware is missing APIC'')
        else if \<not> bit ecx 21 then Inl (Panic ''local_apic_init: hardware is missing x2APIC'')
        else Inr (wrmsr SPURIOUS_INTERRUPT_VECTOR_REGISTER (push_bit 8 1 OR IDT_SPURIOUS_INT)
               (wrmsr IA32_APIC_BASE_MSR (rdmsr IA32_APIC_BASE_MSR s OR push_bit 10 1 OR push_bit 11 1) s)))"

definition pic_disable :: "'a device_state_scheme \<Rightarrow> 'a device_state_scheme" where
  "pic_disable s =
     outb PIC_DATA_SLAVE 0xff (outb PIC_DATA_MASTER 0xff (outb PIC_DATA_SLAVE ICW_4 (outb PIC_DATA_MASTER ICW_4
       (outb PIC_DATA_SLAVE ICW_3_S (outb PIC_DATA_MASTER ICW_3_M (outb PIC_DATA_SLAVE ICW_2_S (outb PIC_DATA_MASTER ICW_2_M
         (outb PIC_COMMAND_SLAVE ICW_1 (outb PIC_COMMAND_MASTER ICW_1 s)))))))))"

definition interrupts_entry_init :: "image \<Rightarrow> hardware \<Rightarrow> 'a device_state_scheme \<Rightarrow> 'a device_state_scheme res" where
  "interrupts_entry_init im hw s =
     bindR (local_apic_init hw (s\<lparr>tabs := gdt_reload (at_gdt im) (at_tss im) (val_stack_top im) (tabs s)\<rparr>)) (\<lambda>s1.
     let s2 = pic_disable s1 in Inr (s2\<lparr>tabs := idt_init (at_idt im) (val_idt_vectors im) (tabs s2)\<rparr>))"

definition interrupts_init :: "image \<Rightarrow> hardware \<Rightarrow> 'a device_state_scheme \<Rightarrow> 'a device_state_scheme res" where
  "interrupts_init im hw s =
     bindR (hpet_init im s) (\<lambda>s1. bindR (local_apic_timer_calibrate hw s1) (io_apic_init im))"

definition interrupts_timer_start :: "'a device_state_scheme \<Rightarrow> 'a device_state_scheme" where
  "interrupts_timer_start s = local_apic_periodic_timer s"

definition sched_start :: "'a device_state_scheme \<Rightarrow> 'a device_state_scheme" where
  "sched_start s = local_apic_periodic_timer s"

section \<open>Dispatch\<close>

text \<open>The console works on the same memory as the rest of the kernel.\<close>

definition on_console :: "(console \<Rightarrow> console res) \<Rightarrow> 'a device_state_scheme \<Rightarrow> 'a device_state_scheme res" where
  "on_console f s =
     bindR (f \<lparr>con_mem = mem s, vga_x = con_x s, vga_y = con_y s\<rparr>) (\<lambda>c.
     Inr (s\<lparr>mem := con_mem c, con_x := vga_x c, con_y := vga_y c\<rparr>))"

text \<open>The system call entry of \<^verbatim>\<open>syscall.c\<close> has an empty body.\<close>

definition syscall :: "u64 \<Rightarrow> 'a device_state_scheme \<Rightarrow> 'a device_state_scheme" where
  "syscall tf s = s"

definition interrupt_handler :: "image \<Rightarrow> u64 \<Rightarrow> 'a device_state_scheme \<Rightarrow> (u64 \<times> 'a device_state_scheme) res" where
  "interrupt_handler im rsp s =
     (let vector = load64 (mem s) (rsp + tf_vector_number); code = load64 (mem s) (rsp + tf_error_code)
      in bindR (if vector = IDT_TIMER_INT then sched_switch (s\<lparr>tabs := cli (tabs s)\<rparr>)
                else if vector = IDT_SYSCALL_INT then Inr (syscall rsp s)
                else if vector = IDT_PAGE_FAULT then
                  bindR (on_console (\<lambda>c. printk c (lit_page_fault im) []) s) (\<lambda>s1.
                  bindR (on_console (\<lambda>c. printk c (lit_fault_at im) [load64 (mem s1) (rsp + tf_rip)]) s1) (\<lambda>s2.
                  bindR (on_console (\<lambda>c. printk c (lit_fault_code im) [load64 (mem s2) (rsp + tf_error_code)]) s2) (\<lambda>s3.
                  Inl (Panic ''look at at the CR2 register value to found out which address caused the page fault''))))
                else if vector = IDT_SPURIOUS_INT then Inr s
                else Inl (Panic ''unexepected interrupt: vector %u | error %u'')) (\<lambda>s1.
         Inr (rsp, local_apic_eoi s1)))"

section \<open>Properties\<close>

lemma join_halves: "push_bit 32 (ucast (ucast (drop_bit 32 v) :: u32)) OR ucast (ucast v :: u32) = (v :: u64)"
proof (rule bit_word_eqI)
  fix n assume "n < LENGTH(64)"
  then show "bit (push_bit 32 (ucast (ucast (drop_bit 32 v) :: u32)) OR ucast (ucast v :: u32) :: u64) n = bit v n"
    by (cases "n < 32") (auto simp: bit_simps)
qed

lemma low_half: "ucast (v AND ucast U32_MAX) = (ucast (v :: u64) :: u32)"
proof (rule bit_word_eqI)
  fix n assume "n < LENGTH(32)"
  then show "bit (ucast (v AND ucast U32_MAX) :: u32) n = bit (ucast v :: u32) n"
    by (simp add: bit_simps masks(2))
qed

lemma wrmsr_eq: "wrmsr r v s = s\<lparr>msrs := (msrs s)(r := v)\<rparr>"
  by (simp add: wrmsr_def Let_def low_half join_halves)

lemma rdmsr_eq: "rdmsr r s = msrs s r"
  by (simp add: rdmsr_def Let_def join_halves)

text \<open>The timer register keeps the vector bits it had: the new vector is merged into them.\<close>

lemma local_apic_periodic_timer_regs:
  "msrs (local_apic_periodic_timer s) LVT_TIMER_REGISTER
     = ucast (ucast ((msrs s LVT_TIMER_REGISTER AND NOT 0x10000) OR 0x20000 OR 60) :: u32)"
  "msrs (local_apic_periodic_timer s) INITIAL_COUNT_REGISTER = ucast (timer_ticks_per_10ms s)"
  by (simp_all add: local_apic_periodic_timer_def Let_def wrmsr_eq rdmsr_eq dev_defs IDT_TIMER_INT_def)

lemma pic_disable_masks:
  "port_log (pic_disable s) = port_log s @ [(0x20, 0x11), (0xa0, 0x11), (0x21, 0x20), (0xa1, 0x28), (0x21, 4), (0xa1, 2),
     (0x21, 1), (0xa1, 1), (0x21, 0xff), (0xa1, 0xff)]"
  by (simp add: pic_disable_def outb_def dev_defs)

lemma hpet_wait_first:
  assumes "\<not> counter k < target" "i \<le> k" "\<And>j. i \<le> j \<Longrightarrow> j < k \<Longrightarrow> counter j < target"
  shows "hpet_wait counter target i = Some (k + 1)"
  using assms(2,3)
proof (induction "k - i" arbitrary: i)
  case 0
  then show ?case using assms(1) by (simp add: hpet_wait.simps [of _ _ i])
next
  case (Suc n)
  then have "counter i < target" "hpet_wait counter target (i + 1) = Some (k + 1)" by simp_all
  then show ?case by (simp add: hpet_wait.simps [of _ _ i])
qed

lemma hpet_target_ticks:
  assumes "clock \<noteq> 0" "unat ms * 1000000000000 < 2 ^ 63"
    and "unat (hw_counter hw 0) + unat ms * 1000000000000 div unat clock < 2 ^ 64"
  shows "\<exists>target. hpet_target hw clock ms = Inr target
    \<and> unat target = unat (hw_counter hw 0) + unat ms * 1000000000000 div unat clock"
proof -
  let ?t = "(ucast ms * 1000000000000) div ucast clock :: u64"
  have "unat (ucast ms * 1000000000000 :: u64) = unat (ucast ms :: u64) * unat (1000000000000 :: u64)"
    using assms(2) by (intro unat_mult_no_wrap) (simp add: unat_ucast_u32)
  then have t: "unat ?t = unat ms * 1000000000000 div unat clock" by (simp add: unat_div_distrib unat_ucast_u32)
  have "unat (hw_counter hw 0 + ?t) = unat (hw_counter hw 0) + unat ?t" using assms(3) t by (intro unat_add_no_wrap) simp
  then show ?thesis using assms(1,2) t by (simp add: hpet_target_def)
qed

text \<open>
  C37. A sleep returns as soon as the free-running counter has been read at or beyond the number of
  ticks that the requested time takes, and not before, provided the counter period is not 0, the
  request fits a signed 64-bit product, the target does not pass the end of the counter, and the
  counter gets there at all.
\<close>

theorem hpet_sleep_returns:
  assumes "hpet_clock s \<noteq> 0" "unat ms * 1000000000000 < 2 ^ 63"
    and "unat (hw_counter hw 0) + unat ms * 1000000000000 div unat (hpet_clock s) < 2 ^ 64"
    and "\<exists>k \<ge> 1. unat (hw_counter hw 0) + unat ms * 1000000000000 div unat (hpet_clock s) \<le> unat (hw_counter hw k)"
  shows "\<exists>k \<ge> 1. hpet_sleep hw ms s = Inr (k + 1)
    \<and> unat (hw_counter hw 0) + unat ms * 1000000000000 div unat (hpet_clock s) \<le> unat (hw_counter hw k)
    \<and> (\<forall>j. 1 \<le> j \<longrightarrow> j < k \<longrightarrow> unat (hw_counter hw j) < unat (hw_counter hw 0) + unat ms * 1000000000000 div unat (hpet_clock s))"
proof -
  let ?n = "unat (hw_counter hw 0) + unat ms * 1000000000000 div unat (hpet_clock s)"
  let ?P = "\<lambda>k. 1 \<le> k \<and> ?n \<le> unat (hw_counter hw k)"
  define k where "k = (LEAST k. ?P k)"
  have "?P k" unfolding k_def using assms(4) by (rule LeastI_ex [of ?P]) 
  moreover have "\<not> ?P j" if "j < k" for j using that unfolding k_def by (rule not_less_Least)
  ultimately have k: "1 \<le> k" "?n \<le> unat (hw_counter hw k)" "\<And>j. 1 \<le> j \<Longrightarrow> j < k \<Longrightarrow> unat (hw_counter hw j) < ?n"
    by (auto simp: not_le)
  obtain target where t: "hpet_target hw (hpet_clock s) ms = Inr target" "unat target = ?n"
    using hpet_target_ticks [OF assms(1-3)] by blast
  have "hpet_wait (hw_counter hw) target 1 = Some (k + 1)"
    using k t(2) by (intro hpet_wait_first) (simp_all add: word_less_nat_alt)
  then have "hpet_sleep hw ms s = Inr (k + 1)" using t(1) by (simp add: hpet_sleep_def)
  with k show ?thesis by blast
qed

text \<open>A counter that advances by 1000 per reading, with a period of 69841279 femtoseconds.\<close>

definition hardware0 :: hardware where
  "hardware0 = \<lparr>hw_cpuid = (\<lambda>leaf sub. (0, 0, 0x200000, 0x200)), hw_counter = (\<lambda>k. of_nat (1000 * k)), hw_current_count = 0\<rparr>"

definition device0 :: device_state where
  "device0 = task_state.extend task0 (device_state.fields 0 0 (\<lambda>r. 0) [] \<lparr>rsdt = 0, madt = 0\<rparr> 0 69841279 0 0)"

theorem hpet_sleep_returns_witness:
  "\<exists>k \<ge> 1. hpet_sleep hardware0 10 device0 = Inr (k + 1) \<and> 143181 \<le> unat (hw_counter hardware0 k)"
proof -
  have c: "hpet_clock device0 = 69841279" by (simp add: device0_def task_state.defs device_state.defs)
  have "unat (hw_counter hardware0 144) = 144000" by (simp add: hardware0_def)
  then have "\<exists>k \<ge> 1. unat (hw_counter hardware0 0) + unat (10 :: u32) * 1000000000000 div unat (hpet_clock device0) \<le> unat (hw_counter hardware0 k)"
    using c by (intro exI [of _ 144]) (simp add: hardware0_def)
  then show ?thesis using hpet_sleep_returns [of device0 10 hardware0] c by (auto simp: hardware0_def)
qed

text \<open>
  A timer interrupt runs the scheduler with interrupts off and acknowledges the interrupt when the
  run comes back; a vector the dispatcher does not know stops the kernel.
\<close>

lemma interrupt_handler_timer:
  assumes "load64 (mem s) (rsp + tf_vector_number) = 60"
  shows "interrupt_handler im rsp s
    = bindR (sched_switch (s\<lparr>tabs := cli (tabs s)\<rparr>)) (\<lambda>t. Inr (rsp, t\<lparr>msrs := (msrs t)(EOI_REGISTER := 0)\<rparr>))"
  using assms by (simp add: interrupt_handler_def Let_def IDT_TIMER_INT_def local_apic_eoi_def wrmsr_eq)

lemma interrupt_handler_unknown:
  assumes "load64 (mem s) (rsp + tf_vector_number) \<notin> {14, 60, 0x80, 0xff}"
  shows "interrupt_handler im rsp s = Inl (Panic ''unexepected interrupt: vector %u | error %u'')"
  using assms by (simp add: interrupt_handler_def Let_def gdt_defs)

end
