(* ===== verification/Stack.thy ===== *)
theory Stack
  imports Switch
begin

text \<open>
  Lists of 64-bit words in byte memory: what a sequence of pushes leaves behind, word by word and byte
  by byte. The interrupt entry and the boot page tables are read back with these lemmas.
\<close>

section \<open>Reading\<close>

lemma load_words_Suc: "load_words m a (Suc n) = load64 m a # load_words m (a + 8) n"
proof -
  have "[0..<Suc n] = 0 # map Suc [0..<n]" by (simp add: map_Suc_upt upt_conv_Cons del: upt_Suc)
  then show ?thesis by (simp add: load_words_def algebra_simps comp_def del: upt_Suc)
qed

lemma load_words_0 [simp]: "load_words m a 0 = []"
  by (simp add: load_words_def)

lemma load_words_nth: "i < n \<Longrightarrow> load_words m a n ! i = load64 m (a + 8 * of_nat i)"
  by (simp add: load_words_def)

section \<open>Pushing a list of words\<close>

fun push_mem :: "memory \<Rightarrow> u64 \<Rightarrow> u64 list \<Rightarrow> memory" where
  "push_mem m sp [] = m"
| "push_mem m sp (w # ws) = push_mem (store64 m (sp - 8) w) (sp - 8) ws"

lemma push_mem_append: "push_mem m sp (ws @ vs) = push_mem (push_mem m sp ws) (sp - 8 * of_nat (length ws)) vs"
  by (induction ws arbitrary: m sp) (simp_all add: algebra_simps)

lemma word_gap:
  assumes "i < j" and "j \<le> 2 ^ 60"
  shows "disj64 (sp - 8 * of_nat j) (sp - 8 * of_nat i)"
proof -
  have d: "8 * of_nat j - 8 * of_nat i = (of_nat (8 * (j - i)) :: u64)"
    using assms(1) by (simp add: of_nat_diff right_diff_distrib)
  have u: "unat (of_nat (8 * (j - i)) :: u64) = 8 * (j - i)" using assms by (intro unat_of_nat64) simp
  have a: "8 \<le> (of_nat (8 * (j - i)) :: u64)" using assms(1) u by (simp add: word_le_nat_alt)
  have "unat (8 * of_nat i - 8 * of_nat j :: u64) = 2 ^ 64 - unat (8 * of_nat j - 8 * of_nat i :: u64)"
    using a d by (intro unat_diff_sym) auto
  then have "8 \<le> (8 * of_nat i - 8 * of_nat j :: u64)" using assms u unfolding d by (simp add: word_le_nat_alt)
  then show ?thesis unfolding disj64_diff using a d by simp
qed

lemma push_mem_other:
  assumes "\<And>j. 1 \<le> j \<Longrightarrow> j \<le> length ws \<Longrightarrow> disj64 (sp - 8 * of_nat j) a"
  shows "load64 (push_mem m sp ws) a = load64 m a"
  using assms
proof (induction ws arbitrary: m sp)
  case (Cons w ws)
  have 1: "disj64 (sp - 8) a" using Cons.prems [of 1] by simp
  have "disj64 (sp - 8 - 8 * of_nat j) a" if "1 \<le> j" "j \<le> length ws" for j
    using Cons.prems [of "Suc j"] that by (simp add: algebra_simps)
  then show ?case using Cons.IH [of "sp - 8"] 1 by (simp add: load64_store64_other)
qed simp

lemma push_mem_nth:
  assumes "i < length ws" and "length ws \<le> 2 ^ 60"
  shows "load64 (push_mem m sp ws) (sp - 8 * of_nat (Suc i)) = ws ! i"
  using assms
proof (induction ws arbitrary: m sp i)
  case (Cons w ws)
  show ?case
  proof (cases i)
    case 0
    have "load64 (push_mem (store64 m (sp - 8) w) (sp - 8) ws) (sp - 8) = load64 (store64 m (sp - 8) w) (sp - 8)"
      by (rule push_mem_other) (use Cons.prems(2) word_gap [of 0 _ "sp - 8"] in simp)
    then show ?thesis using 0 by simp
  next
    case (Suc k)
    then show ?thesis using Cons.IH [of k "store64 m (sp - 8) w" "sp - 8"] Cons.prems by (simp add: algebra_simps)
  qed
qed simp

text \<open>Read upwards from the final stack pointer, the words appear in reverse.\<close>

lemma push_mem_words:
  assumes "length ws \<le> 2 ^ 60"
  shows "load_words (push_mem m sp ws) (sp - 8 * of_nat (length ws)) (length ws) = rev ws"
proof (rule nth_equalityI)
  fix i assume "i < length (load_words (push_mem m sp ws) (sp - 8 * of_nat (length ws)) (length ws))"
  then have i: "i < length ws" by (simp add: load_words_def)
  have e: "sp - 8 * of_nat (length ws) + 8 * of_nat i = sp - 8 * of_nat (Suc (length ws - Suc i))"
    using i by (simp add: of_nat_diff algebra_simps)
  have "load_words (push_mem m sp ws) (sp - 8 * of_nat (length ws)) (length ws) ! i
      = load64 (push_mem m sp ws) (sp - 8 * of_nat (length ws) + 8 * of_nat i)" using i by (simp add: load_words_def)
  then show "load_words (push_mem m sp ws) (sp - 8 * of_nat (length ws)) (length ws) ! i = rev ws ! i"
    unfolding e using i push_mem_nth [of "length ws - Suc i" ws m sp] assms by (simp add: rev_nth del: of_nat_Suc)
qed (simp add: load_words_def)

text \<open>No byte outside the words pushed changes.\<close>

lemma push_mem_byte:
  assumes "8 * of_nat (length ws) \<le> sp - 1 - a" and "length ws \<le> 2 ^ 60"
  shows "push_mem m sp ws a = m a"
  using assms
proof (induction ws arbitrary: m sp)
  case (Cons w ws)
  let ?d = "sp - 1 - a"
  have len: "unat (8 * of_nat (length (w # ws)) :: u64) = 8 * length (w # ws)"
    using unat_of_nat64 [of "8 * length (w # ws)"] Cons.prems(2) by simp
  then have d: "8 * Suc (length ws) \<le> unat ?d" using Cons.prems(1) by (simp add: word_le_nat_alt)
  have "unat (?d - 8) = unat ?d - 8" using d unat_sub_no_wrap [of 8 ?d] by (simp add: word_le_nat_alt)
  moreover have "unat (8 * of_nat (length ws) :: u64) = 8 * length ws"
    using unat_of_nat64 [of "8 * length ws"] Cons.prems(2) by simp
  moreover have e: "sp - 8 - 1 - a = ?d - 8" by simp
  ultimately have "8 * of_nat (length ws) \<le> sp - 8 - 1 - a" using d unfolding e word_le_nat_alt by simp
  then have "push_mem (store64 m (sp - 8) w) (sp - 8) ws a = store64 m (sp - 8) w a"
    using Cons.prems(2) by (intro Cons.IH) simp_all
  moreover have "\<not> a - (sp - 8) < 8"
  proof
    assume l: "a - (sp - 8) < 8"
    then have "unat (a - (sp - 8)) < 8" by (simp only: word_less_nat_alt) simp
    then have "a - (sp - 8) \<le> 7" unfolding word_le_nat_alt by simp
    then have "unat (7 - (a - (sp - 8))) \<le> 7" by (subst unat_sub_no_wrap) simp_all
    moreover have "?d = 7 - (a - (sp - 8))" by simp
    ultimately have "unat ?d \<le> 7" by (simp only:)
    from le_trans [OF d this] show False by simp
  qed
  ultimately show ?case by (simp add: store64_apply)
qed simp

end
