(* ===== verification/Trap.thy ===== *)
theory Trap
  imports Devices Stack
begin

text \<open>
  Interrupt entry and return: the assembly of \<^verbatim>\<open>kernel/arch/x86_64/interrupts/idt.asm\<close> around the
  dispatcher \<^verbatim>\<open>interrupt_handler\<close>. The stubs and the common handler are lists of instructions that an
  executable step function runs on a register file and byte memory. What the processor does by
  itself, the delivery of an interrupt through its gate and \<^verbatim>\<open>iretq\<close>, follows the architecture
  manual in 64-bit mode: the stack pointer is taken from the task-state segment when the privilege
  level changes, aligned to 16 bytes, five words and for some vectors an error code are pushed, and the
  interrupt, trap, nested-task and resume flags are cleared.
\<close>

section \<open>Instructions\<close>

datatype reg = RAX | RBX | RCX | RDX | RSI | RDI | RBP | RSP | R8 | R9 | R10 | R11 | R12 | R13 | R14 | R15

record cpu =
  gpr :: "reg \<Rightarrow> u64"
  cpu_rip :: u64
  cpu_cs :: u64
  cpu_ss :: u64
  cpu_rflags :: u64

datatype instr = PUSH reg | PUSH_IMM u64 | POP reg | ADD_RSP u64 | MOV reg reg | CLD

definition set_reg :: "reg \<Rightarrow> u64 \<Rightarrow> cpu \<Rightarrow> cpu" where
  "set_reg r v c = c\<lparr>gpr := (gpr c)(r := v)\<rparr>"

definition push_word :: "u64 \<Rightarrow> cpu \<times> memory \<Rightarrow> cpu \<times> memory" where
  "push_word v cm = (let sp = gpr (fst cm) RSP - 8 in (set_reg RSP sp (fst cm), store64 (snd cm) sp v))"

fun exec1 :: "instr \<Rightarrow> cpu \<times> memory \<Rightarrow> cpu \<times> memory" where
  "exec1 (PUSH r) (c, m) = push_word (gpr c r) (c, m)"
| "exec1 (PUSH_IMM v) (c, m) = push_word v (c, m)"
| "exec1 (POP r) (c, m) = (set_reg r (load64 m (gpr c RSP)) (set_reg RSP (gpr c RSP + 8) c), m)"
| "exec1 (ADD_RSP v) (c, m) = (set_reg RSP (gpr c RSP + v) c, m)"
| "exec1 (MOV d s) (c, m) = (set_reg d (gpr c s) c, m)"
| "exec1 CLD (c, m) = (c\<lparr>cpu_rflags := cpu_rflags c AND NOT 0x400\<rparr>, m)"

fun exec :: "instr list \<Rightarrow> cpu \<times> memory \<Rightarrow> cpu \<times> memory" where
  "exec [] cm = cm"
| "exec (i # is) cm = exec is (exec1 i cm)"

section \<open>The assembly\<close>

text \<open>The order in which the common handler pushes the registers.\<close>

definition pushed_regs :: "reg list" where
  "pushed_regs = [RAX, RBX, RCX, RDX, RSI, RDI, RBP, R8, R9, R10, R11, R12, R13, R14, R15]"

text \<open>The vectors declared by \<^verbatim>\<open>INTERRUPT_WITH_ERROR\<close>; all others are \<^verbatim>\<open>INTERRUPT_WITHOUT_ERROR\<close>.\<close>

definition with_error :: "u8 \<Rightarrow> bool" where
  "with_error v \<longleftrightarrow> v \<in> {8, 10, 11, 12, 13, 14, 17, 30}"

definition interrupt_stub :: "u8 \<Rightarrow> instr list" where
  "interrupt_stub v = (if with_error v then [PUSH_IMM (ucast v)] else [PUSH_IMM 0, PUSH_IMM (ucast v)])"

definition general_handler_asm :: "instr list" where
  "general_handler_asm = map PUSH pushed_regs @ [CLD, MOV RDI RSP]"

definition trap_ret_asm :: "instr list" where
  "trap_ret_asm = map POP (rev pushed_regs) @ [ADD_RSP 16]"

section \<open>The processor\<close>

text \<open>The vectors for which the processor pushes an error code.\<close>

definition cpu_error_code :: "u8 \<Rightarrow> bool" where
  "cpu_error_code v \<longleftrightarrow> v \<in> {8, 10, 11, 12, 13, 14, 17, 21, 29, 30}"

definition user_mode :: "cpu \<Rightarrow> bool" where
  "user_mode c \<longleftrightarrow> cpu_cs c AND 3 \<noteq> 0"

definition entry_sp :: "tables \<Rightarrow> cpu \<Rightarrow> u64" where
  "entry_sp t c = (if user_mode c then rsp0 (tss_seg t) else gpr c RSP) AND NOT 15"

definition deliver :: "tables \<Rightarrow> u8 \<Rightarrow> u64 \<Rightarrow> cpu \<times> memory \<Rightarrow> cpu \<times> memory" where
  "deliver t v err cm =
     (let c = fst cm; g = idt t v;
          c1 = (set_reg RSP (entry_sp t c) c)\<lparr>cpu_rip := gate_target g, cpu_cs := ucast (selector g),
                 cpu_ss := (if user_mode c then 0 else cpu_ss c), cpu_rflags := cpu_rflags c AND NOT 0x14300\<rparr>
      in fold push_word ([cpu_ss c, gpr c RSP, cpu_rflags c, cpu_cs c, cpu_rip c] @ (if cpu_error_code v then [err] else []))
           (c1, snd cm))"

definition iretq :: "cpu \<times> memory \<Rightarrow> cpu \<times> memory" where
  "iretq cm =
     (let c = fst cm; m = snd cm; sp = gpr c RSP
      in ((set_reg RSP (load64 m (sp + 24)) c)\<lparr>cpu_rip := load64 m sp, cpu_cs := load64 m (sp + 8),
            cpu_rflags := load64 m (sp + 16), cpu_ss := load64 m (sp + 32)\<rparr>, m))"

section \<open>From the interrupt to the return\<close>

text \<open>The part of \<^verbatim>\<open>idt.asm\<close> before the call of the dispatcher and the part after it.\<close>

definition enter_handler :: "u8 \<Rightarrow> cpu \<times> memory \<Rightarrow> cpu \<times> memory" where
  "enter_handler v cm = exec (interrupt_stub v @ general_handler_asm) cm"

definition trap_return :: "cpu \<times> memory \<Rightarrow> cpu \<times> memory" where
  "trap_return cm = iretq (exec trap_ret_asm cm)"

text \<open>
  The call of \<^verbatim>\<open>interrupt_handler\<close> pushes its return address, the label \<^verbatim>\<open>trap_ret\<close>; the function gets the
  frame in \<^verbatim>\<open>rdi\<close>. The compiled function and the functions it calls (\<^verbatim>\<open>syscall\<close>, \<^verbatim>\<open>local_apic_eoi\<close>) keep their own
  frames below the return address: the words they leave there, from the top down, are the argument
  \<open>scratch\<close>, of which a kernel stack of 16 KiB holds 2025 under the trap frame and the return address.
  Unless the function switched to another process, which shows in the saved registers, it
  returns with the stack pointer it was called with; what it leaves in the other registers is the
  argument \<open>clob\<close>. After a switch the result has no processor: execution goes on in the other process, on
  its own stack.
\<close>

definition call_words :: "u64 \<Rightarrow> u64 list \<Rightarrow> u64 list" where
  "call_words addr scratch = addr # take 2025 scratch"

definition call_handler ::
    "image \<Rightarrow> (reg \<Rightarrow> u64) \<Rightarrow> u64 list \<Rightarrow> 'a device_state_scheme \<Rightarrow> cpu \<times> memory \<Rightarrow> (cpu option \<times> 'a device_state_scheme) res" where
  "call_handler im clob scratch s cm =
     (let c = fst cm; m = snd (fold push_word (call_words (trap_ret s) scratch) cm)
      in bindR (interrupt_handler im (gpr c RDI) (s\<lparr>mem := m\<rparr>)) (\<lambda>(_, s').
         Inr (if regs s' = regs s then Some (c\<lparr>gpr := clob(RSP := gpr c RSP)\<rparr>) else None, s')))"

text \<open>
  An interrupt the processor delivers: its gate has to be present and to lead to the stub of the vector,
  whose address is \<open>vectors\<close> at that number, the table \<^verbatim>\<open>idt_vectors\<close> of \<^verbatim>\<open>idt.asm\<close>. Any other gate leads to
  code that is not described here, a fault of the model.
\<close>

definition gate_leads :: "u64 \<Rightarrow> idt_entry \<Rightarrow> bool" where
  "gate_leads stub g \<longleftrightarrow> gate_target g = stub \<and> bit (attributes g) 7"

definition run_interrupt ::
    "image \<Rightarrow> (nat \<Rightarrow> u64) \<Rightarrow> (reg \<Rightarrow> u64) \<Rightarrow> u64 list \<Rightarrow> u8 \<Rightarrow> u64 \<Rightarrow> cpu \<Rightarrow> 'a device_state_scheme
       \<Rightarrow> (cpu option \<times> 'a device_state_scheme) res" where
  "run_interrupt im vectors clob scratch v err c s =
     (if \<not> gate_leads (vectors (unat v)) (idt (tabs s) v) then Inl Fault
      else bindR (call_handler im clob scratch s (enter_handler v (deliver (tabs s) v err (c, mem s)))) (\<lambda>(k, s').
        Inr (case k of None \<Rightarrow> (None, s')
             | Some c' \<Rightarrow> let cm = trap_return (c', mem s') in (Some (fst cm), s'\<lparr>mem := snd cm\<rparr>))))"

text \<open>
  The instruction \<^verbatim>\<open>int v\<close>, two bytes long: a gate whose privilege level is below that of the program
  raises a general protection exception that names the gate.
\<close>

definition gate_dpl :: "idt_entry \<Rightarrow> u8" where
  "gate_dpl g = drop_bit 5 (attributes g) AND 3"

definition software_int ::
    "image \<Rightarrow> (nat \<Rightarrow> u64) \<Rightarrow> (reg \<Rightarrow> u64) \<Rightarrow> u64 list \<Rightarrow> u8 \<Rightarrow> cpu \<Rightarrow> 'a device_state_scheme
       \<Rightarrow> (cpu option \<times> 'a device_state_scheme) res" where
  "software_int im vectors clob scratch v c s =
     (if ucast (gate_dpl (idt (tabs s) v)) < cpu_cs c AND 3
      then run_interrupt im vectors clob scratch 13 (ucast v * 8 + 2) c s
      else run_interrupt im vectors clob scratch v 0 (c\<lparr>cpu_rip := cpu_rip c + 2\<rparr>) s)"

section \<open>Running the instructions\<close>

lemma set_reg_simps [simp]:
  "gpr (set_reg r v c) = (gpr c)(r := v)" "cpu_rip (set_reg r v c) = cpu_rip c" "cpu_cs (set_reg r v c) = cpu_cs c"
  "cpu_ss (set_reg r v c) = cpu_ss c" "cpu_rflags (set_reg r v c) = cpu_rflags c"
  "set_reg r v (set_reg r w c) = set_reg r v c"
  by (simp_all add: set_reg_def)

lemma set_reg_same: "v = gpr c r \<Longrightarrow> set_reg r v c = c"
  by (simp add: set_reg_def)

lemma fold_push:
  "fold push_word ws (c, m) = (set_reg RSP (gpr c RSP - 8 * of_nat (length ws)) c, push_mem m (gpr c RSP) ws)"
proof (induction ws arbitrary: c m)
  case Nil
  then show ?case by (simp add: set_reg_same)
next
  case (Cons w ws)
  then show ?case by (simp add: push_word_def Let_def algebra_simps)
qed

section \<open>The frame\<close>

text \<open>
  The 22 words of \<^verbatim>\<open>struct trap_frame\<close> that stand for the interrupted program, in the order of the
  structure, with the vector and the error code between the general registers and the rest.
\<close>

definition frame_of :: "cpu \<Rightarrow> u64 \<Rightarrow> u64 \<Rightarrow> u64 list" where
  "frame_of c v e = map (gpr c) (rev pushed_regs) @ [v, e, cpu_rip c, cpu_cs c, cpu_rflags c, gpr c RSP, cpu_ss c]"

lemma exec_append: "exec (is @ js) cm = exec js (exec is cm)"
  by (induction "is" arbitrary: cm) simp_all

lemma exec_push:
  assumes "RSP \<notin> set rs"
  shows "exec (map PUSH rs) (c, m) = fold push_word (map (gpr c) rs) (c, m)"
  using assms
proof (induction rs arbitrary: c m)
  case (Cons r rs)
  then have "map (gpr (set_reg RSP v c)) rs = map (gpr c) rs" for v by auto
  then show ?case using Cons by (simp add: push_word_def Let_def)
qed simp

text \<open>The code after the call undoes whatever left the frame, whoever built it.\<close>

lemma trap_return_frame:
  assumes "load_words m (gpr k RSP) 22 = frame_of c v e"
  shows "trap_return (k, m) = (c, m)"
proof -
  have n: "22 = Suc (Suc (Suc (Suc (Suc (Suc (Suc (Suc (Suc (Suc (Suc (Suc (Suc (Suc (Suc (Suc (Suc (Suc (Suc (Suc (Suc (Suc 0)))))))))))))))))))))"
    by simp
  have l: "load64 m (gpr k RSP) = gpr c R15" "load64 m (gpr k RSP + 8) = gpr c R14"
    "load64 m (gpr k RSP + 16) = gpr c R13" "load64 m (gpr k RSP + 24) = gpr c R12"
    "load64 m (gpr k RSP + 32) = gpr c R11" "load64 m (gpr k RSP + 40) = gpr c R10"
    "load64 m (gpr k RSP + 48) = gpr c R9" "load64 m (gpr k RSP + 56) = gpr c R8"
    "load64 m (gpr k RSP + 64) = gpr c RBP" "load64 m (gpr k RSP + 72) = gpr c RDI"
    "load64 m (gpr k RSP + 80) = gpr c RSI" "load64 m (gpr k RSP + 88) = gpr c RDX"
    "load64 m (gpr k RSP + 96) = gpr c RCX" "load64 m (gpr k RSP + 104) = gpr c RBX"
    "load64 m (gpr k RSP + 112) = gpr c RAX" "load64 m (gpr k RSP + 136) = cpu_rip c"
    "load64 m (gpr k RSP + 144) = cpu_cs c" "load64 m (gpr k RSP + 152) = cpu_rflags c"
    "load64 m (gpr k RSP + 160) = gpr c RSP" "load64 m (gpr k RSP + 168) = cpu_ss c"
    using assms unfolding n load_words_Suc frame_of_def pushed_regs_def by (simp_all add: add.assoc)
  have g: "gpr (fst (trap_return (k, m))) r = gpr c r" for r
    by (cases r) (simp_all add: trap_return_def trap_ret_asm_def pushed_regs_def iretq_def Let_def l add.assoc)
  have "snd (trap_return (k, m)) = m" "cpu_rip (fst (trap_return (k, m))) = cpu_rip c"
    "cpu_cs (fst (trap_return (k, m))) = cpu_cs c" "cpu_rflags (fst (trap_return (k, m))) = cpu_rflags c"
    "cpu_ss (fst (trap_return (k, m))) = cpu_ss c"
    by (simp_all add: trap_return_def trap_ret_asm_def pushed_regs_def iretq_def Let_def l add.assoc)
  then show ?thesis using ext [of "gpr (fst (trap_return (k, m)))" "gpr c", OF g] by (simp add: prod_eq_iff)
qed

section \<open>Entry\<close>

text \<open>
  What lies on the stack when the dispatcher is called: the five words and the error code of the
  processor, the words of the stub and the registers, in the order they were pushed.
\<close>

definition entry_words :: "u8 \<Rightarrow> u64 \<Rightarrow> cpu \<Rightarrow> u64 list" where
  "entry_words v err c = [cpu_ss c, gpr c RSP, cpu_rflags c, cpu_cs c, cpu_rip c] @ (if cpu_error_code v then [err] else [])
     @ (if with_error v then [] else [0]) @ [ucast v] @ map (gpr c) pushed_regs"

lemma exec_stub:
  "exec (interrupt_stub v) cm = fold push_word ((if with_error v then [] else [0]) @ [ucast v]) cm"
  by (cases cm) (simp add: interrupt_stub_def push_word_def Let_def)

lemma enter_eq:
  fixes t :: tables and c :: cpu and m :: memory and v :: u8 and err :: u64
  defines "k \<equiv> enter_handler v (deliver t v err (c, m))" and "sp \<equiv> entry_sp t c" and "ws \<equiv> entry_words v err c"
  shows "snd k = push_mem m sp ws" "gpr (fst k) RSP = sp - 8 * of_nat (length ws)" "gpr (fst k) RDI = gpr (fst k) RSP"
proof -
  have r: "map ((gpr c)(RSP := x)) pushed_regs = map (gpr c) pushed_regs" for x by (simp add: pushed_regs_def)
  have n: "RSP \<notin> set pushed_regs" by (simp add: pushed_regs_def)
  have "snd k = push_mem m sp ws \<and> gpr (fst k) RSP = sp - 8 * of_nat (length ws) \<and> gpr (fst k) RDI = gpr (fst k) RSP"
    unfolding k_def sp_def ws_def enter_handler_def deliver_def general_handler_asm_def exec_append Let_def exec_stub fst_conv snd_conv fold_push
    by (simp add: exec_push [OF n] fold_push entry_words_def push_mem_append r)
  then show "snd k = push_mem m sp ws" "gpr (fst k) RSP = sp - 8 * of_nat (length ws)" "gpr (fst k) RDI = gpr (fst k) RSP"
    by simp_all
qed

text \<open>Where the stubs and the processor agree on the error code, these words are a trap frame.\<close>

lemma entry_frame:
  assumes "with_error v = cpu_error_code v"
  shows "entry_words v err c = rev (frame_of c (ucast v) (if cpu_error_code v then err else 0))"
  using assms by (simp add: entry_words_def frame_of_def rev_map)

lemma frame_length [simp]: "length (frame_of c v e) = 22"
  by (simp add: frame_of_def pushed_regs_def)

text \<open>The frame survives the call of the dispatcher, whose words all stand below it.\<close>

lemma frame_below:
  assumes "length xs \<le> 2026"
  shows "load_words (push_mem m sp (rev (frame_of c v e) @ xs)) (sp - 176) 22 = frame_of c v e"
proof (rule nth_equalityI)
  let ?ws = "rev (frame_of c v e) @ xs"
  fix i assume "i < length (load_words (push_mem m sp ?ws) (sp - 176) 22)"
  then have i: "i < 22" by (simp add: load_words_def)
  then have e: "sp - 176 + 8 * of_nat i = sp - 8 * of_nat (Suc (21 - i))" by (simp add: of_nat_diff algebra_simps)
  have "load64 (push_mem m sp ?ws) (sp - 8 * of_nat (Suc (21 - i))) = ?ws ! (21 - i)"
    using assms by (intro push_mem_nth) simp_all
  then show "load_words (push_mem m sp ?ws) (sp - 176) 22 ! i = frame_of c v e ! i"
    unfolding load_words_nth [OF i] e using i less_imp_diff_less [of 21 22 i] by (simp add: nth_append rev_nth del: of_nat_Suc)
qed (simp add: load_words_def)

lemma call_words_length: "length (call_words r scratch) \<le> 2026" "length (call_words r scratch) \<le> Suc (length scratch)"
  by (simp_all add: call_words_def)

definition below_frame :: "u64 list \<Rightarrow> u8 \<Rightarrow> u64 \<Rightarrow> cpu \<Rightarrow> 'a device_state_scheme \<Rightarrow> memory" where
  "below_frame scratch v err c s
     = push_mem (mem s) (entry_sp (tabs s) c) (entry_words v err c @ call_words (trap_ret s) scratch)"

lemma call_entry:
  assumes "with_error v = cpu_error_code v" "gate_leads (vectors (unat v)) (idt (tabs s) v)"
  shows "run_interrupt im vectors clob scratch v err c s =
    bindR (interrupt_handler im (entry_sp (tabs s) c - 176) (s\<lparr>mem := below_frame scratch v err c s\<rparr>)) (\<lambda>(_, s').
      Inr (if regs s' = regs s
           then let cm = trap_return ((fst (enter_handler v (deliver (tabs s) v err (c, mem s))))\<lparr>gpr := clob(RSP := entry_sp (tabs s) c - 176)\<rparr>, mem s')
                in (Some (fst cm), s'\<lparr>mem := snd cm\<rparr>)
           else (None, s')))"
proof -
  note e = enter_eq [where t = "tabs s" and c = c and m = "mem s" and v = v and err = err]
  have l: "8 * of_nat (length (entry_words v err c)) = (176 :: u64)" using entry_frame [OF assms(1)] by simp
  have b: "snd (fold push_word (call_words (trap_ret s) scratch) (enter_handler v (deliver (tabs s) v err (c, mem s))))
      = below_frame scratch v err c s"
    using e unfolding below_frame_def push_mem_append l
    by (cases "enter_handler v (deliver (tabs s) v err (c, mem s))") (simp add: fold_push)
  show ?thesis
    using e(2,3) assms(2) unfolding run_interrupt_def call_handler_def l b
    by (cases "interrupt_handler im (entry_sp (tabs s) c - 176) (s\<lparr>mem := below_frame scratch v err c s\<rparr>)")
      (auto simp: Let_def)
qed

text \<open>
  A dispatcher that comes back to the same process and leaves the frame as it was resumes the
  interrupted program with every register unchanged.
\<close>

lemma run_interrupt_back:
  assumes "with_error v = cpu_error_code v" "gate_leads (vectors (unat v)) (idt (tabs s) v)"
    and "interrupt_handler im (entry_sp (tabs s) c - 176) (s\<lparr>mem := below_frame scratch v err c s\<rparr>) = Inr (r, s')"
    and "regs s' = regs s" "mem s' = below_frame scratch v err c s"
  shows "run_interrupt im vectors clob scratch v err c s = Inr (Some c, s')"
proof -
  have "load_words (mem s') (entry_sp (tabs s) c - 176) 22 = frame_of c (ucast v) (if cpu_error_code v then err else 0)"
    using frame_below [OF call_words_length(1)] unfolding assms(5) below_frame_def entry_frame [OF assms(1)] .
  then have "trap_return (k\<lparr>gpr := clob(RSP := entry_sp (tabs s) c - 176)\<rparr>, mem s') = (c, mem s')" for k
    by (intro trap_return_frame) simp
  then show ?thesis using assms by (simp add: call_entry [where vectors = vectors, OF assms(1,2)])
qed

lemma below_frame_vector:
  assumes "with_error v = cpu_error_code v"
  shows "load64 (below_frame scratch v err c s) (entry_sp (tabs s) c - 176 + tf_vector_number) = ucast v"
proof -
  have "load64 (below_frame scratch v err c s) (entry_sp (tabs s) c - 176 + tf_vector_number)
      = load_words (below_frame scratch v err c s) (entry_sp (tabs s) c - 176) 22 ! 15"
    by (simp add: load_words_nth tf_vector_number_def)
  also have "\<dots> = ucast v"
    unfolding below_frame_def entry_frame [OF assms] frame_below [OF call_words_length(1)]
    by (simp add: frame_of_def pushed_regs_def)
  finally show ?thesis .
qed

lemma below_frame_byte:
  assumes "with_error v = cpu_error_code v" "8 * (23 + length scratch) \<le> unat (entry_sp (tabs s) c - 1 - a)"
  shows "below_frame scratch v err c s a = mem s a"
  unfolding below_frame_def entry_frame [OF assms(1)]
proof (rule push_mem_byte)
  let ?n = "length (rev (frame_of c (ucast v) (if cpu_error_code v then err else 0)) @ call_words (trap_ret s) scratch)"
  note b = call_words_length [of "trap_ret s" scratch]
  then have "8 * ?n \<le> unat (entry_sp (tabs s) c - 1 - a)" using assms(2) by simp
  moreover have "unat (8 * of_nat ?n :: u64) = 8 * ?n"
    using b(1) unat_of_nat [of "8 * ?n", where 'a = 64] by simp
  ultimately show "8 * of_nat ?n \<le> entry_sp (tabs s) c - 1 - a" by (simp only: word_le_nat_alt)
  show "?n \<le> 2 ^ 60" using b(1) by simp
qed

text \<open>The gates the kernel installs all lead to their stubs and are for privilege level 0 only.\<close>

lemma installed_gate:
  assumes "idt (tabs s) = idt (idt_init a vectors t)"
  shows "gate_leads (vectors (unat v)) (idt (tabs s) v)" "gate_dpl (idt (tabs s) v) = 0"
proof -
  have "gate_for (vectors (unat v)) (idt (tabs s) v)" unfolding assms using idt_init_installs_handlers by blast
  then show "gate_leads (vectors (unat v)) (idt (tabs s) v)" "gate_dpl (idt (tabs s) v) = 0"
    by (simp_all add: gate_leads_def gate_dpl_def gate_for_def bit_iff_odd_drop_bit)
qed

lemma idt_init_tss: "tss_seg (idt_init a vectors t) = tss_seg t"
proof -
  have "tss_seg (idt_init_loop vectors i t) = tss_seg t" for i
    by (induction vectors i t rule: idt_init_loop.induct) (subst idt_init_loop.simps, simp add: idt_set_entry_def)
  then show ?thesis by (simp add: idt_init_def sti_def lidt_def)
qed

lemma quiet_interrupt:
  assumes "v \<in> {0x80, 0xff}" "gate_leads (vectors (unat v)) (idt (tabs s) v)"
  shows "\<exists>m. run_interrupt im vectors clob scratch v err c s = Inr (Some c, s\<lparr>mem := m, msrs := (msrs s)(EOI_REGISTER := 0)\<rparr>)
    \<and> (\<forall>x. 8 * (23 + length scratch) \<le> unat (entry_sp (tabs s) c - 1 - x) \<longrightarrow> m x = mem s x)"
proof (intro exI conjI allI impI)
  have e: "with_error v = cpu_error_code v" using assms by (auto simp: with_error_def cpu_error_code_def)
  have "load64 (below_frame scratch v err c s) (entry_sp (tabs s) c - 176 + tf_vector_number) \<in> {0x80, 0xff}"
    using assms(1) unfolding below_frame_vector [OF e] by auto
  then have "interrupt_handler im (entry_sp (tabs s) c - 176) (s\<lparr>mem := below_frame scratch v err c s\<rparr>)
      = Inr (entry_sp (tabs s) c - 176, s\<lparr>mem := below_frame scratch v err c s, msrs := (msrs s)(EOI_REGISTER := 0)\<rparr>)"
    by (auto simp: interrupt_handler_def Let_def gdt_defs syscall_def local_apic_eoi_def wrmsr_eq)
  then show "run_interrupt im vectors clob scratch v err c s
      = Inr (Some c, s\<lparr>mem := below_frame scratch v err c s, msrs := (msrs s)(EOI_REGISTER := 0)\<rparr>)"
    by (intro run_interrupt_back [where r = "entry_sp (tabs s) c - 176" and vectors = vectors] e assms(2)) simp_all
  show "below_frame scratch v err c s x = mem s x" if "8 * (23 + length scratch) \<le> unat (entry_sp (tabs s) c - 1 - x)" for x
    using e that by (rule below_frame_byte)
qed

section \<open>Properties\<close>

text \<open>
  C21. With the gates the kernel installs, a spurious interrupt leaves no trace in the interrupted
  program, in user or in kernel mode: whatever the dispatcher leaves in the registers, the return
  restores all general registers, the instruction pointer, the flags, the stack pointer and both
  segment selectors as they were. The same holds of the system-call vector raised by an \<^verbatim>\<open>int\<close> instruction
  of privilege level 0, the only one the gate admits, which goes on behind that instruction. The
  memory that changes lies in the trap frame and the return address, 184 bytes below the aligned entry
  stack pointer, and in the words under them that the dispatcher and its callees leave; the only
  device access is the end-of-interrupt write.
\<close>

theorem interrupt_transparent:
  assumes "idt (tabs s) = idt (idt_init a vectors t)"
  shows "(\<exists>m. run_interrupt im vectors clob scratch 0xff err c s
        = Inr (Some c, s\<lparr>mem := m, msrs := (msrs s)(EOI_REGISTER := 0)\<rparr>)
      \<and> (\<forall>x. 8 * (23 + length scratch) \<le> unat (entry_sp (tabs s) c - 1 - x) \<longrightarrow> m x = mem s x))
    \<and> (cpu_cs c AND 3 = 0 \<longrightarrow> (\<exists>m. software_int im vectors clob scratch 0x80 c s
        = Inr (Some (c\<lparr>cpu_rip := cpu_rip c + 2\<rparr>), s\<lparr>mem := m, msrs := (msrs s)(EOI_REGISTER := 0)\<rparr>)
      \<and> (\<forall>x. 8 * (23 + length scratch) \<le> unat (entry_sp (tabs s) c - 1 - x) \<longrightarrow> m x = mem s x)))"
proof -
  note g = installed_gate [OF assms]
  have sp: "entry_sp (tabs s) (c\<lparr>cpu_rip := r\<rparr>) = entry_sp (tabs s) c" for r by (simp add: entry_sp_def user_mode_def)
  have "software_int im vectors clob scratch 0x80 c s = run_interrupt im vectors clob scratch 0x80 0 (c\<lparr>cpu_rip := cpu_rip c + 2\<rparr>) s"
    if "cpu_cs c AND 3 = 0" using that g(2) by (simp add: software_int_def)
  then show ?thesis
    using quiet_interrupt [where vectors = vectors, OF _ g(1), of "0xff"]
      quiet_interrupt [where vectors = vectors and c = "c\<lparr>cpu_rip := cpu_rip c + 2\<rparr>", OF _ g(1), of "0x80", unfolded sp]
    by simp
qed

text \<open>A user program in the middle of its run.\<close>

definition cpu0 :: cpu where
  "cpu0 = \<lparr>gpr = (\<lambda>r. if r = RSP then 0x7ff8 else 0x11), cpu_rip = 0x400123, cpu_cs = 0x1b, cpu_ss = 0x23, cpu_rflags = 0x202\<rparr>"

definition device1 :: device_state where
  "device1 = device0\<lparr>tabs := gdt_set_tss_rsp 0x23fff (tabs device0)\<rparr>"

text \<open>
  The spurious interrupt reaches the user program, the instruction \<^verbatim>\<open>int 0x80\<close> is part of the kernel; the
  dispatcher leaves two words under its return address.
\<close>

definition cpu_kernel :: cpu where
  "cpu_kernel = cpu0\<lparr>gpr := (gpr cpu0)(RSP := 0x24008), cpu_cs := 8, cpu_ss := 0x10\<rparr>"

theorem interrupt_transparent_witness:
  "\<forall>im vectors clob. (\<exists>m. run_interrupt im vectors clob [1, 2] 0xff 0 cpu0 (device1\<lparr>tabs := idt_init 0 vectors (tabs device1)\<rparr>)
       = Inr (Some cpu0, device1\<lparr>tabs := idt_init 0 vectors (tabs device1), mem := m, msrs := (msrs device1)(EOI_REGISTER := 0)\<rparr>)
     \<and> m 0x50000 = mem device1 0x50000)
   \<and> (\<exists>m. software_int im vectors clob [1, 2] 0x80 cpu_kernel (device1\<lparr>tabs := idt_init 0 vectors (tabs device1)\<rparr>)
       = Inr (Some (cpu_kernel\<lparr>cpu_rip := 0x400125\<rparr>),
           device1\<lparr>tabs := idt_init 0 vectors (tabs device1), mem := m, msrs := (msrs device1)(EOI_REGISTER := 0)\<rparr>)
     \<and> m 0x23f00 = mem device1 0x23f00)"
proof (intro allI conjI)
  fix im :: image and vectors clob
  let ?s = "device1\<lparr>tabs := idt_init 0 vectors (tabs device1)\<rparr>"
  have "rsp0 (tss_seg (tabs ?s)) = 0x23fff" by (simp add: device1_def gdt_set_tss_rsp_def idt_init_tss)
  then have "200 \<le> unat (entry_sp (tabs ?s) cpu0 - 1 - 0x50000)" "200 \<le> unat (entry_sp (tabs ?s) cpu_kernel - 1 - 0x23f00)"
    by (simp_all add: entry_sp_def user_mode_def cpu0_def cpu_kernel_def)
  then show "\<exists>m. run_interrupt im vectors clob [1, 2] 0xff 0 cpu0 ?s
       = Inr (Some cpu0, device1\<lparr>tabs := idt_init 0 vectors (tabs device1), mem := m, msrs := (msrs device1)(EOI_REGISTER := 0)\<rparr>)
     \<and> m 0x50000 = mem device1 0x50000"
    "\<exists>m. software_int im vectors clob [1, 2] 0x80 cpu_kernel ?s
       = Inr (Some (cpu_kernel\<lparr>cpu_rip := 0x400125\<rparr>),
           device1\<lparr>tabs := idt_init 0 vectors (tabs device1), mem := m, msrs := (msrs device1)(EOI_REGISTER := 0)\<rparr>)
     \<and> m 0x23f00 = mem device1 0x23f00"
    using interrupt_transparent [of ?s 0 vectors "tabs device1" im clob "[1, 2]" 0 cpu0]
      interrupt_transparent [of ?s 0 vectors "tabs device1" im clob "[1, 2]" 0 cpu_kernel]
    by (auto simp: cpu_kernel_def cpu0_def)
qed

text \<open>
  C22. With the interrupt table the kernel installs, no software interrupt works from user mode: all
  gates have privilege level 0, so \<^verbatim>\<open>int v\<close> with any \<open>v\<close>, the system-call vector included, raises a general
  protection exception, for which the dispatcher panics.
\<close>

theorem user_int_panics:
  assumes "idt (tabs s) = idt (idt_init a vectors t)" "cpu_cs c AND 3 = 3"
  shows "software_int im vectors clob scratch v c s = Inl (Panic ''unexepected interrupt: vector %u | error %u'')"
proof -
  note g = installed_gate [OF assms(1)]
  have e: "with_error 13 = cpu_error_code 13" by (simp add: with_error_def cpu_error_code_def)
  have "software_int im vectors clob scratch v c s = run_interrupt im vectors clob scratch 13 (ucast v * 8 + 2) c s"
    using assms(2) g(2) by (simp add: software_int_def)
  also have "\<dots> = Inl (Panic ''unexepected interrupt: vector %u | error %u'')"
    unfolding call_entry [where vectors = vectors, OF e g(1)] by (subst interrupt_handler_unknown) (simp_all add: below_frame_vector [OF e])
  finally show ?thesis .
qed

theorem user_int_panics_witness:
  "\<forall>im clob scratch vectors. software_int im vectors clob scratch 0x80 cpu0 (device0\<lparr>tabs := idt_init 0 vectors (tabs device0)\<rparr>)
     = Inl (Panic ''unexepected interrupt: vector %u | error %u'')"
  by (intro allI user_int_panics [where a = 0 and t = "tabs device0"]) (simp_all add: cpu0_def)

text \<open>
  C20. A new process starts in user mode: after the architecture part of the process is set up, the
  first switch to it runs \<^verbatim>\<open>process_first_run\<close>, which returns into \<^verbatim>\<open>trap_ret\<close>; the code there leaves the kernel
  with the entry point as instruction pointer, the user stack, the user code and data selectors,
  interrupts enabled and all other registers zero.
\<close>

definition user_start :: "u64 \<Rightarrow> u64 \<Rightarrow> cpu" where
  "user_start uentry ustack =
     \<lparr>gpr = (\<lambda>r. if r = RSP then ustack else 0), cpu_rip = uentry, cpu_cs = 0x1b, cpu_ss = 0x23, cpu_rflags = 0x202\<rparr>"

theorem new_process_enters_user_mode:
  assumes "process_arch_init proc uentry ustack s = Inr s1" "process_switch cur proc s1 = Inr s2" "cur \<noteq> proc"
    and "procs s proc = Some p"
    and "\<forall>i < 30. \<not> pushes_to (reg_rsp (regs s)) (pr_kstack p + 16144 + 8 * of_nat i)"
    and "gpr k RSP = reg_rsp (regs (process_first_run s2))"
  shows "reg_rip (regs s2) = first_run s \<and> reg_rip (regs (process_first_run s2)) = trap_ret s
    \<and> trap_return (k, mem (process_first_run s2)) = (user_start uentry ustack, mem (process_first_run s2))"
proof -
  have "user_frame uentry ustack = frame_of (user_start uentry ustack) 0 0"
    by (simp add: user_frame_def frame_of_def pushed_regs_def user_start_def numeral_eq_Suc)
  then show ?thesis using first_switch_user_frame [OF assms(1-5)] assms(6) by (auto intro: trap_return_frame)
qed

theorem new_process_enters_user_mode_witness:
  "\<exists>s1 s2. process_arch_init 0x8000 0x400000 0xffff task0 = Inr s1 \<and> process_switch 0x1000 0x8000 s1 = Inr s2
     \<and> fst (trap_return (set_reg RSP (reg_rsp (regs (process_first_run s2))) cpu0, mem (process_first_run s2)))
         = user_start 0x400000 0xffff"
proof -
  have p: "procs task0 0x8000 = Some proc1" by simp
  then obtain s1 where s1: "process_arch_init 0x8000 0x400000 0xffff task0 = Inr s1" using process_arch_init_total by blast
  obtain q where "s1 = task0\<lparr>mem := arch_mem (pr_kstack q + 16144) (first_run task0) (trap_ret task0) 0x400000 0xffff (mem task0),
       procs := (procs task0)(0x8000 \<mapsto> q\<lparr>pr_tf := pr_kstack q + 16208, pr_context := pr_kstack q + 16144\<rparr>)\<rparr>" "q = proc1"
    by (rule process_arch_init_Inr [OF s1]) simp
  then have v: "procs s1 0x1000 = Some proc0"
    "procs s1 0x8000 = Some (proc1\<lparr>pr_tf := pr_kstack proc1 + 16208, pr_context := pr_kstack proc1 + 16144\<rparr>)"
    "vspaces s1 (pr_space (proc1\<lparr>pr_tf := pr_kstack proc1 + 16208, pr_context := pr_kstack proc1 + 16144\<rparr>))
       = Some \<lparr>page_directory = root0, sp_region = reg0\<rparr>" by simp_all
  obtain s2 where s2: "process_switch 0x1000 0x8000 s1 = Inr s2" using process_switch_total [OF v] by blast
  have "\<not> pushes_to 0x90000 (0x23f10 + 8 * of_nat i)" if "i < 30" for i
    unfolding pushes_to_simp disj64_def using that
    by (simp add: numeral_eq_Suc less_Suc_eq, elim disjE) simp_all
  then show ?thesis
    using new_process_enters_user_mode [OF s1 s2 _ p, of "set_reg RSP (reg_rsp (regs (process_first_run s2))) cpu0"] s1 s2
    by (simp add: proc1_def)
qed

text \<open>
  A process that was preempted goes on as if nothing had happened, whenever the kernel comes back to
  \<^verbatim>\<open>trap_ret\<close> on its stack with the words of the frame as they were pushed.
\<close>

lemma preempted_resumes:
  assumes "with_error v = cpu_error_code v" "gpr k RSP = entry_sp t c - 176"
    and "load_words m' (entry_sp t c - 176) 22 = load_words (snd (enter_handler v (deliver t v err (c, m)))) (entry_sp t c - 176) 22"
  shows "trap_return (k, m') = (c, m')"
proof -
  have "load_words (snd (enter_handler v (deliver t v err (c, m)))) (entry_sp t c - 176) 22
      = frame_of c (ucast v) (if cpu_error_code v then err else 0)"
    using push_mem_words [of "entry_words v err c" m "entry_sp t c"] unfolding enter_eq(1) entry_frame [OF assms(1)] by simp
  with assms show ?thesis by (intro trap_return_frame) simp
qed

text \<open>
  For the control protection and the VMM communication exceptions (21 and 29) the processor pushes an
  error code, but their stubs are those of vectors without one: the dispatcher finds the
  error code in the field of the instruction pointer and 0 in the field of the error code.
\<close>

lemma error_code_misplaced:
  fixes t :: tables and c :: cpu and m :: memory and err :: u64
  assumes "v \<in> {21, 29}"
  defines "k \<equiv> enter_handler v (deliver t v err (c, m))"
  shows "load64 (snd k) (gpr (fst k) RDI + tf_rip) = err" "load64 (snd k) (gpr (fst k) RDI + tf_error_code) = 0"
proof -
  let ?w = "entry_words v err c"
  have w: "rev ?w = map (gpr c) (rev pushed_regs) @ [ucast v, 0, err, cpu_rip c, cpu_cs c, cpu_rflags c, gpr c RSP, cpu_ss c]"
    using assms(1) by (auto simp: entry_words_def with_error_def cpu_error_code_def rev_map)
  have l: "length ?w = 23" using arg_cong [OF w, of length] by (simp add: pushed_regs_def)
  have "load_words (snd k) (gpr (fst k) RDI) 23 = rev ?w"
    using push_mem_words [of ?w m "entry_sp t c"] l unfolding k_def enter_eq by simp
  then have "load64 (snd k) (gpr (fst k) RDI + 8 * of_nat i) = rev ?w ! i" if "i < 23" for i
    using load_words_nth [OF that, of "snd k" "gpr (fst k) RDI"] by simp
  from this [of 17] this [of 16]
  show "load64 (snd k) (gpr (fst k) RDI + tf_rip) = err" "load64 (snd k) (gpr (fst k) RDI + tf_error_code) = 0"
    unfolding w by (simp_all add: pushed_regs_def tf_rip_def tf_error_code_def)
qed

end
