(* ===== verification/Boot.thy ===== *)
theory Boot
  imports Devices
begin

text \<open>
  The boot sequence of \<^verbatim>\<open>kernel/kmain.c\<close>: the walk over the tags the boot loader passes, the order of
  the initialisation calls, and the idle loop. Tags are read from byte memory at the offsets of
  \<^verbatim>\<open>multiboot2.h\<close>.
\<close>

named_theorems tag_defs \<open>the tag types of the boot protocol\<close>

section \<open>Tags\<close>

definition MULTIBOOT_TAG_TYPE_END :: u32 where [tag_defs]: "MULTIBOOT_TAG_TYPE_END = 0"
definition MULTIBOOT_TAG_TYPE_CMDLINE :: u32 where [tag_defs]: "MULTIBOOT_TAG_TYPE_CMDLINE = 1"
definition MULTIBOOT_TAG_TYPE_BOOT_LOADER_NAME :: u32 where [tag_defs]: "MULTIBOOT_TAG_TYPE_BOOT_LOADER_NAME = 2"
definition MULTIBOOT_TAG_TYPE_MODULE :: u32 where [tag_defs]: "MULTIBOOT_TAG_TYPE_MODULE = 3"
definition MULTIBOOT_TAG_TYPE_BASIC_MEMINFO :: u32 where [tag_defs]: "MULTIBOOT_TAG_TYPE_BASIC_MEMINFO = 4"
definition MULTIBOOT_TAG_TYPE_BOOTDEV :: u32 where [tag_defs]: "MULTIBOOT_TAG_TYPE_BOOTDEV = 5"
definition MULTIBOOT_TAG_TYPE_MMAP :: u32 where [tag_defs]: "MULTIBOOT_TAG_TYPE_MMAP = 6"
definition MULTIBOOT_TAG_TYPE_VBE :: u32 where [tag_defs]: "MULTIBOOT_TAG_TYPE_VBE = 7"
definition MULTIBOOT_TAG_TYPE_FRAMEBUFFER :: u32 where [tag_defs]: "MULTIBOOT_TAG_TYPE_FRAMEBUFFER = 8"
definition MULTIBOOT_TAG_TYPE_ELF_SECTIONS :: u32 where [tag_defs]: "MULTIBOOT_TAG_TYPE_ELF_SECTIONS = 9"
definition MULTIBOOT_TAG_TYPE_APM :: u32 where [tag_defs]: "MULTIBOOT_TAG_TYPE_APM = 10"
definition MULTIBOOT_TAG_TYPE_EFI32 :: u32 where [tag_defs]: "MULTIBOOT_TAG_TYPE_EFI32 = 11"
definition MULTIBOOT_TAG_TYPE_EFI64 :: u32 where [tag_defs]: "MULTIBOOT_TAG_TYPE_EFI64 = 12"
definition MULTIBOOT_TAG_TYPE_SMBIOS :: u32 where [tag_defs]: "MULTIBOOT_TAG_TYPE_SMBIOS = 13"
definition MULTIBOOT_TAG_TYPE_ACPI_OLD :: u32 where [tag_defs]: "MULTIBOOT_TAG_TYPE_ACPI_OLD = 14"
definition MULTIBOOT_TAG_TYPE_ACPI_NEW :: u32 where [tag_defs]: "MULTIBOOT_TAG_TYPE_ACPI_NEW = 15"
definition MULTIBOOT_TAG_TYPE_NETWORK :: u32 where [tag_defs]: "MULTIBOOT_TAG_TYPE_NETWORK = 16"
definition MULTIBOOT_TAG_TYPE_EFI_MMAP :: u32 where [tag_defs]: "MULTIBOOT_TAG_TYPE_EFI_MMAP = 17"
definition MULTIBOOT_TAG_TYPE_EFI_BS :: u32 where [tag_defs]: "MULTIBOOT_TAG_TYPE_EFI_BS = 18"
definition MULTIBOOT_TAG_TYPE_EFI32_IH :: u32 where [tag_defs]: "MULTIBOOT_TAG_TYPE_EFI32_IH = 19"
definition MULTIBOOT_TAG_TYPE_EFI64_IH :: u32 where [tag_defs]: "MULTIBOOT_TAG_TYPE_EFI64_IH = 20"
definition MULTIBOOT_TAG_TYPE_LOAD_BASE_ADDR :: u32 where [tag_defs]: "MULTIBOOT_TAG_TYPE_LOAD_BASE_ADDR = 21"

definition MULTIBOOT2_BOOTLOADER_MAGIC :: u32 where "MULTIBOOT2_BOOTLOADER_MAGIC = 0x36d76289"

definition tag_type :: "memory \<Rightarrow> u64 \<Rightarrow> u32" where "tag_type m tag = load32 m tag"
definition tag_size :: "memory \<Rightarrow> u64 \<Rightarrow> u32" where "tag_size m tag = load32 m (tag + 4)"

text \<open>The size is rounded up to a multiple of 8 in 32-bit arithmetic.\<close>

definition next_tag :: "memory \<Rightarrow> u64 \<Rightarrow> u64" where
  "next_tag m tag = tag + ucast ((tag_size m tag + 7) AND NOT 7)"

text \<open>
  The loop of \<^verbatim>\<open>read_tags\<close> with its local bitmap and the two pointers it assigns. \<^verbatim>\<open>1 << tag->type\<close> is
  undefined for types from 32 on; \<open>None\<close> is a tag of size 0 that the loop never leaves.
\<close>

partial_function (option) read_tags_loop ::
    "memory \<Rightarrow> u64 \<Rightarrow> u64 \<Rightarrow> u32 \<Rightarrow> u64 \<Rightarrow> u64 \<Rightarrow> (u32 \<times> u64 \<times> u64) res option" where
  "read_tags_loop m stop tag bitmap rs mm =
     (if tag < stop
      then if 32 \<le> unat (tag_type m tag) then Some (Inl Shift_UB)
           else let bitmap' = bitmap OR push_bit (unat (tag_type m tag)) 1;
                    rs' = (if tag_type m tag = MULTIBOOT_TAG_TYPE_ACPI_OLD then P2V (tag + 8) else rs);
                    mm' = (if tag_type m tag = MULTIBOOT_TAG_TYPE_MMAP then P2V tag else mm)
                in if tag_type m tag = MULTIBOOT_TAG_TYPE_END then Some (Inr (bitmap', rs', mm'))
                   else read_tags_loop m stop (next_tag m tag) bitmap' rs' mm'
      else Some (Inr (bitmap, rs, mm)))"

text \<open>
  The end of the area is computed on \<^verbatim>\<open>struct multiboot_tag\<close> pointers, so the size in bytes counts
  8-byte units.
\<close>

definition read_tags :: "memory \<Rightarrow> u64 \<Rightarrow> u64 \<Rightarrow> u64 \<Rightarrow> (u8 \<times> u64 \<times> u64) res" where
  "read_tags m mb_infos rs mm =
     (let size_in_bytes = ucast (load32 m mb_infos) :: u64;
          expected = push_bit (unat MULTIBOOT_TAG_TYPE_ACPI_OLD) 1 OR push_bit (unat MULTIBOOT_TAG_TYPE_MMAP) 1 :: u32
      in bindR (ret (read_tags_loop m (mb_infos + 8 * size_in_bytes) (mb_infos + 8) 0 rs mm)) (\<lambda>(bitmap, rs', mm').
         Inr (if bitmap AND expected \<noteq> expected then 1 else 0, rs', mm')))"

text \<open>The memory map tag at an address, with as many entries as the page allocator will look at.\<close>

definition mmap_entry_at :: "memory \<Rightarrow> u64 \<Rightarrow> multiboot_mmap_entry" where
  "mmap_entry_at m a = \<lparr>me_addr = load64 m a, me_len = load64 m (a + 8), me_type = load32 m (a + 16)\<rparr>"

definition mmap_at :: "memory \<Rightarrow> u64 \<Rightarrow> multiboot_tag_mmap" where
  "mmap_at m p =
     (let t = \<lparr>mm_size = load32 m (p + 4), mm_entry_size = load32 m (p + 8), mm_entries = []\<rparr>
      in case nb_entries t of Inl e \<Rightarrow> t
         | Inr n \<Rightarrow> t\<lparr>mm_entries := map (\<lambda>i. mmap_entry_at m (p + 16 + 24 * of_nat i)) [0..<unat n]\<rparr>)"

section \<open>The boot sequence\<close>

record boot_state = device_state +
  rsdp_ptr :: u64
  mmap_ptr :: u64

text \<open>
  \<open>kmain_boot\<close> is \<^verbatim>\<open>kmain\<close> up to the idle loop; \<open>raw\<close> is the content of the heap area that becomes the
  boot process.
\<close>

definition kmain_boot ::
    "image \<Rightarrow> hardware \<Rightarrow> process \<Rightarrow> u32 \<Rightarrow> u64 \<Rightarrow> 'a boot_state_scheme \<Rightarrow> 'a boot_state_scheme res" where
  "kmain_boot im hw raw magic mb_infos s0 =
     bindR (on_console (\<lambda>c. Inr (vga_reset c)) s0) (\<lambda>s1.
     if magic \<noteq> MULTIBOOT2_BOOTLOADER_MAGIC
     then Inl (Panic ''only support bootloaders following the multiboot2 specifications'')
     else if mb_infos AND 7 \<noteq> 0 then Inl (Panic ''unaligned mb_infos_ptr'')
     else bindR (read_tags (mem s1) mb_infos (rsdp_ptr s1) (mmap_ptr s1)) (\<lambda>(missing, rs, mm).
     if missing \<noteq> 0 then Inl (Panic ''missing tags from bootloader'')
     else bindR (interrupts_entry_init im hw (s1\<lparr>rsdp_ptr := rs, mmap_ptr := mm\<rparr>)) (\<lambda>s2.
     bindR (pmm_init s2 (mmap_at (mem s2) mm)) (\<lambda>(available_pages, s3).
     bindR (on_console (\<lambda>c. printk c (lit_available im) [BYTE2MB (available_pages * PAGE_SIZE_IN_BYTES)]) s3) (\<lambda>s4.
     bindR (vmm_init s4) (\<lambda>s5.
     bindR (kheap_init s5 1) (\<lambda>s6.
     bindR (acpi_init (lit_rsd_ptr im) (mem s6) (acpi s6) rs) (\<lambda>a.
     bindR (interrupts_init im hw (s6\<lparr>acpi := a\<rparr>)) (\<lambda>s7.
     bindR (process_init raw s7) (\<lambda>s8.
     Inr (sched_start s8)))))))))))"

text \<open>
  The idle loop; \<open>halt\<close> is what happens to the state until \<^verbatim>\<open>cpu_halt\<close> comes back, the interrupts that
  are taken meanwhile.
\<close>

partial_function (option) schleeeeep ::
    "('a boot_state_scheme \<Rightarrow> 'a boot_state_scheme res) \<Rightarrow> 'a boot_state_scheme \<Rightarrow> unit res option" where
  "schleeeeep halt s =
     (case bindR (sched_switch s) halt of Inl e \<Rightarrow> Some (Inl e) | Inr s' \<Rightarrow> schleeeeep halt s')"

definition kmain ::
    "image \<Rightarrow> hardware \<Rightarrow> ('a boot_state_scheme \<Rightarrow> 'a boot_state_scheme res) \<Rightarrow> process \<Rightarrow> u32 \<Rightarrow> u64
      \<Rightarrow> 'a boot_state_scheme \<Rightarrow> unit res" where
  "kmain im hw halt raw magic mb_infos s =
     bindR (kmain_boot im hw raw magic mb_infos s) (\<lambda>s1.
     bindR (ret (schleeeeep halt s1)) (\<lambda>_. Inl (Panic ''kmain: unreachable'')))"

text \<open>The first user process; its creation is commented out in \<^verbatim>\<open>kmain\<close>. \<open>lit_init\<close> is the address of its name.\<close>

definition create_init_process :: "u64 \<Rightarrow> process \<Rightarrow> 'a boot_state_scheme \<Rightarrow> (u64 \<times> 'a boot_state_scheme) res" where
  "create_init_process lit_init raw s =
     bindR (process_create raw lit_init 0x1000 0 s) (\<lambda>(init, s1).
       if init = 0 then Inl (Panic ''create_init_process: failed to create init process'')
       else bindR (deref (procs s1) init) (\<lambda>p.
            bindR (vmm_alloc_at s1 (pr_space p) 0x1000 1 PAGE_USER_RO) (\<lambda>(va, s2).
            if va = 0 then Inl (Panic ''OHH'')
            else bindR (mmu_switch_space s2 (pr_space p)) (\<lambda>s3.
                 Inr (init, s3\<lparr>mem := (mem s3)(0x1000 := 0xeb, 0x1001 := 0xfe)\<rparr>)))))"

section \<open>Properties\<close>

text \<open>A run of tags from an address: each starts where the one before it ends, the last is the end tag.\<close>

fun tags_at :: "memory \<Rightarrow> u64 \<Rightarrow> u64 \<Rightarrow> u64 list \<Rightarrow> bool" where
  "tags_at m stop p [] \<longleftrightarrow> False"
| "tags_at m stop p (t # ts) \<longleftrightarrow> t = p \<and> p < stop \<and> unat (tag_type m t) < 32
     \<and> (if ts = [] then tag_type m t = 0 else tag_type m t \<noteq> 0 \<and> tags_at m stop (next_tag m t) ts)"

definition of_type :: "memory \<Rightarrow> u32 \<Rightarrow> u64 list \<Rightarrow> u64 list" where
  "of_type m ty ts = filter (\<lambda>t. tag_type m t = ty) ts"

lemma of_type_Cons [simp]: "of_type m ty (t # ts) = (if tag_type m t = ty then t # of_type m ty ts else of_type m ty ts)"
  by (simp add: of_type_def)

lemma of_type_Nil [simp]: "of_type m ty [] = []"
  by (simp add: of_type_def)

lemma read_tags_loop_tags:
  assumes "tags_at m stop p ts"
  shows "\<exists>b. read_tags_loop m stop p bitmap rs mm
      = Some (Inr (b, if of_type m 14 ts = [] then rs else P2V (last (of_type m 14 ts) + 8),
                      if of_type m 6 ts = [] then mm else P2V (last (of_type m 6 ts))))
    \<and> (\<forall>i < 32. bit b i \<longleftrightarrow> bit bitmap i \<or> (\<exists>t \<in> set ts. unat (tag_type m t) = i))"
  using assms
proof (induction ts arbitrary: p bitmap rs mm)
  case Nil
  then show ?case by simp
next
  case (Cons t ts)
  have t: "t = p" "p < stop" "unat (tag_type m p) < 32" using Cons.prems by auto
  let ?b = "bitmap OR push_bit (unat (tag_type m p)) 1"
  have b: "bit ?b i \<longleftrightarrow> bit bitmap i \<or> unat (tag_type m p) = i" if "i < 32" for i
    using that by (auto simp: bit_simps)
  have unf: "read_tags_loop m stop p bitmap rs mm =
    (let rs' = (if tag_type m p = 14 then P2V (p + 8) else rs); mm' = (if tag_type m p = 6 then P2V p else mm)
     in if tag_type m p = 0 then Some (Inr (?b, rs', mm')) else read_tags_loop m stop (next_tag m p) ?b rs' mm')"
    using t(2,3) by (simp add: read_tags_loop.simps [of m stop p] tag_defs Let_def)
  show ?case
  proof (cases ts)
    case Nil
    then have "tag_type m p = 0" using Cons.prems t(1) by simp
    then show ?thesis using unf b t(1) Nil by (simp add: Let_def)
  next
    case (Cons u us)
    then have n: "tag_type m p \<noteq> 0" "tags_at m stop (next_tag m p) ts" using Cons.prems t(1) by auto
    let ?rs = "if tag_type m p = 14 then P2V (p + 8) else rs" and ?mm = "if tag_type m p = 6 then P2V p else mm"
    obtain b' where b': "read_tags_loop m stop (next_tag m p) ?b ?rs ?mm
      = Some (Inr (b', if of_type m 14 ts = [] then ?rs else P2V (last (of_type m 14 ts) + 8),
                      if of_type m 6 ts = [] then ?mm else P2V (last (of_type m 6 ts))))"
      "\<forall>i < 32. bit b' i \<longleftrightarrow> bit ?b i \<or> (\<exists>t \<in> set ts. unat (tag_type m t) = i)"
      using Cons.IH [OF n(2), of ?b ?rs ?mm] by blast
    have "read_tags_loop m stop p bitmap rs mm = read_tags_loop m stop (next_tag m p) ?b ?rs ?mm"
      using unf n(1) by (simp add: Let_def)
    moreover have "\<forall>i < 32. bit b' i \<longleftrightarrow> bit bitmap i \<or> (\<exists>t \<in> set (t # ts). unat (tag_type m t) = i)"
      using b'(2) b t(1) by auto
    ultimately show ?thesis using b'(1) t(1) by (intro exI [of _ b']) auto
  qed
qed

lemma bit_one_at: "k < 32 \<Longrightarrow> bit (push_bit k 1 :: u32) n \<longleftrightarrow> n = k"
  by (auto simp: bit_simps)

lemma expected_bits:
  assumes "j < 32" "k < 32"
  shows "b AND (push_bit j 1 OR push_bit k 1) = (push_bit j 1 OR push_bit k 1 :: u32) \<longleftrightarrow> bit b j \<and> bit b k"
proof -
  let ?e = "push_bit j 1 OR push_bit k 1 :: u32"
  have e: "bit ?e n \<longleftrightarrow> n = j \<or> n = k" for n
    by (simp only: bit_or_iff bit_one_at [OF assms(1)] bit_one_at [OF assms(2)])
  have "b AND ?e = ?e \<longleftrightarrow> (\<forall>n. bit (b AND ?e) n = bit ?e n)" by (auto intro: bit_eqI)
  also have "\<dots> \<longleftrightarrow> bit b j \<and> bit b k" by (simp only: bit_and_iff e) auto
  finally show ?thesis .
qed

lemma expected_tags: "b AND (push_bit 14 1 OR push_bit 6 1) = (push_bit 14 1 OR push_bit 6 1 :: u32) \<longleftrightarrow> bit b 14 \<and> bit b 6"
  by (rule expected_bits) simp_all

text \<open>
  C36. On a list of tags that ends with the end tag, all of a type below 32, reading the tags returns:
  it reports failure exactly when the root pointer tag or the memory map tag is missing, and it
  leaves pointers to the last tag of each of the two kinds.
\<close>

theorem read_tags_finds_both:
  assumes "tags_at m (mb + 8 * ucast (load32 m mb)) (mb + 8) ts"
  shows "read_tags m mb rs mm =
    Inr (if of_type m 14 ts = [] \<or> of_type m 6 ts = [] then 1 else 0,
         if of_type m 14 ts = [] then rs else P2V (last (of_type m 14 ts) + 8),
         if of_type m 6 ts = [] then mm else P2V (last (of_type m 6 ts)))"
proof -
  obtain b where b: "read_tags_loop m (mb + 8 * ucast (load32 m mb)) (mb + 8) 0 rs mm
      = Some (Inr (b, if of_type m 14 ts = [] then rs else P2V (last (of_type m 14 ts) + 8),
                      if of_type m 6 ts = [] then mm else P2V (last (of_type m 6 ts))))"
    "\<forall>i < 32. bit b i \<longleftrightarrow> (\<exists>t \<in> set ts. unat (tag_type m t) = i)"
    using read_tags_loop_tags [OF assms, of 0 rs mm] by auto
  have u: "unat (x :: u32) = 14 \<longleftrightarrow> x = 14" "unat x = 6 \<longleftrightarrow> x = 6" for x by (auto simp: word_unat_eq_iff)
  have "bit b 14 \<longleftrightarrow> of_type m 14 ts \<noteq> []" "bit b 6 \<longleftrightarrow> of_type m 6 ts \<noteq> []"
    using b(2) u by (auto simp: of_type_def filter_empty_conv)
  then show ?thesis using b(1) expected_tags [of b] by (simp add: read_tags_def Let_def tag_defs)
qed

text \<open>A root pointer tag, a memory map tag and the end tag.\<close>

definition tags0 :: memory where
  "tags0 = (\<lambda>a. 0)(0x1000 := 64, 0x1008 := 14, 0x100c := 28, 0x1028 := 6, 0x102c := 16)"

theorem read_tags_finds_both_witness:
  "read_tags tags0 0x1000 0 0 = Inr (0, P2V 0x1010, P2V 0x1028)"
proof -
  have l: "load32 tags0 0x1000 = 64" by (simp add: load32_def tags0_def)
  have ty: "tag_type tags0 0x1008 = 14" "tag_type tags0 0x1028 = 6" "tag_type tags0 0x1038 = 0"
    by (simp_all add: tag_type_def load32_def tags0_def)
  have nx: "next_tag tags0 0x1008 = 0x1028" "next_tag tags0 0x1028 = 0x1038"
    by (simp_all add: next_tag_def tag_size_def load32_def tags0_def)
  have "tags_at tags0 (0x1000 + 8 * ucast (load32 tags0 0x1000)) (0x1000 + 8) [0x1008, 0x1028, 0x1038]"
    by (simp add: l ty nx)
  from read_tags_finds_both [OF this, of 0 0] show ?thesis by (simp add: ty)
qed

text \<open>The boot stops before it touches a device when the loader did not keep to the protocol.\<close>

lemma kmain_rejects:
  "magic \<noteq> MULTIBOOT2_BOOTLOADER_MAGIC \<Longrightarrow>
     kmain im hw halt raw magic mb s = Inl (Panic ''only support bootloaders following the multiboot2 specifications'')"
  "magic = MULTIBOOT2_BOOTLOADER_MAGIC \<Longrightarrow> mb AND 7 \<noteq> 0 \<Longrightarrow>
     kmain im hw halt raw magic mb s = Inl (Panic ''unaligned mb_infos_ptr'')"
  by (simp_all add: kmain_def kmain_boot_def on_console_def)

end
