(* ===== verification/Boot_Asm.thy ===== *)
theory Boot_Asm
  imports Boot Stack
begin

text \<open>
  The assembly that runs before \<^verbatim>\<open>kmain\<close>, \<^verbatim>\<open>kernel/arch/x86_64/boot.asm\<close>: the header the boot loader looks
  for, the first page tables, the test of the processor's features, the way into long mode and the
  message when a feature is missing. The 32-bit stack, which holds only the flags while they are
  tested and a return address, is not represented; what the processor answers is an argument.
\<close>

section \<open>The header for the boot loader\<close>

definition MULTIBOOT2_HEADER_MAGIC :: u32 where [tag_defs]: "MULTIBOOT2_HEADER_MAGIC = 0xe85250d6"
definition MULTIBOOT_ARCHITECTURE_I386 :: u32 where [tag_defs]: "MULTIBOOT_ARCHITECTURE_I386 = 0"
definition MULTIBOOT_HEADER_TAG_INFORMATION_REQUEST :: u16 where [tag_defs]: "MULTIBOOT_HEADER_TAG_INFORMATION_REQUEST = 1"

text \<open>Two 16-bit fields in one 32-bit word of the header.\<close>

definition dw_pair :: "u16 \<Rightarrow> u16 \<Rightarrow> u32" where
  "dw_pair lo hi = ucast lo OR push_bit 16 (ucast hi)"

definition MULTIBOOT_SIZE :: u32 where "MULTIBOOT_SIZE = 40"

definition multiboot_header :: "u32 list" where
  "multiboot_header =
     [MULTIBOOT2_HEADER_MAGIC, MULTIBOOT_ARCHITECTURE_I386, MULTIBOOT_SIZE,
      - (MULTIBOOT2_HEADER_MAGIC + MULTIBOOT_SIZE + MULTIBOOT_ARCHITECTURE_I386),
      dw_pair MULTIBOOT_HEADER_TAG_INFORMATION_REQUEST 0, 16, MULTIBOOT_TAG_TYPE_MMAP, MULTIBOOT_TAG_TYPE_ACPI_OLD,
      dw_pair (ucast MULTIBOOT_TAG_TYPE_END) 0, 8]"

section \<open>The first page tables\<close>

definition BOOT_PAGE_FLAG :: u64 where [const_defs]: "BOOT_PAGE_FLAG = 0b10000000"

definition PML4_words :: "u64 \<Rightarrow> u64 \<Rightarrow> u64 \<Rightarrow> u64 list" where
  "PML4_words pdp_low pdp_mid pdp_high =
     (pdp_low + PAGE_RW + PAGE_PRESENT) # replicate 256 (pdp_mid + PAGE_RW + PAGE_PRESENT)
       @ replicate 254 0 @ [pdp_high + PAGE_RW + PAGE_PRESENT]"

definition PDP_MID_words :: "u64 list" where
  "PDP_MID_words = [PAGE_PRESENT OR PAGE_RW OR BOOT_PAGE_FLAG, BOOT_PAGE_SIZE_IN_BYTES OR PAGE_PRESENT OR PAGE_RW OR BOOT_PAGE_FLAG]
     @ replicate 510 0"

definition PDP_LOW_words :: "u64 list" where
  "PDP_LOW_words = [PAGE_PRESENT OR PAGE_RW OR BOOT_PAGE_FLAG, BOOT_PAGE_SIZE_IN_BYTES OR PAGE_PRESENT OR PAGE_RW OR BOOT_PAGE_FLAG]
     @ replicate 510 0"

definition PDP_HIGH_words :: "u64 list" where
  "PDP_HIGH_words = replicate 510 0 @ [0 OR PAGE_PRESENT OR PAGE_RW OR BOOT_PAGE_FLAG,
     BOOT_PAGE_SIZE_IN_BYTES OR PAGE_PRESENT OR PAGE_RW OR BOOT_PAGE_FLAG]"

text \<open>The labels of the file, and the address after the call in \<^verbatim>\<open>_entry_64\<close>.\<close>

record boot_labels =
  at_PML4 :: u64
  at_PDP_LOW :: u64
  at_PDP_MID :: u64
  at_PDP_HIGH :: u64
  at_stack_top_64 :: u64
  after_kmain :: u64

definition table_at :: "memory \<Rightarrow> u64 \<Rightarrow> u64 list \<Rightarrow> bool" where
  "table_at m a ws \<longleftrightarrow> (\<forall>i < 512. load64 m (tbl_entry a (of_nat i)) = ws ! i)"

text \<open>The tables as the image is loaded: aligned by the \<^verbatim>\<open>align\<close> directives, and filled.\<close>

definition boot_tables :: "memory \<Rightarrow> boot_labels \<Rightarrow> bool" where
  "boot_tables m l \<longleftrightarrow>
     page_aligned (at_PDP_LOW l) \<and> page_aligned (at_PDP_MID l) \<and> page_aligned (at_PDP_HIGH l)
     \<and> table_at m (at_PML4 l) (PML4_words (at_PDP_LOW l) (at_PDP_MID l) (at_PDP_HIGH l))
     \<and> table_at m (at_PDP_LOW l) PDP_LOW_words \<and> table_at m (at_PDP_MID l) PDP_MID_words
     \<and> table_at m (at_PDP_HIGH l) PDP_HIGH_words"

section \<open>Into long mode\<close>

text \<open>
  The processor when the boot loader jumps to \<^verbatim>\<open>_entry_32\<close>; \<open>id_flips\<close> says whether bit 21 of the flags can
  be changed.
\<close>

record reset_state =
  r_eax :: u32
  r_ebx :: u32
  r_eflags :: u32
  r_cr0 :: u32
  r_cr4 :: u32
  r_efer :: u64
  id_flips :: bool

text \<open>The processor when \<^verbatim>\<open>kmain\<close> gets control.\<close>

record long_mode =
  k_rdi :: u64
  k_rsi :: u64
  k_rsp :: u64
  k_cr0 :: u32
  k_cr3 :: u64
  k_cr4 :: u32
  k_efer :: u64
  k_gdtr :: gdt_descriptor
  k_cs :: u64

datatype boot_result = Entered long_mode memory | Halted memory

definition VGA_BUFFER :: u64 where "VGA_BUFFER = 0xb80a0"

definition error_msg :: "u8 list" where
  "error_msg = map ascii ''HARDWARE NOT SUPPORTED'' @ [0]"

text \<open>The loop of \<^verbatim>\<open>_vga_print\<close> over the bytes from \<^verbatim>\<open>esi\<close> on: \<^verbatim>\<open>al\<close> takes the character, \<^verbatim>\<open>ah\<close> stays.\<close>

fun print_loop :: "u8 list \<Rightarrow> u16 \<Rightarrow> u64 \<Rightarrow> memory \<Rightarrow> memory" where
  "print_loop [] ax edi m = m"
| "print_loop (ch # s) ax edi m =
     (let ax' = (ax AND 0xff00) OR ucast ch
      in if ch = 0 then m else print_loop s ax' (edi + 2) (store16 m edi ax'))"

definition vga_print_asm :: "u8 list \<Rightarrow> u32 \<Rightarrow> memory \<Rightarrow> memory" where
  "vga_print_asm s eax m = print_loop s ((ucast eax AND 0xff00) OR 15) VGA_BUFFER m"

definition hardware_not_supported :: "u32 \<Rightarrow> memory \<Rightarrow> boot_result" where
  "hardware_not_supported eax m = Halted (vga_print_asm error_msg eax m)"

definition popfd :: "reset_state \<Rightarrow> u32 \<Rightarrow> u32 \<Rightarrow> u32" where
  "popfd r old new = (if id_flips r then new else (new AND NOT 0x200000) OR (old AND 0x200000))"

text \<open>The pointer loaded by \<^verbatim>\<open>lgdt\<close> outside 64-bit mode has a 32-bit base.\<close>

definition GDTPTR_32 :: "image \<Rightarrow> gdt_descriptor" where
  "GDTPTR_32 im = \<lparr>gd_size = of_nat (GDT_SIZE * 8), gd_offset = ucast (ucast (at_gdt im - KERNEL_VMA) :: u32)\<rparr>"

definition entry_64 :: "boot_labels \<Rightarrow> long_mode \<Rightarrow> memory \<Rightarrow> boot_result" where
  "entry_64 l k m =
     (let sp = at_stack_top_64 l - 8 in Entered (k\<lparr>k_rsp := sp\<rparr>) (store64 m sp (after_kmain l)))"

definition entry_32 :: "boot_labels \<Rightarrow> image \<Rightarrow> hardware \<Rightarrow> reset_state \<Rightarrow> memory \<Rightarrow> boot_result" where
  "entry_32 l im hw r m =
     (let edi = r_eax r; esi = r_ebx r;
          edx = r_eflags r AND NOT 0x200;
          eax = popfd r edx (edx XOR push_bit 21 1)
      in if eax = edx then hardware_not_supported eax m
         else case hw_cpuid hw 0x80000000 0 of (eax1, _, _, _) \<Rightarrow>
           if sint eax1 < sint (0x80000001 :: u32) then hardware_not_supported eax1 m
           else case hw_cpuid hw 0x80000001 0 of (eax2, _, _, edx2) \<Rightarrow>
             if edx2 AND push_bit 29 1 = 0 then hardware_not_supported eax2 m
             else if edx2 AND push_bit 26 1 = 0 then hardware_not_supported eax2 m
             else entry_64 l
               \<lparr>k_rdi = ucast edi, k_rsi = ucast esi, k_rsp = 0, k_cr0 = r_cr0 r OR push_bit 31 1, k_cr3 = at_PML4 l,
                 k_cr4 = r_cr4 r OR push_bit 5 1 OR push_bit 7 1, k_efer = r_efer r OR push_bit 8 1,
                 k_gdtr = GDTPTR_32 im, k_cs = 8\<rparr> m)"

section \<open>Lemmas\<close>

text \<open>The header is well formed: the four fields add up to zero, and the size is that of the words.\<close>

lemma multiboot_header_valid:
  "sum_list (take 4 multiboot_header) = 0" "unat (multiboot_header ! 2) = 4 * length multiboot_header"
  by (simp_all add: multiboot_header_def tag_defs MULTIBOOT_SIZE_def)

lemma index_unat: "unat (x AND 0x1ff :: u64) = unat x mod 512"
proof -
  have "(0x1ff :: u64) = mask 9" by (simp add: mask_eq_decr_exp)
  then show ?thesis using and_mask_unat [of x 9] by simp
qed

lemma PML4E_unat: "unat (PML4E_INDEX x) = unat x div 2 ^ 39 mod 512"
  unfolding PML4E_INDEX_def index_unat by (simp add: drop_bit_eq_div unat_div)

lemma PDPT_unat: "unat (PDPT_INDEX x) = unat x div 2 ^ 30 mod 512"
  unfolding PDPT_INDEX_def index_unat by (simp add: drop_bit_eq_div unat_div)

lemma table_at_entry:
  assumes "table_at m a ws" "unat i < 512"
  shows "load64 m (tbl_entry a i) = ws ! unat i"
  using assms by (auto simp: table_at_def dest: spec [of _ "unat i"])

lemma boot_entry:
  assumes "page_aligned p"
  shows "present (p + PAGE_RW + PAGE_PRESENT)" "PAGE_ADDR (p + PAGE_RW + PAGE_PRESENT) PAGE_TABLE_SIZE_IN_BYTES = p"
proof -
  have e: "p + PAGE_RW + PAGE_PRESENT = p + 3" by (simp add: const_defs)
  have "p + 3 = p OR 3" using or_low_bits [OF assms, of 3] by simp
  then have "bit ((p + 3) AND 1) 0" by (simp only: bit_and_iff bit_or_iff) simp
  then have "(p + 3) AND 1 \<noteq> 0" by (metis bit_0_eq bot_apply bot_bool_def)
  then show "present (p + PAGE_RW + PAGE_PRESENT)" unfolding e unfolding present_def PAGE_PRESENT_def .
  show "PAGE_ADDR (p + PAGE_RW + PAGE_PRESENT) PAGE_TABLE_SIZE_IN_BYTES = p"
    unfolding e PAGE_TABLE_ADDR using PAGE_ADDR_add_low [OF assms, of 3] by simp
qed

lemma low30: "unat (va AND (BOOT_PAGE_SIZE_IN_BYTES - 1)) = unat va mod 2 ^ 30"
proof -
  have "BOOT_PAGE_SIZE_IN_BYTES - 1 = mask 30" by (simp add: mask_eq_decr_exp const_defs)
  then show ?thesis using and_mask_unat [of va 30] by simp
qed

lemma big_page:
  "unat (PAGE_ADDR 0x83 BOOT_PAGE_SIZE_IN_BYTES OR (va AND (BOOT_PAGE_SIZE_IN_BYTES - 1))) = unat va mod 2 ^ 30"
  "unat (PAGE_ADDR 0x40000083 BOOT_PAGE_SIZE_IN_BYTES OR (va AND (BOOT_PAGE_SIZE_IN_BYTES - 1))) = 2 ^ 30 + unat va mod 2 ^ 30"
proof -
  have z: "PAGE_ADDR 0x83 BOOT_PAGE_SIZE_IN_BYTES = 0" "PAGE_ADDR 0x40000083 BOOT_PAGE_SIZE_IN_BYTES = 0x40000000"
    by (simp_all add: PAGE_ADDR_def const_defs)
  show "unat (PAGE_ADDR 0x83 BOOT_PAGE_SIZE_IN_BYTES OR (va AND (BOOT_PAGE_SIZE_IN_BYTES - 1))) = unat va mod 2 ^ 30"
    unfolding z using low30 by simp
  let ?l = "va AND (BOOT_PAGE_SIZE_IN_BYTES - 1)"
  have "0x40000000 AND (BOOT_PAGE_SIZE_IN_BYTES - 1) = 0" by (simp add: const_defs)
  then have "0x40000000 AND ?l = 0" by (simp only: and.left_commute [of _ va] and_zero_eq)
  then have "0x40000000 OR ?l = 0x40000000 + ?l" by (rule disjunctive_add_eq_or [symmetric])
  moreover have "unat (0x40000000 + ?l) = unat (0x40000000 :: u64) + unat ?l"
  proof (rule unat_add_no_wrap)
    have "unat ?l < 2 ^ 30" unfolding low30 by simp
    then show "unat (0x40000000 :: u64) + unat ?l < 2 ^ 64" by simp
  qed
  ultimately show "unat (PAGE_ADDR 0x40000083 BOOT_PAGE_SIZE_IN_BYTES OR ?l) = 2 ^ 30 + unat va mod 2 ^ 30"
    unfolding z by (simp add: low30)
qed

text \<open>Which gibibyte of physical memory the entries with the given indices lead to.\<close>

definition boot_gib :: "nat \<Rightarrow> nat \<Rightarrow> nat option" where
  "boot_gib i j = (if i \<le> 256 \<and> j < 2 then Some j else if i = 511 \<and> 510 \<le> j then Some (j - 510) else None)"

lemma boot_walk:
  assumes "boot_tables m l"
  shows "case boot_gib (unat (PML4E_INDEX va)) (unat (PDPT_INDEX va)) of
      None \<Rightarrow> mmu_translate_1gb m (at_PML4 l) va = NOT 0
    | Some g \<Rightarrow> unat (mmu_translate_1gb m (at_PML4 l) va) = g * 2 ^ 30 + unat va mod 2 ^ 30"
proof -
  let ?i = "PML4E_INDEX va" and ?j = "PDPT_INDEX va"
  have b: "unat ?i < 512" "unat ?j < 512" using index_bound [of va] by (simp_all add: word_less_nat_alt)
  note t = assms [unfolded boot_tables_def]
  have al: "page_aligned (at_PDP_LOW l)" "page_aligned (at_PDP_MID l)" "page_aligned (at_PDP_HIGH l)" using t by simp_all
  have e4: "load64 m (tbl_entry (at_PML4 l) ?i) = PML4_words (at_PDP_LOW l) (at_PDP_MID l) (at_PDP_HIGH l) ! unat ?i"
    using t b(1) by (intro table_at_entry) simp_all
  have e3: "load64 m (tbl_entry (at_PDP_LOW l) ?j) = PDP_LOW_words ! unat ?j"
    "load64 m (tbl_entry (at_PDP_MID l) ?j) = PDP_MID_words ! unat ?j"
    "load64 m (tbl_entry (at_PDP_HIGH l) ?j) = PDP_HIGH_words ! unat ?j"
    using t b(2) by (simp_all add: table_at_entry)
  have w4: "PML4_words x y z ! i = (if i = 0 then x + PAGE_RW + PAGE_PRESENT else if i \<le> 256 then y + PAGE_RW + PAGE_PRESENT
      else if i < 511 then 0 else z + PAGE_RW + PAGE_PRESENT)" if "i < 512" for x y z i
    using that by (auto simp: PML4_words_def nth_Cons' nth_append)
  have w3: "PDP_LOW_words ! j = (if j = 0 then 0x83 else if j = 1 then 0x40000083 else 0)" "PDP_MID_words = PDP_LOW_words"
    "PDP_HIGH_words ! j = (if j < 510 then 0 else if j = 510 then 0x83 else 0x40000083)" if "j < 512" for j
    using that by (auto simp: PDP_LOW_words_def PDP_MID_words_def PDP_HIGH_words_def nth_Cons' nth_append const_defs)
  have f3: "PDP_LOW_words ! 0 = 0x83" "PDP_LOW_words ! Suc 0 = 0x40000083" "PDP_HIGH_words ! 510 = 0x83" "PDP_HIGH_words ! 511 = 0x40000083"
    and f4: "PML4_words x y z ! 511 = z + PAGE_RW + PAGE_PRESENT" for x y z
    by (simp_all add: w3 w4)
  have p: "\<not> present 0" "present 0x83" "present 0x40000083" by (simp_all add: present_def const_defs)
  note s = mmu_translate_1gb_def Let_def e4 w4 [OF b(1)] boot_entry [OF al(1)] boot_entry [OF al(2)] boot_entry [OF al(3)]
    e3 w3 [OF b(2)] f3 f4 p big_page boot_gib_def
  consider "unat ?i \<le> 256" | "256 < unat ?i" "unat ?i < 511" | "unat ?i = 511" using b(1) by linarith
  then show ?thesis
  proof cases
    case 1
    consider "unat ?j = 0" | "unat ?j = 1" | "2 \<le> unat ?j" by linarith
    then show ?thesis using 1 by cases (auto simp: s)
  next
    case 2
    then show ?thesis by (simp add: s)
  next
    case 3
    consider "unat ?j < 510" | "unat ?j = 510" | "unat ?j = 511" using b(2) by linarith
    then show ?thesis using 3 by cases (auto simp: s)
  qed
qed

text \<open>The three windows onto the first two gibibytes.\<close>

lemma boot_window:
  assumes "boot_tables m l" "unat pa < 0x80000000" "unat va = k * 2 ^ 30 + unat pa"
    and "boot_gib (k div 512 mod 512) (k mod 512) = Some 0" "boot_gib (Suc k div 512 mod 512) (Suc k mod 512) = Some 1"
  shows "mmu_translate_1gb m (at_PML4 l) va = pa"
proof -
  have d: "unat va div 2 ^ 30 = k + unat pa div 2 ^ 30" "unat va mod 2 ^ 30 = unat pa mod 2 ^ 30"
    unfolding assms(3) by (simp_all only: div_mult_self3 mod_mult_self3) simp_all
  have "unat pa div 2 ^ 30 < 2" using assms(2) by simp
  then have q: "unat pa div 2 ^ 30 = 0 \<or> unat pa div 2 ^ 30 = 1" by linarith
  have "unat va div 2 ^ 39 = unat va div 2 ^ 30 div 512" unfolding div_mult2_eq [symmetric] by simp
  then have "boot_gib (unat (PML4E_INDEX va)) (unat (PDPT_INDEX va)) = Some (unat pa div 2 ^ 30)"
    unfolding PML4E_unat PDPT_unat d using q assms(4,5) by auto
  then have "unat (mmu_translate_1gb m (at_PML4 l) va) = unat pa div 2 ^ 30 * 2 ^ 30 + unat pa mod 2 ^ 30"
    using boot_walk [OF assms(1), of va] unfolding d by simp
  then show ?thesis unfolding word_unat_eq_iff by simp
qed

lemma boot_maps:
  assumes "boot_tables m l" "pa < 0x80000000"
  shows "mmu_translate_1gb m (at_PML4 l) pa = pa" "mmu_translate_1gb m (at_PML4 l) (P2V pa) = pa"
    "mmu_translate_1gb m (at_PML4 l) (DM_P2V pa) = pa"
proof -
  have lt: "unat pa < 0x80000000" using assms(2) by (simp add: word_less_nat_alt)
  have p: "unat (P2V pa) = 17179869182 * 2 ^ 30 + unat pa"
    unfolding P2V_def KERNEL_VMA_def using lt by (subst unat_add_no_wrap) simp_all
  have d: "unat (DM_P2V pa) = 17179738112 * 2 ^ 30 + unat pa"
    unfolding DM_P2V_def HIGHER_HALF_START_def using lt by (subst unat_add_no_wrap) simp_all
  show "mmu_translate_1gb m (at_PML4 l) pa = pa"
    by (rule boot_window [OF assms(1) lt, of pa 0]) (simp_all add: boot_gib_def)
  show "mmu_translate_1gb m (at_PML4 l) (P2V pa) = pa"
    by (rule boot_window [OF assms(1) lt p]) (simp_all add: boot_gib_def)
  show "mmu_translate_1gb m (at_PML4 l) (DM_P2V pa) = pa"
    by (rule boot_window [OF assms(1) lt d]) (simp_all add: boot_gib_def)
qed

lemma boot_maps_only:
  assumes "boot_tables m l" "mmu_translate_1gb m (at_PML4 l) va \<noteq> NOT 0"
  shows "mmu_translate_1gb m (at_PML4 l) va < 0x80000000"
proof -
  obtain g where g: "boot_gib (unat (PML4E_INDEX va)) (unat (PDPT_INDEX va)) = Some g"
    "unat (mmu_translate_1gb m (at_PML4 l) va) = g * 2 ^ 30 + unat va mod 2 ^ 30"
    using boot_walk [OF assms(1), of va] assms(2) by (auto split: option.splits)
  have "g < 2" using g(1) index_bound(2) [of va] by (auto simp: boot_gib_def word_less_nat_alt split: if_splits)
  moreover have "unat va mod 2 ^ 30 < 2 ^ 30" by simp
  ultimately have "unat (mmu_translate_1gb m (at_PML4 l) va) < 0x80000000" unfolding g(2) by simp
  then show ?thesis by (simp add: word_less_nat_alt)
qed

section \<open>The message\<close>

lemma ax_bytes:
  fixes ax :: u16 and ch :: u8
  shows "ucast ((ax AND 0xff00) OR ucast ch) = ch"
    "(ucast (drop_bit 8 ((ax AND 0xff00) OR ucast ch)) :: u8) = ucast (drop_bit 8 ax)"
proof -
  have k: "(0xff00 :: u16) = push_bit 8 (mask 8)" by (simp add: mask_eq_decr_exp push_bit_eq_mult)
  show "ucast ((ax AND 0xff00) OR ucast ch) = ch" unfolding k by (rule bit_word_eqI) (simp only: bit_simps, auto)
  show "(ucast (drop_bit 8 ((ax AND 0xff00) OR ucast ch)) :: u8) = ucast (drop_bit 8 ax)"
    unfolding k by (rule bit_word_eqI) (simp only: bit_simps, auto simp: bit_simps dest: bit_imp_le_length)
qed

lemma store16_other: "a \<noteq> edi \<Longrightarrow> a \<noteq> edi + 1 \<Longrightarrow> store16 m edi v a = m a"
  by (simp add: store16_def)

lemma print_loop_outside:
  assumes "2 * length s \<le> unat (a - edi)"
  shows "print_loop (s @ [0]) ax edi m a = m a"
  using assms
proof (induction s arbitrary: ax edi m)
  case (Cons ch s)
  have "2 \<le> a - edi" using Cons.prems by (simp add: word_le_nat_alt)
  then have u: "unat (a - edi - 2) = unat (a - edi) - 2" by (simp add: unat_sub_no_wrap)
  have ne: "a \<noteq> edi" "a \<noteq> edi + 1" using Cons.prems by auto
  have "a - (edi + 2) = a - edi - 2" by simp
  then have "unat (a - (edi + 2)) = unat (a - edi) - 2" using u by (simp only:)
  then have "2 * length s \<le> unat (a - (edi + 2))" using Cons.prems by simp
  then show ?case using Cons.IH [of "edi + 2"] ne by (simp add: Let_def store16_other)
qed simp

lemma print_loop_char:
  assumes "i < length s" "0 \<notin> set s" "length s < 2 ^ 32"
  shows "print_loop (s @ [0]) ax edi m (edi + of_nat (2 * i)) = s ! i"
    "print_loop (s @ [0]) ax edi m (edi + of_nat (2 * i) + 1) = ucast (drop_bit 8 ax)"
proof -
  have "print_loop (s @ [0]) ax edi m (edi + of_nat (2 * i)) = s ! i
    \<and> print_loop (s @ [0]) ax edi m (edi + of_nat (2 * i) + 1) = ucast (drop_bit 8 ax)"
    using assms
  proof (induction s arbitrary: i ax edi m)
    case (Cons ch s)
    let ?ax = "(ax AND 0xff00) OR ucast ch"
    let ?m = "store16 m edi ?ax"
    have e: "print_loop ((ch # s) @ [0]) ax edi m = print_loop (s @ [0]) ?ax (edi + 2) ?m"
      using Cons.prems(2) by (simp add: Let_def)
    show ?case
    proof (cases i)
      case 0
      have n: "unat (- 1 :: u64) = 2 ^ 64 - 1" by (simp add: unsigned_minus_1_eq_mask mask_eq_exp_minus_1)
      have "print_loop (s @ [0]) ?ax (edi + 2) ?m edi = ?m edi" "print_loop (s @ [0]) ?ax (edi + 2) ?m (edi + 1) = ?m (edi + 1)"
        using Cons.prems(3) n by (auto intro!: print_loop_outside)
      moreover have "?m edi = ch" "?m (edi + 1) = ucast (drop_bit 8 ax)"
        unfolding store16_def ax_bytes by simp_all
      ultimately show ?thesis using 0 unfolding e by simp
    next
      case (Suc j)
      have "edi + of_nat (2 * i) = (edi + 2) + of_nat (2 * j)" using Suc by simp
      then show ?thesis using Cons.IH [of j ?ax "edi + 2" ?m] Cons.prems Suc unfolding e by (simp only: ax_bytes) simp
    qed
  qed simp
  then show "print_loop (s @ [0]) ax edi m (edi + of_nat (2 * i)) = s ! i"
    "print_loop (s @ [0]) ax edi m (edi + of_nat (2 * i) + 1) = ucast (drop_bit 8 ax)" by simp_all
qed

lemma vga_print_error:
  "i < 22 \<Longrightarrow> vga_print_asm error_msg eax m (VGA_BUFFER + of_nat (2 * i)) = ascii (''HARDWARE NOT SUPPORTED'' ! i)"
  "i < 22 \<Longrightarrow> vga_print_asm error_msg eax m (VGA_BUFFER + of_nat (2 * i) + 1) = ucast (drop_bit 8 eax)"
  "44 \<le> a - VGA_BUFFER \<Longrightarrow> vga_print_asm error_msg eax m a = m a"
proof -
  define s where "s = map ascii ''HARDWARE NOT SUPPORTED''"
  have z: "0 \<notin> set s" "length s = 22" "i < 22 \<Longrightarrow> s ! i = ascii (''HARDWARE NOT SUPPORTED'' ! i)" for i
    unfolding s_def by (simp_all add: ascii_def nth_map del: list.map)
  have e: "vga_print_asm error_msg eax m = print_loop (s @ [0]) ((ucast eax AND 0xff00) OR 15) VGA_BUFFER m"
    by (simp only: vga_print_asm_def error_msg_def s_def)
  show "vga_print_asm error_msg eax m (VGA_BUFFER + of_nat (2 * i)) = ascii (''HARDWARE NOT SUPPORTED'' ! i)" if "i < 22"
    unfolding e using print_loop_char(1) [of i s] z that by simp
  have "(ucast (drop_bit 8 ((ucast eax AND 0xff00) OR 15 :: u16)) :: u8) = ucast (drop_bit 8 (ucast eax :: u16))"
    using ax_bytes(2) [of "ucast eax" 15] by simp
  also have "\<dots> = ucast (drop_bit 8 eax)" by (rule bit_word_eqI) (auto simp: bit_simps)
  finally show "vga_print_asm error_msg eax m (VGA_BUFFER + of_nat (2 * i) + 1) = ucast (drop_bit 8 eax)" if "i < 22"
    unfolding e using print_loop_char(2) [of i s] z that by simp
  show "vga_print_asm error_msg eax m a = m a" if "44 \<le> a - VGA_BUFFER"
    unfolding e using that z by (intro print_loop_outside) (simp add: word_le_nat_alt)
qed

section \<open>Properties\<close>

text \<open>
  What the code requires of the processor. The extended functions are compared as signed numbers.
\<close>

definition supported :: "hardware \<Rightarrow> reset_state \<Rightarrow> bool" where
  "supported hw r \<longleftrightarrow> id_flips r \<and> sint (0x80000001 :: u32) \<le> sint (fst (hw_cpuid hw 0x80000000 0))
     \<and> (case hw_cpuid hw 0x80000001 0 of (_, _, _, edx) \<Rightarrow> bit edx 29 \<and> bit edx 26)"

lemma test_bit: "(x :: u32) AND push_bit n 1 = 0 \<longleftrightarrow> \<not> bit x n"
  by (simp add: push_bit_eq_mult and_exp_eq_0_iff_not_bit)

lemma flip_seen: "popfd r e (e XOR push_bit 21 1) = e \<longleftrightarrow> \<not> id_flips r"
proof -
  have n: "bit (e XOR push_bit 21 1) 21 \<noteq> bit e 21" by (simp add: bit_simps)
  have k: "(0x200000 :: u32) = push_bit 21 1" by (simp add: push_bit_eq_mult)
  have "((e XOR push_bit 21 1) AND NOT 0x200000) OR (e AND 0x200000) = e"
    unfolding k by (rule bit_word_eqI) (auto simp: bit_simps)
  then show ?thesis using n by (auto simp: popfd_def)
qed

text \<open>
  C24. On a processor with the features the boot code tests, \<^verbatim>\<open>kmain\<close> gets control with the boot loader's
  magic number and information address as arguments, on the 64-bit stack, with physical address
  extension, long mode and paging enabled. The page tables then in force map every address below two
  gibibytes to itself, and its images under the kernel's two address conversions to the same
  physical address; nothing they map lies higher.
\<close>

theorem boot_enters_kmain:
  assumes "supported hw r" "boot_tables m l"
  shows "\<exists>k. entry_32 l im hw r m = Entered k (store64 m (at_stack_top_64 l - 8) (after_kmain l))
    \<and> k_rdi k = ucast (r_eax r) \<and> k_rsi k = ucast (r_ebx r) \<and> k_rsp k = at_stack_top_64 l - 8
    \<and> bit (k_cr4 k) 5 \<and> bit (k_efer k) 8 \<and> bit (k_cr0 k) 31
    \<and> (\<forall>pa < 0x80000000. mmu_translate_1gb m (k_cr3 k) pa = pa
         \<and> mmu_translate_1gb m (k_cr3 k) (P2V pa) = pa \<and> mmu_translate_1gb m (k_cr3 k) (DM_P2V pa) = pa)
    \<and> (\<forall>va. mmu_translate_1gb m (k_cr3 k) va \<noteq> NOT 0 \<longrightarrow> mmu_translate_1gb m (k_cr3 k) va < 0x80000000)"
proof -
  obtain a b c d where 1: "hw_cpuid hw 0x80000000 0 = (a, b, c, d)" by (metis prod_cases4)
  obtain a' b' c' d' where 2: "hw_cpuid hw 0x80000001 0 = (a', b', c', d')" by (metis prod_cases4)
  have "id_flips r" "\<not> sint a < sint (0x80000001 :: u32)" "bit d' 29" "bit d' 26"
    using assms(1) 1 2 by (simp_all add: supported_def)
  then obtain k where k: "entry_32 l im hw r m = entry_64 l k m" "k_rdi k = ucast (r_eax r)" "k_rsi k = ucast (r_ebx r)"
    "k_cr3 k = at_PML4 l" "k_cr4 k = r_cr4 r OR push_bit 5 1 OR push_bit 7 1" "k_efer k = r_efer r OR push_bit 8 1"
    "k_cr0 k = r_cr0 r OR push_bit 31 1"
    unfolding entry_32_def Let_def flip_seen 1 2 prod.case test_bit by simp
  have "entry_32 l im hw r m = Entered (k\<lparr>k_rsp := at_stack_top_64 l - 8\<rparr>) (store64 m (at_stack_top_64 l - 8) (after_kmain l))"
    using k(1) by (simp add: entry_64_def Let_def)
  then show ?thesis using boot_maps [OF assms(2)] boot_maps_only [OF assms(2)] k(2-7)
    by (intro exI [of _ "k\<lparr>k_rsp := at_stack_top_64 l - 8\<rparr>"]) (auto simp: bit_or_iff bit_push_bit_iff)
qed

text \<open>An image with its tables from \<^verbatim>\<open>0x201000\<close> on, and a processor that has the features.\<close>

definition labels0 :: boot_labels where
  "labels0 = \<lparr>at_PML4 = 0x201000, at_PDP_LOW = 0x203000, at_PDP_MID = 0x202000, at_PDP_HIGH = 0x204000, at_stack_top_64 = 0xffffffff80210000, after_kmain = 0x205000\<rparr>"

definition tables_words :: "u64 list" where
  "tables_words = PML4_words 0x203000 0x202000 0x204000 @ PDP_MID_words @ PDP_LOW_words @ PDP_HIGH_words"

definition loaded0 :: memory where
  "loaded0 = push_mem (\<lambda>a. 0) 0x205000 (rev tables_words)"

definition reset0 :: reset_state where
  "reset0 = \<lparr>r_eax = 0x36d76289, r_ebx = 0x10000, r_eflags = 2, r_cr0 = 0x11, r_cr4 = 0, r_efer = 0, id_flips = True\<rparr>"

definition hardware1 :: hardware where
  "hardware1 = hardware0\<lparr>hw_cpuid := (\<lambda>leaf sub. if leaf = 0x80000000 then (0x80000008, 0, 0, 0) else (0, 0, 0, 0x24000000))\<rparr>"

lemma words_length: "length (PML4_words x y z) = 512" "length PDP_MID_words = 512" "length PDP_LOW_words = 512" "length PDP_HIGH_words = 512"
  by (simp_all add: PML4_words_def PDP_MID_words_def PDP_LOW_words_def PDP_HIGH_words_def)

lemma loaded0_table:
  assumes "k < 4" "a = 0x201000 + 4096 * of_nat k"
  shows "table_at loaded0 a (take 512 (drop (512 * k) tables_words))"
  unfolding table_at_def
proof (intro allI impI)
  fix i :: nat assume i: "i < 512"
  have n: "length tables_words = 2048" unfolding tables_words_def by (simp add: words_length)
  have w: "load_words loaded0 0x201000 2048 = tables_words"
    using push_mem_words [of "rev tables_words" "\<lambda>a. 0" "0x205000"] unfolding loaded0_def by (simp add: n)
  have "tbl_entry a (of_nat i) = 0x201000 + 8 * of_nat (512 * k + i)"
    unfolding tbl_entry_def assms(2) by simp
  then have "load64 loaded0 (tbl_entry a (of_nat i)) = tables_words ! (512 * k + i)"
    using load_words_nth [of "512 * k + i" 2048 loaded0 "0x201000"] assms(1) i unfolding w by simp
  then show "load64 loaded0 (tbl_entry a (of_nat i)) = take 512 (drop (512 * k) tables_words) ! i"
    using i assms(1) n by simp
qed

lemma loaded0_tables: "boot_tables loaded0 labels0"
proof -
  have "table_at loaded0 0x201000 (PML4_words 0x203000 0x202000 0x204000)" "table_at loaded0 0x202000 PDP_MID_words"
    "table_at loaded0 0x203000 PDP_LOW_words" "table_at loaded0 0x204000 PDP_HIGH_words"
    using loaded0_table [of 0] loaded0_table [of 1] loaded0_table [of 2] loaded0_table [of 3]
    by (simp_all add: tables_words_def words_length)
  then show ?thesis by (simp add: boot_tables_def labels0_def)
qed

theorem boot_enters_kmain_witness:
  "\<forall>im. \<exists>k. entry_32 labels0 im hardware1 reset0 loaded0 = Entered k (store64 loaded0 0xffffffff8020fff8 0x205000)
     \<and> k_rdi k = 0x36d76289 \<and> mmu_translate_1gb loaded0 (k_cr3 k) (P2V 0x200000) = 0x200000"
proof
  fix im
  have "supported hardware1 reset0" by (simp add: supported_def hardware1_def reset0_def bit_numeral_rec)
  then show "\<exists>k. entry_32 labels0 im hardware1 reset0 loaded0 = Entered k (store64 loaded0 0xffffffff8020fff8 0x205000)
     \<and> k_rdi k = 0x36d76289 \<and> mmu_translate_1gb loaded0 (k_cr3 k) (P2V 0x200000) = 0x200000"
    using boot_enters_kmain [OF _ loaded0_tables, of hardware1 reset0 im] by (auto simp: labels0_def reset0_def)
qed

text \<open>
  On any other processor the boot code halts with the message on the second line of the screen
  and nothing else changed in memory.
\<close>

lemma boot_refuses:
  assumes "\<not> supported hw r"
  shows "\<exists>m'. entry_32 l im hw r m = Halted m'
    \<and> (\<forall>i < 22. m' (0xb8000 + 2 * 80 + of_nat (2 * i)) = ascii (''HARDWARE NOT SUPPORTED'' ! i))
    \<and> (\<forall>a. 44 \<le> a - (0xb8000 + 2 * 80) \<longrightarrow> m' a = m a)"
proof -
  obtain a b c d where 1: "hw_cpuid hw 0x80000000 0 = (a, b, c, d)" by (metis prod_cases4)
  obtain a' b' c' d' where 2: "hw_cpuid hw 0x80000001 0 = (a', b', c', d')" by (metis prod_cases4)
  have "\<not> id_flips r \<or> sint a < sint (0x80000001 :: u32) \<or> \<not> bit d' 29 \<or> \<not> bit d' 26"
    using assms 1 2 by (auto simp: supported_def)
  then have "\<exists>eax. entry_32 l im hw r m = Halted (vga_print_asm error_msg eax m)"
    unfolding entry_32_def Let_def flip_seen 1 2 prod.case hardware_not_supported_def test_bit
    by (cases "id_flips r"; cases "sint a < sint (0x80000001 :: u32)"; cases "bit d' 29") auto
  then show ?thesis using vga_print_error [unfolded VGA_BUFFER_def] by auto
qed

text \<open>
  A processor without extended functions may answer with a small number. As a signed number it is
  above the limit, so that the test does not refuse it.
\<close>

lemma extended_test_signed:
  assumes "(a :: u32) < 0x80000000"
  shows "sint (0x80000001 :: u32) \<le> sint a"
proof -
  have "0 \<le> sint a" using assms by (simp add: sint_uint word_less_def signed_take_bit_eq_if_positive bit_iff_odd take_bit_eq_mod)
  then show ?thesis by simp
qed

text \<open>
  The colour of the message is whatever \<^verbatim>\<open>ah\<close> holds: on a processor without \<^verbatim>\<open>cpuid\<close> the second byte of the
  flags, which is 0, black on black, for the flags at reset.
\<close>

lemma message_colour:
  assumes "i < 22" "\<not> id_flips r" "r_eflags r AND 0xfd00 = 0"
  shows "\<exists>m'. entry_32 l im hw r m = Halted m' \<and> m' (VGA_BUFFER + of_nat (2 * i) + 1) = 0"
proof -
  let ?e = "r_eflags r AND NOT 0x200"
  have p: "popfd r ?e (?e XOR push_bit 21 1) = ?e" unfolding flip_seen using assms(2) .
  have n: "entry_32 l im hw r m = Halted (vga_print_asm error_msg ?e m)"
    unfolding entry_32_def Let_def p by (simp add: hardware_not_supported_def)
  have "?e AND 0xff00 = r_eflags r AND 0xfd00" by (simp add: and.assoc)
  then have z: "?e AND 0xff00 = 0" using assms(3) by simp
  have k: "(0xff00 :: u32) = push_bit 8 (mask 8)" by (simp add: mask_eq_decr_exp push_bit_eq_mult)
  have "(ucast (drop_bit 8 ?e) :: u8) = ucast (drop_bit 8 (?e AND 0xff00))"
    unfolding k by (rule bit_word_eqI) (simp only: bit_simps, auto simp: bit_simps)
  also have "\<dots> = 0" by (simp only: z) simp
  finally have "vga_print_asm error_msg ?e m (VGA_BUFFER + of_nat (2 * i) + 1) = 0"
    using vga_print_error(2) [OF assms(1), of ?e m] by (simp only:)
  with n show ?thesis by blast
qed

end
