(* ===== verification/Creation.thy ===== *)
theory Creation
  imports Switch
begin

text \<open>
  Creation of processes (\<^verbatim>\<open>multitasking/process.c\<close>): process numbers, which come from a bitmap of 65535
  slots, and the assignments that tie a new process to its parent. The definitions are in \<open>Process\<close>.
\<close>

section \<open>Process numbers\<close>

definition unused_pids :: "'a task_state_scheme \<Rightarrow> nat set" where
  "unused_pids s = bm_free (mem s) (pid_bitmap s)"

definition pids_wf :: "'a task_state_scheme \<Rightarrow> bool" where
  "pids_wf s \<longleftrightarrow> bm_wf (pid_bitmap s) \<and> bm_len (pid_bitmap s) = ucast U16_MAX"

lemma unused_pids_bound: "pids_wf s \<Longrightarrow> k \<in> unused_pids s \<Longrightarrow> k < 65535"
  by (auto simp: unused_pids_def pids_wf_def bm_free_def U16_MAX_def)

lemma finite_unused_pids [simp]: "finite (unused_pids s)"
  by (simp add: unused_pids_def)

lemma get_unused_pid:
  assumes "pids_wf s" "unused_pids s \<noteq> {}"
  shows "\<exists>m. process_get_unused_pid s = Inr (of_nat (Min (unused_pids s)), s\<lparr>mem := m\<rparr>)
    \<and> unused_pids (s\<lparr>mem := m\<rparr>) = unused_pids s - {Min (unused_pids s)}"
proof -
  let ?k = "Min (unused_pids s)"
  have wf: "bm_wf (pid_bitmap s)" "bm_len (pid_bitmap s) = 65535" using assms(1) by (simp_all add: pids_wf_def U16_MAX_def)
  obtain m where m: "bitmap_find_and_set (mem s) (pid_bitmap s) = Inr (of_nat ?k, m)"
    using find_and_set_free [OF wf(1)] assms(2) unfolding unused_pids_def by blast
  have k: "?k < 65535" using unused_pids_bound [OF assms(1)] Min_in [OF finite_unused_pids assms(2)] by blast
  have u: "unat (of_nat ?k :: u64) = ?k" using k by (intro unat_of_nat64) simp
  have uk: "unat (of_nat ?k :: u16) = ?k" using k by (simp add: unat_of_nat)
  have c: "(ucast (of_nat ?k :: u64) :: u16) = of_nat ?k" 
    using k by (simp add: word_unat_eq_iff unsigned_ucast_eq u uk take_bit_eq_mod)
  have "unat (ucast (of_nat ?k :: u16) :: u64) = ?k"
    using k by (simp add: unsigned_ucast_eq uk take_bit_eq_mod)
  then have "(ucast (of_nat ?k :: u16) :: u64) \<noteq> 65535" using k by auto
  then have "process_get_unused_pid s = Inr (of_nat ?k, s\<lparr>mem := m\<rparr>)"
    using m wf(2) by (simp add: process_get_unused_pid_def Let_def c)
  moreover have "unused_pids (s\<lparr>mem := m\<rparr>) = unused_pids s - {?k}"
    using find_and_set_Inr(2) [OF wf(1) m] u by (simp add: unused_pids_def)
  ultimately show ?thesis by blast
qed

text \<open>Numbers given out one after the other.\<close>

fun get_pids :: "nat \<Rightarrow> 'a task_state_scheme \<Rightarrow> (u16 list \<times> 'a task_state_scheme) res" where
  "get_pids 0 s = Inr ([], s)"
| "get_pids (Suc n) s = bindR (process_get_unused_pid s) (\<lambda>(p, s1). bindR (get_pids n s1) (\<lambda>(ps, s2). Inr (p # ps, s2)))"

lemma pids_distinct:
  assumes "pids_wf s" "n \<le> card (unused_pids s)"
  shows "\<exists>ps t. get_pids n s = Inr (ps, t) \<and> length ps = n \<and> distinct (map unat ps)
    \<and> set (map unat ps) \<subseteq> unused_pids s \<and> unused_pids t = unused_pids s - set (map unat ps)"
  using assms
proof (induction n arbitrary: s)
  case (Suc n)
  let ?k = "Min (unused_pids s)"
  have ne: "unused_pids s \<noteq> {}" using Suc.prems(2) by auto
  obtain m where m: "process_get_unused_pid s = Inr (of_nat ?k, s\<lparr>mem := m\<rparr>)"
    "unused_pids (s\<lparr>mem := m\<rparr>) = unused_pids s - {?k}" using get_unused_pid [OF Suc.prems(1) ne] by blast
  have k: "?k \<in> unused_pids s" using ne by simp
  then have "?k < 65535" by (rule unused_pids_bound [OF Suc.prems(1)])
  then have u: "unat (of_nat ?k :: u16) = ?k" by (simp add: unat_of_nat)
  have "pids_wf (s\<lparr>mem := m\<rparr>)" "n \<le> card (unused_pids (s\<lparr>mem := m\<rparr>))"
    using Suc.prems k by (simp_all add: pids_wf_def m(2))
  then obtain ps t where "get_pids n (s\<lparr>mem := m\<rparr>) = Inr (ps, t)" "length ps = n" "distinct (map unat ps)"
    "set (map unat ps) \<subseteq> unused_pids s - {?k}" "unused_pids t = unused_pids s - {?k} - set (map unat ps)"
    using Suc.IH [of "s\<lparr>mem := m\<rparr>"] unfolding m(2) by blast
  then show ?case using m(1) k u by (intro exI [of _ "of_nat ?k # ps"] exI [of _ t]) auto
qed simp

text \<open>The boot process gets number 0 without taking it from the bitmap, so that the next process gets 0 too.\<close>

lemma first_pid_is_zero:
  assumes "process_init raw s = Inr t" "bm_bitmap (pid_bitmap t) \<noteq> 0"
  shows "\<exists>t'. process_get_unused_pid t = Inr (0, t')"
proof -
  obtain p bm s4 s3 where i: "bitmap_init_kheap (ucast U16_MAX) s3 = Inr (p, bm, s4)" "t = s4\<lparr>pid_bitmap := bm\<rparr>"
    using assms(1) by (auto simp: process_init_def bindR_Inr_iff Let_def split: if_splits)
  obtain a s5 where "kmalloc s3 (8 * BITMAP_SIZE_IN_BLOCK (ucast U16_MAX)) = Inr (a, s5)" "a \<noteq> 0"
    "bm = \<lparr>bm_len = ucast U16_MAX, bm_size_in_block = BITMAP_SIZE_IN_BLOCK (ucast U16_MAX), bm_bitmap = a\<rparr>"
    "s4 = s5\<lparr>mem := memset (mem s5) a 0xff (BITMAP_SIZE_IN_BLOCK (ucast U16_MAX) * 8)\<rparr>"
    using i assms(2) by (auto simp: bitmap_init_kheap_def bindR_Inr_iff Let_def split: if_splits)
  then have b: "bitmap_init (mem s5) (ucast U16_MAX) a = (a + BITMAP_SIZE_IN_BLOCK (ucast U16_MAX), bm, mem s4)"
    by (simp add: bitmap_init_def Let_def)
  have wf: "pids_wf t" and f: "unused_pids t = {..<65535}"
    using bitmap_init_wf [OF b] bitmap_init_free [OF b] i(2) by (simp_all add: pids_wf_def unused_pids_def U16_MAX_def)
  have z: "0 \<in> unused_pids t" unfolding f by simp
  then have "Min (unused_pids t) = 0" by (intro Min_eqI) simp_all
  then show ?thesis using get_unused_pid [OF wf] z by force
qed

section \<open>Parents and children\<close>

text \<open>
  The children of a process: the first one in its field, the others in the ring of sibling nodes
  round the first.
\<close>

definition sibling_node :: "u64 \<Rightarrow> u64" where
  "sibling_node p = p + siblings_list_offset"

definition children :: "lheap \<Rightarrow> process \<Rightarrow> u64 list \<Rightarrow> bool" where
  "children h q cs \<longleftrightarrow> (case cs of [] \<Rightarrow> pr_child q = 0
     | c # ys \<Rightarrow> c \<noteq> 0 \<and> pr_child q = c \<and> ring h (sibling_node c) (map sibling_node ys))"

text \<open>A new child is linked behind the first one.\<close>

fun adopt :: "u64 \<Rightarrow> u64 list \<Rightarrow> u64 list" where
  "adopt p [] = [p]"
| "adopt p (c # ys) = c # p # ys"

lemma link_child_adopts:
  assumes "procs s parent = Some q" "children (nodes s) q cs" "proc \<noteq> 0" "proc \<notin> set cs"
    and "nodes s (sibling_node proc) = Some (LIST_HEAD_INIT (sibling_node proc))"
  shows "\<exists>h q'. link_child proc parent s = Inr (s\<lparr>nodes := h, procs := (procs s)(parent \<mapsto> q')\<rparr>)
    \<and> children h q' (adopt proc cs) \<and> q' = q\<lparr>pr_child := hd (adopt proc cs)\<rparr>"
proof (cases cs)
  case Nil
  have "ring (nodes s) (sibling_node proc) []"
    using assms(5) by (simp add: ring_def nxt_of_def prv_of_def LIST_HEAD_INIT_def)
  then show ?thesis using Nil assms
    by (intro exI [of _ "nodes s"] exI [of _ "q\<lparr>pr_child := proc\<rparr>"]) (simp add: children_def link_child_def set_proc_def)
next
  case (Cons c ys)
  have c: "c \<noteq> 0" "pr_child q = c" "ring (nodes s) (sibling_node c) (map sibling_node ys)"
    using assms(2) Cons by (simp_all add: children_def)
  have "sibling_node proc \<notin> insert (sibling_node c) (set (map sibling_node ys))"
    using assms(4) Cons by (auto simp: sibling_node_def)
  then obtain h where h: "list_add (nodes s) (sibling_node proc) (sibling_node c) = Inr h"
    "ring h (sibling_node c) (sibling_node proc # map sibling_node ys)"
    using list_add_ring [OF c(3)] assms(5) by blast
  have "link_child proc parent s = Inr (s\<lparr>nodes := h\<rparr>)"
    using assms(1) c h(1) by (simp add: link_child_def sibling_node_def)
  moreover have "(procs s)(parent \<mapsto> q) = procs s" using assms(1) by auto
  ultimately show ?thesis using c h(2) Cons
    by (intro exI [of _ h] exI [of _ q]) (simp add: children_def)
qed

text \<open>With no parent the last branch writes through NULL.\<close>

lemma link_child_null: "procs s 0 = None \<Longrightarrow> link_child proc 0 s = Inl Fault"
  by (simp add: link_child_def)

lemma process_setup_null_parent:
  assumes "procs s 0 = None" "proc \<noteq> 0"
  shows "process_setup proc name uentry 0 s \<noteq> Inr t"
proof
  assume "process_setup proc name uentry 0 s = Inr t"
  then obtain s1 p1 pid s2 m h v s4 where s1: "process_arch_init proc uentry 0xffff s = Inr s1"
    and s2: "process_get_unused_pid (s1\<lparr>procs := (procs s1)(proc \<mapsto> p1)\<rparr>) = Inr (pid, s2)"
    and l: "link_child proc 0 (s2\<lparr>mem := m, nodes := h, procs := (procs s2)(proc \<mapsto> v)\<rparr>) = Inr s4"
    by (auto simp: process_setup_def bindR_Inr_iff set_proc_def deref_Inr_iff Let_def case_prod_beta)
  have "procs s1 0 = None" using assms by (auto intro: process_arch_init_Inr [OF s1])
  then have "procs s2 0 = None" using s2 assms(2) by (auto simp: process_get_unused_pid_def bindR_Inr_iff Let_def split: if_splits)
  then have "procs (s2\<lparr>mem := m, nodes := h, procs := (procs s2)(proc \<mapsto> v)\<rparr>) 0 = None" using assms(2) by simp
  with l show False by (simp add: link_child_null)
qed

text \<open>
  C23. The set-up of a new process whose parent is another process gives it the least unused process
  number, makes it ready and childless with the context for its first switch, and refines the adoption
  into the parent's list of children: the only child, or the second one. All other processes are
  unchanged.
\<close>

theorem process_setup_adopts:
  assumes "process_arch_init proc uentry 0xffff s = Inr s1" "procs s proc = Some p" "procs s parent = Some q"
    and "proc \<noteq> 0" "proc \<noteq> parent" "children (nodes s) q cs" "proc \<notin> set cs"
    and "proc + sched_list_offset \<notin> sibling_node ` set cs"
    and "unat (strlen (mem s1) name PROCESS_NAME_MAX) < length (pr_name p)"
    and "pids_wf s" "unused_pids s1 \<noteq> {}"
  shows "\<exists>t p' q'. process_setup proc name uentry parent s = Inr t \<and> procs t = (procs s)(proc \<mapsto> p', parent \<mapsto> q')
    \<and> unat (pr_pid p') = Min (unused_pids s1) \<and> pr_state p' = PROCESS_READY \<and> pr_parent p' = parent \<and> pr_child p' = 0
    \<and> pr_context p' = pr_kstack p + 16144 \<and> pr_tf p' = pr_kstack p + 16208
    \<and> q' = q\<lparr>pr_child := hd (adopt proc cs)\<rparr> \<and> children (nodes t) q' (adopt proc cs)"
proof -
  obtain p0 where p0: "procs s proc = Some p0"
    "s1 = s\<lparr>mem := arch_mem (pr_kstack p0 + 16144) (first_run s) (trap_ret s) uentry 0xffff (mem s),
       procs := (procs s)(proc \<mapsto> p0\<lparr>pr_tf := pr_kstack p0 + 16208, pr_context := pr_kstack p0 + 16144\<rparr>)\<rparr>"
    by (rule process_arch_init_Inr [OF assms(1)])
  let ?pa = "p\<lparr>pr_tf := pr_kstack p + 16208, pr_context := pr_kstack p + 16144\<rparr>"
  have s1: "procs s1 = (procs s)(proc \<mapsto> ?pa)" "nodes s1 = nodes s" "pid_bitmap s1 = pid_bitmap s" using p0 assms(2) by auto
  obtain nm where nm: "copy_name (mem s1) name ?pa = Inr (?pa\<lparr>pr_name := nm\<rparr>)"
    using assms(9) by (auto simp: copy_name_def Let_def)
  let ?p1 = "?pa\<lparr>pr_name := nm\<rparr>"
  let ?s1 = "s1\<lparr>procs := (procs s1)(proc \<mapsto> ?p1)\<rparr>"
  have u: "pids_wf ?s1" "unused_pids ?s1 = unused_pids s1" using assms(10) s1(3) by (simp_all add: pids_wf_def unused_pids_def)
  then obtain m where m: "process_get_unused_pid ?s1 = Inr (of_nat (Min (unused_pids s1)), ?s1\<lparr>mem := m\<rparr>)"
    using get_unused_pid [OF u(1)] assms(11) by auto
  have "Min (unused_pids s1) < 65535"
    using unused_pids_bound [OF u(1)] assms(11) unfolding u(2) by simp
  then have pid: "unat (of_nat (Min (unused_pids s1)) :: u16) = Min (unused_pids s1)" by (simp add: unat_of_nat)
  obtain fb m2 where fb: "init_fdbitmap m (pr_fdbitmap ?p1) = (fb, m2)" by fastforce
  let ?h = "(nodes s)(proc + sched_list_offset \<mapsto> LIST_HEAD_INIT (proc + sched_list_offset),
      proc + siblings_list_offset \<mapsto> LIST_HEAD_INIT (proc + siblings_list_offset))"
  let ?p2 = "?p1\<lparr>pr_pid := of_nat (Min (unused_pids s1)), pr_fdbitmap := fb, pr_state := PROCESS_READY, pr_parent := parent\<rparr>"
  let ?s3 = "?s1\<lparr>mem := m2, nodes := ?h, procs := (procs s)(proc \<mapsto> ?p2)\<rparr>"
  have ch: "children (nodes ?s3) q cs"
  proof (cases cs)
    case (Cons c ys)
    then have "sibling_node proc \<notin> insert (sibling_node c) (set (map sibling_node ys))"
      "proc + sched_list_offset \<notin> insert (sibling_node c) (set (map sibling_node ys))"
      using assms(7,8) by (auto simp: sibling_node_def)
    then show ?thesis using assms(6) Cons by (auto simp: children_def sibling_node_def [of proc] intro!: ring_outside)
  qed (use assms(6) in \<open>simp add: children_def\<close>)
  have "procs ?s3 parent = Some q" using assms(3,5) by simp
  moreover have "nodes ?s3 (sibling_node proc) = Some (LIST_HEAD_INIT (sibling_node proc))" by (simp add: sibling_node_def)
  ultimately obtain h q' where l: "link_child proc parent ?s3 = Inr (?s3\<lparr>nodes := h, procs := (procs ?s3)(parent \<mapsto> q')\<rparr>)"
    "children h q' (adopt proc cs)" "q' = q\<lparr>pr_child := hd (adopt proc cs)\<rparr>"
    using link_child_adopts [OF _ ch assms(4,7)] by blast
  let ?p3 = "?p2\<lparr>pr_child := 0, pr_signals_handlers := replicate PROCESS_NSIG 0\<rparr>"
  have "set_proc proc (\<lambda>p. p\<lparr>pr_child := 0, pr_signals_handlers := replicate PROCESS_NSIG 0\<rparr>)
      (?s3\<lparr>nodes := h, procs := (procs ?s3)(parent \<mapsto> q')\<rparr>) = Inr (?s3\<lparr>nodes := h, procs := (procs s)(proc \<mapsto> ?p3, parent \<mapsto> q')\<rparr>)"
    using assms(5) by (simp add: set_proc_def fun_upd_twist [of parent proc])
  moreover have "set_proc proc (\<lambda>p. p\<lparr>pr_pid := of_nat (Min (unused_pids s1)), pr_fdbitmap := fb, pr_state := PROCESS_READY, pr_parent := parent\<rparr>)
      (?s1\<lparr>mem := m2, nodes := ?h\<rparr>) = Inr ?s3" by (simp add: set_proc_def s1(1))
  ultimately have "process_setup proc name uentry parent s = Inr (?s3\<lparr>nodes := h, procs := (procs s)(proc \<mapsto> ?p3, parent \<mapsto> q')\<rparr>)"
    using assms(1) s1 nm m fb l(1) by (simp add: process_setup_def Let_def)
  then show ?thesis using pid l(2,3) by (intro exI [of _ "?s3\<lparr>nodes := h, procs := (procs s)(proc \<mapsto> ?p3, parent \<mapsto> q')\<rparr>"] exI [of _ ?p3] exI [of _ q']) simp
qed

text \<open>The example with an empty name at \<^verbatim>\<open>0x90\<close> and the process numbers unused.\<close>

definition create0 :: task_state where
  "create0 = task0\<lparr>mem := (\<lambda>a. if a = 0x90 then 0 else 0xff),
     pid_bitmap := \<lparr>bm_len = ucast U16_MAX, bm_size_in_block = BITMAP_SIZE_IN_BLOCK (ucast U16_MAX), bm_bitmap = 0x40000\<rparr>\<rparr>"

theorem process_setup_adopts_witness:
  "\<exists>t p' q'. process_setup 0x8000 0x90 0x400000 0x1000 create0 = Inr t \<and> procs t = (procs task0)(0x8000 \<mapsto> p', 0x1000 \<mapsto> q')
     \<and> pr_state p' = PROCESS_READY \<and> pr_parent p' = 0x1000 \<and> children (nodes t) q' [0x8000]"
proof -
  have p: "procs create0 0x8000 = Some proc1" "procs create0 0x1000 = Some proc0" by (simp_all add: create0_def)
  obtain s1 where s1: "process_arch_init 0x8000 0x400000 0xffff create0 = Inr s1" using process_arch_init_total [OF p(1)] by blast
  have m: "mem s1 = arch_mem 0x23f10 (first_run create0) (trap_ret create0) 0x400000 0xffff (\<lambda>a. if a = 0x90 then 0 else 0xff)"
    "pid_bitmap s1 = pid_bitmap create0"
    by (rule process_arch_init_Inr [OF s1], use p(1) in \<open>auto simp: create0_def proc1_def\<close>)+
  have l: "load64 (mem s1) 0x40000 = mask 64"
    unfolding m(1) arch_mem_def
    by (simp add: load64_store64_other load64_memset_other disj64_def) (rule load64_all_ones, auto simp: add_eq_0_iff)
  have "0 \<in> unused_pids s1"
    by (simp add: unused_pids_def bm_free_def bm_bit_def bm_cell_def m(2) create0_def U16_MAX_def l bit_mask_iff)
  then have ne: "unused_pids s1 \<noteq> {}" by blast
  have z: "mem s1 0x90 = 0" unfolding m(1) arch_mem_def by (simp add: store64_apply memset_apply)
  have wf: "pids_wf create0" by (simp add: pids_wf_def create0_def bm_wf_def)
  have c: "children (nodes create0) proc0 []" "procs create0 = procs task0" by (simp_all add: children_def proc0_def create0_def)
  have n: "unat (strlen (mem s1) 0x90 PROCESS_NAME_MAX) < length (pr_name proc1)"
    using z by (simp add: strlen_def strlen_loop.simps proc0_def proc1_def)
  show ?thesis using process_setup_adopts [OF s1 p _ _ c(1) _ _ n wf ne] unfolding c(2) adopt.simps by auto
qed

end
