(* ===== verification/Backing.thy ===== *)
theory Backing
  imports Regions
begin

text \<open>
  Allocation of address ranges (\<^verbatim>\<open>vmm_alloc_at\<close> and \<^verbatim>\<open>vmm_alloc_between\<close> of \<^verbatim>\<open>kernel/mm/vmm.c\<close>): the
  region list and the page tables change together. The lemmas put the refinement of the region
  list and the contract of the page mapper side by side: the addresses that become covered are
  the ones that get a page of their own.
\<close>

section \<open>Backing pages\<close>

text \<open>
  After \<open>k\<close> rounds of the loop that backs the pages from \<open>va\<close> on: the pages \<open>f 0\<close>, \<open>f 1\<close>, ..., all
  different and taken from the free pages, are mapped in the space with root \<open>r\<close>, where nothing
  was mapped before, and nothing else that a client can see has changed.
\<close>

definition backed ::
    "u64 set \<Rightarrow> 'a vm_state_scheme \<Rightarrow> u64 \<Rightarrow> u64 \<Rightarrow> u64 \<Rightarrow> nat \<Rightarrow> (nat \<Rightarrow> u64) \<Rightarrow> 'a vm_state_scheme \<Rightarrow> bool" where
  "backed R s r va flags k f t \<longleftrightarrow> mmu_inv R t \<and> t = s\<lparr>mem := mem t\<rparr>
     \<and> free_pages t \<subseteq> free_pages s \<and> mmu_pages R t \<subseteq> mmu_pages R s
     \<and> (\<forall>x. mmu_untouched R s x \<longrightarrow> mem t x = mem s x) \<and> inj_on f {..<k}
     \<and> (\<forall>i < k. f i \<in> free_pages s - free_pages t \<and> mmu_entry (mem s) r (pg_at va i) = 0
         \<and> mmu_entry (mem t) r (pg_at va i) = f i OR flags)
     \<and> (\<forall>r' \<in> R. \<forall>x. (r' = r \<longrightarrow> (\<forall>i < k. \<not> same_page x (pg_at va i))) \<longrightarrow>
         mmu_entry (mem t) r' x = mmu_entry (mem s) r' x)"

lemma backedD:
  assumes "backed R s r va flags k f t"
  shows "mmu_inv R t" and "t = s\<lparr>mem := mem t\<rparr>" and "free_pages t \<subseteq> free_pages s"
    and "mmu_pages R t \<subseteq> mmu_pages R s" and "mmu_untouched R s x \<Longrightarrow> mem t x = mem s x"
    and "inj_on f {..<k}" and "i < k \<Longrightarrow> f i \<in> free_pages s - free_pages t"
    and "i < k \<Longrightarrow> mmu_entry (mem s) r (pg_at va i) = 0"
    and "i < k \<Longrightarrow> mmu_entry (mem t) r (pg_at va i) = f i OR flags"
    and "r' \<in> R \<Longrightarrow> (r' = r \<Longrightarrow> \<forall>i < k. \<not> same_page y (pg_at va i)) \<Longrightarrow>
      mmu_entry (mem t) r' y = mmu_entry (mem s) r' y"
  using assms unfolding backed_def by blast+

lemma backed_start: "mmu_inv R s \<Longrightarrow> backed R s r va flags 0 f s"
  by (simp add: backed_def)

text \<open>One round: a page is taken, then mapped.\<close>

lemma map_fresh_page_Inr:
  assumes "vspaces s space = Some sp" and "map_fresh_page func space flags s va = Inr s'"
  obtains p s1 where "pmm_xalloc s = Inr (p, s1)" and "map_page_in s1 (page_directory sp) va p flags = Inr (0, s')"
proof -
  obtain p s1 where x: "pmm_xalloc s = Inr (p, s1)"
    and m: "bindR (mmu_map_page s1 space va p flags) (\<lambda>(old, s2).
       if old \<noteq> 0 then Inl (Panic (func @ '': overwrite of an already used virtual address'')) else Inr s2) = Inr s'"
    using assms(2) by (auto simp: map_fresh_page_def bindR_Inr_iff)
  have "vspaces s1 space = Some sp" using xalloc_upd [OF x] assms(1) by auto
  then show thesis using m by (intro that [OF x]) (auto simp: mmu_map_page_def bindR_Inr_iff split: if_splits)
qed

lemma xalloc_pages:
  assumes inv: "mmu_inv R s" and x: "pmm_xalloc s = Inr (p, s')"
  shows "mmu_pages R s' \<subseteq> mmu_pages R s" and "mmu_untouched R s x \<Longrightarrow> mem s' x = mem s x"
    and "p \<notin> free_pages s'"
proof -
  note xa = xalloc_mmu [OF inv x]
  show "mmu_pages R s' \<subseteq> mmu_pages R s" using xa(3,4) unfolding mmu_pages_def by auto
  show "p \<notin> free_pages s'" using xa(4) by blast
  have "pmm_alloc s = Inr (p, s')" using x by (auto simp: pmm_xalloc_Inr)
  then show "mmu_untouched R s x \<Longrightarrow> mem s' x = mem s x"
    using pmm_alloc_spec(6) [OF mmu_invD(1) [OF inv]] unfolding mmu_untouched_def by blast
qed

lemma untouched_mono:
  assumes "mmu_untouched R s x" and "mmu_pages R t \<subseteq> mmu_pages R s" and "pmap t = pmap s"
  shows "mmu_untouched R t x"
  using assms unfolding mmu_untouched_def by auto

lemma upd_mem_trans: "t = s\<lparr>mem := m\<rparr> \<Longrightarrow> u = t\<lparr>mem := n\<rparr> \<Longrightarrow> u = (s :: 'a kmem_scheme)\<lparr>mem := n\<rparr>"
  by simp

lemma map_fresh_page_step:
  assumes inv: "mmu_inv R s" and r: "r \<in> R" and perm: "unat flags < 4096" and sp: "vspaces s space = Some sp"
    "page_directory sp = r" and run: "map_fresh_page func space flags s va = Inr s'"
  obtains p where "mmu_inv R s'" and "s' = s\<lparr>mem := mem s'\<rparr>" and "free_pages s' \<subseteq> free_pages s"
    and "mmu_pages R s' \<subseteq> mmu_pages R s" and "\<forall>x. mmu_untouched R s x \<longrightarrow> mem s' x = mem s x"
    and "p \<in> free_pages s" and "p \<notin> free_pages s'" and "mmu_entry (mem s) r va = 0"
    and "\<forall>r' \<in> R. \<forall>y. mmu_entry (mem s') r' y =
      (if r' = r \<and> same_page y va then p OR flags else mmu_entry (mem s) r' y)"
proof -
  obtain p s1 where x: "pmm_xalloc s = Inr (p, s1)" and m: "map_page_in s1 r va p flags = Inr (0, s')"
    using map_fresh_page_Inr [OF sp(1) run] sp(2) by blast
  note xa = xalloc_mmu [OF inv x] and xp = xalloc_pages [OF inv x]
  note ms = map_page_in_spec [OF xa(1) r perm m]
  have "s' = s\<lparr>mem := mem s'\<rparr>" using ms by (intro upd_mem_trans [OF xa(7)]) blast
  moreover have "mem s' x = mem s x" if "mmu_untouched R s x" for x
  proof -
    have "pmap s1 = pmap s" by (subst xa(7)) simp
    then show ?thesis using untouched_mono [OF that xp(1)] xp(2) [OF that] ms by simp
  qed
  moreover have "mmu_entry (mem s) r va = 0" using ms xa(2) [OF r] by simp
  moreover have "mmu_entry (mem s') r' y =
      (if r' = r \<and> same_page y va then p OR flags else mmu_entry (mem s) r' y)" if "r' \<in> R" for r' y
    using ms xa(2) that by simp
  moreover have "free_pages s' \<subseteq> free_pages s" "p \<notin> free_pages s'" "mmu_pages R s' \<subseteq> mmu_pages R s" "mmu_inv R s'"
    using ms xa(4) xp(1,3) by blast+
  ultimately show thesis using that xa(5) by blast
qed

lemma backed_step:
  assumes b: "backed R s r va flags k f t" and k: "k < n" and rng: "unat va + 4096 * n < 2 ^ 64" "n \<le> 2 ^ 36"
    and r: "r \<in> R" and perm: "unat flags < 4096" and sp: "vspaces s space = Some sp" "page_directory sp = r"
    and run: "map_fresh_page func space flags t (pg_at va k) = Inr t'"
  shows "\<exists>p. backed R s r va flags (Suc k) (f(k := p)) t'"
proof -
  note bd = backedD [OF b]
  have spt: "vspaces t space = Some sp" by (subst bd(2)) (simp add: sp(1))
  have pm: "pmap t = pmap s" by (subst bd(2)) simp
  obtain p where i: "mmu_inv R t'" "t' = t\<lparr>mem := mem t'\<rparr>" "free_pages t' \<subseteq> free_pages t"
    "mmu_pages R t' \<subseteq> mmu_pages R t" "\<forall>x. mmu_untouched R t x \<longrightarrow> mem t' x = mem t x"
    "p \<in> free_pages t" "p \<notin> free_pages t'" "mmu_entry (mem t) r (pg_at va k) = 0"
    "\<forall>r' \<in> R. \<forall>y. mmu_entry (mem t') r' y =
      (if r' = r \<and> same_page y (pg_at va k) then p OR flags else mmu_entry (mem t) r' y)"
    by (rule map_fresh_page_step [OF bd(1) r perm spt sp(2) run])
  have ds: "\<not> same_page (pg_at va j) (pg_at va k)" "\<not> same_page (pg_at va k) (pg_at va j)" if "j < k" for j
    by (rule pg_at_distinct [OF rng], use that k in simp_all)+
  have "t' = s\<lparr>mem := mem t'\<rparr>" by (rule upd_mem_trans [OF bd(2) i(2)])
  moreover have "mem t' x = mem s x" if "mmu_untouched R s x" for x
    using i(5) untouched_mono [OF that bd(4) pm] bd(5) [OF that] by simp
  moreover have "inj_on (f(k := p)) {..<Suc k}"
    using bd(6) bd(7) i(6) by (auto simp: lessThan_Suc inj_on_def)
  moreover have "(f(k := p)) j \<in> free_pages s - free_pages t' \<and> mmu_entry (mem s) r (pg_at va j) = 0
      \<and> mmu_entry (mem t') r (pg_at va j) = (f(k := p)) j OR flags" if "j < Suc k" for j
  proof (cases "j = k")
    case True
    then show ?thesis using i(3,6,7,8) i(9) r bd(3) bd(10) [OF r, of "pg_at va k"] ds by auto
  next
    case False
    then have j: "j < k" using that by simp
    then show ?thesis using bd(7,8,9) [OF j] i(3) i(9) r ds [OF j] by auto
  qed
  moreover have "mmu_entry (mem t') r' x = mmu_entry (mem s) r' x"
    if "r' \<in> R" "r' = r \<longrightarrow> (\<forall>j < Suc k. \<not> same_page x (pg_at va j))" for r' x
    using i(9) bd(10) [OF that(1), of x] that by auto
  ultimately have "backed R s r va flags (Suc k) (f(k := p)) t'"
    using i(1,3,4) bd(3,4) unfolding backed_def by blast
  then show ?thesis by blast
qed

lemma map_fresh_pages:
  assumes inv: "mmu_inv R s" and rng: "unat va + 4096 * n < 2 ^ 64" "n \<le> 2 ^ 36"
    and r: "page_directory sp \<in> R" and perm: "unat flags < 4096" and sp: "vspaces s space = Some sp"
    and run: "page_loop (map_fresh_page func space flags) s va (pg_at va n) = Inr s'"
  shows "\<exists>f. backed R s (page_directory sp) va flags n f s'"
proof (rule page_loop_inv [where I = "\<lambda>k t. \<exists>f. backed R s (page_directory sp) va flags k f t", OF run rng(1)])
  show "\<exists>f. backed R s (page_directory sp) va flags 0 f s" using backed_start [OF inv] by blast
  fix k t t' assume k: "k < n" and "\<exists>f. backed R s (page_directory sp) va flags k f t"
    and st: "map_fresh_page func space flags t (pg_at va k) = Inr t'"
  then show "\<exists>f. backed R s (page_directory sp) va flags (Suc k) f t'"
    using backed_step [OF _ k rng r perm sp refl st] by blast
qed

text \<open>The object allocator's blocks lie on pages the page-table code never writes.\<close>

lemma mmu_pages_aligned:
  assumes "mmu_inv R s" and "t \<in> mmu_pages R s"
  shows "page_aligned t"
  using assms(2) mmu_invD(6) [OF assms(1)] pg.free_page [OF mmu_invD(1) [OF assms(1)]]
  unfolding mmu_pages_def by (auto intro: DM_P2V_aligned)

lemma block_untouched:
  assumes inv: "vmm_inv R bs live s" and a: "a \<in> set (bs ty)" and x: "page_bytes a x"
  shows "mmu_untouched R s x"
proof -
  have "\<not> page_bytes q x" if "q \<in> mmu_pages R s" for q
    using pages_bytes_disjoint [OF vmm_invD(5) [OF inv a] mmu_pages_aligned [OF vmm_invD(1) [OF inv] that]]
      vmm_invD(3) [OF inv a] that x by blast
  moreover have "outside_bitmaps (pmap s) x" using vmm_invD(4) [OF inv a] x unfolding off_bitmaps_def by blast
  ultimately show ?thesis unfolding mmu_untouched_def by blast
qed

lemma vmm_inv_change:
  fixes s t :: "'a vmm_state_scheme"
  assumes inv: "vmm_inv R bs live s" and m: "mmu_inv R' t" and same: "pmap t = pmap s" "vblocks t = vblocks s"
    "block_heads t = block_heads s" and eq: "\<And>ty a x. a \<in> set (bs ty) \<Longrightarrow> page_bytes a x \<Longrightarrow> mem t x = mem s x"
    and pages: "0 \<notin> mmu_pages R' t" "\<And>ty a. a \<in> set (bs ty) \<Longrightarrow> a \<notin> mmu_pages R' t"
  shows "vmm_inv R' bs live t"
proof -
  have "objs_ok ty (bs ty) (live ty) (s\<lparr>mem := mem t\<rparr>)" for ty
  proof (rule objs_ok_mem [OF vmm_invD(2) [OF inv]])
    fix a assume a: "a \<in> set (bs ty)"
    show "bm_free (mem t) (blk_bm ty a) \<subseteq> bm_free (mem s) (blk_bm ty a)"
      using blk_free_frame [OF vmm_invD(5) [OF inv a], of "mem t" "mem s"] eq [OF a] by blast
  qed
  then have "objs_ok ty (bs ty) (live ty) t" for ty by (simp add: objs_ok_def same)
  moreover have "off_bitmaps t a \<longleftrightarrow> off_bitmaps s a" for a unfolding off_bitmaps_def same ..
  ultimately show ?thesis using inv m pages unfolding vmm_inv_def by blast
qed

text \<open>
  What every sequence of mappings leaves alone: only memory changes, only on the pages of the tables
  and on free pages, and no page becomes free.
\<close>

definition grown :: "u64 set \<Rightarrow> 'a vm_state_scheme \<Rightarrow> 'a vm_state_scheme \<Rightarrow> bool" where
  "grown R s t \<longleftrightarrow> mmu_inv R t \<and> t = s\<lparr>mem := mem t\<rparr> \<and> free_pages t \<subseteq> free_pages s
     \<and> mmu_pages R t \<subseteq> mmu_pages R s \<and> (\<forall>x. mmu_untouched R s x \<longrightarrow> mem t x = mem s x)"

lemma grown_vmm_ok:
  fixes s t :: "'a vmm_state_scheme"
  assumes ok: "vmm_ok R s" and g: "grown R s t"
  shows "vmm_ok R t"
proof -
  obtain bs live where inv: "vmm_inv R bs live s" "dom (vregions s) \<subseteq> live TYPE_VMM_REGION"
    "dom (vspaces s) \<subseteq> live TYPE_VMM_SPACE" using ok unfolding vmm_ok_def by blast
  have t: "t = s\<lparr>mem := mem t\<rparr>" and m: "mmu_inv R t" and p: "mmu_pages R t \<subseteq> mmu_pages R s"
    and un: "\<And>x. mmu_untouched R s x \<Longrightarrow> mem t x = mem s x" using g unfolding grown_def by blast+
  have pm: "pmap t = pmap s" "vblocks t = vblocks s" "block_heads t = block_heads s"
    "vregions t = vregions s" "vspaces t = vspaces s" by (subst t, simp)+
  have "vmm_inv R bs live t"
    by (rule vmm_inv_change [OF inv(1) m pm(1-3) un [OF block_untouched [OF inv(1)]]])
      (use inv(1) p in \<open>auto simp: vmm_inv_def\<close>)
  then show ?thesis using inv(2,3) pm unfolding vmm_ok_def by auto
qed

lemma backed_vmm_ok:
  fixes s t :: "'a vmm_state_scheme"
  assumes "vmm_ok R s" and "backed R s r va flags n f t"
  shows "vmm_ok R t"
  using assms(2) by (intro grown_vmm_ok [OF assms(1)]) (simp add: backed_def grown_def)

text \<open>
  What a client sees of the loop: every page from \<open>va\<close> on, unmapped before, is mapped with the
  flags to a page of its own that was free and no longer is; no other mapping changed and no page
  became free.
\<close>

definition pages_backed ::
    "u64 set \<Rightarrow> 'a vm_state_scheme \<Rightarrow> u64 \<Rightarrow> u64 \<Rightarrow> nat \<Rightarrow> u64 \<Rightarrow> 'a vm_state_scheme \<Rightarrow> bool" where
  "pages_backed R s r va n flags s' \<longleftrightarrow> free_pages s' \<subseteq> free_pages s \<and> (\<exists>f. inj_on f {..<n}
     \<and> (\<forall>i < n. f i \<in> free_pages s - free_pages s' \<and> mmu_entry (mem s) r (pg_at va i) = 0
         \<and> mmu_entry (mem s') r (pg_at va i) = f i OR flags)
     \<and> (\<forall>r' \<in> R. \<forall>x. (r' = r \<longrightarrow> (\<forall>i < n. \<not> same_page x (pg_at va i))) \<longrightarrow>
         mmu_entry (mem s') r' x = mmu_entry (mem s) r' x))"

lemma back_region:
  assumes ok: "vmm_ok R s1" and es: "mappings_kept R s s1" and fp: "free_pages s1 \<subseteq> free_pages s"
    and rng: "unat va + 4096 * n < 2 ^ 64" "n \<le> 2 ^ 36" and perm: "unat flags < 4096"
    and sp: "vspaces s space = Some sp" "page_directory sp \<in> R"
    and fr: "region_frame space ns s s1" and ro: "regions_of s1 space ps"
    and run: "page_loop (map_fresh_page func space flags) s1 va (pg_at va n) = Inr s'"
  shows "vmm_ok R s'" and "vregions s' = vregions s1" and "regions_of s' space ps"
    and "pages_backed R s (page_directory sp) va n flags s'" and "s' = s1\<lparr>mem := mem s'\<rparr>"
proof -
  obtain sp1 where sp1: "vspaces s1 space = Some sp1" "page_directory sp1 = page_directory sp"
    using fr sp(1) ro unfolding region_frame_def regions_of_def by fastforce
  then obtain f where f: "backed R s1 (page_directory sp) va flags n f s'"
    using map_fresh_pages [OF vmm_ok_mmu [OF ok] rng _ perm sp1(1) run] sp(2) by metis
  note bd = backedD [OF f]
  show "vmm_ok R s'" by (rule backed_vmm_ok [OF ok f])
  show "s' = s1\<lparr>mem := mem s'\<rparr>" by (rule bd(2))
  show vr: "vregions s' = vregions s1" by (subst bd(2)) simp
  have vs: "vspaces s' = vspaces s1" by (subst bd(2)) simp
  show "regions_of s' space ps" using ro unfolding regions_of_def vr vs .
  have "mmu_entry (mem s1) r x = mmu_entry (mem s) r x" if "r \<in> R" for r x
    using es that by (simp add: mappings_kept_def)
  then show "pages_backed R s (page_directory sp) va n flags s'"
    unfolding pages_backed_def using bd(3,6-10) fp sp(2)
    by (intro conjI exI [of _ f] allI impI ballI) auto
qed

section \<open>Allocation at a given address\<close>

text \<open>
  The region \<^verbatim>\<open>vmm_add_range\<close> returns ends where the new range ends, unless a region with the same
  flags starts there: then it ends where that one ends.
\<close>

definition stop_after :: "range list \<Rightarrow> u64 \<Rightarrow> u64 \<Rightarrow> u64 \<Rightarrow> bool" where
  "stop_after xs b f e \<longleftrightarrow> (b, e, f) \<in> set xs \<or> b = e \<and> (\<forall>y \<in> set xs. fst y = b \<longrightarrow> snd (snd y) \<noteq> f)"

lemma merged_stop:
  assumes so: "ranges_ok (xs @ ys)" and nc: "\<not> collides xs ys a b" and ab: "a < b"
  shows "stop_after (xs @ ys) b f (fst (snd (merged xs ys (a, b, f))))"
proof (cases "joins_next ys b f")
  case True
  then have "hd ys \<in> set ys" "hd ys = (b, fst (snd (hd ys)), f)" by (auto simp: joins_next_def prod_eq_iff)
  then have "(b, fst (snd (hd ys)), f) \<in> set (xs @ ys)" by (metis Un_iff set_append)
  then show ?thesis using True by (simp add: stop_after_def merged_def)
next
  case False
  have "fst y < b" if y: "y \<in> set xs" for y
  proof -
    obtain z zs where d: "xs = zs @ [z]" using y by (cases xs rule: rev_cases) auto
    have "fst (snd z) \<le> a" using nc d by (auto simp: collides_def)
    moreover have "z = y \<or> fst (snd y) \<le> fst z" "fst z < fst (snd z)" "fst y < fst (snd y)"
      using so y unfolding d by (auto simp: ranges_ok_def sorted_wrt_append)
    ultimately show ?thesis using ab by auto
  qed
  moreover have "fst y \<noteq> b \<or> snd (snd y) \<noteq> f" if y: "y \<in> set ys" for y
  proof -
    obtain z zs where d: "ys = z # zs" using y by (cases ys) auto
    have "b \<le> fst z" using nc d by (auto simp: collides_def)
    moreover have "z = y \<or> fst (snd z) \<le> fst y" "fst z < fst (snd z)"
      using so y unfolding d by (auto simp: ranges_ok_append ranges_ok_Cons)
    ultimately show ?thesis using False d by (auto simp: joins_next_def)
  qed
  ultimately have "\<forall>y \<in> set (xs @ ys). fst y = b \<longrightarrow> snd (snd y) \<noteq> f"
    by (metis Un_iff less_irrefl set_append)
  then show ?thesis using False by (simp add: stop_after_def merged_def)
qed

lemma vmm_add_range_stop:
  assumes ok: "vmm_ok R s" and ro: "regions_of s space ps" and so: "ranges_ok (rlist (vregions s) ps)"
    and ab: "a < b" and run: "vmm_add_range s space a b f = Inr (reg, s')"
  shows "stop_after (rlist (vregions s) ps) b f (va_stop (the (vregions s' reg)))"
proof -
  let ?xs = "rlist (vregions s) ps"
  let ?k = "place_from a b None ?xs"
  note sp = vmm_add_range_spec [OF ok ro run]
  have "rdata (the (vregions s' reg)) = merged (take ?k ?xs) (drop ?k ?xs) (a, b, f)"
    using sp(2) unfolding inserted_def by blast
  moreover have "ranges_ok (take ?k ?xs @ drop ?k ?xs)" using so by simp
  ultimately show ?thesis using merged_stop [OF _ sp(1) ab, of f] by (simp add: rdata_def [symmetric])
    (metis fst_conv rdata_def snd_conv)
qed

lemma not_covered_end:
  fixes a b :: u64
  assumes st: "\<forall>y \<in> set xs. fst y = b \<longrightarrow> snd (snd y) \<noteq> f" and gap: "covered xs f \<inter> {a..<b} = {}" and ab: "a < b"
  shows "b \<notin> covered xs f"
proof
  assume "b \<in> covered xs f"
  then obtain y where y: "y \<in> set xs" "snd (snd y) = f" "fst y \<le> b" "b < fst (snd y)"
    unfolding covered_def by auto
  then have "fst y < b" using st by (auto simp: order_less_le)
  then have "max (fst y) a \<in> {a..<b}" "max (fst y) a \<in> {fst y..<fst (snd y)}"
    using ab y(4) by (auto simp: max_def)
  then show False using covered_I [OF y(1)] y(2) gap by blast
qed

text \<open>
  The parts of a run of \<^verbatim>\<open>vmm_alloc_at\<close>: the range is added, then every page up to the end of the
  region that now contains it is backed.
\<close>

lemma vmm_alloc_at_Inr:
  assumes ok: "vmm_ok R s" and ro: "regions_of s space ps" and so: "ranges_ok (rlist (vregions s) ps)"
    and va: "va \<noteq> 0" "0 < n" "unat va + 4096 * n < 2 ^ 64"
    and run: "vmm_alloc_at s space va (of_nat n) flags = Inr (v, s')"
  obtains reg s1 ps' where "vmm_add_range s space va (pg_at va n) flags = Inr (reg, s1)" and "v = va"
    and "regions_of s1 space ps'" and "ranges_ok (rlist (vregions s1) ps')"
    and "\<forall>g. covered (rlist (vregions s) ps) g \<inter> {va..<pg_at va n} = {}
      \<and> covered (rlist (vregions s1) ps') g = covered (rlist (vregions s) ps) g \<union> (if g = flags then {va..<pg_at va n} else {})"
    and "(\<forall>y \<in> set (rlist (vregions s) ps). fst y = pg_at va n \<longrightarrow> snd (snd y) \<noteq> flags)
        \<or> (\<forall>y \<in> set (rlist (vregions s) ps). fst (snd y) \<noteq> va) \<longrightarrow>
      vmm_ok R s1 \<and> mappings_kept R s s1 \<and> free_pages s1 \<subseteq> free_pages s"
    and "page_loop (map_fresh_page ''vmm_alloc_at'' space flags) s1 va (va_stop (the (vregions s1 reg))) = Inr s'"
    and "region_frame space (set ps \<union> {reg}) s s1"
proof -
  have ab: "va < pg_at va n" using unat_pg_at [OF va(3)] va(2) by (simp add: word_less_nat_alt)
  obtain reg s1 where a: "vmm_add_range s space va (pg_at va n) flags = Inr (reg, s1)"
    and l: "(if reg = 0 then Inr (0, s1) else bindR (deref (vregions s1) reg) (\<lambda>r.
      bindR (page_loop (map_fresh_page ''vmm_alloc_at'' space flags) s1 va (va_stop r)) (\<lambda>s2. Inr (va, s2)))) = Inr (v, s')"
    using run va(1) by (auto simp: vmm_alloc_at_def bindR_Inr_iff)
  show thesis
  proof (rule vmm_add_range_cover [OF ok ro so ab a])
    fix ps' r
    assume c: "regions_of s1 space ps'" "ranges_ok (rlist (vregions s1) ps')"
      "\<And>g. covered (rlist (vregions s) ps) g \<inter> {va..<pg_at va n} = {}"
      "\<And>g. covered (rlist (vregions s1) ps') g = covered (rlist (vregions s) ps) g \<union> (if g = flags then {va..<pg_at va n} else {})"
      and r: "vregions s1 reg = Some r" "reg \<noteq> 0" and fr: "region_frame space (set ps \<union> {reg}) s s1"
      and k: "pg_at va n \<notin> covered (rlist (vregions s) ps) flags \<or> (\<forall>y \<in> set (rlist (vregions s) ps). fst (snd y) \<noteq> va) \<Longrightarrow>
        vmm_ok R s1 \<and> mappings_kept R s s1 \<and> free_pages s1 \<subseteq> free_pages s"
    have "v = va" "page_loop (map_fresh_page ''vmm_alloc_at'' space flags) s1 va (va_stop (the (vregions s1 reg))) = Inr s'"
      using l r by (auto simp: bindR_Inr_iff)
    moreover have "(\<forall>y \<in> set (rlist (vregions s) ps). fst y = pg_at va n \<longrightarrow> snd (snd y) \<noteq> flags)
        \<or> (\<forall>y \<in> set (rlist (vregions s) ps). fst (snd y) \<noteq> va) \<longrightarrow>
      vmm_ok R s1 \<and> mappings_kept R s s1 \<and> free_pages s1 \<subseteq> free_pages s"
      using k not_covered_end [OF _ c(3) ab] by blast
    ultimately show thesis using c(3,4) by (intro that [OF a _ c(1,2) _ _ _ fr]) blast+
  qed
qed

lemma vmm_alloc_at_result:
  assumes ok: "vmm_ok R s" and ro: "regions_of s space ps" and so: "ranges_ok (rlist (vregions s) ps)"
    and sp: "vspaces s space = Some sp" "page_directory sp \<in> R" and perm: "unat flags < 4096"
    and va: "va \<noteq> 0" "0 < n" "unat va + 4096 * n < 2 ^ 64" "n \<le> 2 ^ 36"
    and nb: "\<forall>y \<in> set (rlist (vregions s) ps). fst y = pg_at va n \<longrightarrow> snd (snd y) \<noteq> flags"
    and run: "vmm_alloc_at s space va (of_nat n) flags = Inr (v, s')"
  shows "v = va \<and> vmm_ok R s' \<and> pages_backed R s (page_directory sp) va n flags s'
    \<and> (\<exists>ps'. regions_of s' space ps' \<and> ranges_ok (rlist (vregions s') ps')
      \<and> (\<forall>g. covered (rlist (vregions s) ps) g \<inter> {va..<pg_at va n} = {}
        \<and> covered (rlist (vregions s') ps') g = covered (rlist (vregions s) ps) g \<union> (if g = flags then {va..<pg_at va n} else {})))
    \<and> map_option page_directory (vspaces s' space) = Some (page_directory sp)"
proof -
  obtain reg s1 ps' where a: "vmm_add_range s space va (pg_at va n) flags = Inr (reg, s1)" and v: "v = va"
    and c: "regions_of s1 space ps'" "ranges_ok (rlist (vregions s1) ps')"
      "\<forall>g. covered (rlist (vregions s) ps) g \<inter> {va..<pg_at va n} = {}
        \<and> covered (rlist (vregions s1) ps') g = covered (rlist (vregions s) ps) g \<union> (if g = flags then {va..<pg_at va n} else {})"
    and k: "vmm_ok R s1" "mappings_kept R s s1" "free_pages s1 \<subseteq> free_pages s"
    and l: "page_loop (map_fresh_page ''vmm_alloc_at'' space flags) s1 va (va_stop (the (vregions s1 reg))) = Inr s'"
    and fr: "region_frame space (set ps \<union> {reg}) s s1"
    using vmm_alloc_at_Inr [OF ok ro so va(1-3) run] nb by metis
  have ab: "va < pg_at va n" using unat_pg_at [OF va(3)] va(2) by (simp add: word_less_nat_alt)
  have "va_stop (the (vregions s1 reg)) = pg_at va n"
    using vmm_add_range_stop [OF ok ro so ab a] nb unfolding stop_after_def by force
  note b = back_region [OF k va(3,4) perm sp fr c(1) l [unfolded this]]
  have "vspaces s' = vspaces s1" by (subst b(5)) simp
  then have "map_option page_directory (vspaces s' space) = Some (page_directory sp)"
    using fr sp(1) unfolding region_frame_def by simp
  then show ?thesis using v b(1-4) c(2,3) unfolding b(2) [symmetric] by blast
qed

text \<open>
  C3. Allocation at a given address: when \<^verbatim>\<open>vmm_alloc_at\<close> returns and no region with the same flags
  starts right behind the range, the returned address is the requested one, exactly the requested
  addresses, which no region covered before, become covered with the given flags, and every page of
  the range, unmapped before, is mapped with these flags to a page of its own that was free and no
  longer is. All other mappings of all spaces are unchanged and the invariant of the manager holds
  again.
\<close>

theorem vmm_alloc_at_backs:
  assumes ok: "vmm_ok R s" and ro: "regions_of s space ps" and so: "ranges_ok (rlist (vregions s) ps)"
    and sp: "vspaces s space = Some sp" "page_directory sp \<in> R" and perm: "unat flags < 4096"
    and va: "va \<noteq> 0" "0 < n" "unat va + 4096 * n < 2 ^ 64" "n \<le> 2 ^ 36"
    and nb: "\<forall>y \<in> set (rlist (vregions s) ps). fst y = pg_at va n \<longrightarrow> snd (snd y) \<noteq> flags"
    and run: "vmm_alloc_at s space va (of_nat n) flags = Inr (v, s')"
  shows "v = va \<and> vmm_ok R s' \<and> pages_backed R s (page_directory sp) va n flags s'
    \<and> (\<exists>ps'. regions_of s' space ps' \<and> ranges_ok (rlist (vregions s') ps')
      \<and> (\<forall>g. covered (rlist (vregions s) ps) g \<inter> {va..<pg_at va n} = {}
        \<and> covered (rlist (vregions s') ps') g = covered (rlist (vregions s) ps) g \<union> (if g = flags then {va..<pg_at va n} else {})))"
  using vmm_alloc_at_result [OF ok ro so sp perm va nb run] by blast

text \<open>Four free pages are always enough to back one.\<close>

lemma map_fresh_page_total:
  assumes inv: "mmu_inv R s" and sp: "vspaces s space = Some sp" "page_directory sp \<in> R" and perm: "unat flags < 4096"
    and free: "mmu_entry (mem s) (page_directory sp) va = 0" and room: "pmm_room s (k + 4)"
  shows "\<exists>s'. map_fresh_page func space flags s va = Inr s' \<and> pmm_room s' k"
proof -
  have "pmm_room s (Suc (k + 3))" using room by (simp add: eval_nat_numeral)
  then obtain p s1 where x: "pmm_xalloc s = Inr (p, s1)" "pmm_room s1 (k + 3)"
    using pmm_room_xalloc [OF mmu_invD(1) [OF inv]] by blast
  note xa = xalloc_mmu [OF inv x(1)]
  have sp1: "vspaces s1 space = Some sp" by (subst xa(7)) (simp add: sp(1))
  obtain old s' where m: "map_page_in s1 (page_directory sp) va p flags = Inr (old, s')" "pmm_room s' k"
    using map_page_in_total [OF xa(1) sp(2) perm x(2)] by blast
  have "old = 0" using map_page_in_ent(2) [OF xa(1) sp(2) perm m(1)] xa(2) [OF sp(2)] free by simp
  then show ?thesis using x(1) sp1 m by (simp add: map_fresh_page_def mmu_map_page_def)
qed

lemma map_fresh_pages_total:
  assumes "mmu_inv R s" and "vspaces s space = Some sp" and "page_directory sp \<in> R" and "unat flags < 4096"
    and "unat va + 4096 * n < 2 ^ 64" and "n \<le> 2 ^ 36"
    and "\<forall>i < n. mmu_entry (mem s) (page_directory sp) (pg_at va i) = 0" and "pmm_room s (4 * n)"
  shows "\<exists>s'. page_loop (map_fresh_page func space flags) s va (pg_at va n) = Inr s'"
  using assms
proof (induction n arbitrary: s va)
  case (Suc n)
  have room: "pmm_room s (4 * n + 4)" using Suc.prems(8) by (simp add: add.commute)
  have z: "mmu_entry (mem s) (page_directory sp) va = 0" using Suc.prems(7) by auto
  obtain t where t: "map_fresh_page func space flags s va = Inr t" "pmm_room t (4 * n)"
    using map_fresh_page_total [OF Suc.prems(1-4) z room] by blast
  obtain p where i: "mmu_inv R t" "t = s\<lparr>mem := mem t\<rparr>" "\<forall>r' \<in> R. \<forall>y. mmu_entry (mem t) r' y =
      (if r' = page_directory sp \<and> same_page y va then p OR flags else mmu_entry (mem s) r' y)"
    using map_fresh_page_step [OF Suc.prems(1,3,4,2) refl t(1)] by metis
  let ?va = "va + PAGE_SIZE_IN_BYTES"
  have nx: "pg_at ?va j = pg_at va (Suc j)" for j by (simp add: algebra_simps)
  have "mmu_entry (mem t) (page_directory sp) (pg_at ?va j) = 0" if "j < n" for j
  proof -
    have "\<not> same_page (pg_at va (Suc j)) (pg_at va 0)" by (rule pg_at_distinct [OF Suc.prems(5,6)]) (use that in auto)
    moreover have "mmu_entry (mem s) (page_directory sp) (pg_at va (Suc j)) = 0"
      using Suc.prems(7) that by (metis Suc_mono)
    ultimately show ?thesis using i(3) Suc.prems(3) unfolding nx by simp
  qed
  moreover have "vspaces t space = Some sp" by (subst i(2)) (simp add: Suc.prems(2))
  moreover have "unat ?va + 4096 * n < 2 ^ 64" using unat_pg_at [of va 1] Suc.prems(5) by simp
  ultimately have "\<exists>s'. page_loop (map_fresh_page func space flags) t ?va (pg_at ?va n) = Inr s'"
    using Suc.IH [of t ?va] i(1) Suc.prems(3,4,6) t(2) by simp
  then show ?case unfolding page_loop_step [OF Suc.prems(5)] t(1) by simp
qed (simp add: page_loop_done)

lemma page_loop_one: "unat va + 4096 < 2 ^ 64 \<Longrightarrow> page_loop f s va (va + PAGE_SIZE_IN_BYTES) = f s va"
  using page_loop_step [of va 0 f s] by (cases "f s va") (simp_all add: page_loop_done)

lemma vmm0_room: "pmm_room vmm0 100"
proof -
  have "bm_free (mem vmm0) bm100 = {..<100}"
  proof -
    have wf: "bm_wf bm100" using region100_ok by (simp add: region_ok_def region100_def)
    have "bm_free (mem vmm0) bm100 = bm_free ones bm100"
    proof (rule bm_raw_frame(2) [OF wf])
      fix x assume "bm_span bm100 x"
      then have "unat x < 0x2000" by (rule span100)
      then have "\<not> page_bytes root0 x" "\<not> page_bytes sblk0 x" "\<not> page_bytes rblk0 x"
        using blk0_unat by (simp_all add: page_bytes_unat root0_aligned blk0_aligned)
      then show "mem vmm0 x = ones x" by (simp add: vmm0_def ones_def)
    qed
    then show ?thesis by (simp add: bm_free_ones) (simp add: bm100_def)
  qed
  then show ?thesis unfolding pmm_room_def
    by (intro exI [of _ "[]"] exI [of _ region100]) (simp add: vmm0_pmap region100_ok(2), simp add: region100_def)
qed

text \<open>The space of \<open>vmm0\<close> after the page behind its region was allocated.\<close>

lemma vmm0_alloc:
  obtains s' where "vmm_alloc_at vmm0 sp0 0x401000 (of_nat 1) PAGE_USER_RW = Inr (0x401000, s')"
proof -
  let ?s1 = "vmm0\<lparr>vregions := (vregions vmm0)(reg0 \<mapsto> text_region\<lparr>va_stop := 0x402000\<rparr>)\<rparr>"
  have "mmu_inv {root0} ?s1" using vmm0_mmu by (simp add: mmu_inv_def pmm_inv_def off_bitmaps_def free_pages_def)
  moreover have "vspaces ?s1 sp0 = Some \<lparr>page_directory = root0, sp_region = reg0\<rparr>" by (simp add: vmm0_def)
  moreover have "mmu_entry (mem ?s1) root0 0x401000 = 0" using vmm0_unmapped by simp
  moreover have "pmm_room ?s1 (96 + 4)" using vmm0_room by (simp add: pmm_room_def)
  ultimately obtain s' where "map_fresh_page ''vmm_alloc_at'' sp0 PAGE_USER_RW ?s1 0x401000 = Inr s'"
    using map_fresh_page_total [of "{root0}" ?s1 sp0 "\<lparr>page_directory = root0, sp_region = reg0\<rparr>"
        PAGE_USER_RW "0x401000" 96 "''vmm_alloc_at''"] by (auto simp: const_defs)
  then have "page_loop (map_fresh_page ''vmm_alloc_at'' sp0 PAGE_USER_RW) ?s1 0x401000 0x402000 = Inr s'"
    using page_loop_one [of "0x401000" "map_fresh_page ''vmm_alloc_at'' sp0 PAGE_USER_RW" ?s1] by (simp add: const_defs)
  then show thesis using vmm0_extend by (intro that [of s']) (simp add: vmm_alloc_at_def const_defs objects0)
qed

theorem vmm_alloc_at_backs_witness:
  "\<exists>s' p. vmm_alloc_at vmm0 sp0 0x401000 (of_nat 1) PAGE_USER_RW = Inr (0x401000, s')
    \<and> p \<in> free_pages vmm0 - free_pages s' \<and> mmu_entry (mem s') root0 0x401000 = p OR PAGE_USER_RW"
proof -
  obtain s' where run: "vmm_alloc_at vmm0 sp0 0x401000 (of_nat 1) PAGE_USER_RW = Inr (0x401000, s')"
    by (rule vmm0_alloc)
  let ?sp = "\<lparr>page_directory = root0, sp_region = reg0\<rparr>"
  have h: "ranges_ok (rlist (vregions vmm0) [reg0])" "vspaces vmm0 sp0 = Some ?sp" "page_directory ?sp \<in> {root0}"
    "unat PAGE_USER_RW < 4096" "(0x401000 :: u64) \<noteq> 0" "0 < (1 :: nat)" "unat (0x401000 :: u64) + 4096 * 1 < 2 ^ 64"
    "(1 :: nat) \<le> 2 ^ 36"
    "\<forall>y \<in> set (rlist (vregions vmm0) [reg0]). fst y = pg_at 0x401000 1 \<longrightarrow> snd (snd y) \<noteq> PAGE_USER_RW"
    unfolding vmm0_regions(2) by (simp_all add: ranges_ok_def vmm0_def const_defs)
  from vmm_alloc_at_backs [OF vmm0_ok vmm0_regions(1) h run] run show ?thesis unfolding pages_backed_def by auto
qed

section \<open>Allocation right below a region\<close>

lemma ranges_ok_start_unique:
  assumes "ranges_ok xs" and "y \<in> set xs" and "z \<in> set xs" and "fst y = fst z"
  shows "y = z"
  using assms
proof (induction xs)
  case (Cons x xs)
  then show ?case by (fastforce simp: ranges_ok_Cons)
qed simp

text \<open>
  The loop of \<^verbatim>\<open>vmm_alloc_at\<close> runs to the end of the region that \<^verbatim>\<open>vmm_add_range\<close> returns. When a
  region with the same flags starts right behind the requested range the two are merged, and the
  loop goes on over the pages of the old region: if the first of them is mapped, the allocation
  never returns a result, however much memory is free.
\<close>

theorem vmm_alloc_at_below_region_fails:
  assumes ok: "vmm_ok R s" and ro: "regions_of s space ps" and so: "ranges_ok (rlist (vregions s) ps)"
    and sp: "vspaces s space = Some sp" "page_directory sp \<in> R" and perm: "unat flags < 4096"
    and va: "va \<noteq> 0" "0 < n" "0 < k" "unat va + 4096 * (n + k) < 2 ^ 64" "n + k \<le> 2 ^ 36"
    and nb: "(pg_at va n, pg_at va (n + k), flags) \<in> set (rlist (vregions s) ps)"
    and np: "\<forall>y \<in> set (rlist (vregions s) ps). fst (snd y) \<noteq> va"
    and mapped: "mmu_entry (mem s) (page_directory sp) (pg_at va n) \<noteq> 0"
  shows "vmm_alloc_at s space va (of_nat n) flags \<noteq> Inr (v, s')"
proof
  assume run: "vmm_alloc_at s space va (of_nat n) flags = Inr (v, s')"
  have rng: "unat va + 4096 * n < 2 ^ 64" using va(4) by simp
  obtain reg s1 where a: "vmm_add_range s space va (pg_at va n) flags = Inr (reg, s1)"
    and kk: "vmm_ok R s1" "mappings_kept R s s1"
    and l: "page_loop (map_fresh_page ''vmm_alloc_at'' space flags) s1 va (va_stop (the (vregions s1 reg))) = Inr s'"
    and fr: "region_frame space (set ps \<union> {reg}) s s1" and ro1: "\<exists>ps'. regions_of s1 space ps'"
    using vmm_alloc_at_Inr [OF ok ro so va(1,2) rng run] np by metis
  have ab: "va < pg_at va n" using unat_pg_at [OF rng] va(2) by (simp add: word_less_nat_alt)
  have "(pg_at va n, va_stop (the (vregions s1 reg)), flags) \<in> set (rlist (vregions s) ps)"
    using vmm_add_range_stop [OF ok ro so ab a] nb unfolding stop_after_def by force
  then have st: "va_stop (the (vregions s1 reg)) = pg_at va (n + k)"
    using ranges_ok_start_unique [OF so _ nb] by force
  obtain sp1 where sp1: "vspaces s1 space = Some sp1" "page_directory sp1 = page_directory sp"
    using fr sp(1) ro1 unfolding region_frame_def regions_of_def by fastforce
  obtain f where "backed R s1 (page_directory sp) va flags (n + k) f s'"
    using map_fresh_pages [OF vmm_ok_mmu [OF kk(1)] va(4,5) _ perm sp1(1)] l [unfolded st] sp1(2) sp(2) by metis
  then have "mmu_entry (mem s1) (page_directory sp) (pg_at va n) = 0"
    using backedD(8) va(3) by (metis less_add_same_cancel1)
  then show False using mapped kk(2) sp(2) by (simp add: mappings_kept_def)
qed

theorem vmm_alloc_at_below_region_fails_witness:
  "\<exists>s :: vmm_state. vmm_ok {root0} s \<and> mmu_entry (mem s) root0 0x400000 \<noteq> 0
    \<and> (\<forall>v s'. vmm_alloc_at s sp0 0x3ff000 (of_nat 1) PAGE_USER_RW \<noteq> Inr (v, s'))"
proof -
  let ?sp = "\<lparr>page_directory = root0, sp_region = reg0\<rparr>"
  have sp: "vspaces vmm0 sp0 = Some ?sp" "page_directory ?sp \<in> {root0}" "unat PAGE_USER_RW < 4096"
    by (simp_all add: vmm0_def const_defs)
  have "mmu_entry (mem vmm0) (page_directory ?sp) 0x400000 = 0" "pmm_room vmm0 (96 + 4)"
    using vmm0_unmapped vmm0_room by simp_all
  then obtain s where m: "map_fresh_page ''vmm_alloc_at'' sp0 PAGE_USER_RW vmm0 (pg_at 0x400000 0) = Inr s"
    using map_fresh_page_total [OF vmm0_mmu sp, of "0x400000" 96 "''vmm_alloc_at''"] by auto
  obtain p where b: "backed {root0} vmm0 root0 0x400000 PAGE_USER_RW (Suc 0) ((\<lambda>_. 0)(0 := p)) s"
    using backed_step [OF backed_start [OF vmm0_mmu] _ _ _ _ sp(3,1) _ m, of 1 root0] by auto
  note bd = backedD [OF b]
  have same: "vregions s = vregions vmm0" "vspaces s = vspaces vmm0" by (subst bd(2), simp)+
  have ok: "vmm_ok {root0} s" by (rule backed_vmm_ok [OF vmm0_ok b])
  have ro: "regions_of s sp0 [reg0]" using vmm0_regions(1) unfolding regions_of_def same .
  have "mmu_entry (mem s) root0 0x400000 = p OR PAGE_USER_RW" using bd(9) [of 0] by simp
  moreover have "bit (p OR PAGE_USER_RW) 0" by (simp add: bit_or_iff const_defs)
  ultimately have e: "mmu_entry (mem s) root0 0x400000 \<noteq> 0" by auto
  have h: "ranges_ok (rlist (vregions s) [reg0])" "vspaces s sp0 = Some ?sp" "(0x3ff000 :: u64) \<noteq> 0"
    "unat (0x3ff000 :: u64) + 4096 * (1 + 1) < 2 ^ 64" "(1 + 1 :: nat) \<le> 2 ^ 36"
    "(pg_at 0x3ff000 1, pg_at 0x3ff000 (1 + 1), PAGE_USER_RW) \<in> set (rlist (vregions s) [reg0])"
    "\<forall>y \<in> set (rlist (vregions s) [reg0]). fst (snd y) \<noteq> 0x3ff000"
    unfolding same vmm0_regions(2) using sp(1) by (simp_all add: ranges_ok_def const_defs)
  have "mmu_entry (mem s) (page_directory ?sp) (pg_at 0x3ff000 1) \<noteq> 0" using e by (simp add: const_defs)
  from vmm_alloc_at_below_region_fails [OF ok ro h(1,2) sp(2,3) h(3) zero_less_one zero_less_one h(4-7) this] ok e
  show ?thesis by blast
qed

end
