(* ===== verification/Gaps.thy ===== *)
theory Gaps
  imports Backing
begin

text \<open>
  Allocation between two bounds (\<^verbatim>\<open>vmm_alloc_between\<close> of \<^verbatim>\<open>kernel/mm/vmm.c\<close>, which the kernel heap
  grows with): the search for a gap in the region list, which keeps one unused page on each side of
  a new region, at the level of lists of ranges; what the allocation gives when the search starts
  above all regions that begin below the lower bound; and the case in which the search leaves the
  bounds.
\<close>

section \<open>The search for a gap\<close>

text \<open>How many regions the search passes, and the address it stops at.\<close>

fun gap_from :: "u64 \<Rightarrow> u64 \<Rightarrow> u64 \<Rightarrow> range list \<Rightarrow> nat \<times> u64" where
  "gap_from lo need va [] = (0, va)"
| "gap_from lo need va (y # ys) =
     (if lo \<le> fst (snd y) \<and> need \<le> fst y - MAX64 va lo then (0, MAX64 va lo)
      else let (k, v) = gap_from lo need (fst (snd y)) ys in (Suc k, v))"

lemma find_gap_run:
  assumes "rdll h p (as @ bs)" and "gap_from lo need va (rlist h bs) = (k, v)"
  shows "find_gap h lo need va (last (0 # as)) (hd (bs @ [0]))
    = Some (Inr (v, last (0 # as @ take k bs), hd (drop k bs @ [0])))"
  using assms
proof (induction bs arbitrary: as k va)
  case Nil
  then show ?case by (simp add: find_gap.simps)
next
  case (Cons c bs)
  obtain w where w: "h c = Some w" "c \<noteq> 0" using dll_node [OF Cons.prems(1), of c] by auto
  have nx: "vr_next w = hd (bs @ [0])" using dll_links [OF Cons.prems(1)] w(1) by auto
  have rd: "rdata (the (h c)) = (va_start w, va_stop w, vr_flags w)" using w(1) by (simp add: rdata_def)
  have step: "find_gap h lo need va (last (0 # as)) c = (if lo \<le> va_stop w \<and> need \<le> va_start w - MAX64 va lo
      then Some (Inr (MAX64 va lo, last (0 # as), c)) else find_gap h lo need (va_stop w) c (vr_next w))"
    unfolding find_gap.simps [of h lo need va _ c] using w by (auto simp: Let_def)
  show ?case
  proof (cases "lo \<le> va_stop w \<and> need \<le> va_start w - MAX64 va lo")
    case True
    then show ?thesis using Cons.prems(2) rd step by simp
  next
    case False
    obtain k' where k: "k = Suc k'" "gap_from lo need (va_stop w) (rlist h bs) = (k', v)"
      using Cons.prems(2) False rd by (auto simp: split: prod.splits if_splits)
    have d: "rdll h p ((as @ [c]) @ bs)" using Cons.prems(1) by simp
    have e: "find_gap h lo need va (last (0 # as)) c = find_gap h lo need (va_stop w) c (hd (bs @ [0]))"
      unfolding step nx using False by (rule if_not_P)
    have "find_gap h lo need (va_stop w) c (hd (bs @ [0]))
      = Some (Inr (v, last (0 # as @ take k (c # bs)), hd (drop k (c # bs) @ [0])))"
      using Cons.IH [OF d k(2)] unfolding k(1) by simp
    then show ?thesis unfolding e [symmetric] by (simp only: append_Cons list.sel)
  qed
qed

text \<open>
  When no region reaches from below the lower bound up to it, the address found lies at or above the
  end of every region passed, and the next region, if there is one, starts far enough above it.
\<close>

lemma gap_from_found:
  assumes "ranges_ok ys" and "\<forall>y \<in> set ys. lo \<le> fst (snd y) \<longrightarrow> lo \<le> fst y \<and> va \<le> fst y"
    and "gap_from lo need va ys = (k, v)"
  shows "k \<le> length ys"
    and "k < length ys \<Longrightarrow> lo \<le> v \<and> v \<le> fst (ys ! k) \<and> need \<le> fst (ys ! k) - v
      \<and> (0 < k \<longrightarrow> fst (snd (ys ! (k - 1))) \<le> v)"
    and "k = length ys \<Longrightarrow> v = (if ys = [] then va else fst (snd (last ys)))"
proof -
  have "k \<le> length ys
    \<and> (k < length ys \<longrightarrow> lo \<le> v \<and> v \<le> fst (ys ! k) \<and> need \<le> fst (ys ! k) - v
      \<and> (if k = 0 then va \<le> v else fst (snd (ys ! (k - 1))) \<le> v))
    \<and> (k = length ys \<longrightarrow> v = (if ys = [] then va else fst (snd (last ys))))"
    using assms
  proof (induction ys arbitrary: k va)
    case (Cons y ys)
    show ?case
    proof (cases "lo \<le> fst (snd y) \<and> need \<le> fst y - MAX64 va lo")
      case True
      then have k: "k = 0" "v = MAX64 va lo" using Cons.prems(3) by auto
      have "lo \<le> fst y" "va \<le> fst y" using Cons.prems(2) True by auto
      then show ?thesis using True by (auto simp: k MAX64_def)
    next
      case False
      obtain k' where k: "k = Suc k'" "gap_from lo need (fst (snd y)) ys = (k', v)"
        using Cons.prems(3) False by (auto split: prod.splits if_splits)
      have r: "ranges_ok ys" "\<forall>z \<in> set ys. fst (snd y) \<le> fst z" using Cons.prems(1) by (auto simp: ranges_ok_Cons)
      have "\<forall>z \<in> set ys. lo \<le> fst (snd z) \<longrightarrow> lo \<le> fst z \<and> fst (snd y) \<le> fst z"
        using Cons.prems(2) r(2) by auto
      note IH = Cons.IH [OF r(1) this k(2)]
      then show ?thesis by (cases k') (auto simp: k(1))
    qed
  qed simp
  then show "k \<le> length ys" and "k < length ys \<Longrightarrow> lo \<le> v \<and> v \<le> fst (ys ! k) \<and> need \<le> fst (ys ! k) - v
      \<and> (0 < k \<longrightarrow> fst (snd (ys ! (k - 1))) \<le> v)"
    and "k = length ys \<Longrightarrow> v = (if ys = [] then va else fst (snd (last ys)))"
    by auto
qed

lemma gap_from_mem: "gap_from lo need va ys = (k, v) \<Longrightarrow> v \<in> {va, lo} \<union> (fst \<circ> snd) ` set ys"
  by (induction ys arbitrary: va k) (force simp: MAX64_def split: if_splits prod.splits)+

text \<open>The range found, with the unused page on each side, does not meet its neighbours.\<close>

lemma gap_room:
  assumes so: "ranges_ok xs" and lo: "\<forall>y \<in> set xs. lo \<le> fst (snd y) \<longrightarrow> lo \<le> fst y"
    and la: "xs \<noteq> [] \<Longrightarrow> lo \<le> fst (snd (last xs))" and n: "unat lo + 4096 * (n + 2) < 2 ^ 64"
    and top: "\<forall>y \<in> set xs. unat (fst (snd y)) + 4096 * (n + 2) < 2 ^ 64"
    and g: "gap_from lo (of_nat n * PAGE_SIZE_IN_BYTES + 2 * PAGE_SIZE_IN_BYTES) lo xs = (k, v)"
  shows "lo \<le> v" and "unat v + 4096 * (n + 2) < 2 ^ 64"
    and "\<not> collides (take k xs) (drop k xs) v (pg_at v (n + 2))"
proof -
  have lo': "\<forall>y \<in> set xs. lo \<le> fst (snd y) \<longrightarrow> lo \<le> fst y \<and> lo \<le> fst y" using lo by simp
  note f = gap_from_found [OF so lo' g]
  have need: "of_nat n * PAGE_SIZE_IN_BYTES + 2 * PAGE_SIZE_IN_BYTES = (of_nat (n + 2) * PAGE_SIZE_IN_BYTES :: u64)"
    by (simp add: algebra_simps)
  have un: "unat (of_nat (n + 2) * PAGE_SIZE_IN_BYTES :: u64) = 4096 * (n + 2)"
    using n by (intro unat_of_nat_pages) simp
  have room: "unat v + 4096 * (n + 2) \<le> unat (fst (xs ! k))" if "k < length xs"
  proof -
    have "of_nat (n + 2) * PAGE_SIZE_IN_BYTES \<le> fst (xs ! k) - v" "v \<le> fst (xs ! k)" using f(2) [OF that] need by auto
    then have "4096 * (n + 2) \<le> unat (fst (xs ! k)) - unat v"
      using un by (simp add: word_le_nat_alt unat_sub_no_wrap)
    then show ?thesis using \<open>v \<le> fst (xs ! k)\<close> by (simp add: word_le_nat_alt)
  qed
  show v: "unat v + 4096 * (n + 2) < 2 ^ 64"
  proof (cases "k < length xs")
    case True
    then show ?thesis using room unat64_lt [of "fst (xs ! k)"] by simp
  next
    case False
    then have "k = length xs" using f(1) by simp
    then show ?thesis using f(3) n top by (cases "xs = []") auto
  qed
  show "lo \<le> v"
  proof (cases "k < length xs")
    case False
    then have "k = length xs" using f(1) by simp
    then show ?thesis using f(3) la by (cases "xs = []") auto
  qed (use f(2) in blast)
  have "fst (snd (last (take k xs))) \<le> v" if "take k xs \<noteq> []"
  proof -
    have k: "0 < k" "xs \<noteq> []" using that by auto
    have "last (take k xs) = xs ! (k - 1)" using f(1) k by (simp add: last_conv_nth min_def)
    then show ?thesis using f(2,3) k f(1) by (cases "k = length xs") (auto simp: last_conv_nth)
  qed
  moreover have "pg_at v (n + 2) \<le> fst (hd (drop k xs))" if "drop k xs \<noteq> []"
    using room unat_pg_at [OF v] that by (simp add: hd_drop_conv_nth word_le_nat_alt)
  ultimately show "\<not> collides (take k xs) (drop k xs) v (pg_at v (n + 2))"
    unfolding collides_def by (meson not_less)
qed

section \<open>Allocation between two bounds\<close>

lemma vmm_alloc_between_run:
  assumes ro: "regions_of s space ps"
    and g: "gap_from lo (of_nat n * PAGE_SIZE_IN_BYTES + 2 * PAGE_SIZE_IN_BYTES) lo (rlist (vregions s) ps) = (k, v)"
  shows "vmm_alloc_between s space lo up (of_nat n) flags =
    (if up \<le> pg_at v (n + 2) then Inr (0, s)
     else bindR (vmm_insert_range s space (last (0 # take k ps)) (hd (drop k ps @ [0]))
         (v + PAGE_SIZE_IN_BYTES) (pg_at (v + PAGE_SIZE_IN_BYTES) n) flags) (\<lambda>(region, s1).
       if region = 0 then Inr (0, s1)
       else bindR (deref (vregions s1) region) (\<lambda>r.
         bindR (page_loop (map_fresh_page ''vmm_alloc_between'' space flags) s1 (v + PAGE_SIZE_IN_BYTES) (va_stop r))
           (\<lambda>s2. Inr (v + PAGE_SIZE_IN_BYTES, s2)))))"
proof -
  obtain sp where sp: "vspaces s space = Some sp" "rdll (vregions s) (sp_region sp) ps"
    using ro unfolding regions_of_def by blast
  have d: "rdll (vregions s) (sp_region sp) ([] @ ps)" using sp(2) by simp
  have h: "sp_region sp = hd (ps @ [0])" by (rule dll_start [OF sp(2)])
  have f: "find_gap (vregions s) lo (of_nat n * PAGE_SIZE_IN_BYTES + 2 * PAGE_SIZE_IN_BYTES) lo 0 (sp_region sp)
      = Some (Inr (v, last (0 # take k ps), hd (drop k ps @ [0])))"
    using find_gap_run [OF d g] unfolding h by simp
  have e: "v + of_nat n * PAGE_SIZE_IN_BYTES + 2 * PAGE_SIZE_IN_BYTES = pg_at v (n + 2)" by (simp add: algebra_simps)
  show ?thesis unfolding vmm_alloc_between_def Let_def sp(1) deref_def option.case bindR.simps f ret.simps prod.case e ..
qed

lemma gap_words:
  assumes v: "unat v + 4096 * (n + 2) < 2 ^ 64" and n: "0 < n"
  defines "a \<equiv> v + PAGE_SIZE_IN_BYTES"
  shows "unat a = unat v + 4096" and "unat (pg_at v (n + 2)) = unat v + 4096 * (n + 2)"
    and "pg_at a (n + 1) = pg_at v (n + 2)" and "v < pg_at v (n + 2)"
    and "j \<le> n \<Longrightarrow> unat (pg_at a j) = unat v + 4096 * (j + 1)" and "a < pg_at a n"
proof -
  show a: "unat a = unat v + 4096" using unat_pg_at [of v 1] v by (simp add: a_def)
  show b: "unat (pg_at v (n + 2)) = unat v + 4096 * (n + 2)" by (rule unat_pg_at [OF v])
  show "pg_at a (n + 1) = pg_at v (n + 2)" by (simp add: a_def algebra_simps)
  show "v < pg_at v (n + 2)" using b by (simp add: word_less_nat_alt)
  show c: "unat (pg_at a j) = unat v + 4096 * (j + 1)" if "j \<le> n" for j
    using that a v by (subst unat_pg_at) simp_all
  show "a < pg_at a n" using a c [of n] n by (simp add: word_less_nat_alt)
qed

lemma gap_no_join:
  assumes nc: "\<not> collides xs ys v (pg_at v (n + 2))" and v: "unat v + 4096 * (n + 2) < 2 ^ 64" "0 < n"
  shows "\<not> joins_prev xs (v + PAGE_SIZE_IN_BYTES) f" and "\<not> joins_next ys (pg_at (v + PAGE_SIZE_IN_BYTES) n) f"
    and "\<not> collides xs ys (v + PAGE_SIZE_IN_BYTES) (pg_at (v + PAGE_SIZE_IN_BYTES) n)"
  using nc gap_words(1,2) [OF v] gap_words(5) [OF v, of n]
  unfolding joins_prev_def joins_next_def collides_def by (auto simp: word_less_nat_alt)

text \<open>The fields of the manager that an allocation may change.\<close>

definition vmm_frame :: "'a vmm_state_scheme \<Rightarrow> 'a vmm_state_scheme \<Rightarrow> bool" where
  "vmm_frame s s' \<longleftrightarrow> s' = s\<lparr>mem := mem s', vspaces := vspaces s', vregions := vregions s',
     vblocks := vblocks s', block_heads := block_heads s'\<rparr>"

lemma vmm_frame_mem: "vmm_frame s t \<Longrightarrow> u = t\<lparr>mem := m\<rparr> \<Longrightarrow> vmm_frame s u"
  unfolding vmm_frame_def by (cases s; cases t) simp

lemma create_region_frame:
  assumes ok: "vmm_ok R s" and ro: "regions_of s space (as @ bs)"
    and run: "vmm_create_region s space st en fl (last (0 # as)) (hd (bs @ [0])) = Inr (x, s')"
  shows "vmm_frame s s'"
proof -
  obtain bl live where inv: "vmm_inv R bl live s" "dom (vregions s) \<subseteq> live TYPE_VMM_REGION"
    using ok unfolding vmm_ok_def by blast
  obtain s1 where a: "block_alloc TYPE_VMM_REGION s = Inr (x, s1)" "x \<noteq> 0"
    and l: "link_region space x st en fl (last (0 # as)) (hd (bs @ [0])) s1 = Inr s'"
    using run by (auto simp: vmm_create_region_def bindR_Inr_iff split: if_splits)
  have res: "alloc_result R TYPE_VMM_REGION live s x s1" by (rule block_alloc_spec [OF inv(1) a(1)])
  then have fr: "alloc_frame R s s1" unfolding alloc_result_def by blast
  obtain sp where sp: "vspaces s space = Some sp" "rdll (vregions s) (sp_region sp) (as @ bs)"
    using ro unfolding regions_of_def by blast
  have "x \<notin> set (as @ bs)" using res inv(2) dll_node [OF sp(2)] unfolding alloc_result_def by blast
  moreover have "vspaces s1 space = Some sp" "rdll (vregions s1) (sp_region sp) (as @ bs)"
    using sp alloc_frame_same [OF fr] by simp_all
  ultimately have "s' = s1\<lparr>vspaces := vspaces s', vregions := vregions s'\<rparr>"
    using link_region_spec [of s1 space sp as bs x st en fl] a(2) l by auto
  moreover have "s1 = s\<lparr>mem := mem s1, vblocks := vblocks s1, block_heads := block_heads s1\<rparr>"
    using fr unfolding alloc_frame_def by blast
  ultimately obtain m v b vs vr where "s' = s\<lparr>mem := m, vblocks := v, block_heads := b, vspaces := vs, vregions := vr\<rparr>"
    by metis
  then show ?thesis unfolding vmm_frame_def by simp
qed

lemma gap_insert:
  assumes ro: "regions_of s space (as @ bs)"
    and nc: "\<not> collides (rlist (vregions s) as) (rlist (vregions s) bs) v (pg_at v (n + 2))"
    and v: "unat v + 4096 * (n + 2) < 2 ^ 64" "0 < n"
  defines "a \<equiv> v + PAGE_SIZE_IN_BYTES"
  shows "vmm_insert_range s space (last (0 # as)) (hd (bs @ [0])) a (pg_at a n) flags
    = vmm_create_region s space a (pg_at a n) flags (last (0 # as)) (hd (bs @ [0]))"
proof -
  obtain sp where "vspaces s space = Some sp" and d: "rdll (vregions s) (sp_region sp) (as @ bs)"
    using ro unfolding regions_of_def by blast
  let ?xs = "rlist (vregions s) as" and ?ys = "rlist (vregions s) bs"
  have n: "\<not> joins_prev ?xs a flags" "\<not> joins_next ?ys (pg_at a n) flags"
    "\<not> (?ys \<noteq> [] \<and> fst (hd ?ys) < pg_at a n)" "\<not> (?xs \<noteq> [] \<and> a < fst (snd (last ?xs)))"
    using gap_no_join [OF nc v] unfolding collides_def a_def by blast+
  show ?thesis unfolding vmm_insert_range_cases [OF d] using n by (simp only: if_False simp_thms)
qed

text \<open>
  The region that is inserted touches no neighbour, so it is a new one and ends where the range
  ends.
\<close>

lemma insert_in_gap:
  assumes ok: "vmm_ok R s" and ro: "regions_of s space (as @ bs)" and so: "ranges_ok (rlist (vregions s) (as @ bs))"
    and nc: "\<not> collides (rlist (vregions s) as) (rlist (vregions s) bs) v (pg_at v (n + 2))"
    and v: "unat v + 4096 * (n + 2) < 2 ^ 64" "0 < n"
    and run: "vmm_insert_range s space (last (0 # as)) (hd (bs @ [0])) (v + PAGE_SIZE_IN_BYTES)
      (pg_at (v + PAGE_SIZE_IN_BYTES) n) flags = Inr (reg, s')"
  defines "a \<equiv> v + PAGE_SIZE_IN_BYTES"
  obtains ps' r where "vmm_ok R s'" and "mappings_kept R s s'" and "free_pages s' \<subseteq> free_pages s"
    and "region_frame space (set (as @ bs) \<union> {reg}) s s'" and "regions_of s' space ps'"
    and "ranges_ok (rlist (vregions s') ps')" and "vregions s' reg = Some r" and "reg \<noteq> 0" and "va_stop r = pg_at a n"
    and "\<forall>g. covered (rlist (vregions s') ps') g = covered (rlist (vregions s) (as @ bs)) g
      \<union> (if g = flags then {a..<pg_at a n} else {})" and "vmm_frame s s'"
proof -
  let ?xs = "rlist (vregions s) as" and ?ys = "rlist (vregions s) bs" and ?b = "pg_at a n"
  have ab: "a < ?b" unfolding a_def by (rule gap_words(6) [OF v])
  note sp = vmm_insert_range_spec [OF ok ro run, folded a_def]
  have nj: "\<not> joins_prev ?xs a flags" "\<not> joins_next ?ys ?b flags"
    unfolding a_def by (rule gap_no_join [OF nc v])+
  have so': "ranges_ok (?xs @ ?ys)" using so by simp
  obtain ps' r where p: "regions_of s' space ps'" "rlist (vregions s') ps' = insert_between ?xs ?ys (a, ?b, flags)"
    "reg \<in> set ps'" "vregions s' reg = Some r" "va_start r \<le> a" "?b \<le> va_stop r" "vr_flags r = flags" "reg \<noteq> 0"
    by (rule inserted_covers [OF sp(2) so' sp(1) ab])
  have st: "va_stop r = ?b"
    using sp(2) nj(2) p(4) unfolding inserted_def by (auto simp: rdata_def merged_def split: if_splits)
  have k: "vmm_ok R s'" "mappings_kept R s s'" "free_pages s' \<subseteq> free_pages s" "region_frame space (set (as @ bs) \<union> {reg}) s s'"
    using sp(2) nj unfolding inserted_def by auto
  note ib = insert_between_ok(1,2) [OF so' ab sp(1), of flags]
  have "vmm_frame s s'" by (rule create_region_frame [OF ok ro]) (rule run [unfolded gap_insert [OF ro nc v]])
  then show thesis by (intro that [OF k p(1) _ p(4) p(8) st]) (simp_all add: p(2) ib)
qed

lemma alloc_between_result:
  assumes ok: "vmm_ok R s" and ro: "regions_of s space ps" and so: "ranges_ok (rlist (vregions s) ps)"
    and sp: "vspaces s space = Some sp" "page_directory sp \<in> R" and perm: "unat flags < 4096"
    and lo: "\<forall>y \<in> set (rlist (vregions s) ps). lo \<le> fst (snd y) \<longrightarrow> lo \<le> fst y"
    and la: "ps \<noteq> [] \<Longrightarrow> lo \<le> fst (snd (last (rlist (vregions s) ps)))"
    and n: "0 < n" "unat lo + 4096 * (n + 2) < 2 ^ 64" "n \<le> 2 ^ 36"
    and top: "\<forall>y \<in> set (rlist (vregions s) ps). unat (fst (snd y)) + 4096 * (n + 2) < 2 ^ 64"
    and run: "vmm_alloc_between s space lo up (of_nat n) flags = Inr (a, s')"
  shows "a = 0 \<and> s' = s
    \<or> (lo + PAGE_SIZE_IN_BYTES \<le> a \<and> pg_at a (n + 1) < up
      \<and> (\<forall>g. covered (rlist (vregions s) ps) g \<inter> {a - PAGE_SIZE_IN_BYTES..<pg_at a (n + 1)} = {})
      \<and> vmm_frame s s' \<and> unat a + 4096 * (n + 1) < 2 ^ 64 \<and> (a = lo + PAGE_SIZE_IN_BYTES \<or> (\<exists>y \<in> set (rlist (vregions s) ps). a = fst (snd y) + PAGE_SIZE_IN_BYTES))
      \<and> vmm_ok R s' \<and> pages_backed R s (page_directory sp) a n flags s'
      \<and> (\<exists>ps'. regions_of s' space ps' \<and> ranges_ok (rlist (vregions s') ps')
        \<and> (\<forall>g. covered (rlist (vregions s') ps') g = covered (rlist (vregions s) ps) g
            \<union> (if g = flags then {a..<pg_at a n} else {})))
      \<and> map_option page_directory (vspaces s' space) = Some (page_directory sp))"
proof -
  let ?xs = "rlist (vregions s) ps"
  obtain k v where g: "gap_from lo (of_nat n * PAGE_SIZE_IN_BYTES + 2 * PAGE_SIZE_IN_BYTES) lo ?xs = (k, v)" by fastforce
  have la': "?xs \<noteq> [] \<Longrightarrow> lo \<le> fst (snd (last ?xs))" using la by simp
  have gr: "lo \<le> v" "unat v + 4096 * (n + 2) < 2 ^ 64" "\<not> collides (take k ?xs) (drop k ?xs) v (pg_at v (n + 2))"
    by (rule gap_room [OF so lo la' n(2) top g], assumption?)+
  let ?a = "v + PAGE_SIZE_IN_BYTES"
  show ?thesis
  proof (cases "up \<le> pg_at v (n + 2)")
    case True
    then show ?thesis using run unfolding vmm_alloc_between_run [OF ro g] by simp
  next
    case False
    have tk: "rlist (vregions s) (take k ps) = take k ?xs" "rlist (vregions s) (drop k ps) = drop k ?xs"
      by (simp_all add: rlist_def take_map drop_map)
    have ro': "regions_of s space (take k ps @ drop k ps)" "ranges_ok (rlist (vregions s) (take k ps @ drop k ps))"
      using ro so by (simp_all del: rlist_append)
    obtain reg s1 where i: "vmm_insert_range s space (last (0 # take k ps)) (hd (drop k ps @ [0])) ?a (pg_at ?a n) flags = Inr (reg, s1)"
      and l: "(if reg = 0 then Inr (0, s1) else bindR (deref (vregions s1) reg) (\<lambda>r.
         bindR (page_loop (map_fresh_page ''vmm_alloc_between'' space flags) s1 ?a (va_stop r)) (\<lambda>s2. Inr (?a, s2)))) = Inr (a, s')"
      using run False unfolding vmm_alloc_between_run [OF ro g] by (auto simp: bindR_Inr_iff simp del: last.simps)
    obtain ps' r where c: "vmm_ok R s1" "mappings_kept R s s1" "free_pages s1 \<subseteq> free_pages s"
      "region_frame space (set (take k ps @ drop k ps) \<union> {reg}) s s1" "regions_of s1 space ps'"
      "ranges_ok (rlist (vregions s1) ps')" "vregions s1 reg = Some r" "reg \<noteq> 0" "va_stop r = pg_at ?a n"
      "\<forall>g. covered (rlist (vregions s1) ps') g = covered (rlist (vregions s) (take k ps @ drop k ps)) g
        \<union> (if g = flags then {?a..<pg_at ?a n} else {})" "vmm_frame s s1"
      by (rule insert_in_gap [OF ok ro' gr(3) [folded tk] gr(2) n(1) i])
    have a: "a = ?a" and l': "page_loop (map_fresh_page ''vmm_alloc_between'' space flags) s1 ?a (pg_at ?a n) = Inr s'"
      using l c(7-9) by (auto simp: bindR_Inr_iff)
    note uv = gap_words [OF gr(2) n(1)]
    have lo1: "unat (lo + PAGE_SIZE_IN_BYTES) = unat lo + 4096" using unat_pg_at [of lo 1] n(2) by simp
    have rng: "unat ?a + 4096 * n < 2 ^ 64" using uv(1) gr(2) by simp
    note b = back_region [OF c(1-3) rng n(3) perm sp c(4,5) l']
    have "covered ?xs g \<inter> {v..<pg_at v (n + 2)} = {}" for g
      using insert_between_ok(3) [OF _ uv(4) gr(3), of g] so by simp
    moreover have "lo + PAGE_SIZE_IN_BYTES \<le> ?a" using gr(1) uv(1) lo1 by (simp add: word_le_nat_alt)
    moreover have "pg_at ?a (n + 1) < up" using False uv(3) by (simp only: not_le)
    moreover have "ranges_ok (rlist (vregions s') ps')
      \<and> (\<forall>g. covered (rlist (vregions s') ps') g = covered ?xs g \<union> (if g = flags then {?a..<pg_at ?a n} else {}))"
      using c(6,10) unfolding b(2) append_take_drop_id by blast
    moreover have "vmm_frame s s'" by (rule vmm_frame_mem [OF c(11) b(5)])
    moreover have "map_option page_directory (vspaces s' space) = Some (page_directory sp)"
      using c(4) sp(1) unfolding region_frame_def by (subst b(5)) simp
    moreover have "unat ?a + 4096 * (n + 1) < 2 ^ 64" using uv(1) gr(2) by simp
    moreover have "v = lo \<or> (\<exists>y \<in> set ?xs. v = fst (snd y))" using gap_from_mem [OF g] by auto
    ultimately show ?thesis using b(1,3,4) unfolding a uv(3) add_diff_cancel_right' by blast
  qed
qed

text \<open>
  C4. Allocation between two bounds, under two conditions on the lower bound that the code does not
  check: no region reaches from below it up to it or beyond, and the last region does not end below it
  (otherwise the result may lie outside the bounds). The searched sizes must not wrap around. Then,
  when \<^verbatim>\<open>vmm_alloc_between\<close> returns, it either
  returns the null address and has changed nothing, or the address of a range inside the bounds
  that no region covered, with an uncovered page before and after it; the range is covered with the
  given flags, every page of it is backed by a page of its own, nothing else changed and the
  invariant holds again.
\<close>

theorem vmm_alloc_between_guarded:
  assumes ok: "vmm_ok R s" and ro: "regions_of s space ps" and so: "ranges_ok (rlist (vregions s) ps)"
    and sp: "vspaces s space = Some sp" "page_directory sp \<in> R" and perm: "unat flags < 4096"
    and lo: "\<forall>y \<in> set (rlist (vregions s) ps). lo \<le> fst (snd y) \<longrightarrow> lo \<le> fst y"
    and la: "ps \<noteq> [] \<Longrightarrow> lo \<le> fst (snd (last (rlist (vregions s) ps)))"
    and n: "0 < n" "unat lo + 4096 * (n + 2) < 2 ^ 64" "n \<le> 2 ^ 36"
    and top: "\<forall>y \<in> set (rlist (vregions s) ps). unat (fst (snd y)) + 4096 * (n + 2) < 2 ^ 64"
    and run: "vmm_alloc_between s space lo up (of_nat n) flags = Inr (a, s')"
  shows "a = 0 \<and> s' = s
    \<or> (lo + PAGE_SIZE_IN_BYTES \<le> a \<and> pg_at a (n + 1) < up
      \<and> (\<forall>g. covered (rlist (vregions s) ps) g \<inter> {a - PAGE_SIZE_IN_BYTES..<pg_at a (n + 1)} = {})
      \<and> vmm_ok R s' \<and> pages_backed R s (page_directory sp) a n flags s'
      \<and> (\<exists>ps'. regions_of s' space ps' \<and> ranges_ok (rlist (vregions s') ps')
        \<and> (\<forall>g. covered (rlist (vregions s') ps') g = covered (rlist (vregions s) ps) g
            \<union> (if g = flags then {a..<pg_at a n} else {}))))"
  using alloc_between_result [OF ok ro so sp perm lo la n top run] by blast

section \<open>When the allocation returns\<close>

text \<open>The first block of region objects has a free slot.\<close>

definition has_slot :: "struct_type \<Rightarrow> 'a vmm_state_scheme \<Rightarrow> bool" where
  "has_slot ty s \<longleftrightarrow> block_heads s ty \<noteq> 0
     \<and> (\<exists>b. vblocks s (block_heads s ty) = Some b \<and> bm_free (mem s) (vb_bm b) \<noteq> {})"

lemma head_block:
  assumes "vmm_inv R bs live s" and "block_heads s ty \<noteq> 0"
  shows "block_heads s ty \<in> set (bs ty)"
  using dll_start [OF objs_okD(1) [OF vmm_invD(2) [OF assms(1), of ty]]] assms(2) by (cases "bs ty") auto

lemma block_alloc_found:
  assumes inv: "vmm_inv R bs live s" and hs: "has_slot ty s"
  obtains p m v where "block_alloc ty s = Inr (p, s\<lparr>mem := m, vblocks := v\<rparr>)"
    and "\<forall>x. \<not> page_bytes (block_heads s ty) x \<longrightarrow> m x = mem s x" and "block_heads s ty \<in> set (bs ty)"
    and "\<forall>a. a \<noteq> block_heads s ty \<longrightarrow> v a = vblocks s a"
proof -
  let ?h = "block_heads s ty"
  note ok = vmm_invD(2) [OF inv, of ty]
  obtain b where b: "vblocks s ?h = Some b" "bm_free (mem s) (vb_bm b) \<noteq> {}" "?h \<noteq> 0"
    using hs unfolding has_slot_def by blast
  have h: "?h \<in> set (bs ty)" by (rule head_block [OF inv b(3)])
  have bm: "vb_bm b = blk_bm ty ?h" using objs_okD(2) [OF ok h] b(1) by (auto simp: block_ok_def)
  have wf: "bm_wf (vb_bm b)" unfolding bm by (rule blk_bm_wf(1))
  obtain j m where f: "bitmap_find_and_set (mem s) (vb_bm b) = Inr (j, m)"
    using bmap.take_ok [of "(mem s, vb_bm b)"] wf b(2) by (auto simp: bm_take_def bindR_Inr_iff)
  note fs = find_and_set_Inr [OF wf f]
  have "j \<noteq> bm_len (vb_bm b)" using fs(4) b(2) by simp
  then have "block_alloc ty s = Inr (vb_objects b + j * vb_object_size b,
      s\<lparr>mem := m, vblocks := (vblocks s)(?h \<mapsto> b\<lparr>vb_nb_used := vb_nb_used b + 1\<rparr>)\<rparr>)"
    using b(1,3) f by (simp add: block_alloc_def block_alloc_from.simps [of ty s])
  moreover have "m x = mem s x" if "\<not> page_bytes ?h x" for x
    using fs(5) that blk_span_page [OF vmm_invD(5) [OF inv h]] unfolding bm by blast
  ultimately show thesis using that [where m = m and v = "(vblocks s)(?h \<mapsto> b\<lparr>vb_nb_used := vb_nb_used b + 1\<rparr>)"] h by simp
qed

lemma create_region_total:
  assumes ok: "vmm_ok R s" and ro: "regions_of s space (as @ bs)" and hs: "has_slot TYPE_VMM_REGION s"
    and room: "pmm_room s k"
  shows "\<exists>x s'. vmm_create_region s space st en fl (last (0 # as)) (hd (bs @ [0])) = Inr (x, s') \<and> pmm_room s' k"
proof -
  obtain bl live where inv: "vmm_inv R bl live s" "dom (vregions s) \<subseteq> live TYPE_VMM_REGION"
    using ok unfolding vmm_ok_def by blast
  obtain p m v where a: "block_alloc TYPE_VMM_REGION s = Inr (p, s\<lparr>mem := m, vblocks := v\<rparr>)"
    and eq: "\<forall>x. \<not> page_bytes (block_heads s TYPE_VMM_REGION) x \<longrightarrow> m x = mem s x"
    and h: "block_heads s TYPE_VMM_REGION \<in> set (bl TYPE_VMM_REGION)"
    by (rule block_alloc_found [OF inv(1) hs])
  let ?s1 = "s\<lparr>mem := m, vblocks := v\<rparr>"
  have res: "alloc_result R TYPE_VMM_REGION live s p ?s1" by (rule block_alloc_spec [OF inv(1) a])
  obtain sp where sp: "vspaces s space = Some sp" "rdll (vregions s) (sp_region sp) (as @ bs)"
    using ro unfolding regions_of_def by blast
  have p: "p \<noteq> 0" "p \<notin> set (as @ bs)"
    using res inv(2) dll_node [OF sp(2)] unfolding alloc_result_def by blast+
  have sp1: "vspaces ?s1 space = Some sp" "rdll (vregions ?s1) (sp_region sp) (as @ bs)" using sp by simp_all
  obtain s2 where s2: "link_region space p st en fl (last (0 # as)) (hd (bs @ [0])) ?s1 = Inr s2"
    "s2 = ?s1\<lparr>vspaces := vspaces s2, vregions := vregions s2\<rparr>"
    using link_region_spec [OF sp1 p(2,1), of st en fl] by (elim exE conjE) (rule that)
  have "pmm_room (s\<lparr>mem := m\<rparr>) k"
  proof (rule pmm_room_frame [OF mmu_invD(1) [OF vmm_invD(1) [OF inv(1)]] _ room])
    fix x assume "\<not> outside_bitmaps (pmap s) x"
    then show "m x = mem s x" using eq vmm_invD(4) [OF inv(1) h] unfolding off_bitmaps_def by blast
  qed
  then have "pmm_room s2 k" by (subst s2(2)) (simp add: pmm_room_def)
  then show ?thesis using a p(1) s2(1) by (simp add: vmm_create_region_def del: last.simps)
qed

lemma insert_in_gap_total:
  assumes ok: "vmm_ok R s" and ro: "regions_of s space (as @ bs)" and so: "ranges_ok (rlist (vregions s) (as @ bs))"
    and nc: "\<not> collides (rlist (vregions s) as) (rlist (vregions s) bs) v (pg_at v (n + 2))"
    and v: "unat v + 4096 * (n + 2) < 2 ^ 64" "0 < n" and hs: "has_slot TYPE_VMM_REGION s" and room: "pmm_room s k"
  shows "\<exists>x s'. vmm_insert_range s space (last (0 # as)) (hd (bs @ [0])) (v + PAGE_SIZE_IN_BYTES)
      (pg_at (v + PAGE_SIZE_IN_BYTES) n) flags = Inr (x, s') \<and> pmm_room s' k"
proof -
  show ?thesis unfolding gap_insert [OF ro nc v] by (rule create_region_total [OF ok ro hs room])
qed

text \<open>Once the gap is known, nothing else can fail.\<close>

lemma alloc_between_total:
  assumes ok: "vmm_ok R s" and ro: "regions_of s space ps" and so: "ranges_ok (rlist (vregions s) ps)"
    and sp: "vspaces s space = Some sp" "page_directory sp \<in> R" and perm: "unat flags < 4096" and n: "0 < n" "n \<le> 2 ^ 36"
    and g: "gap_from lo (of_nat n * PAGE_SIZE_IN_BYTES + 2 * PAGE_SIZE_IN_BYTES) lo (rlist (vregions s) ps) = (k, v)"
    and v: "unat v + 4096 * (n + 2) < 2 ^ 64"
    and gap: "\<not> collides (take k (rlist (vregions s) ps)) (drop k (rlist (vregions s) ps)) v (pg_at v (n + 2))"
    and hs: "has_slot TYPE_VMM_REGION s" and room: "pmm_room s (4 * n)"
    and un: "\<forall>x \<in> {v..<pg_at v (n + 2)}. (\<forall>g. x \<notin> covered (rlist (vregions s) ps) g) \<longrightarrow> mmu_entry (mem s) (page_directory sp) x = 0"
  shows "\<exists>s'. vmm_alloc_between s space lo up (of_nat n) flags =
    (if up \<le> pg_at v (n + 2) then Inr (0, s) else Inr (v + PAGE_SIZE_IN_BYTES, s'))"
proof -
  let ?xs = "rlist (vregions s) ps"
  let ?a = "v + PAGE_SIZE_IN_BYTES" and ?as = "take k ps" and ?bs = "drop k ps"
  note uv = gap_words [OF v n(1)]
  have nc: "\<not> collides (rlist (vregions s) ?as) (rlist (vregions s) ?bs) v (pg_at v (n + 2))"
    using gap by (simp add: rlist_def take_map drop_map)
  have ro': "regions_of s space (?as @ ?bs)" "ranges_ok (rlist (vregions s) (?as @ ?bs))"
    using ro so by (simp_all del: rlist_append)
  obtain x s1 where c: "vmm_insert_range s space (last (0 # ?as)) (hd (?bs @ [0])) ?a (pg_at ?a n) flags = Inr (x, s1)"
    "pmm_room s1 (4 * n)"
    using insert_in_gap_total [OF ok ro' nc v n(1) hs room] by blast
  obtain ps' r where i: "vmm_ok R s1" "mappings_kept R s s1" "free_pages s1 \<subseteq> free_pages s"
      "region_frame space (set (?as @ ?bs) \<union> {x}) s s1" "regions_of s1 space ps'"
      "ranges_ok (rlist (vregions s1) ps')" "vregions s1 x = Some r" "x \<noteq> 0" "va_stop r = pg_at ?a n"
      "\<forall>g. covered (rlist (vregions s1) ps') g = covered (rlist (vregions s) (?as @ ?bs)) g
        \<union> (if g = flags then {?a..<pg_at ?a n} else {})" "vmm_frame s s1"
    by (rule insert_in_gap [OF ok ro' nc v n(1) c(1)])
  obtain sp1 where sp1: "vspaces s1 space = Some sp1" "page_directory sp1 = page_directory sp"
    using i(4,5) sp(1) unfolding region_frame_def regions_of_def by fastforce
  have "mmu_entry (mem s) (page_directory sp) (pg_at ?a j) = 0" if "j < n" for j
  proof -
    have in_gap: "pg_at ?a j \<in> {v..<pg_at v (n + 2)}" using uv(5) [OF less_imp_le [OF that]] uv(2) that by (simp add: word_le_nat_alt word_less_nat_alt)
    have "covered ?xs g \<inter> {v..<pg_at v (n + 2)} = {}" for g
      using insert_between_ok(3) [OF _ uv(4) gap, of g] so by simp
    then have "pg_at ?a j \<notin> covered ?xs g" for g using in_gap by blast
    then show ?thesis using un in_gap by blast
  qed
  then have "\<forall>j < n. mmu_entry (mem s1) (page_directory sp1) (pg_at ?a j) = 0"
    using i(2) sp(2) sp1(2) by (simp add: mappings_kept_def)
  moreover have "unat ?a + 4096 * n < 2 ^ 64" using uv(1) v by simp
  ultimately obtain s2 where l: "page_loop (map_fresh_page ''vmm_alloc_between'' space flags) s1 ?a (pg_at ?a n) = Inr s2"
    using map_fresh_pages_total [OF vmm_ok_mmu [OF i(1)] sp1(1) _ perm _ n(2) _ c(2)] sp1(2) sp(2) by metis
  show ?thesis unfolding vmm_alloc_between_run [OF ro g] c(1) bindR.simps prod.case
    using i(7-9) l by (simp add: deref_def)
qed

text \<open>
  C28. The allocation between two bounds returns when all of the following hold: no region reaches from
  below the lower bound up to it or beyond, the last region does not end below it, the searched sizes do not
  wrap around, the first block of region objects has a free slot, four pages are free per requested
  page, and addresses between the bounds that no region covers are not mapped (the code panics on a
  page that is mapped already). The address is then not null exactly if the gap the search finds,
  with its two unused pages, ends below the upper bound.
\<close>

theorem vmm_alloc_between_returns:
  assumes ok: "vmm_ok R s" and ro: "regions_of s space ps" and so: "ranges_ok (rlist (vregions s) ps)"
    and sp: "vspaces s space = Some sp" "page_directory sp \<in> R" and perm: "unat flags < 4096"
    and lo: "\<forall>y \<in> set (rlist (vregions s) ps). lo \<le> fst (snd y) \<longrightarrow> lo \<le> fst y"
    and la: "ps \<noteq> [] \<Longrightarrow> lo \<le> fst (snd (last (rlist (vregions s) ps)))"
    and n: "0 < n" "unat lo + 4096 * (n + 2) < 2 ^ 64" "n \<le> 2 ^ 36"
    and top: "\<forall>y \<in> set (rlist (vregions s) ps). unat (fst (snd y)) + 4096 * (n + 2) < 2 ^ 64"
    and hs: "has_slot TYPE_VMM_REGION s" and room: "pmm_room s (4 * n)"
    and un: "\<forall>x \<in> {lo..<up}. (\<forall>g. x \<notin> covered (rlist (vregions s) ps) g) \<longrightarrow> mmu_entry (mem s) (page_directory sp) x = 0"
  shows "\<exists>a s'. vmm_alloc_between s space lo up (of_nat n) flags = Inr (a, s')
    \<and> (a \<noteq> 0 \<longleftrightarrow> pg_at (snd (gap_from lo (of_nat (n + 2) * PAGE_SIZE_IN_BYTES) lo (rlist (vregions s) ps))) (n + 2) < up)"
proof -
  let ?xs = "rlist (vregions s) ps"
  have need: "of_nat n * PAGE_SIZE_IN_BYTES + 2 * PAGE_SIZE_IN_BYTES = (of_nat (n + 2) * PAGE_SIZE_IN_BYTES :: u64)"
    by (simp add: algebra_simps)
  obtain k v where g: "gap_from lo (of_nat n * PAGE_SIZE_IN_BYTES + 2 * PAGE_SIZE_IN_BYTES) lo ?xs = (k, v)" by fastforce
  have la': "?xs \<noteq> [] \<Longrightarrow> lo \<le> fst (snd (last ?xs))" using la by simp
  have gr: "lo \<le> v" "unat v + 4096 * (n + 2) < 2 ^ 64" "\<not> collides (take k ?xs) (drop k ?xs) v (pg_at v (n + 2))"
    by (rule gap_room [OF so lo la' n(2) top g], assumption?)+
  have gv: "snd (gap_from lo (of_nat (n + 2) * PAGE_SIZE_IN_BYTES) lo ?xs) = v" unfolding need [symmetric] g by simp
  have nz: "v + PAGE_SIZE_IN_BYTES \<noteq> 0" using gap_words(1) [OF gr(2) n(1)] by auto
  show ?thesis unfolding gv
  proof (cases "up \<le> pg_at v (n + 2)")
    case True
    then show "\<exists>a s'. vmm_alloc_between s space lo up (of_nat n) flags = Inr (a, s') \<and> (a \<noteq> 0 \<longleftrightarrow> pg_at v (n + 2) < up)"
      unfolding vmm_alloc_between_run [OF ro g] by (simp add: not_less)
  next
    case False
    then have "{v..<pg_at v (n + 2)} \<subseteq> {lo..<up}" using gr(1) by (auto simp: not_le)
    then have "\<forall>x \<in> {v..<pg_at v (n + 2)}. (\<forall>g. x \<notin> covered ?xs g) \<longrightarrow> mmu_entry (mem s) (page_directory sp) x = 0"
      using un by blast
    from alloc_between_total [OF ok ro so sp perm n(1,3) g gr(2,3) hs room this, of up] False
    show "\<exists>a s'. vmm_alloc_between s space lo up (of_nat n) flags = Inr (a, s') \<and> (a \<noteq> 0 \<longleftrightarrow> pg_at v (n + 2) < up)"
      using nz by (auto simp: not_le)
  qed
qed

section \<open>An example and the case outside the bounds\<close>

text \<open>\<open>vmm0\<close> with the first eight slots of its block of region objects free.\<close>

definition vmm1 :: vmm_state where
  "vmm1 = vmm0\<lparr>mem := (mem vmm0)(rblk0 + 3999 := 0xff)\<rparr>"

lemma vmm1_byte: "page_bytes rblk0 (rblk0 + 3999)"
  by (simp add: page_bytes_def)

lemma vmm1_cell: "load64 (mem vmm1) (rblk0 + 3992) = 0xff00000000000000"
proof -
  have z: "mem vmm0 (rblk0 + 3992 + k) = 0" if "k < 8" for k
  proof -
    have "unat k < 8" using that by (simp add: word_less_nat_alt)
    then have "page_bytes rblk0 (rblk0 + 3992 + k)"
      using unat_add_no_wrap [of 3992 k] by (simp add: page_bytes_def word_less_nat_alt add.assoc)
    then show ?thesis by (simp add: vmm0_def)
  qed
  show ?thesis
    using z [of 0] z [of 1] z [of 2] z [of 3] z [of 4] z [of 5] z [of 6] by (simp add: load64_def vmm1_def add.assoc)
qed

lemma vmm1_slots: "bm_bit (mem vmm1) (blk_bm TYPE_VMM_REGION rblk0) 0"
    "\<not> bm_bit (mem vmm1) (blk_bm TYPE_VMM_REGION rblk0) 33"
proof -
  have c: "bm_cell (blk_bm TYPE_VMM_REGION rblk0) 0 = rblk0 + 3992"
    by (simp add: bm_cell_def blk_bm_def max_objs_def)
  show "bm_bit (mem vmm1) (blk_bm TYPE_VMM_REGION rblk0) 0" "\<not> bm_bit (mem vmm1) (blk_bm TYPE_VMM_REGION rblk0) 33"
    by (simp_all add: bm_bit_def c vmm1_cell)
qed

lemma vmm1_inv: "vmm_inv {root0} vblocks0 vlive0 vmm1" and vmm1_entry: "mmu_entry (mem vmm1) root0 va = 0"
proof -
  have r: "rblk0 \<in> set (vblocks0 TYPE_VMM_REGION)" by (simp add: vblocks0_def)
  have eq: "((mem vmm0)(rblk0 + 3999 := 0xff)) x = mem vmm0 x" if "\<not> bm_span (blk_bm TYPE_VMM_REGION rblk0) x" for x
    using that by (auto simp: bm_span_def blk_bm_def max_objs_def BITMAP_SIZE_IN_BLOCK_def)
  have keep: "j \<notin> bm_free ((mem vmm0)(rblk0 + 3999 := 0xff)) (blk_bm TYPE_VMM_REGION rblk0)"
    if "j < max_objs TYPE_VMM_REGION" "slot TYPE_VMM_REGION rblk0 j \<in> vlive0 TYPE_VMM_REGION" for j
  proof -
    have "slot TYPE_VMM_REGION rblk0 j = slot TYPE_VMM_REGION rblk0 33" using that(2) by (simp add: vlive0_def reg0_def)
    moreover have "33 < max_objs TYPE_VMM_REGION" by (simp add: max_objs_def)
    ultimately have "j = 33" using slot_inj [OF blk0_aligned(2,2) that(1)] by blast
    then show ?thesis using vmm1_slots(2) by (simp add: bm_free_def vmm1_def)
  qed
  show "vmm_inv {root0} vblocks0 vlive0 vmm1" unfolding vmm1_def by (rule vmm_inv_keep(1) [OF vmm0_inv r eq keep])
  have "mmu_entry ((mem vmm0)(rblk0 + 3999 := 0xff)) root0 va = mmu_entry (mem vmm0) root0 va"
    by (rule vmm_inv_keep(2) [OF vmm0_inv r eq keep]) simp_all
  then show "mmu_entry (mem vmm1) root0 va = 0" using vmm0_unmapped by (simp add: vmm1_def)
qed

lemma vmm1_ok: "vmm_ok {root0} vmm1"
  using vmm1_inv vmm0_live unfolding vmm_ok_def by (auto simp: vmm1_def)

lemma vmm1_regions: "regions_of vmm1 sp0 [reg0]" "rlist (vregions vmm1) [reg0] = [(0x400000, 0x401000, PAGE_USER_RW)]"
    "vspaces vmm1 sp0 = Some \<lparr>page_directory = root0, sp_region = reg0\<rparr>"
  using vmm0_regions by (simp_all add: regions_of_def vmm1_def) (simp add: vmm0_def)

lemma vmm1_has_slot: "has_slot TYPE_VMM_REGION vmm1"
proof -
  have "0 \<in> bm_free (mem vmm1) (blk_bm TYPE_VMM_REGION rblk0)"
    using vmm1_slots(1) by (simp add: bm_free_def blk_bm_def max_objs_def)
  moreover have "block_heads vmm1 TYPE_VMM_REGION = rblk0" "rblk0 \<noteq> 0"
    "vblocks vmm1 rblk0 = Some (full_block TYPE_VMM_REGION rblk0)"
    by (simp_all add: vmm1_def vmm0_def objects0)
  ultimately show ?thesis unfolding has_slot_def by (auto simp: full_block_def)
qed

lemma vmm1_room: "pmm_room vmm1 100"
  unfolding vmm1_def
proof (rule pmm_room_frame [OF _ _ vmm0_room])
  show "pmm_inv vmm0" using mmu_invD(1) [OF vmm0_mmu] .
  fix x assume x: "\<not> outside_bitmaps (pmap vmm0) x"
  have "off_bitmaps vmm0 rblk0" using vmm_invD(4) [OF vmm0_inv, of rblk0 TYPE_VMM_REGION] by (simp add: vblocks0_def)
  then have "x \<noteq> rblk0 + 3999" using x vmm1_byte unfolding off_bitmaps_def by blast
  then show "((mem vmm0)(rblk0 + 3999 := 0xff)) x = mem vmm0 x" by simp
qed

text \<open>Every address is unmapped in \<open>vmm1\<close>; what the search finds from two different lower bounds.\<close>

lemma vmm1_gap:
  "gap_from 0x400000 (of_nat 1 * PAGE_SIZE_IN_BYTES + 2 * PAGE_SIZE_IN_BYTES) 0x400000 (rlist (vregions vmm1) [reg0]) = (1, 0x401000)"
  "gap_from 0x10000000 (of_nat 1 * PAGE_SIZE_IN_BYTES + 2 * PAGE_SIZE_IN_BYTES) 0x10000000 (rlist (vregions vmm1) [reg0]) = (1, 0x401000)"
  unfolding vmm1_regions(2) by (simp_all add: MAX64_def const_defs)

lemma vmm1_hyps:
  "ranges_ok (rlist (vregions vmm1) [reg0])" "page_directory \<lparr>page_directory = root0, sp_region = reg0\<rparr> \<in> {root0}"
  "unat PAGE_USER_RW < 4096" "pmm_room vmm1 (4 * 1)"
  "\<forall>x \<in> S. (\<forall>g. x \<notin> covered (rlist (vregions vmm1) [reg0]) g) \<longrightarrow>
    mmu_entry (mem vmm1) (page_directory \<lparr>page_directory = root0, sp_region = reg0\<rparr>) x = 0"
  unfolding vmm1_regions(2) using pmm_room_mono [OF vmm1_room, of 4]
  by (simp_all add: ranges_ok_def const_defs vmm1_entry)

lemma vmm1_alloc:
  assumes "lo = 0x400000 \<or> lo = 0x10000000"
  obtains s' where "vmm_alloc_between vmm1 sp0 lo 0x20000000 (of_nat 1) PAGE_USER_RW = Inr (0x402000, s')"
proof -
  have g: "gap_from lo (of_nat 1 * PAGE_SIZE_IN_BYTES + 2 * PAGE_SIZE_IN_BYTES) lo (rlist (vregions vmm1) [reg0]) = (1, 0x401000)"
    using assms vmm1_gap by blast
  have v: "unat (0x401000 :: u64) + 4096 * (1 + 2) < 2 ^ 64" "(0 :: nat) < 1" "(1 :: nat) \<le> 2 ^ 36" by simp_all
  have c: "\<not> collides (take 1 (rlist (vregions vmm1) [reg0])) (drop 1 (rlist (vregions vmm1) [reg0])) 0x401000 (pg_at 0x401000 (1 + 2))"
    unfolding vmm1_regions(2) by (simp add: collides_def)
  from alloc_between_total [OF vmm1_ok vmm1_regions(1) vmm1_hyps(1) vmm1_regions(3) vmm1_hyps(2,3) v(2,3) g v(1) c
      vmm1_has_slot vmm1_hyps(4,5), of "0x20000000"]
  show thesis using that by (auto simp: const_defs)
qed

theorem vmm_alloc_between_returns_witness:
  "\<exists>a s'. vmm_alloc_between vmm1 sp0 0x400000 0x20000000 (of_nat 1) PAGE_USER_RW = Inr (a, s') \<and> a \<noteq> 0"
proof -
  let ?xs = "rlist (vregions vmm1) [reg0]"
  have h: "\<forall>y \<in> set ?xs. 0x400000 \<le> fst (snd y) \<longrightarrow> 0x400000 \<le> fst y" "0x400000 \<le> fst (snd (last ?xs))"
    "(0 :: nat) < 1" "unat (0x400000 :: u64) + 4096 * (1 + 2) < 2 ^ 64" "(1 :: nat) \<le> 2 ^ 36"
    "\<forall>y \<in> set ?xs. unat (fst (snd y)) + 4096 * (1 + 2) < 2 ^ 64"
    unfolding vmm1_regions(2) by simp_all
  have e: "(of_nat (1 + 2) * PAGE_SIZE_IN_BYTES :: u64) = of_nat 1 * PAGE_SIZE_IN_BYTES + 2 * PAGE_SIZE_IN_BYTES"
    by (simp add: const_defs)
  have "snd (gap_from 0x400000 (of_nat (1 + 2) * PAGE_SIZE_IN_BYTES) 0x400000 ?xs) = 0x401000" unfolding e vmm1_gap(1) by simp
  then show ?thesis
    using vmm_alloc_between_returns [OF vmm1_ok vmm1_regions(1) vmm1_hyps(1) vmm1_regions(3) vmm1_hyps(2,3) h
        vmm1_has_slot vmm1_hyps(4,5), of "0x20000000"] by (auto simp: const_defs)
qed

theorem vmm_alloc_between_guarded_witness:
  "\<exists>s'. vmm_alloc_between vmm1 sp0 0x400000 0x20000000 (of_nat 1) PAGE_USER_RW = Inr (0x402000, s')
    \<and> pages_backed {root0} vmm1 root0 0x402000 1 PAGE_USER_RW s'"
proof -
  let ?xs = "rlist (vregions vmm1) [reg0]"
  obtain s' where run: "vmm_alloc_between vmm1 sp0 0x400000 0x20000000 (of_nat 1) PAGE_USER_RW = Inr (0x402000, s')"
    by (rule vmm1_alloc) auto
  have h: "\<forall>y \<in> set ?xs. 0x400000 \<le> fst (snd y) \<longrightarrow> 0x400000 \<le> fst y" "0x400000 \<le> fst (snd (last ?xs))"
    "(0 :: nat) < 1" "unat (0x400000 :: u64) + 4096 * (1 + 2) < 2 ^ 64" "(1 :: nat) \<le> 2 ^ 36"
    "\<forall>y \<in> set ?xs. unat (fst (snd y)) + 4096 * (1 + 2) < 2 ^ 64"
    unfolding vmm1_regions(2) by simp_all
  from vmm_alloc_between_guarded [OF vmm1_ok vmm1_regions(1) vmm1_hyps(1) vmm1_regions(3) vmm1_hyps(2,3) h run] run
  show ?thesis by auto
qed

text \<open>A search that passes only regions below the lower bound ends behind the last of them.\<close>

lemma gap_from_below:
  "\<forall>y \<in> set ys. fst (snd y) < lo \<Longrightarrow>
    gap_from lo need va ys = (length ys, if ys = [] then va else fst (snd (last ys)))"
  by (induction ys arbitrary: va) (auto simp: not_le)

text \<open>
  C29. The lower bound is applied only when a region that ends above it is met. When all regions of
  the space end below the lower bound, every address that \<^verbatim>\<open>vmm_alloc_between\<close> returns lies one page
  behind the last region and, if that region ends more than a page below the bound, outside the
  requested bounds.
\<close>

theorem vmm_alloc_between_leaves_bounds:
  assumes ro: "regions_of s space ps" and ne: "ps \<noteq> []"
    and below: "\<forall>y \<in> set (rlist (vregions s) ps). fst (snd y) < lo"
    and far: "unat (fst (snd (last (rlist (vregions s) ps)))) + 4096 < unat lo"
    and run: "vmm_alloc_between s space lo up (of_nat n) flags = Inr (a, s')" and a: "a \<noteq> 0"
  shows "a = fst (snd (last (rlist (vregions s) ps))) + PAGE_SIZE_IN_BYTES \<and> a < lo"
proof -
  let ?v = "fst (snd (last (rlist (vregions s) ps)))"
  have g: "gap_from lo (of_nat n * PAGE_SIZE_IN_BYTES + 2 * PAGE_SIZE_IN_BYTES) lo (rlist (vregions s) ps) = (length ps, ?v)"
    using gap_from_below [OF below] ne by simp
  have "a = ?v + PAGE_SIZE_IN_BYTES"
    using run a unfolding vmm_alloc_between_run [OF ro g] by (auto simp: bindR_Inr_iff split: if_splits)
  moreover have "unat (?v + PAGE_SIZE_IN_BYTES) = unat ?v + 4096"
    using unat_pg_at [of ?v 1] far unat64_lt [of lo] by simp
  ultimately show ?thesis using far by (simp add: word_less_nat_alt)
qed

theorem vmm_alloc_between_leaves_bounds_witness:
  "\<exists>a s'. vmm_alloc_between vmm1 sp0 0x10000000 0x20000000 (of_nat 1) PAGE_USER_RW = Inr (a, s') \<and> a \<noteq> 0 \<and> a < 0x10000000"
proof -
  obtain s' where run: "vmm_alloc_between vmm1 sp0 0x10000000 0x20000000 (of_nat 1) PAGE_USER_RW = Inr (0x402000, s')"
    by (rule vmm1_alloc [of "0x10000000"]) auto
  have h: "[reg0] \<noteq> []" "\<forall>y \<in> set (rlist (vregions vmm1) [reg0]). fst (snd y) < 0x10000000"
    "unat (fst (snd (last (rlist (vregions vmm1) [reg0])))) + 4096 < unat (0x10000000 :: u64)"
    unfolding vmm1_regions(2) by simp_all
  have "(0x402000 :: u64) \<noteq> 0" by simp
  from vmm_alloc_between_leaves_bounds [OF vmm1_regions(1) h run this] run show ?thesis by auto
qed

end
