(* ===== verification/Spaces.thy ===== *)
theory Spaces
  imports Gaps
begin

text \<open>
  Address spaces as their users see them (\<^verbatim>\<open>vmm_create_space\<close>, \<^verbatim>\<open>vmm_alloc_at\<close>, \<^verbatim>\<open>vmm_alloc_between\<close> and
  \<^verbatim>\<open>vmm_free\<close> of \<^verbatim>\<open>kernel/mm/vmm.c\<close>). A space is well typed when its region list and its page tables
  agree: every covered address is mapped with the flags of its region to a page of its own, and no
  other address is mapped. A new space is well typed and every allocation keeps it so.
\<close>

section \<open>Creating a space\<close>

lemma create_space_spec:
  assumes ok: "vmm_ok R s" and run: "vmm_create_space s = Inr (space, s')"
  obtains pd where "vspaces s' space = Some \<lparr>page_directory = pd, sp_region = 0\<rparr>" and "pd \<notin> R" and "space \<noteq> 0"
    and "vspaces s space = None" and "vmm_ok (insert pd R) s'" and "\<forall>va. mmu_entry (mem s') pd va = 0"
    and "\<forall>r \<in> R. \<forall>va. mmu_entry (mem s') r va = mmu_entry (mem s) r va" and "free_pages s' \<subseteq> free_pages s"
    and "vspaces s' = (vspaces s)(space \<mapsto> \<lparr>page_directory = pd, sp_region = 0\<rparr>)" and "vregions s' = vregions s"
proof -
  obtain bs live where inv: "vmm_inv R bs live s" "dom (vregions s) \<subseteq> live TYPE_VMM_REGION"
    "dom (vspaces s) \<subseteq> live TYPE_VMM_SPACE" using ok unfolding vmm_ok_def by blast
  obtain s1 where a: "block_alloc TYPE_VMM_SPACE s = Inr (space, s1)" "space \<noteq> 0"
    and i: "mmu_init (s1\<lparr>vspaces := (vspaces s1)(space \<mapsto> \<lparr>page_directory = 0, sp_region = 0\<rparr>)\<rparr>) space = Inr s'"
    using run by (auto simp: vmm_create_space_def bindR_Inr_iff Let_def split: if_splits)
  let ?s2 = "s1\<lparr>vspaces := (vspaces s1)(space \<mapsto> \<lparr>page_directory = 0, sp_region = 0\<rparr>)\<rparr>"
  have res: "alloc_result R TYPE_VMM_SPACE live s space s1" by (rule block_alloc_spec [OF inv(1) a(1)])
  then obtain bs' where inv1: "vmm_inv R bs' (live(TYPE_VMM_SPACE := insert space (live TYPE_VMM_SPACE))) s1"
    and fr: "alloc_frame R s s1" and new: "space \<notin> live TYPE_VMM_SPACE" unfolding alloc_result_def by blast
  note same = alloc_frame_same [OF fr]
  have inv2: "vmm_inv R bs' (live(TYPE_VMM_SPACE := insert space (live TYPE_VMM_SPACE))) ?s2"
    using inv1 by (simp add: vmm_inv_heaps)
  show thesis
  proof (rule mmu_init_space [OF vmm_invD(1) [OF inv2] i])
    fix sp
    assume m: "vspaces s' space = Some sp" "page_directory sp \<notin> R" "mmu_inv (insert (page_directory sp) R) s'"
      "\<forall>va. mmu_entry (mem s') (page_directory sp) va = 0"
      "\<forall>r \<in> R. \<forall>va. mmu_entry (mem s') r va = mmu_entry (mem ?s2) r va"
      "mmu_pages (insert (page_directory sp) R) s' \<subseteq> mmu_pages R ?s2" "free_pages s' \<subseteq> free_pages ?s2"
      "\<forall>x. mmu_untouched R ?s2 x \<longrightarrow> mem s' x = mem ?s2 x"
      "\<exists>sp0. vspaces ?s2 space = Some sp0 \<and> sp = sp0\<lparr>page_directory := page_directory sp\<rparr>"
      "s' = ?s2\<lparr>vspaces := (vspaces ?s2)(space \<mapsto> sp), mem := mem s'\<rparr>"
    have spe: "sp = \<lparr>page_directory = page_directory sp, sp_region = 0\<rparr>" using m(9) by simp
    have f: "pmap s' = pmap ?s2" "vblocks s' = vblocks ?s2" "block_heads s' = block_heads ?s2"
      "vregions s' = vregions s" "vspaces s' = (vspaces s)(space \<mapsto> sp)"
      by (subst m(10), simp add: same)+
    have "vmm_inv (insert (page_directory sp) R) bs' (live(TYPE_VMM_SPACE := insert space (live TYPE_VMM_SPACE))) s'"
      using m(6,8) inv2 block_untouched [OF inv2] by (intro vmm_inv_change [OF inv2 m(3) f(1-3)]) (auto simp: vmm_inv_def)
    then have "vmm_ok (insert (page_directory sp) R) s'"
      unfolding vmm_ok_def using inv(2,3) f(4,5)
      by (intro exI [of _ bs'] exI [of _ "live(TYPE_VMM_SPACE := insert space (live TYPE_VMM_SPACE))"]) auto
    moreover have "\<forall>r \<in> R. \<forall>va. mmu_entry (mem s') r va = mmu_entry (mem s) r va" using m(5) fr by (simp add: alloc_frame_def)
    moreover have "free_pages s' \<subseteq> free_pages s" using m(7) fr by (auto simp: alloc_frame_def free_pages_def)
    moreover have "vspaces s space = None" using new inv(3) by blast
    ultimately show thesis using m(1,2,4) f(4,5) a(2) spe by (metis that)
  qed
qed

section \<open>Pages of a range\<close>

text \<open>The addresses the processor accepts, in which bits 48 to 63 repeat bit 47.\<close>

definition canonical :: "u64 \<Rightarrow> bool" where
  "canonical x \<longleftrightarrow> unat x < 2 ^ 47 \<or> 2 ^ 64 - 2 ^ 47 \<le> unat x"

definition whole_pages :: "u64 set \<Rightarrow> bool" where
  "whole_pages C \<longleftrightarrow> (\<forall>x \<in> C. \<forall>y. unat y div 4096 = unat x div 4096 \<longrightarrow> y \<in> C)"

lemma canonical_page:
  assumes "canonical z"
  shows "unat z div 4096 < 2 ^ 35 \<or> 2 ^ 52 - 2 ^ 35 \<le> unat z div 4096 \<and> unat z div 4096 < 2 ^ 52"
proof (cases "unat z < 2 ^ 47")
  case True
  then have "unat z div 4096 < 2 ^ 35" by (simp add: div_less_iff_less_mult)
  then show ?thesis by blast
next
  case False
  then have "(2 ^ 64 - 2 ^ 47) div 4096 \<le> unat z div 4096"
    using assms unfolding canonical_def by (intro div_le_mono) blast
  moreover have "unat z div 4096 < 2 ^ 52" using unat64_lt [of z] by (simp add: div_less_iff_less_mult)
  ultimately show ?thesis by simp
qed

lemma high_page_mod:
  fixes X :: nat
  assumes "2 ^ 52 - 2 ^ 35 \<le> X" and "X < 2 ^ 52"
  shows "X mod 2 ^ 36 = X - (2 ^ 52 - 2 ^ 36)"
proof -
  let ?r = "X - (2 ^ 52 - 2 ^ 36)"
  have "X = ?r + 2 ^ 36 * (2 ^ 16 - 1)" using assms by simp
  then have "X mod 2 ^ 36 = ?r mod 2 ^ 36" by (metis mod_mult_self2)
  then show ?thesis using assms by simp
qed

lemma canonical_same_page:
  assumes "canonical x" and "canonical y" and "same_page x y"
  shows "unat x div 4096 = unat y div 4096"
proof -
  define X Y where "X = unat x div 4096" and "Y = unat y div 4096"
  have m: "X mod 2 ^ 36 = Y mod 2 ^ 36" using assms(3) by (simp add: same_page_iff X_def Y_def)
  have low: "Z mod 2 ^ 36 = Z" if "Z < 2 ^ 35" for Z :: nat using that by simp
  consider "X < 2 ^ 35" | "2 ^ 52 - 2 ^ 35 \<le> X" "X < 2 ^ 52" using canonical_page [OF assms(1)] X_def by blast
  note X = this
  consider "Y < 2 ^ 35" | "2 ^ 52 - 2 ^ 35 \<le> Y" "Y < 2 ^ 52" using canonical_page [OF assms(2)] Y_def by blast
  then have "X = Y"
  proof cases
    case 1
    then show ?thesis using m X low [OF 1] low [of X] high_page_mod [of X] by (cases rule: X) simp_all
  next
    case 2
    then show ?thesis using m X low [of X] high_page_mod [of X] high_page_mod [OF 2] by (cases rule: X) simp_all
  qed
  then show ?thesis by (simp add: X_def Y_def)
qed

lemma page_same_page: "unat x div 4096 = unat y div 4096 \<Longrightarrow> same_page x y"
  by (simp add: same_page_iff)

lemma range_pages:
  assumes "page_aligned a" and "unat a + 4096 * n < 2 ^ 64"
  shows "x \<in> {a..<pg_at a n} \<longleftrightarrow> (\<exists>i < n. unat x div 4096 = unat (pg_at a i) div 4096)"
proof -
  obtain q where q: "unat a = 4096 * q" using assms(1) by (auto simp: dvd_def mod_eq_0_iff_dvd)
  have e: "unat (pg_at a i) = unat a + 4096 * i" if "i \<le> n" for i
    using assms(2) that by (intro unat_pg_at) simp
  have "x \<in> {a..<pg_at a n} \<longleftrightarrow> 4096 * q \<le> unat x \<and> unat x < 4096 * (q + n)"
    using e [of n] q by (simp add: word_le_nat_alt word_less_nat_alt)
  also have "\<dots> \<longleftrightarrow> q \<le> unat x div 4096 \<and> unat x div 4096 < q + n"
    by (simp add: less_eq_div_iff_mult_less_eq div_less_iff_less_mult mult.commute)
  also have "\<dots> \<longleftrightarrow> (\<exists>i < n. unat x div 4096 = q + i)"
    by (auto simp: le_iff_add)
  also have "\<dots> \<longleftrightarrow> (\<exists>i < n. unat x div 4096 = unat (pg_at a i) div 4096)"
    using e q by (intro ex_cong1 conj_cong) simp_all
  finally show ?thesis .
qed

lemma range_whole_pages: "page_aligned a \<Longrightarrow> unat a + 4096 * n < 2 ^ 64 \<Longrightarrow> whole_pages {a..<pg_at a n}"
  unfolding whole_pages_def Ball_def range_pages by simp

lemma whole_pages_Un: "whole_pages A \<Longrightarrow> whole_pages B \<Longrightarrow> whole_pages (A \<union> B)"
  unfolding whole_pages_def by blast

lemma mmu_entry_same_page: "same_page x y \<Longrightarrow> mmu_entry m r x = mmu_entry m r y"
  unfolding mmu_entry_def same_page_def by (elim conjE) (simp only:)

section \<open>Well-typed spaces\<close>

text \<open>
  \<open>cov g\<close> are the addresses covered with flags \<open>g\<close>, \<open>ent\<close> the page-table entries of the space and \<open>fp\<close>
  the free pages.
\<close>

definition well_typed :: "(u64 \<Rightarrow> u64 set) \<Rightarrow> (u64 \<Rightarrow> u64) \<Rightarrow> u64 set \<Rightarrow> bool" where
  "well_typed cov ent fp \<longleftrightarrow> (\<forall>g. cov g \<subseteq> Collect canonical \<and> whole_pages (cov g))
     \<and> (\<forall>x. canonical x \<and> (\<forall>g. x \<notin> cov g) \<longrightarrow> ent x = 0)
     \<and> (\<exists>frame. (\<forall>g. \<forall>x \<in> cov g. page_aligned (frame x) \<and> frame x \<notin> fp \<and> ent x = frame x OR g)
          \<and> (\<forall>g h. \<forall>x \<in> cov g. \<forall>y \<in> cov h. frame x = frame y \<longrightarrow> unat x div 4096 = unat y div 4096))"

lemma well_typed_empty: "(\<forall>x. ent x = 0) \<Longrightarrow> well_typed (covered []) ent fp"
  by (simp add: well_typed_def whole_pages_def)

lemma pages_backedD:
  assumes "pages_backed R s r a n flags s'"
  obtains f where "free_pages s' \<subseteq> free_pages s" and "inj_on f {..<n}"
    and "\<forall>i < n. f i \<in> free_pages s - free_pages s'" and "\<forall>i < n. mmu_entry (mem s') r (pg_at a i) = f i OR flags"
    and "\<forall>r' \<in> R. \<forall>x. (r' = r \<longrightarrow> (\<forall>i < n. \<not> same_page x (pg_at a i))) \<longrightarrow>
      mmu_entry (mem s') r' x = mmu_entry (mem s) r' x"
  using assms unfolding pages_backed_def by blast

lemma range_offset:
  assumes "page_aligned a" and "unat a + 4096 * n < 2 ^ 64" and "x \<in> {a..<pg_at a n}"
  defines "i \<equiv> unat x div 4096 - unat a div 4096"
  shows "i < n" and "unat x div 4096 = unat (pg_at a i) div 4096" and "unat x div 4096 = unat a div 4096 + i"
proof -
  obtain j where j: "j < n" "unat x div 4096 = unat (pg_at a j) div 4096" using range_pages [OF assms(1,2)] assms(3) by blast
  have "unat (pg_at a j) div 4096 = unat a div 4096 + j" using j(1) assms(2) by (subst unat_pg_at) simp_all
  then have "j = i" using j(2) by (simp add: i_def)
  then show "i < n" "unat x div 4096 = unat (pg_at a i) div 4096" "unat x div 4096 = unat a div 4096 + i"
    using j \<open>unat (pg_at a j) div 4096 = unat a div 4096 + j\<close> by simp_all
qed

text \<open>What backing a range means address by address.\<close>

lemma backed_addresses:
  assumes r: "r \<in> R" and a: "page_aligned a" "unat a + 4096 * n < 2 ^ 64" and can: "{a..<pg_at a n} \<subseteq> Collect canonical"
    and pb: "pages_backed R s r a n flags s'"
  obtains frame where "\<forall>x \<in> {a..<pg_at a n}. frame x \<in> free_pages s - free_pages s' \<and> mmu_entry (mem s') r x = frame x OR flags"
    and "\<forall>x \<in> {a..<pg_at a n}. \<forall>y \<in> {a..<pg_at a n}. frame x = frame y \<longrightarrow> unat x div 4096 = unat y div 4096"
    and "\<forall>x. canonical x \<and> x \<notin> {a..<pg_at a n} \<longrightarrow> mmu_entry (mem s') r x = mmu_entry (mem s) r x"
    and "free_pages s' \<subseteq> free_pages s"
proof -
  let ?new = "{a..<pg_at a n}" and ?off = "\<lambda>x. unat x div 4096 - unat a div 4096"
  obtain f where f: "free_pages s' \<subseteq> free_pages s" "inj_on f {..<n}" "\<forall>i < n. f i \<in> free_pages s - free_pages s'"
    "\<forall>i < n. mmu_entry (mem s') r (pg_at a i) = f i OR flags"
    "\<forall>r' \<in> R. \<forall>x. (r' = r \<longrightarrow> (\<forall>i < n. \<not> same_page x (pg_at a i))) \<longrightarrow> mmu_entry (mem s') r' x = mmu_entry (mem s) r' x"
    by (rule pages_backedD [OF pb])
  note off = range_offset [OF a]
  show thesis
  proof (rule that [of "\<lambda>x. f (?off x)"])
    show "\<forall>x \<in> ?new. f (?off x) \<in> free_pages s - free_pages s' \<and> mmu_entry (mem s') r x = f (?off x) OR flags"
      using f(3,4) off(1) mmu_entry_same_page [OF page_same_page [OF off(2)]] by simp
    show "\<forall>x \<in> ?new. \<forall>y \<in> ?new. f (?off x) = f (?off y) \<longrightarrow> unat x div 4096 = unat y div 4096"
    proof (intro ballI impI)
      fix x y assume n: "x \<in> ?new" "y \<in> ?new" and "f (?off x) = f (?off y)"
      then have "?off x = ?off y" using f(2) off(1) by (auto simp: inj_on_def)
      then show "unat x div 4096 = unat y div 4096" using off(3) n by metis
    qed
    show "\<forall>x. canonical x \<and> x \<notin> ?new \<longrightarrow> mmu_entry (mem s') r x = mmu_entry (mem s) r x"
    proof (intro allI impI)
      fix x assume x: "canonical x \<and> x \<notin> ?new"
      have "\<not> same_page x (pg_at a i)" if i: "i < n" for i
      proof
        assume "same_page x (pg_at a i)"
        moreover have "canonical (pg_at a i)" using can range_pages [OF a] i by blast
        ultimately have "unat x div 4096 = unat (pg_at a i) div 4096" using canonical_same_page x by blast
        then show False using x range_pages [OF a] i by blast
      qed
      then show "mmu_entry (mem s') r x = mmu_entry (mem s) r x" using f(5) r by blast
    qed
  qed (rule f(1))
qed

lemma well_typed_extend:
  assumes wt: "well_typed cov (mmu_entry (mem s) r) (free_pages s)" and inv: "mmu_inv R s" and r: "r \<in> R"
    and a: "page_aligned a" "unat a + 4096 * n < 2 ^ 64" and can: "{a..<pg_at a n} \<subseteq> Collect canonical"
    and new: "\<forall>g. cov g \<inter> {a..<pg_at a n} = {}" and pb: "pages_backed R s r a n flags s'"
  shows "well_typed (\<lambda>g. cov g \<union> (if g = flags then {a..<pg_at a n} else {})) (mmu_entry (mem s') r) (free_pages s')"
proof -
  let ?new = "{a..<pg_at a n}" and ?cov = "\<lambda>g. cov g \<union> (if g = flags then {a..<pg_at a n} else {})"
  obtain f where f: "\<forall>x \<in> ?new. f x \<in> free_pages s - free_pages s' \<and> mmu_entry (mem s') r x = f x OR flags"
    "\<forall>x \<in> ?new. \<forall>y \<in> ?new. f x = f y \<longrightarrow> unat x div 4096 = unat y div 4096"
    "\<forall>x. canonical x \<and> x \<notin> ?new \<longrightarrow> mmu_entry (mem s') r x = mmu_entry (mem s) r x" "free_pages s' \<subseteq> free_pages s"
    by (rule backed_addresses [OF r a can pb])
  obtain frame where old: "\<forall>g. \<forall>x \<in> cov g. page_aligned (frame x) \<and> frame x \<notin> free_pages s \<and> mmu_entry (mem s) r x = frame x OR g"
    "\<forall>g h. \<forall>x \<in> cov g. \<forall>y \<in> cov h. frame x = frame y \<longrightarrow> unat x div 4096 = unat y div 4096"
    and cv: "\<forall>g. cov g \<subseteq> Collect canonical \<and> whole_pages (cov g)"
    and un: "\<forall>x. canonical x \<and> (\<forall>g. x \<notin> cov g) \<longrightarrow> mmu_entry (mem s) r x = 0"
    using wt unfolding well_typed_def by blast
  define frame' where "frame' x = (if x \<in> ?new then f x else frame x)" for x
  have fresh: "frame' x \<in> free_pages s - free_pages s'" "page_aligned (frame' x)" "mmu_entry (mem s') r x = frame' x OR flags" "frame' x = f x"
    if "x \<in> ?new" for x
    using f(1) pg.free_page [OF mmu_invD(1) [OF inv]] that by (auto simp: frame'_def)
  have stay: "frame' x = frame x" "mmu_entry (mem s') r x = frame x OR g" "frame x \<notin> free_pages s" "page_aligned (frame x)"
    if "x \<in> cov g" for x g
  proof -
    have "x \<notin> ?new" "canonical x" using that new cv by blast+
    then show "frame' x = frame x" "mmu_entry (mem s') r x = frame x OR g" "frame x \<notin> free_pages s" "page_aligned (frame x)"
      using f(3) old(1) that by (auto simp: frame'_def)
  qed
  have cases: "P" if "x \<in> ?cov g" "x \<in> ?new \<Longrightarrow> g = flags \<Longrightarrow> P" "x \<in> cov g \<Longrightarrow> P" for x g P
    using that by (auto split: if_splits)
  have "?cov g \<subseteq> Collect canonical \<and> whole_pages (?cov g)" for g
    using cv can whole_pages_Un [OF _ range_whole_pages [OF a]] by (simp split: if_split)
  moreover have "mmu_entry (mem s') r x = 0" if "canonical x \<and> (\<forall>g. x \<notin> ?cov g)" for x
  proof -
    have "x \<notin> ?cov flags" using that by blast
    then have "x \<notin> ?new" by simp
    then show ?thesis using that un f(3) by simp
  qed
  moreover have "page_aligned (frame' x) \<and> frame' x \<notin> free_pages s' \<and> mmu_entry (mem s') r x = frame' x OR g"
    if "x \<in> ?cov g" for g x
    using that by (rule cases) (use fresh stay f(4) in auto)
  moreover have "unat x div 4096 = unat y div 4096" if x: "x \<in> ?cov g" and y: "y \<in> ?cov h" and e: "frame' x = frame' y" for g h x y
    by (rule cases [OF x]; rule cases [OF y]) (use fresh stay f(2) old(2) e in \<open>metis Diff_iff\<close>)+
  ultimately show ?thesis unfolding well_typed_def by (intro conjI allI impI exI [of _ frame'] ballI) blast+
qed

section \<open>Clients of a space\<close>

definition space_typed :: "u64 set \<Rightarrow> u64 \<Rightarrow> u64 \<Rightarrow> 'a vmm_state_scheme \<Rightarrow> bool" where
  "space_typed R pd space s \<longleftrightarrow> vmm_ok R s \<and> pd \<in> R \<and> map_option page_directory (vspaces s space) = Some pd
     \<and> (\<exists>ps. regions_of s space ps \<and> ranges_ok (rlist (vregions s) ps)
          \<and> well_typed (covered (rlist (vregions s) ps)) (mmu_entry (mem s) pd) (free_pages s))"

text \<open>
  The requests a client may make: page-aligned canonical ranges. The last condition of \<open>at_request\<close> excludes
  the requests right below a region with the same flags, those of \<open>between_request\<close> the regions across
  or below the lower bound: in these cases the code panics or leaves the bounds.
\<close>

definition at_request :: "range list \<Rightarrow> u64 \<Rightarrow> nat \<Rightarrow> u64 \<Rightarrow> bool" where
  "at_request xs va n flags \<longleftrightarrow> unat flags < 4096 \<and> va \<noteq> 0 \<and> 0 < n \<and> n \<le> 2 ^ 36 \<and> page_aligned va
     \<and> (unat va + 4096 * n \<le> 2 ^ 47 \<or> 2 ^ 64 - 2 ^ 47 \<le> unat va \<and> unat va + 4096 * n < 2 ^ 64)
     \<and> (\<forall>y \<in> set xs. fst y = pg_at va n \<longrightarrow> snd (snd y) \<noteq> flags)"

definition between_request :: "range list \<Rightarrow> u64 \<Rightarrow> u64 \<Rightarrow> nat \<Rightarrow> u64 \<Rightarrow> bool" where
  "between_request xs lo up n flags \<longleftrightarrow> unat flags < 4096 \<and> 0 < n \<and> n \<le> 2 ^ 36 \<and> page_aligned lo
     \<and> (unat up \<le> 2 ^ 47 \<or> 2 ^ 64 - 2 ^ 47 \<le> unat lo) \<and> unat lo + 4096 * (n + 2) < 2 ^ 64
     \<and> (\<forall>y \<in> set xs. (lo \<le> fst (snd y) \<longrightarrow> lo \<le> fst y) \<and> unat (fst (snd y)) + 4096 * (n + 2) < 2 ^ 64)
     \<and> (xs \<noteq> [] \<longrightarrow> lo \<le> fst (snd (last xs)))"

inductive space_step :: "u64 \<Rightarrow> 'a vmm_state_scheme \<Rightarrow> 'a vmm_state_scheme \<Rightarrow> bool" for space where
  at: "regions_of s space ps \<Longrightarrow> at_request (rlist (vregions s) ps) va n flags \<Longrightarrow>
    vmm_alloc_at s space va (of_nat n) flags = Inr (v, s') \<Longrightarrow> space_step space s s'"
| between: "regions_of s space ps \<Longrightarrow> between_request (rlist (vregions s) ps) lo up n flags \<Longrightarrow>
    vmm_alloc_between s space lo up (of_nat n) flags = Inr (v, s') \<Longrightarrow> space_step space s s'"

lemma regions_unique: "regions_of s space ps \<Longrightarrow> regions_of s space qs \<Longrightarrow> ps = qs"
  unfolding regions_of_def dll_def using dseg_fun by fastforce

text \<open>An uncovered address right behind a region is page-aligned.\<close>

lemma stop_aligned:
  assumes wp: "\<forall>g. whole_pages (covered xs g)" and so: "ranges_ok xs" and y: "y \<in> set xs"
    and un: "\<forall>g. fst (snd y) \<notin> covered xs g"
  shows "page_aligned (fst (snd y))"
proof (rule ccontr)
  let ?v = "fst (snd y)"
  assume n: "\<not> page_aligned ?v"
  have lt: "fst y < ?v" using so y by (simp add: ranges_ok_def)
  then have u: "unat (?v - 1) = unat ?v - 1" "0 < unat ?v" by (auto simp: word_less_nat_alt unat_sub_no_wrap word_le_nat_alt)
  then have "?v - 1 \<in> {fst y..<?v}" using lt by (auto simp: word_less_nat_alt word_le_nat_alt)
  then have "?v - 1 \<in> covered xs (snd (snd y))" by (rule covered_I [OF y])
  moreover have "unat ?v div 4096 = unat (?v - 1) div 4096" using n u by (metis Suc_pred div_Suc diff_Suc_1 gr0_conv_Suc)
  ultimately show False using wp un unfolding whole_pages_def by blast
qed

lemma half_canonical:
  assumes "unat lo \<le> unat x" and "unat x < unat hi" and "unat hi \<le> 2 ^ 47 \<or> 2 ^ 64 - 2 ^ 47 \<le> unat lo"
  shows "canonical x"
  using assms unfolding canonical_def by linarith

lemma space_typed_extend:
  assumes t: "space_typed R pd space s" and ro: "regions_of s space ps"
    and a: "page_aligned a" "unat a + 4096 * n < 2 ^ 64" "{a..<pg_at a n} \<subseteq> Collect canonical"
    and new: "\<forall>g. covered (rlist (vregions s) ps) g \<inter> {a..<pg_at a n} = {}" and pb: "pages_backed R s pd a n flags s'"
    and ok: "vmm_ok R s'" "regions_of s' space ps'" "ranges_ok (rlist (vregions s') ps')"
      "map_option page_directory (vspaces s' space) = Some pd"
    and cov: "\<forall>g. covered (rlist (vregions s') ps') g = covered (rlist (vregions s) ps) g \<union> (if g = flags then {a..<pg_at a n} else {})"
  shows "space_typed R pd space s' \<and> (\<forall>r \<in> R - {pd}. \<forall>x. mmu_entry (mem s') r x = mmu_entry (mem s) r x)"
proof -
  have pd: "pd \<in> R" and inv: "vmm_ok R s" and wt: "well_typed (covered (rlist (vregions s) ps)) (mmu_entry (mem s) pd) (free_pages s)"
    using t regions_unique [OF ro] unfolding space_typed_def by auto
  have "covered (rlist (vregions s') ps') = (\<lambda>g. covered (rlist (vregions s) ps) g \<union> (if g = flags then {a..<pg_at a n} else {}))"
    using cov by auto
  then have "well_typed (covered (rlist (vregions s') ps')) (mmu_entry (mem s') pd) (free_pages s')"
    using well_typed_extend [OF wt vmm_ok_mmu [OF inv] pd a new pb] by simp
  then show ?thesis using ok pd pb unfolding space_typed_def pages_backed_def by blast
qed

lemma at_typed:
  assumes t: "space_typed R pd space s" and ro: "regions_of s space ps" and rq: "at_request (rlist (vregions s) ps) va n flags"
    and run: "vmm_alloc_at s space va (of_nat n) flags = Inr (v, s')"
  shows "space_typed R pd space s' \<and> (\<forall>r \<in> R - {pd}. \<forall>x. mmu_entry (mem s') r x = mmu_entry (mem s) r x)"
proof -
  obtain sp where sp: "vspaces s space = Some sp" "page_directory sp = pd" "pd \<in> R" and ok: "vmm_ok R s"
    and so: "ranges_ok (rlist (vregions s) ps)"
    using t regions_unique [OF ro] unfolding space_typed_def by auto
  have q: "unat flags < 4096" "va \<noteq> 0" "0 < n" "unat va + 4096 * n < 2 ^ 64" "n \<le> 2 ^ 36" "page_aligned va"
    "\<forall>y \<in> set (rlist (vregions s) ps). fst y = pg_at va n \<longrightarrow> snd (snd y) \<noteq> flags"
    and half: "unat va + 4096 * n \<le> 2 ^ 47 \<or> 2 ^ 64 - 2 ^ 47 \<le> unat va"
    using rq unfolding at_request_def by auto
  have spR: "page_directory sp \<in> R" using sp by simp
  note al = vmm_alloc_at_result [OF ok ro so sp(1) spR q(1-5,7) run, unfolded sp(2)]
  then obtain ps' where ps': "regions_of s' space ps'" "ranges_ok (rlist (vregions s') ps')"
    "\<forall>g. covered (rlist (vregions s) ps) g \<inter> {va..<pg_at va n} = {}"
    "\<forall>g. covered (rlist (vregions s') ps') g = covered (rlist (vregions s) ps) g \<union> (if g = flags then {va..<pg_at va n} else {})"
    by blast
  have "{va..<pg_at va n} \<subseteq> Collect canonical"
    using half unat_pg_at [OF q(4)] by (auto intro!: half_canonical [of va _ "pg_at va n"] simp: word_le_nat_alt word_less_nat_alt)
  then show ?thesis using space_typed_extend [OF t ro q(6,4) _ ps'(3) _ _ ps'(1,2) _ ps'(4)] al by blast
qed

lemma between_typed:
  assumes t: "space_typed R pd space s" and ro: "regions_of s space ps" and rq: "between_request (rlist (vregions s) ps) lo up n flags"
    and run: "vmm_alloc_between s space lo up (of_nat n) flags = Inr (v, s')"
  shows "space_typed R pd space s' \<and> (\<forall>r \<in> R - {pd}. \<forall>x. mmu_entry (mem s') r x = mmu_entry (mem s) r x)"
proof (cases "v = 0 \<and> s' = s")
  case True
  then show ?thesis using t by simp
next
  case False
  let ?xs = "rlist (vregions s) ps"
  obtain sp where sp: "vspaces s space = Some sp" "page_directory sp = pd" "pd \<in> R" and ok: "vmm_ok R s"
    and so: "ranges_ok ?xs" and wp: "\<forall>g. whole_pages (covered ?xs g)"
    using t regions_unique [OF ro] unfolding space_typed_def well_typed_def by auto
  have q: "unat flags < 4096" "\<forall>y \<in> set ?xs. lo \<le> fst (snd y) \<longrightarrow> lo \<le> fst y" "ps \<noteq> [] \<Longrightarrow> lo \<le> fst (snd (last ?xs))"
    "0 < n" "unat lo + 4096 * (n + 2) < 2 ^ 64" "n \<le> 2 ^ 36" "\<forall>y \<in> set ?xs. unat (fst (snd y)) + 4096 * (n + 2) < 2 ^ 64"
    "page_aligned lo" "unat up \<le> 2 ^ 47 \<or> 2 ^ 64 - 2 ^ 47 \<le> unat lo"
    using rq unfolding between_request_def by auto
  have spR: "page_directory sp \<in> R" using sp by simp
  have al: "lo + PAGE_SIZE_IN_BYTES \<le> v" "pg_at v (n + 1) < up" "\<forall>g. covered ?xs g \<inter> {v - PAGE_SIZE_IN_BYTES..<pg_at v (n + 1)} = {}"
    "unat v + 4096 * (n + 1) < 2 ^ 64" "v = lo + PAGE_SIZE_IN_BYTES \<or> (\<exists>y \<in> set ?xs. v = fst (snd y) + PAGE_SIZE_IN_BYTES)"
    "vmm_ok R s'" "pages_backed R s pd v n flags s'" "map_option page_directory (vspaces s' space) = Some pd"
    "\<exists>ps'. regions_of s' space ps' \<and> ranges_ok (rlist (vregions s') ps')
        \<and> (\<forall>g. covered (rlist (vregions s') ps') g = covered ?xs g \<union> (if g = flags then {v..<pg_at v n} else {}))"
    using alloc_between_result [OF ok ro so sp(1) spR q(1-7) run] False unfolding sp(2) by blast+
  have lo1: "unat (lo + PAGE_SIZE_IN_BYTES) = unat lo + 4096" using unat_pg_at [of lo 1] q(5) by simp
  have v: "4096 \<le> unat v" "unat (v - PAGE_SIZE_IN_BYTES) = unat v - 4096"
    using al(1) lo1 by (auto simp: word_le_nat_alt unat_sub_no_wrap const_defs)
  have e: "unat (pg_at v n) = unat v + 4096 * n" "unat (pg_at v (n + 1)) = unat v + 4096 * (n + 1)"
    using al(4) by (intro unat_pg_at; simp)+
  have sub: "{v..<pg_at v n} \<subseteq> {v - PAGE_SIZE_IN_BYTES..<pg_at v (n + 1)}"
    using v e by (auto simp: word_le_nat_alt word_less_nat_alt)
  have "page_aligned v"
    using al(5)
  proof
    assume "v = lo + PAGE_SIZE_IN_BYTES"
    then show ?thesis using q(8) lo1 by simp
  next
    assume "\<exists>y \<in> set ?xs. v = fst (snd y) + PAGE_SIZE_IN_BYTES"
    then obtain y where y: "y \<in> set ?xs" "v = fst (snd y) + PAGE_SIZE_IN_BYTES" by blast
    have "fst (snd y) \<in> {v - PAGE_SIZE_IN_BYTES..<pg_at v (n + 1)}"
      using v e y(2) by (simp add: word_less_nat_alt)
    then have "\<forall>g. fst (snd y) \<notin> covered ?xs g" using al(3) by blast
    then have "page_aligned (fst (snd y))" by (rule stop_aligned [OF wp so y(1)])
    then show ?thesis using pg_at_aligned [of "fst (snd y)" 1] y(2) by simp
  qed
  moreover have "{v..<pg_at v n} \<subseteq> Collect canonical"
    using q(9) al(1,2) lo1 e by (auto intro!: half_canonical [of lo _ up] simp: word_le_nat_alt word_less_nat_alt)
  moreover have "\<forall>g. covered ?xs g \<inter> {v..<pg_at v n} = {}" using al(3) sub by blast
  moreover have "unat v + 4096 * n < 2 ^ 64" using al(4) by simp
  ultimately show ?thesis using al(6-9) by (elim exE conjE) (rule space_typed_extend [OF t ro])
qed

lemma step_typed:
  assumes "space_typed R pd space s" and "space_step space s s'"
  shows "space_typed R pd space s' \<and> (\<forall>r \<in> R - {pd}. \<forall>x. mmu_entry (mem s') r x = mmu_entry (mem s) r x)"
  using assms(2)
proof cases
  case (at ps va n flags v)
  then show ?thesis by (rule at_typed [OF assms(1)])
next
  case (between ps lo up n flags v)
  then show ?thesis by (rule between_typed [OF assms(1)])
qed

text \<open>A space is well typed from its creation on.\<close>

lemma new_space_typed:
  assumes ok: "vmm_ok R s" and new: "vmm_create_space s = Inr (space, s0)"
  obtains pd where "pd \<notin> R" and "space_typed (insert pd R) pd space s0"
    and "\<forall>r \<in> R. \<forall>x. mmu_entry (mem s0) r x = mmu_entry (mem s) r x"
proof (rule create_space_spec [OF ok new])
  fix pd
  assume c: "vspaces s0 space = Some \<lparr>page_directory = pd, sp_region = 0\<rparr>" "pd \<notin> R" "vmm_ok (insert pd R) s0"
    "\<forall>va. mmu_entry (mem s0) pd va = 0" "\<forall>r \<in> R. \<forall>va. mmu_entry (mem s0) r va = mmu_entry (mem s) r va"
  have "regions_of s0 space []" using c(1) by (simp add: regions_of_def dll_def)
  then have "space_typed (insert pd R) pd space s0" unfolding space_typed_def using c(1,3,4)
    by (intro conjI exI [of _ "[]"]) (auto simp: well_typed_empty)
  then show thesis using that c(2,5) by blast
qed

section \<open>Creating a space succeeds\<close>

lemma slot_frame:
  assumes inv: "vmm_inv R bs live s" and hs: "has_slot ty s" and same: "block_heads t = block_heads s"
    "vblocks t (block_heads s ty) = vblocks s (block_heads s ty)"
    and eq: "\<And>x. page_bytes (block_heads s ty) x \<Longrightarrow> mem t x = mem s x"
  shows "has_slot ty t"
proof -
  let ?h = "block_heads s ty"
  obtain b where b: "vblocks s ?h = Some b" "bm_free (mem s) (vb_bm b) \<noteq> {}" "?h \<noteq> 0"
    using hs unfolding has_slot_def by blast
  have h: "?h \<in> set (bs ty)" by (rule head_block [OF inv b(3)])
  have "vb_bm b = blk_bm ty ?h" using objs_okD(2) [OF vmm_invD(2) [OF inv] h] b(1) by (auto simp: block_ok_def)
  then have "bm_free (mem t) (vb_bm b) = bm_free (mem s) (vb_bm b)"
    using blk_free_frame [OF vmm_invD(5) [OF inv h] eq] by simp
  then show ?thesis using b same unfolding has_slot_def by simp
qed

text \<open>A free slot in the block of space objects and one free page are enough.\<close>

lemma create_space_total:
  assumes ok: "vmm_ok R s" and hs: "has_slot TYPE_VMM_SPACE s" and hr: "has_slot TYPE_VMM_REGION s" and room: "pmm_room s (Suc k)"
  shows "\<exists>space s'. vmm_create_space s = Inr (space, s') \<and> pmm_room s' k \<and> has_slot TYPE_VMM_REGION s'"
proof -
  obtain bs live where inv: "vmm_inv R bs live s" using ok unfolding vmm_ok_def by blast
  obtain p m v where a: "block_alloc TYPE_VMM_SPACE s = Inr (p, s\<lparr>mem := m, vblocks := v\<rparr>)"
    and eq: "\<forall>x. \<not> page_bytes (block_heads s TYPE_VMM_SPACE) x \<longrightarrow> m x = mem s x"
    and h: "block_heads s TYPE_VMM_SPACE \<in> set (bs TYPE_VMM_SPACE)"
    and v: "\<forall>a. a \<noteq> block_heads s TYPE_VMM_SPACE \<longrightarrow> v a = vblocks s a"
    by (rule block_alloc_found [OF inv hs])
  let ?s1 = "s\<lparr>mem := m, vblocks := v\<rparr>" and ?sp = "\<lparr>page_directory = 0, sp_region = 0\<rparr>" and ?h = "block_heads s TYPE_VMM_REGION"
  let ?s2 = "?s1\<lparr>vspaces := (vspaces ?s1)(p \<mapsto> ?sp)\<rparr>"
  have res: "alloc_result R TYPE_VMM_SPACE live s p ?s1" by (rule block_alloc_spec [OF inv a])
  then obtain bs' where inv1: "vmm_inv R bs' (live(TYPE_VMM_SPACE := insert p (live TYPE_VMM_SPACE))) ?s1" and p0: "p \<noteq> 0"
    unfolding alloc_result_def by blast
  have "vmm_inv R bs' (live(TYPE_VMM_SPACE := insert p (live TYPE_VMM_SPACE))) (?s1\<lparr>vspaces := (vspaces ?s1)(p \<mapsto> ?sp)\<rparr>)"
    using inv1 unfolding vmm_inv_heaps(3) .
  then have inv2: "vmm_inv R bs' (live(TYPE_VMM_SPACE := insert p (live TYPE_VMM_SPACE))) ?s2" by simp
  have "pmm_room (s\<lparr>mem := m\<rparr>) (Suc k)"
  proof (rule pmm_room_frame [OF mmu_invD(1) [OF vmm_invD(1) [OF inv]] _ room])
    fix x assume "\<not> outside_bitmaps (pmap s) x"
    then show "m x = mem s x" using eq vmm_invD(4) [OF inv h] unfolding off_bitmaps_def by blast
  qed
  then have rm: "pmm_room ?s2 (Suc k)" by (simp add: pmm_room_def)
  obtain s' pd where i: "mmu_init ?s2 p = Inr s'" "pmm_room s' k"
    and s': "s' = ?s2\<lparr>vspaces := (vspaces ?s2)(p \<mapsto> ?sp\<lparr>page_directory := pd\<rparr>), mem := mem s'\<rparr>"
    using mmu_init_total [OF vmm_invD(1) [OF inv2] _ rm, of p ?sp] by auto
  have un: "mem s' x = mem ?s2 x" if "mmu_untouched R ?s2 x" for x
    by (rule mmu_init_space [OF vmm_invD(1) [OF inv2] i(1)]) (use that in blast)
  have h0: "?h \<noteq> 0" using hr by (simp add: has_slot_def)
  have hb: "?h \<in> set (bs TYPE_VMM_REGION)" by (rule head_block [OF inv h0])
  have ne: "?h \<noteq> block_heads s TYPE_VMM_SPACE" using hb h inv by (auto simp: vmm_inv_def)
  have hb': "?h \<in> set (bs' TYPE_VMM_REGION)" using head_block [OF inv2, of TYPE_VMM_REGION] h0 by simp
  have "mem s' x = mem s x" if "page_bytes ?h x" for x
    using un [OF block_untouched [OF inv2 hb' that]] eq that
      pages_bytes_disjoint [OF vmm_invD(5) [OF inv hb] vmm_invD(5) [OF inv h] ne] by auto
  moreover have "block_heads s' = block_heads s" "vblocks s' ?h = vblocks s ?h" using v ne by (subst s', simp)+
  ultimately have "has_slot TYPE_VMM_REGION s'" by (intro slot_frame [OF inv hr])
  then show ?thesis using a p0 i by (simp add: vmm_create_space_def Let_def)
qed

text \<open>\<open>vmm1\<close> with slots 56 to 63 of its block of space objects free as well.\<close>

definition vmm3 :: vmm_state where
  "vmm3 = vmm1\<lparr>mem := (mem vmm1)(sblk0 + 3848 := 0xff)\<rparr>"

lemma vmm3_cell: "load64 (mem vmm3) (sblk0 + 3848) = 0xff"
proof -
  have z: "mem vmm1 (sblk0 + 3848 + k) = 0" if "k < 8" for k
  proof -
    have k: "unat k < 8" using that by (simp add: word_less_nat_alt)
    then have u: "unat (3848 + k) = 3848 + unat k" using unat_add_no_wrap [of 3848 k] by simp
    have "page_bytes sblk0 (sblk0 + 3848 + k)" using u k by (simp add: page_bytes_def word_less_nat_alt add.assoc)
    moreover have "sblk0 + 3848 + k \<noteq> rblk0 + 3999"
    proof
      assume "sblk0 + 3848 + k = rblk0 + 3999"
      then have "k = rblk0 + 3999 - (sblk0 + 3848)" by (simp add: algebra_simps)
      then show False using k by (simp add: objects0)
    qed
    ultimately show ?thesis by (simp add: vmm1_def vmm0_def)
  qed
  show ?thesis
    using z [of 1] z [of 2] z [of 3] z [of 4] z [of 5] z [of 6] z [of 7] by (simp add: load64_def vmm3_def add.assoc)
qed

lemma vmm3_slots: "7 * 8 \<in> bm_free (mem vmm3) (blk_bm TYPE_VMM_SPACE sblk0)" "\<not> bm_bit (mem vmm3) (blk_bm TYPE_VMM_SPACE sblk0) 0"
proof -
  have c: "bm_cell (blk_bm TYPE_VMM_SPACE sblk0) 0 = sblk0 + 3848" by (simp add: bm_cell_def blk_bm_def max_objs_def)
  show "7 * 8 \<in> bm_free (mem vmm3) (blk_bm TYPE_VMM_SPACE sblk0)" "\<not> bm_bit (mem vmm3) (blk_bm TYPE_VMM_SPACE sblk0) 0"
    by (simp_all add: bm_free_def bm_bit_def c vmm3_cell blk_bm_wf) (simp_all add: max_objs_def blk_bm_def)
qed

lemma vmm3_byte: "page_bytes sblk0 (sblk0 + 3848)"
  by (simp add: page_bytes_def)

lemma vmm3_inv: "vmm_inv {root0} vblocks0 vlive0 vmm3"
proof -
  have r: "sblk0 \<in> set (vblocks0 TYPE_VMM_SPACE)" by (simp add: vblocks0_def)
  have eq: "((mem vmm1)(sblk0 + 3848 := 0xff)) x = mem vmm1 x" if "\<not> bm_span (blk_bm TYPE_VMM_SPACE sblk0) x" for x
    using that by (auto simp: bm_span_def blk_bm_def max_objs_def BITMAP_SIZE_IN_BLOCK_def)
  have keep: "j \<notin> bm_free ((mem vmm1)(sblk0 + 3848 := 0xff)) (blk_bm TYPE_VMM_SPACE sblk0)"
    if "j < max_objs TYPE_VMM_SPACE" "slot TYPE_VMM_SPACE sblk0 j \<in> vlive0 TYPE_VMM_SPACE" for j
  proof -
    have "slot TYPE_VMM_SPACE sblk0 j = slot TYPE_VMM_SPACE sblk0 0" using that(2) by (simp add: vlive0_def sp0_def)
    moreover have "0 < max_objs TYPE_VMM_SPACE" by (simp add: max_objs_def)
    ultimately have "j = 0" using slot_inj [OF blk0_aligned(1,1) that(1)] by blast
    then show ?thesis using vmm3_slots(2) by (simp add: bm_free_def vmm3_def)
  qed
  show ?thesis unfolding vmm3_def by (rule vmm_inv_keep(1) [OF vmm1_inv r eq keep])
qed

lemma vmm3_ready: "vmm_ok {root0} vmm3" "has_slot TYPE_VMM_SPACE vmm3" "has_slot TYPE_VMM_REGION vmm3" "pmm_room vmm3 100"
proof -
  show "vmm_ok {root0} vmm3" using vmm3_inv vmm0_live unfolding vmm_ok_def by (auto simp: vmm3_def vmm1_def)
  have "block_heads vmm3 TYPE_VMM_SPACE = sblk0" "sblk0 \<noteq> 0" "vblocks vmm3 sblk0 = Some (full_block TYPE_VMM_SPACE sblk0)"
    by (simp_all add: vmm3_def vmm1_def vmm0_def objects0)
  then show "has_slot TYPE_VMM_SPACE vmm3" using vmm3_slots(1) unfolding has_slot_def by (auto simp: full_block_def)
  have h: "block_heads vmm1 TYPE_VMM_REGION = rblk0" by (simp add: vmm1_def vmm0_def)
  have "mem vmm3 x = mem vmm1 x" if "page_bytes rblk0 x" for x
    using that pages_bytes_disjoint [OF blk0_aligned(2,1)] vmm3_byte by (auto simp: vmm3_def objects0)
  then show "has_slot TYPE_VMM_REGION vmm3"
    using h by (intro slot_frame [OF vmm1_inv vmm1_has_slot]) (simp_all add: vmm3_def)
  show "pmm_room vmm3 100"
    unfolding vmm3_def
  proof (rule pmm_room_frame [OF _ _ vmm1_room])
    show "pmm_inv vmm1" using mmu_invD(1) [OF vmm_invD(1) [OF vmm1_inv]] .
    fix x assume x: "\<not> outside_bitmaps (pmap vmm1) x"
    have "off_bitmaps vmm1 sblk0" using vmm_invD(4) [OF vmm1_inv, of sblk0 TYPE_VMM_SPACE] by (simp add: vblocks0_def)
    then have "x \<noteq> sblk0 + 3848" using x vmm3_byte unfolding off_bitmaps_def by blast
    then show "((mem vmm1)(sblk0 + 3848 := 0xff)) x = mem vmm1 x" by simp
  qed
qed

text \<open>A new space in this state, with two pages of user memory.\<close>

lemma user_space_example:
  obtains space s0 t where "vmm_create_space vmm3 = Inr (space, s0)"
    and "vmm_alloc_between s0 space 0x400000 0x20000000 (of_nat 2) PAGE_USER_RW = Inr (0x401000, t)"
    and "space_step space s0 t" and "regions_of s0 space []"
proof -
  have "pmm_room vmm3 (Suc 99)" using vmm3_ready(4) by simp
  then obtain space s0 where c: "vmm_create_space vmm3 = Inr (space, s0)" "pmm_room s0 99" "has_slot TYPE_VMM_REGION s0"
    using create_space_total [OF vmm3_ready(1-3)] by blast
  obtain pd where p: "vspaces s0 space = Some \<lparr>page_directory = pd, sp_region = 0\<rparr>" "vmm_ok (insert pd {root0}) s0"
    "\<forall>va. mmu_entry (mem s0) pd va = 0"
    by (rule create_space_spec [OF vmm3_ready(1) c(1)])
  let ?lo = "0x400000 :: u64"
  have ro: "regions_of s0 space []" using p(1) by (simp add: regions_of_def dll_def)
  have sp: "page_directory \<lparr>page_directory = pd, sp_region = 0\<rparr> \<in> insert pd {root0}" "unat PAGE_USER_RW < 4096"
    "(0 :: nat) < 2" "(2 :: nat) \<le> 2 ^ 36" "unat ?lo + 4096 * (2 + 2) < 2 ^ 64" by (simp_all add: const_defs)
  have g: "gap_from ?lo (of_nat 2 * PAGE_SIZE_IN_BYTES + 2 * PAGE_SIZE_IN_BYTES) ?lo (rlist (vregions s0) []) = (0, ?lo)" by simp
  have nc: "\<not> collides (take 0 (rlist (vregions s0) [])) (drop 0 (rlist (vregions s0) [])) ?lo (pg_at ?lo (2 + 2))"
    by (simp add: collides_def)
  have rm: "pmm_room s0 (4 * 2)" by (rule pmm_room_mono [OF c(2)]) simp
  have un: "\<forall>x \<in> {?lo..<pg_at ?lo (2 + 2)}. (\<forall>g. x \<notin> covered (rlist (vregions s0) []) g) \<longrightarrow>
      mmu_entry (mem s0) (page_directory \<lparr>page_directory = pd, sp_region = 0\<rparr>) x = 0" using p(3) by simp
  have so: "ranges_ok (rlist (vregions s0) [])" by simp
  obtain t where t: "vmm_alloc_between s0 space ?lo 0x20000000 (of_nat 2) PAGE_USER_RW = Inr (?lo + PAGE_SIZE_IN_BYTES, t)"
    using alloc_between_total [OF p(2) ro so p(1) sp(1-4) g sp(5) nc c(3) rm un, of "0x20000000"] by (auto simp: const_defs)
  have "between_request (rlist (vregions s0) []) ?lo 0x20000000 2 PAGE_USER_RW"
    using sp(2) by (simp add: between_request_def)
  then have "space_step space s0 t" using t by (rule space_step.between [OF ro])
  then show thesis using that c(1) t ro by (simp add: const_defs)
qed

end
