(* ===== verification/Sharing.thy ===== *)
theory Sharing
  imports Spaces
begin

text \<open>
  The copy of an address space (\<^verbatim>\<open>vmm_copy_regions\<close> of \<^verbatim>\<open>kernel/mm/vmm.c\<close>), by which a new process
  gets the mappings of the kernel: region list and page tables of the destination follow those of
  the source.
\<close>

section \<open>Copying the pages of a region\<close>

lemma grown_refl: "mmu_inv R s \<Longrightarrow> grown R s s"
  by (simp add: grown_def)

lemma grown_map:
  assumes g: "grown R s t" and r: "r \<in> R" and perm: "unat perm < 4096" and run: "map_page_in t r va pa perm = Inr (old, t')"
  shows "grown R s t'"
proof -
  note ms = map_page_in_spec [OF _ r perm run]
  have t: "mmu_inv R t" "t = s\<lparr>mem := mem t\<rparr>" "free_pages t \<subseteq> free_pages s" "mmu_pages R t \<subseteq> mmu_pages R s"
    "\<And>x. mmu_untouched R s x \<Longrightarrow> mem t x = mem s x" using g unfolding grown_def by blast+
  have "pmap t = pmap s" by (subst t(2)) simp
  then have "mem t' x = mem s x" if "mmu_untouched R s x" for x
    using ms [OF t(1)] untouched_mono [OF that t(4)] t(5) [OF that] by simp
  moreover have "t' = s\<lparr>mem := mem t'\<rparr>" using ms [OF t(1)] by (intro upd_mem_trans [OF t(2)]) blast
  ultimately show ?thesis using ms [OF t(1)] t(3,4) unfolding grown_def by blast
qed

text \<open>The page mapper once more, with the frame of all it does as part of its invariant.\<close>

interpretation ptg: page_mapper "\<lambda>R. grown R s" "\<lambda>s. mmu_entry (mem s)" "\<lambda>r perm s va pa. map_page_in s r va pa perm" for s :: "'a vm_state_scheme"
proof unfold_locales
  fix R t r perm va pa old t' r' va'
  assume g: "grown R s t" and r: "r \<in> R" and perm: "unat perm < 4096" and run: "map_page_in t r va pa perm = Inr (old, t')"
  have i: "mmu_inv R t" using g by (simp add: grown_def)
  show "grown R s t'" by (rule grown_map [OF g r perm run])
  show "old = mmu_entry (mem t) r va" using map_page_in_ent(2) [OF i r perm run] .
  show "mmu_entry (mem t') r' va' = (if r' = r \<and> same_page va' va then pa OR perm else mmu_entry (mem t) r' va')" if "r' \<in> R"
    using map_page_in_ent(3) [OF i r perm run that] .
qed

text \<open>Ranges of whole pages in one half of the address space, with flags in the low bits.\<close>

definition page_range :: "range \<Rightarrow> nat \<Rightarrow> bool" where
  "page_range y n \<longleftrightarrow> 0 < n \<and> n \<le> 2 ^ 36 \<and> page_aligned (fst y) \<and> fst (snd y) = pg_at (fst y) n \<and> unat (snd (snd y)) < 4096
     \<and> unat (fst y) + 4096 * n < 2 ^ 64 \<and> (unat (fst y) + 4096 * n \<le> 2 ^ 47 \<or> 2 ^ 64 - 2 ^ 47 \<le> unat (fst y))"

text \<open>Every address of a set is mapped, with the given flags.\<close>

definition mapped_with :: "(u64 \<Rightarrow> u64) \<Rightarrow> u64 set \<Rightarrow> u64 \<Rightarrow> bool" where
  "mapped_with ent C g \<longleftrightarrow> (\<forall>x \<in> C. ent x \<noteq> 0 \<and> (\<exists>f. page_aligned f \<and> ent x = f OR g))"

lemma page_range_canonical:
  assumes "page_range y n" "x \<in> {fst y..<fst (snd y)}"
  shows "canonical x"
proof -
  have "unat (pg_at (fst y) n) = unat (fst y) + 4096 * n" using assms(1) by (intro unat_pg_at) (simp add: page_range_def)
  then show ?thesis using assms
    by (intro half_canonical [of "fst y" x "fst (snd y)"]) (auto simp: page_range_def word_le_nat_alt word_less_nat_alt)
qed

lemma page_range_pages:
  assumes "page_range y n" "canonical x"
  shows "x \<in> {fst y..<fst (snd y)} \<longleftrightarrow> (\<exists>i < n. same_page x (pg_at (fst y) i))"
proof -
  have e: "fst (snd y) = pg_at (fst y) n" and al: "page_aligned (fst y)" and r: "unat (fst y) + 4096 * n < 2 ^ 64"
    using assms(1) by (auto simp: page_range_def)
  have "canonical (pg_at (fst y) i)" if "i < n" for i
    by (rule page_range_canonical [OF assms(1)]) (use that in \<open>simp only: e range_pages [OF al r], blast\<close>)
  then show ?thesis unfolding e range_pages [OF al r] using canonical_same_page [OF assms(2)] page_same_page by metis
qed

lemma copied_entry:
  assumes "page_aligned va" "unat g < 4096" "mapped_with (mmu_entry m r) {va} g"
  shows "mmu_translate_4k m r va OR g = mmu_entry m r va"
proof -
  have "mmu_entry m r va \<noteq> 0 \<and> (\<exists>f. page_aligned f \<and> mmu_entry m r va = f OR g)"
    using assms(3) unfolding mapped_with_def by (rule bspec) simp
  then obtain f where f: "page_aligned f" "mmu_entry m r va = f OR g" "mmu_entry m r va \<noteq> 0"
    by (elim exE conjE) (rule that)
  have "PAGE_ADDR (f OR g) PAGE_SIZE_IN_BYTES = f" using PAGE_ADDR_add_low [OF f(1) assms(2)] or_low_bits [OF f(1) assms(2)] by simp
  then show ?thesis using f(2) translate_entry [OF f(3)] aligned_offset [OF assms(1)] by simp
qed

lemma copy_pages_spec:
  assumes inv: "mmu_inv R s" and sp: "vspaces s dst = Some d" "vspaces s src = Some c"
    and r: "page_directory d \<in> R" "page_directory c \<in> R" "page_directory d \<noteq> page_directory c"
    and g: "vregions s region = Some g" "page_range (rdata g) n"
    and m: "mapped_with (mmu_entry (mem s) (page_directory c)) {va_start g..<va_stop g} (vr_flags g)"
    and run: "mmu_copy_pages s dst src region = Inr s'"
  shows "grown R s s'"
    and "x \<in> {va_start g..<va_stop g} \<Longrightarrow> mmu_entry (mem s') (page_directory d) x = mmu_entry (mem s) (page_directory c) x"
    and "canonical x \<Longrightarrow> x \<notin> {va_start g..<va_stop g} \<Longrightarrow> mmu_entry (mem s') (page_directory d) x = mmu_entry (mem s) (page_directory d) x"
    and "q \<in> R - {page_directory d} \<Longrightarrow> mmu_entry (mem s') q x = mmu_entry (mem s) q x"
proof -
  let ?va = "va_start g" and ?d = "page_directory d" and ?c = "page_directory c" and ?f = "vr_flags g"
  let ?frame = "\<lambda>s va. Inr (mmu_translate_4k (mem s) ?c va, s)"
  let ?Q = "\<lambda>i pa. pa OR ?f = mmu_entry (mem s) ?c (pg_at ?va i)"
  have pr: "va_stop g = pg_at ?va n" "unat ?f < 4096" "page_aligned ?va" "unat ?va + 4096 * n < 2 ^ 64" "n \<le> 2 ^ 36"
    using g(2) by (simp_all add: page_range_def rdata_def)
  note rp = range_pages [OF pr(3,4)] and cn = page_range_canonical [OF g(2)] page_range_pages [OF g(2)]
  have m': "mapped_with (mmu_entry (mem s) ?c) {pg_at ?va i} ?f" if "i < n" for i
  proof -
    have "pg_at ?va i \<in> {?va..<pg_at ?va n}" unfolding rp using that by blast
    then show ?thesis using m unfolding mapped_with_def pr(1) by blast
  qed
  have run': "page_loop (map_step ?frame (\<lambda>s va pa. map_page_in s ?d va pa ?f)
      (Panic ''mmu_copy_pages: overwrite preexisting mapping'')) s ?va (pg_at ?va n) = Inr s'"
    using g(1) run copy_pages_loop [OF sp] pr(1) by (simp add: mmu_copy_pages_def)
  have *: "grown R s s' \<and> (\<forall>i < n. mmu_entry (mem s) ?d (pg_at ?va i) = 0
      \<and> (\<exists>pa. ?Q i pa \<and> mmu_entry (mem s') ?d (pg_at ?va i) = pa OR ?f))
    \<and> (\<forall>r' \<in> R. \<forall>x. (r' = ?d \<longrightarrow> (\<forall>i < n. \<not> same_page x (pg_at ?va i))) \<longrightarrow>
         mmu_entry (mem s') r' x = mmu_entry (mem s) r' x)"
  proof (rule ptg.map_range [OF grown_refl [OF inv] r(1) pr(2) run' pr(4,5)])
    fix t i pa t'
    assume i: "i < n" and t: "grown R s t" and f: "?frame t (pg_at ?va i) = Inr (pa, t')"
      and k: "\<forall>r' \<in> R. \<forall>x. (r' = ?d \<longrightarrow> (\<forall>j < n. \<not> same_page x (pg_at ?va j))) \<longrightarrow>
        mmu_entry (mem t) r' x = mmu_entry (mem s) r' x"
    have e: "mmu_entry (mem t) ?c (pg_at ?va i) = mmu_entry (mem s) ?c (pg_at ?va i)" using k r(2,3) by auto
    then have "mapped_with (mmu_entry (mem t) ?c) {pg_at ?va i} ?f" using m' [OF i] by (simp add: mapped_with_def)
    then have "mmu_translate_4k (mem t) ?c (pg_at ?va i) OR ?f = mmu_entry (mem s) ?c (pg_at ?va i)"
      using copied_entry [OF pg_at_aligned [OF pr(3)] pr(2)] e by metis
    then show "grown R s t' \<and> (\<forall>r' \<in> R. \<forall>x. mmu_entry (mem t') r' x = mmu_entry (mem t) r' x) \<and> ?Q i pa"
      using f t by auto
  qed
  then show "grown R s s'" by blast
  show "mmu_entry (mem s') ?d x = mmu_entry (mem s) ?c x" if xin: "x \<in> {?va..<va_stop g}"
  proof -
    obtain i where d: "i < n" "unat x div 4096 = unat (pg_at ?va i) div 4096" using xin unfolding pr(1) rp by blast
    note i = d(1) page_same_page [OF d(2)]
    obtain pa where "pa OR ?f = mmu_entry (mem s) ?c (pg_at ?va i)" "mmu_entry (mem s') ?d (pg_at ?va i) = pa OR ?f"
      using * i(1) by blast
    then show ?thesis unfolding mmu_entry_same_page [OF i(2)] by simp
  qed
  show "mmu_entry (mem s') ?d x = mmu_entry (mem s) ?d x" if "canonical x" "x \<notin> {?va..<va_stop g}"
  proof -
    have "\<forall>i < n. \<not> same_page x (pg_at ?va i)" using cn(2) [OF that(1)] that(2) by (simp add: rdata_def)
    then show ?thesis using * r(1) by blast
  qed
  show "mmu_entry (mem s') q x = mmu_entry (mem s) q x" if "q \<in> R - {?d}"
    using * that by (metis Diff_iff singletonI)
qed

section \<open>Copying a space\<close>

text \<open>Two lists that share a node are the same list.\<close>

lemma dll_shared:
  assumes "dll nx pv h p (as @ x # bs)" "dll nx pv h q (cs @ x # ds)"
  shows "as @ x # bs = cs @ x # ds"
  using assms
proof (induction as arbitrary: x bs cs ds rule: rev_induct)
  case Nil
  then have "last (0 # cs) = 0" using dll_links [OF Nil(2)] dll_links [of nx pv h p "[]" x bs] by auto
  then have "cs = []" using dll_node [OF Nil(2), of "last cs"] by (cases cs rule: rev_cases) auto
  then have "p = q" using dll_start [OF Nil(1)] dll_start [OF Nil(2)] by simp
  then show ?case using Nil dseg_fun unfolding dll_def by blast
next
  case (snoc a as)
  have "a \<noteq> 0" using dll_node [OF snoc.prems(1), of a] by simp
  moreover have "last (0 # cs) = a"
    using dll_links [OF snoc.prems(1)] dll_links [OF snoc.prems(2)] by auto
  ultimately obtain cs' where cs: "cs = cs' @ [a]" by (cases cs rule: rev_cases) auto
  show ?case using snoc.IH [of a "x # bs" cs' "x # ds"] snoc.prems unfolding cs by simp
qed

lemma regions_disjoint:
  assumes "regions_of s a ps" "regions_of s b qs" "x \<in> set ps" "x \<notin> set qs"
  shows "set ps \<inter> set qs = {}"
proof (rule ccontr)
  assume "set ps \<inter> set qs \<noteq> {}"
  then obtain y where y: "y \<in> set ps" "y \<in> set qs" by blast
  obtain as bs cs ds where l: "ps = as @ y # bs" "qs = cs @ y # ds" using y by (meson split_list)
  have "ps = qs" using assms(1,2) dll_shared unfolding regions_of_def l by blast
  then show False using assms(3,4) by simp
qed

text \<open>
  The state \<open>u\<close> after the regions \<open>as\<close> of the source have been copied to the destination, which was
  empty in \<open>s\<close>.
\<close>

definition copied ::
    "u64 set \<Rightarrow> u64 \<Rightarrow> u64 \<Rightarrow> u64 \<Rightarrow> u64 \<Rightarrow> 'a vmm_state_scheme \<Rightarrow> u64 list \<Rightarrow> u64 list \<Rightarrow> 'a vmm_state_scheme \<Rightarrow> bool" where
  "copied R dst D src C s qs as u \<longleftrightarrow> vmm_ok R u \<and> map_option page_directory (vspaces u dst) = Some D
     \<and> vspaces u src = vspaces s src \<and> (\<forall>q \<in> set qs. vregions u q = vregions s q)
     \<and> (\<exists>ps. regions_of u dst ps \<and> ranges_ok (rlist (vregions u) ps) \<and> set ps \<inter> set qs = {}
          \<and> (\<forall>g. covered (rlist (vregions u) ps) g = covered (rlist (vregions s) as) g))
     \<and> (\<forall>r \<in> R - {D}. \<forall>x. mmu_entry (mem u) r x = mmu_entry (mem s) r x)
     \<and> (\<forall>x. canonical x \<longrightarrow> mmu_entry (mem u) D x =
          (if \<exists>g. x \<in> covered (rlist (vregions s) as) g then mmu_entry (mem s) C x else mmu_entry (mem s) D x))"

lemma copiedD:
  assumes "copied R dst D src C s qs as u"
  shows "vmm_ok R u" and "map_option page_directory (vspaces u dst) = Some D" and "vspaces u src = vspaces s src"
    and "q \<in> set qs \<Longrightarrow> vregions u q = vregions s q"
    and "r \<in> R - {D} \<Longrightarrow> mmu_entry (mem u) r x = mmu_entry (mem s) r x"
    and "canonical x \<Longrightarrow> mmu_entry (mem u) D x =
      (if \<exists>g. x \<in> covered (rlist (vregions s) as) g then mmu_entry (mem s) C x else mmu_entry (mem s) D x)"
  using assms unfolding copied_def by blast+

lemma copy_step:
  fixes s :: "'a vmm_state_scheme"
  assumes cp: "copied R dst D src C s qs as u" and qs: "qs = as @ x # bs" and ro: "regions_of s src qs"
    and so: "ranges_ok (rlist (vregions s) qs)" and src: "vspaces s src = Some c" "page_directory c = C"
    and R: "C \<in> R" "D \<in> R" "C \<noteq> D" "dst \<noteq> src" and g: "vregions s x = Some g" "page_range (rdata g) n"
    and m: "mapped_with (mmu_entry (mem s) C) {va_start g..<va_stop g} (vr_flags g)"
    and add: "vmm_add_range u dst (va_start g) (va_stop g) (vr_flags g) = Inr (new, u1)"
    and copy: "mmu_copy_pages u1 dst src x = Inr u2"
  shows "copied R dst D src C s qs (as @ [x]) u2"
proof -
  let ?xs = "rlist (vregions s) as" and ?a = "va_start g" and ?b = "va_stop g" and ?f = "vr_flags g"
  note cd = copiedD [OF cp]
  obtain ps where ps: "regions_of u dst ps" "ranges_ok (rlist (vregions u) ps)" "set ps \<inter> set qs = {}"
    "\<forall>h. covered (rlist (vregions u) ps) h = covered ?xs h" using cp unfolding copied_def by blast
  have x: "x \<in> set qs" using qs by simp
  have sq: "ranges_ok (?xs @ rdata g # rlist (vregions s) bs)" using so g(1) unfolding qs by simp
  then have ab: "?a < ?b" and lt: "\<forall>y \<in> set ?xs. fst (snd y) \<le> ?a"
    by (auto simp: ranges_ok_append ranges_ok_Cons rdata_def)
  have b: "?b \<notin> covered (rlist (vregions u) ps) ?f"
    using ps(4) lt ab unfolding covered_def by force
  have dq: "q \<in> dom (vregions u)" if "q \<in> set qs" for q
    using ro dll_node that cd(4) [OF that] unfolding regions_of_def by fastforce
  show ?thesis
  proof (rule vmm_add_range_cover [OF cd(1) ps(1,2) ab add])
    fix ps' r
    assume a: "regions_of u1 dst ps'" "ranges_ok (rlist (vregions u1) ps')" "new \<in> set ps'"
      "\<And>h. covered (rlist (vregions u1) ps') h = covered (rlist (vregions u) ps) h \<union> (if h = ?f then {?a..<?b} else {})"
      "region_frame dst (set ps \<union> {new}) u u1" "new \<in> set ps \<or> new \<notin> dom (vregions u)"
      and k: "?b \<notin> covered (rlist (vregions u) ps) ?f \<or> (\<forall>y \<in> set (rlist (vregions u) ps). fst (snd y) \<noteq> ?a) \<Longrightarrow>
        vmm_ok R u1 \<and> mappings_kept R u u1 \<and> free_pages u1 \<subseteq> free_pages u"
    have ok: "vmm_ok R u1" "mappings_kept R u u1" using k [OF disjI1 [OF b]] by simp_all
    have nq: "new \<notin> set qs" using a(6) ps(3) dq by blast
    have vr: "vregions u1 q = vregions s q" if "q \<in> set qs" for q
    proof -
      have "q \<notin> set ps \<union> {new}" using that ps(3) nq by auto
      then show ?thesis using a(5) cd(4) [OF that] unfolding region_frame_def by simp
    qed
    have vs: "vspaces u1 src = vspaces s src" using a(5) R(4) cd(3) unfolding region_frame_def by simp
    have ro1: "regions_of u1 src qs" using ro vs dll_frame [of qs "vregions u1" "vregions s"] vr unfolding regions_of_def by auto
    obtain d where d: "vspaces u1 dst = Some d" "page_directory d = D"
      using a(5) cd(2) unfolding region_frame_def by auto
    have ent: "mmu_entry (mem u1) r y = mmu_entry (mem u) r y" if "r \<in> R" for r y using ok(2) that unfolding mappings_kept_def by blast
    have eC: "mmu_entry (mem u1) C y = mmu_entry (mem s) C y" for y using ent [OF R(1)] cd(5) R(1,3) by simp
    have m1: "mapped_with (mmu_entry (mem u1) C) {?a..<?b} ?f" using m by (simp add: mapped_with_def eC)
    have src1: "vspaces u1 src = Some c" and g1: "vregions u1 x = Some g" using vs src(1) vr [OF x] g(1) by simp_all
    note cs = copy_pages_spec [OF vmm_ok_mmu [OF ok(1)] d(1) src1 _ _ _ g1 g(2) _ copy, unfolded d(2) src(2),
        OF R(2,1) R(3) [symmetric] m1]
    have u2: "u2 = u1\<lparr>mem := mem u2\<rparr>" using cs(1) unfolding grown_def by blast
    have same: "vregions u2 = vregions u1" "vspaces u2 = vspaces u1" by (subst u2, simp)+
    have cov: "covered (rlist (vregions u1) ps') h = covered (rlist (vregions s) (as @ [x])) h" for h
      using a(4) [of h] ps(4) g(1) by (simp add: covered_append covered_Cons rdata_def)
    have mem: "(\<exists>h. y \<in> covered (rlist (vregions s) (as @ [x])) h) \<longleftrightarrow> y \<in> {?a..<?b} \<or> (\<exists>h. y \<in> covered ?xs h)" for y
      using g(1) by (auto simp: covered_append covered_Cons rdata_def)
    have "mmu_entry (mem u2) D y = (if \<exists>h. y \<in> covered (rlist (vregions s) (as @ [x])) h
        then mmu_entry (mem s) C y else mmu_entry (mem s) D y)" if cy: "canonical y" for y
    proof (cases "y \<in> {?a..<?b}")
      case True
      then show ?thesis unfolding mem cs(2) [OF True] eC by simp
    next
      case False
      then show ?thesis unfolding mem cs(3) [OF cy False] ent [OF R(2)] cd(6) [OF cy] by auto
    qed
    moreover have "mmu_entry (mem u2) q y = mmu_entry (mem s) q y" if "q \<in> R - {D}" for q y
      using cs(4) [OF that] ent [of q] cd(5) [OF that] that by simp
    moreover have "regions_of u2 dst ps'" using a(1) unfolding regions_of_def same .
    moreover have "vmm_ok R u2" by (rule grown_vmm_ok [OF ok(1) cs(1)])
    ultimately show ?thesis
      unfolding copied_def same using d vs vr cov a(2) regions_disjoint [OF a(1) ro1 a(3) nq]
      by (intro conjI exI [of _ ps']) auto
  qed
qed

lemma copy_regions_run:
  fixes s :: "'a vmm_state_scheme"
  assumes ro: "regions_of s src qs" and so: "ranges_ok (rlist (vregions s) qs)" and src: "vspaces s src = Some c" "page_directory c = C"
    and R: "C \<in> R" "D \<in> R" "C \<noteq> D" "dst \<noteq> src"
    and pr: "\<forall>y \<in> set (rlist (vregions s) qs). (\<exists>n. page_range y n) \<and> mapped_with (mmu_entry (mem s) C) {fst y..<fst (snd y)} (snd (snd y))"
    and "copied R dst D src C s qs as u" "qs = as @ bs" "copy_regions_from dst src u (hd (bs @ [0])) = Some (Inr t)"
  shows "copied R dst D src C s qs qs t"
  using assms(10-12)
proof (induction bs arbitrary: as u)
  case Nil
  then show ?case by (simp add: copy_regions_from.simps)
next
  case (Cons x bs)
  obtain g where g: "vregions s x = Some g" "vr_next g = hd (bs @ [0])" "x \<noteq> 0"
    using ro dll_links [of vr_next vr_prev "vregions s" _ as x bs] dll_node [of vr_next vr_prev "vregions s" _ qs x] Cons.prems(2)
    unfolding regions_of_def by fastforce
  have xq: "x \<in> set qs" using Cons.prems(2) by simp
  then have y: "rdata g \<in> set (rlist (vregions s) qs)" using g(1) by (auto simp: rlist_def image_iff intro!: bexI [of _ x])
  then obtain n where n: "page_range (rdata g) n" "mapped_with (mmu_entry (mem s) C) {va_start g..<va_stop g} (vr_flags g)"
    using pr by (auto simp: rdata_def)
  have ux: "vregions u x = Some g" using copiedD(4) [OF Cons.prems(1) xq] g(1) by simp
  obtain new u1 u2 r' where st: "vmm_add_range u dst (va_start g) (va_stop g) (vr_flags g) = Inr (new, u1)"
    "mmu_copy_pages u1 dst src x = Inr u2" "vregions u2 x = Some r'" "copy_regions_from dst src u2 (vr_next r') = Some (Inr t)"
    using Cons.prems(3) ux g(3)
    by (auto simp: copy_regions_from.simps [of _ _ u x] bindR_Inr_iff deref_Inr_iff split: sum.splits if_splits)
  have c: "copied R dst D src C s qs (as @ [x]) u2"
    by (rule copy_step [OF Cons.prems(1,2) ro so src R g(1) n st(1,2)])
  have "r' = g" using copiedD(4) [OF c xq] st(3) g(1) by simp
  then show ?case using Cons.IH [OF c] Cons.prems(2) st(4) g(2) by simp
qed

section \<open>Properties\<close>

text \<open>
  C7. When the regions of a space are copied to an empty one, the destination covers exactly the
  addresses the source covers, with the same flags, and maps each of them by the same page-table entry;
  the other addresses of the destination and all other spaces, the source included, are mapped as
  before, and the region list of the source is unchanged.
\<close>

theorem vmm_copy_regions_shares:
  fixes s :: "'a vmm_state_scheme"
  assumes "vmm_ok R s" "regions_of s src qs" "ranges_ok (rlist (vregions s) qs)"
    and "vspaces s src = Some c" "vspaces s dst = Some d" "sp_region d = 0"
    and "page_directory c \<in> R" "page_directory d \<in> R" "page_directory c \<noteq> page_directory d"
    and "\<forall>y \<in> set (rlist (vregions s) qs). (\<exists>n. page_range y n)
      \<and> mapped_with (mmu_entry (mem s) (page_directory c)) {fst y..<fst (snd y)} (snd (snd y))"
    and "vmm_copy_regions s dst src = Inr t"
  shows "vmm_ok R t \<and> regions_of t src qs \<and> rlist (vregions t) qs = rlist (vregions s) qs
    \<and> (\<exists>ps. regions_of t dst ps \<and> ranges_ok (rlist (vregions t) ps)
         \<and> (\<forall>g. covered (rlist (vregions t) ps) g = covered (rlist (vregions s) qs) g))
    \<and> (\<forall>x. canonical x \<longrightarrow> mmu_entry (mem t) (page_directory d) x =
         (if \<exists>g. x \<in> covered (rlist (vregions s) qs) g then mmu_entry (mem s) (page_directory c) x
          else mmu_entry (mem s) (page_directory d) x))
    \<and> (\<forall>r \<in> R - {page_directory d}. \<forall>x. mmu_entry (mem t) r x = mmu_entry (mem s) r x)"
proof -
  have "regions_of s dst []" using assms(5,6) by (simp add: regions_of_def)
  then have c0: "copied R dst (page_directory d) src (page_directory c) s qs [] s"
    using assms(1,5) unfolding copied_def by (intro conjI exI [of _ "[]"]) auto
  have ne: "dst \<noteq> src" using assms(4,5,9) by auto
  have "sp_region c = hd (qs @ [0])" using assms(2,4) dll_start unfolding regions_of_def by fastforce
  then have "copy_regions_from dst src s (hd (qs @ [0])) = Some (Inr t)"
    using assms(4,11) by (cases "copy_regions_from dst src s (sp_region c)") (auto simp: vmm_copy_regions_def)
  then have c: "copied R dst (page_directory d) src (page_directory c) s qs qs t"
    by (intro copy_regions_run [OF assms(2,3,4) refl assms(7,8,9) ne assms(10) c0]) simp_all
  note cd = copiedD [OF c]
  have "regions_of t src qs"
    using assms(2) cd(3) dll_frame [of qs "vregions t" "vregions s"] cd(4) unfolding regions_of_def by auto
  moreover have "rlist (vregions t) qs = rlist (vregions s) qs" using cd(4) by (intro rlist_cong) simp
  ultimately show ?thesis using c unfolding copied_def by blast
qed

text \<open>
  The example: the space \<open>sp0\<close> with the page of its region mapped to page \<^verbatim>\<open>0x310000\<close>, and a new space.
\<close>

lemma grown_slot:
  fixes s t :: "'a vmm_state_scheme"
  assumes "vmm_ok R s" "grown R s t" "has_slot ty s"
  shows "has_slot ty t"
proof -
  obtain bs live where inv: "vmm_inv R bs live s" using assms(1) unfolding vmm_ok_def by blast
  have t: "t = s\<lparr>mem := mem t\<rparr>" and un: "\<And>x. mmu_untouched R s x \<Longrightarrow> mem t x = mem s x" using assms(2) unfolding grown_def by blast+
  have "block_heads s ty \<in> set (bs ty)" using head_block [OF inv] assms(3) by (simp add: has_slot_def)
  then show ?thesis using un block_untouched [OF inv] by (intro slot_frame [OF inv assms(3)]) (subst t, simp)+
qed

lemma two_spaces_example:
  obtains dst pd and s :: vmm_state where "vmm_ok {pd, root0} s" "pmm_room s 90" "has_slot TYPE_VMM_REGION s"
    "vregions s = vregions vmm0" "vspaces s sp0 = vspaces vmm0 sp0" "vspaces s dst = Some \<lparr>page_directory = pd, sp_region = 0\<rparr>"
    "pd \<noteq> root0" "\<forall>x. mmu_entry (mem s) pd x = 0" "\<forall>x. same_page x 0x400000 \<longrightarrow> mmu_entry (mem s) root0 x = 0x310007"
proof -
  have "pmm_room vmm3 (Suc 99)" using vmm3_ready(4) by simp
  then obtain dst s0 where c: "vmm_create_space vmm3 = Inr (dst, s0)" "pmm_room s0 99" "has_slot TYPE_VMM_REGION s0"
    using create_space_total [OF vmm3_ready(1-3)] by blast
  obtain pd where p: "vspaces s0 dst = Some \<lparr>page_directory = pd, sp_region = 0\<rparr>" "pd \<notin> {root0}" "vspaces vmm3 dst = None"
    "vmm_ok (insert pd {root0}) s0" "\<forall>va. mmu_entry (mem s0) pd va = 0"
    "vspaces s0 = (vspaces vmm3)(dst \<mapsto> \<lparr>page_directory = pd, sp_region = 0\<rparr>)" "vregions s0 = vregions vmm3"
    by (rule create_space_spec [OF vmm3_ready(1) c(1)])
  have f: "unat PAGE_USER_RW < 4096" "root0 \<in> {pd, root0}" by (simp_all add: const_defs)
  have rm: "pmm_room s0 (90 + 3)" by (rule pmm_room_mono [OF c(2)]) simp
  obtain old s where m: "map_page_in s0 root0 0x400000 0x310000 PAGE_USER_RW = Inr (old, s)" "pmm_room s 90"
    using map_page_in_total [OF vmm_ok_mmu [OF p(4)] f(2,1) rm] by blast
  have g: "grown {pd, root0} s0 s" by (rule grown_map [OF grown_refl [OF vmm_ok_mmu [OF p(4)]] f(2,1) m(1)])
  then have s: "s = s0\<lparr>mem := mem s\<rparr>" unfolding grown_def by blast
  have same: "vregions s = vregions s0" "vspaces s = vspaces s0" by (subst s, simp)+
  note e = map_page_in_ent(3) [OF vmm_ok_mmu [OF p(4)] f(2,1) m(1)]
  have "vspaces vmm3 = vspaces vmm0" "vregions vmm3 = vregions vmm0" by (simp_all add: vmm3_def vmm1_def)
  moreover have "dst \<noteq> sp0" using p(3) by (auto simp: vmm3_def vmm1_def vmm0_def)
  ultimately show thesis
    using p(1,2,4,5,6,7) m(2) grown_vmm_ok [OF p(4) g] grown_slot [OF p(4) g c(3)] same e
    by (intro that [of pd s dst]) (auto simp: const_defs)
qed

lemma two_spaces_copy:
  fixes s :: vmm_state
  assumes ok: "vmm_ok {pd, root0} s" and room: "pmm_room s 90" "has_slot TYPE_VMM_REGION s"
    and s: "vregions s = vregions vmm0" "vspaces s sp0 = vspaces vmm0 sp0" "vspaces s dst = Some \<lparr>page_directory = pd, sp_region = 0\<rparr>"
    and pd: "pd \<noteq> root0" "\<forall>x. mmu_entry (mem s) pd x = 0" "\<forall>x. same_page x 0x400000 \<longrightarrow> mmu_entry (mem s) root0 x = 0x310007"
  shows "\<exists>t. vmm_copy_regions s dst sp0 = Inr t"
proof -
  have r0: "reg0 \<noteq> 0" "vregions s reg0 = Some text_region" "vspaces s sp0 = Some \<lparr>page_directory = root0, sp_region = reg0\<rparr>"
    using s by (simp_all add: vmm0_def objects0)
  have ro: "regions_of s dst ([] @ [])" using s(3) by (simp add: regions_of_def)
  then have roe: "regions_of s dst []" by simp
  obtain new s1 where cr: "vmm_create_region s dst 0x400000 0x401000 PAGE_USER_RW (last (0 # [])) (hd ([] @ [0])) = Inr (new, s1)"
    "pmm_room s1 90" using create_region_total [OF ok ro room(2,1)] by blast
  then have ad: "vmm_add_range s dst 0x400000 0x401000 PAGE_USER_RW = Inr (new, s1)"
    unfolding vmm_add_range_run [OF roe] by simp
  have lt: "(0x400000 :: u64) < 0x401000" by simp
  have so: "ranges_ok (rlist (vregions s) [])" by simp
  have k: "new \<noteq> 0 \<and> vmm_ok {pd, root0} s1 \<and> mappings_kept {pd, root0} s s1 \<and> region_frame dst {new} s s1 \<and> new \<noteq> reg0"
    by (rule vmm_add_range_cover [OF ok roe so lt ad]) (use r0(2) in \<open>simp, blast\<close>)
  have ne: "sp0 \<noteq> dst" using r0(3) s(3) pd(1) by auto
  have s1: "vregions s1 reg0 = Some text_region" "vspaces s1 sp0 = Some \<lparr>page_directory = root0, sp_region = reg0\<rparr>"
    "map_option page_directory (vspaces s1 dst) = Some pd"
    using k r0(2,3) s(3) ne unfolding region_frame_def by auto
  have e1: "mmu_entry (mem s1) r x = mmu_entry (mem s) r x" if "r \<in> {pd, root0}" for r x
    using k that unfolding mappings_kept_def by blast
  obtain d where d: "vspaces s1 dst = Some d" "page_directory d = pd" using s1(3) by auto
  have rm: "pmm_room s1 (87 + 3)" using cr(2) by simp
  have f: "unat PAGE_USER_RW < 4096" "pd \<in> {pd, root0}" by (simp_all add: const_defs)
  let ?pa = "mmu_translate_4k (mem s1) root0 0x400000"
  have inv1: "mmu_inv {pd, root0} s1" using k vmm_ok_mmu by blast
  obtain old s2 where m: "map_page_in s1 pd 0x400000 ?pa PAGE_USER_RW = Inr (old, s2)"
    using map_page_in_total [OF inv1 f(2,1) rm] by blast
  have "old = 0" using map_page_in_ent(2) [OF inv1 f(2,1) m] e1 [of pd] pd(2) by simp
  then have "copy_page dst sp0 PAGE_USER_RW s1 0x400000 = Inr s2"
    using m d s1(2) by (simp add: copy_page_def mmu_map_page_def)
  then have cp: "mmu_copy_pages s1 dst sp0 reg0 = Inr s2"
    using s1(1) page_loop_one [of "0x400000" "copy_page dst sp0 PAGE_USER_RW" s1]
    by (simp add: mmu_copy_pages_def text_region_def const_defs)
  have s2: "s2 = s1\<lparr>mem := mem s2\<rparr>" by (rule map_page_in_ent(4) [OF inv1 f(2,1) m])
  have "vregions s2 = vregions s1" by (subst s2) simp
  then have "copy_regions_from dst sp0 s reg0 = copy_regions_from dst sp0 s2 0"
    using r0(1,2) ad cp k s1(1) by (simp add: copy_regions_from.simps [of _ _ s] text_region_def)
  then show ?thesis using r0(3) by (simp add: vmm_copy_regions_def copy_regions_from.simps [of _ _ s2])
qed

theorem vmm_copy_regions_shares_witness:
  "\<exists>(s :: vmm_state) t dst d ps. vmm_copy_regions s dst sp0 = Inr t \<and> vspaces s dst = Some d \<and> regions_of t dst ps
     \<and> covered (rlist (vregions t) ps) PAGE_USER_RW = {0x400000..<0x401000}
     \<and> mmu_entry (mem t) (page_directory d) 0x400000 = 0x310007"
proof (rule two_spaces_example)
  fix dst pd and s :: vmm_state
  let ?c = "\<lparr>page_directory = root0, sp_region = reg0\<rparr>" and ?d = "\<lparr>page_directory = pd, sp_region = 0\<rparr>"
  assume a: "vmm_ok {pd, root0} s" "pmm_room s 90" "has_slot TYPE_VMM_REGION s"
    "vregions s = vregions vmm0" "vspaces s sp0 = vspaces vmm0 sp0" "vspaces s dst = Some ?d"
    "pd \<noteq> root0" "\<forall>x. mmu_entry (mem s) pd x = 0" "\<forall>x. same_page x 0x400000 \<longrightarrow> mmu_entry (mem s) root0 x = 0x310007"
  obtain t where t: "vmm_copy_regions s dst sp0 = Inr t" using two_spaces_copy [OF a] by blast
  have src: "vspaces s sp0 = Some ?c" using a(5) by (simp add: vmm0_def)
  have ro: "regions_of s sp0 [reg0]" using vmm0_regions(1) a(4,5) unfolding regions_of_def by simp
  have rl: "rlist (vregions s) [reg0] = [(0x400000, 0x401000, PAGE_USER_RW)]" using vmm0_regions(2) a(4) by simp
  have pr: "page_range (0x400000, 0x401000, PAGE_USER_RW) 1" by (simp add: page_range_def const_defs)
  have e: "mmu_entry (mem s) root0 x = 0x310000 OR PAGE_USER_RW" if "x \<in> {0x400000..<0x401000}" for x
  proof -
    have "x \<in> {0x400000..<pg_at 0x400000 1}" using that by (simp add: const_defs)
    then have "\<exists>i < 1. unat x div 4096 = unat (pg_at 0x400000 i) div 4096" by (subst (asm) range_pages) simp_all
    then have "same_page x 0x400000" by (intro page_same_page) simp
    then show ?thesis using a(9) by (simp add: const_defs)
  qed
  have "page_aligned (0x310000 :: u64)" "(0x310000 :: u64) OR PAGE_USER_RW \<noteq> 0" by (simp_all add: const_defs)
  then have mw: "mapped_with (mmu_entry (mem s) root0) {0x400000..<0x401000} PAGE_USER_RW"
    unfolding mapped_with_def using e by metis
  have cond: "\<forall>y \<in> set (rlist (vregions s) [reg0]). (\<exists>n. page_range y n)
      \<and> mapped_with (mmu_entry (mem s) (page_directory ?c)) {fst y..<fst (snd y)} (snd (snd y))"
    unfolding rl using pr mw by auto
  have so: "ranges_ok (rlist (vregions s) [reg0])" unfolding rl by (simp add: ranges_ok_def)
  from vmm_copy_regions_shares [OF a(1) ro so src a(6) _ _ _ _ cond t] a(7) obtain ps where
    "regions_of t dst ps" "\<forall>g. covered (rlist (vregions t) ps) g = covered (rlist (vregions s) [reg0]) g"
    "\<forall>x. canonical x \<longrightarrow> mmu_entry (mem t) pd x = (if \<exists>g. x \<in> covered (rlist (vregions s) [reg0]) g
       then mmu_entry (mem s) root0 x else mmu_entry (mem s) pd x)" by auto
  moreover have "canonical 0x400000" by (simp add: canonical_def)
  moreover have "(0x400000 :: u64) \<in> covered [(0x400000, 0x401000, PAGE_USER_RW)] PAGE_USER_RW" by (simp add: covered_Cons)
  ultimately have "mmu_entry (mem t) pd 0x400000 = 0x310007" "covered (rlist (vregions t) ps) PAGE_USER_RW = {0x400000..<0x401000}"
    using e [of "0x400000"] unfolding rl by (auto simp: covered_Cons const_defs)
  then show ?thesis using t a(6) \<open>regions_of t dst ps\<close> by (intro exI [of _ s] exI [of _ t] exI [of _ dst] exI [of _ ?d] exI [of _ ps]) simp
qed

end
