(* ===== verification/Kernel_Map.thy ===== *)
theory Kernel_Map
  imports Sharing Boot_Asm
begin

text \<open>
  The kernel image in the first page tables and in the kernel's own. \<^verbatim>\<open>vmm_init\<close> maps the regions of the
  image page by page (\<^verbatim>\<open>vmm_init_phys_contiguous_region\<close> of \<^verbatim>\<open>kernel/mm/vmm.c\<close>); in the debug build
  \<^verbatim>\<open>mmu_test_kernel_mapping\<close> compares the result with the tables of \<^verbatim>\<open>boot.asm\<close>. The lemmas show that the
  comparison succeeds.
\<close>

section \<open>Contiguous mappings\<close>

lemma contiguous_loop:
  fixes s :: "'a vmm_state_scheme"
  assumes "vspaces s (kspace s) = Some k"
  shows "page_loop (map_contiguous g pa) s va stop =
    page_loop (map_step (\<lambda>s va. Inr (pa + (va - va_start g), s)) (\<lambda>s va pa. map_page_in s (page_directory k) va pa (vr_flags g))
      (Panic ''vmm_init_phys_contiguous_region: mapping an already mapped entry'')) s va stop"
proof (rule page_loop_cong [where J = "\<lambda>t. vspaces t (kspace t) = Some k"])
  show "vspaces s (kspace s) = Some k" by fact
qed (auto simp: map_contiguous_def mmu_map_page_def map_step_def bindR_Inr_iff split: if_splits dest!: map_page_in_upd)

lemma contiguous_spec:
  fixes s :: "'a vmm_state_scheme"
  assumes inv: "mmu_inv R s" and k: "vspaces s (kspace s) = Some k" "page_directory k \<in> R"
    and g: "vregions s region = Some g" "page_range (rdata g) n"
    and run: "vmm_init_phys_contiguous_region s region pa = Inr s'"
  shows "grown R s s'"
    and "i < n \<Longrightarrow> mmu_entry (mem s') (page_directory k) (pg_at (va_start g) i) = pg_at pa i OR vr_flags g"
proof -
  let ?va = "va_start g" and ?d = "page_directory k" and ?f = "vr_flags g"
  let ?Q = "\<lambda>i q. q = pg_at pa i"
  have pr: "va_stop g = pg_at ?va n" "unat ?f < 4096" "unat ?va + 4096 * n < 2 ^ 64" "n \<le> 2 ^ 36"
    using g(2) by (simp_all add: page_range_def rdata_def)
  have "page_loop (map_contiguous g pa) s ?va (pg_at ?va n) = Inr s'"
    using run g(1) pr(1) by (simp add: vmm_init_phys_contiguous_region_def)
  note run' = this [unfolded contiguous_loop [OF k(1)]]
  have "grown R s s' \<and> (\<forall>i < n. mmu_entry (mem s) ?d (pg_at ?va i) = 0
      \<and> (\<exists>q. ?Q i q \<and> mmu_entry (mem s') ?d (pg_at ?va i) = q OR ?f))
    \<and> (\<forall>r' \<in> R. \<forall>x. (r' = ?d \<longrightarrow> (\<forall>i < n. \<not> same_page x (pg_at ?va i))) \<longrightarrow>
         mmu_entry (mem s') r' x = mmu_entry (mem s) r' x)"
    by (rule ptg.map_range [OF grown_refl [OF inv] k(2) pr(2) run' pr(3,4)]) auto
  then show "grown R s s'" and "i < n \<Longrightarrow> mmu_entry (mem s') ?d (pg_at ?va i) = pg_at pa i OR ?f" by blast+
qed

lemma contiguous_translates:
  fixes s :: "'a vmm_state_scheme"
  assumes "mmu_inv R s" "vspaces s (kspace s) = Some k" "page_directory k \<in> R"
    and "vregions s region = Some g" "page_range (rdata g) n" "page_aligned pa" "vr_flags g AND PAGE_PRESENT \<noteq> 0"
    and "vmm_init_phys_contiguous_region s region pa = Inr s'" "i < n"
  shows "mmu_translate_4k (mem s') (page_directory k) (pg_at (va_start g) i) = pg_at pa i"
proof -
  let ?e = "mmu_entry (mem s') (page_directory k) (pg_at (va_start g) i)"
  have f: "unat (vr_flags g) < 4096" "page_aligned (va_start g)" using assms(5) by (simp_all add: page_range_def rdata_def)
  have e: "?e = pg_at pa i OR vr_flags g" by (rule contiguous_spec(2) [OF assms(1-5,8,9)])
  have al: "page_aligned (pg_at pa i)" by (rule pg_at_aligned [OF assms(6)])
  have "?e AND PAGE_PRESENT \<noteq> 0" unfolding e by (rule notI) (use assms(7) in \<open>simp add: bit.conj_disj_distrib2 or_eq_0_iff\<close>)
  then have nz: "?e \<noteq> 0" by auto
  have "PAGE_ADDR (pg_at pa i OR vr_flags g) PAGE_SIZE_IN_BYTES = pg_at pa i"
    unfolding or_low_bits [OF al f(1)] by (rule PAGE_ADDR_add_low [OF al f(1)])
  then show ?thesis unfolding translate_entry [OF nz] e aligned_offset [OF pg_at_aligned [OF f(2)]] by simp
qed

section \<open>Properties\<close>

lemma kernel_window:
  assumes "boot_tables m l" "V2P va < 0x80000000"
  shows "mmu_translate_1gb m (at_PML4 l) va = V2P va"
  using boot_maps(2) [OF assms] by (simp add: V2P_def P2V_def)

lemma V2P_page: "V2P (pg_at va i) = pg_at (V2P va) i"
  by (simp add: V2P_def)

lemma V2P_aligned: "page_aligned va \<Longrightarrow> page_aligned (V2P va)"
proof -
  assume "page_aligned va"
  moreover have "page_aligned (0x80000000 :: u64)" by simp
  ultimately have "page_aligned (va + 0x80000000)" by (rule aligned_add)
  moreover have "V2P va = va + 0x80000000" unfolding V2P_def KERNEL_VMA_def diff_eq_eq add.assoc by simp
  ultimately show ?thesis by (simp only:)
qed

text \<open>
  C25. The kernel's page tables agree with those of the boot code: after a region of the kernel window is
  mapped to the physical pages of the image, every page of it translates as under the first page
  tables, by which the kernel runs until it loads its own.
\<close>

theorem kernel_tables_agree_with_boot:
  fixes s :: "'a vmm_state_scheme"
  assumes "mmu_inv R s" "vspaces s (kspace s) = Some k" "page_directory k \<in> R"
    and "vregions s region = Some g" "page_range (rdata g) n" "vr_flags g AND PAGE_PRESENT \<noteq> 0"
    and "vmm_init_phys_contiguous_region s region (V2P (va_start g)) = Inr s'"
    and "boot_tables m l" "\<forall>i < n. V2P (pg_at (va_start g) i) < 0x80000000"
  shows "\<forall>i < n. mmu_translate_4k (mem s') (page_directory k) (pg_at (va_start g) i)
    = mmu_translate_1gb m (at_PML4 l) (pg_at (va_start g) i)"
proof (intro allI impI)
  fix i assume i: "i < n"
  have "page_aligned (V2P (va_start g))" using assms(5) by (intro V2P_aligned) (simp add: page_range_def rdata_def)
  then have "mmu_translate_4k (mem s') (page_directory k) (pg_at (va_start g) i) = V2P (pg_at (va_start g) i)"
    using contiguous_translates [OF assms(1-5) _ assms(6,7) i] by (simp only: V2P_page)
  then show "mmu_translate_4k (mem s') (page_directory k) (pg_at (va_start g) i)
      = mmu_translate_1gb m (at_PML4 l) (pg_at (va_start g) i)"
    using kernel_window [OF assms(8)] assms(9) i by simp
qed

text \<open>So the debug check of \<^verbatim>\<open>vmm_init\<close> passes when the image from its start to the end of the bitmaps is mapped so.\<close>

lemma mmu_test_kernel_mapping_passes:
  fixes s :: "'a vm_state_scheme"
  assumes "vspaces s space = Some sp" "kernel_vma_start (syms s) = va" "pmm_vma_stop s = pg_at va n" "unat va + 4096 * n < 2 ^ 64"
    and "boot_tables (mem s) l" "at_PML4 l = P2V boot_pml4"
    and "\<forall>i < n. V2P (pg_at va i) < 0x80000000 \<and> mmu_translate_4k (mem s) (page_directory sp) (pg_at va i) = V2P (pg_at va i)"
  shows "mmu_test_kernel_mapping s boot_pml4 space = Inr ()"
proof -
  let ?f = "\<lambda>u addr. if mmu_translate_1gb (mem s) (P2V boot_pml4) addr \<noteq> mmu_translate_4k (mem s) (page_directory sp) addr
      then Inl (Panic ''mmu_test_kernel_mapping'') else Inr u"
  have "\<exists>u. page_loop ?f () va (pg_at va n) = Inr u \<and> True"
    using assms(7) kernel_window [OF assms(5)] unfolding assms(6)
    by (intro page_loop_total [where I = "\<lambda>i u. True"] assms(4)) auto
  then show ?thesis using assms(1-3) by (simp add: mmu_test_kernel_mapping_def)
qed

text \<open>One page of the kernel window in the example space.\<close>

definition kernel_region :: vmm_region where
  "kernel_region = text_region\<lparr>va_start := 0xffffffff80200000, va_stop := 0xffffffff80201000, vr_flags := PAGE_KERNEL_RW\<rparr>"

theorem kernel_tables_agree_with_boot_witness:
  "\<exists>s'. vmm_init_phys_contiguous_region (vmm0\<lparr>vregions := [reg0 \<mapsto> kernel_region]\<rparr>) reg0 0x200000 = Inr s'
     \<and> mmu_translate_4k (mem s') root0 0xffffffff80200000 = mmu_translate_1gb loaded0 0x201000 0xffffffff80200000"
proof -
  let ?s = "vmm0\<lparr>vregions := [reg0 \<mapsto> kernel_region]\<rparr>" and ?k = "\<lparr>page_directory = root0, sp_region = reg0\<rparr>"
  have inv: "mmu_inv {root0} ?s" using vmm0_mmu by (simp add: mmu_inv_def pmm_inv_def off_bitmaps_def free_pages_def)
  have k: "vspaces ?s (kspace ?s) = Some ?k" "page_directory ?k \<in> {root0}" "vregions ?s reg0 = Some kernel_region"
    by (simp_all add: vmm0_def)
  have g: "page_range (rdata kernel_region) 1" "vr_flags kernel_region AND PAGE_PRESENT \<noteq> 0"
    by (simp_all add: page_range_def rdata_def kernel_region_def const_defs)
  have f: "unat PAGE_KERNEL_RW < 4096" "root0 \<in> {root0}" by (simp_all add: const_defs)
  have rm: "pmm_room ?s (97 + 3)" using vmm0_room by (simp add: pmm_room_def)
  obtain old s' where m: "map_page_in ?s root0 0xffffffff80200000 0x200000 PAGE_KERNEL_RW = Inr (old, s')"
    using map_page_in_total [OF inv f(2,1) rm] by blast
  have "old = 0" using map_page_in_ent(2) [OF inv f(2,1) m] by (simp add: vmm0_unmapped)
  then have "map_contiguous kernel_region 0x200000 ?s 0xffffffff80200000 = Inr s'"
    using m k(1) by (simp add: map_contiguous_def mmu_map_page_def) (simp add: kernel_region_def)
  then have run: "vmm_init_phys_contiguous_region ?s reg0 0x200000 = Inr s'"
    using page_loop_one [of "0xffffffff80200000" "map_contiguous kernel_region 0x200000" ?s]
    by (simp add: vmm_init_phys_contiguous_region_def const_defs) (simp add: kernel_region_def)
  have v: "V2P (va_start kernel_region) = 0x200000" by (simp add: V2P_def KERNEL_VMA_def kernel_region_def)
  have "\<forall>i < 1. V2P (pg_at (va_start kernel_region) i) < 0x80000000" by (simp add: v)
  from kernel_tables_agree_with_boot [OF inv k(1,2,3) g run [folded v] loaded0_tables this] run show ?thesis
    by (simp add: labels0_def kernel_region_def)
qed

end
