(* ===== verification/Ownership.thy ===== *)
theory Ownership
  imports Pmm
begin

text \<open>
  The page allocator as a state machine: any client, in any order, takes pages and gives back pages
  it owns, as far as \<^verbatim>\<open>bitmap_unset\<close> can give them back, which is for pages above position 32 in their
  block of the bitmap. The invariant of the reachable states is that the owned and the free pages
  always partition the pages that were free at the start.
\<close>

text \<open>A page whose bitmap position the release handles without the shift of an \<^verbatim>\<open>int\<close> going wrong.\<close>

definition returnable :: "'a pmm_state_scheme \<Rightarrow> u64 \<Rightarrow> bool" where
  "returnable s p \<longleftrightarrow> (\<exists>r \<in> set (pmap s). avail r \<and> (\<exists>j < unat (pr_size_in_pages r). 32 < j mod 64 \<and> p = page_of r j))"

inductive page_step :: "'a pmm_state_scheme \<times> u64 set \<Rightarrow> 'a pmm_state_scheme \<times> u64 set \<Rightarrow> bool" where
  take: "pmm_alloc s = Inr (p, s') \<Longrightarrow> p \<noteq> 0 \<Longrightarrow> page_step (s, own) (s', insert p own)"
| refused: "pmm_alloc s = Inr (0, s') \<Longrightarrow> page_step (s, own) (s', own)"
| give_back: "p \<in> own \<Longrightarrow> returnable s p \<Longrightarrow> pmm_free s p = Inr s' \<Longrightarrow> page_step (s, own) (s', own - {p})"

inductive_cases page_stepE: "page_step (s, own) st"

definition ownership_inv :: "u64 set \<Rightarrow> 'a pmm_state_scheme \<times> u64 set \<Rightarrow> bool" where
  "ownership_inv U st \<longleftrightarrow> pmm_inv (fst st) \<and> snd st \<inter> free_pages (fst st) = {} \<and> snd st \<union> free_pages (fst st) = U"

lemma pmm_free_returnable:
  assumes inv: "pmm_inv s" and p: "returnable s p" and f: "pmm_free s p = Inr s'"
  shows "pmm_inv s' \<and> free_pages s' = insert p (free_pages s)"
proof -
  obtain r j where r: "r \<in> set (pmap s)" "avail r" "j < unat (pr_size_in_pages r)" "32 < j mod 64" "p = page_of r j"
    using p unfolding returnable_def by blast
  have ok: "pmap_ok (pmap s)" using inv by (simp add: pmm_inv_def)
  obtain m' where m': "free_in (mem s) (pmap s) (page_of r j) = Inr m'"
    "free_in_regions m' (pmap s) = insert (page_of r j) (free_in_regions (mem s) (pmap s))"
    using free_in_spec [OF ok r(1-4), of "mem s"] by (elim exE conjE) (rule that)
  have "s' = s\<lparr>mem := m'\<rparr>" using f m'(1) r(5) by (simp add: pmm_free_def bindR_Inr_iff split: if_splits)
  then show ?thesis using ok m'(2) r(5) by (simp add: pmm_inv_def free_pages_def)
qed

lemma page_step_inv:
  assumes "page_step st st'" and "ownership_inv U st"
  shows "ownership_inv U st'"
  using assms
proof cases
  case (take s p s' own)
  then show ?thesis using pg.alloc_cases [of s p s'] assms(2) by (auto simp: ownership_inv_def)
next
  case (refused s s' own)
  then show ?thesis using pg.alloc_cases [of s 0 s'] assms(2) by (auto simp: ownership_inv_def)
next
  case (give_back p own s s')
  then show ?thesis using pmm_free_returnable [of s p s'] assms(2) by (auto simp: ownership_inv_def)
qed

lemma pages_reachable_inv: "page_step\<^sup>*\<^sup>* st st' \<Longrightarrow> ownership_inv U st \<Longrightarrow> ownership_inv U st'"
  by (induction rule: rtranclp_induct) (auto intro: page_step_inv)

text \<open>
  C31. From a state where nobody owns a page, after any sequence of allocations and of releases of
  owned pages above position 32 in their bitmap block (\<^verbatim>\<open>pmm_free\<close> of a page at position 32 frees 33 pages
  whoever owns them, and below it the shift is undefined), the owned pages and the free pages stay disjoint and together are the pages that were free at the
  start; so the next page handed out is owned by nobody.
\<close>

theorem pages_never_shared:
  assumes "pmm_inv s" and "page_step\<^sup>*\<^sup>* (s, {}) (t, own)"
  shows "pmm_inv t \<and> own \<inter> free_pages t = {} \<and> own \<union> free_pages t = free_pages s
    \<and> (\<forall>p t'. pmm_alloc t = Inr (p, t') \<longrightarrow> p \<noteq> 0 \<longrightarrow> p \<notin> own)"
proof -
  have "ownership_inv (free_pages s) (s, {})" using assms(1) by (simp add: ownership_inv_def)
  then have inv: "ownership_inv (free_pages s) (t, own)" by (rule pages_reachable_inv [OF assms(2)])
  then have "p \<notin> own" if "pmm_alloc t = Inr (p, t')" "p \<noteq> 0" for p t'
    using pg.alloc_cases [of t p t'] that by (auto simp: ownership_inv_def)
  then show ?thesis using inv by (auto simp: ownership_inv_def)
qed

theorem pages_never_shared_witness:
  "\<exists>p s'. page_step\<^sup>*\<^sup>* (machine100, {}) (s', {p}) \<and> insert p (free_pages s') = free_pages machine100 \<and> p \<notin> free_pages s'"
proof -
  obtain p s' where a: "pmm_alloc machine100 = Inr (p, s')"
    using pmm_alloc_total [OF machine100_inv machine100_raw] by blast
  have "free_pages machine100 \<noteq> {}" by (simp add: machine100_free lessThan_empty_iff)
  with pg.alloc_cases [OF machine100_inv a] have "p \<noteq> 0" by auto
  then have r: "page_step\<^sup>*\<^sup>* (machine100, {}) (s', {p})" using page_step.take [OF a, of "{}"] by auto
  then show ?thesis using pages_never_shared [OF machine100_inv r] by auto
qed

end
