(* ===== verification/Growth.thy ===== *)
theory Growth
  imports Kheap Gaps
begin

text \<open>
  Growth of the kernel heap (\<^verbatim>\<open>create_container\<close> and the second half of \<^verbatim>\<open>kmalloc\<close> in
  \<^verbatim>\<open>kernel/mm/kheap.c\<close>): when no block fits, a new container is taken from the virtual memory
  manager. The heap relies on the guarantee of \<^verbatim>\<open>vmm_alloc_between\<close> that the range was not covered
  before; the lemmas show that the new container therefore meets no other, and that the block it
  consists of is always large enough for the request.
\<close>

section \<open>A new container\<close>

definition push_cont :: "u64 \<Rightarrow> u64 \<Rightarrow> 'a kheap_state_scheme \<Rightarrow> 'a kheap_state_scheme" where
  "push_cont c sz s = s\<lparr>
     kconts := (\<lambda>q. if q = c then Some \<lparr>kc_size = sz, kc_used_blocks = 0, kc_prev = 0, kc_next = heap s, kc_block = CONTAINER_DATA c\<rparr>
       else if q = heap s \<and> q \<noteq> 0 then map_option (\<lambda>k. k\<lparr>kc_prev := c\<rparr>) (kconts s q) else kconts s q),
     kblocks := (kblocks s)(CONTAINER_DATA c \<mapsto> \<lparr>kb_size = sz - sizeof_kblock, kb_used = False, kb_prev = 0, kb_next = 0, kb_container = c\<rparr>),
     heap := c\<rparr>"

lemma create_container_run:
  assumes va: "vmm_alloc_between s (kspace s) (KERNEL_HEAP_START (syms s)) (KERNEL_HEAP_STOP (syms s))
      (MAX64 KHEAP_MIN_ALLOC_IN_PAGES n) PAGE_KERNEL_RW = Inr (c, s1)"
    and h: "heap s1 \<noteq> 0 \<Longrightarrow> kconts s1 (heap s1) \<noteq> None \<and> heap s1 \<noteq> c"
  shows "create_container s n = Inr (if c = 0 then (0, s1)
    else (c, push_cont c (MAX64 KHEAP_MIN_ALLOC_IN_PAGES n * PAGE_SIZE_IN_BYTES - sizeof_kcontainer) s1))"
proof -
  let ?sz = "MAX64 KHEAP_MIN_ALLOC_IN_PAGES n * PAGE_SIZE_IN_BYTES - sizeof_kcontainer"
  let ?k = "\<lparr>kc_size = ?sz, kc_used_blocks = 0, kc_prev = 0, kc_next = heap s1, kc_block = CONTAINER_DATA c\<rparr>"
  have upd: "(\<lambda>q. if q = c then Some ?k else if q = heap s1 \<and> q \<noteq> 0 then map_option (\<lambda>k. k\<lparr>kc_prev := c\<rparr>) (kconts s1 q) else kconts s1 q)
    = (if heap s1 = 0 then (kconts s1)(c \<mapsto> ?k)
       else (kconts s1)(c \<mapsto> ?k, heap s1 \<mapsto> (the (kconts s1 (heap s1)))\<lparr>kc_prev := c\<rparr>))"
    using h by (auto simp: fun_eq_iff)
  show ?thesis
  proof (cases "heap s1 = 0")
    case True
    then show ?thesis unfolding push_cont_def upd using va by (simp add: create_container_def Let_def)
  next
    case False
    then obtain k where "kconts s1 (heap s1) = Some k" "heap s1 \<noteq> c" using h by blast
    then show ?thesis unfolding push_cont_def upd
      using va False by (simp add: create_container_def Let_def set_kcont_def deref_def)
  qed
qed

text \<open>Where a container lies: its header, its blocks and nothing else.\<close>

definition cont_range :: "'a kheap_state_scheme \<Rightarrow> u64 \<Rightarrow> nat set" where
  "cont_range s c = {unat c..<cont_stop c (the (kconts s c))}"

lemma cont_range_start: "unat c \<in> cont_range s c"
  by (simp add: cont_range_def cont_stop_def)

lemma push_cont_other:
  assumes ok: "cont_ok s d qs" and ne: "d \<noteq> c" and apart: "unat (CONTAINER_DATA c) \<notin> cont_range s d"
  shows "cont_ok (push_cont c sz s) d qs" and "chunks (push_cont c sz s) qs = chunks s qs"
    and "cont_stop d (the (kconts (push_cont c sz s) d)) = cont_stop d (the (kconts s d))"
proof -
  obtain k where k: "kconts s d = Some k" "tiled (unat d + 40) (cont_stop d k) (map (cdata (kblocks s)) qs)"
    by (rule cont_okE [OF ok])
  obtain k' where k': "kconts (push_cont c sz s) d = Some k'" "kc_size k' = kc_size k" "kc_block k' = kc_block k"
    "kc_used_blocks k' = kc_used_blocks k"
    using k(1) ne by (cases "d = heap s \<and> d \<noteq> 0") (auto simp: push_cont_def)
  have same: "kblocks (push_cont c sz s) p = kblocks s p" if "p \<in> set qs" for p
  proof -
    have "in_cont d k p" by (rule cont_ok_in [OF k(2) that])
    then have "p \<noteq> CONTAINER_DATA c" using apart k(1) by (auto simp: in_cont_def cont_range_def)
    then show ?thesis by (simp add: push_cont_def)
  qed
  show "cont_ok (push_cont c sz s) d qs" "chunks (push_cont c sz s) qs = chunks s qs"
    "cont_stop d (the (kconts (push_cont c sz s) d)) = cont_stop d (the (kconts s d))"
    by (rule cont_ok_cong [OF ok k(1) k'], erule same)+
qed

lemma unat_cont_data:
  assumes "unat c + 4096 * k + 64 < 2 ^ 64" and "0 < k" and "sz = of_nat k * PAGE_SIZE_IN_BYTES - sizeof_kcontainer"
  shows "unat (CONTAINER_DATA c) = unat c + 40" and "unat sz = 4096 * k - 40" and "unat (sz - sizeof_kblock) = 4096 * k - 80"
proof -
  have k: "unat (of_nat k * PAGE_SIZE_IN_BYTES :: u64) = 4096 * k" using assms(1) by (intro unat_of_nat_pages) simp
  show "unat (CONTAINER_DATA c) = unat c + 40"
    using assms(1) unat_add_no_wrap [of c 40] by (simp add: CONTAINER_DATA_def const_defs)
  show s: "unat sz = 4096 * k - 40"
    using k assms(2) unat_sub_no_wrap [of 40 "of_nat k * PAGE_SIZE_IN_BYTES"]
    by (simp add: assms(3) sizeof_kcontainer_def word_le_nat_alt)
  show "unat (sz - sizeof_kblock) = 4096 * k - 80"
    using s assms(2) unat_sub_no_wrap [of 40 sz] by (simp add: sizeof_kblock_def word_le_nat_alt)
qed

lemma push_cont_new:
  assumes c: "page_aligned c" "unat c + 4096 * k + 64 < 2 ^ 64" "0 < k"
    and sz: "sz = of_nat k * PAGE_SIZE_IN_BYTES - sizeof_kcontainer"
  shows "cont_ok (push_cont c sz s) c [CONTAINER_DATA c]"
    and "chunks (push_cont c sz s) [CONTAINER_DATA c] = [(CONTAINER_DATA c, sz - sizeof_kblock, False)]"
    and "cont_range (push_cont c sz s) c = {unat c..<unat c + 4096 * k}"
proof -
  note u = unat_cont_data [OF c(2,3) sz]
  let ?k = "\<lparr>kc_size = sz, kc_used_blocks = 0, kc_prev = 0, kc_next = heap s, kc_block = CONTAINER_DATA c\<rparr>"
  have kc: "kconts (push_cont c sz s) c = Some ?k" by (simp add: push_cont_def)
  have st: "cont_stop c ?k = unat c + 4096 * k" using u(2) c(3) by (simp add: cont_stop_def)
  then show "cont_range (push_cont c sz s) c = {unat c..<unat c + 4096 * k}" by (simp add: cont_range_def kc)
  have al: "16 dvd unat c + 80"
  proof -
    obtain q where "unat c = 4096 * q" using c(1) by (auto simp: mod_eq_0_iff_dvd)
    then have "unat c + 80 = 16 * (256 * q + 5)" by simp
    then show ?thesis by (rule dvdI)
  qed
  have b0: "CONTAINER_DATA c \<noteq> 0" using u(1) by auto
  have kb: "kblocks (push_cont c sz s) (CONTAINER_DATA c)
      = Some \<lparr>kb_size = sz - sizeof_kblock, kb_used = False, kb_prev = 0, kb_next = 0, kb_container = c\<rparr>"
    by (simp add: push_cont_def)
  then show "chunks (push_cont c sz s) [CONTAINER_DATA c] = [(CONTAINER_DATA c, sz - sizeof_kblock, False)]"
    by (simp add: chunks_def cdata_def)
  have "tiled (unat c + 40) (unat c + 4096 * k) [(CONTAINER_DATA c, sz - sizeof_kblock, False)]"
    using u al c(3) by (simp add: add.commute)
  then show "cont_ok (push_cont c sz s) c [CONTAINER_DATA c]"
    unfolding cont_ok_def using kc kb b0 st c(2) by (intro exI [of _ ?k]) (simp add: dll_def cdata_def)
qed

text \<open>A container in addresses no other container meets joins the heap.\<close>

lemma push_cont_ok:
  assumes ok: "kheap_ok s cs ps" and c: "page_aligned c" "unat c + 4096 * k + 64 < 2 ^ 64" "0 < k" "c \<noteq> 0"
    and sz: "sz = of_nat k * PAGE_SIZE_IN_BYTES - sizeof_kcontainer"
    and apart: "\<forall>d \<in> set cs. cont_range s d \<inter> {unat c..<unat c + 4096 * k} = {}"
  shows "kheap_ok (push_cont c sz s) (c # cs) (ps(c := [CONTAINER_DATA c]))"
    and "allocated (push_cont c sz s) (c # cs) (ps(c := [CONTAINER_DATA c])) = allocated s cs ps"
    and "d \<in> set cs \<Longrightarrow> cont_range (push_cont c sz s) d = cont_range s d"
proof -
  let ?t = "push_cont c sz s" and ?ps = "ps(c := [CONTAINER_DATA c])"
  note new = push_cont_new [OF c(1-3) sz, of s] and u = unat_cont_data [OF c(2,3) sz]
  have d: "kdll (kconts s) (heap s) cs" and co: "\<And>d. d \<in> set cs \<Longrightarrow> cont_ok s d (ps d)"
    using ok unfolding kheap_ok_def by blast+
  have cn: "c \<notin> set cs" using apart cont_range_start [of c s] c(3) by fastforce
  have out: "unat (CONTAINER_DATA c) \<notin> cont_range s d" if "d \<in> set cs" for d
    using apart that u(1) c(3) by fastforce
  have ne: "d \<noteq> c" if "d \<in> set cs" for d using cn that by blast
  note other = push_cont_other [OF co ne out]
  show range: "cont_range ?t d = cont_range s d" if "d \<in> set cs" for d
    using other(3) [OF that that that] by (simp add: cont_range_def)
  have "kdll (kconts ?t) (if [] = ([] :: u64 list) then c else heap s) ([] @ c # cs)"
  proof (rule dll_insert [where h = "kconts s"])
    show "kdll (kconts s) (heap s) ([] @ cs)" using d by simp
    show "c \<noteq> 0" by (rule c(4))
    show "kconts ?t c = Some \<lparr>kc_size = sz, kc_used_blocks = 0, kc_prev = 0, kc_next = heap s, kc_block = CONTAINER_DATA c\<rparr>"
      by (simp add: push_cont_def)
    have "heap s = hd (cs @ [0])" by (rule dll_start [OF d])
    then show "kc_next \<lparr>kc_size = sz, kc_used_blocks = 0, kc_prev = 0, kc_next = heap s, kc_block = CONTAINER_DATA c\<rparr> = hd (cs @ [0])"
      by simp
    fix a v assume a: "a \<in> set ([] @ cs)" "kconts s a = Some v"
    have "a \<noteq> c" "a \<noteq> 0" using ne dll_node [OF d] a(1) by auto
    moreover have "heap s = a \<longleftrightarrow> a = hd cs" using dll_start [OF d] a(1) by (cases cs) auto
    ultimately show "\<exists>v'. kconts ?t a = Some v' \<and> kc_next v' = (if [] \<noteq> ([] :: u64 list) \<and> a = last [] then c else kc_next v)
        \<and> kc_prev v' = (if cs \<noteq> [] \<and> a = hd cs then c else kc_prev v)"
      using a by (cases "a = hd cs") (auto simp: push_cont_def)
  qed simp
  moreover have "heap ?t = c" by (simp add: push_cont_def)
  moreover have "cont_ok ?t e (?ps e)" if "e \<in> set (c # cs)" for e
    using that new(1) other(1) ne by auto
  moreover have "cont_stop e (the (kconts ?t e)) \<le> unat f \<or> cont_stop f (the (kconts ?t f)) \<le> unat e"
    if ef: "e \<in> set (c # cs)" "f \<in> set (c # cs)" "e \<noteq> f" for e f
  proof -
    have "cont_range ?t e \<inter> cont_range ?t f = {}"
    proof (cases "e \<in> set cs \<and> f \<in> set cs")
      case True
      then have "cont_stop e (the (kconts s e)) \<le> unat f \<or> cont_stop f (the (kconts s f)) \<le> unat e"
        using ok ef(3) unfolding kheap_ok_def by blast
      then show ?thesis using range True by (auto simp: cont_range_def)
    next
      case False
      then consider "e = c" "f \<in> set cs" | "f = c" "e \<in> set cs" using ef by auto
      then show ?thesis by cases (use apart range new(3) in \<open>simp_all add: Int_commute\<close>)
    qed
    moreover have "unat e \<in> cont_range ?t e" "unat f \<in> cont_range ?t f" by (rule cont_range_start)+
    ultimately show ?thesis by (auto simp: cont_range_def)
  qed
  ultimately show "kheap_ok ?t (c # cs) ?ps" unfolding kheap_ok_def by (simp del: fun_upd_apply)
  have "used_chunks (chunks ?t (?ps e)) = used_chunks (chunks s (ps e))" if "e \<in> set cs" for e
    using other(2) [OF that that that] ne [OF that] by simp
  moreover have "used_chunks (chunks ?t [CONTAINER_DATA c]) = {}" unfolding new(2) by (simp add: used_chunks_def)
  ultimately show "allocated ?t (c # cs) ?ps = allocated s cs ps" by (simp add: allocated_def)
qed

section \<open>Allocation with growth\<close>

text \<open>The number of pages \<^verbatim>\<open>kmalloc\<close> asks for when no block has \<open>n\<close> bytes.\<close>

definition grow_pages :: "u64 \<Rightarrow> nat" where
  "grow_pages n = max 5 ((unat n + 40) div 4096 + 2)"

lemma grow_pages_word:
  assumes "grow_pages n \<le> 2 ^ 36"
  shows "MAX64 KHEAP_MIN_ALLOC_IN_PAGES ((n + sizeof_kblock) div PAGE_SIZE_IN_BYTES + 2) = of_nat (grow_pages n)"
    and "unat n + 80 \<le> 4096 * grow_pages n"
proof -
  let ?j = "(unat n + 40) div 4096 + 2"
  have j: "?j \<le> 2 ^ 36" using assms by (simp add: grow_pages_def)
  then have nb: "unat n + 40 < 2 ^ 64" by simp
  have "unat (n + sizeof_kblock) = unat n + 40"
    using nb unat_add_no_wrap [of n 40] by (simp add: sizeof_kblock_def)
  then have d: "unat ((n + sizeof_kblock) div PAGE_SIZE_IN_BYTES) = (unat n + 40) div 4096"
    by (simp add: unat_div unat_page_size)
  have w: "unat ((n + sizeof_kblock) div PAGE_SIZE_IN_BYTES + 2) = ?j"
    using unat_add_no_wrap [of "(n + sizeof_kblock) div PAGE_SIZE_IN_BYTES" 2] d j by simp
  have "unat (MAX64 KHEAP_MIN_ALLOC_IN_PAGES ((n + sizeof_kblock) div PAGE_SIZE_IN_BYTES + 2)) = grow_pages n"
    unfolding MAX64_def grow_pages_def word_less_nat_alt w [symmetric] by (simp add: KHEAP_MIN_ALLOC_IN_PAGES_def max_def)
  then show "MAX64 KHEAP_MIN_ALLOC_IN_PAGES ((n + sizeof_kblock) div PAGE_SIZE_IN_BYTES + 2) = of_nat (grow_pages n)"
    by (rule word_eq_of_nat)
  have "x < 4096 * (x div 4096) + 4096" for x :: nat using dividend_less_times_div [of 4096 x] by simp
  from this [of "unat n + 40"] have "unat n + 80 \<le> 4096 * ?j" by simp
  moreover have "?j \<le> grow_pages n" by (simp add: grow_pages_def)
  ultimately show "unat n + 80 \<le> 4096 * grow_pages n" by (meson le_trans mult_le_mono2)
qed

text \<open>
  The regions of the kernel space as far as the heap depends on them: the manager is consistent, no
  region reaches into the heap area from below, the last region does not end below it, and there is
  room for \<open>k\<close> pages behind every region. The containers lie in addresses the space covers.
\<close>

definition heap_regions :: "u64 set \<Rightarrow> 'a kheap_state_scheme \<Rightarrow> u64 list \<Rightarrow> nat \<Rightarrow> bool" where
  "heap_regions R s rs k \<longleftrightarrow> vmm_ok R s \<and> regions_of s (kspace s) rs \<and> ranges_ok (rlist (vregions s) rs)
     \<and> (\<exists>sp. vspaces s (kspace s) = Some sp \<and> page_directory sp \<in> R)
     \<and> (\<forall>y \<in> set (rlist (vregions s) rs).
          (KERNEL_HEAP_START (syms s) \<le> fst (snd y) \<longrightarrow> KERNEL_HEAP_START (syms s) \<le> fst y)
          \<and> page_aligned (fst (snd y)) \<and> unat (fst (snd y)) + 4096 * (k + 2) < 2 ^ 64)
     \<and> (rs \<noteq> [] \<longrightarrow> KERNEL_HEAP_START (syms s) \<le> fst (snd (last (rlist (vregions s) rs))))
     \<and> page_aligned (KERNEL_HEAP_START (syms s)) \<and> unat (KERNEL_HEAP_START (syms s)) + 4096 * (k + 2) < 2 ^ 64"

definition heap_covered :: "'a kheap_state_scheme \<Rightarrow> u64 list \<Rightarrow> u64 list \<Rightarrow> bool" where
  "heap_covered s cs rs \<longleftrightarrow> (\<forall>c \<in> set cs. \<forall>x. unat x \<in> cont_range s c \<longrightarrow> (\<exists>g. x \<in> covered (rlist (vregions s) rs) g))"

lemma heap_regionsD:
  assumes "heap_regions R s rs k"
  shows "vmm_ok R s" and "regions_of s (kspace s) rs" and "ranges_ok (rlist (vregions s) rs)" and "unat PAGE_KERNEL_RW < 4096"
    and "\<forall>y \<in> set (rlist (vregions s) rs). KERNEL_HEAP_START (syms s) \<le> fst (snd y) \<longrightarrow> KERNEL_HEAP_START (syms s) \<le> fst y"
    and "rs \<noteq> [] \<Longrightarrow> KERNEL_HEAP_START (syms s) \<le> fst (snd (last (rlist (vregions s) rs)))"
    and "unat (KERNEL_HEAP_START (syms s)) + 4096 * (k + 2) < 2 ^ 64"
    and "\<forall>y \<in> set (rlist (vregions s) rs). unat (fst (snd y)) + 4096 * (k + 2) < 2 ^ 64"
    and "\<forall>y \<in> set (rlist (vregions s) rs). page_aligned (fst (snd y))" and "page_aligned (KERNEL_HEAP_START (syms s))"
  using assms unfolding heap_regions_def by (simp_all add: const_defs)

lemma vmm_frame_heap:
  fixes s s' :: "'a kheap_state_scheme"
  assumes "vmm_frame s s'"
  shows "kconts s' = kconts s" and "kblocks s' = kblocks s" and "heap s' = heap s" and "kspace s' = kspace s" and "syms s' = syms s"
  by (subst assms [unfolded vmm_frame_def], simp)+

lemma kheap_ok_cong:
  assumes "kconts s' = kconts s" and "kblocks s' = kblocks s" and "heap s' = heap s"
  shows "kheap_ok s' cs ps = kheap_ok s cs ps" and "allocated s' cs ps = allocated s cs ps"
    and "cont_range s' c = cont_range s c"
  by (simp_all add: kheap_ok_def cont_ok_def allocated_def chunks_def cont_range_def assms)

text \<open>The range the manager hands out for a new container.\<close>

lemma container_range:
  assumes hr: "heap_regions R s rs k" and hc: "heap_covered s cs rs" and k: "0 < k" "k \<le> 2 ^ 36"
    and va: "vmm_alloc_between s (kspace s) (KERNEL_HEAP_START (syms s)) (KERNEL_HEAP_STOP (syms s)) (of_nat k) PAGE_KERNEL_RW
      = Inr (c, s1)" and c: "c \<noteq> 0"
  obtains rs' where "vmm_frame s s1" and "unat c + 4096 * (k + 1) < 2 ^ 64" and "page_aligned c" and "vmm_ok R s1"
    and "\<forall>d \<in> set cs. cont_range s d \<inter> {unat c..<unat c + 4096 * k} = {}"
    and "regions_of s1 (kspace s) rs'" and "ranges_ok (rlist (vregions s1) rs')"
    and "\<forall>g. covered (rlist (vregions s1) rs') g = covered (rlist (vregions s) rs) g
      \<union> (if g = PAGE_KERNEL_RW then {c..<pg_at c k} else {})"
proof -
  let ?lo = "KERNEL_HEAP_START (syms s)" and ?xs = "rlist (vregions s) rs"
  obtain sp where sp: "vspaces s (kspace s) = Some sp" "page_directory sp \<in> R" using hr unfolding heap_regions_def by blast
  note h = heap_regionsD [OF hr]
  have r: "\<forall>g. covered ?xs g \<inter> {c - PAGE_SIZE_IN_BYTES..<pg_at c (k + 1)} = {}" "vmm_frame s s1"
    "unat c + 4096 * (k + 1) < 2 ^ 64" "vmm_ok R s1" "?lo + PAGE_SIZE_IN_BYTES \<le> c"
    and ca: "c = ?lo + PAGE_SIZE_IN_BYTES \<or> (\<exists>y \<in> set ?xs. c = fst (snd y) + PAGE_SIZE_IN_BYTES)"
    and ex: "\<exists>rs'. regions_of s1 (kspace s) rs' \<and> ranges_ok (rlist (vregions s1) rs')
      \<and> (\<forall>g. covered (rlist (vregions s1) rs') g = covered ?xs g \<union> (if g = PAGE_KERNEL_RW then {c..<pg_at c k} else {}))"
    using alloc_between_result [OF h(1-3) sp h(4-6) k(1) h(7) k(2) h(8) va] c by blast+
  have "page_aligned (x + PAGE_SIZE_IN_BYTES)" if "page_aligned x" for x using pg_at_aligned [OF that, of 1] by simp
  then have "page_aligned c" using ca h(9,10) by metis
  moreover have "cont_range s d \<inter> {unat c..<unat c + 4096 * k} = {}" if d: "d \<in> set cs" for d
  proof (rule ccontr)
    assume "cont_range s d \<inter> {unat c..<unat c + 4096 * k} \<noteq> {}"
    then obtain x where x: "x \<in> cont_range s d" "unat c \<le> x" "x < unat c + 4096 * k" by auto
    have ux: "unat (of_nat x :: u64) = x" using x(3) r(3) by (intro unat_of_nat64) simp
    obtain g where g: "of_nat x \<in> covered ?xs g" using hc d x(1) ux unfolding heap_covered_def by metis
    have "unat (c - PAGE_SIZE_IN_BYTES) \<le> unat c"
      using r(5) h(7) unat_pg_at [of ?lo 1] by (subst unat_sub_no_wrap) (simp_all add: word_le_nat_alt unat_page_size)
    then have "of_nat x \<in> {c - PAGE_SIZE_IN_BYTES..<pg_at c (k + 1)}"
      using x ux unat_pg_at [OF r(3)] by (simp add: word_le_nat_alt word_less_nat_alt)
    then show False using g r(1) by blast
  qed
  ultimately have p: "page_aligned c" "\<forall>d \<in> set cs. cont_range s d \<inter> {unat c..<unat c + 4096 * k} = {}" by blast+
  from ex obtain rs' where "regions_of s1 (kspace s) rs'" "ranges_ok (rlist (vregions s1) rs')"
    "\<forall>g. covered (rlist (vregions s1) rs') g = covered ?xs g \<union> (if g = PAGE_KERNEL_RW then {c..<pg_at c k} else {})" by blast
  then show thesis by (rule that [OF r(2,3) p(1) r(4) p(2)])
qed

lemma alloc_between_null:
  assumes hr: "heap_regions R s rs k" and k: "0 < k" "k \<le> 2 ^ 36"
    and va: "vmm_alloc_between s (kspace s) (KERNEL_HEAP_START (syms s)) (KERNEL_HEAP_STOP (syms s)) (of_nat k) PAGE_KERNEL_RW
      = Inr (0, s1)"
  shows "s1 = s"
proof -
  obtain sp where sp: "vspaces s (kspace s) = Some sp" "page_directory sp \<in> R" using hr unfolding heap_regions_def by blast
  note h = heap_regionsD [OF hr]
  have "unat (0 :: u64) = 0" by simp
  moreover have "unat (KERNEL_HEAP_START (syms s) + PAGE_SIZE_IN_BYTES) = unat (KERNEL_HEAP_START (syms s)) + 4096"
    using unat_pg_at [of "KERNEL_HEAP_START (syms s)" 1] h(7) by simp
  ultimately show ?thesis
    using alloc_between_result [OF h(1-3) sp h(4-6) k(1) h(7) k(2) h(8) va] by (auto simp: word_le_nat_alt)
qed

lemma cont_frame_vmm:
  assumes "cont_frame c s s'"
  shows "vregions s' = vregions s" and "vspaces s' = vspaces s" and "kspace s' = kspace s" and "vmm_ok R s' = vmm_ok R s"
proof -
  have e: "s' = s\<lparr>kconts := kconts s', kblocks := kblocks s'\<rparr>" using assms unfolding cont_frame_def by blast
  show "vregions s' = vregions s" "vspaces s' = vspaces s" "kspace s' = kspace s" by (subst e, simp)+
  show "vmm_ok R s' = vmm_ok R s"
    by (subst e) (simp add: vmm_ok_def vmm_inv_def objs_ok_def mmu_inv_def pmm_inv_def off_bitmaps_def mmu_pages_def free_pages_def)
qed

lemma push_cont_vmm:
  "vregions (push_cont c sz s) = vregions s" "vspaces (push_cont c sz s) = vspaces s" "kspace (push_cont c sz s) = kspace s"
  "vmm_ok R (push_cont c sz s) = vmm_ok R s"
  by (simp_all add: push_cont_def vmm_ok_def vmm_inv_def objs_ok_def mmu_inv_def pmm_inv_def off_bitmaps_def mmu_pages_def free_pages_def)

lemma heap_covered_grow:
  assumes hc: "heap_covered s cs rs"
    and rg: "\<And>e. e \<in> set (c # cs) \<Longrightarrow> cont_range s' e = (if e = c then {unat c..<unat c + 4096 * k} else cont_range s e)"
    and c: "unat c + 4096 * k < 2 ^ 64"
    and cov: "\<forall>g. covered (rlist (vregions s1) rs') g = covered (rlist (vregions s) rs) g \<union> (if g = f then {c..<pg_at c k} else {})"
    and vr: "vregions s' = vregions s1"
  shows "heap_covered s' (c # cs) rs'"
  unfolding heap_covered_def vr
proof (intro ballI allI impI)
  fix e and x :: u64 assume e: "e \<in> set (c # cs)" and x: "unat x \<in> cont_range s' e"
  show "\<exists>g. x \<in> covered (rlist (vregions s1) rs') g"
  proof (cases "e = c")
    case True
    then have "x \<in> {c..<pg_at c k}"
      using x rg [OF e] unat_pg_at [OF c] by (simp add: word_le_nat_alt word_less_nat_alt)
    then show ?thesis using cov by (intro exI [of _ f]) simp
  next
    case False
    then show ?thesis using hc e x rg [OF e] cov unfolding heap_covered_def by fastforce
  qed
qed

lemma kmalloc_growth:
  assumes ok: "kheap_ok s cs ps" and full: "\<forall>d \<in> set cs. first_fit n (chunks s (ps d)) = None"
    and hr: "heap_regions R s rs (grow_pages n)" and hc: "heap_covered s cs rs" and n: "grow_pages n \<le> 2 ^ 36"
    and va: "vmm_alloc_between s (kspace s) (KERNEL_HEAP_START (syms s)) (KERNEL_HEAP_STOP (syms s)) (of_nat (grow_pages n)) PAGE_KERNEL_RW
      = Inr (c, s1)"
  shows "if c = 0 then kmalloc s n = Inr (0, s)
    else \<exists>b m s' ps' rs'. kmalloc s n = Inr (BLOCK_DATA b, s') \<and> kheap_ok s' (c # cs) ps' \<and> n \<le> m
      \<and> 16 dvd unat (BLOCK_DATA b) \<and> allocated s' (c # cs) ps' = insert (b, m) (allocated s cs ps)
      \<and> (\<forall>x \<in> allocated s cs ps. data_bytes x \<inter> data_bytes (b, m) = {})
      \<and> vmm_ok R s' \<and> regions_of s' (kspace s') rs' \<and> ranges_ok (rlist (vregions s') rs') \<and> heap_covered s' (c # cs) rs'"
proof -
  let ?k = "grow_pages n"
  let ?sz = "of_nat ?k * PAGE_SIZE_IN_BYTES - sizeof_kcontainer :: u64"
  note gp = grow_pages_word [OF n]
  have k: "0 < ?k" by (simp add: grow_pages_def)
  have scan: "kmalloc_scan s n (heap s) = Some (Inr (0, s))" by (rule kmalloc_scan_none [OF ok]) (use full in blast)
  have d: "kdll (kconts s) (heap s) cs" using ok unfolding kheap_ok_def by blast
  show ?thesis
  proof (cases "c = 0")
    case True
    have "s1 = s" by (rule alloc_between_null [OF hr k n va [unfolded True]])
    moreover have "create_container s ((n + sizeof_kblock) div PAGE_SIZE_IN_BYTES + 2) = Inr (0, s1)"
      using va True unfolding create_container_def gp(1) by simp
    ultimately show ?thesis using True scan by (simp add: kmalloc_def)
  next
    case False
    obtain rs' where r: "vmm_frame s s1" "unat c + 4096 * (?k + 1) < 2 ^ 64" "page_aligned c" "vmm_ok R s1"
      "\<forall>d \<in> set cs. cont_range s d \<inter> {unat c..<unat c + 4096 * ?k} = {}" "regions_of s1 (kspace s) rs'"
      "ranges_ok (rlist (vregions s1) rs')"
      "\<forall>g. covered (rlist (vregions s1) rs') g = covered (rlist (vregions s) rs) g \<union> (if g = PAGE_KERNEL_RW then {c..<pg_at c ?k} else {})"
      by (rule container_range [OF hr hc k n va False])
    note fr = vmm_frame_heap [OF r(1)]
    note cg = kheap_ok_cong [OF fr(1-3)]
    let ?s2 = "push_cont c ?sz s1" and ?ps = "ps(c := [CONTAINER_DATA c])"
    have hi: "unat c + 4096 * ?k + 64 < 2 ^ 64" using r(2) by simp
    have ok1: "kheap_ok s1 cs ps" using ok cg(1) by simp
    have ap: "\<forall>d \<in> set cs. cont_range s1 d \<inter> {unat c..<unat c + 4096 * ?k} = {}" using r(5) unfolding cg(3) .
    note pu = push_cont_ok [OF ok1 r(3) hi k False refl ap] and nw = push_cont_new [OF r(3) hi k refl, of s1]
    have h: "kconts s1 (heap s1) \<noteq> None \<and> heap s1 \<noteq> c" if "heap s1 \<noteq> 0"
    proof -
      have "heap s \<in> set cs" using dll_start [OF d] that fr(3) by (cases cs) auto
      moreover have "c \<notin> set cs" using ap cont_range_start [of c s1] k by fastforce
      ultimately show ?thesis using dll_node [OF d] fr by auto
    qed
    have cr: "create_container s ((n + sizeof_kblock) div PAGE_SIZE_IN_BYTES + 2) = Inr (c, ?s2)"
      using create_container_run [of s "(n + sizeof_kblock) div PAGE_SIZE_IN_BYTES + 2" c s1, unfolded gp(1), OF va h] False by simp
    have "unat (?sz - sizeof_kblock) = 4096 * ?k - 80" by (rule unat_cont_data(3) [OF hi k refl])
    then have "n \<le> ?sz - sizeof_kblock" using gp(2) by (simp add: word_le_nat_alt)
    then obtain b xs where ff: "first_fit n (chunks ?s2 (?ps c)) = Some (b, xs)" using nw(2) by simp
    obtain s' qs where t: "try_alloc_block ?s2 c n = Inr (b, s')" "b \<noteq> 0" "cont_ok s' c qs" "chunks s' qs = xs" "cont_frame c ?s2 s'"
      using try_alloc_block_some [of ?s2 c "?ps c" n b xs] nw(1) ff unfolding chunks_def by (metis fun_upd_same)
    have cin: "c \<in> set (c # cs)" by simp
    obtain m where m: "kheap_ok s' (c # cs) (?ps(c := qs))" "n \<le> m" "16 dvd unat (BLOCK_DATA b)"
      "allocated s' (c # cs) (?ps(c := qs)) = insert (b, m) (allocated ?s2 (c # cs) ?ps)"
      "\<And>x. x \<in> allocated ?s2 (c # cs) ?ps \<Longrightarrow> data_bytes x \<inter> data_bytes (b, m) = {}"
      by (rule alloc_step [OF pu(1) cin ff t(3-5)]) (rule that)
    have al: "allocated ?s2 (c # cs) ?ps = allocated s cs ps" using pu(2) cg(2) by simp
    have run: "kmalloc s n = Inr (BLOCK_DATA b, s')" using scan cr t(1,2) False by (simp add: kmalloc_def)
    note cf = cont_frame_vmm [OF t(5)]
    have "cont_range s' e = (if e = c then {unat c..<unat c + 4096 * ?k} else cont_range s e)" if "e \<in> set (c # cs)" for e
      using nw(3) cont_frame_stop [OF t(5), of e] pu(3) [of e] cg(3) that by (auto simp: cont_range_def)
    note cov = heap_covered_grow [OF hc this _ r(8)]
    have "vmm_ok R s'" "regions_of s' (kspace s') rs'" "ranges_ok (rlist (vregions s') rs')" "heap_covered s' (c # cs) rs'"
      using r(2,4,6,7) cov fr(4) unfolding cf regions_of_def push_cont_vmm by auto
    moreover have "\<forall>x \<in> allocated s cs ps. data_bytes x \<inter> data_bytes (b, m) = {}" using m(5) unfolding al by blast
    ultimately have "\<exists>b m s' ps' rs'. kmalloc s n = Inr (BLOCK_DATA b, s') \<and> kheap_ok s' (c # cs) ps' \<and> n \<le> m
      \<and> 16 dvd unat (BLOCK_DATA b) \<and> allocated s' (c # cs) ps' = insert (b, m) (allocated s cs ps)
      \<and> (\<forall>x \<in> allocated s cs ps. data_bytes x \<inter> data_bytes (b, m) = {})
      \<and> vmm_ok R s' \<and> regions_of s' (kspace s') rs' \<and> ranges_ok (rlist (vregions s') rs') \<and> heap_covered s' (c # cs) rs'"
      using run m(1-4) unfolding al by blast
    then show ?thesis using False by simp
  qed
qed

text \<open>
  C13. Allocation when no block fits. \<^verbatim>\<open>kmalloc\<close> asks the virtual memory manager for a range of pages;
  whenever the manager answers, \<^verbatim>\<open>kmalloc\<close> returns. It returns null exactly if the manager does,
  with nothing changed. Otherwise the range becomes a new container in front of the others, the
  request always fits into it (the panic \<^verbatim>\<open>the impossible is possible\<close> is impossible), the area
  handed out is aligned, large enough and meets no other, and the invariants of the heap and of the
  manager hold again, with all containers in covered addresses.
\<close>

theorem kmalloc_grows:
  assumes ok: "kheap_ok s cs ps" and full: "\<forall>d \<in> set cs. first_fit n (chunks s (ps d)) = None"
    and hr: "heap_regions R s rs (grow_pages n)" and hc: "heap_covered s cs rs" and n: "grow_pages n \<le> 2 ^ 36"
    and va: "vmm_alloc_between s (kspace s) (KERNEL_HEAP_START (syms s)) (KERNEL_HEAP_STOP (syms s)) (of_nat (grow_pages n)) PAGE_KERNEL_RW
      = Inr (c, s1)"
  shows "if c = 0 then kmalloc s n = Inr (0, s)
    else \<exists>b m s' ps' rs'. kmalloc s n = Inr (BLOCK_DATA b, s') \<and> kheap_ok s' (c # cs) ps' \<and> n \<le> m
      \<and> 16 dvd unat (BLOCK_DATA b) \<and> allocated s' (c # cs) ps' = insert (b, m) (allocated s cs ps)
      \<and> (\<forall>x \<in> allocated s cs ps. data_bytes x \<inter> data_bytes (b, m) = {})
      \<and> vmm_ok R s' \<and> regions_of s' (kspace s') rs' \<and> ranges_ok (rlist (vregions s') rs') \<and> heap_covered s' (c # cs) rs'"
  by (rule kmalloc_growth [OF assms])

section \<open>The first container\<close>

text \<open>A kernel space without regions and an empty heap, as when the heap is initialised.\<close>

definition vmm2 :: vmm_state where
  "vmm2 = vmm1\<lparr>vregions := Map.empty, vspaces := [sp0 \<mapsto> \<lparr>page_directory = root0, sp_region = 0\<rparr>]\<rparr>"

definition kheap2 :: kheap_state where
  "kheap2 = vmm_state.extend vmm2 (kheap_state.fields Map.empty Map.empty 0)"

lemma vmm_ok_fields:
  fixes s :: "'a vmm_state_scheme" and t :: "'b vmm_state_scheme"
  assumes "mem t = mem s" "pmap t = pmap s" "vregions t = vregions s" "vspaces t = vspaces s"
    "vblocks t = vblocks s" "block_heads t = block_heads s"
  shows "vmm_ok R t = vmm_ok R s" and "has_slot ty t = has_slot ty s" and "pmm_room t k = pmm_room s k"
  by (simp_all add: assms vmm_ok_def vmm_inv_def objs_ok_def mmu_inv_def pmm_inv_def off_bitmaps_def mmu_pages_def
      free_pages_def has_slot_def pmm_room_def)

lemma vmm2_ok: "vmm_ok {root0} vmm2"
  by (rule vmm_ok_heaps [OF vmm1_ok]) (use vmm1_regions(3) in \<open>auto simp: vmm2_def\<close>)

lemma kheap2_fields:
  "mem kheap2 = mem vmm1" "pmap kheap2 = pmap vmm1" "vregions kheap2 = Map.empty"
  "vspaces kheap2 = [sp0 \<mapsto> \<lparr>page_directory = root0, sp_region = 0\<rparr>]" "vblocks kheap2 = vblocks vmm1"
  "block_heads kheap2 = block_heads vmm1" "kspace kheap2 = sp0" "syms kheap2 = ks0" "heap kheap2 = 0" "kconts kheap2 = Map.empty"
  by (simp_all add: kheap2_def vmm2_def vmm_state.defs kheap_state.defs) (simp_all add: vmm1_def vmm0_def)

lemma kheap2_vmm: "vmm_ok {root0} kheap2" "has_slot TYPE_VMM_REGION kheap2" "pmm_room kheap2 100"
proof -
  show "vmm_ok {root0} kheap2"
    using vmm2_ok by (subst vmm_ok_fields(1) [of _ vmm2]) (simp_all add: kheap2_fields, simp_all add: vmm2_def)
  show "has_slot TYPE_VMM_REGION kheap2"
    using vmm1_has_slot by (simp add: has_slot_def kheap2_fields)
  show "pmm_room kheap2 100" using vmm1_room by (simp add: pmm_room_def kheap2_fields)
qed

lemma kheap2_ok: "kheap_ok kheap2 [] ps"
  by (simp add: kheap_ok_def kheap2_fields dll_def)

lemma kheap2_regions: "regions_of kheap2 sp0 []"
  by (simp add: regions_of_def kheap2_fields)

lemma heap_area: "KERNEL_HEAP_START ks0 = 0xffffffef80000000" "KERNEL_HEAP_STOP ks0 = 0xffffffff80000000"
  by (simp_all add: KERNEL_HEAP_START_def KERNEL_HEAP_STOP_def ks0_def const_defs)

lemma kheap2_alloc:
  obtains c s1 where "vmm_alloc_between kheap2 (kspace kheap2) (KERNEL_HEAP_START (syms kheap2)) (KERNEL_HEAP_STOP (syms kheap2))
      (of_nat (grow_pages 100)) PAGE_KERNEL_RW = Inr (c, s1)" and "c \<noteq> 0"
proof -
  let ?lo = "KERNEL_HEAP_START ks0" and ?sp = "\<lparr>page_directory = root0, sp_region = 0\<rparr>"
  have g5: "grow_pages 100 = 5" by (simp add: grow_pages_def)
  have sp: "vspaces kheap2 sp0 = Some ?sp" "page_directory ?sp \<in> {root0}" "unat PAGE_KERNEL_RW < 4096"
    by (simp_all add: kheap2_fields const_defs)
  have g: "gap_from ?lo (of_nat 5 * PAGE_SIZE_IN_BYTES + 2 * PAGE_SIZE_IN_BYTES) ?lo (rlist (vregions kheap2) []) = (0, ?lo)"
    by simp
  have v: "(0 :: nat) < 5" "(5 :: nat) \<le> 2 ^ 36" "unat ?lo + 4096 * (5 + 2) < 2 ^ 64" unfolding heap_area by simp_all
  have nc: "\<not> collides (take 0 (rlist (vregions kheap2) [])) (drop 0 (rlist (vregions kheap2) [])) ?lo (pg_at ?lo (5 + 2))"
    by (simp add: collides_def)
  have rm: "pmm_room kheap2 (4 * 5)" by (rule pmm_room_mono [OF kheap2_vmm(3)]) simp
  have un: "\<forall>x \<in> {?lo..<pg_at ?lo (5 + 2)}. (\<forall>g. x \<notin> covered (rlist (vregions kheap2) []) g) \<longrightarrow> mmu_entry (mem kheap2) (page_directory ?sp) x = 0"
    by (simp add: kheap2_fields vmm1_entry)
  have so: "ranges_ok (rlist (vregions kheap2) [])" by simp
  obtain s1 where "vmm_alloc_between kheap2 sp0 ?lo (KERNEL_HEAP_STOP ks0) (of_nat 5) PAGE_KERNEL_RW =
      (if KERNEL_HEAP_STOP ks0 \<le> pg_at ?lo (5 + 2) then Inr (0, kheap2) else Inr (?lo + PAGE_SIZE_IN_BYTES, s1))"
    using alloc_between_total [OF kheap2_vmm(1) kheap2_regions so sp v(1,2) g v(3) nc kheap2_vmm(2) rm un] by blast
  then have "vmm_alloc_between kheap2 sp0 ?lo (KERNEL_HEAP_STOP ks0) (of_nat 5) PAGE_KERNEL_RW = Inr (?lo + PAGE_SIZE_IN_BYTES, s1)"
    by (simp add: heap_area const_defs)
  then show thesis by (intro that [of "?lo + PAGE_SIZE_IN_BYTES" s1]) (simp_all add: kheap2_fields g5, simp add: heap_area const_defs)
qed

lemma kheap2_heap:
  "grow_pages 100 \<le> 2 ^ 36" "heap_regions {root0} kheap2 [] (grow_pages 100)" "heap_covered kheap2 [] []"
  "allocated kheap2 [] blocks0 = {}" "\<forall>d \<in> set []. first_fit 100 (chunks kheap2 (blocks0 d)) = None"
proof -
  have g5: "grow_pages 100 = 5" by (simp add: grow_pages_def)
  then show "grow_pages 100 \<le> 2 ^ 36" by simp
  show "heap_regions {root0} kheap2 [] (grow_pages 100)"
    using kheap2_vmm(1) kheap2_regions unfolding heap_regions_def g5 by (simp add: kheap2_fields heap_area)
qed (simp_all add: heap_covered_def allocated_def)

theorem kmalloc_grows_witness:
  "\<exists>c b m s' ps'. kmalloc kheap2 100 = Inr (BLOCK_DATA b, s') \<and> kheap_ok s' [c] ps' \<and> allocated s' [c] ps' = {(b, m)} \<and> 100 \<le> m"
proof -
  obtain c s1 where va: "vmm_alloc_between kheap2 (kspace kheap2) (KERNEL_HEAP_START (syms kheap2)) (KERNEL_HEAP_STOP (syms kheap2))
      (of_nat (grow_pages 100)) PAGE_KERNEL_RW = Inr (c, s1)" "c \<noteq> 0" by (rule kheap2_alloc)
  show ?thesis
    using kmalloc_grows [OF kheap2_ok kheap2_heap(5,2,3,1) va(1), unfolded if_not_P [OF va(2)] kheap2_heap(4)] by blast
qed

end
