(* ===== verification/Release.thy ===== *)
theory Release
  imports Spaces
begin

text \<open>
  Release of address ranges (\<^verbatim>\<open>vmm_free\<close> of \<^verbatim>\<open>kernel/mm/vmm.c\<close>): the range is cut out of the region list,
  then every page of it is unmapped and given back to the page allocator.
\<close>

section \<open>Unmapping a range\<close>

text \<open>
  A page that can be given back: a page of an available region at a bitmap position that the release handles,
  above the kernel's own pages, that is not free and holds neither a page table nor a part of a bitmap nor
  a block of the manager's objects.
\<close>

definition page_releasable :: "u64 set \<Rightarrow> 'a vmm_state_scheme \<Rightarrow> u64 \<Rightarrow> bool" where
  "page_releasable R s p \<longleftrightarrow> (\<exists>q \<in> set (pmap s). avail q \<and> (\<exists>j < unat (pr_size_in_pages q). 32 < j mod 64 \<and> p = page_of q j))
     \<and> V2P (pmm_vma_stop s) < p \<and> DM_P2V p \<notin> mmu_pages R s \<and> DM_P2V p \<noteq> 0 \<and> off_bitmaps s (DM_P2V p)
     \<and> DM_P2V p \<notin> dom (vblocks s)"

lemma releasable_aligned:
  assumes "mmu_inv R s" and "page_releasable R s p"
  shows "page_aligned p" and "page_aligned (DM_P2V p)"
proof -
  obtain q j where q: "q \<in> set (pmap s)" "avail q" "j < unat (pr_size_in_pages q)" "p = page_of q j"
    using assms(2) unfolding page_releasable_def by blast
  have ok: "region_ok q" using mmu_invD(1) [OF assms(1)] q(1) by (simp add: pmm_inv_def pmap_ok_def)
  show "page_aligned p"
    using page_of_unat [OF ok q(2,3)] ok q(2,4) by (simp add: region_ok_def mod_add_left_eq [symmetric])
  then show "page_aligned (DM_P2V p)" by (rule DM_P2V_aligned)
qed

lemma releasable_kept:
  assumes "page_releasable R s p" and "mappings_kept R s t"
  shows "page_releasable R t p"
  using assms unfolding page_releasable_def mappings_kept_def off_bitmaps_def by auto

text \<open>After \<open>k\<close> rounds the pages \<open>f 0\<close>, \<open>f 1\<close>, ... are free and their virtual pages are not mapped.\<close>

definition released ::
    "u64 set \<Rightarrow> 'a vmm_state_scheme \<Rightarrow> u64 \<Rightarrow> u64 \<Rightarrow> nat \<Rightarrow> (nat \<Rightarrow> u64) \<Rightarrow> 'a vmm_state_scheme \<Rightarrow> bool" where
  "released R s r va k f t \<longleftrightarrow> mmu_inv R t \<and> t = s\<lparr>mem := mem t, flushed := flushed t\<rparr>
     \<and> free_pages t = free_pages s \<union> f ` {..<k} \<and> tables R (mem t) = tables R (mem s)
     \<and> (\<forall>x. outside_bitmaps (pmap s) x \<and> (\<forall>p \<in> mmu_pages R s \<union> DM_P2V ` f ` {..<k}. \<not> page_bytes p x) \<longrightarrow> mem t x = mem s x)
     \<and> (\<forall>r' \<in> R. \<forall>x. mmu_entry (mem t) r' x =
          (if r' = r \<and> (\<exists>i < k. same_page x (pg_at va i)) then 0 else mmu_entry (mem s) r' x))"

lemma releasedD:
  assumes "released R s r va k f t"
  shows "mmu_inv R t" and "t = s\<lparr>mem := mem t, flushed := flushed t\<rparr>" and "free_pages t = free_pages s \<union> f ` {..<k}"
    and "tables R (mem t) = tables R (mem s)"
    and "outside_bitmaps (pmap s) x \<Longrightarrow> \<forall>p \<in> mmu_pages R s \<union> DM_P2V ` f ` {..<k}. \<not> page_bytes p x \<Longrightarrow> mem t x = mem s x"
    and "r' \<in> R \<Longrightarrow> mmu_entry (mem t) r' y =
      (if r' = r \<and> (\<exists>i < k. same_page y (pg_at va i)) then 0 else mmu_entry (mem s) r' y)"
  using assms unfolding released_def by blast+

lemma released_start: "mmu_inv R s \<Longrightarrow> released R s r va 0 f s"
  by (simp add: released_def)

lemma released_step:
  assumes b: "released R s r va k f t" and k: "k < n" and rng: "unat va + 4096 * n < 2 ^ 64" "n \<le> 2 ^ 36"
    and sp: "vspaces s space = Some sp" "page_directory sp = r" "r \<in> R"
    and e: "mmu_entry (mem s) r (pg_at va k) = f k OR perm" "f k OR perm \<noteq> 0" "unat perm < 4096"
    and rel: "page_releasable R s (f k)"
  shows "\<exists>t'. unmap_step space t (pg_at va k) = Inr t' \<and> released R s r va (Suc k) f t'"
proof -
  note bd = releasedD [OF b]
  have same: "vspaces t space = Some sp" "pmap t = pmap s" "pmm_vma_stop t = pmm_vma_stop s" by (subst bd(2), simp add: sp(1))+
  obtain q j where q: "q \<in> set (pmap t)" "avail q" "j < unat (pr_size_in_pages q)" "32 < j mod 64" "f k = page_of q j"
    using rel same unfolding page_releasable_def by auto
  have p: "V2P (pmm_vma_stop t) < page_of q j" "DM_P2V (page_of q j) \<notin> tables R (mem t)" "off_bitmaps t (DM_P2V (page_of q j))"
    using rel same bd(4) unfolding page_releasable_def q(5) by (auto simp: mmu_pages_def off_bitmaps_def)
  have "\<not> same_page (pg_at va k) (pg_at va i)" if "i < k" for i
    using that k by (intro pg_at_distinct [OF rng]) auto
  then have et: "mmu_entry (mem t) (page_directory sp) (pg_at va k) = page_of q j OR perm"
    using bd(6) [OF sp(3)] e(1) sp(2) q(5) by auto
  have r: "page_directory sp \<in> R" and nz: "page_of q j OR perm \<noteq> 0" using sp e(2) q(5) by simp_all
  obtain t' where t': "mmu_unmap_page t space (pg_at va k) = Inr (page_of q j OR perm, t')" "mmu_inv R t'"
    "free_pages t' = insert (page_of q j) (free_pages t)"
    "\<forall>r' \<in> R. \<forall>x. mmu_entry (mem t') r' x = (if r' = page_directory sp \<and> same_page x (pg_at va k) then 0 else mmu_entry (mem t) r' x)"
    "t' = t\<lparr>mem := mem t', flushed := pg_at va k # flushed t\<rparr>" "tables R (mem t') = tables R (mem t)"
    "\<forall>x. mmu_untouched R t x \<longrightarrow> mem t' x = mem t x"
    using unmap_page_run [OF bd(1) same(1) r et nz e(3) q(1-4) p] by (elim exE conjE) (rule that)
  have "t' = s\<lparr>mem := mem t', flushed := flushed t'\<rparr>" by (subst t'(5), subst bd(2)) (simp, subst t'(5), simp)
  moreover have "free_pages t' = free_pages s \<union> f ` {..<Suc k}" using t'(3) bd(3) q(5) by (auto simp: lessThan_Suc)
  moreover have "mem t' x = mem s x"
    if x: "outside_bitmaps (pmap s) x" "\<forall>p \<in> mmu_pages R s \<union> DM_P2V ` f ` {..<Suc k}. \<not> page_bytes p x" for x
  proof -
    have "mmu_pages R t = mmu_pages R s \<union> DM_P2V ` f ` {..<k}" using bd(3,4) by (auto simp: mmu_pages_def)
    then have "mmu_untouched R t x" using x same(2) by (auto simp: mmu_untouched_def)
    moreover have "\<forall>p \<in> mmu_pages R s \<union> DM_P2V ` f ` {..<k}. \<not> page_bytes p x" using x(2) by (auto simp: less_Suc_eq)
    ultimately show ?thesis using t'(7) bd(5) [OF x(1)] by simp
  qed
  moreover have "mmu_entry (mem t') r' x = (if r' = r \<and> (\<exists>i < Suc k. same_page x (pg_at va i)) then 0 else mmu_entry (mem s) r' x)"
    if "r' \<in> R" for r' x
    using t'(4) that bd(6) [OF that] sp(2) by (auto simp: less_Suc_eq)
  ultimately have "released R s r va (Suc k) f t'" using t'(2,6) bd(4) unfolding released_def by blast
  moreover have "unmap_step space t (pg_at va k) = Inr t'" using t'(1) e(2) q(5) by (simp add: unmap_step_def)
  ultimately show ?thesis by blast
qed

lemma unmap_range:
  assumes inv: "mmu_inv R s" and rng: "unat va + 4096 * n < 2 ^ 64" "n \<le> 2 ^ 36"
    and sp: "vspaces s space = Some sp" "page_directory sp = r" "r \<in> R"
    and e: "\<forall>i < n. mmu_entry (mem s) r (pg_at va i) = f i OR perm \<and> f i OR perm \<noteq> 0" "unat perm < 4096"
    and rel: "\<forall>i < n. page_releasable R s (f i)"
  shows "\<exists>t. page_loop (unmap_step space) s va (pg_at va n) = Inr t \<and> released R s r va n f t"
proof (rule page_loop_total [where I = "\<lambda>k t. released R s r va k f t", OF rng(1) released_start [OF inv]])
  fix k t assume k: "k < n" and b: "released R s r va k f t"
  show "\<exists>t'. unmap_step space t (pg_at va k) = Inr t' \<and> released R s r va (Suc k) f t'"
    by (rule released_step [OF b k rng sp _ _ e(2)]) (use e(1) rel k in auto)
qed

text \<open>The blocks of objects are not among the pages given back, so the manager's invariant survives.\<close>

lemma released_vmm_ok:
  fixes s t :: "'a vmm_state_scheme"
  assumes ok: "vmm_ok R s" and b: "released R s r va n f t"
    and rel: "\<forall>i < n. page_releasable R s (f i)"
  shows "vmm_ok R t"
proof -
  obtain bs live where inv: "vmm_inv R bs live s" "dom (vregions s) \<subseteq> live TYPE_VMM_REGION"
    "dom (vspaces s) \<subseteq> live TYPE_VMM_SPACE" using ok unfolding vmm_ok_def by blast
  note bd = releasedD [OF b]
  have f: "\<forall>i < n. DM_P2V (f i) \<noteq> 0 \<and> DM_P2V (f i) \<notin> dom (vblocks s) \<and> page_aligned (DM_P2V (f i))"
    using rel releasable_aligned(2) [OF vmm_ok_mmu [OF ok]] unfolding page_releasable_def by blast
  have pm: "pmap t = pmap s" "vblocks t = vblocks s" "block_heads t = block_heads s"
    "vregions t = vregions s" "vspaces t = vspaces s" by (subst bd(2), simp)+
  have pg: "mmu_pages R t = mmu_pages R s \<union> DM_P2V ` f ` {..<n}" using bd(3,4) by (auto simp: mmu_pages_def)
  have bl: "a \<in> dom (vblocks s)" if "a \<in> set (bs ty)" for a ty
    using objs_okD(2) [OF vmm_invD(2) [OF inv(1)] that] by blast
  have eq: "mem t x = mem s x" if a: "a \<in> set (bs ty)" "page_bytes a x" for ty a x
  proof (rule bd(5))
    have u: "mmu_untouched R s x" by (rule block_untouched [OF inv(1) a])
    then show "outside_bitmaps (pmap s) x" by (simp add: mmu_untouched_def)
    have "\<not> page_bytes (DM_P2V (f i)) x" if "i < n" for i
      using f that bl [OF a(1)] pages_bytes_disjoint [OF vmm_invD(5) [OF inv(1) a(1)]] a(2) by metis
    then show "\<forall>p \<in> mmu_pages R s \<union> DM_P2V ` f ` {..<n}. \<not> page_bytes p x" using u by (auto simp: mmu_untouched_def)
  qed
  have "a \<notin> mmu_pages R t" if "a \<in> set (bs ty)" for a ty
    using vmm_invD(3) [OF inv(1) that] bl [OF that] f unfolding pg by auto
  moreover have "0 \<notin> mmu_pages R t" using inv(1) f unfolding pg vmm_inv_def by auto
  ultimately have "vmm_inv R bs live t" by (intro vmm_inv_change [OF inv(1) bd(1) pm(1-3) eq])
  then show ?thesis using inv(2,3) pm unfolding vmm_ok_def by auto
qed

section \<open>Release of a range\<close>

text \<open>The release with everything its clients use.\<close>

lemma vmm_free_result:
  assumes ok: "vmm_ok R s" and ro: "regions_of s space ps" and so: "ranges_ok (rlist (vregions s) ps)"
    and sp: "vspaces s space = Some sp" "page_directory sp \<in> R"
    and x: "x \<in> set ps" and r: "vregions s x = Some r" "unat (vr_flags r) < 4096"
    and va: "va_start r \<le> va" "0 < n" "unat va + 4096 * n < 2 ^ 64" "n \<le> 2 ^ 36" "pg_at va n \<le> va_stop r"
    and rel: "(va_start r = va) = (va_stop r = pg_at va n) \<Longrightarrow> releasable TYPE_VMM_REGION s x"
    and frames: "\<forall>i < n. mmu_entry (mem s) (page_directory sp) (pg_at va i) = f i OR vr_flags r \<and> f i OR vr_flags r \<noteq> 0
      \<and> page_releasable R s (f i)"
    and cut: "vmm_remove_range s space va (pg_at va n) = Inr s1"
  shows "\<exists>s'. vmm_free s space va (of_nat n) = Inr s' \<and> vmm_ok R s'
    \<and> (\<exists>ps'. regions_of s' space ps' \<and> ranges_ok (rlist (vregions s') ps')
      \<and> (\<forall>g. covered (rlist (vregions s') ps') g = covered (rlist (vregions s) ps) g - {va..<pg_at va n}))
    \<and> f ` {..<n} \<subseteq> free_pages s' \<and> free_pages s' \<subseteq> free_pages s \<union> f ` {..<n}
    \<and> (\<forall>r' \<in> R. \<forall>y. mmu_entry (mem s') r' y =
        (if r' = page_directory sp \<and> (\<exists>i < n. same_page y (pg_at va i)) then 0 else mmu_entry (mem s) r' y))
    \<and> map_option page_directory (vspaces s' space) = Some (page_directory sp)
    \<and> s' = s1\<lparr>mem := mem s', flushed := flushed s'\<rparr>"
proof -
  have lt: "va < pg_at va n" using unat_pg_at [OF va(3)] va(2) by (simp add: word_less_nat_alt)
  obtain ps' where c: "regions_of s1 space ps'" "ranges_ok (rlist (vregions s1) ps')"
    "\<forall>g. covered (rlist (vregions s1) ps') g = covered (rlist (vregions s) ps) g - {va..<pg_at va n}"
    "vmm_ok R s1" "mappings_kept R s s1"
    using vmm_remove_range_cut [OF ok ro so x r(1) va(1) lt va(5) rel cut] unfolding cut_result_def by blast
  have k: "\<forall>r \<in> R. \<forall>va. mmu_entry (mem s1) r va = mmu_entry (mem s) r va" "free_pages s1 \<subseteq> free_pages s"
    "map_option page_directory (vspaces s1 space) = Some (page_directory sp)"
    using c(5) sp(1) unfolding mappings_kept_def by auto
  then obtain sp1 where sp1: "vspaces s1 space = Some sp1" "page_directory sp1 = page_directory sp" by auto
  have rel1: "\<forall>i < n. page_releasable R s1 (f i)" using frames releasable_kept [OF _ c(5)] by blast
  obtain t where t: "page_loop (unmap_step space) s1 va (pg_at va n) = Inr t" "released R s1 (page_directory sp) va n f t"
    using unmap_range [OF vmm_ok_mmu [OF c(4)] va(3,4) sp1 sp(2) _ r(2) rel1] k(1) frames sp(2) by auto
  note bd = releasedD [OF t(2)]
  have same: "vregions t = vregions s1" "vspaces t = vspaces s1" by (subst bd(2), simp)+
  have "regions_of t space ps'" using c(1) unfolding regions_of_def same .
  moreover have "vmm_free s space va (of_nat n) = Inr t" using cut t(1) by (simp add: vmm_free_def)
  moreover have "vmm_ok R t" by (rule released_vmm_ok [OF c(4) t(2) rel1])
  moreover have "mmu_entry (mem t) r' y =
      (if r' = page_directory sp \<and> (\<exists>i < n. same_page y (pg_at va i)) then 0 else mmu_entry (mem s) r' y)" if "r' \<in> R" for r' y
    using bd(6) [OF that, of y] bspec [OF k(1) that] by presburger
  moreover have "f ` {..<n} \<subseteq> free_pages t" "free_pages t \<subseteq> free_pages s \<union> f ` {..<n}" using bd(3) k(2) by auto
  moreover have "map_option page_directory (vspaces t space) = Some (page_directory sp)" using k(3) unfolding same .
  ultimately show ?thesis using c(2,3) bd(2) unfolding same [symmetric] by blast
qed

text \<open>
  C6. Release of a range inside a region, for frames that can be given back: each is a page of the
  allocator above the kernel's own pages, at a position above 32 in its block of the bitmap, because for
  the positions below that the shift in \<^verbatim>\<open>bitmap_unset\<close> is undefined, and at position 32 it frees the
  positions 0 to 31 with it; none holds a page table, a bitmap or a block of the manager. A region
  object that the cut drops or splits has to be at such a position too. Once the range is cut out
  of the region list, \<^verbatim>\<open>vmm_free\<close> returns: the addresses of the range and no others stop being covered, every page of the range is
  unmapped, its frames are free again and no other page became free, every other mapping of
  every space is unchanged, and the invariant of the manager holds again.
\<close>

theorem vmm_free_gives_back:
  assumes ok: "vmm_ok R s" and ro: "regions_of s space ps" and so: "ranges_ok (rlist (vregions s) ps)"
    and sp: "vspaces s space = Some sp" "page_directory sp \<in> R"
    and x: "x \<in> set ps" and r: "vregions s x = Some r" "unat (vr_flags r) < 4096"
    and va: "va_start r \<le> va" "0 < n" "unat va + 4096 * n < 2 ^ 64" "n \<le> 2 ^ 36" "pg_at va n \<le> va_stop r"
    and rel: "(va_start r = va) = (va_stop r = pg_at va n) \<Longrightarrow> releasable TYPE_VMM_REGION s x"
    and frames: "\<forall>i < n. mmu_entry (mem s) (page_directory sp) (pg_at va i) = f i OR vr_flags r \<and> f i OR vr_flags r \<noteq> 0
      \<and> page_releasable R s (f i)"
    and cut: "vmm_remove_range s space va (pg_at va n) = Inr s1"
  shows "\<exists>s'. vmm_free s space va (of_nat n) = Inr s' \<and> vmm_ok R s'
    \<and> (\<exists>ps'. regions_of s' space ps' \<and> ranges_ok (rlist (vregions s') ps')
      \<and> (\<forall>g. covered (rlist (vregions s') ps') g = covered (rlist (vregions s) ps) g - {va..<pg_at va n}))
    \<and> f ` {..<n} \<subseteq> free_pages s' \<and> free_pages s' \<subseteq> free_pages s \<union> f ` {..<n}
    \<and> (\<forall>r' \<in> R. \<forall>y. mmu_entry (mem s') r' y =
        (if r' = page_directory sp \<and> (\<exists>i < n. same_page y (pg_at va i)) then 0 else mmu_entry (mem s) r' y))"
  using vmm_free_result [OF assms] by blast

text \<open>\<open>vmm0\<close> with frames 8 to 63 taken.\<close>

definition vmm4 :: vmm_state where
  "vmm4 = vmm0\<lparr>mem := store64 (mem vmm0) 0x1000 0xff00000000000000\<rparr>"

lemma vmm0_free: "bm_free (mem vmm0) bm100 = {..<100}"
proof -
  have wf: "bm_wf bm100" using region100_ok by (simp add: region_ok_def region100_def)
  have "bm_free (mem vmm0) bm100 = bm_free ones bm100"
  proof (rule bm_raw_frame(2) [OF wf])
    fix x assume "bm_span bm100 x"
    then have "unat x < 0x2000" by (rule span100)
    then have "\<not> page_bytes root0 x" "\<not> page_bytes sblk0 x" "\<not> page_bytes rblk0 x"
      using blk0_unat by (simp_all add: page_bytes_unat [OF root0_aligned] page_bytes_unat [OF blk0_aligned(1)] page_bytes_unat [OF blk0_aligned(2)])
    then show "mem vmm0 x = ones x" by (simp add: vmm0_def ones_def)
  qed
  then show ?thesis by (simp add: bm_free_ones) (simp add: bm100_def)
qed

lemma vmm4_inv: "vmm_inv {root0} vblocks0 vlive0 vmm4"
proof (rule vmm_inv_change [OF vmm0_inv])
  note lf = low_frames [OF vmm0_mmu vmm0_pmap vmm0_free]
  show "mmu_inv {root0} vmm4" using lf(1) by (simp add: vmm4_def)
  show "pmap vmm4 = pmap vmm0" "vblocks vmm4 = vblocks vmm0" "block_heads vmm4 = block_heads vmm0" by (simp_all add: vmm4_def)
  show "mem vmm4 x = mem vmm0 x" if "a \<in> set (vblocks0 ty)" "page_bytes a x" for ty a x
    using lf(7) block_untouched [OF vmm0_inv that] by (simp add: vmm4_def mmu_untouched_def)
  have sub: "mmu_pages {root0} vmm4 \<subseteq> mmu_pages {root0} vmm0" using lf(4,5) by (auto simp: mmu_pages_def vmm4_def)
  show "0 \<notin> mmu_pages {root0} vmm4" using sub vmm0_inv by (auto simp: vmm_inv_def)
  show "a \<notin> mmu_pages {root0} vmm4" if "a \<in> set (vblocks0 ty)" for ty a using sub vmm_invD(3) [OF vmm0_inv that] by blast
qed

lemma vmm4_frame: "unat (page_of region100 40) = 0x328000" "unat (DM_P2V (page_of region100 40)) = 0xffff800000328000"
    "DM_P2V (page_of region100 40) \<notin> mmu_pages {root0} vmm4"
proof -
  note lf = low_frames [OF vmm0_mmu vmm0_pmap vmm0_free]
  show up: "unat (page_of region100 40) = 0x328000"
    using page_of_unat [OF region100_ok, of 40] by (simp add: region100_def)
  then show u: "unat (DM_P2V (page_of region100 40)) = 0xffff800000328000"
    unfolding DM_P2V_def by (subst unat_add_no_wrap) (simp_all add: const_defs)
  have "root0 \<noteq> DM_P2V (page_of region100 40)" using u blk0_unat(1) by auto
  moreover have "DM_P2V (page_of region100 40) \<notin> DM_P2V ` free_pages vmm4" using lf(3) by (auto simp: DM_P2V_inj vmm4_def)
  ultimately show "DM_P2V (page_of region100 40) \<notin> mmu_pages {root0} vmm4"
    using lf(5) vmm0_root_only by (auto simp: mmu_pages_def vmm4_def)
qed

text \<open>The page at 0x400000, the only page of the region of \<open>vmm4\<close>, mapped to frame 40.\<close>

lemma vmm4_mapped:
  obtains s :: vmm_state where "vmm_ok {root0} s" and "vregions s = vregions vmm0" and "vspaces s = vspaces vmm0"
    and "mmu_entry (mem s) root0 0x400000 = page_of region100 40 OR PAGE_USER_RW"
    and "page_releasable {root0} s (page_of region100 40)" and "vblocks s = vblocks vmm0"
proof -
  let ?p = "page_of region100 40"
  have perm: "unat PAGE_USER_RW < 4096" by (simp add: const_defs)
  have rt: "root0 \<in> {root0}" by simp
  have "pmm_room vmm4 (0 + 3)" using low_frames(2) [OF vmm0_mmu vmm0_pmap vmm0_free] by (simp add: vmm4_def)
  then obtain old s where m: "map_page_in vmm4 root0 0x400000 ?p PAGE_USER_RW = Inr (old, s)"
    using map_page_in_total [OF vmm_invD(1) [OF vmm4_inv] rt perm] by blast
  note ms = map_page_in_spec [OF vmm_invD(1) [OF vmm4_inv] rt perm m]
  have s: "s = vmm4\<lparr>mem := mem s\<rparr>" and pg: "mmu_pages {root0} s \<subseteq> mmu_pages {root0} vmm4" and inv: "mmu_inv {root0} s"
    and un: "\<forall>x. mmu_untouched {root0} vmm4 x \<longrightarrow> mem s x = mem vmm4 x" using ms by blast+
  have same: "pmap s = pmap vmm4" "vblocks s = vblocks vmm4" "block_heads s = block_heads vmm4"
    "vregions s = vregions vmm0" "vspaces s = vspaces vmm0" "vblocks s = vblocks vmm0" "pmm_vma_stop s = 0xffffffff80300000"
    "pmap s = [region100]"
    by (subst s, simp add: vmm4_def, (simp add: vmm0_def)?)+
  have "vmm_inv {root0} vblocks0 vlive0 s"
    by (rule vmm_inv_change [OF vmm4_inv inv same(1-3)])
      (use un block_untouched [OF vmm4_inv] pg vmm4_inv in \<open>auto simp: vmm_inv_def\<close>)
  then have ok: "vmm_ok {root0} s" using vmm0_live unfolding vmm_ok_def same(4,5) by blast
  have "page_aligned (DM_P2V ?p)" using vmm4_frame(2) by simp
  then have "off_bitmaps s (DM_P2V ?p)" by (rule high_page_off [OF _ _ same(8)]) (simp add: vmm4_frame(2))
  moreover have "DM_P2V ?p \<notin> dom (vblocks s)"
  proof
    assume "DM_P2V ?p \<in> dom (vblocks s)"
    then have "DM_P2V ?p = sblk0 \<or> DM_P2V ?p = rblk0" unfolding same(6) by (auto simp: vmm0_def split: if_splits)
    then show False using vmm4_frame(2) blk0_unat by auto
  qed
  moreover have "V2P (pmm_vma_stop s) < ?p" using vmm4_frame(1) by (simp add: same(7) V2P_def const_defs word_less_nat_alt)
  moreover have "DM_P2V ?p \<noteq> 0" using vmm4_frame(2) by auto
  moreover have "\<exists>j < unat (pr_size_in_pages region100). 32 < j mod 64 \<and> ?p = page_of region100 j"
    by (intro exI [of _ 40]) (simp add: region100_def)
  ultimately have "page_releasable {root0} s ?p"
    using pg vmm4_frame(3) region100_ok(2) unfolding page_releasable_def same(8) by auto
  moreover have "mmu_entry (mem s) root0 0x400000 = ?p OR PAGE_USER_RW" using ms by simp
  ultimately show thesis using that ok same(4-6) by blast
qed

lemma vmm4_facts:
  fixes s :: "'a vmm_state_scheme"
  assumes "vregions s = vregions vmm0" and "vspaces s = vspaces vmm0" and "vblocks s = vblocks vmm0"
  shows "vspaces s sp0 = Some \<lparr>page_directory = root0, sp_region = reg0\<rparr>" and "regions_of s sp0 [reg0]"
    and "vregions s reg0 = Some text_region" and "ranges_ok (rlist (vregions s) [reg0])" and "releasable TYPE_VMM_REGION s reg0"
proof -
  show "vspaces s sp0 = Some \<lparr>page_directory = root0, sp_region = reg0\<rparr>" "vregions s reg0 = Some text_region"
    by (simp_all add: assms) (simp_all add: vmm0_def)
  show "regions_of s sp0 [reg0]" using vmm0_regions(1) unfolding regions_of_def assms .
  show "ranges_ok (rlist (vregions s) [reg0])" unfolding assms vmm0_regions(2) by (simp add: ranges_ok_def)
  have "slot TYPE_VMM_REGION rblk0 33 = reg0" "page_aligned rblk0" by (simp add: reg0_def, rule blk0_aligned(2))
  then show "releasable TYPE_VMM_REGION s reg0" unfolding releasable_def assms
    by (intro exI [of _ rblk0] exI [of _ "full_block TYPE_VMM_REGION rblk0"] exI [of _ 33])
      (simp add: max_objs_def vmm0_def full_block_def)
qed

lemma frame40_present: "page_of region100 40 OR PAGE_USER_RW \<noteq> 0"
proof -
  have "bit (page_of region100 40 OR PAGE_USER_RW) 0" by (simp add: bit_or_iff const_defs)
  then show ?thesis by auto
qed

theorem vmm_free_gives_back_witness:
  "\<exists>(s :: vmm_state) s'. mmu_entry (mem s) root0 0x400000 = page_of region100 40 OR PAGE_USER_RW
    \<and> vmm_free s sp0 0x400000 (of_nat 1) = Inr s'
    \<and> page_of region100 40 \<in> free_pages s' \<and> mmu_entry (mem s') root0 0x400000 = 0"
proof -
  obtain s :: vmm_state where s: "vmm_ok {root0} s" "vregions s = vregions vmm0" "vspaces s = vspaces vmm0"
    "mmu_entry (mem s) root0 0x400000 = page_of region100 40 OR PAGE_USER_RW"
    "page_releasable {root0} s (page_of region100 40)" "vblocks s = vblocks vmm0" by (rule vmm4_mapped)
  let ?sp = "\<lparr>page_directory = root0, sp_region = reg0\<rparr>" and ?n = "1 :: nat"
  note v = vmm4_facts [OF s(2,3,6)]
  have sp: "vspaces s sp0 = Some ?sp" "page_directory ?sp \<in> {root0}" by (simp_all add: v(1))
  note ro = v(2) and so = v(4) and rel = v(5)
  have rg: "vregions s reg0 = Some text_region" "unat (vr_flags text_region) < 4096"
    by (simp_all add: v(3) text_region_def const_defs)
  obtain s1 where "vmm_remove_region s sp0 reg0 = Inr s1"
    using vmm_remove_region_total [OF s(1), of sp0 "[]" reg0 "[]"] ro rel by auto
  moreover have "rdll (vregions s) (sp_region ?sp) ([] @ reg0 # [])" using ro sp(1) by (simp add: regions_of_def)
  ultimately have cut: "vmm_remove_range s sp0 0x400000 (pg_at 0x400000 ?n) = Inr s1"
    using vmm_remove_range_run [OF sp(1), of "[]" reg0 "[]" text_region] so rg(1) by (simp add: text_region_def const_defs)
  have h: "reg0 \<in> set [reg0]" "va_start text_region \<le> 0x400000" "0 < ?n" "unat (0x400000 :: u64) + 4096 * ?n < 2 ^ 64"
    "?n \<le> 2 ^ 36" "pg_at 0x400000 ?n \<le> va_stop text_region" by (simp_all add: text_region_def const_defs)
  have fl: "vr_flags text_region = PAGE_USER_RW" by (simp add: text_region_def)
  note nz = frame40_present
  have fr: "\<forall>i < ?n. mmu_entry (mem s) (page_directory ?sp) (pg_at 0x400000 i) = (\<lambda>i. page_of region100 40) i OR vr_flags text_region
      \<and> (\<lambda>i. page_of region100 40) i OR vr_flags text_region \<noteq> 0 \<and> page_releasable {root0} s ((\<lambda>i. page_of region100 40) i)"
    using s(4,5) nz fl by simp
  obtain s' where f: "vmm_free s sp0 0x400000 (of_nat ?n) = Inr s'" "(\<lambda>i. page_of region100 40) ` {..<?n} \<subseteq> free_pages s'"
    "\<forall>r' \<in> {root0}. \<forall>y. mmu_entry (mem s') r' y =
        (if r' = page_directory ?sp \<and> (\<exists>i < ?n. same_page y (pg_at 0x400000 i)) then 0 else mmu_entry (mem s) r' y)"
    using vmm_free_gives_back [OF s(1) ro so sp h(1) rg h(2-6) rel fr cut] by blast
  have "page_of region100 40 \<in> free_pages s'" using f(2) by auto
  moreover have "mmu_entry (mem s') root0 0x400000 = 0" using f(3) by simp
  ultimately show ?thesis using s(4) f(1) by blast
qed

end
