(* ===== verification/Shrink.thy ===== *)
theory Shrink
  imports Growth Kfree Release
begin

text \<open>
  The last release of a container (\<^verbatim>\<open>remove_container\<close> of \<^verbatim>\<open>kernel/mm/kheap.c\<close>): the container leaves the
  list of containers and its pages go back to the virtual memory manager, and from there to the
  page allocator.
\<close>

section \<open>Unlinking a container\<close>

definition unlink_cont :: "u64 \<Rightarrow> u64 \<Rightarrow> (u64 \<rightharpoonup> kcontainer) \<Rightarrow> u64 \<rightharpoonup> kcontainer" where
  "unlink_cont pr nx h = (\<lambda>d. map_option (\<lambda>k. k\<lparr>
     kc_prev := (if nx \<noteq> 0 \<and> d = nx then pr else kc_prev k),
     kc_next := (if pr \<noteq> 0 \<and> d = pr then nx else kc_next k)\<rparr>) (h d))"

definition unlinked :: "u64 list \<Rightarrow> u64 list \<Rightarrow> 'a kheap_state_scheme \<Rightarrow> 'a kheap_state_scheme" where
  "unlinked xs ys s = s\<lparr>kconts := unlink_cont (last (0 # xs)) (hd (ys @ [0])) (kconts s),
     heap := (if xs = [] then hd (ys @ [0]) else heap s)\<rparr>"

lemma unlinked_list:
  assumes d: "kdll (kconts s) (heap s) (xs @ c # ys)"
  shows "kdll (kconts (unlinked xs ys s)) (heap (unlinked xs ys s)) (xs @ ys)"
proof -
  have nz: "x \<noteq> 0" if "x \<in> set (xs @ ys)" for x using dll_node [OF d, of x] that by auto
  have pr: "last (0 # xs) \<noteq> 0 \<and> a = last (0 # xs) \<longleftrightarrow> xs \<noteq> [] \<and> a = last xs" for a
    using nz [of "last xs"] by (cases "xs = []") auto
  have nx: "hd (ys @ [0]) \<noteq> 0 \<and> a = hd (ys @ [0]) \<longleftrightarrow> ys \<noteq> [] \<and> a = hd ys" for a
    using nz [of "hd ys"] by (cases ys) auto
  have "kdll (unlink_cont (last (0 # xs)) (hd (ys @ [0])) (kconts s)) (if xs = [] then hd (ys @ [0]) else heap s) (xs @ ys)"
  proof (rule dll_remove [OF d])
    fix a v assume "kconts s a = Some v"
    then show "\<exists>v'. unlink_cont (last (0 # xs)) (hd (ys @ [0])) (kconts s) a = Some v'
        \<and> kc_next v' = (if xs \<noteq> [] \<and> a = last xs then hd (ys @ [0]) else kc_next v)
        \<and> kc_prev v' = (if ys \<noteq> [] \<and> a = hd ys then last (0 # xs) else kc_prev v)"
      unfolding unlink_cont_def pr nx by simp
  qed
  then show ?thesis by (simp add: unlinked_def)
qed

lemma unlink_steps:
  assumes k: "kconts s c = Some k" "kc_prev k = pr" "kc_next k = nx"
    and pr: "pr \<noteq> 0 \<Longrightarrow> pr \<noteq> c \<and> kconts s pr = Some vp" and nx: "nx \<noteq> 0 \<Longrightarrow> nx \<noteq> c \<and> kconts s nx = Some vn"
    and ne: "pr \<noteq> 0 \<Longrightarrow> nx \<noteq> 0 \<Longrightarrow> pr \<noteq> nx"
  shows "remove_container s c = (let pages = (kc_size k + sizeof_kcontainer) div PAGE_SIZE_IN_BYTES in
    bindR (vmm_free (s\<lparr>kconts := unlink_cont pr nx (kconts s), heap := (if pr = 0 then nx else heap s)\<rparr>) (kspace s) c pages)
      (\<lambda>s3. Inr (drop_headers c (pages * PAGE_SIZE_IN_BYTES) s3)))"
proof -
  define s1 where "s1 = (if pr = 0 then s\<lparr>heap := nx\<rparr> else s\<lparr>kconts := (kconts s)(pr \<mapsto> vp\<lparr>kc_next := nx\<rparr>)\<rparr>)"
  define s2 where "s2 = s\<lparr>kconts := unlink_cont pr nx (kconts s), heap := (if pr = 0 then nx else heap s)\<rparr>"
  have 1: "(if kc_prev k = 0 then Inr (s\<lparr>heap := kc_next k\<rparr>) else set_kcont (kc_prev k) (\<lambda>q. q\<lparr>kc_next := kc_next k\<rparr>) s) = Inr s1"
    using k(2,3) pr by (simp add: s1_def set_kcont_def)
  have c1: "kconts s1 c = Some k" using k(1) pr by (auto simp: s1_def)
  have un: "unlink_cont pr nx (kconts s) = (if nx = 0 then kconts s1 else (kconts s1)(nx \<mapsto> vn\<lparr>kc_prev := pr\<rparr>))"
    using pr nx ne by (auto simp: s1_def unlink_cont_def fun_eq_iff option.map_ident)
  have 2: "(if kc_next k \<noteq> 0 then set_kcont (kc_next k) (\<lambda>q. q\<lparr>kc_prev := kc_prev k\<rparr>) s1 else Inr s1) = Inr s2"
  proof (cases "nx = 0")
    case True
    then show ?thesis using k(2,3) unfolding s2_def un by simp (simp add: s1_def)
  next
    case False
    then have "kconts s1 nx = Some vn" using nx ne by (auto simp: s1_def)
    then show ?thesis using False k(2,3) unfolding s2_def un by (simp add: set_kcont_def) (simp add: s1_def)
  qed
  have c2: "kconts s2 c = Some k" using k(1) pr nx by (auto simp: s2_def unlink_cont_def option.map_ident)
  have ks: "kspace s2 = kspace s" by (simp add: s2_def)
  show ?thesis
    unfolding remove_container_def k(1) deref_def option.case bindR.simps 1 c1 2 c2 ks Let_def s2_def [symmetric] by simp
qed

lemma remove_container_run:
  assumes d: "kdll (kconts s) (heap s) (xs @ c # ys)" and k: "kconts s c = Some k"
  shows "remove_container s c = (let pages = (kc_size k + sizeof_kcontainer) div PAGE_SIZE_IN_BYTES in
    bindR (vmm_free (unlinked xs ys s) (kspace s) c pages) (\<lambda>s3. Inr (drop_headers c (pages * PAGE_SIZE_IN_BYTES) s3)))"
proof -
  have l: "kc_prev k = last (0 # xs)" "kc_next k = hd (ys @ [0])" using dll_links [OF d] k by auto
  have dist: "c \<notin> set xs" "c \<notin> set ys" "set xs \<inter> set ys = {}" using dll_distinct [OF d] by auto
  have node: "x \<noteq> 0 \<and> kconts s x = Some (the (kconts s x))" if "x \<in> set (xs @ c # ys)" for x using dll_node [OF d that] by auto
  have pr: "last (0 # xs) \<in> set xs" if "last (0 # xs) \<noteq> 0" using that by (cases "xs = []") auto
  have nx: "hd (ys @ [0]) \<in> set ys" if "hd (ys @ [0]) \<noteq> 0" using that by (cases ys) auto
  have e: "(last (0 # xs) = 0) = (xs = [])" using node [of "last xs"] by (cases "xs = []") auto
  show ?thesis unfolding unlinked_def e [symmetric]
  proof (rule unlink_steps [OF k l])
    show "last (0 # xs) \<noteq> c \<and> kconts s (last (0 # xs)) = Some (the (kconts s (last (0 # xs))))" if "last (0 # xs) \<noteq> 0"
      using node [of "last (0 # xs)"] pr [OF that] dist(1) by auto
    show "hd (ys @ [0]) \<noteq> c \<and> kconts s (hd (ys @ [0])) = Some (the (kconts s (hd (ys @ [0]))))" if "hd (ys @ [0]) \<noteq> 0"
      using node [of "hd (ys @ [0])"] nx [OF that] dist(2) by auto
    show "last (0 # xs) \<noteq> hd (ys @ [0])" if "last (0 # xs) \<noteq> 0" "hd (ys @ [0]) \<noteq> 0"
      using pr [OF that(1)] nx [OF that(2)] dist(3) by auto
  qed
qed

section \<open>The containers that stay\<close>

lemma drop_outside:
  fixes c q :: u64
  assumes "unat c + len < 2 ^ 64" and "unat q < unat c \<or> unat c + len \<le> unat q"
  shows "\<not> q - c < of_nat len"
proof -
  have l: "unat (of_nat len :: u64) = len" using assms(1) by (intro unat_of_nat64) simp
  show ?thesis using assms unat64_lt [of q] by (auto simp: word_less_nat_alt l unat_sub_if')
qed

text \<open>A state in which the links of \<open>c\<close> are taken out and the headers inside it are gone.\<close>

lemma dropped_ok:
  assumes ok: "kheap_ok s (xs @ c # ys) ps" and len: "unat c + len < 2 ^ 64" "unat c + len \<le> cont_stop c (the (kconts s c))"
    and t: "kconts t = (\<lambda>p. if p - c < of_nat len then None else kconts (unlinked xs ys s) p)"
      "kblocks t = (\<lambda>p. if p - c < of_nat len then None else kblocks s p)" "heap t = heap (unlinked xs ys s)"
  shows "kheap_ok t (xs @ ys) ps" and "d \<in> set (xs @ ys) \<Longrightarrow> chunks t (ps d) = chunks s (ps d)"
    and "d \<in> set (xs @ ys) \<Longrightarrow> cont_range t d = cont_range s d"
proof -
  have d: "kdll (kconts s) (heap s) (xs @ c # ys)" and co: "\<And>d. d \<in> set (xs @ c # ys) \<Longrightarrow> cont_ok s d (ps d)"
    and ap: "\<And>d e. d \<in> set (xs @ c # ys) \<Longrightarrow> e \<in> set (xs @ c # ys) \<Longrightarrow> d \<noteq> e \<Longrightarrow>
      cont_stop d (the (kconts s d)) \<le> unat e \<or> cont_stop e (the (kconts s e)) \<le> unat d"
    using ok unfolding kheap_ok_def by blast+
  have out: "\<not> q - c < of_nat len" if e: "e \<in> set (xs @ ys)" "unat e \<le> unat q" "unat q < cont_stop e (the (kconts s e))" for e q
  proof (rule drop_outside [OF len(1)])
    have "e \<noteq> c" using dll_distinct [OF d] e(1) by auto
    then show "unat q < unat c \<or> unat c + len \<le> unat q" using ap [of c e] e len(2) by auto
  qed
  have kc: "kconts t e = kconts (unlinked xs ys s) e" if "e \<in> set (xs @ ys)" for e
    using out [OF that, of e] by (simp add: t(1) cont_stop_def)
  have keep: "cont_ok t e (ps e) \<and> chunks t (ps e) = chunks s (ps e) \<and> cont_stop e (the (kconts t e)) = cont_stop e (the (kconts s e))"
    if e: "e \<in> set (xs @ ys)" for e
  proof -
    have ce: "cont_ok s e (ps e)" using co e by auto
    obtain k where k: "kconts s e = Some k" "tiled (unat e + 40) (cont_stop e k) (map (cdata (kblocks s)) (ps e))" by (rule cont_okE [OF ce])
    obtain k' where k': "kconts t e = Some k'" "kc_size k' = kc_size k" "kc_block k' = kc_block k" "kc_used_blocks k' = kc_used_blocks k"
      using kc [OF e] k(1) by (simp add: unlinked_def unlink_cont_def)
    have "kblocks t p = kblocks s p" if "p \<in> set (ps e)" for p
      using out [OF e, of p] cont_ok_in [OF k(2) that] k(1) by (simp add: t(2) in_cont_def)
    from cont_ok_cong [OF ce k(1) k' this] show ?thesis by blast
  qed
  show "d \<in> set (xs @ ys) \<Longrightarrow> chunks t (ps d) = chunks s (ps d)" "d \<in> set (xs @ ys) \<Longrightarrow> cont_range t d = cont_range s d"
    using keep by (simp_all add: cont_range_def)
  have "kdll (kconts t) (heap t) (xs @ ys)" unfolding t(3) by (rule dll_frame [OF _ unlinked_list [OF d]]) (rule kc)
  then show "kheap_ok t (xs @ ys) ps" using keep ap unfolding kheap_ok_def by auto
qed

section \<open>The pages of the container\<close>

lemma vmm_remove_region_frame:
  assumes ok: "vmm_ok R s" and ro: "regions_of s space (as @ x # bs)" and rel: "releasable TYPE_VMM_REGION s x"
    and run: "vmm_remove_region s space x = Inr s'"
  shows "s' = s\<lparr>mem := mem s', vspaces := vspaces s', vregions := vregions s', vblocks := vblocks s'\<rparr>"
proof -
  obtain sp where sp: "vspaces s space = Some sp" "rdll (vregions s) (sp_region sp) (as @ x # bs)"
    using ro unfolding regions_of_def by blast
  obtain bl live where inv: "vmm_inv R bl live s" "dom (vregions s) \<subseteq> live TYPE_VMM_REGION"
    using ok unfolding vmm_ok_def by blast
  obtain s1 where u: "unlink_region space x s = Inr s1" "s1 = s\<lparr>vspaces := vspaces s1, vregions := vregions s1\<rparr>"
    using unlink_region_spec [OF sp] by blast
  have inv1: "vmm_inv R bl live s1" using inv(1) by (subst u(2)) (simp add: vmm_inv_heaps)
  have vb: "vblocks s1 = vblocks s" by (subst u(2), simp)
  have x: "x \<in> live TYPE_VMM_REGION" using inv(2) dll_node [OF sp(2), of x] by auto
  have "releasable TYPE_VMM_REGION s1 x" using rel by (simp add: releasable_def vb)
  then obtain m v where "block_free x TYPE_VMM_REGION s1 = Inr (drop_object TYPE_VMM_REGION x (s1\<lparr>mem := m, vblocks := v\<rparr>))"
    by (rule block_free_spec [OF inv1 x])
  then have "s' = drop_object TYPE_VMM_REGION x (s1\<lparr>mem := m, vblocks := v\<rparr>)" using run u(1) by (simp add: vmm_remove_region_def)
  then have "s' = s\<lparr>vspaces := vspaces s1, mem := m, vblocks := v, vregions := (vregions s1)(x := None)\<rparr>"
    by (subst (asm) u(2)) simp
  then show ?thesis by simp
qed

text \<open>
  A container that is a whole region of the kernel space: its \<open>n\<close> pages are mapped to the frames \<open>f\<close>, which
  the page allocator can take back, and the object of the region is one the block allocator can
  take back.
\<close>

definition container_backed :: "u64 set \<Rightarrow> 'a kheap_state_scheme \<Rightarrow> u64 \<Rightarrow> nat \<Rightarrow> (nat \<Rightarrow> u64) \<Rightarrow> u64 list \<Rightarrow> bool" where
  "container_backed R s c n f rs \<longleftrightarrow> 0 < n \<and> n \<le> 2 ^ 36 \<and> unat c + 4096 * n < 2 ^ 64
     \<and> unat (kc_size (the (kconts s c))) + 40 = 4096 * n
     \<and> (\<exists>x \<in> set rs. \<exists>r sp. vregions s x = Some r \<and> va_start r = c \<and> va_stop r = pg_at c n \<and> unat (vr_flags r) < 4096
        \<and> releasable TYPE_VMM_REGION s x \<and> vspaces s (kspace s) = Some sp \<and> page_directory sp \<in> R
        \<and> (\<forall>i < n. mmu_entry (mem s) (page_directory sp) (pg_at c i) = f i OR vr_flags r \<and> f i OR vr_flags r \<noteq> 0
             \<and> page_releasable R s (f i)))"

lemma container_free:
  fixes s :: "'a kheap_state_scheme"
  assumes ok: "vmm_ok R s" and ro: "regions_of s (kspace s) rs" and so: "ranges_ok (rlist (vregions s) rs)"
    and cb: "container_backed R s c n f rs"
  obtains s' rs' where "vmm_free s (kspace s) c (of_nat n) = Inr s'" and "vmm_ok R s'" and "regions_of s' (kspace s) rs'"
    and "ranges_ok (rlist (vregions s') rs')"
    and "\<And>g. covered (rlist (vregions s') rs') g = covered (rlist (vregions s) rs) g - {c..<pg_at c n}"
    and "f ` {..<n} \<subseteq> free_pages s'" and "free_pages s' \<subseteq> free_pages s \<union> f ` {..<n}"
    and "kconts s' = kconts s" and "kblocks s' = kblocks s" and "heap s' = heap s" and "kspace s' = kspace s"
proof -
  have n: "0 < n" "n \<le> 2 ^ 36" "unat c + 4096 * n < 2 ^ 64" using cb by (simp_all add: container_backed_def)
  obtain x r sp where x: "x \<in> set rs" and r: "vregions s x = Some r" "va_start r = c" "va_stop r = pg_at c n" "unat (vr_flags r) < 4096"
    and rel: "releasable TYPE_VMM_REGION s x" and sp: "vspaces s (kspace s) = Some sp" "page_directory sp \<in> R"
    and fr: "\<forall>i < n. mmu_entry (mem s) (page_directory sp) (pg_at c i) = f i OR vr_flags r \<and> f i OR vr_flags r \<noteq> 0
      \<and> page_releasable R s (f i)"
    using cb unfolding container_backed_def by blast
  obtain as bs where rs: "rs = as @ x # bs" using x by (meson split_list)
  have lt: "c < pg_at c n" using unat_pg_at [OF n(3)] n(1) by (simp add: word_less_nat_alt)
  obtain s1 where s1: "vmm_remove_region s (kspace s) x = Inr s1"
    using vmm_remove_region_total [OF ok ro [unfolded rs] rel] by blast
  have d: "rdll (vregions s) (sp_region sp) (as @ x # bs)" using ro sp(1) rs by (simp add: regions_of_def)
  have cut: "vmm_remove_range s (kspace s) c (pg_at c n) = Inr s1"
    using vmm_remove_range_run [OF sp(1) d so [unfolded rs] r(1), of c "pg_at c n"] s1 r(2,3) lt by simp
  have e1: "s1 = s\<lparr>mem := mem s1, vspaces := vspaces s1, vregions := vregions s1, vblocks := vblocks s1\<rparr>"
    by (rule vmm_remove_region_frame [OF ok ro [unfolded rs] rel s1])
  have le: "va_start r \<le> c" "pg_at c n \<le> va_stop r" using r(2,3) by simp_all
  obtain t where t: "vmm_free s (kspace s) c (of_nat n) = Inr t" "vmm_ok R t" "f ` {..<n} \<subseteq> free_pages t"
    "free_pages t \<subseteq> free_pages s \<union> f ` {..<n}" "t = s1\<lparr>mem := mem t, flushed := flushed t\<rparr>"
    and ex: "\<exists>ps'. regions_of t (kspace s) ps' \<and> ranges_ok (rlist (vregions t) ps')
      \<and> (\<forall>g. covered (rlist (vregions t) ps') g = covered (rlist (vregions s) rs) g - {c..<pg_at c n})"
    using vmm_free_result [OF ok ro so sp x r(1,4) le(1) n(1,3,2) le(2) rel fr cut] by blast
  from ex obtain rs' where rs': "regions_of t (kspace s) rs'" "ranges_ok (rlist (vregions t) rs')"
    "\<And>g. covered (rlist (vregions t) rs') g = covered (rlist (vregions s) rs) g - {c..<pg_at c n}" by blast
  have "kconts t = kconts s1" "kblocks t = kblocks s1" "heap t = heap s1" "kspace t = kspace s1" by (subst t(5), simp)+
  moreover have "kconts s1 = kconts s" "kblocks s1 = kblocks s" "heap s1 = heap s" "kspace s1 = kspace s" by (subst e1, simp)+
  ultimately show thesis using that t(1-4) rs' by simp
qed

section \<open>Release of the last area\<close>

lemma tiled_length: "tiled lo hi xs \<Longrightarrow> lo + 40 * length xs \<le> hi"
proof (induction xs arbitrary: lo)
  case (Cons x xs)
  obtain a sz u where x: "x = (a, sz, u)" by (metis prod_cases3)
  have "lo \<le> unat a" "tiled (unat a + 40 + unat sz) hi xs" using Cons.prems x by simp_all
  then show ?case using Cons.IH [of "unat a + 40 + unat sz"] by simp
qed simp

text \<open>A counter of one: the container has one area in use.\<close>

lemma last_area:
  assumes ok: "cont_ok s c ps" and b: "b \<in> set ps" "kb_used (the (kblocks s b))"
    and n: "kc_used_blocks (the (kconts s c)) = 1"
  shows "used_chunks (chunks s ps) = {(b, kb_size (the (kblocks s b)))}"
proof -
  let ?u = "filter (\<lambda>x. snd (snd x)) (map (cdata (kblocks s)) ps)"
  obtain k where k: "kconts s c = Some k" "tiled (unat c + 40) (cont_stop c k) (map (cdata (kblocks s)) ps)" "cont_stop c k + 64 < 2 ^ 64"
    "kc_used_blocks k = of_nat (length ?u)" by (rule cont_okE [OF ok]) blast
  have "length ?u \<le> length ps" using length_filter_le [of _ "map (cdata (kblocks s)) ps"] by simp
  moreover have "40 * length ps < 2 ^ 64" using tiled_length [OF k(2)] k(3) by simp
  ultimately have "unat (of_nat (length ?u) :: u64) = length ?u" by (intro unat_of_nat64) linarith
  then have "length ?u = 1" using n k(1,4) by simp
  moreover have "\<exists>y. zs = [y]" if "length zs = 1" for zs :: "'z list" using that by (cases zs) simp_all
  ultimately obtain y where y: "?u = [y]" by blast
  have "used_chunks (chunks s ps) = (\<lambda>x. (fst x, fst (snd x))) ` set ?u" by (auto simp: used_chunks_def chunks_def cdata_def image_iff)
  moreover have "cdata (kblocks s) b \<in> set ?u" using b by simp
  ultimately show ?thesis using y by (auto simp: cdata_def)
qed

lemma kfree_last_run:
  assumes ok: "cont_ok s c (as @ b # bs)" and u: "kb_used (the (kblocks s b))"
    and n: "kc_used_blocks (the (kconts s c)) = 1"
  shows "kfree s (BLOCK_DATA b) = remove_container (marked_free s c b) c"
proof -
  obtain k where k: "kconts s c = Some k" "bdll (kblocks s) (kc_block k) (as @ b # bs)"
    "\<And>p. p \<in> set (as @ b # bs) \<Longrightarrow> kb_container (the (kblocks s p)) = c" by (rule cont_okE [OF ok]) blast
  obtain w where w: "kblocks s b = Some w" using dll_node [OF k(2), of b] by auto
  have "kb_container w = c" using k(3) [of b] w by simp
  moreover have "DATA_BLOCK (BLOCK_DATA b) = b" by (simp add: DATA_BLOCK_def BLOCK_DATA_def)
  ultimately show ?thesis using w k(1) n
    by (simp add: kfree_def Let_def set_kblock_def set_kcont_def marked_free_def sizeof_kblock_def)
qed

lemma heap_fields_vmm:
  fixes s t :: "'a kheap_state_scheme"
  assumes "t = s\<lparr>kconts := kconts t, kblocks := kblocks t, heap := heap t\<rparr>"
  shows "mem t = mem s" "vregions t = vregions s" "vspaces t = vspaces s" "kspace t = kspace s" "vmm_ok R t = vmm_ok R s"
    "free_pages t = free_pages s" "releasable ty t x = releasable ty s x" "page_releasable R t p = page_releasable R s p"
    "regions_of t space rs = regions_of s space rs"
proof -
  show f: "mem t = mem s" "vregions t = vregions s" "vspaces t = vspaces s" "kspace t = kspace s" by (subst assms, simp)+
  have g: "pmap t = pmap s" "vblocks t = vblocks s" "block_heads t = block_heads s" "pmm_vma_stop t = pmm_vma_stop s" by (subst assms, simp)+
  show "vmm_ok R t = vmm_ok R s" by (rule vmm_ok_fields) (simp_all add: f g)
  show "free_pages t = free_pages s" "releasable ty t x = releasable ty s x" "page_releasable R t p = page_releasable R s p"
    "regions_of t space rs = regions_of s space rs"
    by (simp_all add: f g free_pages_def releasable_def page_releasable_def mmu_pages_def off_bitmaps_def regions_of_def)
qed

lemma kfree_last_area:
  fixes s :: "'a kheap_state_scheme"
  assumes heap: "kheap_ok s (xs @ c # ys) ps" and vmm: "vmm_ok R s" "regions_of s (kspace s) rs" "ranges_ok (rlist (vregions s) rs)"
    and b: "b \<in> set (ps c)" "kb_used (the (kblocks s b))" "kc_used_blocks (the (kconts s c)) = 1"
    and cb: "container_backed R s c n f rs"
  shows "\<exists>s' rs'. kfree s (BLOCK_DATA b) = Inr s' \<and> kheap_ok s' (xs @ ys) ps
    \<and> (\<forall>d \<in> set (xs @ ys). chunks s' (ps d) = chunks s (ps d) \<and> cont_range s' d = cont_range s d)
    \<and> allocated s' (xs @ ys) ps = allocated s (xs @ c # ys) ps - {(b, kb_size (the (kblocks s b)))}
    \<and> vmm_ok R s' \<and> kspace s' = kspace s \<and> regions_of s' (kspace s) rs' \<and> ranges_ok (rlist (vregions s') rs')
    \<and> (\<forall>g. covered (rlist (vregions s') rs') g = covered (rlist (vregions s) rs) g - {c..<pg_at c n})
    \<and> f ` {..<n} \<subseteq> free_pages s' \<and> free_pages s' \<subseteq> free_pages s \<union> f ` {..<n}"
proof -
  have co: "cont_ok s c (ps c)" using heap unfolding kheap_ok_def by simp
  have dc: "distinct (xs @ c # ys)" using heap unfolding kheap_ok_def by (blast dest: dll_distinct)
  obtain as bs where ab: "ps c = as @ b # bs" using b(1) by (meson split_list)
  let ?m = "marked_free s c b"
  note mf = marked_free_ok [OF co [unfolded ab] b(2)]
  obtain k where k: "kconts s c = Some k" by (rule cont_okE [OF co])
  have cc: "c \<in> set (xs @ c # ys)" by simp
  have "ps(c := as @ b # bs) = ps" using ab by (simp add: fun_upd_idem)
  then have hm: "kheap_ok ?m (xs @ c # ys) ps" using kheap_ok_step(1) [OF heap cc mf(3,1)] by simp
  have cm: "chunks ?m (ps d) = chunks s (ps d)" "cont_range ?m d = cont_range s d" if "d \<in> set (xs @ ys)" for d
    using kheap_ok_step(2) [OF heap cc mf(3,1), of d] that dc cont_frame_stop [OF mf(3)] by (auto simp: cont_range_def)
  have km: "kconts ?m c = Some (k\<lparr>kc_used_blocks := kc_used_blocks k - 1\<rparr>)" using k by (simp add: marked_free_def)
  have n: "0 < n" "n \<le> 2 ^ 36" "unat c + 4096 * n < 2 ^ 64" "unat (kc_size k) + 40 = 4096 * n"
    using cb k by (simp_all add: container_backed_def)
  have nw: "(kc_size k + sizeof_kcontainer) div PAGE_SIZE_IN_BYTES = of_nat n"
  proof (rule word_eq_of_nat)
    have "unat (kc_size k + sizeof_kcontainer) = 4096 * n"
      using n(3,4) unat_add_no_wrap [of "kc_size k" 40] by (simp add: sizeof_kcontainer_def)
    then show "unat ((kc_size k + sizeof_kcontainer) div PAGE_SIZE_IN_BYTES) = n" by (simp add: unat_div unat_page_size)
  qed
  let ?t = "unlinked xs ys ?m"
  have te: "?t = s\<lparr>kconts := kconts ?t, kblocks := kblocks ?t, heap := heap ?t\<rparr>" by (simp add: unlinked_def marked_free_def)
  note tf = heap_fields_vmm [OF te]
  have "kc_size (the (kconts ?t c)) = kc_size k" using km by (simp add: unlinked_def unlink_cont_def)
  then have cb': "container_backed R ?t c n f rs" using cb k unfolding container_backed_def tf by simp
  obtain s' rs' where s': "vmm_free ?t (kspace ?t) c (of_nat n) = Inr s'" "vmm_ok R s'" "regions_of s' (kspace ?t) rs'"
    "ranges_ok (rlist (vregions s') rs')"
    "\<And>g. covered (rlist (vregions s') rs') g = covered (rlist (vregions ?t) rs) g - {c..<pg_at c n}"
    "f ` {..<n} \<subseteq> free_pages s'" "free_pages s' \<subseteq> free_pages ?t \<union> f ` {..<n}"
    "kconts s' = kconts ?t" "kblocks s' = kblocks ?t" "heap s' = heap ?t" "kspace s' = kspace ?t"
    by (rule container_free [of R ?t rs c n f]) (use vmm cb' tf in simp_all)
  let ?u = "drop_headers c (of_nat n * PAGE_SIZE_IN_BYTES) s'"
  have ue: "?u = s'\<lparr>kconts := kconts ?u, kblocks := kblocks ?u, heap := heap ?u\<rparr>" by (simp add: drop_headers_def)
  note uf = heap_fields_vmm [OF ue]
  have km': "kspace ?m = kspace s" by (simp add: marked_free_def)
  have d: "kdll (kconts ?m) (heap ?m) (xs @ c # ys)" using hm unfolding kheap_ok_def by blast
  have run: "kfree s (BLOCK_DATA b) = Inr ?u"
    using s'(1) tf(4) unfolding kfree_last_run [OF co [unfolded ab] b(2,3)] remove_container_run [OF d km]
    by (simp add: nw km' Let_def)
  have len: "of_nat n * PAGE_SIZE_IN_BYTES = (of_nat (4096 * n) :: u64)" by (simp add: const_defs mult.commute)
  have kt: "kblocks ?t = kblocks ?m" by (simp add: unlinked_def)
  have ku: "kconts ?u = (\<lambda>p. if p - c < of_nat (4096 * n) then None else kconts ?t p)"
    "kblocks ?u = (\<lambda>p. if p - c < of_nat (4096 * n) then None else kblocks ?m p)" "heap ?u = heap ?t"
    unfolding drop_headers_def len kt [symmetric] s'(8-10) [symmetric] by simp_all
  have st: "unat c + 4096 * n \<le> cont_stop c (the (kconts ?m c))" using n(4) km by (simp add: cont_stop_def)
  note dr = dropped_ok [OF hm n(3) st ku]
  have al: "allocated ?u (xs @ ys) ps = allocated s (xs @ c # ys) ps - {(b, kb_size (the (kblocks s b)))}"
  proof -
    have "allocated s (xs @ c # ys) ps = {(b, kb_size (the (kblocks s b)))} \<union> (\<Union>d \<in> set (xs @ ys). used_chunks (chunks s (ps d)))"
      using last_area [OF co b] by (auto simp: allocated_def)
    moreover have "set (xs @ c # ys) - {c} = set (xs @ ys)" using dc by auto
    ultimately show ?thesis
      using used_only_here [where sz = "kb_size (the (kblocks s b))", OF heap cc b(1)] dr(2) cm(1) by (auto simp: allocated_def)
  qed
  show ?thesis
    by (intro exI [of _ ?u] exI [of _ rs'] conjI)
      (use run dr cm al s'(2-7,11) tf uf in \<open>simp_all del: fun_upd_apply\<close>)
qed

text \<open>
  C33. Releasing the last area of a container that is a whole region of the kernel space and whose pages
  and region object can be taken back (bitmap positions above 32): \<^verbatim>\<open>kfree\<close> returns, the container
  is taken out of the list and every other container is as it was, the addresses of the container
  and no others stop being covered, its frames are free again, and the heap and the memory manager
  are well formed.
\<close>

theorem kfree_last_returns_container:
  fixes s :: "'a kheap_state_scheme"
  assumes heap: "kheap_ok s (xs @ c # ys) ps" and vmm: "vmm_ok R s" "regions_of s (kspace s) rs" "ranges_ok (rlist (vregions s) rs)"
    and b: "b \<in> set (ps c)" "kb_used (the (kblocks s b))" "kc_used_blocks (the (kconts s c)) = 1"
    and cb: "container_backed R s c n f rs"
  shows "\<exists>s' rs'. kfree s (BLOCK_DATA b) = Inr s' \<and> kheap_ok s' (xs @ ys) ps
    \<and> (\<forall>d \<in> set (xs @ ys). chunks s' (ps d) = chunks s (ps d) \<and> cont_range s' d = cont_range s d)
    \<and> allocated s' (xs @ ys) ps = allocated s (xs @ c # ys) ps - {(b, kb_size (the (kblocks s b)))}
    \<and> vmm_ok R s' \<and> kspace s' = kspace s \<and> regions_of s' (kspace s) rs' \<and> ranges_ok (rlist (vregions s') rs')
    \<and> (\<forall>g. covered (rlist (vregions s') rs') g = covered (rlist (vregions s) rs) g - {c..<pg_at c n})
    \<and> f ` {..<n} \<subseteq> free_pages s' \<and> free_pages s' \<subseteq> free_pages s \<union> f ` {..<n}"
  by (rule kfree_last_area [OF assms])

text \<open>A container of one page on the region of the example, with one area in use and one free block.\<close>

definition with_heap :: "vmm_state \<Rightarrow> kheap_state" where
  "with_heap s = vmm_state.extend (s\<lparr>kspace := sp0\<rparr>) (kheap_state.fields
     [0x400000 \<mapsto> \<lparr>kc_size = 0xfd8, kc_used_blocks = 1, kc_prev = 0, kc_next = 0, kc_block = 0x400028\<rparr>]
     [0x400028 \<mapsto> \<lparr>kb_size = 0x20, kb_used = True, kb_prev = 0, kb_next = 0x400078, kb_container = 0x400000\<rparr>,
      0x400078 \<mapsto> \<lparr>kb_size = 0xf60, kb_used = False, kb_prev = 0x400028, kb_next = 0, kb_container = 0x400000\<rparr>]
     0x400000)"

lemma with_heap_ok: "kheap_ok (with_heap s) ([] @ 0x400000 # []) (\<lambda>_. [0x400028, 0x400078])"
  unfolding kheap_ok_def cont_ok_def
  by (simp add: with_heap_def vmm_state.defs kheap_state.defs dll_def cont_stop_def cdata_def)

theorem kfree_last_returns_container_witness:
  "\<exists>s s'. kfree (with_heap s) 0x400050 = Inr s' \<and> kheap_ok s' [] (\<lambda>_. [0x400028, 0x400078])
    \<and> page_of region100 40 \<notin> free_pages s \<and> page_of region100 40 \<in> free_pages s'"
proof -
  obtain s :: vmm_state where s: "vmm_ok {root0} s" "vregions s = vregions vmm0" "vspaces s = vspaces vmm0"
    "mmu_entry (mem s) root0 0x400000 = page_of region100 40 OR PAGE_USER_RW"
    "page_releasable {root0} s (page_of region100 40)" "vblocks s = vblocks vmm0" by (rule vmm4_mapped)
  let ?s = "with_heap s" and ?f = "\<lambda>i :: nat. page_of region100 40"
  have f: "mem ?s = mem s" "pmap ?s = pmap s" "vregions ?s = vregions s" "vspaces ?s = vspaces s" "vblocks ?s = vblocks s"
    "block_heads ?s = block_heads s" "kspace ?s = sp0" "pmm_vma_stop ?s = pmm_vma_stop s"
    by (simp_all add: with_heap_def vmm_state.defs)
  have ok: "vmm_ok {root0} ?s" using s(1) vmm_ok_fields(1) [of ?s s, OF f(1-6)] by simp
  note v = vmm4_facts [of ?s, unfolded f(3-5), OF s(2,3,6)]
  have pr: "page_releasable {root0} ?s (page_of region100 40)" "page_of region100 40 \<notin> free_pages s"
    using s(5) by (auto simp: page_releasable_def mmu_pages_def off_bitmaps_def free_pages_def f)
  have h: "kb_used (the (kblocks ?s 0x400028))" "kc_used_blocks (the (kconts ?s 0x400000)) = 1"
    "unat (kc_size (the (kconts ?s 0x400000))) + 40 = 4096 * 1"
    by (simp_all add: with_heap_def vmm_state.defs kheap_state.defs)
  have cb: "container_backed {root0} ?s 0x400000 1 ?f [reg0]"
    unfolding container_backed_def f
    using v(3,5) pr(1) s(4) frame40_present h(3) v(1) by (auto simp: text_region_def const_defs)
  have r: "regions_of ?s (kspace ?s) [reg0]" "ranges_ok (rlist (vregions ?s) [reg0])" using v(2,4) by (simp_all add: f)
  have b: "0x400028 \<in> set ((\<lambda>_ :: u64. [0x400028, 0x400078]) 0x400000)" "BLOCK_DATA 0x400028 = 0x400050"
    by (simp_all add: BLOCK_DATA_def const_defs)
  from kfree_last_returns_container [OF with_heap_ok ok r b(1) h(1,2) cb]
  obtain s' where k: "kfree ?s (BLOCK_DATA 0x400028) = Inr s'" "kheap_ok s' ([] @ []) (\<lambda>_. [0x400028, 0x400078])"
    "?f ` {..<1} \<subseteq> free_pages s'" by blast
  then show ?thesis using pr(2) unfolding b(2) by (intro exI [of _ s] exI [of _ s']) auto
qed

end
