(* ===== verification/Heap_Clients.thy ===== *)
theory Heap_Clients
  imports Shrink
begin

text \<open>
  The clients of the kernel heap (\<^verbatim>\<open>kernel/mm/kheap.c\<close>) over time: sequences of calls of \<^verbatim>\<open>kmalloc\<close>,
  from free blocks or with growth, and of \<^verbatim>\<open>kfree\<close>, inside a container or for its last area. A client
  state is the set of pointers handed out and not yet released, with the sizes asked for. One
  kind of release is left out, that of a block between a free block and a block in use, which
  leaves the list of blocks damaged (theory \<open>Kfree\<close>).
\<close>

section \<open>Invariant\<close>

definition heap_inv :: "u64 set \<Rightarrow> 'a kheap_state_scheme \<Rightarrow> u64 list \<Rightarrow> (u64 \<Rightarrow> u64 list) \<Rightarrow> u64 list \<Rightarrow> bool" where
  "heap_inv R s cs ps rs \<longleftrightarrow> kheap_ok s cs ps \<and> heap_covered s cs rs \<and> vmm_ok R s \<and> regions_of s (kspace s) rs
     \<and> ranges_ok (rlist (vregions s) rs)"

text \<open>Every pointer held belongs to an area in use that is large enough, and no pointer is held twice.\<close>

definition held :: "(u64 \<times> u64) set \<Rightarrow> (u64 \<times> u64) set \<Rightarrow> bool" where
  "held A H \<longleftrightarrow> inj_on fst H \<and> (\<forall>(p, n) \<in> H. 0 < n \<and> (\<exists>m. n \<le> m \<and> (DATA_BLOCK p, m) \<in> A))"

lemma data_block_data [simp]: "DATA_BLOCK (BLOCK_DATA b) = b" "BLOCK_DATA (DATA_BLOCK p) = p"
  by (simp_all add: DATA_BLOCK_def BLOCK_DATA_def)

lemma heldD: "held A H \<Longrightarrow> (p, n) \<in> H \<Longrightarrow> \<exists>m. n \<le> m \<and> (DATA_BLOCK p, m) \<in> A"
  unfolding held_def by fastforce

lemma held_mono: "held A H \<Longrightarrow> A \<subseteq> B \<Longrightarrow> held B H"
  unfolding held_def by fast

lemma held_insert:
  assumes h: "held A H" and n: "0 < n" "n \<le> m" and b: "\<And>m'. (b, m') \<notin> A"
  shows "held (insert (b, m) A) (insert (BLOCK_DATA b, n) H)"
proof -
  have new: "BLOCK_DATA b \<noteq> p" if "(p, k) \<in> H" for p k
  proof
    assume "BLOCK_DATA b = p"
    then have "DATA_BLOCK p = b" by auto
    then show False using heldD [OF h that] b by blast
  qed
  then have "inj_on fst (insert (BLOCK_DATA b, n) H)" using h unfolding held_def by (fastforce simp: inj_on_def)
  moreover have "\<forall>(p, k) \<in> H. 0 < k \<and> (\<exists>m'. k \<le> m' \<and> (DATA_BLOCK p, m') \<in> insert (b, m) A)"
    using h unfolding held_def by fast
  ultimately show ?thesis using n unfolding held_def by auto
qed

lemma held_remove:
  assumes h: "held A H" and p: "(p, n) \<in> H" and m: "\<And>k. (DATA_BLOCK p, k) \<in> A \<Longrightarrow> k = m"
  shows "held (A - {(DATA_BLOCK p, m)}) (H - {(p, n)})"
proof -
  have "0 < k \<and> (\<exists>l. k \<le> l \<and> (DATA_BLOCK q, l) \<in> A - {(DATA_BLOCK p, m)})" if q: "(q, k) \<in> H - {(p, n)}" for q k
  proof -
    have "inj_on fst H" using h by (simp add: held_def)
    then have "q \<noteq> p" using inj_onD [of fst H "(q, k)" "(p, n)"] p q by auto
    then have "DATA_BLOCK q \<noteq> DATA_BLOCK p" by (metis data_block_data(2))
    then show ?thesis using h q unfolding held_def by fastforce
  qed
  then show ?thesis using h unfolding held_def by (auto intro: inj_on_subset)
qed

text \<open>The containers and their blocks are determined by the state.\<close>

lemma heap_unique:
  assumes "kheap_ok s cs ps" and "kheap_ok s cs' ps'"
  shows "cs' = cs" and "c \<in> set cs \<Longrightarrow> ps' c = ps c" and "allocated s cs' ps' = allocated s cs ps"
proof -
  show cs: "cs' = cs" using assms unfolding kheap_ok_def dll_def by (metis dseg_fun)
  show ps: "ps' c = ps c" if "c \<in> set cs" for c
  proof -
    have "cont_ok s c (ps c)" "cont_ok s c (ps' c)" using assms that unfolding cs kheap_ok_def by blast+
    then show ?thesis unfolding cont_ok_def dll_def by (metis dseg_fun option.inject)
  qed
  show "allocated s cs' ps' = allocated s cs ps" using ps unfolding cs allocated_def by simp
qed

lemma heap_covered_frame:
  assumes "heap_covered s cs rs" and fr: "cont_frame c s s'"
  shows "heap_covered s' cs rs"
  using assms(1) cont_frame_stop [OF fr] cont_frame_vmm(1) [OF fr] by (simp add: heap_covered_def cont_range_def)

lemma heap_inv_frame:
  assumes "heap_inv R s cs ps rs" and "cont_frame c s s'" and "kheap_ok s' cs ps'"
  shows "heap_inv R s' cs ps' rs"
  using assms(1,3) heap_covered_frame [OF _ assms(2)] cont_frame_vmm [OF assms(2)]
  by (simp add: heap_inv_def regions_of_def)

section \<open>Allocation\<close>

text \<open>What the heap asks of the kernel space for a request of \<open>n\<close> bytes.\<close>

definition malloc_request :: "u64 set \<Rightarrow> 'a kheap_state_scheme \<Rightarrow> u64 \<Rightarrow> bool" where
  "malloc_request R s n \<longleftrightarrow> 0 < n \<and> grow_pages n \<le> 2 ^ 36
     \<and> (\<forall>rs. regions_of s (kspace s) rs \<longrightarrow> heap_regions R s rs (grow_pages n))"

text \<open>Whatever \<^verbatim>\<open>kmalloc\<close> returns.\<close>

lemma kmalloc_result:
  assumes inv: "heap_inv R s cs ps rs" and rq: "malloc_request R s n" and run: "kmalloc s n = Inr (p, s')"
  shows "p = 0 \<and> s' = s \<or> (\<exists>b m cs' ps' rs'. p = BLOCK_DATA b \<and> n \<le> m \<and> heap_inv R s' cs' ps' rs'
    \<and> allocated s' cs' ps' = insert (b, m) (allocated s cs ps)
    \<and> (\<forall>x \<in> allocated s cs ps. data_bytes x \<inter> data_bytes (b, m) = {}))"
proof -
  have ok: "kheap_ok s cs ps" and hc: "heap_covered s cs rs" and ro: "regions_of s (kspace s) rs"
    using inv by (simp_all add: heap_inv_def)
  have gp: "grow_pages n \<le> 2 ^ 36" and hr: "heap_regions R s rs (grow_pages n)" using rq ro by (simp_all add: malloc_request_def)
  show ?thesis
  proof (cases "\<forall>d \<in> set cs. first_fit n (chunks s (ps d)) = None")
    case False
    then obtain c a sz where c: "c \<in> set cs" "(a, sz, False) \<in> set (chunks s (ps c))" "n \<le> sz"
      unfolding first_fit_None by (auto simp: not_less)
    obtain b m t ps' c' where k: "kmalloc s n = Inr (BLOCK_DATA b, t)" "kheap_ok t cs ps'" "n \<le> m"
      "allocated t cs ps' = insert (b, m) (allocated s cs ps)"
      "\<And>x. x \<in> allocated s cs ps \<Longrightarrow> data_bytes x \<inter> data_bytes (b, m) = {}" "cont_frame c' s t"
      by (rule kmalloc_area [OF ok c]) blast
    have "p = BLOCK_DATA b" "t = s'" using run k(1) by simp_all
    then show ?thesis using k heap_inv_frame [OF inv k(6,2)] by blast
  next
    case True
    have scan: "kmalloc_scan s n (heap s) = Some (Inr (0, s))" by (rule kmalloc_scan_none [OF ok]) (use True in blast)
    obtain c s1 where va: "vmm_alloc_between s (kspace s) (KERNEL_HEAP_START (syms s)) (KERNEL_HEAP_STOP (syms s))
        (of_nat (grow_pages n)) PAGE_KERNEL_RW = Inr (c, s1)"
      using run scan by (auto simp: kmalloc_def create_container_def Let_def bindR_Inr_iff grow_pages_word(1) [OF gp])
    note g = kmalloc_growth [OF ok True hr hc gp va]
    show ?thesis
    proof (cases "c = 0")
      case True
      then show ?thesis using g run by simp
    next
      case False
      from g [unfolded if_not_P [OF False]] obtain b m t ps' rs' where f:
        "kmalloc s n = Inr (BLOCK_DATA b, t)" "kheap_ok t (c # cs) ps'" "n \<le> m"
        "allocated t (c # cs) ps' = insert (b, m) (allocated s cs ps)"
        "\<forall>x \<in> allocated s cs ps. data_bytes x \<inter> data_bytes (b, m) = {}"
        "vmm_ok R t" "regions_of t (kspace t) rs'" "ranges_ok (rlist (vregions t) rs')" "heap_covered t (c # cs) rs'"
        by blast
      then have "heap_inv R t (c # cs) ps' rs'" unfolding heap_inv_def by blast
      moreover have "p = BLOCK_DATA b" "t = s'" using run f(1) by simp_all
      ultimately show ?thesis using f(3-5) by blast
    qed
  qed
qed

section \<open>Sequences of calls\<close>

text \<open>
  The releases inside a container for which \<^verbatim>\<open>kfree\<close> keeps the heap well formed: not of an area between a free
  block and a block in use.
\<close>

definition kfree_request :: "'a kheap_state_scheme \<Rightarrow> u64 \<Rightarrow> bool" where
  "kfree_request s p \<longleftrightarrow> (\<exists>cs ps c as bs. kheap_ok s cs ps \<and> c \<in> set cs \<and> ps c = as @ DATA_BLOCK p # bs
     \<and> kc_used_blocks (the (kconts s c)) \<noteq> 1
     \<and> (as = [] \<or> kb_used (the (kblocks s (last as))) \<or> bs = [] \<or> \<not> kb_used (the (kblocks s (hd bs)))))"

text \<open>
  The releases of the last area of a container: its pages are given back to the manager, which requires
  that the page and object allocators can take them back.
\<close>

definition last_request :: "u64 set \<Rightarrow> 'a kheap_state_scheme \<Rightarrow> u64 \<Rightarrow> bool" where
  "last_request R s p \<longleftrightarrow> (\<exists>cs ps c rs n f. kheap_ok s cs ps \<and> c \<in> set cs \<and> DATA_BLOCK p \<in> set (ps c)
     \<and> kc_used_blocks (the (kconts s c)) = 1 \<and> regions_of s (kspace s) rs \<and> container_backed R s c n f rs)"

inductive heap_step ::
  "u64 set \<Rightarrow> 'a kheap_state_scheme \<times> (u64 \<times> u64) set \<Rightarrow> 'a kheap_state_scheme \<times> (u64 \<times> u64) set \<Rightarrow> bool" for R where
  malloc: "malloc_request R s n \<Longrightarrow> kmalloc s n = Inr (p, s') \<Longrightarrow>
    heap_step R (s, H) (s', if p = 0 then H else insert (p, n) H)"
| release: "(p, n) \<in> H \<Longrightarrow> kfree_request s p \<or> last_request R s p \<Longrightarrow> kfree s p = Inr s' \<Longrightarrow>
    heap_step R (s, H) (s', H - {(p, n)})"

definition clients_ok :: "u64 set \<Rightarrow> 'a kheap_state_scheme \<times> (u64 \<times> u64) set \<Rightarrow> bool" where
  "clients_ok R t \<longleftrightarrow> (\<exists>cs ps rs. heap_inv R (fst t) cs ps rs \<and> held (allocated (fst t) cs ps) (snd t))"

lemma malloc_keeps:
  assumes ok: "clients_ok R (s, H)" and rq: "malloc_request R s n" and run: "kmalloc s n = Inr (p, s')"
  shows "clients_ok R (s', if p = 0 then H else insert (p, n) H)"
proof -
  obtain cs ps rs where inv: "heap_inv R s cs ps rs" and h: "held (allocated s cs ps) H" using ok unfolding clients_ok_def by auto
  have n: "0 < n" using rq by (simp add: malloc_request_def)
  show ?thesis
  proof (cases "p = 0 \<and> s' = s")
    case True
    then show ?thesis using ok by simp
  next
    case False
    then obtain b m cs' ps' rs' where r: "p = BLOCK_DATA b" "n \<le> m" "heap_inv R s' cs' ps' rs'"
      "allocated s' cs' ps' = insert (b, m) (allocated s cs ps)"
      "\<forall>x \<in> allocated s cs ps. data_bytes x \<inter> data_bytes (b, m) = {}"
      using kmalloc_result [OF inv rq run] by blast
    show ?thesis
    proof (cases "\<exists>m'. (b, m') \<in> allocated s cs ps")
      case True
      then obtain m' where b: "(b, m') \<in> allocated s cs ps" by blast
      have "kheap_ok s' cs' ps'" using r(3) by (simp add: heap_inv_def)
      then have "m' = m" using allocated_area(5) [of s' cs' ps' b] b r(4) by auto
      moreover have "unat b + 40 \<in> data_bytes (b, m)" using n r(2) by (auto simp: data_bytes_def word_less_nat_alt word_le_nat_alt)
      ultimately show ?thesis using r(5) b by blast
    next
      case False
      then have "held (allocated s' cs' ps') (insert (p, n) H)" unfolding r(1,4) by (intro held_insert [OF h n r(2)]) blast
      moreover have "held (allocated s' cs' ps') H" unfolding r(4) by (rule held_mono [OF h]) blast
      ultimately show ?thesis using r(3) unfolding clients_ok_def by (cases "p = 0") auto
    qed
  qed
qed

lemma release_keeps:
  assumes ok: "clients_ok R (s, H)" and p: "(p, n) \<in> H" and rq: "kfree_request s p" and run: "kfree s p = Inr s'"
  shows "clients_ok R (s', H - {(p, n)})"
proof -
  obtain cs ps rs where inv: "heap_inv R s cs ps rs" and h: "held (allocated s cs ps) H" using ok unfolding clients_ok_def by auto
  have k: "kheap_ok s cs ps" using inv by (simp add: heap_inv_def)
  let ?b = "DATA_BLOCK p" let ?m = "kb_size (the (kblocks s ?b))"
  obtain m where m: "(?b, m) \<in> allocated s cs ps" using heldD [OF h p] by blast
  note ar = allocated_area [OF k m]
  from rq obtain cs' ps' c as bs where q: "kheap_ok s cs' ps'" "c \<in> set cs'" "ps' c = as @ ?b # bs"
    "kc_used_blocks (the (kconts s c)) \<noteq> 1"
    "as = [] \<or> kb_used (the (kblocks s (last as))) \<or> bs = [] \<or> \<not> kb_used (the (kblocks s (hd bs)))"
    unfolding kfree_request_def by blast
  obtain t qs where t: "kfree s (BLOCK_DATA ?b) = Inr t" "kheap_ok t cs' qs" "allocated t cs' qs = allocated s cs' ps' - {(?b, ?m)}"
    "cont_frame c s t"
    by (rule kfree_area [OF q(1-3) ar(4) q(4,5)])
  have same: "cs' = cs" "allocated s cs' ps' = allocated s cs ps" "t = s'"
    using heap_unique(1,3) [OF k q(1)] t(1) run by simp_all
  have "heap_inv R s' cs qs rs" using heap_inv_frame [OF inv t(4)] t(2) same by simp
  moreover have "held (allocated s' cs qs) (H - {(p, n)})"
    using held_remove [OF h p, of ?m] allocated_area(5) [OF k] t(3) same by auto
  ultimately show ?thesis unfolding clients_ok_def by auto
qed

lemma last_keeps:
  assumes ok: "clients_ok R (s, H)" and p: "(p, n) \<in> H" and rq: "last_request R s p" and run: "kfree s p = Inr s'"
  shows "clients_ok R (s', H - {(p, n)})"
proof -
  obtain cs ps rs where inv: "heap_inv R s cs ps rs" and h: "held (allocated s cs ps) H" using ok unfolding clients_ok_def by auto
  have k: "kheap_ok s cs ps" and hc: "heap_covered s cs rs" and vm: "vmm_ok R s" "regions_of s (kspace s) rs" "ranges_ok (rlist (vregions s) rs)"
    using inv by (simp_all add: heap_inv_def)
  let ?b = "DATA_BLOCK p" let ?m = "kb_size (the (kblocks s ?b))"
  obtain m where m: "(?b, m) \<in> allocated s cs ps" using heldD [OF h p] by blast
  from rq obtain cs' ps' c rs' j f where q: "kheap_ok s cs' ps'" "c \<in> set cs'" "?b \<in> set (ps' c)"
    "kc_used_blocks (the (kconts s c)) = 1" "regions_of s (kspace s) rs'" "container_backed R s c j f rs'"
    unfolding last_request_def by blast
  have rr: "rs' = rs" by (rule regions_unique [OF q(5) vm(2)])
  have c: "c \<in> set cs" "?b \<in> set (ps c)" using heap_unique(1,2) [OF k q(1)] q(2,3) by auto
  obtain xs ys where cs: "cs = xs @ c # ys" using c(1) by (meson split_list)
  from kfree_last_area [OF k [unfolded cs] vm c(2) allocated_area(4) [OF k m] q(4) q(6) [unfolded rr]] run
  obtain rs1 where t: "kheap_ok s' (xs @ ys) ps" "\<forall>d \<in> set (xs @ ys). cont_range s' d = cont_range s d"
    "allocated s' (xs @ ys) ps = allocated s cs ps - {(?b, ?m)}" "vmm_ok R s'" "kspace s' = kspace s" "regions_of s' (kspace s) rs1"
    "ranges_ok (rlist (vregions s') rs1)"
    "\<forall>g. covered (rlist (vregions s') rs1) g = covered (rlist (vregions s) rs) g - {c..<pg_at c j}"
    unfolding cs by auto
  have j: "unat c + 4096 * j < 2 ^ 64" "unat (kc_size (the (kconts s c))) + 40 = 4096 * j" using q(6) by (simp_all add: container_backed_def)
  have "heap_covered s' (xs @ ys) rs1"
    unfolding heap_covered_def
  proof (intro ballI allI impI)
    fix d x :: u64 assume d: "d \<in> set (xs @ ys)" and x: "unat x \<in> cont_range s' d"
    have xd: "unat x \<in> cont_range s d" using t(2) d x by simp
    have dc: "d \<in> set cs" using d cs by auto
    obtain g where g: "x \<in> covered (rlist (vregions s) rs) g" using hc dc xd unfolding heap_covered_def by blast
    have "d \<noteq> c" using d k dll_distinct unfolding cs kheap_ok_def by fastforce
    then have "cont_stop c (the (kconts s c)) \<le> unat d \<or> cont_stop d (the (kconts s d)) \<le> unat c"
      using k d unfolding cs kheap_ok_def by auto
    then have "unat x < unat c \<or> unat c + 4096 * j \<le> unat x" using xd j(2) by (auto simp: cont_range_def cont_stop_def)
    then have "x \<notin> {c..<pg_at c j}" using unat_pg_at [OF j(1)] by (auto simp: word_le_nat_alt word_less_nat_alt)
    then show "\<exists>g. x \<in> covered (rlist (vregions s') rs1) g" using g t(8) by auto
  qed
  then have "heap_inv R s' (xs @ ys) ps rs1" using t(1,4-7) by (simp add: heap_inv_def)
  moreover have "held (allocated s' (xs @ ys) ps) (H - {(p, n)})"
    using held_remove [OF h p, of ?m] allocated_area(5) [OF k] t(3) by auto
  ultimately show ?thesis unfolding clients_ok_def by auto
qed

text \<open>
  C16. Over sequences of calls of \<^verbatim>\<open>kmalloc\<close>, with or without growth, and of \<^verbatim>\<open>kfree\<close>, in any order, starting
  from a well-formed heap in which no client holds anything: every pointer a client holds is a
  multiple of 16, the bytes it asked for do not wrap round the address space, and the bytes behind
  two different pointers never overlap; the heap and the memory manager stay well formed. The
  releases are those of areas that are not between a free block and a block in use, and of the
  last area of a container whose pages and region object the lower allocators can take back
  (bitmap positions above 32).
\<close>

theorem heap_clients_disjoint:
  assumes init: "heap_inv R s cs ps rs" and steps: "(heap_step R)\<^sup>*\<^sup>* (s, {}) (t, H)"
  shows "(\<exists>cs ps rs. heap_inv R t cs ps rs)
    \<and> (\<forall>(p, n) \<in> H. 16 dvd unat p \<and> unat p + unat n < 2 ^ 64)
    \<and> (\<forall>(p, n) \<in> H. \<forall>(q, k) \<in> H. p \<noteq> q \<longrightarrow> {unat p..<unat p + unat n} \<inter> {unat q..<unat q + unat k} = {})"
proof -
  have "clients_ok R (s, {})" using init unfolding clients_ok_def held_def by auto
  with steps have "clients_ok R (t, H)"
  proof (induction rule: rtranclp_induct)
    case (step u v)
    from step.hyps(2) show ?case
      by cases (use step.IH [OF step.prems] malloc_keeps release_keeps last_keeps in blast)+
  qed
  then obtain cs' ps' rs' where inv: "heap_inv R t cs' ps' rs'" and h: "held (allocated t cs' ps') H"
    unfolding clients_ok_def by auto
  have k: "kheap_ok t cs' ps'" using inv by (simp add: heap_inv_def)
  have area: "\<exists>m. n \<le> m \<and> (DATA_BLOCK p, m) \<in> allocated t cs' ps' \<and> data_bytes (DATA_BLOCK p, m) = {unat p..<unat p + unat m}
      \<and> 16 dvd unat p \<and> unat p + unat m < 2 ^ 64" if ph: "(p, n) \<in> H" for p n
  proof -
    obtain m where m: "n \<le> m" "(DATA_BLOCK p, m) \<in> allocated t cs' ps'" using heldD [OF h ph] by blast
    then show ?thesis using allocated_area(1-3) [OF k m(2)] by (intro exI [of _ m]) (simp add: data_bytes_def)
  qed
  have one: "16 dvd unat p \<and> unat p + unat n < 2 ^ 64" if "(p, n) \<in> H" for p n
    using area [OF that] by (auto simp: word_le_nat_alt)
  have two: "{unat p..<unat p + unat n} \<inter> {unat q..<unat q + unat j} = {}" if pq: "(p, n) \<in> H" "(q, j) \<in> H" "p \<noteq> q" for p n q j
  proof -
    obtain m where m: "n \<le> m" "(DATA_BLOCK p, m) \<in> allocated t cs' ps'" "data_bytes (DATA_BLOCK p, m) = {unat p..<unat p + unat m}"
      using area [OF pq(1)] by blast
    obtain l where l: "j \<le> l" "(DATA_BLOCK q, l) \<in> allocated t cs' ps'" "data_bytes (DATA_BLOCK q, l) = {unat q..<unat q + unat l}"
      using area [OF pq(2)] by blast
    have "DATA_BLOCK p \<noteq> DATA_BLOCK q" using pq(3) by (metis data_block_data(2))
    then have "{unat p..<unat p + unat m} \<inter> {unat q..<unat q + unat l} = {}"
      using allocated_disjoint [OF k m(2) l(2)] m(3) l(3) by simp
    moreover have "{unat p..<unat p + unat n} \<subseteq> {unat p..<unat p + unat m}" "{unat q..<unat q + unat j} \<subseteq> {unat q..<unat q + unat l}"
      using m(1) l(1) by (auto simp: word_le_nat_alt)
    ultimately show ?thesis by blast
  qed
  show ?thesis using inv one two by blast
qed

text \<open>
  A container of one page at the start of the heap area, on a region of the kernel space, with one area
  that was handed out before and a free rest.
\<close>

abbreviation heap_page :: u64 where "heap_page \<equiv> 0xffffffef80001000"

definition kheap3 :: kheap_state where
  "kheap3 = vmm_state.extend
     (vmm0\<lparr>vregions := [reg0 \<mapsto> text_region\<lparr>va_start := heap_page, va_stop := heap_page + 0x1000\<rparr>]\<rparr>) (kheap_state.fields
     [heap_page \<mapsto> \<lparr>kc_size = 0xfd8, kc_used_blocks = 1, kc_prev = 0, kc_next = 0, kc_block = heap_page + 0x28\<rparr>]
     [heap_page + 0x28 \<mapsto> \<lparr>kb_size = 0x20, kb_used = True, kb_prev = 0, kb_next = heap_page + 0x78, kb_container = heap_page\<rparr>,
      heap_page + 0x78 \<mapsto> \<lparr>kb_size = 0xf60, kb_used = False, kb_prev = heap_page + 0x28, kb_next = 0, kb_container = heap_page\<rparr>]
     heap_page)"

lemma kheap3_fields:
  "mem kheap3 = mem vmm0" "pmap kheap3 = pmap vmm0" "vspaces kheap3 = vspaces vmm0" "vblocks kheap3 = vblocks vmm0"
  "block_heads kheap3 = block_heads vmm0" "kspace kheap3 = sp0" "syms kheap3 = ks0"
  "vregions kheap3 = [reg0 \<mapsto> text_region\<lparr>va_start := heap_page, va_stop := heap_page + 0x1000\<rparr>]"
  by (simp_all add: kheap3_def vmm_state.defs) (simp_all add: vmm0_def)

lemma kheap3_regions:
  "vmm_ok {root0} kheap3" "regions_of kheap3 sp0 [reg0]"
  "rlist (vregions kheap3) [reg0] = [(heap_page, heap_page + 0x1000, PAGE_USER_RW)]"
proof -
  let ?v = "vmm0\<lparr>vregions := [reg0 \<mapsto> text_region\<lparr>va_start := heap_page, va_stop := heap_page + 0x1000\<rparr>]\<rparr>"
  have "vmm_ok {root0} ?v" by (rule vmm_ok_heaps [OF vmm0_ok]) (auto simp: vmm0_def)
  then show "vmm_ok {root0} kheap3" by (subst vmm_ok_fields(1) [of _ ?v]) (simp_all add: kheap3_fields)
  show "regions_of kheap3 sp0 [reg0]" unfolding regions_of_def kheap3_fields
    by (simp add: vmm0_def dll_def objects0 text_region_def)
  show "rlist (vregions kheap3) [reg0] = [(heap_page, heap_page + 0x1000, PAGE_USER_RW)]"
    by (simp add: kheap3_fields rdata_def text_region_def)
qed

lemma kheap3_inv: "heap_inv {root0} kheap3 [heap_page] (\<lambda>_. [heap_page + 0x28, heap_page + 0x78]) [reg0]"
  unfolding heap_inv_def
proof (intro conjI)
  show "kheap_ok kheap3 [heap_page] (\<lambda>_. [heap_page + 0x28, heap_page + 0x78])"
    unfolding kheap_ok_def cont_ok_def
    by (simp add: kheap3_def vmm_state.defs kheap_state.defs dll_def cont_stop_def cdata_def)
  have r: "cont_range kheap3 heap_page = {unat heap_page..<unat heap_page + 0x1000}"
    by (simp add: cont_range_def cont_stop_def kheap3_def vmm_state.defs kheap_state.defs)
  show "heap_covered kheap3 [heap_page] [reg0]"
    unfolding heap_covered_def kheap3_regions(3) set_simps
  proof (intro ballI allI impI)
    fix c x :: u64 assume "c \<in> insert heap_page {}" "unat x \<in> cont_range kheap3 c"
    then have "x \<in> {heap_page..<heap_page + 0x1000}" using r by (auto simp: word_le_nat_alt word_less_nat_alt)
    then show "\<exists>g. x \<in> covered [(heap_page, heap_page + 0x1000, PAGE_USER_RW)] g" by (auto simp: covered_def)
  qed
  show "ranges_ok (rlist (vregions kheap3) [reg0])" unfolding kheap3_regions(3) by (simp add: ranges_ok_def)
qed (simp_all add: kheap3_regions(1,2) kheap3_fields(6))

lemma kheap3_request:
  assumes s: "s = kheap3\<lparr>kconts := kconts s, kblocks := kblocks s\<rparr>" and n: "0 < n" "unat n < 0x1000"
  shows "malloc_request {root0} s n"
proof -
  have f: "vregions s = vregions kheap3" "vspaces s = vspaces kheap3" "kspace s = kspace kheap3" "syms s = syms kheap3"
    "mem s = mem kheap3" "pmap s = pmap kheap3" "vblocks s = vblocks kheap3" "block_heads s = block_heads kheap3" by (subst s, simp)+
  note k = kheap3_fields(6,7)
  have ok: "vmm_ok {root0} s" using kheap3_regions(1) vmm_ok_fields(1) [of s kheap3] f by simp
  have g: "grow_pages n = 5" using n(2) by (simp add: grow_pages_def)
  have "rs = [reg0]" if "regions_of s sp0 rs" for rs
    using regions_unique [of kheap3 sp0 rs "[reg0]"] kheap3_regions(2) that f(1,2) by (simp add: regions_of_def)
  moreover have "heap_regions {root0} s [reg0] 5"
    using kheap3_regions(2) ok unfolding heap_regions_def f(1-4) k kheap3_regions(3)
    by (simp add: heap_area regions_of_def ranges_ok_def f(1,2)) (simp add: kheap3_fields vmm0_def)
  ultimately show ?thesis using n(1) by (auto simp: malloc_request_def g f(3) k)
qed

text \<open>Two allocations, the release of the first, and a third that reuses its place.\<close>

lemma kheap3_run:
  obtains s1 s2 s3 s4 where "kmalloc kheap3 100 = Inr (heap_page + 0xa0, s1)" "kmalloc s1 200 = Inr (heap_page + 0x130, s2)"
    "kfree s2 (heap_page + 0xa0) = Inr s3" "kmalloc s3 50 = Inr (heap_page + 0xa0, s4)"
    "s1 = kheap3\<lparr>kconts := kconts s1, kblocks := kblocks s1\<rparr>" "s3 = kheap3\<lparr>kconts := kconts s3, kblocks := kblocks s3\<rparr>"
    "kheap_ok s2 [heap_page] (\<lambda>_. [heap_page + 0x28, heap_page + 0x78, heap_page + 0x108, heap_page + 0x208])"
    "kb_used (the (kblocks s2 (heap_page + 0x28)))" "kc_used_blocks (the (kconts s2 heap_page)) \<noteq> 1"
proof -
  have "\<exists>s1 s2 s3 s4. kmalloc kheap3 100 = Inr (heap_page + 0xa0, s1) \<and> kmalloc s1 200 = Inr (heap_page + 0x130, s2)
    \<and> kfree s2 (heap_page + 0xa0) = Inr s3 \<and> kmalloc s3 50 = Inr (heap_page + 0xa0, s4)
    \<and> s1 = kheap3\<lparr>kconts := kconts s1, kblocks := kblocks s1\<rparr> \<and> s3 = kheap3\<lparr>kconts := kconts s3, kblocks := kblocks s3\<rparr>
    \<and> kheap_ok s2 [heap_page] (\<lambda>_. [heap_page + 0x28, heap_page + 0x78, heap_page + 0x108, heap_page + 0x208])
    \<and> kb_used (the (kblocks s2 (heap_page + 0x28))) \<and> kc_used_blocks (the (kconts s2 heap_page)) \<noteq> 1"
    unfolding kheap_ok_def cont_ok_def
    by (simp add: kheap3_def vmm_state.defs kheap_state.defs kmalloc_def kmalloc_scan.simps try_alloc_block_def find_free_block.simps
        take_block_def set_kblock_def set_kcont_def Let_def BLOCK_DATA_def ROUNDUP_def const_defs kfree_def DATA_BLOCK_def
        merge_prev_def merge_next_def deref_upd dll_def cont_stop_def cdata_def)
  then show thesis using that by blast
qed

theorem heap_clients_disjoint_witness:
  "\<exists>t cs ps rs. (heap_step {root0})\<^sup>*\<^sup>* (kheap3, {}) (t, {(heap_page + 0xa0, 50), (heap_page + 0x130, 200)}) \<and> heap_inv {root0} t cs ps rs"
proof -
  obtain s1 s2 s3 s4 where r: "kmalloc kheap3 100 = Inr (heap_page + 0xa0, s1)" "kmalloc s1 200 = Inr (heap_page + 0x130, s2)"
    "kfree s2 (heap_page + 0xa0) = Inr s3" "kmalloc s3 50 = Inr (heap_page + 0xa0, s4)"
    "s1 = kheap3\<lparr>kconts := kconts s1, kblocks := kblocks s1\<rparr>" "s3 = kheap3\<lparr>kconts := kconts s3, kblocks := kblocks s3\<rparr>"
    "kheap_ok s2 [heap_page] (\<lambda>_. [heap_page + 0x28, heap_page + 0x78, heap_page + 0x108, heap_page + 0x208])"
    "kb_used (the (kblocks s2 (heap_page + 0x28)))" "kc_used_blocks (the (kconts s2 heap_page)) \<noteq> 1" by (rule kheap3_run)
  let ?p = "heap_page + 0xa0" and ?q = "heap_page + 0x130"
  have "kfree_request s2 ?p"
    unfolding kfree_request_def
    by (intro exI [of _ "[heap_page]"] exI [of _ "\<lambda>_. [heap_page + 0x28, heap_page + 0x78, heap_page + 0x108, heap_page + 0x208]"]
        exI [of _ heap_page] exI [of _ "[heap_page + 0x28]"] exI [of _ "[heap_page + 0x108, heap_page + 0x208]"])
      (use r(7-9) in \<open>simp add: DATA_BLOCK_def const_defs\<close>)
  then have 3: "heap_step {root0} (s2, {(?p, 100), (?q, 200)}) (s3, {(?q, 200)})"
    using heap_step.release [of "?p" 100 "{(?p, 100), (?q, 200)}" s2 "{root0}" s3] r(3) by simp
  have 1: "heap_step {root0} (kheap3, {}) (s1, {(?p, 100)})"
    using heap_step.malloc [OF kheap3_request r(1), of "{}"] by simp
  have 2: "heap_step {root0} (s1, {(?p, 100)}) (s2, {(?p, 100), (?q, 200)})"
    using heap_step.malloc [OF kheap3_request [OF r(5)] r(2), of "{(?p, 100)}"] by (simp add: insert_commute)
  have 4: "heap_step {root0} (s3, {(?q, 200)}) (s4, {(?p, 50), (?q, 200)})"
    using heap_step.malloc [OF kheap3_request [OF r(6)] r(4), of "{(?q, 200)}"] by simp
  have st: "(heap_step {root0})\<^sup>*\<^sup>* (kheap3, {}) (s4, {(?p, 50), (?q, 200)})"
    using 1 2 3 4 by (meson converse_rtranclp_into_rtranclp rtranclp.rtrancl_refl)
  from heap_clients_disjoint [OF kheap3_inv st] st show ?thesis by blast
qed

end
