(* ===== verification/Lifetime.thy ===== *)
theory Lifetime
  imports Release
begin

text \<open>
  The life of an address space: creation, and allocations and releases in any order
  (\<^verbatim>\<open>kernel/mm/vmm.c\<close>) as far as the code handles them, and the debug probe that reads every page of a
  loaded space. The releases are those of frames and region objects above position 32 in their blocks
  of the bitmap: \<^verbatim>\<open>bitmap_unset\<close> is undefined or frees other slots for the others.
\<close>

section \<open>Release keeps a space well typed\<close>

lemma frame_unique:
  assumes "page_aligned a" and "page_aligned b" and "unat g < 4096" and "a OR g = b OR g"
  shows "a = b"
  using assms or_low_bits [of a g] or_low_bits [of b g] by simp

lemma well_typed_entry:
  assumes "well_typed cov ent fp" and "x \<in> cov g"
  shows "\<exists>p. page_aligned p \<and> ent x = p OR g"
proof -
  obtain frame where "\<forall>g. \<forall>x \<in> cov g. page_aligned (frame x) \<and> frame x \<notin> fp \<and> ent x = frame x OR g"
    using assms(1) unfolding well_typed_def by blast
  then show ?thesis using assms(2) by blast
qed

text \<open>The addresses on the pages of a range are those of the range.\<close>

lemma range_same_page:
  assumes a: "page_aligned va" "unat va + 4096 * n < 2 ^ 64" and can: "{va..<pg_at va n} \<subseteq> Collect canonical" "canonical y"
  shows "(\<exists>i < n. same_page y (pg_at va i)) \<longleftrightarrow> y \<in> {va..<pg_at va n}"
proof -
  have "same_page y (pg_at va i) \<longleftrightarrow> unat y div 4096 = unat (pg_at va i) div 4096" if "i < n" for i
  proof -
    have "canonical (pg_at va i)" using can(1) range_pages [OF a] that by blast
    then show ?thesis using canonical_same_page [OF can(2)] page_same_page by blast
  qed
  then show ?thesis unfolding range_pages [OF a] by blast
qed

lemma well_typed_shrink:
  assumes wt: "well_typed cov ent fp" and a: "page_aligned va" "unat va + 4096 * n < 2 ^ 64"
    and g: "{va..<pg_at va n} \<subseteq> cov g0" "unat g0 < 4096"
    and f: "\<forall>i < n. ent (pg_at va i) = f i OR g0 \<and> page_aligned (f i)" and fp: "fp' \<subseteq> fp \<union> f ` {..<n}"
    and ent': "\<forall>y. ent' y = (if \<exists>i < n. same_page y (pg_at va i) then 0 else ent y)"
  shows "well_typed (\<lambda>g. cov g - {va..<pg_at va n}) ent' fp'"
proof -
  let ?out = "{va..<pg_at va n}"
  obtain frame where old: "\<forall>g. \<forall>x \<in> cov g. page_aligned (frame x) \<and> frame x \<notin> fp \<and> ent x = frame x OR g"
    "\<forall>g h. \<forall>x \<in> cov g. \<forall>y \<in> cov h. frame x = frame y \<longrightarrow> unat x div 4096 = unat y div 4096"
    and cv: "\<forall>g. cov g \<subseteq> Collect canonical \<and> whole_pages (cov g)"
    and un: "\<forall>x. canonical x \<and> (\<forall>g. x \<notin> cov g) \<longrightarrow> ent x = 0"
    using wt unfolding well_typed_def by blast
  have can: "?out \<subseteq> Collect canonical" using g(1) cv by blast
  have ent: "ent' y = (if y \<in> ?out then 0 else ent y)" if "canonical y" for y
    using ent' range_same_page [OF a can that] by presburger
  have "whole_pages (cov g - ?out)" for g
    using cv range_whole_pages [OF a] unfolding whole_pages_def by (metis Diff_iff)
  then have 1: "cov g - ?out \<subseteq> Collect canonical \<and> whole_pages (cov g - ?out)" for g using cv by blast
  have 2: "ent' x = 0" if x: "canonical x" "\<forall>g. x \<notin> cov g - ?out" for x
    using ent [OF x(1)] un x by (cases "x \<in> ?out") auto
  have fr: "frame (pg_at va i) = f i" "pg_at va i \<in> cov g0" if "i < n" for i
  proof -
    have "pg_at va i \<in> ?out" using range_pages [OF a] that by blast
    then show c: "pg_at va i \<in> cov g0" using g(1) by blast
    have p: "page_aligned (frame (pg_at va i))" "page_aligned (f i)" using old(1) c f that by blast+
    have "frame (pg_at va i) OR g0 = f i OR g0" using old(1) c f that by metis
    then show "frame (pg_at va i) = f i" by (rule frame_unique [OF p g(2)])
  qed
  have 3: "page_aligned (frame x) \<and> frame x \<notin> fp' \<and> ent' x = frame x OR g" if x: "x \<in> cov g - ?out" for g x
  proof (intro conjI)
    have xg: "x \<in> cov g" "x \<notin> ?out" and cx: "canonical x" using x cv by blast+
    show "page_aligned (frame x)" using old(1) xg(1) by blast
    show "ent' x = frame x OR g" unfolding ent [OF cx] if_not_P [OF xg(2)] using old(1) xg(1) by blast
    have "frame x \<noteq> f i" if i: "i < n" for i
    proof
      assume "frame x = f i"
      then have "unat x div 4096 = unat (pg_at va i) div 4096" using old(2) xg(1) fr [OF i] by metis
      then show False using xg(2) range_pages [OF a] i by blast
    qed
    then show "frame x \<notin> fp'" using fp old(1) xg(1) by blast
  qed
  show ?thesis unfolding well_typed_def
    by (intro conjI allI impI exI [of _ frame]) (use 1 2 3 old(2) in blast)+
qed

text \<open>
  The releases a client may make: a page-aligned part of one region whose pages can be given back; if
  the region disappears or is split, its object must be one the block allocator can take back.
\<close>

definition free_request :: "u64 set \<Rightarrow> u64 \<Rightarrow> 'a vmm_state_scheme \<Rightarrow> u64 list \<Rightarrow> u64 \<Rightarrow> nat \<Rightarrow> bool" where
  "free_request R pd s ps va n \<longleftrightarrow> 0 < n \<and> n \<le> 2 ^ 36 \<and> page_aligned va \<and> unat va + 4096 * n < 2 ^ 64
     \<and> (\<exists>x \<in> set ps. \<exists>r. vregions s x = Some r \<and> unat (vr_flags r) < 4096 \<and> vr_flags r \<noteq> 0
          \<and> va_start r \<le> va \<and> pg_at va n \<le> va_stop r
          \<and> ((va_start r = va) = (va_stop r = pg_at va n) \<longrightarrow> releasable TYPE_VMM_REGION s x))
     \<and> (\<forall>i < n. page_releasable R s (PAGE_ADDR (mmu_entry (mem s) pd (pg_at va i)) PAGE_SIZE_IN_BYTES))"

lemma free_typed:
  assumes t: "space_typed R pd space s" and ro: "regions_of s space ps" and rq: "free_request R pd s ps va n"
    and run: "vmm_free s space va (of_nat n) = Inr s'"
  shows "space_typed R pd space s' \<and> (\<forall>r \<in> R - {pd}. \<forall>x. mmu_entry (mem s') r x = mmu_entry (mem s) r x)"
proof -
  let ?xs = "rlist (vregions s) ps" and ?f = "\<lambda>i. PAGE_ADDR (mmu_entry (mem s) pd (pg_at va i)) PAGE_SIZE_IN_BYTES"
  obtain sp where sp: "vspaces s space = Some sp" "page_directory sp = pd" "pd \<in> R" and ok: "vmm_ok R s"
    and so: "ranges_ok ?xs" and wt: "well_typed (covered ?xs) (mmu_entry (mem s) pd) (free_pages s)"
    using t regions_unique [OF ro] unfolding space_typed_def by auto
  note rq = rq [unfolded free_request_def]
  have q: "0 < n" "n \<le> 2 ^ 36" "page_aligned va" "unat va + 4096 * n < 2 ^ 64" and rel: "\<forall>i < n. page_releasable R s (?f i)"
    using rq by blast+
  obtain x r where x: "x \<in> set ps" "vregions s x = Some r" "unat (vr_flags r) < 4096" "vr_flags r \<noteq> 0"
    "va_start r \<le> va" "pg_at va n \<le> va_stop r" "(va_start r = va) = (va_stop r = pg_at va n) \<longrightarrow> releasable TYPE_VMM_REGION s x"
    using rq by (elim conjE bexE exE) (rule that)
  have sub: "{va..<pg_at va n} \<subseteq> covered ?xs (vr_flags r)"
  proof
    fix y assume "y \<in> {va..<pg_at va n}"
    then have "y \<in> {va_start r..<va_stop r}" using x(5,6) by auto
    moreover have "rdata r \<in> set ?xs" using x(1,2) by (force simp: rlist_def)
    ultimately show "y \<in> covered ?xs (vr_flags r)" using covered_I [of "rdata r" ?xs y] by (simp add: rdata_def)
  qed
  have e: "mmu_entry (mem s) pd (pg_at va i) = ?f i OR vr_flags r \<and> page_aligned (?f i)" if i: "i < n" for i
  proof -
    have "pg_at va i \<in> {va..<pg_at va n}" using range_pages [OF q(3,4)] i by blast
    then have c: "pg_at va i \<in> covered ?xs (vr_flags r)" using sub by blast
    obtain p where p: "page_aligned p" "mmu_entry (mem s) pd (pg_at va i) = p OR vr_flags r"
      using well_typed_entry [OF wt c] by (elim exE conjE) (rule that)
    have "?f i = p" unfolding p(2) or_low_bits [OF p(1) x(3)] by (rule PAGE_ADDR_add_low [OF p(1) x(3)])
    then show ?thesis using p by simp
  qed
  have nz: "?f i OR vr_flags r \<noteq> 0" for i using x(4) by (simp add: or_eq_0_iff)
  obtain s1 where cut: "vmm_remove_range s space va (pg_at va n) = Inr s1"
    using run by (auto simp: vmm_free_def Let_def bindR_Inr_iff)
  have spR: "page_directory sp \<in> R" using sp by simp
  have fr: "\<forall>i < n. mmu_entry (mem s) (page_directory sp) (pg_at va i) = ?f i OR vr_flags r \<and> ?f i OR vr_flags r \<noteq> 0
      \<and> page_releasable R s (?f i)" unfolding sp(2) using e nz rel by blast
  have res: "vmm_ok R s'" "free_pages s' \<subseteq> free_pages s \<union> ?f ` {..<n}"
    "\<exists>ps'. regions_of s' space ps' \<and> ranges_ok (rlist (vregions s') ps')
      \<and> (\<forall>g. covered (rlist (vregions s') ps') g = covered ?xs g - {va..<pg_at va n})"
    "\<forall>r' \<in> R. \<forall>y. mmu_entry (mem s') r' y =
        (if r' = pd \<and> (\<exists>i < n. same_page y (pg_at va i)) then 0 else mmu_entry (mem s) r' y)"
    "map_option page_directory (vspaces s' space) = Some pd"
    using vmm_free_result [OF ok ro so sp(1) spR x(1-3,5) q(1,4,2) x(6) mp [OF x(7)] fr cut] run sp(2) by auto
  obtain ps' where ps': "regions_of s' space ps'" "ranges_ok (rlist (vregions s') ps')"
    "covered (rlist (vregions s') ps') = (\<lambda>g. covered ?xs g - {va..<pg_at va n})" using res(3) by blast
  have "well_typed (covered (rlist (vregions s') ps')) (mmu_entry (mem s') pd) (free_pages s')"
    unfolding ps'(3) by (rule well_typed_shrink [OF wt q(3,4) sub x(3) _ res(2)]) (use e res(4) sp(3) in auto)
  then show ?thesis using res(1,4,5) ps'(1,2) sp(3) unfolding space_typed_def by auto
qed

section \<open>Any sequence of operations\<close>

text \<open>
  The steps of a space: the allocations of \<open>at_request\<close> and \<open>between_request\<close> (requests of whole pages in
  one half of the address space, for \<^verbatim>\<open>vmm_alloc_between\<close> with a lower bound that no region straddles and
  that the last region does not end below) and the releases of \<open>free_request\<close> (a range inside one
  region whose frames, and whose region object if the cut touches it, are at releasable positions).
\<close>

inductive space_life :: "u64 set \<Rightarrow> u64 \<Rightarrow> u64 \<Rightarrow> 'a vmm_state_scheme \<Rightarrow> 'a vmm_state_scheme \<Rightarrow> bool" for R pd space where
  allocation: "space_step space s s' \<Longrightarrow> space_life R pd space s s'"
| release: "regions_of s space ps \<Longrightarrow> free_request R pd s ps va n \<Longrightarrow>
    vmm_free s space va (of_nat n) = Inr s' \<Longrightarrow> space_life R pd space s s'"

lemma life_typed:
  assumes "space_typed R pd space s" and "space_life R pd space s s'"
  shows "space_typed R pd space s' \<and> (\<forall>r \<in> R - {pd}. \<forall>x. mmu_entry (mem s') r x = mmu_entry (mem s) r x)"
  using assms(2) by cases (use step_typed [OF assms(1)] free_typed [OF assms(1)] in blast)+

text \<open>
  C5. A space is well typed from its creation on, as long as it is used within the limits of the code.
  After \<^verbatim>\<open>vmm_create_space\<close> and any sequence of allocations at given addresses (not right below a region
  with the same flags), of allocations between bounds whose lower bound no region straddles and the last region does not end below, and of releases
  of frames and region objects above position 32 in their bitmap blocks (at position 32 and below, \<^verbatim>\<open>bitmap_unset\<close>
  is undefined or frees slots in use), in any order, the region list
  is sorted without overlap, every covered address is mapped with the flags of its region, to a page
  that is not free and that no address on another page of the space is mapped to, no other canonical
  address is mapped, and the mappings of all spaces that existed before are unchanged.
\<close>

theorem space_stays_typed:
  assumes ok: "vmm_ok R s" and new: "vmm_create_space s = Inr (space, s0)"
    and steps: "\<And>pd. map_option page_directory (vspaces s0 space) = Some pd \<Longrightarrow> (space_life (insert pd R) pd space)\<^sup>*\<^sup>* s0 t"
  shows "\<exists>pd. pd \<notin> R \<and> space_typed (insert pd R) pd space t \<and> (\<forall>r \<in> R. \<forall>x. mmu_entry (mem t) r x = mmu_entry (mem s) r x)"
proof (rule new_space_typed [OF ok new])
  fix pd
  assume c: "pd \<notin> R" "space_typed (insert pd R) pd space s0" "\<forall>r \<in> R. \<forall>x. mmu_entry (mem s0) r x = mmu_entry (mem s) r x"
  have "(space_life (insert pd R) pd space)\<^sup>*\<^sup>* s0 t" using c(2) by (intro steps) (simp add: space_typed_def)
  then have "space_typed (insert pd R) pd space t \<and> (\<forall>r \<in> R. \<forall>x. mmu_entry (mem t) r x = mmu_entry (mem s) r x)"
  proof (induction rule: rtranclp_induct)
    case base
    then show ?case using c(2,3) by blast
  next
    case (step u v)
    from life_typed [OF conjunct1 [OF step.IH] step.hyps(2)] step.IH c(1) show ?case by auto
  qed
  then show ?thesis using c(1) by blast
qed

theorem space_stays_typed_witness:
  "\<exists>space s0 v t pd. vmm_create_space vmm3 = Inr (space, s0)
    \<and> vmm_alloc_between s0 space 0x400000 0x20000000 (of_nat 2) PAGE_USER_RW = Inr (v, t) \<and> v \<noteq> 0
    \<and> space_typed (insert pd {root0}) pd space t"
proof (rule user_space_example)
  fix space s0 t
  assume c: "vmm_create_space vmm3 = Inr (space, s0)"
    "vmm_alloc_between s0 space 0x400000 0x20000000 (of_nat 2) PAGE_USER_RW = Inr (0x401000, t)" "space_step space s0 t"
  have "(space_life R pd space)\<^sup>*\<^sup>* s0 t" for R pd by (intro r_into_rtranclp space_life.allocation c(3))
  from space_stays_typed [OF vmm3_ready(1) c(1) this] c(1,2) show ?thesis by fastforce
qed

section \<open>Probing a loaded space\<close>

lemma probe_regions_total:
  assumes d: "rdll (vregions s) p ps" and ok: "\<And>x. x \<in> set ps \<Longrightarrow> probe_region s (the (vregions s x)) = Inr ()"
  shows "probe_regions s p = Some (Inr ())"
proof -
  have "as @ ds = ps \<Longrightarrow> probe_regions s (hd (ds @ [0])) = Some (Inr ())" for as ds
  proof (induction ds arbitrary: as)
    case Nil
    then show ?case by (simp add: probe_regions.simps)
  next
    case (Cons x ds)
    obtain r where r: "vregions s x = Some r" "vr_next r = hd (ds @ [0])"
      using dll_links [of vr_next vr_prev "vregions s" p as x ds] d Cons.prems by auto
    have x: "x \<in> set ps" "x \<noteq> 0" using Cons.prems dll_node [OF d, of x] by auto
    have "probe_regions s (vr_next r) = Some (Inr ())" using Cons.IH [of "as @ [x]"] Cons.prems r(2) by simp
    then show ?case using ok [OF x(1)] r(1) x(2) by (simp add: probe_regions.simps [of s x])
  qed
  from this [of "[]" ps] show ?thesis using dll_start [OF d] by simp
qed

lemma present_or: "g AND PAGE_PRESENT \<noteq> 0 \<Longrightarrow> present (p OR g)"
  by (simp add: present_def bit.conj_disj_distrib2 or_eq_0_iff)

text \<open>
  C27. Once a well-typed space is loaded, the debug probe returns: it ends, and none of the reads it
  makes, one in every page of every region that is not read-only, meets a page that is not
  present, if the regions carry the present flag and stay off the last page of the address space.
\<close>

theorem vmm_probe_never_faults:
  assumes t: "space_typed R pd space s" and ro: "regions_of s space ps"
    and fl: "\<And>g. covered (rlist (vregions s) ps) g \<noteq> {} \<Longrightarrow> g AND PAGE_PRESENT \<noteq> 0"
    and top: "\<And>g x. x \<in> covered (rlist (vregions s) ps) g \<Longrightarrow> unat x + 4096 < 2 ^ 64"
  shows "\<exists>s'. mmu_switch_space s space = Inr s' \<and> vmm_probe_space s' space = Inr ()"
proof -
  let ?xs = "rlist (vregions s) ps"
  obtain sp where sp: "vspaces s space = Some sp" "page_directory sp = pd"
    and so: "ranges_ok ?xs" and wt: "well_typed (covered ?xs) (mmu_entry (mem s) pd) (free_pages s)"
    using t regions_unique [OF ro] unfolding space_typed_def by auto
  define s' where "s' = s\<lparr>cr3 := DM_V2P pd\<rparr>"
  have sw: "mmu_switch_space s space = Inr s'" using sp by (simp add: mmu_switch_space_def paging_load_def s'_def)
  have root: "DM_P2V (DM_V2P pd) = pd" by (simp add: DM_P2V_def DM_V2P_def)
  have page: "\<exists>u'. probe_page s' u x = Inr u'" if c: "x \<in> covered ?xs g" for g x u
  proof -
    obtain p where p: "mmu_entry (mem s) pd x = p OR g" using well_typed_entry [OF wt c] by (elim exE conjE) (rule that)
    have "present (p OR g)" using fl c by (intro present_or) blast
    then show ?thesis using p by (simp add: probe_page_def s'_def root)
  qed
  have region: "probe_region s' (the (vregions s' x)) = Inr ()" if x: "x \<in> set ps" for x
  proof -
    obtain r where r: "vregions s x = Some r" using ro x unfolding regions_of_def by (auto dest: dll_node)
    have y: "rdata r \<in> set ?xs" using x r by (force simp: rlist_def)
    have cov: "z \<in> covered ?xs (vr_flags r)" if "va_start r \<le> z" "z < va_stop r" for z
      using covered_I [OF y, of z] that by (simp add: rdata_def)
    have lt: "va_start r < va_stop r" using so y by (auto simp: ranges_ok_def rdata_def)
    then have u: "unat (va_stop r - 1) = unat (va_stop r) - 1" "0 < unat (va_stop r)"
      by (auto simp: word_less_nat_alt unat_sub_no_wrap word_le_nat_alt)
    have "va_stop r - 1 \<in> covered ?xs (vr_flags r)"
      using lt u by (intro cov) (auto simp: word_less_nat_alt word_le_nat_alt)
    then have "unat (va_stop r - 1) + 4096 < 2 ^ 64" by (rule top)
    then have "unat (va_stop r) + 4096 \<le> 2 ^ 64" using u by simp
    then obtain u where "page_loop (probe_page s') 0 (va_start r) (va_stop r) = Inr u"
      using page_loop_below [of "va_stop r" "va_start r" "probe_page s'" 0] page [OF cov] by blast
    moreover have "the (vregions s' x) = r" using r by (simp add: s'_def)
    ultimately show ?thesis by (simp add: probe_region_def)
  qed
  have "rdll (vregions s') (sp_region sp) ps" using ro sp(1) by (auto simp: regions_of_def s'_def)
  from probe_regions_total [OF this region] sp(1) sw show ?thesis by (simp add: vmm_probe_space_def s'_def)
qed

theorem vmm_probe_never_faults_witness:
  "\<exists>space s0 t s'. vmm_create_space vmm3 = Inr (space, s0)
    \<and> vmm_alloc_between s0 space 0x400000 0x20000000 (of_nat 2) PAGE_USER_RW = Inr (0x401000, t)
    \<and> mmu_switch_space t space = Inr s' \<and> vmm_probe_space s' space = Inr ()"
proof (rule user_space_example)
  fix space s0 t
  assume c: "vmm_create_space vmm3 = Inr (space, s0)"
    "vmm_alloc_between s0 space 0x400000 0x20000000 (of_nat 2) PAGE_USER_RW = Inr (0x401000, t)" "space_step space s0 t"
    "regions_of s0 space []"
  obtain pd where pd: "space_typed (insert pd {root0}) pd space s0" by (rule new_space_typed [OF vmm3_ready(1) c(1)])
  obtain sp where sp: "vspaces s0 space = Some sp" "page_directory sp \<in> insert pd {root0}" and ok: "vmm_ok (insert pd {root0}) s0"
    using pd unfolding space_typed_def by auto
  obtain ps where ps: "regions_of t space ps"
    "\<forall>g. covered (rlist (vregions t) ps) g = (if g = PAGE_USER_RW then {0x401000..<pg_at 0x401000 2} else {})"
    using alloc_between_result [OF ok c(4) _ sp, of PAGE_USER_RW "0x400000" 2 "0x20000000" "0x401000" t] c(2)
    by (auto simp: const_defs)
  have fl: "g AND PAGE_PRESENT \<noteq> 0" if "covered (rlist (vregions t) ps) g \<noteq> {}" for g
    using that ps(2) by (auto simp: const_defs split: if_splits)
  have top: "unat x + 4096 < 2 ^ 64" if "x \<in> covered (rlist (vregions t) ps) g" for g x
  proof -
    have "x < pg_at 0x401000 2" using that ps(2) by (auto split: if_splits)
    then show ?thesis by (simp add: const_defs word_less_nat_alt)
  qed
  have typed: "space_typed (insert pd {root0}) pd space t" using step_typed [OF pd c(3)] by blast
  have "\<exists>s'. mmu_switch_space t space = Inr s' \<and> vmm_probe_space s' space = Inr ()"
    by (rule vmm_probe_never_faults [OF typed ps(1)]) (use fl top in blast)+
  then show ?thesis using c(1,2) by blast
qed

end
