(* ===== verification/Vfs.thy ===== *)
theory Vfs
  imports Process
begin

text \<open>
  The virtual file system: \<^verbatim>\<open>kernel/fs/vfs.h\<close> and the part of \<^verbatim>\<open>kernel/fs/vfs.c\<close> that has a meaning.
  A mount point is an area of the kernel heap that holds its two names and the table of the file
  system's functions as bytes, and a node in the list of mount points. \<^verbatim>\<open>vfs_open\<close> takes the
  lookup of a mount point, the relative path and the file system's own \<^verbatim>\<open>open\<close> as arguments: the
  first two functions do not compile (an undeclared variable and a member that does not exist; a
  sum of two pointers), and the third is behind a function pointer. \<^verbatim>\<open>vfs_close\<close>, \<^verbatim>\<open>vfs_read\<close> and
  \<^verbatim>\<open>vfs_write\<close> use members of the process that do not exist and are left out.
\<close>

section \<open>Definitions\<close>

definition VFS_TYPE_LENGTH :: u64 where [const_defs]: "VFS_TYPE_LENGTH = 32"
definition VFS_PATH_LENGTH :: u64 where [const_defs]: "VFS_PATH_LENGTH = 4096"
definition VFS_FILE_LENGTH :: u64 where [const_defs]: "VFS_FILE_LENGTH = VFS_PATH_LENGTH"

datatype vfs_errno = VFS_OK | VFS_ENOENT | VFS_EBADF | VFS_EACCESS | VFS_EMFILE

fun errno_of :: "vfs_errno \<Rightarrow> i32" where
  "errno_of VFS_OK = 0"
| "errno_of VFS_ENOENT = 1"
| "errno_of VFS_EBADF = 2"
| "errno_of VFS_EACCESS = 3"
| "errno_of VFS_EMFILE = 4"

text \<open>Layout of \<^verbatim>\<open>struct vfs_mnt\<close>: two arrays of characters, five function pointers, a list node.\<close>

definition sizeof_vfs_ops :: u64 where [const_defs]: "sizeof_vfs_ops = 40"
definition mnt_type :: u64 where [const_defs]: "mnt_type = 0"
definition mnt_mountpoint :: u64 where [const_defs]: "mnt_mountpoint = mnt_type + VFS_TYPE_LENGTH"
definition mnt_ops :: u64 where [const_defs]: "mnt_ops = mnt_mountpoint + VFS_TYPE_LENGTH"
definition mnt_list :: u64 where [const_defs]: "mnt_list = mnt_ops + sizeof_vfs_ops"
definition sizeof_vfs_mnt :: u64 where [const_defs]: "sizeof_vfs_mnt = mnt_list + 16"

text \<open>\<open>mountpoints\<close> is the address of the static list head.\<close>

record vfs_state = task_state +
  mountpoints :: u64

text \<open>
  The address \<^verbatim>\<open>kmalloc\<close> returns is used without a test: a null result is a \<open>Fault\<close>. \<open>raw\<close> is the
  content of the list node before \<^verbatim>\<open>list_add\<close> writes it.
\<close>

definition vfs_mnt ::
    "list_head \<Rightarrow> u64 \<Rightarrow> u64 \<Rightarrow> 'a vfs_state_scheme \<Rightarrow> (u64 \<times> 'a vfs_state_scheme) res" where
  "vfs_mnt raw type mountpoint s =
     bindR (kmalloc s sizeof_vfs_mnt) (\<lambda>(mnt, s1).
       if mnt = 0 then Inl Fault
       else bindR (ret (map_option Inr (strcpy (mem s1) (mnt + mnt_type) type))) (\<lambda>(_, m1).
            bindR (ret (map_option Inr (strcpy m1 (mnt + mnt_mountpoint) mountpoint))) (\<lambda>(_, m2).
            bindR (list_add ((nodes s1)(mnt + mnt_list \<mapsto> raw)) (mnt + mnt_list) (mountpoints s1)) (\<lambda>h.
            Inr (mnt, s1\<lparr>mem := m2, nodes := h\<rparr>)))))"

text \<open>The node ends with the area it lies in.\<close>

definition vfs_umnt :: "u64 \<Rightarrow> 'a vfs_state_scheme \<Rightarrow> 'a vfs_state_scheme res" where
  "vfs_umnt mnt s =
     bindR (list_del (nodes s) (mnt + mnt_list)) (\<lambda>h.
     bindR (kfree (s\<lparr>nodes := h\<rparr>) mnt) (\<lambda>s1.
     Inr (s1\<lparr>nodes := (nodes s1)(mnt + mnt_list := None)\<rparr>)))"

text \<open>The inline bitmap of the descriptors, seen as a \<^verbatim>\<open>struct bitmap\<close>.\<close>

definition fd_view :: "bitmap_static \<Rightarrow> bitmap" where
  "fd_view b = \<lparr>bm_len = bs_len b, bm_size_in_block = bs_size_in_block b, bm_bitmap = hd (bs_words b)\<rparr>"

definition vfs_open ::
    "('a vfs_state_scheme \<Rightarrow> u64 \<Rightarrow> u64 res) \<Rightarrow> ('a vfs_state_scheme \<Rightarrow> u64 \<Rightarrow> u64 \<Rightarrow> u64 res) \<Rightarrow>
     (u64 \<Rightarrow> u64 \<Rightarrow> i32 \<Rightarrow> 'a vfs_state_scheme \<Rightarrow> (i32 \<times> 'a vfs_state_scheme) res) \<Rightarrow>
     u64 \<Rightarrow> u64 \<Rightarrow> i32 \<Rightarrow> 'a vfs_state_scheme \<Rightarrow> (i32 \<times> 'a vfs_state_scheme) res" where
  "vfs_open get_mnt relative ops_open p abspath oflags s =
     bindR (get_mnt s abspath) (\<lambda>mnt.
       if mnt = 0 then Inr (- errno_of VFS_ENOENT, s)
       else bindR (relative s mnt abspath) (\<lambda>rel.
            bindR (ops_open mnt rel oflags s) (\<lambda>(fs_id, s1).
              if sint fs_id < 0 then Inr (fs_id, s1)
              else bindR (deref (procs s1) p) (\<lambda>pr.
                   bindR (bitmap_find_and_set (mem s1) (fd_view (pr_fdbitmap pr))) (\<lambda>(i, m).
                     let fd = ucast i :: i32; s2 = s1\<lparr>mem := m\<rparr>
                     in if fd = ucast PROCESS_MAX_FD then Inr (- errno_of VFS_EMFILE, s2)
                        else if length (pr_fds pr) \<le> unat fd then Inl Fault
                        else bindR (set_proc p (\<lambda>q. q\<lparr>pr_fds := (pr_fds q)[unat fd :=
                                 \<lparr>fs_file_id = scast fs_id, fd_head = 0\<rparr>]\<rparr>) s2) (\<lambda>s3.
                             Inr (fd, s3)))))))"

section \<open>Mounting\<close>

text \<open>A name and its terminator lie at addresses that no allocation hands out.\<close>

definition name_at :: "'a kheap_state_scheme \<Rightarrow> u64 list \<Rightarrow> (u64 \<Rightarrow> u64 list) \<Rightarrow> u64 \<Rightarrow> nat \<Rightarrow> bool" where
  "name_at s cs ps p n \<longleftrightarrow> cstr (mem s) p n \<and> 0 < n \<and> n \<le> unat VFS_TYPE_LENGTH
     \<and> (\<forall>i \<le> n. heap_kept s cs ps (p + of_nat i))"

lemma unat_offset:
  fixes a :: u64
  assumes "unat a + k < 2 ^ 64"
  shows "unat (a + of_nat k) = unat a + k"
  using assms by (simp add: unat_word_ariths unat_of_nat)

text \<open>Copying a name into a field of a fresh area.\<close>

lemma copy_field:
  assumes dst: "unat dst + 32 < 2 ^ 64"
    and src: "cstr m src n" "0 < n" "n \<le> 32"
    and out: "\<And>i. i \<le> n \<Longrightarrow> \<not> (unat dst \<le> unat (src + of_nat i) \<and> unat (src + of_nat i) < unat dst + 32)"
  obtains m' where "strcpy m dst src = Some (dst, m')"
    and "\<And>i. i < n \<Longrightarrow> m' (dst + of_nat i) = m (src + of_nat i)"
    and "\<And>x. \<not> (unat dst \<le> unat x \<and> unat x < unat dst + n) \<Longrightarrow> m' x = m x"
proof -
  obtain k where k: "n = Suc k" using src(2) by (cases n) auto
  have u: "unat (dst + of_nat j) = unat dst + j" if "j \<le> k" for j
    using dst src(3) k that by (intro unat_offset) simp
  have "dst + of_nat j \<noteq> src + of_nat i" if "j \<le> k" "i \<le> Suc k" for i j
  proof
    assume e: "dst + of_nat j = src + of_nat i"
    have "unat (src + of_nat i) = unat dst + j" using u [OF that(1)] e by simp
    then show False using out [of i] that src(3) k by simp
  qed
  from strcpy_cstr [OF src(1) [unfolded k] this] obtain m' where m': "strcpy m dst src = Some (dst, m')"
    "\<forall>j \<le> k. m' (dst + of_nat j) = m (src + of_nat j)"
    "\<forall>x. (\<forall>j \<le> k. x \<noteq> dst + of_nat j) \<longrightarrow> m' x = m x" by blast
  show thesis
  proof (rule that [OF m'(1)])
    show "m' (dst + of_nat i) = m (src + of_nat i)" if "i < n" for i using m'(2) that k by simp
    show "m' x = m x" if x: "\<not> (unat dst \<le> unat x \<and> unat x < unat dst + n)" for x
    proof -
      have "x \<noteq> dst + of_nat j" if "j \<le> k" for j using u [OF that] x that k by auto
      then show ?thesis using m'(3) by blast
    qed
  qed
qed

text \<open>
  C32. Mounting, while the heap has a free block of the size and the names have at most 32 characters
  and do not lie in free heap memory: the call returns a fresh heap area with the two names copied
  into their fields, without their terminators, the mount point is first in the list of mount
  points, no other byte of memory changes and the heap stays well formed.
\<close>

theorem vfs_mnt_registers:
  fixes s :: "'a vfs_state_scheme"
  assumes ok: "kheap_ok s cs ps" and c: "c \<in> set cs" "(a, sz, False) \<in> set (chunks s (ps c))" "sizeof_vfs_mnt \<le> sz"
    and t: "name_at s cs ps type nt" and p: "name_at s cs ps dir np"
    and r: "ring (nodes s) (mountpoints s) ms" "\<And>q. q \<in> insert (mountpoints s) (set ms) \<Longrightarrow> heap_kept s cs ps q"
  shows "\<exists>b m s' ps' mnt. vfs_mnt raw type dir s = Inr (mnt, s') \<and> mnt = BLOCK_DATA b
    \<and> kheap_ok s' cs ps' \<and> sizeof_vfs_mnt \<le> m \<and> allocated s' cs ps' = insert (b, m) (allocated s cs ps)
    \<and> (\<forall>x \<in> allocated s cs ps. data_bytes x \<inter> data_bytes (b, m) = {})
    \<and> (\<forall>i < nt. mem s' (mnt + mnt_type + of_nat i) = mem s (type + of_nat i))
    \<and> (\<forall>i < np. mem s' (mnt + mnt_mountpoint + of_nat i) = mem s (dir + of_nat i))
    \<and> (\<forall>x. \<not> (unat (mnt + mnt_type) \<le> unat x \<and> unat x < unat (mnt + mnt_type) + nt)
          \<and> \<not> (unat (mnt + mnt_mountpoint) \<le> unat x \<and> unat x < unat (mnt + mnt_mountpoint) + np)
          \<longrightarrow> mem s' x = mem s x)
    \<and> ring (nodes s') (mountpoints s') ((mnt + mnt_list) # ms)"
proof -
  obtain b m s1 ps' where k: "kmalloc s sizeof_vfs_mnt = Inr (BLOCK_DATA b, s1)" "kheap_ok s1 cs ps'" "sizeof_vfs_mnt \<le> m"
    "allocated s1 cs ps' = insert (b, m) (allocated s cs ps)"
    "\<And>x. x \<in> allocated s cs ps \<Longrightarrow> data_bytes x \<inter> data_bytes (b, m) = {}"
    "s1 = s\<lparr>kconts := kconts s1, kblocks := kblocks s1\<rparr>" "unat (BLOCK_DATA b) + unat m + 64 < 2 ^ 64"
    "\<And>x. heap_kept s cs ps x \<Longrightarrow> \<not> (unat (BLOCK_DATA b) \<le> unat x \<and> unat x < unat (BLOCK_DATA b) + unat sizeof_vfs_mnt)"
    "BLOCK_DATA b \<noteq> 0"
    by (rule kmalloc_area [OF ok c]) blast
  let ?mnt = "BLOCK_DATA b"
  have same: "mem s1 = mem s" "nodes s1 = nodes s" "mountpoints s1 = mountpoints s" by (subst k(6), simp)+
  have sz: "120 \<le> unat m" using k(3) by (simp add: const_defs word_le_nat_alt)
  have off: "unat (?mnt + 32) = unat ?mnt + 32" "unat (?mnt + 104) = unat ?mnt + 104"
    using unat_offset [of ?mnt 32] unat_offset [of ?mnt 104] k(7) sz by simp_all
  have out: "\<not> (unat ?mnt \<le> unat x \<and> unat x < unat ?mnt + 120)" if "heap_kept s cs ps x" for x
    using k(8) [OF that] by (simp add: const_defs)
  have t': "cstr (mem s) type nt" "0 < nt" "nt \<le> 32" and p': "cstr (mem s) dir np" "0 < np" "np \<le> 32"
    using t p by (simp_all add: name_at_def const_defs)
  have ot: "\<not> (unat ?mnt \<le> unat (type + of_nat i) \<and> unat (type + of_nat i) < unat ?mnt + 120)" if "i \<le> nt" for i
    using t that by (intro out) (simp add: name_at_def)
  have op: "\<not> (unat ?mnt \<le> unat (dir + of_nat i) \<and> unat (dir + of_nat i) < unat ?mnt + 120)" if "i \<le> np" for i
    using p that by (intro out) (simp add: name_at_def)
  obtain m1 where m1: "strcpy (mem s) ?mnt type = Some (?mnt, m1)"
    "\<And>i. i < nt \<Longrightarrow> m1 (?mnt + of_nat i) = mem s (type + of_nat i)"
    "\<And>x. \<not> (unat ?mnt \<le> unat x \<and> unat x < unat ?mnt + nt) \<Longrightarrow> m1 x = mem s x"
    by (rule copy_field [where dst = ?mnt, OF _ t']) (use k(7) sz ot in fastforce)+
  have keep: "m1 (dir + of_nat i) = mem s (dir + of_nat i)" if "i \<le> np" for i
    using op [OF that] t'(3) by (intro m1(3)) auto
  have c1: "cstr m1 dir np" using p'(1) keep by (simp add: cstr_def)
  obtain m2 where m2: "strcpy m1 (?mnt + 32) dir = Some (?mnt + 32, m2)"
    "\<And>i. i < np \<Longrightarrow> m2 (?mnt + 32 + of_nat i) = m1 (dir + of_nat i)"
    "\<And>x. \<not> (unat (?mnt + 32) \<le> unat x \<and> unat x < unat (?mnt + 32) + np) \<Longrightarrow> m2 x = m1 x"
    by (rule copy_field [where dst = "?mnt + 32", OF _ c1 p'(2,3)]) (use off k(7) sz op in fastforce)+
  let ?h = "(nodes s)(?mnt + 104 \<mapsto> raw)"
  have nin: "?mnt + 104 \<notin> insert (mountpoints s) (set ms)" using r(2) out off by fastforce
  have "ring ?h (mountpoints s) ms" using ring_outside [OF r(1) nin] by simp
  from list_add_ring [OF this _ nin] obtain h where h: "list_add ?h (?mnt + 104) (mountpoints s) = Inr h"
    "ring h (mountpoints s) ((?mnt + 104) # ms)" by auto
  let ?s' = "s1\<lparr>mem := m2, nodes := h\<rparr>"
  have run: "vfs_mnt raw type dir s = Inr (?mnt, ?s')"
    using k(1,9) m1(1) m2(1) h(1) same by (simp add: vfs_mnt_def const_defs)
  have heap: "kheap_ok ?s' cs ps'" "allocated ?s' cs ps' = insert (b, m) (allocated s cs ps)"
    using k(2,4) by (simp_all add: kheap_ok_def cont_ok_def allocated_def chunks_def)
  have bt: "m2 (?mnt + of_nat i) = mem s (type + of_nat i)" if "i < nt" for i
  proof -
    have "unat (?mnt + of_nat i) = unat ?mnt + i" using k(7) sz that t'(3) by (intro unat_offset) simp
    then show ?thesis using m1(2) [OF that] m2(3) off that t'(3) by simp
  qed
  have bp: "m2 (?mnt + 32 + of_nat i) = mem s (dir + of_nat i)" if "i < np" for i
    using m2(2) keep that by simp
  show ?thesis
    by (intro exI [of _ b] exI [of _ m] exI [of _ ?s'] exI [of _ ps'] exI [of _ ?mnt] conjI)
      (use run heap k(3,5) bt bp m1(3) m2(3) h(2) same in \<open>simp_all add: const_defs\<close>)
qed

text \<open>The example heap with an empty list of mount points at 0x600 and two names below 0x800.\<close>

definition vfs0 :: vfs_state where
  "vfs0 = task_state.extend (task0\<lparr>nodes := (nodes task0)(0x600 \<mapsto> LIST_HEAD_INIT 0x600),
       mem := (\<lambda>_. 0)(0x700 := 0x66, 0x701 := 0x73, 0x710 := 0x2f)\<rparr>) (vfs_state.fields 0x600)"

lemma vfs0_simps [simp]:
  "kconts vfs0 = kconts kheap0" "kblocks vfs0 = kblocks kheap0" "heap vfs0 = heap kheap0"
  "mountpoints vfs0 = 0x600" "mem vfs0 = (\<lambda>_. 0)(0x700 := 0x66, 0x701 := 0x73, 0x710 := 0x2f)"
  "nodes vfs0 = (nodes task0)(0x600 \<mapsto> LIST_HEAD_INIT 0x600)"
  by (simp_all add: vfs0_def task0_def task_state.defs vfs_state.defs kheap_state.defs kheap0_def)

lemma vfs0_heap: "kheap_ok vfs0 [0x10000] blocks0" "chunks vfs0 = chunks kheap0" "allocated vfs0 = allocated kheap0"
  using kheap0_ok by (simp_all add: kheap_ok_def cont_ok_def chunks_def allocated_def fun_eq_iff)

lemma vfs0_kept: "unat x < 0x10000 \<Longrightarrow> heap_kept vfs0 [0x10000] blocks0 x"
  by (simp add: heap_kept_def)

theorem vfs_mnt_registers_witness:
  "\<exists>mnt s'. vfs_mnt \<lparr>lh_next = 0, lh_prev = 0\<rparr> 0x700 0x710 vfs0 = Inr (mnt, s')
    \<and> mem s' mnt = 0x66 \<and> mem s' (mnt + 1) = 0x73 \<and> mem s' (mnt + 32) = 0x2f
    \<and> ring (nodes s') (mountpoints s') [mnt + 104]"
proof -
  have f: "(0x100f8, 0x4ee0, False) \<in> set (chunks vfs0 (blocks0 0x10000))" "sizeof_vfs_mnt \<le> 0x4ee0"
    by (simp_all add: vfs0_heap kheap0_chunks const_defs)
  have low: "heap_kept vfs0 [0x10000] blocks0 (x + of_nat i)" if "unat x < 0x1000" "i \<le> 2" for x i
    using that unat_offset [of x i] by (intro vfs0_kept) simp
  have t: "name_at vfs0 [0x10000] blocks0 0x700 2"
    using low [of "0x700"] by (simp add: name_at_def cstr_def less_2_cases_iff const_defs)
  have d: "name_at vfs0 [0x10000] blocks0 0x710 1"
    using low [of "0x710"] by (simp add: name_at_def cstr_def const_defs)
  have r: "ring (nodes vfs0) (mountpoints vfs0) []"
    by (simp add: ring_def nxt_of_def prv_of_def LIST_HEAD_INIT_def)
  have kept: "heap_kept vfs0 [0x10000] blocks0 q" if "q \<in> insert (mountpoints vfs0) (set [])" for q
    using that by (intro vfs0_kept) simp
  from vfs_mnt_registers [OF vfs0_heap(1) _ f t d r kept, of "\<lparr>lh_next = 0, lh_prev = 0\<rparr>"]
  obtain mnt s' where v: "vfs_mnt \<lparr>lh_next = 0, lh_prev = 0\<rparr> 0x700 0x710 vfs0 = Inr (mnt, s')"
    "\<forall>i < 2. mem s' (mnt + mnt_type + of_nat i) = mem vfs0 (0x700 + of_nat i)"
    "\<forall>i < 1. mem s' (mnt + mnt_mountpoint + of_nat i) = mem vfs0 (0x710 + of_nat i)"
    "ring (nodes s') (mountpoints s') [mnt + mnt_list]" by auto
  from v(2) [rule_format, of 0] v(2) [rule_format, of 1] v(3) v(1,4) show ?thesis by (auto simp: const_defs)
qed

text \<open>Unmounting takes the mount point out of the list and gives its area back.\<close>

lemma vfs_umnt_removes:
  fixes s :: "'a vfs_state_scheme"
  assumes heap: "kheap_ok s cs ps" "c \<in> set cs" "ps c = as @ b # bs" "kb_used (the (kblocks s b))"
      "kc_used_blocks (the (kconts s c)) \<noteq> 1"
      "as = [] \<or> kb_used (the (kblocks s (last as))) \<or> bs = [] \<or> \<not> kb_used (the (kblocks s (hd bs)))"
    and r: "ring (nodes s) (mountpoints s) (xs @ (BLOCK_DATA b + mnt_list) # ys)"
  shows "\<exists>s' ps'. vfs_umnt (BLOCK_DATA b) s = Inr s' \<and> ring (nodes s') (mountpoints s') (xs @ ys)
    \<and> kheap_ok s' cs ps' \<and> allocated s' cs ps' = allocated s cs ps - {(b, kb_size (the (kblocks s b)))}"
proof -
  let ?e = "BLOCK_DATA b + mnt_list"
  from list_del_ring [OF r] obtain h where h: "list_del (nodes s) ?e = Inr h" "ring h (mountpoints s) (xs @ ys)" by blast
  have e: "?e \<notin> insert (mountpoints s) (set (xs @ ys))" using r by (auto simp: ring_def)
  let ?s = "s\<lparr>nodes := h\<rparr>"
  have ok: "kheap_ok ?s cs ps" and al: "allocated ?s cs ps = allocated s cs ps"
    using heap(1) by (simp_all add: kheap_ok_def cont_ok_def allocated_def chunks_def)
  have u: "kb_used (the (kblocks ?s b))" "kc_used_blocks (the (kconts ?s c)) \<noteq> 1"
    "as = [] \<or> kb_used (the (kblocks ?s (last as))) \<or> bs = [] \<or> \<not> kb_used (the (kblocks ?s (hd bs)))"
    using heap(4-6) by simp_all
  obtain t ps' where t: "kfree ?s (BLOCK_DATA b) = Inr t" "kheap_ok t cs ps'"
    "allocated t cs ps' = allocated ?s cs ps - {(b, kb_size (the (kblocks ?s b)))}"
    "t = ?s\<lparr>kconts := kconts t, kblocks := kblocks t\<rparr>"
    by (rule kfree_area [OF ok heap(2,3) u])
  have n: "nodes t = h" "mountpoints t = mountpoints s" by (subst t(4), simp)+
  let ?t = "t\<lparr>nodes := h(?e := None)\<rparr>"
  have "vfs_umnt (BLOCK_DATA b) s = Inr ?t" using h(1) t(1) n by (simp add: vfs_umnt_def)
  moreover have "ring (nodes ?t) (mountpoints ?t) (xs @ ys)" using ring_outside [OF h(2) e, of None] n by simp
  moreover have "kheap_ok ?t cs ps'" "allocated ?t cs ps' = allocated s cs ps - {(b, kb_size (the (kblocks s b)))}"
    using t(2,3) al by (simp_all add: kheap_ok_def cont_ok_def allocated_def chunks_def)
  ultimately show ?thesis by blast
qed

section \<open>Opening\<close>

text \<open>
  Opening a file of a mounted file system that hands out a file number, for a process whose
  descriptor bitmap is well formed, which no code establishes: \<^verbatim>\<open>process_create\<close> never sets the word
  that is taken as the address of its blocks. Then, when the process has a
  free descriptor, the smallest one is returned, taken in its bitmap, and refers to the file number
  at offset 0, with every other descriptor as it was; when all are taken but the bitmap's spare
  bits are not, the result is \<^verbatim>\<open>-VFS_EMFILE\<close> and the descriptors are unchanged.
\<close>

lemma vfs_open_least_descriptor:
  fixes s :: "'a vfs_state_scheme" and s1 :: "'a vfs_state_scheme"
  assumes mnt: "get_mnt s abspath = Inr mnt" "mnt \<noteq> 0" "relative s mnt abspath = Inr rel"
    and fs: "ops_open mnt rel oflags s = Inr (fs_id, s1)" "0 \<le> sint fs_id"
    and pr: "procs s1 p = Some pr" "length (pr_fds pr) = 256"
    and bm: "bm_wf (fd_view (pr_fdbitmap pr))" "bs_len (pr_fdbitmap pr) = PROCESS_MAX_FD"
      "bm_raw (mem s1) (fd_view (pr_fdbitmap pr)) \<noteq> {}"
  shows "\<exists>m. bm_free m (fd_view (pr_fdbitmap pr))
        = bm_free (mem s1) (fd_view (pr_fdbitmap pr)) - {Min (bm_free (mem s1) (fd_view (pr_fdbitmap pr)))}
    \<and> vfs_open get_mnt relative ops_open p abspath oflags s = Inr
       (if bm_free (mem s1) (fd_view (pr_fdbitmap pr)) = {} then (- errno_of VFS_EMFILE, s1\<lparr>mem := m\<rparr>)
        else let fd = Min (bm_free (mem s1) (fd_view (pr_fdbitmap pr)))
          in (of_nat fd, s1\<lparr>mem := m, procs := (procs s1)(p \<mapsto> pr\<lparr>pr_fds :=
               (pr_fds pr)[fd := \<lparr>fs_file_id = scast fs_id, fd_head = 0\<rparr>]\<rparr>)\<rparr>))"
proof -
  let ?bm = "fd_view (pr_fdbitmap pr)"
  let ?F = "bm_free (mem s1) ?bm"
  have len: "bm_len ?bm = 256" using bm(2) by (simp add: fd_view_def const_defs)
  note run = mnt fs pr len
  show ?thesis
  proof (cases "?F = {}")
    case True
    from find_and_set_full [OF bm(1) True bm(3)] obtain m where m: "bitmap_find_and_set (mem s1) ?bm = Inr (256, m)"
      "bm_raw m ?bm = bm_raw (mem s1) ?bm - {Min (bm_raw (mem s1) ?bm)}" using len by auto
    have "bm_free m ?bm = {}" using bm_free_after [OF bm(1) m(2)] True by simp
    moreover have "vfs_open get_mnt relative ops_open p abspath oflags s = Inr (- errno_of VFS_EMFILE, s1\<lparr>mem := m\<rparr>)"
      using run m(1) by (simp add: vfs_open_def Let_def const_defs)
    ultimately show ?thesis using True by auto
  next
    case False
    from find_and_set_free [OF bm(1) False] obtain m where
      m: "bitmap_find_and_set (mem s1) ?bm = Inr (of_nat (Min ?F), m)" "bm_raw m ?bm = bm_raw (mem s1) ?bm - {Min ?F}" by blast
    have fin: "finite ?F" using finite_bm_raw [of "mem s1" ?bm] by (simp add: bm_free_raw [OF bm(1)])
    have "Min ?F \<in> ?F" using False fin by simp
    then have lt: "Min ?F < 256" using len by (simp add: bm_free_def)
    have fd: "(ucast (of_nat (Min ?F) :: u64) :: i32) = of_nat (Min ?F)"
      using lt by (simp add: unsigned_of_nat take_bit_nat_eq_self)
    have u: "unat (of_nat (Min ?F) :: i32) = Min ?F" using lt by (simp add: unat_of_nat)
    then have ne: "(of_nat (Min ?F) :: i32) \<noteq> 256" using lt by auto
    have "vfs_open get_mnt relative ops_open p abspath oflags s = Inr (of_nat (Min ?F), s1\<lparr>mem := m, procs := (procs s1)(p \<mapsto>
        pr\<lparr>pr_fds := (pr_fds pr)[Min ?F := \<lparr>fs_file_id = scast fs_id, fd_head = 0\<rparr>]\<rparr>)\<rparr>)"
      using run m(1) u ne lt by (simp add: vfs_open_def Let_def const_defs fd set_proc_def)
    then show ?thesis using False bm_free_after [OF bm(1) m(2)] by (auto simp: Let_def)
  qed
qed

end
