(* ===== verification/Spec2Isabelle.thy ===== *)
theory Spec2Isabelle
  imports Trap Boot_Asm Creation Kernel_Map Ownership Heap_Clients Lifetime Vfs
begin

text \<open>
  Verification of the b0s kernel (\<^verbatim>\<open>src/kernel\<close>), a small x86-64 kernel in C: memory management,
  multitasking, console, descriptor tables, timers, boot and the start of a file system layer.

  \<^bold>\<open>The program.\<close> \<^verbatim>\<open>kmain\<close> reads the tags the boot loader passes, then initialises the console, the
  physical page allocator, the address spaces, the kernel heap, the ACPI tables, the descriptor tables,
  the interrupt controllers, the timers, the boot process and the scheduler, and idles. The physical
  page allocator (\<^verbatim>\<open>mm/pmm.c\<close>) builds a table of regions from the boot map and keeps a bitmap of free
  pages per available region. The page-table code (\<^verbatim>\<open>arch/x86_64/mm/mmu.c\<close>) takes pages from it for its
  tables. The virtual memory manager (\<^verbatim>\<open>mm/vmm.c\<close>) keeps a sorted list of regions per address space,
  allocates the list nodes from blocks of one page each, and backs address ranges with pages. The heap
  (\<^verbatim>\<open>mm/kheap.c\<close>) takes containers of whole pages from the manager and cuts them into blocks. Processes,
  their spaces and their stacks come from the heap and the manager; the scheduler walks an intrusive
  list of them and switches stacks in assembly.

  \<^bold>\<open>Theories and sources.\<close>
    \<^item> \<open>Prelude\<close>: integer types, \<^verbatim>\<open>types.h\<close>, \<^verbatim>\<open>lib/math/math.h\<close>, error values, byte memory with
      little-endian loads and stores, general lemmas. \<open>Layout\<close>: \<^verbatim>\<open>mm/layout.h\<close>, \<^verbatim>\<open>mm/paging.h\<close>, the loop
      over the pages of an address range.
    \<^item> \<open>Kstring\<close> (\<^verbatim>\<open>lib/string\<close>), \<open>Bitmap\<close> (\<^verbatim>\<open>lib/bitmap\<close>), \<open>Klist\<close> (\<^verbatim>\<open>lib/list\<close>), \<open>Dll\<close> (lemmas on the
      lists that end in NULL, used by three components).
    \<^item> \<open>Pmm\<close> (\<^verbatim>\<open>mm/pmm.c\<close>), \<open>Ownership\<close> (its clients as a state machine), \<open>Mmu\<close> (\<^verbatim>\<open>arch/x86_64/mm/mmu.c\<close>).
    \<^item> \<open>Vmm\<close> has all definitions of \<^verbatim>\<open>mm/vmm.c\<close> and the block allocator's invariant; \<open>Objects\<close> its contract
      as a pool of objects, \<open>Regions\<close> the region list (insertion, merging, cutting), \<open>Backing\<close> the
      allocation at an address, \<open>Gaps\<close> the allocation between bounds, \<open>Spaces\<close> the creation of a space and
      what makes it well typed, \<open>Sharing\<close> the copy of a space, \<open>Release\<close> the release of a range,
      \<open>Lifetime\<close> sequences of all of these, \<open>Kernel_Map\<close> the mapping of the kernel image.
    \<^item> \<open>Kheap\<close> (\<^verbatim>\<open>mm/kheap.c\<close>: definitions, block search and splitting), \<open>Kfree\<close> (release and merging),
      \<open>Growth\<close> (a new container), \<open>Shrink\<close> (the last area of a container and the container with it),
      \<open>Heap_Clients\<close> (sequences of calls).
    \<^item> \<open>Console\<close>: \<^verbatim>\<open>drivers/vga\<close>, \<^verbatim>\<open>lib/printk\<close>, \<^verbatim>\<open>lib/debug\<close>. \<open>Descriptors\<close>: \<^verbatim>\<open>gdt.c\<close>, \<^verbatim>\<open>gdt.asm\<close>, \<^verbatim>\<open>idt.c\<close>.
      \<open>Acpi\<close>: \<^verbatim>\<open>drivers/acpi\<close>. \<open>Devices\<close>: \<^verbatim>\<open>apic.c\<close>, \<^verbatim>\<open>pic.c\<close>, \<^verbatim>\<open>interrupts.c\<close>, \<^verbatim>\<open>hpet.c\<close>, \<^verbatim>\<open>asm.h\<close>.
    \<^item> \<open>Process\<close> has the definitions of \<^verbatim>\<open>multitasking\<close> and of its x86-64 part, \<open>Switch\<close> the context switch,
      \<open>Creation\<close> process numbers and children, \<open>Sched\<close> signals and scheduling. \<open>Boot\<close>: \<^verbatim>\<open>kmain.c\<close> and \<^verbatim>\<open>multiboot2.h\<close>.
    \<^item> The assembly: \<open>Boot_Asm\<close> is \<^verbatim>\<open>boot.asm\<close> (header, first page tables, feature tests, entry to long mode);
      \<open>Trap\<close> is \<^verbatim>\<open>interrupts/idt.asm\<close> as instruction lists run on a register file, with what the processor
      does on an interrupt and on \<^verbatim>\<open>iretq\<close>; \<open>Stack\<close> has the lemmas on words in memory both use.
      \<open>Vfs\<close>: \<^verbatim>\<open>fs/vfs.h\<close> and mounting, unmounting and opening of \<^verbatim>\<open>fs/vfs.c\<close>.

  \<^bold>\<open>How the code is modelled.\<close> Every C function is a definition with its name; C integers are words of
  their width. The state is a chain of records, each theory extending the one below: byte memory and
  the page allocator, page tables and the control register, region and space objects, heap headers,
  processes and registers. Bitmaps, page tables, stacks, device registers, tables of the firmware and
  the screen live in byte memory at their addresses. Structures reached through pointers and used by
  field only (regions, spaces, blocks, headers, processes, list nodes) are maps from addresses to
  records; an address outside the map is \<open>Fault\<close>, and an object is removed from its map when its memory
  is given back, so that a use after release is a \<open>Fault\<close> as well; the header of a heap block that was merged
  into its neighbour stays in the map, as its bytes stay readable in the code. A result is an error or a value;
  the errors are a call of \<^verbatim>\<open>panic\<close> with its message, a read of an uninitialised variable, undefined
  shifts and overflows, division by zero, \<open>Fault\<close>, a loop over pages whose address wraps round, and
  \<open>No_Return\<close>. Loops over pointers and loops that end only at a sentinel are partial functions whose
  value \<open>None\<close> (made \<open>No_Return\<close> by \<open>ret\<close>) is a loop that never ends; no fuel is used anywhere, and
  where a property says that an operation returns, this is proved. Content of memory that the code
  does not initialise, what the hardware answers, the addresses of static objects and linker symbols
  are arguments.

  \<^bold>\<open>Interfaces.\<close> Five locales state what one component relies on of another, each interpreted on the
  model: \<open>slot_allocator\<close> (\<open>Bitmap\<close>: taking the least free slot), \<open>page_allocator\<close> (\<open>Pmm\<close>: distinct
  free pages), \<open>page_mapper\<close> (\<open>Mmu\<close>: an entry per virtual page), \<open>list_contract\<close> (\<open>Klist\<close>) and
  \<open>object_pool\<close> (\<open>Objects\<close>: fresh objects that stay apart).

  \<^bold>\<open>What is proved.\<close>
    \<^item> Pages: the region table holds one region for each used entry of the boot map, sorted and disjoint;
      initialisation frees the pages above the bitmaps, allocation takes one free page, and no
      sequence of allocations and of releases that the bitmap can handle hands out a page twice.
    \<^item> Page tables: mapping changes one entry of one space and keeps the tree of tables; translation
      after mapping, unmapping, new spaces.
    \<^item> Regions: adding a range refines insertion with merging into a sorted list of disjoint ranges and
      panics on overlap; removing cuts, shrinks or splits; allocation at an address and between bounds
      covers exactly the range, backs every page by a page of its own, and keeps a guard page (when no
      region straddles the lower bound or ends below it as the last one); release unmaps the range
      and gives its pages back.
    \<^item> Spaces: a new space is well typed, region list and page tables agreeing address by address, and
      every sequence of the allocations and releases that the code handles keeps it so and leaves other spaces alone; probing
      a loaded space never faults; a copied space has the regions and the page-table entries of the
      original.
    \<^item> Heap: block search is first fit on the list of chunks; areas in use stay disjoint; release joins
      the chunk with its free neighbours, and the release of the last area gives the container back;
      growth always satisfies the request when the manager has a range; over sequences of calls, less
      the releases that corrupt the list or cannot be taken back, the areas clients hold never overlap.
    \<^item> Boot: on a processor with the required features \<^verbatim>\<open>kmain\<close> is entered in long mode with the loader's
      arguments, under tables that give each of the first two gibibytes its three addresses; the kernel's own tables translate
      the image as these do, so the check \<^verbatim>\<open>mmu_test_kernel_mapping\<close> passes.
    \<^item> Interrupts: through the gates the kernel installs, a spurious interrupt and a system call of
      privilege level 0 leave every register of the interrupted program as it was and memory outside the
      stack below it; a preempted program resumes from its frame.
    \<^item> Tasks: a switch and the switch back restore all registers; a new process has the least unused
      number, is among the children of its parent and leaves the kernel in user mode at its
      entry point; the scheduler picks the first ready process on its list as long as the static
      memory round the list head does not read as a ready process or a zombie; signals are delivered
      lowest first.
    \<^item> Files: mounting registers a fresh area with both names.
    \<^item> Support: lists, bitmaps, number printing and the format language on the screen, gates of the
      interrupt table, ACPI search, the boot tags, the timer.
    \<^item> Where the code fails, the failure is a theorem: bitmap blocks handed out as free pages, ranges outside
      the bounds or next to a mapped region, links left dangling by a release, the list head taken for a
      process, software interrupts from user mode.

  \<^bold>\<open>Limits.\<close> Release of a page or of an object of the manager is proved for bitmap positions above 32 in
  their block: the code shifts an \<^verbatim>\<open>int\<close>, which is undefined below 32 and frees 33 slots at 32 (lemmas in
  \<open>Bitmap\<close>). All properties on releases (\<open>Ownership\<close>, \<open>Release\<close>, \<open>Lifetime\<close>, \<open>Shrink\<close>, \<open>Heap_Clients\<close>) have this limit.

  Byte memory is indexed by virtual address. The direct-map address and the kernel-window address of one
  frame are therefore two separate cells of it: a write through one is not seen through the other.
  The bitmaps of the page allocator are reached through the kernel window, page tables, cleared pages and
  firmware tables through the direct map. So the model does not show that clearing a page through the
  direct map overwrites a bitmap that lies in the same frame, which happens when a page that holds
  bitmap blocks is handed out; what is shown is that such pages are handed out
  (\<open>pmm_init_exposes_bitmap\<close>). The frame conditions on memory hold of the program for states in which no
  page in use holds bitmap blocks. User addresses occur only as keys of page tables.

  The stack words the compiled code of the dispatcher leaves below the trap frame are an argument
  of the interrupt path, at most as many as a kernel stack holds.

  \<^bold>\<open>Not modelled.\<close> The functions of \<^verbatim>\<open>fs/vfs.c\<close> that do not compile: \<^verbatim>\<open>vfs_get_mnt\<close> (an undeclared
  variable, a member that does not exist), \<^verbatim>\<open>vfs_relative\<close> (a sum of two pointers), \<^verbatim>\<open>vfs_close\<close>, \<^verbatim>\<open>vfs_read\<close>
  and \<^verbatim>\<open>vfs_write\<close> (members that do not exist, an incomplete expression); \<^verbatim>\<open>vfs_open\<close> takes the first two
  and the file system's own function as arguments. \<^verbatim>\<open>idt_debug_call\<close>, a helper without
  callers that jumps to an entry stub; the 32-bit stack of the boot code; \<^verbatim>\<open>ASSERT\<close> and \<^verbatim>\<open>TRACE\<close>, which are empty in the default
  build; the structures of \<^verbatim>\<open>multiboot2.h\<close> that the kernel does not read; the empty \<^verbatim>\<open>ahci\<close>, \<^verbatim>\<open>pci\<close> and
  \<^verbatim>\<open>darray\<close> files; the unit tests.
\<close>

end
